(* ===== verification/Prelude.thy ===== *)
theory Prelude
  imports Main "HOL-Library.Word" "HOL-Library.Monad_Syntax"
begin

unbundle bit_operations_syntax

text \<open>
  Shared by every component: the widths of the C integer types, pointers of the
  32-bit target, the fault monad (\<open>option\<close>, where \<open>None\<close> is an access through a
  null or dangling pointer or outside an array), and the generic facts on lists,
  maps and words that the component proofs use.

  A C operation is a function from its arguments and the state to \<open>option\<close> of its
  result and the new state. A theorem that an operation returns \<open>Some\<close> is therefore
  also the theorem that it makes no bad memory access on that path.
\<close>

section \<open>Machine types\<close>

type_synonym u8 = "8 word"
type_synonym u16 = "16 word"
type_synonym u32 = "32 word"
type_synonym u64 = "64 word"

type_synonym ptr = "32 word"

abbreviation (input) NULL :: ptr where
  "NULL \<equiv> 0"

named_theorems heap_simps \<open>reads and writes of the object stores\<close>
named_theorems word_nat \<open>moving word arithmetic to natural numbers\<close>

section \<open>The ends of a list\<close>

text \<open>First and last element of a list, or a default: what the head and tail pointers
  of a linked structure hold.\<close>

definition hd_or :: "'a \<Rightarrow> 'a list \<Rightarrow> 'a" where
  "hd_or n xs = (case xs of [] \<Rightarrow> n | x # _ \<Rightarrow> x)"

definition last_or :: "'a \<Rightarrow> 'a list \<Rightarrow> 'a" where
  "last_or p xs = (if xs = [] then p else last xs)"

lemma hd_or_simps [simp]:
  "hd_or n [] = n"
  "hd_or n (x # xs) = x"
  by (simp_all add: hd_or_def)

lemma last_or_simps [simp]:
  "last_or p [] = p"
  "last_or p (x # xs) = last_or x xs"
  by (simp_all add: last_or_def)

lemma hd_or_append [simp]: "hd_or n (xs @ ys) = hd_or (hd_or n ys) xs"
  by (cases xs) simp_all

lemma last_or_append [simp]: "last_or p (xs @ ys) = last_or (last_or p xs) ys"
  by (induction xs arbitrary: p) simp_all

lemma hd_or_in: "xs \<noteq> [] \<Longrightarrow> hd_or n xs \<in> set xs"
  by (cases xs) simp_all

lemma last_or_in: "xs \<noteq> [] \<Longrightarrow> last_or p xs \<in> set xs"
  by (simp add: last_or_def)

lemma last_or_snoc: "xs \<noteq> [] \<Longrightarrow> \<exists>ys. xs = ys @ [last_or p xs]"
  by (metis append_butlast_last_id last_or_def)

text \<open>The parts of a duplicate-free concatenation are disjoint.\<close>

lemma distinct_concat_nth_disjoint:
  "distinct (concat xss) \<Longrightarrow> i < length xss \<Longrightarrow> j < length xss \<Longrightarrow> i \<noteq> j \<Longrightarrow>
   set (xss ! i) \<inter> set (xss ! j) = {}"
proof (induction xss arbitrary: i j)
  case Nil
  then show ?case by simp
next
  case (Cons xs xss)
  have "set xs \<inter> set (xss ! k) = {}" if "k < length xss" for k
    using Cons.prems(1) that by fastforce
  then show ?case
    using Cons by (cases i; cases j) (auto simp: Int_commute)
qed

text \<open>Bounded quantifiers over indices.\<close>

lemma all_less_Suc_iff: "(\<forall>j < Suc n. P j) \<longleftrightarrow> P 0 \<and> (\<forall>j < n. P (Suc j))"
  using less_Suc_eq_0_disj by auto

lemma all_less_two: "(\<forall>i < (2 :: nat). P i) \<longleftrightarrow> P 0 \<and> P (Suc 0)"
  by (auto simp: less_2_cases_iff)

section \<open>Words\<close>

lemma word_nat_less_len [word_nat]: "unat (w :: 'a :: len word) < 2 ^ LENGTH('a)"
  by simp

lemma of_nat_unat_id [simp]: "(of_nat (unat w) :: 'a :: len word) = w"
  by simp

lemma unat_of_nat_small [word_nat]:
  "n < 2 ^ LENGTH('a) \<Longrightarrow> unat (of_nat n :: 'a :: len word) = n"
  by (simp add: unat_of_nat)

lemma of_nat_eq_iff_small:
  assumes "m < 2 ^ LENGTH('a)" "n < 2 ^ LENGTH('a)"
  shows "(of_nat m :: 'a :: len word) = of_nat n \<longleftrightarrow> m = n"
  using assms by (metis unat_of_nat_small)

lemma of_nat_eq_0_small:
  assumes "n < 2 ^ LENGTH('a)"
  shows "(of_nat n :: 'a :: len word) = 0 \<longleftrightarrow> n = 0"
  using of_nat_eq_iff_small [of n 0] assms by simp

lemma of_nat_eq_word_iff:
  assumes "n < 2 ^ LENGTH('a)"
  shows "(w :: 'a :: len word) = of_nat n \<longleftrightarrow> unat w = n"
  using assms by (metis of_nat_unat_id unat_of_nat_small)

lemma unat_pos: "w \<noteq> 0 \<Longrightarrow> 0 < unat (w :: 'a :: len word)"
  by (simp add: unat_gt_0)

text \<open>Widening keeps the value, narrowing takes it modulo the new width.\<close>

lemma unat_ucast_up [word_nat]:
  assumes "LENGTH('a) \<le> LENGTH('b)"
  shows "unat (ucast (w :: 'a :: len word) :: 'b :: len word) = unat w"
proof -
  have "unat w < 2 ^ LENGTH('a)" by simp
  also have "(2 :: nat) ^ LENGTH('a) \<le> 2 ^ LENGTH('b)" using assms by simp
  finally show ?thesis by (simp add: unsigned_ucast_eq take_bit_nat_eq_self)
qed

lemma unat_ucast_mod: "unat (ucast w :: 'b :: len word) = unat w mod 2 ^ LENGTH('b)"
  by (simp add: unsigned_ucast_eq take_bit_eq_mod)

section \<open>Maps\<close>

lemma map_upd_other [simp]: "x \<noteq> y \<Longrightarrow> (m(x \<mapsto> v)) y = m y"
  by simp

section \<open>Arrays\<close>

text \<open>Array accesses fault outside the array.\<close>

definition nth_opt :: "'a list \<Rightarrow> nat \<Rightarrow> 'a option" where
  "nth_opt xs i = (if i < length xs then Some (xs ! i) else None)"

definition upd_opt :: "'a list \<Rightarrow> nat \<Rightarrow> 'a \<Rightarrow> 'a list option" where
  "upd_opt xs i x = (if i < length xs then Some (xs[i := x]) else None)"

lemma nth_opt_Some [simp]: "i < length xs \<Longrightarrow> nth_opt xs i = Some (xs ! i)"
  by (simp add: nth_opt_def)

lemma upd_opt_Some [simp]: "i < length xs \<Longrightarrow> upd_opt xs i x = Some (xs[i := x])"
  by (simp add: upd_opt_def)

lemma length_filter_update:
  "i < length xs \<Longrightarrow> length (filter P (xs[i := x])) + (if P (xs ! i) then 1 else 0) =
    length (filter P xs) + (if P x then 1 else 0)"
proof (induction xs arbitrary: i)
  case (Cons y ys)
  then show ?case
  proof (cases i)
    case (Suc j)
    then show ?thesis using Cons.IH [of j] Cons.prems by (cases "P y") simp_all
  qed simp
qed simp

end
