(* ===== verification/OSA_Irq.thy ===== *)
theory OSA_Irq
  imports Prelude
begin

text \<open>
  The critical sections of the bare-metal OS abstraction
  (\<open>OSAbstraction/Source/fsl_os_abstraction_bm.c\<close>): the global nesting counter and the
  interrupt mask of the core that \<open>OSA_DisableIRQGlobal\<close> and \<open>OSA_EnableIRQGlobal\<close>
  drive. The lemmas say that a balanced pair is the identity from every consistent
  state with room for one more level.
\<close>

record osa_irq =
  gInterruptDisableCount :: u32
  primask :: bool

definition OSA_DisableIRQGlobal :: "osa_irq \<Rightarrow> osa_irq" where
  "OSA_DisableIRQGlobal s =
     s\<lparr>primask := True, gInterruptDisableCount := gInterruptDisableCount s + 1\<rparr>"

definition OSA_EnableIRQGlobal :: "osa_irq \<Rightarrow> osa_irq" where
  "OSA_EnableIRQGlobal s =
     (if 0 < gInterruptDisableCount s then
        (let s = s\<lparr>gInterruptDisableCount := gInterruptDisableCount s - 1\<rparr> in
         if gInterruptDisableCount s = 0 then s\<lparr>primask := False\<rparr> else s)
      else s)"

text \<open>Consistent, with room for \<open>n\<close> further nested sections: interrupts are masked
  exactly while the counter is positive.\<close>

definition irq_ok :: "nat \<Rightarrow> osa_irq \<Rightarrow> bool" where
  "irq_ok n s \<longleftrightarrow> primask s = (gInterruptDisableCount s \<noteq> 0) \<and>
     unat (gInterruptDisableCount s) + n < 2 ^ 32"

lemma unat_disable_count:
  assumes "irq_ok (Suc n) s"
  shows "unat (gInterruptDisableCount s + 1) = Suc (unat (gInterruptDisableCount s))"
  using assms by (simp add: irq_ok_def unat_word_ariths)

lemma irq_ok_mono: "irq_ok n s \<Longrightarrow> m \<le> n \<Longrightarrow> irq_ok m s"
  by (auto simp: irq_ok_def)

lemma irq_ok_disable [simp, intro]:
  assumes "irq_ok (Suc n) s"
  shows "irq_ok n (OSA_DisableIRQGlobal s)"
proof -
  have "gInterruptDisableCount s + 1 \<noteq> 0"
    using unat_disable_count [OF assms] by (metis nat.distinct(1) unat_0)
  then show ?thesis
    using assms unat_disable_count [OF assms]
    by (simp add: irq_ok_def OSA_DisableIRQGlobal_def)
qed

lemma enable_disable [simp]:
  assumes "irq_ok (Suc n) s"
  shows "OSA_EnableIRQGlobal (OSA_DisableIRQGlobal s) = s"
proof -
  have "0 < gInterruptDisableCount s + 1"
    using unat_disable_count [OF assms] by (simp add: word_less_nat_alt)
  then show ?thesis
    using assms
    by (cases s) (auto simp: irq_ok_def OSA_DisableIRQGlobal_def OSA_EnableIRQGlobal_def Let_def)
qed

text \<open>Inside a section the core never takes an interrupt.\<close>

lemma disabled_masked [simp]: "primask (OSA_DisableIRQGlobal s)"
  by (simp add: OSA_DisableIRQGlobal_def)

text \<open>Leaving an inner section keeps interrupts masked: only the outermost enable
  unmasks them.\<close>

lemma nested_still_masked:
  assumes "irq_ok 2 s"
  shows "primask (OSA_EnableIRQGlobal (OSA_DisableIRQGlobal (OSA_DisableIRQGlobal s)))"
proof -
  have "irq_ok 1 (OSA_DisableIRQGlobal s)"
    using assms by (intro irq_ok_disable) (simp add: numeral_2_eq_2)
  then show ?thesis
    by (simp only: One_nat_def enable_disable disabled_masked)
qed

section \<open>Properties\<close>

lemma irq_ok_funpow_disable: "irq_ok (n + m) s \<Longrightarrow> irq_ok m ((OSA_DisableIRQGlobal ^^ n) s)"
proof (induction n arbitrary: m)
  case 0
  then show ?case by simp
next
  case (Suc n)
  then have "irq_ok (Suc m) ((OSA_DisableIRQGlobal ^^ n) s)" by simp
  then show ?case by simp
qed

lemma funpow_disable_masked: "0 < k \<Longrightarrow> primask ((OSA_DisableIRQGlobal ^^ k) s)"
  by (cases k) simp_all

lemma enable_funpow_disable:
  "k \<le> n \<Longrightarrow> irq_ok n s \<Longrightarrow>
   (OSA_EnableIRQGlobal ^^ k) ((OSA_DisableIRQGlobal ^^ n) s) = (OSA_DisableIRQGlobal ^^ (n - k)) s"
proof (induction k)
  case 0
  then show ?case by simp
next
  case (Suc k)
  obtain m where m: "n - k = Suc m" "n - Suc k = m" using Suc.prems by (cases "n - k") auto
  have "irq_ok (m + Suc 0) s" using irq_ok_mono [OF Suc.prems(2), of "m + Suc 0"] m by simp
  then have "irq_ok (Suc 0) ((OSA_DisableIRQGlobal ^^ m) s)" by (rule irq_ok_funpow_disable)
  then show ?case using Suc m by simp
qed

text \<open>Here \<open>n\<close> nested critical sections, for any \<open>n\<close> the counter has room for, keep
  interrupts masked until the outermost one is left, and leaving all of them restores the
  interrupt state exactly.\<close>

theorem nested_sections_restore:
  assumes "irq_ok n s"
  shows "(OSA_EnableIRQGlobal ^^ n) ((OSA_DisableIRQGlobal ^^ n) s) = s \<and>
    (\<forall>k < n. primask ((OSA_EnableIRQGlobal ^^ k) ((OSA_DisableIRQGlobal ^^ n) s)))"
  using assms by (simp add: enable_funpow_disable funpow_disable_masked)

theorem nested_sections_restore_witness:
  "(OSA_EnableIRQGlobal ^^ 3) ((OSA_DisableIRQGlobal ^^ 3)
     \<lparr>gInterruptDisableCount = 0, primask = False\<rparr>) = \<lparr>gInterruptDisableCount = 0, primask = False\<rparr>"
  using nested_sections_restore [of 3 "\<lparr>gInterruptDisableCount = 0, primask = False\<rparr>"]
  by (simp add: irq_ok_def)

end
