(* ===== verification/Generic_List.thy ===== *)
theory Generic_List
  imports OSA_Irq
begin

text \<open>
  The intrusive doubly linked lists of the connectivity framework
  (\<open>Lists/GenericList.c\<close>). List descriptors and list elements live in two object
  stores indexed by address, and every operation is the sequence of reads and writes of
  the C function, inside its critical section. An abstract state gives each descriptor
  the sequence of its elements; \<open>heap_refines\<close> relates the two, and each operation
  refines its abstract counterpart.
\<close>

section \<open>Data\<close>

datatype listStatus = gListOk_c | gListFull_c | gListEmpty_c | gOrphanElement_c

record list_t =
  l_head :: ptr
  l_tail :: ptr
  l_size :: u16
  l_max :: u16

record listElement =
  el_next :: ptr
  el_prev :: ptr
  el_list :: ptr

record list_heap =
  hlists :: "ptr \<rightharpoonup> list_t"
  elems :: "ptr \<rightharpoonup> listElement"
  irq :: osa_irq

text \<open>Reads and writes through a pointer fault on \<open>NULL\<close> and on an address that
  holds no object.\<close>

definition get_list :: "ptr \<Rightarrow> list_heap \<Rightarrow> list_t option" where
  "get_list p h = (if p = NULL then None else hlists h p)"

definition get_elem :: "ptr \<Rightarrow> list_heap \<Rightarrow> listElement option" where
  "get_elem p h = (if p = NULL then None else elems h p)"

definition mod_list :: "ptr \<Rightarrow> (list_t \<Rightarrow> list_t) \<Rightarrow> list_heap \<Rightarrow> list_heap option" where
  "mod_list p f h = do { l \<leftarrow> get_list p h; Some (h\<lparr>hlists := (hlists h)(p \<mapsto> f l)\<rparr>) }"

definition mod_elem :: "ptr \<Rightarrow> (listElement \<Rightarrow> listElement) \<Rightarrow> list_heap \<Rightarrow> list_heap option" where
  "mod_elem p f h = do { e \<leftarrow> get_elem p h; Some (h\<lparr>elems := (elems h)(p \<mapsto> f e)\<rparr>) }"

definition OSA_InterruptDisable :: "list_heap \<Rightarrow> list_heap" where
  "OSA_InterruptDisable h = h\<lparr>irq := OSA_DisableIRQGlobal (irq h)\<rparr>"

definition OSA_InterruptEnable :: "list_heap \<Rightarrow> list_heap" where
  "OSA_InterruptEnable h = h\<lparr>irq := OSA_EnableIRQGlobal (irq h)\<rparr>"

section \<open>Operations\<close>

definition ListInit :: "ptr \<Rightarrow> u32 \<Rightarrow> list_heap \<Rightarrow> list_heap option" where
  "ListInit list mx h = do {
     h \<leftarrow> mod_list list (l_head_update (\<lambda>_. NULL)) h;
     h \<leftarrow> mod_list list (l_tail_update (\<lambda>_. NULL)) h;
     h \<leftarrow> mod_list list (l_max_update (\<lambda>_. ucast mx)) h;
     mod_list list (l_size_update (\<lambda>_. 0)) h }"

definition ListGetList :: "ptr \<Rightarrow> list_heap \<Rightarrow> ptr option" where
  "ListGetList element h = do { e \<leftarrow> get_elem element h; Some (el_list e) }"

definition ListAddTail :: "ptr \<Rightarrow> ptr \<Rightarrow> list_heap \<Rightarrow> (listStatus \<times> list_heap) option" where
  "ListAddTail list element h = do {
     let h = OSA_InterruptDisable h;
     l \<leftarrow> get_list list h;
     if l_max l \<noteq> 0 \<and> l_max l = l_size l then Some (gListFull_c, OSA_InterruptEnable h)
     else do {
       h \<leftarrow> (if l_size l = 0 then mod_list list (l_head_update (\<lambda>_. element)) h
            else mod_elem (l_tail l) (el_next_update (\<lambda>_. element)) h);
       h \<leftarrow> mod_elem element (el_prev_update (\<lambda>_. l_tail l)) h;
       h \<leftarrow> mod_elem element (el_next_update (\<lambda>_. NULL)) h;
       h \<leftarrow> mod_elem element (el_list_update (\<lambda>_. list)) h;
       h \<leftarrow> mod_list list (l_tail_update (\<lambda>_. element)) h;
       h \<leftarrow> mod_list list (l_size_update (\<lambda>n. n + 1)) h;
       Some (gListOk_c, OSA_InterruptEnable h) } }"

definition ListAddHead :: "ptr \<Rightarrow> ptr \<Rightarrow> list_heap \<Rightarrow> (listStatus \<times> list_heap) option" where
  "ListAddHead list element h = do {
     let h = OSA_InterruptDisable h;
     l \<leftarrow> get_list list h;
     if l_max l \<noteq> 0 \<and> l_max l = l_size l then Some (gListFull_c, OSA_InterruptEnable h)
     else do {
       h \<leftarrow> (if l_size l = 0 then mod_list list (l_tail_update (\<lambda>_. element)) h
            else mod_elem (l_head l) (el_prev_update (\<lambda>_. element)) h);
       h \<leftarrow> mod_elem element (el_next_update (\<lambda>_. l_head l)) h;
       h \<leftarrow> mod_elem element (el_prev_update (\<lambda>_. NULL)) h;
       h \<leftarrow> mod_elem element (el_list_update (\<lambda>_. list)) h;
       h \<leftarrow> mod_list list (l_head_update (\<lambda>_. element)) h;
       h \<leftarrow> mod_list list (l_size_update (\<lambda>n. n + 1)) h;
       Some (gListOk_c, OSA_InterruptEnable h) } }"

definition ListRemoveHead :: "ptr \<Rightarrow> list_heap \<Rightarrow> (ptr \<times> list_heap) option" where
  "ListRemoveHead list h = do {
     let h = OSA_InterruptDisable h;
     if list = NULL then Some (NULL, OSA_InterruptEnable h)
     else do {
       l \<leftarrow> get_list list h;
       if l_size l = 0 then Some (NULL, OSA_InterruptEnable h)
       else do {
         let element = l_head l;
         h \<leftarrow> mod_list list (l_size_update (\<lambda>n. n - 1)) h;
         l \<leftarrow> get_list list h;
         e \<leftarrow> get_elem element h;
         h \<leftarrow> (if l_size l = 0 then mod_list list (l_tail_update (\<lambda>_. NULL)) h
              else mod_elem (el_next e) (el_prev_update (\<lambda>_. NULL)) h);
         e \<leftarrow> get_elem element h;
         h \<leftarrow> mod_list list (l_head_update (\<lambda>_. el_next e)) h;
         h \<leftarrow> mod_elem element (el_list_update (\<lambda>_. NULL)) h;
         Some (element, OSA_InterruptEnable h) } } }"

definition ListGetHead :: "ptr \<Rightarrow> list_heap \<Rightarrow> ptr option" where
  "ListGetHead list h = do { l \<leftarrow> get_list list h; Some (l_head l) }"

definition ListGetNext :: "ptr \<Rightarrow> list_heap \<Rightarrow> ptr option" where
  "ListGetNext element h = do { e \<leftarrow> get_elem element h; Some (el_next e) }"

definition ListGetPrev :: "ptr \<Rightarrow> list_heap \<Rightarrow> ptr option" where
  "ListGetPrev element h = do { e \<leftarrow> get_elem element h; Some (el_prev e) }"

definition ListRemoveElement :: "ptr \<Rightarrow> list_heap \<Rightarrow> (listStatus \<times> list_heap) option" where
  "ListRemoveElement element h = do {
     e \<leftarrow> get_elem element h;
     if el_list e = NULL then Some (gOrphanElement_c, h)
     else do {
       let h = OSA_InterruptDisable h;
       h \<leftarrow> (if el_prev e = NULL
            then mod_list (el_list e) (l_head_update (\<lambda>_. el_next e)) h else Some h);
       h \<leftarrow> (if el_next e = NULL
            then mod_list (el_list e) (l_tail_update (\<lambda>_. el_prev e)) h else Some h);
       h \<leftarrow> (if el_prev e \<noteq> NULL
            then mod_elem (el_prev e) (el_next_update (\<lambda>_. el_next e)) h else Some h);
       e \<leftarrow> get_elem element h;
       h \<leftarrow> (if el_next e \<noteq> NULL
            then mod_elem (el_next e) (el_prev_update (\<lambda>_. el_prev e)) h else Some h);
       e \<leftarrow> get_elem element h;
       h \<leftarrow> mod_list (el_list e) (l_size_update (\<lambda>n. n - 1)) h;
       h \<leftarrow> mod_elem element (el_list_update (\<lambda>_. NULL)) h;
       Some (gListOk_c, OSA_InterruptEnable h) } }"

definition ListAddPrevElement :: "ptr \<Rightarrow> ptr \<Rightarrow> list_heap \<Rightarrow> (listStatus \<times> list_heap) option" where
  "ListAddPrevElement element newElement h = do {
     e \<leftarrow> get_elem element h;
     if el_list e = NULL then Some (gOrphanElement_c, h)
     else do {
       let h = OSA_InterruptDisable h;
       l \<leftarrow> get_list (el_list e) h;
       if l_max l \<noteq> 0 \<and> l_max l = l_size l then Some (gListFull_c, OSA_InterruptEnable h)
       else do {
         h \<leftarrow> (if el_prev e = NULL
              then mod_list (el_list e) (l_head_update (\<lambda>_. newElement)) h
              else mod_elem (el_prev e) (el_next_update (\<lambda>_. newElement)) h);
         h \<leftarrow> mod_elem newElement (el_list_update (\<lambda>_. el_list e)) h;
         h \<leftarrow> mod_list (el_list e) (l_size_update (\<lambda>n. n + 1)) h;
         h \<leftarrow> mod_elem newElement (el_next_update (\<lambda>_. element)) h;
         h \<leftarrow> mod_elem newElement (el_prev_update (\<lambda>_. el_prev e)) h;
         h \<leftarrow> mod_elem element (el_prev_update (\<lambda>_. newElement)) h;
         Some (gListOk_c, OSA_InterruptEnable h) } } }"

definition ListGetSize :: "ptr \<Rightarrow> list_heap \<Rightarrow> u32 option" where
  "ListGetSize list h = do { l \<leftarrow> get_list list h; Some (ucast (l_size l)) }"

text \<open>C promotes both operands to \<open>int\<close> before the subtraction, so the result converted
  to \<open>uint32_t\<close> is the difference modulo \<open>2 ^ 32\<close>, also for an unlimited list.\<close>

definition ListGetAvailable :: "ptr \<Rightarrow> list_heap \<Rightarrow> u32 option" where
  "ListGetAvailable list h =
     do { l \<leftarrow> get_list list h; Some (ucast (l_max l) - ucast (l_size l)) }"

definition ListTest :: listStatus where
  "ListTest = gListOk_c"

lemmas list_op_defs = get_list_def get_elem_def mod_list_def mod_elem_def
  OSA_InterruptDisable_def OSA_InterruptEnable_def Let_def

section \<open>The representation of a list in the heap\<close>

text \<open>\<open>dseg m l p xs n\<close>: in the element store \<open>m\<close> the elements \<open>xs\<close> of the list
  \<open>l\<close> are linked in this order in both directions, between a predecessor \<open>p\<close> and a
  successor \<open>n\<close>.\<close>

fun dseg :: "(ptr \<rightharpoonup> listElement) \<Rightarrow> ptr \<Rightarrow> ptr \<Rightarrow> ptr list \<Rightarrow> ptr \<Rightarrow> bool" where
  "dseg m l p [] n = True"
| "dseg m l p (x # xs) n = (x \<noteq> NULL \<and>
     m x = Some \<lparr>el_next = hd_or n xs, el_prev = p, el_list = l\<rparr> \<and> dseg m l x xs n)"

definition list_rep :: "list_heap \<Rightarrow> ptr \<Rightarrow> ptr list \<Rightarrow> u16 \<Rightarrow> bool" where
  "list_rep h l xs mx \<longleftrightarrow> l \<noteq> NULL \<and> length xs < 2 ^ 16 \<and>
     hlists h l = Some \<lparr>l_head = hd_or NULL xs, l_tail = last_or NULL xs,
                       l_size = of_nat (length xs), l_max = mx\<rparr> \<and>
     distinct xs \<and> dseg (elems h) l NULL xs NULL"

lemma dseg_append [simp]:
  "dseg m l p (xs @ ys) n \<longleftrightarrow> dseg m l p xs (hd_or n ys) \<and> dseg m l (last_or p xs) ys n"
  by (induction xs arbitrary: p) auto

lemma dseg_upd [simp]: "x \<notin> set xs \<Longrightarrow> dseg (m(x := v)) l p xs n = dseg m l p xs n"
  by (induction xs arbitrary: p) auto

lemma dseg_cong: "(\<And>x. x \<in> set xs \<Longrightarrow> m x = m' x) \<Longrightarrow> dseg m l p xs n = dseg m' l p xs n"
  by (induction xs arbitrary: p) auto

lemma dseg_not_null: "dseg m l p xs n \<Longrightarrow> x \<in> set xs \<Longrightarrow> x \<noteq> NULL"
  by (induction xs arbitrary: p) auto

lemma dseg_el_list: "dseg m l p xs n \<Longrightarrow> x \<in> set xs \<Longrightarrow> \<exists>e. m x = Some e \<and> el_list e = l"
  by (induction xs arbitrary: p) auto

section \<open>The abstract state and the refinement relation\<close>

text \<open>Every descriptor with the sequence of its elements and its capacity (0: no
  limit).\<close>

type_synonym alists = "ptr \<rightharpoonup> ptr list \<times> u16"

definition heap_refines :: "list_heap \<Rightarrow> alists \<Rightarrow> bool" where
  "heap_refines h A \<longleftrightarrow> dom (hlists h) = dom A \<and>
     (\<forall>l xs mx. A l = Some (xs, mx) \<longrightarrow> list_rep h l xs mx) \<and>
     (\<forall>p e. elems h p = Some e \<longrightarrow> el_list e \<noteq> NULL \<longrightarrow>
        (\<exists>xs mx. A (el_list e) = Some (xs, mx) \<and> p \<in> set xs))"

text \<open>An element that is in no list.\<close>

definition orphan :: "list_heap \<Rightarrow> ptr \<Rightarrow> bool" where
  "orphan h p \<longleftrightarrow> p \<noteq> NULL \<and> (\<exists>e. elems h p = Some e \<and> el_list e = NULL)"

fun abs_full :: "ptr list \<Rightarrow> u16 \<Rightarrow> bool" where
  "abs_full xs mx = (mx \<noteq> 0 \<and> length xs = unat mx)"

lemma orphanE:
  assumes "orphan h p"
  obtains n q where "elems h p = Some \<lparr>el_next = n, el_prev = q, el_list = NULL\<rparr>" "p \<noteq> NULL"
proof -
  from assms obtain e where "elems h p = Some e" "el_list e = NULL" "p \<noteq> NULL"
    by (auto simp: orphan_def)
  then show thesis by (cases e) (auto intro: that)
qed

text \<open>What the element links become when the sequence of one list changes: the other
  elements keep theirs, and an element that leaves is an orphan.\<close>

definition links_change :: "list_heap \<Rightarrow> list_heap \<Rightarrow> ptr \<Rightarrow> ptr list \<Rightarrow> ptr list \<Rightarrow> bool" where
  "links_change h h' l xs xs' \<longleftrightarrow>
     (\<forall>q. q \<noteq> l \<longrightarrow> hlists h' q = hlists h q) \<and>
     (\<forall>p. p \<notin> set xs \<union> set xs' \<longrightarrow> elems h' p = elems h p) \<and>
     (\<forall>p. p \<in> set xs - set xs' \<longrightarrow> (\<exists>e. elems h' p = Some e \<and> el_list e = NULL))"

lemma heap_refines_repD: "heap_refines h A \<Longrightarrow> A l = Some (xs, mx) \<Longrightarrow> list_rep h l xs mx"
  by (auto simp: heap_refines_def)

lemma heap_refines_None: "heap_refines h A \<Longrightarrow> A l = None \<longleftrightarrow> hlists h l = None"
  unfolding heap_refines_def by (metis domIff)

lemma heap_refines_member:
  "heap_refines h A \<Longrightarrow> A l = Some (xs, mx) \<Longrightarrow> x \<in> set xs \<Longrightarrow>
   \<exists>e. elems h x = Some e \<and> el_list e = l"
  by (auto simp: list_rep_def dest!: heap_refines_repD dest: dseg_el_list)

lemma heap_refines_disjoint:
  assumes "heap_refines h A" "A l = Some (xs, mx)" "A l' = Some (ys, my)" "l \<noteq> l'"
  shows "set xs \<inter> set ys = {}"
  using heap_refines_member [OF assms(1,2)] heap_refines_member [OF assms(1,3)] assms(4)
  by fastforce

lemma orphan_notin:
  assumes "heap_refines h A" "orphan h p" "A l = Some (xs, mx)"
  shows "p \<notin> set xs"
  using heap_refines_member [OF assms(1,3)] assms(2) heap_refines_repD [OF assms(1,3)]
  by (fastforce simp: orphan_def list_rep_def)

lemma dseg_unique:
  "dseg m l p xs NULL \<Longrightarrow> dseg m l p ys NULL \<Longrightarrow> hd_or NULL xs = hd_or NULL ys \<Longrightarrow> xs = ys"
proof (induction xs arbitrary: p ys)
  case Nil
  then show ?case by (cases ys) auto
next
  case (Cons x xs)
  then obtain ys' where ys: "ys = x # ys'" by (cases ys) auto
  moreover have "xs = ys'"
    using Cons.prems ys by (intro Cons.IH [of x]) auto
  ultimately show ?case by simp
qed

text \<open>The abstract state is a function of the heap.\<close>

lemma heap_refines_functional:
  assumes A: "heap_refines h A" and B: "heap_refines h B"
  shows "A = B"
proof
  fix l
  show "A l = B l"
  proof (cases "A l")
    case None
    then show ?thesis
      using heap_refines_None [OF A, of l] heap_refines_None [OF B, of l] by simp
  next
    case (Some a)
    then obtain xs mx where a: "A l = Some (xs, mx)" by (cases a) auto
    moreover obtain ys my where b: "B l = Some (ys, my)"
      using heap_refines_None [OF A, of l] heap_refines_None [OF B, of l] a
      by (cases "B l") auto
    ultimately show ?thesis
      using heap_refines_repD [OF A a] heap_refines_repD [OF B b]
      by (auto simp: list_rep_def dest: dseg_unique)
  qed
qed

text \<open>The one step every operation takes: the sequence of one list is replaced, by one
  that took up orphans only.\<close>

lemma heap_refines_update:
  assumes R: "heap_refines h A" and l: "A l = Some (xs, mx)"
    and rep: "list_rep h' l xs' mx'"
    and ch: "links_change h h' l xs xs'"
    and new: "\<forall>p \<in> set xs' - set xs. orphan h p"
  shows "heap_refines h' (A(l \<mapsto> (xs', mx')))"
proof -
  have l0: "l \<noteq> NULL" using rep by (simp add: list_rep_def)
  have other: "list_rep h' q ys my" if q: "q \<noteq> l" "A q = Some (ys, my)" for q ys my
  proof -
    have "set ys \<inter> set xs = {}"
      using heap_refines_disjoint [OF R q(2) l q(1)] .
    moreover have "set ys \<inter> set xs' = {}"
      using new orphan_notin [OF R _ q(2)] calculation by blast
    ultimately have "elems h' p = elems h p" if "p \<in> set ys" for p
      using that ch by (auto simp: links_change_def)
    then have "dseg (elems h') q NULL ys NULL = dseg (elems h) q NULL ys NULL"
      by (intro dseg_cong)
    then show ?thesis
      using heap_refines_repD [OF R q(2)] q(1) ch by (simp add: list_rep_def links_change_def)
  qed
  have acc: "\<exists>ys my. (A(l \<mapsto> (xs', mx'))) (el_list e) = Some (ys, my) \<and> p \<in> set ys"
    if e: "elems h' p = Some e" "el_list e \<noteq> NULL" for p e
  proof -
    consider "p \<in> set xs'" | "p \<in> set xs - set xs'" | "p \<notin> set xs \<union> set xs'" by blast
    then show ?thesis
    proof cases
      case 1
      then show ?thesis
        using rep e dseg_el_list [of "elems h'" l NULL xs' NULL p] by (auto simp: list_rep_def)
    next
      case 2
      then show ?thesis using ch e by (auto simp: links_change_def)
    next
      case 3
      then have "elems h p = Some e" using ch e by (auto simp: links_change_def)
      then obtain ys my where "A (el_list e) = Some (ys, my)" "p \<in> set ys"
        using R e(2) unfolding heap_refines_def by blast
      then show ?thesis using 3 l by auto
    qed
  qed
  have "hlists h' q = None \<longleftrightarrow> (A(l \<mapsto> (xs', mx'))) q = None" for q
    using rep ch heap_refines_None [OF R, of q]
    by (cases "q = l") (simp_all add: list_rep_def links_change_def)
  then have "dom (hlists h') = dom (A(l \<mapsto> (xs', mx')))"
    by (intro set_eqI) (simp add: domIff)
  then show ?thesis
    using other acc rep by (auto simp: heap_refines_def)
qed

section \<open>Insertion before a member\<close>

fun insert_before :: "'a \<Rightarrow> 'a \<Rightarrow> 'a list \<Rightarrow> 'a list" where
  "insert_before x n [] = []"
| "insert_before x n (y # ys) = (if x = y then n # y # ys else y # insert_before x n ys)"

lemma insert_before_split [simp]:
  "x \<notin> set ys \<Longrightarrow> insert_before x n (ys @ x # zs) = ys @ n # x # zs"
  by (induction ys) auto

lemma remove1_split [simp]: "x \<notin> set ys \<Longrightarrow> remove1 x (ys @ x # zs) = ys @ zs"
  by (simp add: remove1_append)

section \<open>Each operation on one list\<close>

lemma size_full_iff:
  assumes "length xs < 2 ^ 16"
  shows "mx \<noteq> 0 \<and> mx = (of_nat (length xs) :: u16) \<longleftrightarrow> abs_full xs mx"
  using assms of_nat_eq_word_iff [of "length xs" mx] by auto

lemma ListAddTail_full:
  assumes "list_rep h l xs mx" "abs_full xs mx" "irq_ok 1 (irq h)"
  shows "ListAddTail l x h = Some (gListFull_c, h)"
  using assms size_full_iff [of xs mx]
  by (auto simp: ListAddTail_def list_op_defs list_rep_def)

lemma ListAddHead_full:
  assumes "list_rep h l xs mx" "abs_full xs mx" "irq_ok 1 (irq h)"
  shows "ListAddHead l x h = Some (gListFull_c, h)"
  using assms size_full_iff [of xs mx]
  by (auto simp: ListAddHead_def list_op_defs list_rep_def)

text \<open>An operation took the list \<open>l\<close> from \<open>xs\<close> to \<open>xs'\<close>.\<close>

definition list_step ::
  "list_heap \<Rightarrow> list_heap \<Rightarrow> ptr \<Rightarrow> ptr list \<Rightarrow> ptr list \<Rightarrow> u16 \<Rightarrow> bool" where
  "list_step h h' l xs xs' mx \<longleftrightarrow>
     list_rep h' l xs' mx \<and> links_change h h' l xs xs' \<and> irq h' = irq h"

lemmas list_step_defs = list_op_defs list_rep_def orphan_def links_change_def list_step_def

lemma ListAddTail_ok:
  assumes rep: "list_rep h l xs mx" and nf: "\<not> abs_full xs mx" and irq: "irq_ok 1 (irq h)"
    and x: "orphan h x" "x \<notin> set xs" and room: "length xs + 1 < 2 ^ 16"
  shows "\<exists>h'. ListAddTail l x h = Some (gListOk_c, h') \<and> list_step h h' l xs (xs @ [x]) mx"
proof -
  obtain n q where e: "elems h x = Some \<lparr>el_next = n, el_prev = q, el_list = NULL\<rparr>" "x \<noteq> NULL"
    using x(1) by (rule orphanE)
  have nfull: "\<not> (mx \<noteq> 0 \<and> mx = of_nat (length xs))"
    using nf rep by (simp add: size_full_iff list_rep_def)
  have sz: "(of_nat (length xs) :: u16) = 0 \<longleftrightarrow> xs = []"
    using room by (simp add: of_nat_eq_0_small)
  note base = rep [unfolded list_rep_def] 
  show ?thesis
  proof (cases xs rule: rev_cases)
    case Nil
    then show ?thesis
      using base nfull e irq by (simp add: ListAddTail_def list_step_defs)
  next
    case (snoc ys y)
    let ?ey = "\<lparr>el_next = NULL, el_prev = last_or NULL ys, el_list = l\<rparr>"
    have y: "elems h y = Some ?ey" "y \<noteq> NULL" "y \<noteq> x" 
      using base snoc x by auto
    have l: "hlists h l = Some \<lparr>l_head = hd_or NULL xs, l_tail = y, l_size = of_nat (length xs), l_max = mx\<rparr>" 
       "l \<noteq> NULL" using base snoc by auto
    have seg: "dseg (elems h) l NULL ys y" "distinct xs" "length xs < 2 ^ 16"
      using base snoc by auto
    let ?h' = "h\<lparr>elems := (elems h)(y \<mapsto> ?ey\<lparr>el_next := x\<rparr>,
         x \<mapsto> \<lparr>el_next = NULL, el_prev = y, el_list = l\<rparr>),
       hlists := (hlists h)(l \<mapsto> \<lparr>l_head = hd_or NULL xs, l_tail = x, l_size = of_nat (length xs) + 1, l_max = mx\<rparr>)\<rparr>"
    have "ListAddTail l x h = Some (gListOk_c, ?h')"
      using l y nfull e irq sz snoc by (simp add: ListAddTail_def list_op_defs)
    moreover have "list_step h ?h' l xs (xs @ [x]) mx"
      unfolding list_step_def
      using l y seg e x(2) room snoc
      by (simp add: list_rep_def links_change_def)
    ultimately show ?thesis by blast
  qed
qed

lemma ListAddHead_ok:
  assumes rep: "list_rep h l xs mx" and nf: "\<not> abs_full xs mx" and irq: "irq_ok 1 (irq h)"
    and x: "orphan h x" "x \<notin> set xs" and room: "length xs + 1 < 2 ^ 16"
  shows "\<exists>h'. ListAddHead l x h = Some (gListOk_c, h') \<and> list_step h h' l xs (x # xs) mx"
proof -
  obtain n q where e: "elems h x = Some \<lparr>el_next = n, el_prev = q, el_list = NULL\<rparr>" "x \<noteq> NULL"
    using x(1) by (rule orphanE)
  have nfull: "\<not> (mx \<noteq> 0 \<and> mx = of_nat (length xs))"
    using nf rep by (simp add: size_full_iff list_rep_def)
  have sz: "(of_nat (length xs) :: u16) = 0 \<longleftrightarrow> xs = []"
    using room by (simp add: of_nat_eq_0_small)
  note base = rep [unfolded list_rep_def]
  show ?thesis
  proof (cases xs)
    case Nil
    then show ?thesis
      using base nfull e irq by (simp add: ListAddHead_def list_step_defs)
  next
    case (Cons y ys)
    let ?h' = "h\<lparr>elems := (elems h)(y \<mapsto> \<lparr>el_next = hd_or NULL ys, el_prev = x, el_list = l\<rparr>,
         x \<mapsto> \<lparr>el_next = y, el_prev = NULL, el_list = l\<rparr>),
       hlists := (hlists h)(l \<mapsto> \<lparr>l_head = x, l_tail = last_or NULL xs,
                                    l_size = of_nat (length xs) + 1, l_max = mx\<rparr>)\<rparr>"
    have "ListAddHead l x h = Some (gListOk_c, ?h')"
      using base nfull e irq sz Cons x(2) by (simp add: ListAddHead_def list_op_defs)
    moreover have "list_step h ?h' l xs (x # xs) mx"
      using base e x(2) room Cons by (auto simp: list_step_defs)
    ultimately show ?thesis by blast
  qed
qed

lemma ListRemoveHead_empty:
  assumes "list_rep h l [] mx" "irq_ok 1 (irq h)"
  shows "ListRemoveHead l h = Some (NULL, h)"
  using assms by (simp add: ListRemoveHead_def list_step_defs)

lemma ListRemoveHead_null: "irq_ok 1 (irq h) \<Longrightarrow> ListRemoveHead NULL h = Some (NULL, h)"
  by (simp add: ListRemoveHead_def list_step_defs)

lemma ListRemoveHead_ok:
  assumes rep: "list_rep h l (x # xs) mx" and irq: "irq_ok 1 (irq h)"
  shows "\<exists>h'. ListRemoveHead l h = Some (x, h') \<and> list_step h h' l (x # xs) xs mx"
proof -
  note base = rep [unfolded list_rep_def]
  have sz: "(of_nat (length xs) :: u16) = 0 \<longleftrightarrow> xs = []"
      "(1 + of_nat (length xs) :: u16) \<noteq> 0"
    using base of_nat_eq_0_small [of "length xs", where ?'a = 16]
      of_nat_eq_0_small [of "Suc (length xs)", where ?'a = 16] by auto
  show ?thesis
  proof (cases xs)
    case Nil
    then show ?thesis
      using base irq by (simp add: ListRemoveHead_def list_step_defs)
  next
    case (Cons y ys)
    let ?h' = "h\<lparr>elems := (elems h)(y \<mapsto> \<lparr>el_next = hd_or NULL ys, el_prev = NULL, el_list = l\<rparr>,
         x \<mapsto> \<lparr>el_next = y, el_prev = NULL, el_list = NULL\<rparr>),
       hlists := (hlists h)(l \<mapsto> \<lparr>l_head = y, l_tail = last_or NULL xs,
                                    l_size = of_nat (length xs), l_max = mx\<rparr>)\<rparr>"
    have "ListRemoveHead l h = Some (x, ?h')"
      using base irq sz Cons by (simp add: ListRemoveHead_def list_op_defs fun_upd_twist)
    moreover have "list_step h ?h' l (x # xs) xs mx"
      using base Cons by (auto simp: list_step_defs)
    ultimately show ?thesis by blast
  qed
qed

lemma ListRemoveElement_orphan:
  assumes "orphan h x"
  shows "ListRemoveElement x h = Some (gOrphanElement_c, h)"
  using assms by (auto simp: ListRemoveElement_def list_op_defs orphan_def)

lemma ListRemoveElement_ok:
  assumes rep: "list_rep h l (ys @ x # zs) mx" and irq: "irq_ok 1 (irq h)"
  shows "\<exists>h'. ListRemoveElement x h = Some (gListOk_c, h') \<and>
    list_step h h' l (ys @ x # zs) (ys @ zs) mx"
proof -
  note base = rep [unfolded list_rep_def]
  show ?thesis
  proof (cases ys rule: rev_cases)
    case Nil
    then show ?thesis
      using base irq
      by (cases zs) (simp_all add: ListRemoveElement_def list_step_defs, auto)
  next
    case (snoc ys' y)
    then show ?thesis
      using base irq
      by (cases zs) (simp_all add: ListRemoveElement_def list_step_defs, auto)
  qed
qed


lemma ListAddPrevElement_orphan:
  assumes "orphan h x"
  shows "ListAddPrevElement x n h = Some (gOrphanElement_c, h)"
  using assms by (auto simp: ListAddPrevElement_def list_op_defs orphan_def)

lemma ListAddPrevElement_full:
  assumes "list_rep h l (ys @ x # zs) mx" "abs_full (ys @ x # zs) mx" "irq_ok 1 (irq h)"
  shows "ListAddPrevElement x n h = Some (gListFull_c, h)"
proof -
  have "mx \<noteq> 0" "(of_nat (length (ys @ x # zs)) :: u16) = mx"
    using assms(1,2) size_full_iff [of "ys @ x # zs" mx] by (auto simp: list_rep_def)
  then show ?thesis
    using assms(1,3) by (simp add: ListAddPrevElement_def list_step_defs)
qed

lemma ListAddPrevElement_ok:
  assumes rep: "list_rep h l (ys @ x # zs) mx" and nf: "\<not> abs_full (ys @ x # zs) mx"
    and irq: "irq_ok 1 (irq h)" and n: "orphan h n" "n \<notin> set (ys @ x # zs)"
    and room: "length (ys @ x # zs) + 1 < 2 ^ 16"
  shows "\<exists>h'. ListAddPrevElement x n h = Some (gListOk_c, h') \<and>
    list_step h h' l (ys @ x # zs) (ys @ n # x # zs) mx"
proof -
  obtain a b where e: "elems h n = Some \<lparr>el_next = a, el_prev = b, el_list = NULL\<rparr>" "n \<noteq> NULL"
    using n(1) by (rule orphanE)
  have nfull: "\<not> (mx \<noteq> 0 \<and> mx = of_nat (length (ys @ x # zs)))"
    using nf rep size_full_iff [of "ys @ x # zs" mx] by (simp add: list_rep_def)
  note base = rep [unfolded list_rep_def]
  show ?thesis
  proof (cases ys rule: rev_cases)
    case Nil
    then show ?thesis
      using base e n(2) nfull irq room by (auto simp: ListAddPrevElement_def list_step_defs)
  next
    case (snoc ys' y)
    then show ?thesis
      using base e n(2) nfull irq room by (auto simp: ListAddPrevElement_def list_step_defs)
  qed
qed

section \<open>One step of the refinement\<close>

lemma heap_refines_step:
  assumes "heap_refines h A" "A l = Some (xs, mx)" "list_step h h' l xs xs' mx"
    "\<forall>p \<in> set xs' - set xs. orphan h p"
  shows "heap_refines h' (A(l \<mapsto> (xs', mx))) \<and> irq h' = irq h"
  using assms heap_refines_update [of h A l xs mx h' xs' mx] by (auto simp: list_step_def)

lemma ListInit_rep:
  assumes "l \<noteq> NULL" "l \<in> dom (hlists h)"
  shows "\<exists>h'. ListInit l mx h = Some h' \<and> list_rep h' l [] (ucast mx) \<and>
    (\<forall>q. q \<noteq> l \<longrightarrow> hlists h' q = hlists h q) \<and> elems h' = elems h \<and> irq h' = irq h"
proof -
  obtain r where "hlists h l = Some r" using assms by auto
  then show ?thesis
    using assms(1) by (cases r) (simp add: ListInit_def list_step_defs)
qed

section \<open>Runs of the whole interface\<close>

datatype list_op = OpAddTail ptr ptr | OpAddHead ptr ptr | OpRemoveHead ptr
  | OpRemoveElement ptr | OpAddPrev ptr ptr

datatype list_result = Status listStatus | Element ptr

text \<open>What a caller sees: the operations run one after the other on the heap.\<close>

fun exec_list_op :: "list_op \<Rightarrow> list_heap \<Rightarrow> (list_result \<times> list_heap) option" where
  "exec_list_op (OpAddTail l x) h = do { (st, h) \<leftarrow> ListAddTail l x h; Some (Status st, h) }"
| "exec_list_op (OpAddHead l x) h = do { (st, h) \<leftarrow> ListAddHead l x h; Some (Status st, h) }"
| "exec_list_op (OpRemoveHead l) h = do { (p, h) \<leftarrow> ListRemoveHead l h; Some (Element p, h) }"
| "exec_list_op (OpRemoveElement x) h = do { (st, h) \<leftarrow> ListRemoveElement x h; Some (Status st, h) }"
| "exec_list_op (OpAddPrev x n) h = do { (st, h) \<leftarrow> ListAddPrevElement x n h; Some (Status st, h) }"

fun exec_list_ops :: "list_op list \<Rightarrow> list_heap \<Rightarrow> (list_result list \<times> list_heap) option" where
  "exec_list_ops [] h = Some ([], h)"
| "exec_list_ops (op # ops) h = do { (r, h) \<leftarrow> exec_list_op op h;
     (rs, h) \<leftarrow> exec_list_ops ops h; Some (r # rs, h) }"

text \<open>An element of the universe \<open>E\<close> that is in no sequence of \<open>A\<close>.\<close>

definition loose :: "ptr set \<Rightarrow> alists \<Rightarrow> ptr \<Rightarrow> bool" where
  "loose E A x \<longleftrightarrow> x \<in> E \<and> (\<forall>l xs mx. A l = Some (xs, mx) \<longrightarrow> x \<notin> set xs)"

text \<open>The specification: the elements of \<open>E\<close> are moved between the sequences. The
  premises name what the caller owes: an element that is added is loose, the lists
  exist, and no sequence outgrows the 16-bit size counter.\<close>

inductive list_spec :: "ptr set \<Rightarrow> alists \<Rightarrow> list_op \<Rightarrow> list_result \<Rightarrow> alists \<Rightarrow> bool" for E where
  tail_full: "A l = Some (xs, mx) \<Longrightarrow> abs_full xs mx \<Longrightarrow>
    list_spec E A (OpAddTail l x) (Status gListFull_c) A"
| tail_ok: "A l = Some (xs, mx) \<Longrightarrow> \<not> abs_full xs mx \<Longrightarrow> length xs + 1 < 2 ^ 16 \<Longrightarrow> loose E A x \<Longrightarrow>
    list_spec E A (OpAddTail l x) (Status gListOk_c) (A(l \<mapsto> (xs @ [x], mx)))"
| head_full: "A l = Some (xs, mx) \<Longrightarrow> abs_full xs mx \<Longrightarrow>
    list_spec E A (OpAddHead l x) (Status gListFull_c) A"
| head_ok: "A l = Some (xs, mx) \<Longrightarrow> \<not> abs_full xs mx \<Longrightarrow> length xs + 1 < 2 ^ 16 \<Longrightarrow> loose E A x \<Longrightarrow>
    list_spec E A (OpAddHead l x) (Status gListOk_c) (A(l \<mapsto> (x # xs, mx)))"
| get_null: "list_spec E A (OpRemoveHead NULL) (Element NULL) A"
| get_nil: "A l = Some ([], mx) \<Longrightarrow> list_spec E A (OpRemoveHead l) (Element NULL) A"
| get_hd: "A l = Some (x # xs, mx) \<Longrightarrow>
    list_spec E A (OpRemoveHead l) (Element x) (A(l \<mapsto> (xs, mx)))"
| del_orphan: "loose E A x \<Longrightarrow> list_spec E A (OpRemoveElement x) (Status gOrphanElement_c) A"
| del_ok: "A l = Some (xs, mx) \<Longrightarrow> x \<in> set xs \<Longrightarrow>
    list_spec E A (OpRemoveElement x) (Status gListOk_c) (A(l \<mapsto> (remove1 x xs, mx)))"
| prev_orphan: "loose E A x \<Longrightarrow> list_spec E A (OpAddPrev x n) (Status gOrphanElement_c) A"
| prev_full: "A l = Some (xs, mx) \<Longrightarrow> x \<in> set xs \<Longrightarrow> abs_full xs mx \<Longrightarrow>
    list_spec E A (OpAddPrev x n) (Status gListFull_c) A"
| prev_ok: "A l = Some (xs, mx) \<Longrightarrow> x \<in> set xs \<Longrightarrow> \<not> abs_full xs mx \<Longrightarrow>
    length xs + 1 < 2 ^ 16 \<Longrightarrow> loose E A n \<Longrightarrow>
    list_spec E A (OpAddPrev x n) (Status gListOk_c) (A(l \<mapsto> (insert_before x n xs, mx)))"

inductive list_spec_run :: "ptr set \<Rightarrow> alists \<Rightarrow> list_op list \<Rightarrow> list_result list \<Rightarrow> alists \<Rightarrow> bool"
  for E where
  run_nil: "list_spec_run E A [] [] A"
| run_cons: "list_spec E A op r A1 \<Longrightarrow> list_spec_run E A1 ops rs A2 \<Longrightarrow>
    list_spec_run E A (op # ops) (r # rs) A2"

lemma loose_orphan:
  assumes "heap_refines h A" "dom (elems h) = E" "NULL \<notin> E" "loose E A x"
  shows "orphan h x"
proof -
  obtain e where "elems h x = Some e" using assms by (auto simp: loose_def dom_def)
  then show ?thesis
    using assms unfolding heap_refines_def orphan_def loose_def by blast
qed

lemma list_step_dom:
  assumes "list_step h h' l xs xs' mx" "list_rep h l xs mx" "set xs' \<subseteq> dom (elems h)"
  shows "dom (elems h') = dom (elems h)"
proof (intro set_eqI)
  fix p
  have in_xs: "elems h p \<noteq> None" if "p \<in> set xs"
    using assms(2) that dseg_el_list by (fastforce simp: list_rep_def)
  have in_xs': "elems h' p \<noteq> None" if "p \<in> set xs'"
    using assms(1) that dseg_el_list by (fastforce simp: list_step_def list_rep_def)
  show "p \<in> dom (elems h') \<longleftrightarrow> p \<in> dom (elems h)"
    using in_xs in_xs' assms(1,3)
    by (cases "p \<in> set xs"; cases "p \<in> set xs'")
      (fastforce simp: list_step_def links_change_def domIff)+
qed

text \<open>One list moves from \<open>xs\<close> to \<open>xs'\<close>: the common end of every successful case.\<close>

lemma spec_step_done:
  assumes "heap_refines h A" "dom (elems h) = E" "A l = Some (xs, mx)" "list_step h h' l xs xs' mx"
    "\<forall>p \<in> set xs' - set xs. orphan h p"
  shows "heap_refines h' (A(l \<mapsto> (xs', mx))) \<and> irq h' = irq h \<and> dom (elems h') = E"
proof -
  have "set xs \<subseteq> dom (elems h)"
    using heap_refines_member [OF assms(1,3)] by auto
  then have "set xs' \<subseteq> dom (elems h)"
    using assms(5) unfolding orphan_def by blast
  then show ?thesis
    using heap_refines_step [OF assms(1,3,4,5)] assms(2)
      list_step_dom [OF assms(4) heap_refines_repD [OF assms(1,3)]] by simp
qed

lemma exec_list_op_refines:
  assumes "list_spec E A op r A'" "heap_refines h A" "dom (elems h) = E" "NULL \<notin> E"
    "irq_ok 1 (irq h)"
  shows "\<exists>h'. exec_list_op op h = Some (r, h') \<and> heap_refines h' A' \<and> irq h' = irq h \<and>
    dom (elems h') = E"
  using assms(1)
proof cases
  case (tail_full l xs mx x)
  then show ?thesis
    using assms ListAddTail_full [OF heap_refines_repD [OF assms(2)]] by simp
next
  case (tail_ok l xs mx x)
  note x = loose_orphan [OF assms(2,3,4) tail_ok(7)]
  obtain h' where h': "ListAddTail l x h = Some (gListOk_c, h')" "list_step h h' l xs (xs @ [x]) mx"
    using ListAddTail_ok [OF heap_refines_repD [OF assms(2) tail_ok(4)] tail_ok(5) assms(5) x
        orphan_notin [OF assms(2) x tail_ok(4)] tail_ok(6)] by blast
  have new: "\<forall>p \<in> set (xs @ [x]) - set xs. orphan h p" using x by auto
  show ?thesis
    using spec_step_done [OF assms(2,3) tail_ok(4) h'(2) new] h'(1) tail_ok by simp
next
  case (head_full l xs mx x)
  then show ?thesis
    using assms ListAddHead_full [OF heap_refines_repD [OF assms(2)]] by simp
next
  case (head_ok l xs mx x)
  note x = loose_orphan [OF assms(2,3,4) head_ok(7)]
  obtain h' where h': "ListAddHead l x h = Some (gListOk_c, h')" "list_step h h' l xs (x # xs) mx"
    using ListAddHead_ok [OF heap_refines_repD [OF assms(2) head_ok(4)] head_ok(5) assms(5) x
        orphan_notin [OF assms(2) x head_ok(4)] head_ok(6)] by blast
  have new: "\<forall>p \<in> set (x # xs) - set xs. orphan h p" using x by auto
  show ?thesis
    using spec_step_done [OF assms(2,3) head_ok(4) h'(2) new] h'(1) head_ok by simp
next
  case get_null
  then show ?thesis using assms ListRemoveHead_null by simp
next
  case (get_nil l mx)
  then show ?thesis
    using assms ListRemoveHead_empty [OF heap_refines_repD [OF assms(2)]] by simp
next
  case (get_hd l x xs mx)
  obtain h' where h': "ListRemoveHead l h = Some (x, h')" "list_step h h' l (x # xs) xs mx"
    using ListRemoveHead_ok [OF heap_refines_repD [OF assms(2) get_hd(4)] assms(5)] by blast
  have new: "\<forall>p \<in> set xs - set (x # xs). orphan h p" by auto
  show ?thesis
    using spec_step_done [OF assms(2,3) get_hd(4) h'(2) new] h'(1) get_hd by simp
next
  case (del_orphan x)
  then show ?thesis
    using assms ListRemoveElement_orphan [OF loose_orphan [OF assms(2,3,4)]] by simp
next
  case (del_ok l xs mx x)
  obtain ys zs where s: "xs = ys @ x # zs" using del_ok(5) by (auto dest: split_list)
  note rep = heap_refines_repD [OF assms(2) del_ok(4), unfolded s]
  have nx: "x \<notin> set ys" using rep by (auto simp: list_rep_def)
  obtain h' where h': "ListRemoveElement x h = Some (gListOk_c, h')"
    "list_step h h' l (ys @ x # zs) (ys @ zs) mx"
    using ListRemoveElement_ok [OF rep assms(5)] by blast
  have new: "\<forall>p \<in> set (ys @ zs) - set (ys @ x # zs). orphan h p" by auto
  show ?thesis
    using spec_step_done [OF assms(2,3) del_ok(4) [unfolded s] h'(2) new] h'(1) del_ok s nx by simp
next
  case (prev_orphan x n)
  then show ?thesis
    using assms ListAddPrevElement_orphan [OF loose_orphan [OF assms(2,3,4)]] by simp
next
  case (prev_full l xs mx x n)
  obtain ys zs where s: "xs = ys @ x # zs" using prev_full(5) by (auto dest: split_list)
  note rep = heap_refines_repD [OF assms(2) prev_full(4), unfolded s]
  show ?thesis
    using prev_full assms ListAddPrevElement_full [OF rep prev_full(6) [unfolded s] assms(5)]
    by simp
next
  case (prev_ok l xs mx x n)
  obtain ys zs where s: "xs = ys @ x # zs" using prev_ok(5) by (auto dest: split_list)
  note rep = heap_refines_repD [OF assms(2) prev_ok(4), unfolded s]
  note a = prev_ok(4) [unfolded s]
  have nx: "x \<notin> set ys" using rep by (auto simp: list_rep_def)
  note n = loose_orphan [OF assms(2,3,4) prev_ok(8)]
  obtain h' where h': "ListAddPrevElement x n h = Some (gListOk_c, h')"
    "list_step h h' l (ys @ x # zs) (ys @ n # x # zs) mx"
    using ListAddPrevElement_ok [OF rep prev_ok(6) [unfolded s] assms(5) n
        orphan_notin [OF assms(2) n a] prev_ok(7) [unfolded s]] by blast
  have new: "\<forall>p \<in> set (ys @ n # x # zs) - set (ys @ x # zs). orphan h p" using n by auto
  show ?thesis
    using spec_step_done [OF assms(2,3) a h'(2) new] h'(1) prev_ok s nx by simp
qed


lemma exec_list_ops_refines:
  assumes "list_spec_run E A ops rs A'" "heap_refines h A" "dom (elems h) = E" "NULL \<notin> E"
    "irq_ok 1 (irq h)"
  shows "\<exists>h'. exec_list_ops ops h = Some (rs, h') \<and> heap_refines h' A' \<and> irq h' = irq h"
  using assms
proof (induction arbitrary: h rule: list_spec_run.induct)
  case (run_nil A)
  then show ?case by simp
next
  case (run_cons A op r A1 ops rs A2)
  obtain h1 where h1: "exec_list_op op h = Some (r, h1)" "heap_refines h1 A1" "irq h1 = irq h"
    "dom (elems h1) = E"
    using exec_list_op_refines [OF run_cons.hyps(1) run_cons.prems] by blast
  then obtain h2 where "exec_list_ops ops h1 = Some (rs, h2)" "heap_refines h2 A2" "irq h2 = irq h1"
    using run_cons.IH [of h1] run_cons.prems by auto
  then show ?case using h1 by simp
qed

section \<open>Queues as an interface\<close>

text \<open>What the clients of a list used as a queue rely on: the contents in order of
  arrival, the capacity, which elements may be put, and that a put or a get leaves the
  other queues and the other elements alone.\<close>

locale fifo_queues =
  fixes rep :: "'s \<Rightarrow> alists \<Rightarrow> bool"
    and put :: "ptr \<Rightarrow> ptr \<Rightarrow> 's \<Rightarrow> (listStatus \<times> 's) option"
    and get :: "ptr \<Rightarrow> 's \<Rightarrow> (ptr \<times> 's) option"
    and idle :: "'s \<Rightarrow> ptr \<Rightarrow> bool"
  assumes put_full: "rep s A \<Longrightarrow> A q = Some (xs, mx) \<Longrightarrow> abs_full xs mx \<Longrightarrow>
      put q e s = Some (gListFull_c, s)"
    and put_ok: "rep s A \<Longrightarrow> A q = Some (xs, mx) \<Longrightarrow> \<not> abs_full xs mx \<Longrightarrow>
      length xs + 1 < 2 ^ 16 \<Longrightarrow> idle s e \<Longrightarrow>
      \<exists>s'. put q e s = Some (gListOk_c, s') \<and> rep s' (A(q \<mapsto> (xs @ [e], mx))) \<and>
        (\<forall>e'. e' \<noteq> e \<longrightarrow> idle s e' \<longrightarrow> idle s' e')"
    and get_empty: "rep s A \<Longrightarrow> A q = Some ([], mx) \<Longrightarrow> get q s = Some (NULL, s)"
    and get_cons: "rep s A \<Longrightarrow> A q = Some (x # xs, mx) \<Longrightarrow>
      \<exists>s'. get q s = Some (x, s') \<and> rep s' (A(q \<mapsto> (xs, mx))) \<and> x \<noteq> NULL \<and> idle s' x \<and>
        (\<forall>e'. idle s e' \<longrightarrow> idle s' e')"

text \<open>A client that puts a sequence of elements, and one that takes \<open>n\<close> elements.\<close>

fun put_all :: "('e \<Rightarrow> 's \<Rightarrow> (listStatus \<times> 's) option) \<Rightarrow> 'e list \<Rightarrow> 's \<Rightarrow> (listStatus list \<times> 's) option" where
  "put_all f [] s = Some ([], s)"
| "put_all f (e # es) s = do { (st, s) \<leftarrow> f e s; (sts, s) \<leftarrow> put_all f es s; Some (st # sts, s) }"

fun get_n :: "('s \<Rightarrow> ('e \<times> 's) option) \<Rightarrow> nat \<Rightarrow> 's \<Rightarrow> ('e list \<times> 's) option" where
  "get_n f 0 s = Some ([], s)"
| "get_n f (Suc n) s = do { (e, s) \<leftarrow> f s; (es, s) \<leftarrow> get_n f n s; Some (e # es, s) }"

context fifo_queues
begin

lemma put_all_ok:
  assumes "rep s A" "A q = Some (xs, mx)" "distinct es" "\<And>e. e \<in> set es \<Longrightarrow> idle s e"
    and "mx = 0 \<or> length xs + length es \<le> unat mx" "length xs + length es < 2 ^ 16"
  shows "\<exists>s'. put_all (put q) es s = Some (replicate (length es) gListOk_c, s') \<and>
    rep s' (A(q \<mapsto> (xs @ es, mx)))"
  using assms
proof (induction es arbitrary: s A xs)
  case Nil
  then show ?case by (simp add: fun_upd_idem)
next
  case (Cons e es)
  have "\<not> abs_full xs mx" using Cons.prems(5) by auto
  then obtain s1 where s1: "put q e s = Some (gListOk_c, s1)"
    "rep s1 (A(q \<mapsto> (xs @ [e], mx)))" "\<And>e'. e' \<noteq> e \<Longrightarrow> idle s e' \<Longrightarrow> idle s1 e'"
    using put_ok [OF Cons.prems(1,2), of e] Cons.prems(4,6) by auto
  obtain s2 where "put_all (put q) es s1 = Some (replicate (length es) gListOk_c, s2)"
    "rep s2 ((A(q \<mapsto> (xs @ [e], mx)))(q \<mapsto> ((xs @ [e]) @ es, mx)))"
    using Cons.IH [OF s1(2) fun_upd_same] Cons.prems s1(3) by fastforce
  then have "rep s2 (A(q \<mapsto> (xs @ e # es, mx)))"
    "put_all (put q) (e # es) s = Some (replicate (length (e # es)) gListOk_c, s2)"
    using s1(1) by simp_all
  then show ?case by blast
qed

lemma get_n_ok:
  assumes "rep s A" "A q = Some (xs @ ys, mx)"
  shows "\<exists>s'. get_n (get q) (length xs) s = Some (xs, s') \<and> rep s' (A(q \<mapsto> (ys, mx)))"
  using assms
proof (induction xs arbitrary: s A)
  case Nil
  then show ?case by (simp add: fun_upd_idem)
next
  case (Cons x xs)
  obtain s1 where s1: "get q s = Some (x, s1)" "rep s1 (A(q \<mapsto> (xs @ ys, mx)))"
    using get_cons [OF Cons.prems(1), of q x "xs @ ys" mx] Cons.prems(2) by auto
  obtain s2 where "get_n (get q) (length xs) s1 = Some (xs, s2)"
    "rep s2 ((A(q \<mapsto> (xs @ ys, mx)))(q \<mapsto> (ys, mx)))"
    using Cons.IH [OF s1(2) fun_upd_same] by blast
  then have "rep s2 (A(q \<mapsto> (ys, mx)))" "get_n (get q) (length (x # xs)) s = Some (x # xs, s2)"
    using s1(1) by simp_all
  then show ?case by blast
qed

text \<open>First in, first out: what was in the queue and then what was put, in this order.\<close>

lemma fifo_order:
  assumes "rep s A" "A q = Some (xs, mx)" "distinct es" "\<And>e. e \<in> set es \<Longrightarrow> idle s e"
    and "mx = 0 \<or> length xs + length es \<le> unat mx" "length xs + length es < 2 ^ 16"
  shows "\<exists>sts s1 s2. put_all (put q) es s = Some (sts, s1) \<and>
    get_n (get q) (length xs + length es) s1 = Some (xs @ es, s2) \<and> rep s2 (A(q \<mapsto> ([], mx)))"
proof -
  obtain s1 where s1: "put_all (put q) es s = Some (replicate (length es) gListOk_c, s1)"
    "rep s1 (A(q \<mapsto> (xs @ es, mx)))"
    using put_all_ok [OF assms] by blast
  then show ?thesis
    using get_n_ok [OF s1(2), of q "xs @ es" "[]" mx] by fastforce
qed

end

text \<open>The lists of the framework are such queues, at any interrupt nesting level \<open>c\<close>,
  which they leave as they found it.\<close>

definition glist_rep :: "osa_irq \<Rightarrow> list_heap \<Rightarrow> alists \<Rightarrow> bool" where
  "glist_rep c h A \<longleftrightarrow> heap_refines h A \<and> irq h = c \<and> irq_ok 1 c"

interpretation glist: fifo_queues "glist_rep c" ListAddTail ListRemoveHead orphan for c
proof
  fix s A q xs mx e
  assume "glist_rep c s A" "A q = Some (xs, mx)" "abs_full xs mx"
  then show "ListAddTail q e s = Some (gListFull_c, s)"
    by (auto simp: glist_rep_def intro: ListAddTail_full dest: heap_refines_repD)
next
  fix s A q xs mx e
  assume r: "glist_rep c s A" and q: "A q = Some (xs, mx)" and nf: "\<not> abs_full xs mx"
    and room: "length xs + 1 < 2 ^ 16" and e: "orphan s e"
  then have R: "heap_refines s A" "irq_ok 1 (irq s)" and c: "irq s = c" by (auto simp: glist_rep_def)
  obtain h' where h': "ListAddTail q e s = Some (gListOk_c, h')" "list_step s h' q xs (xs @ [e]) mx"
    using ListAddTail_ok [OF heap_refines_repD [OF R(1) q] nf R(2) e orphan_notin [OF R(1) e q] room]
    by blast
  have "orphan h' e'" if "e' \<noteq> e" "orphan s e'" for e'
    using that h'(2) orphan_notin [OF R(1) that(2) q]
    by (auto simp: list_step_def links_change_def orphan_def)
  moreover have new: "\<forall>p \<in> set (xs @ [e]) - set xs. orphan s p" using e by auto
  then have "glist_rep c h' (A(q \<mapsto> (xs @ [e], mx)))"
    using heap_refines_step [OF R(1) q h'(2) new] R(2) c by (simp add: glist_rep_def)
  ultimately show "\<exists>s'. ListAddTail q e s = Some (gListOk_c, s') \<and> glist_rep c s' (A(q \<mapsto> (xs @ [e], mx))) \<and>
      (\<forall>e'. e' \<noteq> e \<longrightarrow> orphan s e' \<longrightarrow> orphan s' e')"
    using h'(1) by blast
next
  fix s A q mx
  assume "glist_rep c s A" "A q = Some ([], mx)"
  then show "ListRemoveHead q s = Some (NULL, s)"
    by (auto simp: glist_rep_def intro: ListRemoveHead_empty dest: heap_refines_repD)
next
  fix s A q x xs mx
  assume r: "glist_rep c s A" and q: "A q = Some (x # xs, mx)"
  then have R: "heap_refines s A" "irq_ok 1 (irq s)" and c: "irq s = c" by (auto simp: glist_rep_def)
  note rep = heap_refines_repD [OF R(1) q]
  obtain h' where h': "ListRemoveHead q s = Some (x, h')" "list_step s h' q (x # xs) xs mx"
    using ListRemoveHead_ok [OF rep R(2)] by blast
  have x: "x \<noteq> NULL" "orphan h' x"
    using rep h'(2) by (auto simp: list_step_defs)
  have "orphan h' e'" if "orphan s e'" for e'
    using that h'(2) orphan_notin [OF R(1) that q]
    by (auto simp: list_step_def links_change_def orphan_def)
  moreover have new: "\<forall>p \<in> set xs - set (x # xs). orphan s p" by auto
  then have "glist_rep c h' (A(q \<mapsto> (xs, mx)))"
    using heap_refines_step [OF R(1) q h'(2) new] R(2) c by (simp add: glist_rep_def)
  ultimately show "\<exists>s'. ListRemoveHead q s = Some (x, s') \<and> glist_rep c s' (A(q \<mapsto> (xs, mx))) \<and>
      x \<noteq> NULL \<and> orphan s' x \<and> (\<forall>e'. orphan s e' \<longrightarrow> orphan s' e')"
    using h'(1) x by blast
qed

section \<open>Properties\<close>

text \<open>C3: any sequence of calls of the list interface that keeps the callers' duties (only
  elements of no list are added, no list outgrows its 16-bit counter) runs without a bad
  access, returns the results the sequence specification names, leaves the interrupt state
  as it was, and its heap of linked elements again represents exactly the sequences of the
  specification, for all lists at once.\<close>

theorem list_runs_refine:
  assumes "list_spec_run E A ops rs A'" "heap_refines h A" "dom (elems h) = E" "NULL \<notin> E"
    "irq_ok 1 (irq h)"
  shows "\<exists>h'. exec_list_ops ops h = Some (rs, h') \<and> heap_refines h' A' \<and> irq h' = irq h"
  by (rule exec_list_ops_refines [OF assms])

definition heap1 :: list_heap where
  "heap1 = \<lparr>hlists = [100 \<mapsto> \<lparr>l_head = 0, l_tail = 0, l_size = 0, l_max = 2\<rparr>],
     elems = (\<lambda>p. if p = 4 \<or> p = 8 \<or> p = 12 then Some \<lparr>el_next = 0, el_prev = 0, el_list = 0\<rparr> else None),
     irq = \<lparr>gInterruptDisableCount = 0, primask = False\<rparr>\<rparr>"

lemma heap1_refines: "heap_refines heap1 [100 \<mapsto> ([], 2)]"
  by (auto simp: heap1_def heap_refines_def list_rep_def split: if_splits)

theorem list_runs_refine_witness:
  "\<exists>h'. exec_list_ops [OpAddTail 100 4, OpAddHead 100 8, OpAddTail 100 12, OpRemoveElement 4,
      OpRemoveHead 100] heap1 =
    Some ([Status gListOk_c, Status gListOk_c, Status gListFull_c, Status gListOk_c, Element 8], h') \<and>
    heap_refines h' [100 \<mapsto> ([], 2)]"
proof -
  let ?E = "{4, 8, 12} :: ptr set"
  have s1: "list_spec ?E [100 \<mapsto> ([], 2)] (OpAddTail 100 4) (Status gListOk_c) [100 \<mapsto> ([4], 2)]"
    using tail_ok [of "[100 \<mapsto> ([], 2)]" 100 "[]" 2 ?E 4] by (auto simp: loose_def split: if_splits)
  have s2: "list_spec ?E [100 \<mapsto> ([4], 2)] (OpAddHead 100 8) (Status gListOk_c) [100 \<mapsto> ([8, 4], 2)]"
    using head_ok [of "[100 \<mapsto> ([4], 2)]" 100 "[4]" 2 ?E 8] by (auto simp: loose_def split: if_splits)
  have s3: "list_spec ?E [100 \<mapsto> ([8, 4], 2)] (OpAddTail 100 12) (Status gListFull_c) [100 \<mapsto> ([8, 4], 2)]"
    by (rule tail_full [of _ _ "[8, 4]" 2]) simp_all
  have s4: "list_spec ?E [100 \<mapsto> ([8, 4], 2)] (OpRemoveElement 4) (Status gListOk_c) [100 \<mapsto> ([8], 2)]"
    using del_ok [of "[100 \<mapsto> ([8, 4], 2)]" 100 "[8, 4]" 2 4 ?E] by simp
  have s5: "list_spec ?E [100 \<mapsto> ([8], 2)] (OpRemoveHead 100) (Element 8) [100 \<mapsto> ([], 2)]"
    using get_hd [of "[100 \<mapsto> ([8], 2)]" 100 8 "[]" 2 ?E] by simp
  note run = run_cons [OF s1 run_cons [OF s2 run_cons [OF s3 run_cons [OF s4 run_cons [OF s5 run_nil]]]]]
  have "dom (elems heap1) = ?E" "NULL \<notin> ?E" "irq_ok 1 (irq heap1)"
    by (auto simp: heap1_def irq_ok_def split: if_splits)
  then show ?thesis using list_runs_refine [OF run heap1_refines] by blast
qed


text \<open>For a list used as a queue, elements that \<open>ListAddTail\<close> puts come out of
  \<open>ListRemoveHead\<close> behind what was there and in the order they were put, none lost,
  duplicated or refused as long as the capacity is respected, and the list ends empty.\<close>

theorem list_fifo:
  assumes "glist_rep c h A" "A q = Some (xs, mx)" "distinct es" "\<forall>e \<in> set es. orphan h e"
    and "mx = 0 \<or> length xs + length es \<le> unat mx" "length xs + length es < 2 ^ 16"
  shows "\<exists>sts h1 h2. put_all (ListAddTail q) es h = Some (sts, h1) \<and>
    get_n (ListRemoveHead q) (length xs + length es) h1 = Some (xs @ es, h2) \<and>
    glist_rep c h2 (A(q \<mapsto> ([], mx)))"
  using assms by (intro glist.fifo_order) auto

theorem list_fifo_witness:
  "\<exists>sts h1 h2. put_all (ListAddTail 100) [8, 4] heap1 = Some (sts, h1) \<and>
    get_n (ListRemoveHead 100) 2 h1 = Some ([8, 4], h2)"
proof -
  let ?A = "[100 \<mapsto> ([], 2)] :: alists" and ?es = "[8, 4] :: ptr list"
  have G: "glist_rep (irq heap1) heap1 ?A"
    using heap1_refines by (simp add: glist_rep_def irq_ok_def) (simp add: heap1_def)
  have pre: "?A 100 = Some ([], 2)" "distinct ?es" "\<forall>e \<in> set ?es. orphan heap1 e"
    "(2 :: u16) = 0 \<or> length ([] :: ptr list) + length ?es \<le> unat (2 :: u16)"
    "length ([] :: ptr list) + length ?es < 2 ^ 16"
    by (simp_all add: heap1_def orphan_def)
  have n: "length ([] :: ptr list) + length ?es = 2" by simp
  show ?thesis
    using list_fifo [OF G pre] unfolding n append_Nil by blast
qed

lemma dseg_nth:
  "dseg m l p xs n \<Longrightarrow> i < length xs \<Longrightarrow> xs ! i \<noteq> NULL \<and> m (xs ! i) = Some
     \<lparr>el_next = if Suc i < length xs then xs ! Suc i else n,
      el_prev = if i = 0 then p else xs ! (i - 1), el_list = l\<rparr>"
proof (induction xs arbitrary: p i)
  case Nil
  then show ?case by simp
next
  case (Cons x xs)
  show ?case
  proof (cases i)
    case 0
    then show ?thesis using Cons.prems by (cases xs) simp_all
  next
    case (Suc j)
    then show ?thesis using Cons.IH [of x j] Cons.prems by (cases j) simp_all
  qed
qed

text \<open>The queries see the sequence of a list: \<open>ListGetSize\<close> is its length,
  \<open>ListGetAvailable\<close> the room left under its limit, and \<open>ListGetHead\<close>, \<open>ListGetNext\<close>,
  \<open>ListGetPrev\<close> and \<open>ListGetList\<close> walk it in both directions, with \<open>NULL\<close> at the ends.\<close>

theorem list_queries:
  assumes "heap_refines h A" "A l = Some (xs, mx)"
  shows "ListGetSize l h = Some (of_nat (length xs)) \<and>
    ListGetAvailable l h = Some (ucast mx - of_nat (length xs)) \<and>
    ListGetHead l h = Some (hd_or NULL xs) \<and>
    (\<forall>i < length xs. ListGetList (xs ! i) h = Some l \<and>
      ListGetNext (xs ! i) h = Some (if Suc i < length xs then xs ! Suc i else NULL) \<and>
      ListGetPrev (xs ! i) h = Some (if i = 0 then NULL else xs ! (i - 1)))"
proof -
  have rep: "list_rep h l xs mx" using assms by (rule heap_refines_repD)
  then have "length xs < 2 ^ 16" by (simp add: list_rep_def)
  then have "(ucast (of_nat (length xs) :: u16) :: u32) = of_nat (length xs)"
    by (subst of_nat_eq_word_iff) (simp_all add: unat_ucast_up unat_of_nat_small)
  then show ?thesis
    using rep dseg_nth [of "elems h" l NULL xs NULL]
    by (auto simp: ListGetSize_def ListGetAvailable_def ListGetHead_def ListGetList_def
        ListGetNext_def ListGetPrev_def list_rep_def get_list_def get_elem_def)
qed

theorem list_queries_witness:
  "ListGetSize 100 heap1 = Some 0 \<and> ListGetAvailable 100 heap1 = Some 2"
  using list_queries [OF heap1_refines, of 100 "[]" 2] by simp

end
