(* ===== verification/Mem_Manager.thy ===== *)
theory Mem_Manager
  imports Generic_List
begin

text \<open>
  The block pool allocator (\<open>MemManager/Source/MemManager.c\<close>, built without
  \<open>MEM_STATISTICS\<close>, \<open>MEM_TRACKING\<close> and \<open>MULTICORE_MEM_MANAGER\<close>). Each pool keeps its
  free blocks in a list of \<open>Generic_List\<close> whose descriptor is the pool's first field,
  and each block starts with a header that holds the list links and the address of its
  pool. The addresses the linker gives to \<open>memPools\<close> and \<open>memHeap\<close> are parameters.
\<close>

section \<open>Data\<close>

datatype memStatus = MEM_SUCCESS_c | MEM_INIT_ERROR_c | MEM_ALLOC_ERROR_c
  | MEM_FREE_ERROR_c | MEM_UNKNOWN_ERROR_c

record poolInfo_t =
  pi_blockSize :: u16
  pi_poolSize :: u16
  pi_poolId :: u16

text \<open>A pool without its anchor, which is the list descriptor at the pool's address.\<close>

record pools_t =
  nextBlockSize :: u16
  blockSize :: u16
  poolId :: u16
  numBlocks :: u8
  allocatedBlocks :: u8

text \<open>The build: the pool table (without its terminating entry) and where the linker puts
  the pool array and the heap.\<close>

record mem_cfg =
  poolInfo :: "poolInfo_t list"
  memPools_addr :: ptr
  memHeap_addr :: ptr

text \<open>\<open>sizeof(listHeader_t)\<close> and \<open>sizeof(pools_t)\<close> on the target.\<close>

abbreviation (input) header_size :: nat where
  "header_size \<equiv> 16"

abbreviation (input) pools_size :: nat where
  "pools_size \<equiv> 20"

text \<open>The lists and block headers, \<open>pParentPool\<close> of each header by the header's
  address, the pool array and the free block counter.\<close>

record mem_state =
  mheap :: list_heap
  pParentPool :: "ptr \<rightharpoonup> ptr"
  memPools :: "pools_t list"
  gFreeMessagesCount :: u16

definition pool_addr :: "mem_cfg \<Rightarrow> nat \<Rightarrow> ptr" where
  "pool_addr cfg i = memPools_addr cfg + of_nat (pools_size * i)"

definition block_bytes :: "poolInfo_t \<Rightarrow> nat" where
  "block_bytes p = unat (pi_blockSize p) + header_size"

definition pool_bytes :: "poolInfo_t \<Rightarrow> nat" where
  "pool_bytes p = block_bytes p * unat (pi_poolSize p)"

text \<open>\<open>sizeof(memHeap)\<close>: \<open>heapSize_c\<close> rounded down to whole words.\<close>

definition heapSize :: "mem_cfg \<Rightarrow> nat" where
  "heapSize cfg = sum_list (map pool_bytes (poolInfo cfg))"

definition sizeof_memHeap :: "mem_cfg \<Rightarrow> nat" where
  "sizeof_memHeap cfg = 4 * (heapSize cfg div 4)"

definition MEM_InterruptDisable :: "mem_state \<Rightarrow> mem_state" where
  "MEM_InterruptDisable s = s\<lparr>mheap := OSA_InterruptDisable (mheap s)\<rparr>"

definition MEM_InterruptEnable :: "mem_state \<Rightarrow> mem_state" where
  "MEM_InterruptEnable s = s\<lparr>mheap := OSA_InterruptEnable (mheap s)\<rparr>"

text \<open>A write to a field of the pool with index \<open>i\<close>.\<close>

definition mod_pool :: "nat \<Rightarrow> (pools_t \<Rightarrow> pools_t) \<Rightarrow> mem_state \<Rightarrow> mem_state option" where
  "mod_pool i f s = (if i < length (memPools s)
     then Some (s\<lparr>memPools := (memPools s)[i := f (memPools s ! i)]\<rparr>) else None)"

section \<open>Initialisation\<close>

text \<open>The inner loop of \<open>MEM_Init\<close>: \<open>poolN\<close> blocks of one pool, from the heap
  position \<open>pHeap\<close>.\<close>

fun MEM_Init_blocks :: "mem_cfg \<Rightarrow> nat \<Rightarrow> u16 \<Rightarrow> nat \<Rightarrow> ptr \<Rightarrow> mem_state \<Rightarrow> (ptr \<times> mem_state) option" where
  "MEM_Init_blocks cfg i bs 0 pHeap s = Some (pHeap, s)"
| "MEM_Init_blocks cfg i bs (Suc poolN) pHeap s = do {
     (_, h) \<leftarrow> ListAddTail (pool_addr cfg i) pHeap (mheap s);
     let s = s\<lparr>mheap := h\<rparr>;
     s \<leftarrow> (if pHeap \<in> dom (elems (mheap s))
          then Some (s\<lparr>pParentPool := (pParentPool s)(pHeap \<mapsto> pool_addr cfg i)\<rparr>) else None);
     s \<leftarrow> mod_pool i (numBlocks_update (\<lambda>n. n + 1)) s;
     let s = s\<lparr>gFreeMessagesCount := gFreeMessagesCount s + 1\<rparr>;
     MEM_Init_blocks cfg i bs poolN (pHeap + (ucast bs + of_nat header_size)) s }"

text \<open>The outer loop walks the pool table from entry \<open>i\<close>; the entry after the last one
  is the terminator, whose block size is 0.\<close>

definition next_pi_blockSize :: "poolInfo_t list \<Rightarrow> u16" where
  "next_pi_blockSize ps = (case ps of [] \<Rightarrow> 0 | p # _ \<Rightarrow> pi_blockSize p)"

fun MEM_Init_pools :: "mem_cfg \<Rightarrow> poolInfo_t list \<Rightarrow> nat \<Rightarrow> ptr \<Rightarrow> mem_state \<Rightarrow> mem_state option" where
  "MEM_Init_pools cfg [] i pHeap s = None"
| "MEM_Init_pools cfg (p # ps) i pHeap s = do {
     h \<leftarrow> ListInit (pool_addr cfg i) (ucast (pi_poolSize p)) (mheap s);
     (pHeap, s) \<leftarrow> MEM_Init_blocks cfg i (pi_blockSize p) (unat (pi_poolSize p)) pHeap
                    (s\<lparr>mheap := h\<rparr>);
     s \<leftarrow> mod_pool i (blockSize_update (\<lambda>_. pi_blockSize p)) s;
     s \<leftarrow> mod_pool i (poolId_update (\<lambda>_. pi_poolId p)) s;
     s \<leftarrow> mod_pool i (nextBlockSize_update (\<lambda>_. next_pi_blockSize ps)) s;
     if next_pi_blockSize ps = 0 then Some s
     else MEM_Init_pools cfg ps (Suc i) pHeap s }"

definition MEM_Init :: "mem_cfg \<Rightarrow> mem_state \<Rightarrow> (memStatus \<times> mem_state) option" where
  "MEM_Init cfg s = do {
     s \<leftarrow> MEM_Init_pools cfg (poolInfo cfg) 0 (memHeap_addr cfg) (s\<lparr>gFreeMessagesCount := 0\<rparr>);
     Some (MEM_SUCCESS_c, s) }"

section \<open>Queries\<close>

text \<open>The walk over the pool array stops at the pool whose \<open>nextBlockSize\<close> is 0; running
  past the array is a fault.\<close>

function MEM_GetAvailableBlocks_from :: "mem_cfg \<Rightarrow> u32 \<Rightarrow> nat \<Rightarrow> u32 \<Rightarrow> mem_state \<Rightarrow> u32 option" where
  "MEM_GetAvailableBlocks_from cfg size' i tot s =
     (if i < length (memPools s) then do {
        let p = memPools s ! i;
        n \<leftarrow> (if size' \<le> ucast (blockSize p) then ListGetSize (pool_addr cfg i) (mheap s)
             else Some 0);
        if nextBlockSize p = 0 then Some (tot + n)
        else MEM_GetAvailableBlocks_from cfg size' (Suc i) (tot + n) s }
      else None)"
  by pat_completeness auto
termination
  by (relation "measure (\<lambda>(cfg, size', i, tot, s). length (memPools s) - i)") auto

definition MEM_GetAvailableBlocks :: "mem_cfg \<Rightarrow> u32 \<Rightarrow> mem_state \<Rightarrow> u32 option" where
  "MEM_GetAvailableBlocks cfg size' s = MEM_GetAvailableBlocks_from cfg size' 0 0 s"

text \<open>The index of the pool at an address, if there is one.\<close>

definition pool_index :: "mem_cfg \<Rightarrow> mem_state \<Rightarrow> ptr \<Rightarrow> nat option" where
  "pool_index cfg s p = List.find (\<lambda>i. pool_addr cfg i = p) [0..<length (memPools s)]"

definition MEM_BufferGetSize :: "mem_cfg \<Rightarrow> ptr \<Rightarrow> mem_state \<Rightarrow> u16 option" where
  "MEM_BufferGetSize cfg buffer s =
     (if buffer \<noteq> NULL then do {
        parent \<leftarrow> pParentPool s (buffer - of_nat header_size);
        i \<leftarrow> pool_index cfg s parent;
        Some (blockSize (memPools s ! i)) }
      else Some 0)"

section \<open>Allocation\<close>

function MEM_Alloc_from ::
  "mem_cfg \<Rightarrow> u32 \<Rightarrow> u8 \<Rightarrow> nat \<Rightarrow> mem_state \<Rightarrow> (ptr \<times> mem_state) option" where
  "MEM_Alloc_from cfg numBytes pid i s =
     (if numBytes = 0 then Some (NULL, s)
      else if \<not> i < length (memPools s) then None
      else
        (let p = memPools s ! i in
         if numBytes \<le> ucast (blockSize p) \<and> ucast pid = poolId p then
           (case ListRemoveHead (pool_addr cfg i) (mheap s) of
              None \<Rightarrow> None
            | Some (pBlock, h) \<Rightarrow>
                (let s' = s\<lparr>mheap := h\<rparr> in
                 if pBlock \<noteq> NULL then
                   Some (pBlock + of_nat header_size,
                     s'\<lparr>gFreeMessagesCount := gFreeMessagesCount s' - 1,
                        memPools := (memPools s')[i := p\<lparr>allocatedBlocks := allocatedBlocks p + 1\<rparr>]\<rparr>)
                 else if numBytes > ucast (nextBlockSize p) then Some (NULL, s')
                 else if nextBlockSize p \<noteq> 0
                   then MEM_Alloc_from cfg (ucast (nextBlockSize p)) pid (Suc i) s'
                   else Some (NULL, s')))
         else if nextBlockSize p \<noteq> 0 then MEM_Alloc_from cfg numBytes pid (Suc i) s
         else Some (NULL, s)))"
  by pat_completeness auto
termination
  by (relation "measure (\<lambda>(cfg, numBytes, pid, i, s). length (memPools s) - i)") auto

definition MEM_BufferAllocWithId ::
  "mem_cfg \<Rightarrow> u32 \<Rightarrow> u8 \<Rightarrow> mem_state \<Rightarrow> (ptr \<times> mem_state) option" where
  "MEM_BufferAllocWithId cfg numBytes pid s = do {
     (p, s) \<leftarrow> MEM_Alloc_from cfg numBytes pid 0 (MEM_InterruptDisable s);
     Some (p, MEM_InterruptEnable s) }"

section \<open>Release\<close>

text \<open>The search of the block's pool in \<open>memPools\<close>: \<open>Some None\<close> when the last pool is
  passed without a match.\<close>

function MEM_find_pool :: "mem_cfg \<Rightarrow> ptr \<Rightarrow> nat \<Rightarrow> mem_state \<Rightarrow> nat option option" where
  "MEM_find_pool cfg parent i s =
     (if \<not> i < length (memPools s) then None
      else if parent = pool_addr cfg i then Some (Some i)
      else if nextBlockSize (memPools s ! i) = 0 then Some None
      else MEM_find_pool cfg parent (Suc i) s)"
  by pat_completeness auto
termination
  by (relation "measure (\<lambda>(cfg, parent, i, s). length (memPools s) - i)") auto

definition MEM_BufferFree :: "mem_cfg \<Rightarrow> ptr \<Rightarrow> mem_state \<Rightarrow> (memStatus \<times> mem_state) option" where
  "MEM_BufferFree cfg buffer s =
     (if buffer = NULL then Some (MEM_FREE_ERROR_c, s)
      else
        (let pHeader = buffer - of_nat header_size in
         if pHeader < memHeap_addr cfg \<or>
            pHeader > memHeap_addr cfg + of_nat (sizeof_memHeap cfg)
         then Some (MEM_FREE_ERROR_c, s)
         else do {
           let s = MEM_InterruptDisable s;
           parent \<leftarrow> pParentPool s pHeader;
           found \<leftarrow> MEM_find_pool cfg parent 0 s;
           case found of
             None \<Rightarrow> Some (MEM_FREE_ERROR_c, MEM_InterruptEnable s)
           | Some i \<Rightarrow> do {
               e \<leftarrow> get_elem pHeader (mheap s);
               if el_list e \<noteq> NULL then Some (MEM_FREE_ERROR_c, MEM_InterruptEnable s)
               else do {
                 let s = s\<lparr>gFreeMessagesCount := gFreeMessagesCount s + 1\<rparr>;
                 (_, h) \<leftarrow> ListAddTail parent pHeader (mheap s);
                 let s = s\<lparr>mheap := h\<rparr>;
                 s \<leftarrow> mod_pool i (allocatedBlocks_update (\<lambda>n. n - 1)) s;
                 Some (MEM_SUCCESS_c, MEM_InterruptEnable s) } } }))"

declare MEM_Alloc_from.simps [simp del] MEM_find_pool.simps [simp del]
  MEM_GetAvailableBlocks_from.simps [simp del]

section \<open>The layout of the heap\<close>

text \<open>Addresses of \<open>n\<close> blocks from \<open>p\<close> on, \<open>st\<close> bytes apart.\<close>

fun blk_list :: "ptr \<Rightarrow> ptr \<Rightarrow> nat \<Rightarrow> ptr list" where
  "blk_list p st 0 = []"
| "blk_list p st (Suc n) = p # blk_list (p + st) st n"

definition stride :: "poolInfo_t \<Rightarrow> ptr" where
  "stride q = ucast (pi_blockSize q) + of_nat header_size"

text \<open>The blocks of every pool, pool after pool, from \<open>p\<close> on.\<close>

fun heap_blocks :: "ptr \<Rightarrow> poolInfo_t list \<Rightarrow> ptr list list" where
  "heap_blocks p [] = []"
| "heap_blocks p (q # qs) = blk_list p (stride q) (unat (pi_poolSize q)) #
     heap_blocks (p + of_nat (unat (pi_poolSize q)) * stride q) qs"

definition blocks :: "mem_cfg \<Rightarrow> nat \<Rightarrow> ptr list" where
  "blocks cfg i = heap_blocks (memHeap_addr cfg) (poolInfo cfg) ! i"

definition all_blocks :: "mem_cfg \<Rightarrow> ptr list" where
  "all_blocks cfg = concat (heap_blocks (memHeap_addr cfg) (poolInfo cfg))"

lemma length_blk_list [simp]: "length (blk_list p st n) = n"
  by (induction n arbitrary: p) auto

lemma length_heap_blocks [simp]: "length (heap_blocks p qs) = length qs"
  by (induction qs arbitrary: p) auto

lemma unat_stride: "unat (stride q) = block_bytes q"
proof -
  have "unat (pi_blockSize q) < 2 ^ 16" using word_nat_less_len [of "pi_blockSize q"] by simp
  then show ?thesis
    by (simp add: stride_def block_bytes_def unat_word_ariths unat_ucast_up)
qed

lemma unat_add_small: "unat (a :: ptr) + unat b < 2 ^ 32 \<Longrightarrow> unat (a + b) = unat a + unat b"
  by (simp add: unat_word_ariths)

lemma unat_mult_small: "n * unat (b :: ptr) < 2 ^ 32 \<Longrightarrow> unat (of_nat n * b) = n * unat b"
  by (simp add: unat_word_ariths unat_of_nat mod_mult_left_eq)

lemma blk_list_bounds:
  "b \<in> set (blk_list p st n) \<Longrightarrow> unat p + n * unat st < 2 ^ 32 \<Longrightarrow>
   unat p \<le> unat b \<and> unat b + unat st \<le> unat p + n * unat st"
proof (induction n arbitrary: p)
  case 0
  then show ?case by simp
next
  case (Suc n)
  have "unat (p + st) = unat p + unat st"
    using Suc.prems(2) by (intro unat_add_small) simp
  then show ?case using Suc.IH [of "p + st"] Suc.prems by auto
qed

lemma blk_list_distinct:
  "unat p + n * unat st < 2 ^ 32 \<Longrightarrow> 0 < unat st \<Longrightarrow> distinct (blk_list p st n)"
proof (induction n arbitrary: p)
  case 0
  then show ?case by simp
next
  case (Suc n)
  have ps: "unat (p + st) = unat p + unat st"
    using Suc.prems(1) by (intro unat_add_small) simp
  then have "p \<notin> set (blk_list (p + st) st n)"
    using blk_list_bounds [of p "p + st" st n] Suc.prems by auto
  then show ?case using Suc ps by simp
qed

lemma heap_blocks_bounds:
  "b \<in> set (concat (heap_blocks p qs)) \<Longrightarrow> unat p + sum_list (map pool_bytes qs) < 2 ^ 32 \<Longrightarrow>
   unat p \<le> unat b \<and> unat b + header_size \<le> unat p + sum_list (map pool_bytes qs)"
proof (induction qs arbitrary: p)
  case Nil
  then show ?case by simp
next
  case (Cons q qs)
  let ?n = "unat (pi_poolSize q)"
  have bytes: "?n * unat (stride q) = pool_bytes q"
    by (simp add: unat_stride pool_bytes_def)
  have nx: "unat (p + of_nat ?n * stride q) = unat p + pool_bytes q"
    using Cons.prems(2) bytes unat_mult_small [of ?n "stride q"]
    by (subst unat_add_small) auto
  from Cons.prems(1) consider "b \<in> set (blk_list p (stride q) ?n)"
    | "b \<in> set (concat (heap_blocks (p + of_nat ?n * stride q) qs))" by auto
  then show ?case
  proof cases
    case 1
    then show ?thesis
      using blk_list_bounds [OF 1] bytes Cons.prems(2) unat_stride [of q]
      by (auto simp: block_bytes_def)
  next
    case 2
    then show ?thesis using Cons.IH [OF 2] nx Cons.prems(2) by auto
  qed
qed

lemma heap_blocks_distinct:
  "unat p + sum_list (map pool_bytes qs) < 2 ^ 32 \<Longrightarrow> distinct (concat (heap_blocks p qs))"
proof (induction qs arbitrary: p)
  case Nil
  then show ?case by simp
next
  case (Cons q qs)
  let ?n = "unat (pi_poolSize q)" let ?l = "blk_list p (stride q) ?n"
  have bytes: "?n * unat (stride q) = pool_bytes q"
    by (simp add: unat_stride pool_bytes_def)
  have nx: "unat (p + of_nat ?n * stride q) = unat p + pool_bytes q"
    using Cons.prems bytes unat_mult_small [of ?n "stride q"]
    by (subst unat_add_small) auto
  have "distinct ?l"
    using Cons.prems bytes by (intro blk_list_distinct) (auto simp: unat_stride block_bytes_def)
  moreover have "distinct (concat (heap_blocks (p + of_nat ?n * stride q) qs))"
    using Cons.IH nx Cons.prems by simp
  moreover have "set ?l \<inter> set (concat (heap_blocks (p + of_nat ?n * stride q) qs)) = {}"
  proof (intro equalityI subsetI)
    fix b assume "b \<in> set ?l \<inter> set (concat (heap_blocks (p + of_nat ?n * stride q) qs))"
    then have "unat b + unat (stride q) \<le> unat p + pool_bytes q" "unat p + pool_bytes q \<le> unat b"
      using blk_list_bounds [of b p "stride q" ?n] bytes Cons.prems nx
        heap_blocks_bounds [of b "p + of_nat ?n * stride q" qs] by auto
    then show "b \<in> {}" by (simp add: unat_stride block_bytes_def)
  qed simp
  ultimately show ?case by simp
qed


section \<open>The invariant\<close>

text \<open>A usable build: at least one pool, no pool of empty blocks, and the pool array and
  the heap inside the address space, away from \<open>NULL\<close>.\<close>

definition cfg_ok :: "mem_cfg \<Rightarrow> bool" where
  "cfg_ok cfg \<longleftrightarrow> poolInfo cfg \<noteq> [] \<and> (\<forall>q \<in> set (poolInfo cfg). pi_blockSize q \<noteq> 0) \<and>
     memPools_addr cfg \<noteq> NULL \<and> memHeap_addr cfg \<noteq> NULL \<and>
     unat (memPools_addr cfg) + pools_size * length (poolInfo cfg) < 2 ^ 32 \<and>
     unat (memHeap_addr cfg) + heapSize cfg < 2 ^ 32"

definition free_of :: "mem_cfg \<Rightarrow> alists \<Rightarrow> nat \<Rightarrow> ptr list" where
  "free_of cfg A i = (case A (pool_addr cfg i) of None \<Rightarrow> [] | Some (xs, _) \<Rightarrow> xs)"

definition free_total :: "mem_cfg \<Rightarrow> alists \<Rightarrow> nat" where
  "free_total cfg A = (\<Sum>i < length (poolInfo cfg). length (free_of cfg A i))"

text \<open>One pool agrees with its table entry, its free list holds blocks of its own, and
  its count of allocated blocks is what is missing from the free list.\<close>

definition pool_ok :: "mem_cfg \<Rightarrow> mem_state \<Rightarrow> alists \<Rightarrow> nat \<Rightarrow> bool" where
  "pool_ok cfg s A i \<longleftrightarrow>
     blockSize (memPools s ! i) = pi_blockSize (poolInfo cfg ! i) \<and>
     poolId (memPools s ! i) = pi_poolId (poolInfo cfg ! i) \<and>
     nextBlockSize (memPools s ! i) = next_pi_blockSize (drop (Suc i) (poolInfo cfg)) \<and>
     A (pool_addr cfg i) = Some (free_of cfg A i, pi_poolSize (poolInfo cfg ! i)) \<and>
     set (free_of cfg A i) \<subseteq> set (blocks cfg i) \<and>
     allocatedBlocks (memPools s ! i) =
       of_nat (unat (pi_poolSize (poolInfo cfg ! i)) - length (free_of cfg A i)) \<and>
     (\<forall>b \<in> set (blocks cfg i). pParentPool s b = Some (pool_addr cfg i))"

definition mem_inv :: "mem_cfg \<Rightarrow> mem_state \<Rightarrow> alists \<Rightarrow> bool" where
  "mem_inv cfg s A \<longleftrightarrow> heap_refines (mheap s) A \<and>
     length (memPools s) = length (poolInfo cfg) \<and>
     (\<forall>i < length (poolInfo cfg). pool_ok cfg s A i) \<and>
     gFreeMessagesCount s = of_nat (free_total cfg A) \<and>
     irq_ok 2 (irq (mheap s))"

lemma pool_addr_inj:
  assumes "cfg_ok cfg" "i < length (poolInfo cfg)" "j < length (poolInfo cfg)"
    "pool_addr cfg i = pool_addr cfg j"
  shows "i = j"
proof -
  have "(of_nat (20 * i) :: ptr) = of_nat (20 * j)"
    using assms(4) by (simp add: pool_addr_def)
  moreover have "20 * i < 2 ^ LENGTH(32)" "20 * j < 2 ^ LENGTH(32)"
    using assms(1,2,3) by (auto simp: cfg_ok_def)
  ultimately have "20 * i = 20 * j" by (metis of_nat_eq_iff_small)
  then show ?thesis by simp
qed

lemma pool_addr_not_null:
  assumes "cfg_ok cfg" "i < length (poolInfo cfg)"
  shows "pool_addr cfg i \<noteq> NULL"
proof -
  have "unat (of_nat (20 * i) :: ptr) = 20 * i"
    using assms by (intro unat_of_nat_small) (auto simp: cfg_ok_def)
  then have "unat (pool_addr cfg i) = unat (memPools_addr cfg) + 20 * i"
    using assms unfolding pool_addr_def by (subst unat_add_small) (auto simp: cfg_ok_def)
  moreover have "0 < unat (memPools_addr cfg)"
    using assms(1) by (intro unat_pos) (simp add: cfg_ok_def)
  ultimately show ?thesis by auto
qed

lemma distinct_all_blocks: "cfg_ok cfg \<Longrightarrow> distinct (all_blocks cfg)"
  unfolding all_blocks_def cfg_ok_def heapSize_def by (blast intro: heap_blocks_distinct)

lemma set_blocks: "i < length (poolInfo cfg) \<Longrightarrow> set (blocks cfg i) \<subseteq> set (all_blocks cfg)"
  by (auto simp: blocks_def all_blocks_def intro!: bexI [OF _ nth_mem])

lemma blocks_disjoint:
  assumes "cfg_ok cfg" "i < length (poolInfo cfg)" "j < length (poolInfo cfg)" "i \<noteq> j"
  shows "set (blocks cfg i) \<inter> set (blocks cfg j) = {}"
  using distinct_concat_nth_disjoint [of "heap_blocks (memHeap_addr cfg) (poolInfo cfg)" i j]
    distinct_all_blocks [OF assms(1)] assms(2-4)
  by (simp add: all_blocks_def blocks_def)

lemma length_blocks:
  assumes "i < length (poolInfo cfg)"
  shows "length (blocks cfg i) = unat (pi_poolSize (poolInfo cfg ! i))"
proof -
  have "length (heap_blocks p qs ! i) = unat (pi_poolSize (qs ! i))" if "i < length qs" for p qs
    using that by (induction qs arbitrary: p i) (auto simp: nth_Cons split: nat.split)
  then show ?thesis using assms by (simp add: blocks_def)
qed

lemma block_bounds:
  assumes "cfg_ok cfg" "i < length (poolInfo cfg)" "b \<in> set (blocks cfg i)"
  shows "unat (memHeap_addr cfg) \<le> unat b"
    "unat b + header_size \<le> unat (memHeap_addr cfg) + heapSize cfg" "b \<noteq> NULL"
proof -
  have "b \<in> set (concat (heap_blocks (memHeap_addr cfg) (poolInfo cfg)))"
    using set_blocks [OF assms(2)] assms(3) by (auto simp: all_blocks_def)
  then show "unat (memHeap_addr cfg) \<le> unat b"
    "unat b + header_size \<le> unat (memHeap_addr cfg) + heapSize cfg"
    using assms(1) heap_blocks_bounds [of b] by (auto simp: cfg_ok_def heapSize_def)
  moreover have "0 < unat (memHeap_addr cfg)"
    using assms(1) by (intro unat_pos) (simp add: cfg_ok_def)
  ultimately show "b \<noteq> NULL" by auto
qed

section \<open>Initialisation establishes the invariant\<close>

lemma numBlocks_update_id: "numBlocks_update (\<lambda>k. k) r = r"
  by (cases r) simp

lemma MEM_Init_blocks_ok:
  assumes "glist_rep c (mheap s) A" "A (pool_addr cfg i) = Some (xs, mx)"
    "i < length (memPools s)" "length xs + n \<le> unat mx"
    "stride q = ucast bs + of_nat header_size"
    "distinct (blk_list p (stride q) n)"
    "\<forall>b \<in> set (blk_list p (stride q) n). orphan (mheap s) b"
  shows "\<exists>s'. MEM_Init_blocks cfg i bs n p s = Some (p + of_nat n * stride q, s') \<and>
    glist_rep c (mheap s') (A(pool_addr cfg i \<mapsto> (xs @ blk_list p (stride q) n, mx))) \<and>
    pParentPool s' = (\<lambda>b. if b \<in> set (blk_list p (stride q) n) then Some (pool_addr cfg i)
      else pParentPool s b) \<and>
    memPools s' = (memPools s)[i := numBlocks_update (\<lambda>k. k + of_nat n) (memPools s ! i)] \<and>
    gFreeMessagesCount s' = gFreeMessagesCount s + of_nat n \<and>
    (\<forall>e. e \<notin> set (blk_list p (stride q) n) \<longrightarrow> orphan (mheap s) e \<longrightarrow> orphan (mheap s') e)"
  using assms
proof (induction n arbitrary: p s A xs)
  case 0
  then show ?case by (simp add: fun_upd_idem numBlocks_update_id)
next
  case (Suc n)
  let ?a = "pool_addr cfg i" let ?bs = "blk_list (p + stride q) (stride q) n"
  have mx: "unat mx < 2 ^ 16" using word_nat_less_len [of mx] by simp
  have nf: "\<not> abs_full xs mx" using Suc.prems(4) by auto
  obtain h where h: "ListAddTail ?a p (mheap s) = Some (gListOk_c, h)"
    "glist_rep c h (A(?a \<mapsto> (xs @ [p], mx)))"
    "\<And>e. e \<noteq> p \<Longrightarrow> orphan (mheap s) e \<Longrightarrow> orphan h e"
    using glist.put_ok [OF Suc.prems(1,2) nf, of p] Suc.prems(4,7) mx by auto
  have pd: "p \<in> dom (elems h)"
    using h(2) heap_refines_member [of h "A(?a \<mapsto> (xs @ [p], mx))" ?a "xs @ [p]" mx p]
    by (auto simp: glist_rep_def)
  define s1 where "s1 = s\<lparr>mheap := h, pParentPool := (pParentPool s)(p \<mapsto> ?a),
    memPools := (memPools s)[i := numBlocks_update (\<lambda>k. k + 1) (memPools s ! i)],
    gFreeMessagesCount := gFreeMessagesCount s + 1\<rparr>"
  have step: "MEM_Init_blocks cfg i bs (Suc n) p s = MEM_Init_blocks cfg i bs n (p + stride q) s1"
    using h(1) pd Suc.prems(3,5) by (simp add: s1_def mod_pool_def)
  have s1: "mheap s1 = h" "i < length (memPools s1)" by (simp_all add: s1_def Suc.prems(3))
  have dist: "distinct ?bs" "p \<notin> set ?bs" using Suc.prems(6) by simp_all
  have orph: "\<forall>b \<in> set ?bs. orphan (mheap s1) b"
  proof
    fix b assume "b \<in> set ?bs"
    then have "b \<noteq> p" "orphan (mheap s) b" using dist(2) Suc.prems(7) by auto
    then show "orphan (mheap s1) b" using h(3) s1(1) by simp
  qed
  have room: "length (xs @ [p]) + n \<le> unat mx" using Suc.prems(4) by simp
  obtain s2 where s2: "MEM_Init_blocks cfg i bs n (p + stride q) s1 =
      Some (p + stride q + of_nat n * stride q, s2)"
    "glist_rep c (mheap s2) ((A(?a \<mapsto> (xs @ [p], mx)))(?a \<mapsto> ((xs @ [p]) @ ?bs, mx)))"
    "pParentPool s2 = (\<lambda>b. if b \<in> set ?bs then Some ?a else pParentPool s1 b)"
    "memPools s2 = (memPools s1)[i := numBlocks_update (\<lambda>k. k + of_nat n) (memPools s1 ! i)]"
    "gFreeMessagesCount s2 = gFreeMessagesCount s1 + of_nat n"
    "\<forall>e. e \<notin> set ?bs \<longrightarrow> orphan (mheap s1) e \<longrightarrow> orphan (mheap s2) e"
    using Suc.IH [OF h(2) [folded s1(1)] fun_upd_same s1(2) room Suc.prems(5) dist(1) orph] by blast
  have "glist_rep c (mheap s2) (A(?a \<mapsto> (xs @ blk_list p (stride q) (Suc n), mx)))"
    using s2(2) by simp
  moreover have "pParentPool s2 = (\<lambda>b. if b \<in> set (blk_list p (stride q) (Suc n))
      then Some ?a else pParentPool s b)"
    using s2(3) by (auto simp: s1_def)
  moreover have "memPools s2 =
      (memPools s)[i := numBlocks_update (\<lambda>k. k + of_nat (Suc n)) (memPools s ! i)]"
    using s2(4) Suc.prems(3) by (simp add: s1_def o_def ac_simps)
  moreover have "\<forall>e. e \<notin> set (blk_list p (stride q) (Suc n)) \<longrightarrow> orphan (mheap s) e \<longrightarrow>
      orphan (mheap s2) e"
    using s2(6) h(3) by (simp add: s1_def)
  moreover have "MEM_Init_blocks cfg i bs (Suc n) p s = Some (p + of_nat (Suc n) * stride q, s2)"
    using step s2(1) by (simp del: MEM_Init_blocks.simps add: algebra_simps)
  moreover have "gFreeMessagesCount s2 = gFreeMessagesCount s + of_nat (Suc n)"
    using s2(5) by (simp add: s1_def)
  ultimately show ?case by blast
qed


text \<open>The pools that \<open>MEM_Init\<close> leaves: every block free, in address order.\<close>

definition pools_fresh ::
  "mem_cfg \<Rightarrow> poolInfo_t list \<Rightarrow> nat \<Rightarrow> ptr \<Rightarrow> mem_state \<Rightarrow> alists \<Rightarrow> mem_state \<Rightarrow> alists \<Rightarrow> bool" where
  "pools_fresh cfg ps i p s A s' A' \<longleftrightarrow>
     length (memPools s') = length (memPools s) \<and>
     (\<forall>j < length (memPools s). \<not> (i \<le> j \<and> j < i + length ps) \<longrightarrow> memPools s' ! j = memPools s ! j) \<and>
     (\<forall>j < length ps. memPools s' ! (i + j) =
        (numBlocks_update (\<lambda>k. k + of_nat (unat (pi_poolSize (ps ! j)))) (memPools s ! (i + j)))
        \<lparr>blockSize := pi_blockSize (ps ! j), poolId := pi_poolId (ps ! j),
         nextBlockSize := next_pi_blockSize (drop (Suc j) ps)\<rparr>) \<and>
     (\<forall>j < length ps. A' (pool_addr cfg (i + j)) = Some (heap_blocks p ps ! j, pi_poolSize (ps ! j))) \<and>
     (\<forall>a. (\<forall>j < length ps. a \<noteq> pool_addr cfg (i + j)) \<longrightarrow> A' a = A a) \<and>
     (\<forall>j < length ps. \<forall>b \<in> set (heap_blocks p ps ! j). pParentPool s' b = Some (pool_addr cfg (i + j))) \<and>
     (\<forall>b. b \<notin> set (concat (heap_blocks p ps)) \<longrightarrow> pParentPool s' b = pParentPool s b) \<and>
     gFreeMessagesCount s' = gFreeMessagesCount s + of_nat (length (concat (heap_blocks p ps)))"


lemma glist_init:
  assumes "glist_rep c h A" "A l = Some ([], m0)"
  shows "\<exists>h'. ListInit l mx h = Some h' \<and> glist_rep c h' (A(l \<mapsto> ([], ucast mx))) \<and> elems h' = elems h"
proof -
  have R: "heap_refines h A" using assms(1) by (simp add: glist_rep_def)
  have "l \<noteq> NULL" "l \<in> dom (hlists h)"
    using heap_refines_repD [OF R assms(2)] by (auto simp: list_rep_def)
  then obtain h' where h': "ListInit l mx h = Some h'" "list_rep h' l [] (ucast mx)"
    "\<forall>q. q \<noteq> l \<longrightarrow> hlists h' q = hlists h q" "elems h' = elems h" "irq h' = irq h"
    using ListInit_rep by blast
  have "links_change h h' l [] []" using h' by (simp add: links_change_def)
  moreover have "\<forall>p \<in> set [] - set []. orphan h p" by simp
  ultimately have "heap_refines h' (A(l \<mapsto> ([], ucast mx)))"
    using heap_refines_update [OF R assms(2) h'(2)] by blast
  then show ?thesis using h' assms(1) by (auto simp: glist_rep_def)
qed

lemma ucast_u16_u32_u16: "(ucast (ucast (w :: u16) :: u32) :: u16) = w"
proof -
  have "unat (ucast (ucast w :: u32) :: u16) = unat w"
    using word_nat_less_len [of w] by (simp add: unat_ucast_mod unat_ucast_up)
  then show ?thesis by (metis of_nat_unat_id)
qed

text \<open>One round of the outer loop.\<close>

lemma MEM_Init_pool_ok:
  assumes "glist_rep c (mheap s) A" "A (pool_addr cfg i) = Some ([], 0)" "i < length (memPools s)"
    "distinct (blk_list p (stride q) (unat (pi_poolSize q)))"
    "\<forall>b \<in> set (blk_list p (stride q) (unat (pi_poolSize q))). orphan (mheap s) b"
  shows "\<exists>s1. MEM_Init_pools cfg (q # ps) i p s = (if next_pi_blockSize ps = 0 then Some s1
      else MEM_Init_pools cfg ps (Suc i) (p + of_nat (unat (pi_poolSize q)) * stride q) s1) \<and>
    glist_rep c (mheap s1) (A(pool_addr cfg i \<mapsto>
      (blk_list p (stride q) (unat (pi_poolSize q)), pi_poolSize q))) \<and>
    pParentPool s1 = (\<lambda>b. if b \<in> set (blk_list p (stride q) (unat (pi_poolSize q)))
      then Some (pool_addr cfg i) else pParentPool s b) \<and>
    memPools s1 = (memPools s)[i := (numBlocks_update (\<lambda>k. k + of_nat (unat (pi_poolSize q))) (memPools s ! i))
      \<lparr>blockSize := pi_blockSize q, poolId := pi_poolId q, nextBlockSize := next_pi_blockSize ps\<rparr>] \<and>
    gFreeMessagesCount s1 = gFreeMessagesCount s + of_nat (unat (pi_poolSize q)) \<and>
    (\<forall>e. e \<notin> set (blk_list p (stride q) (unat (pi_poolSize q))) \<longrightarrow> orphan (mheap s) e \<longrightarrow>
      orphan (mheap s1) e)"
proof -
  let ?a = "pool_addr cfg i" let ?n = "unat (pi_poolSize q)" let ?st = "stride q"
  obtain h where h: "ListInit ?a (ucast (pi_poolSize q)) (mheap s) = Some h"
    "glist_rep c h (A(?a \<mapsto> ([], pi_poolSize q)))" "elems h = elems (mheap s)"
    using glist_init [OF assms(1,2), of "ucast (pi_poolSize q)"]
    unfolding ucast_u16_u32_u16 by blast
  have orph: "orphan h e = orphan (mheap s) e" for e using h(3) by (simp add: orphan_def)
  let ?s = "s\<lparr>mheap := h\<rparr>"
  have pre: "glist_rep c (mheap ?s) (A(?a \<mapsto> ([], pi_poolSize q)))" "i < length (memPools ?s)"
    "length ([] :: ptr list) + ?n \<le> unat (pi_poolSize q)" "?st = ucast (pi_blockSize q) + of_nat header_size"
    "\<forall>b \<in> set (blk_list p ?st ?n). orphan (mheap ?s) b"
    using h(2) assms(3,5) by (simp_all add: orph stride_def)
  obtain s1 where s1: "MEM_Init_blocks cfg i (pi_blockSize q) ?n p ?s = Some (p + of_nat ?n * ?st, s1)"
    "glist_rep c (mheap s1) ((A(?a \<mapsto> ([], pi_poolSize q)))(?a \<mapsto> ([] @ blk_list p ?st ?n, pi_poolSize q)))"
    "pParentPool s1 = (\<lambda>b. if b \<in> set (blk_list p ?st ?n) then Some ?a else pParentPool ?s b)"
    "memPools s1 = (memPools ?s)[i := numBlocks_update (\<lambda>k. k + of_nat ?n) (memPools ?s ! i)]"
    "gFreeMessagesCount s1 = gFreeMessagesCount ?s + of_nat ?n"
    "\<forall>e. e \<notin> set (blk_list p ?st ?n) \<longrightarrow> orphan (mheap ?s) e \<longrightarrow> orphan (mheap s1) e"
    using MEM_Init_blocks_ok [OF pre(1) fun_upd_same pre(2-4) assms(4) pre(5)] by blast
  define s2 where "s2 = s1\<lparr>memPools := (memPools s1)[i := (memPools s1 ! i)
    \<lparr>blockSize := pi_blockSize q, poolId := pi_poolId q, nextBlockSize := next_pi_blockSize ps\<rparr>]\<rparr>"
  have len: "i < length (memPools s1)" using s1(4) assms(3) by simp
  have "MEM_Init_pools cfg (q # ps) i p s = (if next_pi_blockSize ps = 0 then Some s2
      else MEM_Init_pools cfg ps (Suc i) (p + of_nat ?n * ?st) s2)"
    using h(1) s1(1) len by (simp add: mod_pool_def s2_def)
  moreover have "glist_rep c (mheap s2) (A(?a \<mapsto> (blk_list p ?st ?n, pi_poolSize q)))"
    using s1(2) by (simp add: s2_def)
  moreover have "memPools s2 = (memPools s)[i := (numBlocks_update (\<lambda>k. k + of_nat ?n) (memPools s ! i))
      \<lparr>blockSize := pi_blockSize q, poolId := pi_poolId q, nextBlockSize := next_pi_blockSize ps\<rparr>]"
    using s1(4) assms(3) by (simp add: s2_def)
  moreover have "pParentPool s2 = (\<lambda>b. if b \<in> set (blk_list p ?st ?n) then Some ?a else pParentPool s b)"
    "gFreeMessagesCount s2 = gFreeMessagesCount s + of_nat ?n"
    "\<forall>e. e \<notin> set (blk_list p ?st ?n) \<longrightarrow> orphan (mheap s) e \<longrightarrow> orphan (mheap s2) e"
    using s1(3,5,6) orph by (simp_all add: s2_def fun_eq_iff)
  ultimately show ?thesis by blast
qed


lemma next_pi_zero:
  assumes "\<forall>q \<in> set ps. pi_blockSize q \<noteq> 0"
  shows "next_pi_blockSize ps = 0 \<longleftrightarrow> ps = []"
  using assms by (cases ps) (simp_all add: next_pi_blockSize_def)

lemma MEM_Init_pools_ok:
  assumes "ps \<noteq> []" "\<forall>q \<in> set ps. pi_blockSize q \<noteq> 0"
    "glist_rep c (mheap s) A" "i + length ps \<le> length (memPools s)"
    "\<forall>j < length ps. A (pool_addr cfg (i + j)) = Some ([], 0)"
    "\<forall>j < length ps. \<forall>k < length ps. pool_addr cfg (i + j) = pool_addr cfg (i + k) \<longrightarrow> j = k"
    "distinct (concat (heap_blocks p ps))"
    "\<forall>b \<in> set (concat (heap_blocks p ps)). orphan (mheap s) b"
  shows "\<exists>s' A'. MEM_Init_pools cfg ps i p s = Some s' \<and> glist_rep c (mheap s') A' \<and>
    pools_fresh cfg ps i p s A s' A'"
  using assms
proof (induction ps arbitrary: i p s A)
  case Nil
  then show ?case by simp
next
  case (Cons q ps)
  let ?a = "pool_addr cfg i" let ?n = "unat (pi_poolSize q)" let ?bs = "blk_list p (stride q) ?n"
  let ?p = "p + of_nat ?n * stride q"
  have a0: "A ?a = Some ([], 0)" using Cons.prems(5) by fastforce
  have d: "distinct ?bs" "distinct (concat (heap_blocks ?p ps))"
    "set ?bs \<inter> set (concat (heap_blocks ?p ps)) = {}"
    using Cons.prems(7) by simp_all
  have len: "i < length (memPools s)" using Cons.prems(4) by simp
  have orph: "\<forall>b \<in> set ?bs. orphan (mheap s) b" using Cons.prems(8) by simp
  obtain s1 where s1: "MEM_Init_pools cfg (q # ps) i p s = (if next_pi_blockSize ps = 0 then Some s1
      else MEM_Init_pools cfg ps (Suc i) ?p s1)"
    "glist_rep c (mheap s1) (A(?a \<mapsto> (?bs, pi_poolSize q)))"
    "pParentPool s1 = (\<lambda>b. if b \<in> set ?bs then Some ?a else pParentPool s b)"
    "memPools s1 = (memPools s)[i := (numBlocks_update (\<lambda>k. k + of_nat ?n) (memPools s ! i))
      \<lparr>blockSize := pi_blockSize q, poolId := pi_poolId q, nextBlockSize := next_pi_blockSize ps\<rparr>]"
    "gFreeMessagesCount s1 = gFreeMessagesCount s + of_nat ?n"
    "\<forall>e. e \<notin> set ?bs \<longrightarrow> orphan (mheap s) e \<longrightarrow> orphan (mheap s1) e"
    using MEM_Init_pool_ok [OF Cons.prems(3) a0 len d(1) orph, of ps] by blast
  have nz: "next_pi_blockSize ps = 0 \<longleftrightarrow> ps = []"
    using next_pi_zero Cons.prems(2) by simp
  have ne: "pool_addr cfg (i + Suc j) \<noteq> ?a" if "j < length ps" for j
    using Cons.prems(6) that by (metis Suc_less_eq add_0_right length_Cons nat.distinct(1) zero_less_Suc)
  show ?case
  proof (cases "ps = []")
    case True
    have "pools_fresh cfg [q] i p s A s1 (A(?a \<mapsto> (?bs, pi_poolSize q)))"
      using s1(3-5) len True by (auto simp: pools_fresh_def nth_list_update)
    then show ?thesis using s1(1,2) nz True by auto
  next
    case False
    let ?A1 = "A(?a \<mapsto> (?bs, pi_poolSize q))"
    have pre: "\<forall>q \<in> set ps. pi_blockSize q \<noteq> 0" "Suc i + length ps \<le> length (memPools s1)"
      "\<forall>j < length ps. ?A1 (pool_addr cfg (Suc i + j)) = Some ([], 0)"
      "\<forall>j < length ps. \<forall>k < length ps. pool_addr cfg (Suc i + j) = pool_addr cfg (Suc i + k) \<longrightarrow> j = k"
      using Cons.prems(2,4,5,6) ne s1(4) by (auto simp: all_less_Suc_iff)
    have orph1: "\<forall>b \<in> set (concat (heap_blocks ?p ps)). orphan (mheap s1) b"
      using s1(6) d(3) Cons.prems(8) by auto
    obtain s2 A2 where s2: "MEM_Init_pools cfg ps (Suc i) ?p s1 = Some s2" "glist_rep c (mheap s2) A2"
      "pools_fresh cfg ps (Suc i) ?p s1 ?A1 s2 A2"
      using Cons.IH [OF False pre(1) s1(2) pre(2-4) d(2) orph1] by blast
    note f = s2(3) [unfolded pools_fresh_def]
    have pools: "memPools s1 ! j = memPools s ! j" if "j \<noteq> i" "j < length (memPools s)" for j
      using s1(4) that by simp
    have par: "pParentPool s2 b = (if b \<in> set ?bs then Some ?a else pParentPool s b)"
      if "b \<notin> set (concat (heap_blocks ?p ps))" for b
      using f that s1(3) by simp
    have own: "\<forall>b \<in> set ?bs. pParentPool s2 b = Some ?a"
      using par d(3) by fastforce
    have a: "A2 ?a = Some (?bs, pi_poolSize q)" using f ne by (metis add_Suc_shift fun_upd_same)
    have rest: "\<forall>x. (\<forall>j < Suc (length ps). x \<noteq> pool_addr cfg (i + j)) \<longrightarrow> A2 x = A x"
      using f by (auto simp: all_less_Suc_iff)
    have inside: "\<forall>j < length ps. memPools s2 ! (i + Suc j) =
        (numBlocks_update (\<lambda>k. k + of_nat (unat (pi_poolSize (ps ! j)))) (memPools s ! (i + Suc j)))
        \<lparr>blockSize := pi_blockSize (ps ! j), poolId := pi_poolId (ps ! j),
         nextBlockSize := next_pi_blockSize (drop (Suc j) ps)\<rparr>"
      using f pools Cons.prems(4) by simp
    have outside: "\<forall>j < length (memPools s). \<not> (i \<le> j \<and> j < i + Suc (length ps)) \<longrightarrow>
        memPools s2 ! j = memPools s ! j"
      using f pools s1(4) by auto
    have here: "memPools s2 ! i = (numBlocks_update (\<lambda>k. k + of_nat ?n) (memPools s ! i))
        \<lparr>blockSize := pi_blockSize q, poolId := pi_poolId q, nextBlockSize := next_pi_blockSize ps\<rparr>"
      using f len s1(4) by simp
    have others: "length (memPools s2) = length (memPools s)"
      "gFreeMessagesCount s2 = gFreeMessagesCount s + of_nat (length (concat (heap_blocks p (q # ps))))"
      "\<forall>j < length ps. A2 (pool_addr cfg (i + Suc j)) = Some (heap_blocks ?p ps ! j, pi_poolSize (ps ! j))"
      "\<forall>j < length ps. \<forall>b \<in> set (heap_blocks ?p ps ! j). pParentPool s2 b = Some (pool_addr cfg (i + Suc j))"
      using f s1(4,5) by simp_all
    have kept: "\<forall>b. b \<notin> set (concat (heap_blocks p (q # ps))) \<longrightarrow> pParentPool s2 b = pParentPool s b"
      using par by simp
    have "pools_fresh cfg (q # ps) i p s A s2 A2"
      unfolding pools_fresh_def length_Cons
      using others kept rest outside inside here own a by (simp add: all_less_Suc_iff)
    then show ?thesis using s1(1) s2 nz False by auto
  qed
qed


lemma length_concat_nth: "length (concat xss) = (\<Sum>i < length xss. length (xss ! i))"
  by (simp add: length_concat sum_list_sum_nth atLeast0LessThan)

text \<open>The state before \<open>MEM_Init\<close>: zeroed pools, and a heap of blocks in no list.\<close>

definition mem_raw :: "mem_cfg \<Rightarrow> mem_state \<Rightarrow> alists \<Rightarrow> bool" where
  "mem_raw cfg s A \<longleftrightarrow> heap_refines (mheap s) A \<and> irq_ok 2 (irq (mheap s)) \<and>
     length (memPools s) = length (poolInfo cfg) \<and>
     (\<forall>p \<in> set (memPools s). allocatedBlocks p = 0) \<and>
     (\<forall>i < length (poolInfo cfg). A (pool_addr cfg i) = Some ([], 0)) \<and>
     (\<forall>b \<in> set (all_blocks cfg). orphan (mheap s) b)"

lemma MEM_Init_ok:
  assumes cfg: "cfg_ok cfg" and raw: "mem_raw cfg s A"
  shows "\<exists>s' A'. MEM_Init cfg s = Some (MEM_SUCCESS_c, s') \<and> mem_inv cfg s' A' \<and>
    irq (mheap s') = irq (mheap s) \<and> (\<forall>i < length (poolInfo cfg). free_of cfg A' i = blocks cfg i)"
proof -
  let ?c = "irq (mheap s)" let ?s = "s\<lparr>gFreeMessagesCount := 0\<rparr>" let ?n = "length (poolInfo cfg)"
  have irq1: "irq_ok 1 ?c" using raw by (auto simp: mem_raw_def intro: irq_ok_mono)
  have pre: "poolInfo cfg \<noteq> []" "\<forall>q \<in> set (poolInfo cfg). pi_blockSize q \<noteq> 0"
    "glist_rep ?c (mheap ?s) A" "0 + ?n \<le> length (memPools ?s)"
    "\<forall>j < ?n. A (pool_addr cfg (0 + j)) = Some ([], 0)"
    "\<forall>j < ?n. \<forall>k < ?n. pool_addr cfg (0 + j) = pool_addr cfg (0 + k) \<longrightarrow> j = k"
    "\<forall>b \<in> set (all_blocks cfg). orphan (mheap ?s) b"
    using cfg raw irq1 pool_addr_inj [OF cfg] by (auto simp: cfg_ok_def mem_raw_def glist_rep_def)
  obtain s' A' where s': "MEM_Init_pools cfg (poolInfo cfg) 0 (memHeap_addr cfg) ?s = Some s'"
    "glist_rep ?c (mheap s') A'" "pools_fresh cfg (poolInfo cfg) 0 (memHeap_addr cfg) ?s A s' A'"
    using MEM_Init_pools_ok [OF pre(1-6) distinct_all_blocks [OF cfg, unfolded all_blocks_def]
        pre(7) [unfolded all_blocks_def]] by blast
  note f = s'(3) [unfolded pools_fresh_def]
  have free: "free_of cfg A' i = blocks cfg i" if "i < ?n" for i
    using f that by (simp add: free_of_def blocks_def)
  have alloc: "allocatedBlocks (memPools s ! i) = 0" if "i < ?n" for i
    using raw that by (simp add: mem_raw_def)
  have "pool_ok cfg s' A' i" if i: "i < ?n" for i
    using f i free [OF i] alloc [OF i]
    by (simp add: pool_ok_def length_blocks) (simp add: blocks_def)
  moreover have "gFreeMessagesCount s' = of_nat (free_total cfg A')"
    using f free by (simp add: free_total_def length_concat_nth blocks_def)
  ultimately have "mem_inv cfg s' A'"
    using f s'(2) raw by (simp add: mem_inv_def glist_rep_def mem_raw_def)
  moreover have "irq (mheap s') = ?c" using s'(2) by (simp add: glist_rep_def)
  ultimately show ?thesis using s'(1) free by (auto simp: MEM_Init_def)
qed


section \<open>Allocation takes the first fitting pool\<close>

text \<open>The specification of the choice: the first pool of the requested id whose blocks
  are large enough and that has a free block.\<close>

definition pool_fits :: "mem_cfg \<Rightarrow> alists \<Rightarrow> u32 \<Rightarrow> u8 \<Rightarrow> nat \<Rightarrow> bool" where
  "pool_fits cfg A nb pid i \<longleftrightarrow> nb \<le> ucast (pi_blockSize (poolInfo cfg ! i)) \<and>
     ucast pid = pi_poolId (poolInfo cfg ! i) \<and> free_of cfg A i \<noteq> []"

definition mem_choose :: "mem_cfg \<Rightarrow> alists \<Rightarrow> u32 \<Rightarrow> u8 \<Rightarrow> nat option" where
  "mem_choose cfg A nb pid = List.find (pool_fits cfg A nb pid) [0..<length (poolInfo cfg)]"

text \<open>The pool table is sorted by block size, as \<open>PoolsDetails_c\<close> asks for.\<close>

definition ascending :: "mem_cfg \<Rightarrow> bool" where
  "ascending cfg \<longleftrightarrow> sorted (map pi_blockSize (poolInfo cfg))"

lemma next_pi_drop:
  "next_pi_blockSize (drop (Suc i) ps) = (if Suc i < length ps then pi_blockSize (ps ! Suc i) else 0)"
  by (auto simp: next_pi_blockSize_def Cons_nth_drop_Suc [symmetric] split: list.splits)

lemma next_pi_drop_zero:
  assumes "cfg_ok cfg"
  shows "next_pi_blockSize (drop (Suc i) (poolInfo cfg)) = 0 \<longleftrightarrow> \<not> Suc i < length (poolInfo cfg)"
  using assms by (auto simp: next_pi_drop cfg_ok_def)

lemma ucast_u16_u32_le: "(ucast (a :: u16) :: u32) \<le> ucast b \<longleftrightarrow> a \<le> b"
  by (simp add: word_le_nat_alt unat_ucast_up)

lemma ucast_u16_u32_0: "(ucast (a :: u16) :: u32) = 0 \<longleftrightarrow> a = 0"
proof -
  have "unat (ucast a :: u32) = unat a" by (simp add: unat_ucast_up)
  then show ?thesis by (metis unat_eq_zero)
qed

text \<open>The pools agree with the table and the lists with the heap, at any interrupt level.\<close>

definition pools_ok :: "osa_irq \<Rightarrow> mem_cfg \<Rightarrow> mem_state \<Rightarrow> alists \<Rightarrow> bool" where
  "pools_ok c cfg s A \<longleftrightarrow> glist_rep c (mheap s) A \<and> length (memPools s) = length (poolInfo cfg) \<and>
     (\<forall>i < length (poolInfo cfg). pool_ok cfg s A i)"

definition alloc_found :: "mem_cfg \<Rightarrow> nat \<Rightarrow> list_heap \<Rightarrow> mem_state \<Rightarrow> mem_state" where
  "alloc_found cfg i h s = s\<lparr>mheap := h, gFreeMessagesCount := gFreeMessagesCount s - 1,
     memPools := (memPools s)[i := (memPools s ! i)
       \<lparr>allocatedBlocks := allocatedBlocks (memPools s ! i) + 1\<rparr>]\<rparr>"

lemma upt_Cons: "i < n \<Longrightarrow> [i..<n] = i # [Suc i..<n]"
  by (rule upt_conv_Cons)

lemma MEM_Alloc_from_ok:
  assumes "cfg_ok cfg" "ascending cfg" "pools_ok c cfg s A" "nb' \<noteq> 0" "i < length (poolInfo cfg)"
    "\<forall>j. i \<le> j \<and> j < length (poolInfo cfg) \<longrightarrow>
       (nb' \<le> ucast (pi_blockSize (poolInfo cfg ! j)) \<longleftrightarrow> nb \<le> ucast (pi_blockSize (poolInfo cfg ! j)))"
  shows "case List.find (pool_fits cfg A nb pid) [i..<length (poolInfo cfg)] of
      None \<Rightarrow> MEM_Alloc_from cfg nb' pid i s = Some (NULL, s)
    | Some j \<Rightarrow> \<exists>h. ListRemoveHead (pool_addr cfg j) (mheap s) = Some (hd (free_of cfg A j), h) \<and>
        MEM_Alloc_from cfg nb' pid i s =
          Some (hd (free_of cfg A j) + of_nat header_size, alloc_found cfg j h s)"
  using assms(4-)
proof (induction "length (poolInfo cfg) - i" arbitrary: i nb')
  case 0
  then show ?case by simp
next
  case (Suc k)
  let ?n = "length (poolInfo cfg)" let ?a = "pool_addr cfg i" let ?p = "memPools s ! i"
  have i: "i < length (memPools s)" using Suc.prems(2) assms(3) by (simp add: pools_ok_def)
  have p: "blockSize ?p = pi_blockSize (poolInfo cfg ! i)" "poolId ?p = pi_poolId (poolInfo cfg ! i)"
    "nextBlockSize ?p = next_pi_blockSize (drop (Suc i) (poolInfo cfg))"
    "A ?a = Some (free_of cfg A i, pi_poolSize (poolInfo cfg ! i))"
    using assms(3) Suc.prems(2) by (auto simp: pools_ok_def pool_ok_def)
  have G: "glist_rep c (mheap s) A" using assms(3) by (simp add: pools_ok_def)
  have more: "nextBlockSize ?p = 0 \<longleftrightarrow> \<not> Suc i < ?n" using next_pi_drop_zero [OF assms(1)] p(3) by simp
  have cut: "[i..<?n] = i # [Suc i..<?n]" using Suc.prems(2) by (rule upt_Cons)
  have k: "k = ?n - Suc i" using Suc.hyps(2) by simp
  have fit_i: "nb' \<le> ucast (blockSize ?p) \<longleftrightarrow> nb \<le> ucast (pi_blockSize (poolInfo cfg ! i))"
    using Suc.prems p(1) by simp
  show ?case
  proof (cases "nb' \<le> ucast (blockSize ?p) \<and> ucast pid = poolId ?p")
    case fit: True
    show ?thesis
    proof (cases "free_of cfg A i")
      case Nil
      have rem: "ListRemoveHead ?a (mheap s) = Some (NULL, mheap s)"
        using glist.get_empty [OF G] p(4) Nil by simp
      have nofit: "\<not> pool_fits cfg A nb pid i" using Nil by (simp add: pool_fits_def)
      show ?thesis
      proof (cases "Suc i < ?n")
        case True
        have srt: "pi_blockSize (poolInfo cfg ! j) \<le> pi_blockSize (poolInfo cfg ! k)"
          if "j \<le> k" "k < ?n" for j k
          using assms(2) that sorted_nth_mono [of "map pi_blockSize (poolInfo cfg)" j k]
          by (simp add: ascending_def)
        have nxt: "nextBlockSize ?p = pi_blockSize (poolInfo cfg ! Suc i)"
          using p(3) True by (simp add: next_pi_drop)
        have "(ucast (blockSize ?p) :: u32) \<le> ucast (nextBlockSize ?p)"
          using srt [of i "Suc i"] p(1) nxt True by (simp add: ucast_u16_u32_le)
        then have "nb' \<le> ucast (nextBlockSize ?p)" using fit by (blast intro: order_trans)
        then have "MEM_Alloc_from cfg nb' pid i s =
            MEM_Alloc_from cfg (ucast (nextBlockSize ?p)) pid (Suc i) s"
          using rem fit i Suc.prems(1) more True by (subst MEM_Alloc_from.simps) (simp add: Let_def leD)
        moreover have "(ucast (nextBlockSize ?p) \<le> (ucast (pi_blockSize (poolInfo cfg ! j)) :: u32) \<longleftrightarrow>
             nb \<le> ucast (pi_blockSize (poolInfo cfg ! j)))" if j: "Suc i \<le> j \<and> j < ?n" for j
        proof -
          have "nextBlockSize ?p \<le> pi_blockSize (poolInfo cfg ! j)" using nxt srt j by simp
          moreover have "(ucast (pi_blockSize (poolInfo cfg ! i)) :: u32) \<le> ucast (pi_blockSize (poolInfo cfg ! j))"
            using srt [of i j] j by (simp add: ucast_u16_u32_le)
          moreover have "nb \<le> ucast (pi_blockSize (poolInfo cfg ! i))" using fit fit_i by simp
          ultimately show ?thesis by (auto simp: ucast_u16_u32_le intro: order_trans)
        qed
        moreover have "(ucast (nextBlockSize ?p) :: u32) \<noteq> 0"
          using more True by (simp add: ucast_u16_u32_0)
        ultimately show ?thesis
          using Suc.hyps(1) [OF k, of "ucast (nextBlockSize ?p)"] True cut nofit by (simp split: option.splits)
      next
        case False
        then have "MEM_Alloc_from cfg nb' pid i s = Some (NULL, s)"
          using rem fit i Suc.prems(1) more by (subst MEM_Alloc_from.simps) (simp add: Let_def)
        then show ?thesis using False cut nofit by simp
      qed
    next
      case (Cons x xs)
      then have "A ?a = Some (x # xs, pi_poolSize (poolInfo cfg ! i))" using p(4) by simp
      then obtain h where h: "ListRemoveHead ?a (mheap s) = Some (x, h)" "x \<noteq> NULL"
        using glist.get_cons [OF G] by blast
      have "pool_fits cfg A nb pid i" using fit fit_i p Cons by (simp add: pool_fits_def)
      moreover have "MEM_Alloc_from cfg nb' pid i s = Some (x + of_nat header_size, alloc_found cfg i h s)"
        using h fit i Suc.prems(1)
        by (subst MEM_Alloc_from.simps) (simp add: Let_def alloc_found_def)
      ultimately show ?thesis using h cut Cons by simp
    qed
  next
    case nofit: False
    then have nf: "\<not> pool_fits cfg A nb pid i" using fit_i p(2) by (auto simp: pool_fits_def)
    show ?thesis
    proof (cases "Suc i < ?n")
      case True
      then have "MEM_Alloc_from cfg nb' pid i s = MEM_Alloc_from cfg nb' pid (Suc i) s"
        using nofit i Suc.prems(1) more by (subst MEM_Alloc_from.simps) (auto simp: Let_def)
      then show ?thesis
        using Suc.hyps(1) [OF k, of nb'] Suc.prems True cut nf by (simp split: option.splits)
    next
      case False
      then have "MEM_Alloc_from cfg nb' pid i s = Some (NULL, s)"
        using nofit i Suc.prems(1) more by (subst MEM_Alloc_from.simps) (auto simp: Let_def)
      then show ?thesis using False cut nf by simp
    qed
  qed
qed


section \<open>Changes of one free list\<close>

lemma heap_refines_irq [simp]: "heap_refines (h\<lparr>irq := c\<rparr>) A = heap_refines h A"
  by (simp add: heap_refines_def list_rep_def)

lemma orphan_irq [simp]: "orphan (h\<lparr>irq := c\<rparr>) e = orphan h e"
  by (simp add: orphan_def)

lemma free_of_upd:
  assumes "cfg_ok cfg" "i < length (poolInfo cfg)" "j < length (poolInfo cfg)"
  shows "free_of cfg (A(pool_addr cfg i \<mapsto> (ys, mx))) j = (if j = i then ys else free_of cfg A j)"
  using pool_addr_inj [OF assms] by (auto simp: free_of_def)

lemma free_total_upd:
  assumes "cfg_ok cfg" "i < length (poolInfo cfg)"
  shows "free_total cfg (A(pool_addr cfg i \<mapsto> (ys, mx))) + length (free_of cfg A i) =
    free_total cfg A + length ys"
proof -
  let ?I = "{..<length (poolInfo cfg)}"
  have "free_total cfg B = length (free_of cfg B i) + (\<Sum>j \<in> ?I - {i}. length (free_of cfg B j))" for B
    unfolding free_total_def using assms(2) by (intro sum.remove) auto
  moreover have "(\<Sum>j \<in> ?I - {i}. length (free_of cfg (A(pool_addr cfg i \<mapsto> (ys, mx))) j)) =
      (\<Sum>j \<in> ?I - {i}. length (free_of cfg A j))"
    using assms by (intro sum.cong) (auto simp: free_of_upd)
  moreover have "free_of cfg (A(pool_addr cfg i \<mapsto> (ys, mx))) i = ys"
    using assms by (simp add: free_of_upd)
  ultimately show ?thesis by presburger
qed

lemma mem_inv_poolD:
  assumes "mem_inv cfg s A" "i < length (poolInfo cfg)"
  shows "A (pool_addr cfg i) = Some (free_of cfg A i, pi_poolSize (poolInfo cfg ! i))"
    "set (free_of cfg A i) \<subseteq> set (blocks cfg i)" "distinct (free_of cfg A i)"
    "allocatedBlocks (memPools s ! i) =
      of_nat (unat (pi_poolSize (poolInfo cfg ! i)) - length (free_of cfg A i))"
    "i < length (memPools s)"
    "length (free_of cfg A i) \<le> unat (pi_poolSize (poolInfo cfg ! i))"
proof -
  have R: "heap_refines (mheap s) A" and P: "pool_ok cfg s A i"
    using assms by (auto simp: mem_inv_def)
  then show a: "A (pool_addr cfg i) = Some (free_of cfg A i, pi_poolSize (poolInfo cfg ! i))"
    and sub: "set (free_of cfg A i) \<subseteq> set (blocks cfg i)"
    and "allocatedBlocks (memPools s ! i) =
      of_nat (unat (pi_poolSize (poolInfo cfg ! i)) - length (free_of cfg A i))"
    and "i < length (memPools s)"
    using assms by (simp_all add: pool_ok_def mem_inv_def)
  show d: "distinct (free_of cfg A i)"
    using heap_refines_repD [OF R a] by (simp add: list_rep_def)
  have "card (set (free_of cfg A i)) \<le> card (set (blocks cfg i))" by (rule card_mono [OF _ sub]) simp
  then show "length (free_of cfg A i) \<le> unat (pi_poolSize (poolInfo cfg ! i))"
    using distinct_card [OF d] card_length [of "blocks cfg i"] length_blocks [OF assms(2)] by simp
qed

text \<open>Every operation replaces the free list of one pool.\<close>

lemma mem_inv_update:
  assumes cfg: "cfg_ok cfg" and inv: "mem_inv cfg s A" and i: "i < length (poolInfo cfg)"
    and heap: "heap_refines (mheap s') (A(pool_addr cfg i \<mapsto> (ys, pi_poolSize (poolInfo cfg ! i))))"
    and irq: "irq (mheap s') = irq (mheap s)"
    and par: "pParentPool s' = pParentPool s"
    and sub: "set ys \<subseteq> set (blocks cfg i)"
    and pools: "memPools s' = (memPools s)[i := (memPools s ! i)
      \<lparr>allocatedBlocks := of_nat (unat (pi_poolSize (poolInfo cfg ! i)) - length ys)\<rparr>]"
    and cnt: "gFreeMessagesCount s' + of_nat (length (free_of cfg A i)) =
      gFreeMessagesCount s + of_nat (length ys)"
  shows "mem_inv cfg s' (A(pool_addr cfg i \<mapsto> (ys, pi_poolSize (poolInfo cfg ! i))))"
proof -
  let ?A = "A(pool_addr cfg i \<mapsto> (ys, pi_poolSize (poolInfo cfg ! i)))"
  have "pool_ok cfg s' ?A j" if j: "j < length (poolInfo cfg)" for j
  proof -
    have "pool_ok cfg s A j" using inv j by (simp add: mem_inv_def)
    moreover have "i < length (memPools s)" using inv i by (simp add: mem_inv_def)
    moreover have "pool_addr cfg j \<noteq> pool_addr cfg i" if "j \<noteq> i"
      using pool_addr_inj [OF cfg j i] that by blast
    ultimately show ?thesis
      using par sub pools free_of_upd [OF cfg i j, of A ys]
      by (cases "j = i") (simp_all add: pool_ok_def)
  qed
  moreover have "gFreeMessagesCount s' = of_nat (free_total cfg ?A)"
  proof -
    have eq: "(of_nat (free_total cfg ?A) :: u16) + of_nat (length (free_of cfg A i)) =
        of_nat (free_total cfg A) + of_nat (length ys)"
      using free_total_upd [OF cfg i, of A ys] by (metis of_nat_add)
    have "gFreeMessagesCount s' + of_nat (length (free_of cfg A i)) =
        of_nat (free_total cfg ?A) + of_nat (length (free_of cfg A i))"
      unfolding cnt eq using inv by (simp add: mem_inv_def)
    then show ?thesis by (rule add_right_imp_eq)
  qed
  ultimately show ?thesis
    using inv heap irq pools by (simp add: mem_inv_def)
qed

lemma mem_inv_pools_ok:
  assumes "mem_inv cfg s A"
  shows "pools_ok (OSA_DisableIRQGlobal (irq (mheap s))) cfg (MEM_InterruptDisable s) A"
  using assms irq_ok_disable [of 1 "irq (mheap s)"]
  by (auto simp: mem_inv_def pools_ok_def glist_rep_def MEM_InterruptDisable_def
      OSA_InterruptDisable_def pool_ok_def numeral_2_eq_2)

lemma MEM_enable_disable:
  assumes "irq_ok 1 (irq (mheap s))"
  shows "MEM_InterruptEnable (MEM_InterruptDisable s) = s"
  using assms
  by (cases s; cases "mheap s") (simp add: MEM_InterruptEnable_def MEM_InterruptDisable_def
      OSA_InterruptEnable_def OSA_InterruptDisable_def)

section \<open>Allocation\<close>

lemma MEM_Alloc_zero: "mem_inv cfg s A \<Longrightarrow> MEM_BufferAllocWithId cfg 0 pid s = Some (NULL, s)"
  using irq_ok_mono [of 2 "irq (mheap s)" 1]
  by (simp add: MEM_BufferAllocWithId_def MEM_Alloc_from.simps MEM_enable_disable mem_inv_def)

lemma MEM_Alloc_choice:
  assumes "cfg_ok cfg" "ascending cfg" "mem_inv cfg s A" "nb \<noteq> 0"
  shows "case mem_choose cfg A nb pid of
      None \<Rightarrow> MEM_Alloc_from cfg nb pid 0 (MEM_InterruptDisable s) = Some (NULL, MEM_InterruptDisable s)
    | Some j \<Rightarrow> \<exists>h. ListRemoveHead (pool_addr cfg j) (mheap (MEM_InterruptDisable s)) =
          Some (hd (free_of cfg A j), h) \<and>
        MEM_Alloc_from cfg nb pid 0 (MEM_InterruptDisable s) =
          Some (hd (free_of cfg A j) + of_nat header_size, alloc_found cfg j h (MEM_InterruptDisable s))"
  unfolding mem_choose_def
  using MEM_Alloc_from_ok [OF assms(1,2) mem_inv_pools_ok [OF assms(3)] assms(4), of 0 nb pid] assms(1)
  by (simp add: cfg_ok_def)

lemma MEM_Alloc_none:
  assumes "cfg_ok cfg" "ascending cfg" "mem_inv cfg s A" "nb \<noteq> 0" "mem_choose cfg A nb pid = None"
  shows "MEM_BufferAllocWithId cfg nb pid s = Some (NULL, s)"
proof -
  have "irq_ok 1 (irq (mheap s))" using assms(3) by (auto simp: mem_inv_def intro: irq_ok_mono)
  then show ?thesis
    using MEM_Alloc_choice [OF assms(1-4), of pid] assms(5)
    by (simp add: MEM_BufferAllocWithId_def MEM_enable_disable)
qed

lemma mem_chooseD:
  assumes "mem_choose cfg A nb pid = Some i"
  shows "i < length (poolInfo cfg)" "free_of cfg A i \<noteq> []"
    "nb \<le> ucast (pi_blockSize (poolInfo cfg ! i))" "ucast pid = pi_poolId (poolInfo cfg ! i)"
  using assms by (auto simp: mem_choose_def find_Some_iff pool_fits_def)

lemma MEM_Alloc_some:
  assumes cfg: "cfg_ok cfg" "ascending cfg" and inv: "mem_inv cfg s A" and nb: "nb \<noteq> 0"
    and ch: "mem_choose cfg A nb pid = Some i"
  shows "\<exists>s'. MEM_BufferAllocWithId cfg nb pid s = Some (hd (free_of cfg A i) + of_nat header_size, s') \<and>
    mem_inv cfg s' (A(pool_addr cfg i \<mapsto> (tl (free_of cfg A i), pi_poolSize (poolInfo cfg ! i)))) \<and>
    orphan (mheap s') (hd (free_of cfg A i)) \<and> pParentPool s' = pParentPool s \<and>
    irq (mheap s') = irq (mheap s) \<and> (\<forall>e. orphan (mheap s) e \<longrightarrow> orphan (mheap s') e)"
proof -
  note i = mem_chooseD(1,2) [OF ch]
  note P = mem_inv_poolD [OF inv i(1)]
  let ?a = "pool_addr cfg i" let ?n = "pi_poolSize (poolInfo cfg ! i)"
  obtain x xs where fr: "free_of cfg A i = x # xs" using i(2) by (cases "free_of cfg A i") auto
  let ?s0 = "MEM_InterruptDisable s" let ?c = "OSA_DisableIRQGlobal (irq (mheap s))"
  have irq: "irq_ok 1 (irq (mheap s))" using inv by (auto simp: mem_inv_def intro: irq_ok_mono)
  have G: "glist_rep ?c (mheap ?s0) A" using mem_inv_pools_ok [OF inv] by (simp add: pools_ok_def)
  obtain h where h: "ListRemoveHead ?a (mheap ?s0) = Some (x, h)"
    "MEM_Alloc_from cfg nb pid 0 ?s0 = Some (x + of_nat header_size, alloc_found cfg i h ?s0)"
    using MEM_Alloc_choice [OF cfg inv nb, of pid] ch fr by auto
  have "A ?a = Some (x # xs, ?n)" using P(1) fr by simp
  then have h2: "glist_rep ?c h (A(?a \<mapsto> (xs, ?n)))" "orphan h x" "\<forall>e. orphan (mheap ?s0) e \<longrightarrow> orphan h e"
    using glist.get_cons [OF G] h(1) by fastforce+
  let ?s = "MEM_InterruptEnable (alloc_found cfg i h ?s0)"
  have heap: "mheap ?s = h\<lparr>irq := irq (mheap s)\<rparr>"
    using h2(1) irq by (simp add: MEM_InterruptEnable_def OSA_InterruptEnable_def alloc_found_def glist_rep_def)
  have "unat ?n - length xs = Suc (unat ?n - length (free_of cfg A i))" using P(6) fr by simp
  then have al: "(of_nat (unat ?n - length xs) :: u8) = allocatedBlocks (memPools s ! i) + 1"
    using P(4) by (simp only: of_nat_Suc) (simp add: ac_simps)
  have "mem_inv cfg ?s (A(?a \<mapsto> (xs, ?n)))"
  proof (rule mem_inv_update [OF cfg(1) inv i(1)])
    show "heap_refines (mheap ?s) (A(?a \<mapsto> (xs, ?n)))" using h2(1) heap by (simp add: glist_rep_def)
    show "irq (mheap ?s) = irq (mheap s)" by (simp add: heap)
    show "pParentPool ?s = pParentPool s"
      by (simp add: MEM_InterruptEnable_def alloc_found_def MEM_InterruptDisable_def)
    show "set xs \<subseteq> set (blocks cfg i)" using P(2) fr by simp
    show "memPools ?s = (memPools s)[i := (memPools s ! i)\<lparr>allocatedBlocks := of_nat (unat ?n - length xs)\<rparr>]"
      unfolding al by (simp add: MEM_InterruptEnable_def alloc_found_def MEM_InterruptDisable_def)
    show "gFreeMessagesCount ?s + of_nat (length (free_of cfg A i)) =
        gFreeMessagesCount s + of_nat (length xs)"
      using fr by (simp add: MEM_InterruptEnable_def alloc_found_def MEM_InterruptDisable_def)
  qed
  moreover have "MEM_BufferAllocWithId cfg nb pid s = Some (x + of_nat header_size, ?s)"
    using h(2) by (simp add: MEM_BufferAllocWithId_def)
  moreover have "orphan (mheap ?s) x" "\<forall>e. orphan (mheap s) e \<longrightarrow> orphan (mheap ?s) e"
    unfolding heap using h2(2,3)
    by (simp_all add: MEM_InterruptDisable_def OSA_InterruptDisable_def)
  moreover have "pParentPool ?s = pParentPool s" "irq (mheap ?s) = irq (mheap s)"
    by (simp_all add: heap) (simp add: MEM_InterruptEnable_def alloc_found_def MEM_InterruptDisable_def)
  ultimately show ?thesis unfolding fr list.sel by blast
qed


section \<open>Release\<close>

lemma MEM_find_pool_ok:
  assumes "cfg_ok cfg" "pools_ok c cfg s A" "i < length (poolInfo cfg)" "j \<le> i"
  shows "MEM_find_pool cfg (pool_addr cfg i) j s = Some (Some i)"
  using assms(4)
proof (induction "i - j" arbitrary: j)
  case 0
  then show ?case using assms by (subst MEM_find_pool.simps) (auto simp: pools_ok_def)
next
  case (Suc k)
  have len: "length (memPools s) = length (poolInfo cfg)" using assms(2) by (simp add: pools_ok_def)
  have j: "j < i" "j < length (poolInfo cfg)" using Suc.hyps(2) assms(3) by simp_all
  then have "pool_addr cfg i \<noteq> pool_addr cfg j" using pool_addr_inj [OF assms(1,3)] by blast
  moreover have "nextBlockSize (memPools s ! j) = next_pi_blockSize (drop (Suc j) (poolInfo cfg))"
    using assms(2) j(2) by (simp add: pools_ok_def pool_ok_def)
  then have "nextBlockSize (memPools s ! j) \<noteq> 0"
    using next_pi_drop_zero [OF assms(1), of j] j(1) assms(3) by simp
  ultimately have "MEM_find_pool cfg (pool_addr cfg i) j s = MEM_find_pool cfg (pool_addr cfg i) (Suc j) s"
    using j len by (subst MEM_find_pool.simps) simp
  then show ?case using Suc.hyps j by simp
qed

lemma MEM_find_pool_none:
  assumes "cfg_ok cfg" "pools_ok c cfg s A" "j < length (poolInfo cfg)" "\<forall>i < length (poolInfo cfg). q \<noteq> pool_addr cfg i"
  shows "MEM_find_pool cfg q j s = Some None"
  using assms(3)
proof (induction "length (poolInfo cfg) - j" arbitrary: j)
  case (Suc k)
  have len: "length (memPools s) = length (poolInfo cfg)" using assms(2) by (simp add: pools_ok_def)
  have nx: "nextBlockSize (memPools s ! j) = next_pi_blockSize (drop (Suc j) (poolInfo cfg))"
    using assms(2) Suc.prems by (simp add: pools_ok_def pool_ok_def)
  show ?case
  proof (cases "Suc j < length (poolInfo cfg)")
    case True
    then have "MEM_find_pool cfg q (Suc j) s = Some None" using Suc.hyps by simp
    then show ?thesis using assms(4) len Suc.prems by (subst MEM_find_pool.simps) simp
  next
    case False
    then have "nextBlockSize (memPools s ! j) = 0" using nx next_pi_drop_zero [OF assms(1), of j] Suc.prems by simp
    then show ?thesis using assms(4) len Suc.prems by (subst MEM_find_pool.simps) simp
  qed
qed simp

text \<open>The range check accepts the header of every block.\<close>

lemma block_in_range:
  assumes "cfg_ok cfg" "i < length (poolInfo cfg)" "b \<in> set (blocks cfg i)"
  shows "b + of_nat header_size \<noteq> NULL" "\<not> b < memHeap_addr cfg"
    "\<not> b > memHeap_addr cfg + of_nat (sizeof_memHeap cfg)"
proof -
  note B = block_bounds [OF assms]
  have lim: "unat (memHeap_addr cfg) + heapSize cfg < 2 ^ 32" using assms(1) by (simp add: cfg_ok_def)
  have h16: "unat (of_nat header_size :: ptr) = header_size" by simp
  have "unat (b + of_nat header_size) = unat b + header_size"
    using B(2) lim by (subst unat_add_small) (simp_all only: h16)
  then show "b + of_nat header_size \<noteq> NULL" by (metis add_is_0 rel_simps(76) unat_0)
  show "\<not> b < memHeap_addr cfg" using B(1) by (simp add: word_less_nat_alt)
  have sz: "sizeof_memHeap cfg \<le> heapSize cfg" "heapSize cfg \<le> sizeof_memHeap cfg + 3"
    by (simp_all add: sizeof_memHeap_def)
  have "unat (of_nat (sizeof_memHeap cfg) :: ptr) = sizeof_memHeap cfg"
    using sz(1) lim by (intro unat_of_nat_small) simp
  then have "unat (memHeap_addr cfg + of_nat (sizeof_memHeap cfg)) =
      unat (memHeap_addr cfg) + sizeof_memHeap cfg"
    using sz(1) lim by (subst unat_add_small) simp_all
  then show "\<not> b > memHeap_addr cfg + of_nat (sizeof_memHeap cfg)"
    using B(2) sz(2) by (simp add: word_less_nat_alt)
qed

lemma MEM_Free_null: "MEM_BufferFree cfg NULL s = Some (MEM_FREE_ERROR_c, s)"
  by (simp add: MEM_BufferFree_def)

lemma MEM_Free_range:
  assumes "p - of_nat header_size < memHeap_addr cfg \<or>
    p - of_nat header_size > memHeap_addr cfg + of_nat (sizeof_memHeap cfg)"
  shows "MEM_BufferFree cfg p s = Some (MEM_FREE_ERROR_c, s)"
  using assms by (simp add: MEM_BufferFree_def Let_def)

text \<open>An address that passes the range check: what lies where its header would be decides.\<close>

lemma MEM_Free_stray:
  assumes cfg: "cfg_ok cfg" and inv: "mem_inv cfg s A" and p: "p \<noteq> NULL" "memHeap_addr cfg \<le> p - of_nat header_size"
    "p - of_nat header_size \<le> memHeap_addr cfg + of_nat (sizeof_memHeap cfg)"
  shows "pParentPool s (p - of_nat header_size) = None \<Longrightarrow> MEM_BufferFree cfg p s = None"
    and "pParentPool s (p - of_nat header_size) = Some q \<Longrightarrow> \<forall>i < length (poolInfo cfg). q \<noteq> pool_addr cfg i \<Longrightarrow>
      MEM_BufferFree cfg p s = Some (MEM_FREE_ERROR_c, s)"
proof -
  have s0: "pParentPool (MEM_InterruptDisable s) = pParentPool s" by (simp add: MEM_InterruptDisable_def)
  note r = p(1) p(2,3) [unfolded linorder_not_less [symmetric]]
  show "MEM_BufferFree cfg p s = None" if "pParentPool s (p - of_nat header_size) = None"
    using r that by (simp add: MEM_BufferFree_def Let_def s0)
  show "MEM_BufferFree cfg p s = Some (MEM_FREE_ERROR_c, s)"
    if q: "pParentPool s (p - of_nat header_size) = Some q" "\<forall>i < length (poolInfo cfg). q \<noteq> pool_addr cfg i"
  proof -
    have "0 < length (poolInfo cfg)" using cfg by (simp add: cfg_ok_def)
    then have "MEM_find_pool cfg q 0 (MEM_InterruptDisable s) = Some None"
      using MEM_find_pool_none [OF cfg mem_inv_pools_ok [OF inv] _ q(2)] by blast
    moreover have "MEM_InterruptEnable (MEM_InterruptDisable s) = s"
      using inv by (intro MEM_enable_disable) (auto simp: mem_inv_def intro: irq_ok_mono)
    ultimately show ?thesis using r q(1) by (simp add: MEM_BufferFree_def Let_def s0)
  qed
qed

text \<open>A block that is in a list, its own free list (a double free) or a queue, is
  refused.\<close>

lemma MEM_Free_linked:
  assumes cfg: "cfg_ok cfg" and inv: "mem_inv cfg s A" and i: "i < length (poolInfo cfg)"
    and b: "b \<in> set (blocks cfg i)" "A q = Some (xs, mx)" "b \<in> set xs"
  shows "MEM_BufferFree cfg (b + of_nat header_size) s = Some (MEM_FREE_ERROR_c, s)"
proof -
  note R = block_in_range [OF cfg i b(1)]
  have heap: "heap_refines (mheap s) A" using inv by (simp add: mem_inv_def)
  obtain e where e: "elems (mheap s) b = Some e" "el_list e = q"
    using heap_refines_member [OF heap b(2,3)] by blast
  have q: "q \<noteq> NULL" using heap_refines_repD [OF heap b(2)] by (simp add: list_rep_def)
  have par: "pParentPool s b = Some (pool_addr cfg i)"
    using inv i b(1) by (simp add: mem_inv_def pool_ok_def)
  let ?s0 = "MEM_InterruptDisable s"
  have s0: "pParentPool ?s0 = pParentPool s" "memPools ?s0 = memPools s"
    "elems (mheap ?s0) = elems (mheap s)"
    by (simp_all add: MEM_InterruptDisable_def OSA_InterruptDisable_def)
  have "MEM_find_pool cfg (pool_addr cfg i) 0 ?s0 = Some (Some i)"
    using MEM_find_pool_ok [OF cfg mem_inv_pools_ok [OF inv] i] by blast
  moreover have "MEM_InterruptEnable ?s0 = s"
    using inv by (intro MEM_enable_disable) (auto simp: mem_inv_def intro: irq_ok_mono)
  ultimately show ?thesis
    using R e q par s0 block_bounds(3) [OF cfg i b(1)]
    by (simp add: MEM_BufferFree_def Let_def get_elem_def)
qed


lemma allocatedBlocks_dec:
  "allocatedBlocks_update (\<lambda>n. n - 1) r = r\<lparr>allocatedBlocks := allocatedBlocks r - 1\<rparr>"
  by (cases r) simp

lemma MEM_Free_ok:
  assumes cfg: "cfg_ok cfg" and inv: "mem_inv cfg s A" and i: "i < length (poolInfo cfg)"
    and b: "b \<in> set (blocks cfg i)" "orphan (mheap s) b"
  shows "\<exists>s'. MEM_BufferFree cfg (b + of_nat header_size) s = Some (MEM_SUCCESS_c, s') \<and>
    mem_inv cfg s' (A(pool_addr cfg i \<mapsto> (free_of cfg A i @ [b], pi_poolSize (poolInfo cfg ! i)))) \<and>
    pParentPool s' = pParentPool s \<and> irq (mheap s') = irq (mheap s) \<and>
    (\<forall>e. e \<noteq> b \<longrightarrow> orphan (mheap s) e \<longrightarrow> orphan (mheap s') e)"
proof -
  note R = block_in_range [OF cfg i b(1)] and P = mem_inv_poolD [OF inv i]
  let ?a = "pool_addr cfg i" let ?n = "pi_poolSize (poolInfo cfg ! i)"
  let ?c = "OSA_DisableIRQGlobal (irq (mheap s))" let ?xs = "free_of cfg A i"
  have heap: "heap_refines (mheap s) A" using inv by (simp add: mem_inv_def)
  have par: "pParentPool s b = Some ?a" using inv i b(1) by (simp add: mem_inv_def pool_ok_def)
  define s0 where "s0 = MEM_InterruptDisable s"
  have s0: "pParentPool s0 = pParentPool s" "memPools s0 = memPools s"
    "elems (mheap s0) = elems (mheap s)" "orphan (mheap s0) = orphan (mheap s)"
    "gFreeMessagesCount s0 = gFreeMessagesCount s"
    by (auto simp: s0_def MEM_InterruptDisable_def OSA_InterruptDisable_def)
  have ok: "pools_ok ?c cfg s0 A" unfolding s0_def by (rule mem_inv_pools_ok [OF inv])
  have fnd: "MEM_find_pool cfg ?a 0 s0 = Some (Some i)"
    using MEM_find_pool_ok [OF cfg ok i] by blast
  have new: "b \<notin> set ?xs" using orphan_notin [OF heap b(2) P(1)] .
  have "card (set (?xs @ [b])) \<le> card (set (blocks cfg i))" using P(2) b(1) by (intro card_mono) auto
  moreover have "card (set (?xs @ [b])) = length ?xs + 1"
    using new P(3) by (subst distinct_card) auto
  ultimately have room: "length ?xs + 1 \<le> unat ?n"
    using card_length [of "blocks cfg i"] length_blocks [OF i] by simp
  have lt: "length ?xs + 1 < 2 ^ 16" using room word_nat_less_len [of ?n] by simp
  define s1 where "s1 = s0\<lparr>gFreeMessagesCount := gFreeMessagesCount s0 + 1\<rparr>"
  have G: "glist_rep ?c (mheap s1) A" using ok by (simp add: pools_ok_def s1_def)
  have nf: "\<not> abs_full ?xs ?n" using room by auto
  have ob: "orphan (mheap s1) b" using b(2) s0(4) by (simp add: s1_def)
  obtain h where h: "ListAddTail ?a b (mheap s1) = Some (gListOk_c, h)"
    "glist_rep ?c h (A(?a \<mapsto> (?xs @ [b], ?n)))" "\<forall>e. e \<noteq> b \<longrightarrow> orphan (mheap s1) e \<longrightarrow> orphan h e"
    using glist.put_ok [OF G P(1) nf lt ob] by blast
  define s2 where "s2 = MEM_InterruptEnable (s1\<lparr>mheap := h, memPools := (memPools s)[i :=
    allocatedBlocks_update (\<lambda>n. n - 1) (memPools s ! i)]\<rparr>)"
  obtain e where e: "elems (mheap s) b = Some e" "el_list e = NULL" "b \<noteq> NULL"
    using b(2) by (auto simp: orphan_def)
  have run: "MEM_BufferFree cfg (b + of_nat header_size) s = Some (MEM_SUCCESS_c, s2)"
    using R fnd par s0 e h(1) P(5)
    by (simp add: MEM_BufferFree_def Let_def get_elem_def s0_def [symmetric] s1_def [symmetric]
        mod_pool_def s2_def) (simp add: s1_def s0)
  have heap2: "mheap s2 = h\<lparr>irq := irq (mheap s)\<rparr>"
    using h(2) inv irq_ok_mono [of 2 "irq (mheap s)" 1]
    by (simp add: s2_def MEM_InterruptEnable_def OSA_InterruptEnable_def glist_rep_def mem_inv_def)
  have same: "pParentPool s2 = pParentPool s" "gFreeMessagesCount s2 = gFreeMessagesCount s + 1"
    by (simp_all add: s2_def s1_def s0 MEM_InterruptEnable_def)
  have "unat ?n - length ?xs = Suc (unat ?n - length (?xs @ [b]))" using room by simp
  then have al: "(of_nat (unat ?n - length (?xs @ [b])) :: u8) = allocatedBlocks (memPools s ! i) - 1"
    using P(4) by (simp only: of_nat_Suc) simp
  have "mem_inv cfg s2 (A(?a \<mapsto> (?xs @ [b], ?n)))"
  proof (rule mem_inv_update [OF cfg inv i])
    show "heap_refines (mheap s2) (A(?a \<mapsto> (?xs @ [b], ?n)))" using h(2) heap2 by (simp add: glist_rep_def)
    show "irq (mheap s2) = irq (mheap s)" by (simp add: heap2)
    show "set (?xs @ [b]) \<subseteq> set (blocks cfg i)" using P(2) b(1) by simp
    show "memPools s2 = (memPools s)[i := (memPools s ! i)
        \<lparr>allocatedBlocks := of_nat (unat ?n - length (?xs @ [b]))\<rparr>]"
      unfolding al by (simp add: s2_def MEM_InterruptEnable_def allocatedBlocks_dec)
    show "gFreeMessagesCount s2 + of_nat (length ?xs) = gFreeMessagesCount s + of_nat (length (?xs @ [b]))"
      by (simp add: same)
  qed (rule same)
  moreover have "\<forall>e. e \<noteq> b \<longrightarrow> orphan (mheap s) e \<longrightarrow> orphan (mheap s2) e"
    unfolding heap2 using h(3) s0(4) by (simp add: s1_def)
  ultimately show ?thesis using run same(1) heap2 by fastforce
qed


section \<open>Blocks do not overlap\<close>

lemma blk_list_apart:
  assumes "unat p + n * unat st < 2 ^ 32" "b \<in> set (blk_list p st n)" "b' \<in> set (blk_list p st n)"
    "b \<noteq> b'"
  shows "unat b + unat st \<le> unat b' \<or> unat b' + unat st \<le> unat b"
  using assms
proof (induction n arbitrary: p)
  case 0
  then show ?case by simp
next
  case (Suc n)
  have ps: "unat (p + st) = unat p + unat st"
    using Suc.prems(1) by (intro unat_add_small) simp
  have "unat p + unat st \<le> unat x" if "x \<in> set (blk_list (p + st) st n)" for x
    using blk_list_bounds [OF that] Suc.prems(1) ps by simp
  then show ?case using Suc.IH [of "p + st"] Suc.prems ps by fastforce
qed

lemma heap_blocks_apart:
  assumes "unat p + sum_list (map pool_bytes qs) < 2 ^ 32" "i < length qs" "j < length qs"
    "b \<in> set (heap_blocks p qs ! i)" "b' \<in> set (heap_blocks p qs ! j)" "b \<noteq> b'"
  shows "unat b + block_bytes (qs ! i) \<le> unat b' \<or> unat b' + block_bytes (qs ! j) \<le> unat b"
  using assms
proof (induction qs arbitrary: p i j)
  case Nil
  then show ?case by simp
next
  case (Cons q qs)
  let ?n = "unat (pi_poolSize q)" let ?p = "p + of_nat ?n * stride q"
  have bytes: "?n * unat (stride q) = pool_bytes q"
    by (simp add: unat_stride pool_bytes_def)
  have nx: "unat ?p = unat p + pool_bytes q"
    using Cons.prems(1) bytes unat_mult_small [of ?n "stride q"]
    by (subst unat_add_small) auto
  have lo: "unat x + block_bytes q \<le> unat ?p" if "x \<in> set (blk_list p (stride q) ?n)" for x
    using blk_list_bounds [OF that] bytes Cons.prems(1) nx by (simp add: unat_stride)
  have hi: "unat ?p \<le> unat x" if "x \<in> set (heap_blocks ?p qs ! k)" "k < length qs" for x k
  proof -
    have "heap_blocks ?p qs ! k \<in> set (heap_blocks ?p qs)" using that(2) by simp
    then have "x \<in> set (concat (heap_blocks ?p qs))" using that(1) by (simp only: set_concat) blast
    then show ?thesis using heap_blocks_bounds [of x ?p qs] nx Cons.prems(1) by simp
  qed
  show ?case
  proof (cases i; cases j)
    assume "i = 0" "j = 0"
    then show ?thesis
      using Cons.prems bytes blk_list_apart [of p ?n "stride q" b b'] by (simp add: unat_stride)
  next
    fix k assume "i = 0" "j = Suc k"
    then show ?thesis using Cons.prems(3-5) lo [of b] hi [of b' k] by simp
  next
    fix k assume "i = Suc k" "j = 0"
    then show ?thesis using Cons.prems(2,4,5) lo [of b'] hi [of b k] by simp
  next
    fix k l assume "i = Suc k" "j = Suc l"
    then show ?thesis using Cons.IH [of ?p k l] Cons.prems nx by simp
  qed
qed

lemma blocks_apart:
  assumes "cfg_ok cfg" "i < length (poolInfo cfg)" "j < length (poolInfo cfg)"
    "b \<in> set (blocks cfg i)" "b' \<in> set (blocks cfg j)" "b \<noteq> b'"
  shows "unat b + block_bytes (poolInfo cfg ! i) \<le> unat b' \<or>
    unat b' + block_bytes (poolInfo cfg ! j) \<le> unat b"
  using heap_blocks_apart [of "memHeap_addr cfg" "poolInfo cfg" i j b b'] assms
  by (simp add: blocks_def cfg_ok_def heapSize_def)

section \<open>A client of the allocator\<close>

text \<open>A client that releases only what it holds. \<open>H\<close> is the set of buffers it holds.\<close>

inductive client_step :: "mem_cfg \<Rightarrow> mem_state \<times> ptr set \<Rightarrow> mem_state \<times> ptr set \<Rightarrow> bool" for cfg where
  client_alloc: "MEM_BufferAllocWithId cfg nb pid s = Some (p, s') \<Longrightarrow>
    client_step cfg (s, H) (s', if p = NULL then H else insert p H)"
| client_free: "p \<in> H \<Longrightarrow> MEM_BufferFree cfg p s = Some (st, s') \<Longrightarrow>
    client_step cfg (s, H) (s', H - {p})"

inductive client_reach :: "mem_cfg \<Rightarrow> mem_state \<Rightarrow> mem_state \<times> ptr set \<Rightarrow> bool" for cfg s0 where
  client_init: "MEM_Init cfg s0 = Some (st, s) \<Longrightarrow> client_reach cfg s0 (s, {})"
| client_next: "client_reach cfg s0 x \<Longrightarrow> client_step cfg x y \<Longrightarrow> client_reach cfg s0 y"

text \<open>Every block is either free or held, and nothing else is held.\<close>

definition client_ok :: "mem_cfg \<Rightarrow> mem_state \<Rightarrow> ptr set \<Rightarrow> alists \<Rightarrow> bool" where
  "client_ok cfg s H A \<longleftrightarrow> mem_inv cfg s A \<and>
     (\<forall>p \<in> H. \<exists>i < length (poolInfo cfg). \<exists>b \<in> set (blocks cfg i). p = b + of_nat header_size) \<and>
     (\<forall>i < length (poolInfo cfg). \<forall>b \<in> set (blocks cfg i).
        if b + of_nat header_size \<in> H then orphan (mheap s) b else b \<in> set (free_of cfg A i))"

lemma client_init_ok:
  assumes "cfg_ok cfg" "mem_raw cfg s0 A0" "MEM_Init cfg s0 = Some (st, s)"
  shows "\<exists>A. client_ok cfg s {} A"
  using MEM_Init_ok [OF assms(1,2)] assms(3) by (fastforce simp: client_ok_def)

lemma client_free_ok:
  assumes cfg: "cfg_ok cfg" and ok: "client_ok cfg s H A" and p: "p \<in> H"
  shows "\<exists>s' A'. MEM_BufferFree cfg p s = Some (MEM_SUCCESS_c, s') \<and> client_ok cfg s' (H - {p}) A'"
proof -
  obtain i b where i: "i < length (poolInfo cfg)" and b: "b \<in> set (blocks cfg i)"
    and pb: "p = b + of_nat header_size"
    using ok p unfolding client_ok_def by blast
  have inv: "mem_inv cfg s A" and orph: "orphan (mheap s) b"
    using ok i b p pb by (auto simp: client_ok_def)
  let ?A = "A(pool_addr cfg i \<mapsto> (free_of cfg A i @ [b], pi_poolSize (poolInfo cfg ! i)))"
  obtain s' where s': "MEM_BufferFree cfg p s = Some (MEM_SUCCESS_c, s')" "mem_inv cfg s' ?A"
    "\<forall>e. e \<noteq> b \<longrightarrow> orphan (mheap s) e \<longrightarrow> orphan (mheap s') e"
    using MEM_Free_ok [OF cfg inv i b orph] pb by auto
  have "if b' + of_nat header_size \<in> H - {p} then orphan (mheap s') b' else b' \<in> set (free_of cfg ?A j)"
    if j: "j < length (poolInfo cfg)" and b': "b' \<in> set (blocks cfg j)" for j b'
  proof -
    have old: "if b' + of_nat header_size \<in> H then orphan (mheap s) b' else b' \<in> set (free_of cfg A j)"
      using ok j b' by (simp add: client_ok_def)
    have fr: "free_of cfg ?A j = (if j = i then free_of cfg A i @ [b] else free_of cfg A j)"
      by (rule free_of_upd [OF cfg i j])
    show ?thesis
    proof (cases "b' = b")
      case True
      then have "j = i" using blocks_disjoint [OF cfg j i] b b' by blast
      then show ?thesis using True pb fr by simp
    next
      case False
      then show ?thesis using old s'(3) pb fr by auto
    qed
  qed
  then have "client_ok cfg s' (H - {p}) ?A"
    using ok s'(2) by (simp add: client_ok_def)
  then show ?thesis using s'(1) by blast
qed

lemma client_alloc_ok:
  assumes cfg: "cfg_ok cfg" "ascending cfg" and ok: "client_ok cfg s H A"
  shows "\<exists>p s' A'. MEM_BufferAllocWithId cfg nb pid s = Some (p, s') \<and> p \<notin> H \<and>
    client_ok cfg s' (if p = NULL then H else insert p H) A' \<and>
    (p \<noteq> NULL \<longrightarrow> (\<exists>i < length (poolInfo cfg). \<exists>b \<in> set (blocks cfg i). p = b + of_nat header_size \<and>
      nb \<le> ucast (pi_blockSize (poolInfo cfg ! i)) \<and> ucast pid = pi_poolId (poolInfo cfg ! i)))"
proof -
  have inv: "mem_inv cfg s A" using ok by (simp add: client_ok_def)
  have nullH: "NULL \<notin> H"
  proof
    assume "NULL \<in> H"
    then obtain i b where "i < length (poolInfo cfg)" "b \<in> set (blocks cfg i)" "NULL = b + of_nat header_size"
      using ok unfolding client_ok_def by blast
    then show False using block_in_range(1) [OF cfg(1)] by metis
  qed
  consider "nb = 0 \<or> mem_choose cfg A nb pid = None" | i where "nb \<noteq> 0" "mem_choose cfg A nb pid = Some i"
    by (cases "mem_choose cfg A nb pid") auto
  then show ?thesis
  proof cases
    case 1
    then have "MEM_BufferAllocWithId cfg nb pid s = Some (NULL, s)"
      using MEM_Alloc_zero [OF inv] MEM_Alloc_none [OF cfg inv] by (cases "nb = 0") auto
    then show ?thesis using ok nullH by (intro exI [of _ NULL] exI [of _ s] exI [of _ A]) simp
  next
    case (2 i)
    note i = mem_chooseD(1,2) [OF 2(2)] and P = mem_inv_poolD [OF inv]
    obtain b xs where fr: "free_of cfg A i = b # xs" using i(2) by (cases "free_of cfg A i") auto
    let ?A = "A(pool_addr cfg i \<mapsto> (xs, pi_poolSize (poolInfo cfg ! i)))" let ?p = "b + of_nat header_size"
    obtain s' where s': "MEM_BufferAllocWithId cfg nb pid s = Some (?p, s')" "mem_inv cfg s' ?A"
      "orphan (mheap s') b" "\<forall>e. orphan (mheap s) e \<longrightarrow> orphan (mheap s') e"
      using MEM_Alloc_some [OF cfg inv 2] fr by auto
    have b: "b \<in> set (blocks cfg i)" "b \<notin> set xs" using P(2,3) [OF i(1)] fr by auto
    have R: "?p \<noteq> NULL" using block_in_range [OF cfg(1) i(1) b(1)] by simp
    have "\<not> orphan (mheap s) b"
    proof
      assume o: "orphan (mheap s) b"
      have R: "heap_refines (mheap s) A" using inv by (simp add: mem_inv_def)
      show False using orphan_notin [OF R o P(1) [OF i(1)]] fr by simp
    qed
    then have new: "?p \<notin> H" using ok i(1) b(1) unfolding client_ok_def by metis
    have "if b' + of_nat header_size \<in> insert ?p H then orphan (mheap s') b' else b' \<in> set (free_of cfg ?A j)"
      if j: "j < length (poolInfo cfg)" and b': "b' \<in> set (blocks cfg j)" for j b'
    proof -
      have "if b' + of_nat header_size \<in> H then orphan (mheap s) b' else b' \<in> set (free_of cfg A j)"
        using ok j b' by (simp add: client_ok_def)
      then show ?thesis
        using s'(3,4) free_of_upd [OF cfg(1) i(1) j, of A xs] fr by auto
    qed
    then have "client_ok cfg s' (insert ?p H) ?A"
      using ok s'(2) i(1) b(1) unfolding client_ok_def by blast
    then show ?thesis using s'(1) new R i(1) b(1) mem_chooseD(3,4) [OF 2(2)] by auto
  qed
qed

lemma client_reach_ok:
  assumes "client_reach cfg s0 x" "cfg_ok cfg" "ascending cfg" "mem_raw cfg s0 A0"
  shows "\<exists>A. client_ok cfg (fst x) (snd x) A"
  using assms(1)
proof induction
  case (client_init st s)
  then show ?case using client_init_ok [OF assms(2,4)] by simp
next
  case (client_next x y)
  obtain s H A where x: "x = (s, H)" and ok: "client_ok cfg s H A"
    using client_next.IH by (cases x) auto
  from client_next.hyps(2) [unfolded x] show ?case
  proof cases
    case (client_alloc nb pid p s')
    then show ?thesis using client_alloc_ok [OF assms(2,3) ok, of nb pid] by auto
  next
    case (client_free p st s')
    then show ?thesis using client_free_ok [OF assms(2) ok, of p] by auto
  qed
qed


text \<open>Free and held blocks add up.\<close>

lemma client_conserve:
  assumes cfg: "cfg_ok cfg" and ok: "client_ok cfg s H A"
  shows "free_total cfg A + card H = length (all_blocks cfg)"
proof -
  let ?n = "length (poolInfo cfg)" let ?f = "\<lambda>b :: ptr. b + of_nat header_size"
  let ?held = "{b \<in> set (all_blocks cfg). ?f b \<in> H}" let ?free = "\<Union>i < ?n. set (free_of cfg A i)"
  have inv: "mem_inv cfg s A" using ok by (simp add: client_ok_def)
  note P = mem_inv_poolD [OF inv]
  have all: "set (all_blocks cfg) = (\<Union>i < ?n. set (blocks cfg i))"
    by (force simp: all_blocks_def blocks_def in_set_conv_nth)
  have state: "if ?f b \<in> H then orphan (mheap s) b else b \<in> set (free_of cfg A i)"
    if "i < ?n" "b \<in> set (blocks cfg i)" for i b
    using ok that by (simp add: client_ok_def)
  have free_not_held: "?f b \<notin> H" if "i < ?n" "b \<in> set (free_of cfg A i)" for i b
  proof
    assume "?f b \<in> H"
    moreover have "b \<in> set (blocks cfg i)" using P(2) [OF that(1)] that(2) by blast
    ultimately have o: "orphan (mheap s) b" using state [OF that(1)] by simp
    have R: "heap_refines (mheap s) A" using inv by (simp add: mem_inv_def)
    show False using orphan_notin [OF R o P(1) [OF that(1)]] that(2) by simp
  qed
  have split: "set (all_blocks cfg) = ?held \<union> ?free"
  proof (intro equalityI subsetI)
    fix b assume "b \<in> set (all_blocks cfg)"
    then obtain i where "i < ?n" "b \<in> set (blocks cfg i)" using all by auto
    then show "b \<in> ?held \<union> ?free" using state [of i b] all by (cases "?f b \<in> H") auto
  next
    fix b assume "b \<in> ?held \<union> ?free"
    then show "b \<in> set (all_blocks cfg)" using P(2) all by blast
  qed
  have "?held \<inter> ?free = {}" using free_not_held by auto
  then have "card (?held \<union> ?free) = card ?held + card ?free" by (intro card_Un_disjoint) simp_all
  then have "card (set (all_blocks cfg)) = card ?held + card ?free" by (simp only: split [symmetric])
  moreover have "card ?free = (\<Sum>i < ?n. card (set (free_of cfg A i)))"
  proof (intro card_UN_disjoint ballI impI)
    fix i j assume "i \<in> {..<?n}" "j \<in> {..<?n}" "i \<noteq> j"
    then show "set (free_of cfg A i) \<inter> set (free_of cfg A j) = {}"
      using blocks_disjoint [OF cfg, of i j] P(2) [of i] P(2) [of j] by auto
  qed simp_all
  moreover have "(\<Sum>i < ?n. card (set (free_of cfg A i))) = free_total cfg A"
    unfolding free_total_def using P(3) by (intro sum.cong) (simp_all add: distinct_card)
  moreover have img: "H = ?f ` ?held"
  proof (intro equalityI subsetI)
    fix p assume p: "p \<in> H"
    then obtain i b where "i < ?n" "b \<in> set (blocks cfg i)" "p = ?f b"
      using ok unfolding client_ok_def by blast
    then show "p \<in> ?f ` ?held" using p all by blast
  qed auto
  have "card (?f ` ?held) = card ?held" by (intro card_image inj_onI) simp
  then have "card H = card ?held" by (simp only: img [symmetric])
  moreover have "card (set (all_blocks cfg)) = length (all_blocks cfg)"
    using distinct_all_blocks [OF cfg] by (rule distinct_card)
  ultimately show ?thesis by simp
qed

section \<open>The number of available blocks\<close>

lemma MEM_GetAvailableBlocks_from_ok:
  assumes "cfg_ok cfg" "mem_inv cfg s A" "i < length (poolInfo cfg)"
  shows "MEM_GetAvailableBlocks_from cfg sz i t s = Some (t + of_nat
    (\<Sum>j = i..<length (poolInfo cfg). if sz \<le> ucast (pi_blockSize (poolInfo cfg ! j))
       then length (free_of cfg A j) else 0))"
  using assms(3)
proof (induction "length (poolInfo cfg) - i" arbitrary: i t)
  case 0
  then show ?case by simp
next
  case (Suc k)
  let ?n = "length (poolInfo cfg)" let ?p = "memPools s ! i"
  have i: "i < length (memPools s)" "k = ?n - Suc i" using Suc assms(2) by (auto simp: mem_inv_def)
  have R: "heap_refines (mheap s) A" using assms(2) by (simp add: mem_inv_def)
  have p: "blockSize ?p = pi_blockSize (poolInfo cfg ! i)"
    "nextBlockSize ?p = next_pi_blockSize (drop (Suc i) (poolInfo cfg))"
    using assms(2) Suc.prems by (simp_all add: mem_inv_def pool_ok_def)
  have more: "nextBlockSize ?p = 0 \<longleftrightarrow> \<not> Suc i < ?n" using next_pi_drop_zero [OF assms(1)] p(2) by simp
  note a = mem_inv_poolD(1,6) [OF assms(2) Suc.prems]
  have "length (free_of cfg A i) < 2 ^ 16"
    using a(2) word_nat_less_len [of "pi_poolSize (poolInfo cfg ! i)"] by simp
  then have "(ucast (of_nat (length (free_of cfg A i)) :: u16) :: u32) = of_nat (length (free_of cfg A i))"
    by (subst of_nat_eq_word_iff) (simp_all add: unat_ucast_up unat_of_nat_small)
  then have sz: "ListGetSize (pool_addr cfg i) (mheap s) = Some (of_nat (length (free_of cfg A i)))"
    using heap_refines_repD [OF R a(1)] by (simp add: ListGetSize_def list_rep_def get_list_def)
  let ?c = "if sz \<le> ucast (pi_blockSize (poolInfo cfg ! i)) then length (free_of cfg A i) else 0"
  have "MEM_GetAvailableBlocks_from cfg sz i t s = (if Suc i < ?n
      then MEM_GetAvailableBlocks_from cfg sz (Suc i) (t + of_nat ?c) s else Some (t + of_nat ?c))"
    using i more p(1) sz by (subst MEM_GetAvailableBlocks_from.simps) (auto simp: Let_def)
  moreover have "(\<Sum>j = i..<?n. if sz \<le> ucast (pi_blockSize (poolInfo cfg ! j))
        then length (free_of cfg A j) else 0) =
      ?c + (\<Sum>j = Suc i..<?n. if sz \<le> ucast (pi_blockSize (poolInfo cfg ! j))
        then length (free_of cfg A j) else 0)"
    using Suc.prems by (rule sum.atLeast_Suc_lessThan)
  ultimately show ?case
    using Suc.hyps(1) [OF i(2), of "t + of_nat ?c"] by (simp add: add.assoc)
qed


section \<open>Properties\<close>

text \<open>A build with two pools, used in the witnesses: two blocks of 32 bytes and one of
  64.\<close>

definition cfg0 :: mem_cfg where
  "cfg0 = \<lparr>poolInfo = [\<lparr>pi_blockSize = 32, pi_poolSize = 2, pi_poolId = 0\<rparr>,
                      \<lparr>pi_blockSize = 64, pi_poolSize = 1, pi_poolId = 0\<rparr>],
     memPools_addr = 0x1000, memHeap_addr = 0x2000\<rparr>"

definition raw_list :: list_t where
  "raw_list = \<lparr>l_head = 0, l_tail = 0, l_size = 0, l_max = 0\<rparr>"

definition raw_elem :: listElement where
  "raw_elem = \<lparr>el_next = 0, el_prev = 0, el_list = 0\<rparr>"

definition raw_pool :: pools_t where
  "raw_pool = \<lparr>nextBlockSize = 0, blockSize = 0, poolId = 0, numBlocks = 0, allocatedBlocks = 0\<rparr>"

definition raw0 :: mem_state where
  "raw0 = \<lparr>mheap = \<lparr>hlists = [0x1000 \<mapsto> raw_list, 0x1014 \<mapsto> raw_list],
       elems = [0x2000 \<mapsto> raw_elem, 0x2030 \<mapsto> raw_elem, 0x2060 \<mapsto> raw_elem],
       irq = \<lparr>gInterruptDisableCount = 0, primask = False\<rparr>\<rparr>,
     pParentPool = Map.empty, memPools = [raw_pool, raw_pool], gFreeMessagesCount = 0\<rparr>"

definition rawA :: alists where
  "rawA = [0x1000 \<mapsto> ([], 0), 0x1014 \<mapsto> ([], 0)]"

lemma cfg0_ok: "cfg_ok cfg0" "ascending cfg0"
  by (simp_all add: cfg0_def cfg_ok_def ascending_def heapSize_def pool_bytes_def block_bytes_def)

lemma blk_list_numeral [simp]:
  "blk_list p st (numeral k) = p # blk_list (p + st) st (pred_numeral k)"
  by (simp add: numeral_eq_Suc)

lemma cfg0_layout: "length (poolInfo cfg0) = 2" "pool_addr cfg0 0 = 0x1000"
  "pool_addr cfg0 (Suc 0) = 0x1014" "blocks cfg0 0 = [0x2000, 0x2030]" "blocks cfg0 (Suc 0) = [0x2060]"
  "all_blocks cfg0 = [0x2000, 0x2030, 0x2060]"
  by (simp_all add: cfg0_def pool_addr_def blocks_def all_blocks_def stride_def)

lemma raw0_raw: "mem_raw cfg0 raw0 rawA"
  by (auto simp: mem_raw_def cfg0_layout raw0_def rawA_def raw_list_def raw_elem_def raw_pool_def
      heap_refines_def list_rep_def orphan_def irq_ok_def all_less_two split: if_splits)


definition start0 :: mem_state where
  "start0 = snd (the (MEM_Init cfg0 raw0))"

lemma start0_ok:
  obtains A where "MEM_Init cfg0 raw0 = Some (MEM_SUCCESS_c, start0)" "mem_inv cfg0 start0 A"
    "free_of cfg0 A 0 = [0x2000, 0x2030]" "free_of cfg0 A (Suc 0) = [0x2060]"
proof -
  obtain s A where "MEM_Init cfg0 raw0 = Some (MEM_SUCCESS_c, s)" "mem_inv cfg0 s A"
    "\<forall>i < length (poolInfo cfg0). free_of cfg0 A i = blocks cfg0 i"
    using MEM_Init_ok [OF cfg0_ok(1) raw0_raw] by blast
  then show thesis using that [of A] by (simp add: start0_def cfg0_layout all_less_two)
qed

text \<open>From zeroed pools and a heap of unlinked blocks, \<open>MEM_Init\<close> succeeds without a
  bad access, leaves the interrupt state as it was and establishes the allocator
  invariant, with every pool holding exactly its own blocks in address order.\<close>

theorem mem_init_fresh:
  assumes "cfg_ok cfg" "mem_raw cfg s A"
  shows "\<exists>s' A'. MEM_Init cfg s = Some (MEM_SUCCESS_c, s') \<and> mem_inv cfg s' A' \<and>
    irq (mheap s') = irq (mheap s) \<and> (\<forall>i < length (poolInfo cfg). free_of cfg A' i = blocks cfg i)"
  by (rule MEM_Init_ok [OF assms])

theorem mem_init_fresh_witness:
  "\<exists>s' A'. MEM_Init cfg0 raw0 = Some (MEM_SUCCESS_c, s') \<and> mem_inv cfg0 s' A' \<and>
    free_of cfg0 A' 0 = [0x2000, 0x2030] \<and> free_of cfg0 A' 1 = [0x2060]"
  using mem_init_fresh [OF cfg0_ok(1) raw0_raw] by (fastforce simp: cfg0_layout all_less_two)

text \<open>C2: on a pool table sorted by block size, \<open>MEM_BufferAllocWithId\<close> returns the oldest
  free block of the first pool of the requested id whose blocks are large enough and that
  has one, takes exactly that block out of the pool and keeps the invariant; it returns
  \<open>NULL\<close> and changes nothing only when there is no such pool or the size is 0.\<close>

theorem mem_alloc_first_fit:
  assumes "cfg_ok cfg" "ascending cfg" "mem_inv cfg s A"
  shows "case (if nb = 0 then None else mem_choose cfg A nb pid) of
      None \<Rightarrow> MEM_BufferAllocWithId cfg nb pid s = Some (NULL, s)
    | Some i \<Rightarrow> \<exists>s'. MEM_BufferAllocWithId cfg nb pid s =
          Some (hd (free_of cfg A i) + of_nat header_size, s') \<and>
        mem_inv cfg s' (A(pool_addr cfg i \<mapsto> (tl (free_of cfg A i), pi_poolSize (poolInfo cfg ! i)))) \<and>
        orphan (mheap s') (hd (free_of cfg A i)) \<and> irq (mheap s') = irq (mheap s)"
  using MEM_Alloc_zero [OF assms(3), of pid] MEM_Alloc_none [OF assms, of nb pid]
    MEM_Alloc_some [OF assms, of nb pid]
  by (cases "nb = 0"; cases "mem_choose cfg A nb pid") fastforce+

theorem mem_alloc_first_fit_witness:
  "\<exists>s'. MEM_BufferAllocWithId cfg0 40 0 start0 = Some (0x2070, s')"
proof -
  obtain A where A: "mem_inv cfg0 start0 A" "free_of cfg0 A 0 = [0x2000, 0x2030]"
    "free_of cfg0 A (Suc 0) = [0x2060]"
    by (rule start0_ok)
  have "mem_choose cfg0 A 40 0 = Some 1"
    by (simp add: mem_choose_def cfg0_layout upt_rec pool_fits_def A(2,3)) (simp add: cfg0_def)
  then show ?thesis
    using mem_alloc_first_fit [OF cfg0_ok A(1), of 40 0] A(3) by auto
qed

text \<open>C4: \<open>MEM_BufferFree\<close> of a block that is in no list succeeds and appends it to the free
  list of its own pool; a block that is in a list, so also one that is already free or
  still queued, is refused with \<open>MEM_FREE_ERROR_c\<close> and nothing changes. \<open>NULL\<close> is refused, and so is an
  address whose header would lie below \<open>memHeap\<close> or more than \<open>sizeof(memHeap)\<close> above it. Every other address
  passes the range check, the one whose header would lie just behind the heap (the check has \<open>>\<close>) and those in
  the middle of a block included: what the word in the place of \<open>pParentPool\<close> says decides. When it is the address of no
  pool the call is refused and nothing changes; when there is no header to read, the call reads what it must not
  (\<open>None\<close>). Nothing is said of an address of no block where that word is the address of a pool.\<close>

theorem mem_free_or_refuse:
  assumes "cfg_ok cfg" "mem_inv cfg s A" "i < length (poolInfo cfg)" "b \<in> set (blocks cfg i)"
  shows "(orphan (mheap s) b \<longrightarrow>
      (\<exists>s'. MEM_BufferFree cfg (b + of_nat header_size) s = Some (MEM_SUCCESS_c, s') \<and>
        mem_inv cfg s' (A(pool_addr cfg i \<mapsto> (free_of cfg A i @ [b], pi_poolSize (poolInfo cfg ! i)))) \<and>
        irq (mheap s') = irq (mheap s))) \<and>
    (\<forall>q xs mx. A q = Some (xs, mx) \<longrightarrow> b \<in> set xs \<longrightarrow>
      MEM_BufferFree cfg (b + of_nat header_size) s = Some (MEM_FREE_ERROR_c, s)) \<and>
    MEM_BufferFree cfg NULL s = Some (MEM_FREE_ERROR_c, s) \<and>
    (\<forall>p. p - of_nat header_size < memHeap_addr cfg \<or>
        p - of_nat header_size > memHeap_addr cfg + of_nat (sizeof_memHeap cfg) \<longrightarrow>
      MEM_BufferFree cfg p s = Some (MEM_FREE_ERROR_c, s)) \<and>
    (\<forall>p. p \<noteq> NULL \<and> memHeap_addr cfg \<le> p - of_nat header_size \<and>
        p - of_nat header_size \<le> memHeap_addr cfg + of_nat (sizeof_memHeap cfg) \<longrightarrow>
      (pParentPool s (p - of_nat header_size) = None \<longrightarrow> MEM_BufferFree cfg p s = None) \<and>
      (\<forall>q. pParentPool s (p - of_nat header_size) = Some q \<and> (\<forall>j < length (poolInfo cfg). q \<noteq> pool_addr cfg j) \<longrightarrow>
        MEM_BufferFree cfg p s = Some (MEM_FREE_ERROR_c, s)))"
  using MEM_Free_ok [OF assms] MEM_Free_linked [OF assms] MEM_Free_null MEM_Free_range
    MEM_Free_stray [OF assms(1,2)] by blast

theorem mem_free_or_refuse_witness:
  "MEM_BufferFree cfg0 0x2040 start0 = Some (MEM_FREE_ERROR_c, start0) \<and>
    MEM_BufferFree cfg0 0x20C0 start0 = None \<and> memHeap_addr cfg0 + of_nat (sizeof_memHeap cfg0) = 0x20B0"
proof -
  obtain A where A: "mem_inv cfg0 start0 A" "free_of cfg0 A 0 = [0x2000, 0x2030]"
    by (rule start0_ok)
  have "A 0x1000 = Some ([0x2000, 0x2030], pi_poolSize (poolInfo cfg0 ! 0))"
    using mem_inv_poolD(1) [OF A(1), of 0] A(2) by (simp add: cfg0_layout)
  moreover have i: "0 < length (poolInfo cfg0)" "0x2030 \<in> set (blocks cfg0 0)"
    by (simp_all add: cfg0_layout)
  moreover have e: "memHeap_addr cfg0 + of_nat (sizeof_memHeap cfg0) = 0x20B0"
    by (simp add: cfg0_def sizeof_memHeap_def heapSize_def pool_bytes_def block_bytes_def)
  moreover have "pParentPool start0 0x20B0 = None" by code_simp
  moreover have "(0x20C0 :: ptr) \<noteq> NULL" "memHeap_addr cfg0 \<le> 0x20C0 - of_nat header_size"
    "(0x20C0 :: ptr) - of_nat header_size = 0x20B0" by (simp_all add: cfg0_def)
  ultimately show ?thesis
    using mem_free_or_refuse [OF cfg0_ok(1) A(1) i] by fastforce
qed


lemma pool_index_ok:
  assumes "cfg_ok cfg" "mem_inv cfg s A" "i < length (poolInfo cfg)"
  shows "pool_index cfg s (pool_addr cfg i) = Some i"
proof -
  have "length (memPools s) = length (poolInfo cfg)" using assms(2) by (simp add: mem_inv_def)
  moreover have "pool_addr cfg j \<noteq> pool_addr cfg i" if "j < i" for j
    using pool_addr_inj [OF assms(1), of j i] that assms(3) by auto
  ultimately show ?thesis
    unfolding pool_index_def find_Some_iff using assms(3) by (intro exI [of _ i]) simp
qed

lemma MEM_BufferGetSize_ok:
  assumes "cfg_ok cfg" "mem_inv cfg s A" "i < length (poolInfo cfg)" "b \<in> set (blocks cfg i)"
  shows "MEM_BufferGetSize cfg (b + of_nat header_size) s = Some (pi_blockSize (poolInfo cfg ! i))"
  using pool_index_ok [OF assms(1-3)] block_in_range(1) [OF assms(1,3,4)] assms(2-4)
  by (simp add: MEM_BufferGetSize_def mem_inv_def pool_ok_def)

text \<open>C1: a client that frees only what it holds can never make the allocator fault or
  refuse, in any order of requests: every release succeeds, every request returns, and a
  buffer it is given is not one it holds and has the requested size. Buffers held at the
  same time occupy disjoint byte ranges, whatever \<open>MEM_BufferGetSize\<close> says they hold.\<close>

theorem mem_client_safe:
  assumes "cfg_ok cfg" "ascending cfg" "mem_raw cfg s0 A0" "client_reach cfg s0 (s, H)"
  shows "(\<forall>p \<in> H. \<exists>s'. MEM_BufferFree cfg p s = Some (MEM_SUCCESS_c, s')) \<and>
    (\<forall>nb pid. \<exists>p s'. MEM_BufferAllocWithId cfg nb pid s = Some (p, s') \<and>
      (p \<noteq> NULL \<longrightarrow> p \<notin> H \<and> (\<exists>n. MEM_BufferGetSize cfg p s' = Some n \<and> nb \<le> ucast n))) \<and>
    (\<forall>p \<in> H. \<forall>q \<in> H. p \<noteq> q \<longrightarrow> (\<exists>n m. MEM_BufferGetSize cfg p s = Some n \<and>
      MEM_BufferGetSize cfg q s = Some m \<and>
      (unat p + unat n \<le> unat q \<or> unat q + unat m \<le> unat p)))"
proof -
  note cfg = assms(1,2)
  obtain A where ok: "client_ok cfg s H A"
    using client_reach_ok [OF assms(4) cfg assms(3)] by auto
  then have inv: "mem_inv cfg s A" by (simp add: client_ok_def)
  have free: "\<exists>s'. MEM_BufferFree cfg p s = Some (MEM_SUCCESS_c, s')" if "p \<in> H" for p
    using client_free_ok [OF cfg(1) ok that] by blast
  have alloc: "\<exists>p s'. MEM_BufferAllocWithId cfg nb pid s = Some (p, s') \<and>
      (p \<noteq> NULL \<longrightarrow> p \<notin> H \<and> (\<exists>n. MEM_BufferGetSize cfg p s' = Some n \<and> nb \<le> ucast n))" for nb pid
  proof -
    obtain p s' A' where a: "MEM_BufferAllocWithId cfg nb pid s = Some (p, s')" "p \<notin> H"
      "client_ok cfg s' (if p = NULL then H else insert p H) A'"
      "p \<noteq> NULL \<longrightarrow> (\<exists>i < length (poolInfo cfg). \<exists>b \<in> set (blocks cfg i). p = b + of_nat header_size \<and>
        nb \<le> ucast (pi_blockSize (poolInfo cfg ! i)) \<and> ucast pid = pi_poolId (poolInfo cfg ! i))"
      using client_alloc_ok [OF cfg ok] by blast
    have inv': "mem_inv cfg s' A'" using a(3) by (simp add: client_ok_def)
    have "\<exists>n. MEM_BufferGetSize cfg p s' = Some n \<and> nb \<le> ucast n" if "p \<noteq> NULL"
      using a(4) that MEM_BufferGetSize_ok [OF cfg(1) inv'] by blast
    then show ?thesis using a(1,2) by blast
  qed
  have apart: "\<exists>n m. MEM_BufferGetSize cfg p s = Some n \<and> MEM_BufferGetSize cfg q s = Some m \<and>
      (unat p + unat n \<le> unat q \<or> unat q + unat m \<le> unat p)" if p: "p \<in> H" and q: "q \<in> H" and "p \<noteq> q" for p q
  proof -
    obtain i b where i: "i < length (poolInfo cfg)" "b \<in> set (blocks cfg i)" "p = b + of_nat header_size"
      using ok p unfolding client_ok_def by blast
    obtain j d where j: "j < length (poolInfo cfg)" "d \<in> set (blocks cfg j)" "q = d + of_nat header_size"
      using ok q unfolding client_ok_def by blast
    have "b \<noteq> d" using \<open>p \<noteq> q\<close> i(3) j(3) by blast
    then have "unat b + block_bytes (poolInfo cfg ! i) \<le> unat d \<or>
        unat d + block_bytes (poolInfo cfg ! j) \<le> unat b"
      using blocks_apart [OF cfg(1) i(1) j(1) i(2) j(2)] by blast
    moreover have lim: "unat (memHeap_addr cfg) + heapSize cfg < 2 ^ 32" using cfg(1) by (simp add: cfg_ok_def)
    have h16: "unat (of_nat header_size :: ptr) = header_size" by simp
    have "unat p = unat b + header_size" unfolding i(3)
      using block_bounds(2) [OF cfg(1) i(1,2)] lim by (subst unat_add_small) (simp_all only: h16)
    moreover have "unat q = unat d + header_size" unfolding j(3)
      using block_bounds(2) [OF cfg(1) j(1,2)] lim by (subst unat_add_small) (simp_all only: h16)
    ultimately have "unat p + unat (pi_blockSize (poolInfo cfg ! i)) \<le> unat q \<or>
        unat q + unat (pi_blockSize (poolInfo cfg ! j)) \<le> unat p"
      by (auto simp: block_bytes_def)
    then show ?thesis
      using MEM_BufferGetSize_ok [OF cfg(1) inv i(1,2)] MEM_BufferGetSize_ok [OF cfg(1) inv j(1,2)] i(3) j(3)
      by blast
  qed
  show ?thesis using free alloc apart by blast
qed

lemma reach0:
  obtains p s where "MEM_BufferAllocWithId cfg0 8 0 start0 = Some (p, s)" "p \<noteq> NULL"
    "client_reach cfg0 raw0 (s, {p})"
proof -
  obtain A where A: "MEM_Init cfg0 raw0 = Some (MEM_SUCCESS_c, start0)" "mem_inv cfg0 start0 A"
    "free_of cfg0 A 0 = [0x2000, 0x2030]"
    by (rule start0_ok)
  have ch: "mem_choose cfg0 A 8 0 = Some 0"
    by (simp add: mem_choose_def cfg0_layout upt_rec pool_fits_def A(3)) (simp add: cfg0_def)
  obtain s where s: "MEM_BufferAllocWithId cfg0 8 0 start0 = Some (0x2010, s)"
    using MEM_Alloc_some [OF cfg0_ok A(2) _ ch] A(3) by auto
  have "client_step cfg0 (start0, {}) (s, {0x2010})"
    using client_alloc [OF s, of "{}"] by simp
  then have "client_reach cfg0 raw0 (s, {0x2010})"
    using client_init [OF A(1)] client_next by blast
  then show thesis using that [OF s] by simp
qed

theorem mem_client_safe_witness:
  "\<exists>p s s'. MEM_BufferAllocWithId cfg0 8 0 start0 = Some (p, s) \<and>
    MEM_BufferFree cfg0 p s = Some (MEM_SUCCESS_c, s')"
proof -
  obtain p s where "MEM_BufferAllocWithId cfg0 8 0 start0 = Some (p, s)" "client_reach cfg0 raw0 (s, {p})"
    by (rule reach0)
  then show ?thesis using mem_client_safe [OF cfg0_ok raw0_raw] by blast
qed

text \<open>C5: at every point of such a client's run no block is lost or duplicated: the counter
  \<open>gFreeMessagesCount\<close> is the number of blocks of the heap less the number the client
  holds.\<close>

theorem mem_client_conserves:
  assumes "cfg_ok cfg" "ascending cfg" "mem_raw cfg s0 A0" "client_reach cfg s0 (s, H)"
  shows "card H \<le> length (all_blocks cfg) \<and>
    gFreeMessagesCount s = of_nat (length (all_blocks cfg) - card H)"
proof -
  obtain A where ok: "client_ok cfg s H A"
    using client_reach_ok [OF assms(4,1,2,3)] by auto
  then have "gFreeMessagesCount s = of_nat (free_total cfg A)"
    by (simp add: client_ok_def mem_inv_def)
  moreover have "free_total cfg A + card H = length (all_blocks cfg)"
    by (rule client_conserve [OF assms(1) ok])
  then have "card H \<le> length (all_blocks cfg)" "free_total cfg A = length (all_blocks cfg) - card H"
    by simp_all
  ultimately show ?thesis by simp
qed

theorem mem_client_conserves_witness:
  "\<exists>p s. MEM_BufferAllocWithId cfg0 8 0 start0 = Some (p, s) \<and> gFreeMessagesCount s = 2"
proof -
  obtain p s where "MEM_BufferAllocWithId cfg0 8 0 start0 = Some (p, s)" "client_reach cfg0 raw0 (s, {p})"
    by (rule reach0)
  then show ?thesis using mem_client_conserves [OF cfg0_ok raw0_raw, of s "{p}"]
    by (auto simp: cfg0_layout)
qed

text \<open>Here \<open>MEM_GetAvailableBlocks\<close> returns the number of free blocks in the pools whose
  blocks hold the given size.\<close>

theorem mem_available_count:
  assumes "cfg_ok cfg" "mem_inv cfg s A"
  shows "MEM_GetAvailableBlocks cfg sz s = Some (of_nat
    (\<Sum>j = 0..<length (poolInfo cfg). if sz \<le> ucast (pi_blockSize (poolInfo cfg ! j))
       then length (free_of cfg A j) else 0))"
  using MEM_GetAvailableBlocks_from_ok [OF assms, of 0 sz 0] assms(1)
  by (simp add: MEM_GetAvailableBlocks_def cfg_ok_def)

theorem mem_available_count_witness:
  "MEM_GetAvailableBlocks cfg0 40 start0 = Some 1"
proof -
  obtain A where A: "mem_inv cfg0 start0 A" "free_of cfg0 A 0 = [0x2000, 0x2030]"
    "free_of cfg0 A (Suc 0) = [0x2060]"
    by (rule start0_ok)
  show ?thesis
    using mem_available_count [OF cfg0_ok(1) A(1), of 40] A(2,3)
    by (simp add: cfg0_layout numeral_2_eq_2) (simp add: cfg0_def)
qed

end
