(* ===== verification/Messaging.thy ===== *)
theory Messaging
  imports Mem_Manager
begin

text \<open>
  Messages (\<open>Messaging/Source/Messaging.c\<close> and the macros of \<open>Messaging.h\<close>): buffers of
  the block allocator that are linked into queues through their block header, which lies
  just before the data. The queue operations are those of \<open>Generic_List\<close> on the header;
  draining a queue gives every message back to its pool.
\<close>

section \<open>Operations\<close>

text \<open>\<open>(listHeader_t *) pMsg - 1\<close> and back.\<close>

definition msg_header :: "ptr \<Rightarrow> ptr" where
  "msg_header pMsg = pMsg - of_nat header_size"

definition header_msg :: "ptr \<Rightarrow> ptr" where
  "header_msg p = p + of_nat header_size"

definition ListAddTailMsg :: "ptr \<Rightarrow> ptr \<Rightarrow> list_heap \<Rightarrow> (listStatus \<times> list_heap) option" where
  "ListAddTailMsg list pMsg h = ListAddTail list (msg_header pMsg) h"

definition ListAddHeadMsg :: "ptr \<Rightarrow> ptr \<Rightarrow> list_heap \<Rightarrow> (listStatus \<times> list_heap) option" where
  "ListAddHeadMsg list pMsg h = ListAddHead list (msg_header pMsg) h"

definition ListAddPrevMsg :: "ptr \<Rightarrow> ptr \<Rightarrow> list_heap \<Rightarrow> (listStatus \<times> list_heap) option" where
  "ListAddPrevMsg pMsg pNewMsg h = ListAddPrevElement (msg_header pMsg) (msg_header pNewMsg) h"

definition ListRemoveHeadMsg :: "ptr \<Rightarrow> list_heap \<Rightarrow> (ptr \<times> list_heap) option" where
  "ListRemoveHeadMsg list h = do {
     (buffer, h) \<leftarrow> ListRemoveHead list h;
     Some (if buffer \<noteq> NULL then header_msg buffer else buffer, h) }"

definition ListGetHeadMsg :: "ptr \<Rightarrow> list_heap \<Rightarrow> (ptr \<times> list_heap) option" where
  "ListGetHeadMsg list h = do {
     let h = OSA_InterruptDisable h;
     l \<leftarrow> get_list list h;
     let p = (if l_head l \<noteq> NULL then header_msg (l_head l) else NULL);
     Some (p, OSA_InterruptEnable h) }"

definition ListGetNextMsg :: "ptr \<Rightarrow> list_heap \<Rightarrow> (ptr \<times> list_heap) option" where
  "ListGetNextMsg pMsg h = do {
     let h = OSA_InterruptDisable h;
     e \<leftarrow> get_elem (msg_header pMsg) h;
     let p = (if el_next e \<noteq> NULL then header_msg (el_next e) else NULL);
     Some (p, OSA_InterruptEnable h) }"

definition ListRemoveMsg :: "ptr \<Rightarrow> list_heap \<Rightarrow> (listStatus \<times> list_heap) option" where
  "ListRemoveMsg pMsg h = ListRemoveElement (msg_header pMsg) h"

text \<open>\<open>MSG_FreeQueue\<close>: free the head while the queue has one. The status of
  \<open>MEM_BufferFree\<close> is dropped. The loop is partial: that it ends is proved below.\<close>

partial_function (option) MSG_FreeQueue :: "mem_cfg \<Rightarrow> ptr \<Rightarrow> mem_state \<Rightarrow> mem_state option" where
  "MSG_FreeQueue cfg anchor s = do {
     l \<leftarrow> get_list anchor (mheap s);
     if l_head l \<noteq> NULL then do {
       (pMsg, h) \<leftarrow> ListRemoveHeadMsg anchor (mheap s);
       (_, s) \<leftarrow> MEM_BufferFree cfg pMsg (s\<lparr>mheap := h\<rparr>);
       MSG_FreeQueue cfg anchor s }
     else Some s }"

lemma msg_header_inverse [simp]: "msg_header (header_msg p) = p" "header_msg (msg_header q) = q"
  by (simp_all add: msg_header_def header_msg_def)

section \<open>Message queues are queues\<close>

text \<open>The queues of messages \<open>B\<close> as the lists of their headers.\<close>

definition headers :: "alists \<Rightarrow> alists" where
  "headers B q = map_option (\<lambda>(xs, mx). (map msg_header xs, mx)) (B q)"

definition msg_rep :: "osa_irq \<Rightarrow> list_heap \<Rightarrow> alists \<Rightarrow> bool" where
  "msg_rep c h B \<longleftrightarrow> glist_rep c h (headers B) \<and>
     (\<forall>q xs mx. B q = Some (xs, mx) \<longrightarrow> NULL \<notin> set xs)"

definition msg_idle :: "list_heap \<Rightarrow> ptr \<Rightarrow> bool" where
  "msg_idle h p \<longleftrightarrow> p \<noteq> NULL \<and> orphan h (msg_header p)"

lemma headers_upd [simp]: "headers (B(q \<mapsto> (xs, mx))) = (headers B)(q \<mapsto> (map msg_header xs, mx))"
  by (auto simp: headers_def)

lemma headers_Some: "B q = Some (xs, mx) \<Longrightarrow> headers B q = Some (map msg_header xs, mx)"
  by (simp add: headers_def)

interpretation msgq: fifo_queues "msg_rep c" ListAddTailMsg ListRemoveHeadMsg msg_idle for c
proof
  fix h B q xs mx e
  assume "msg_rep c h B" "B q = Some (xs, mx)" "abs_full xs mx"
  then show "ListAddTailMsg q e h = Some (gListFull_c, h)"
    using glist.put_full [of c h "headers B" q "map msg_header xs" mx]
    by (simp add: ListAddTailMsg_def msg_rep_def headers_Some)
next
  fix h B q xs mx e
  assume r: "msg_rep c h B" and q: "B q = Some (xs, mx)" and nf: "\<not> abs_full xs mx"
    and room: "length xs + 1 < 2 ^ 16" and e: "msg_idle h e"
  have G: "glist_rep c h (headers B)" using r by (simp add: msg_rep_def)
  have q': "headers B q = Some (map msg_header xs, mx)" using q by (rule headers_Some)
  have pre: "\<not> abs_full (map msg_header xs) mx" "length (map msg_header xs) + 1 < 2 ^ 16"
    "orphan h (msg_header e)"
    using nf room e by (simp_all add: msg_idle_def)
  obtain h' where h': "ListAddTail q (msg_header e) h = Some (gListOk_c, h')"
    "glist_rep c h' ((headers B)(q \<mapsto> (map msg_header xs @ [msg_header e], mx)))"
    "\<forall>e'. e' \<noteq> msg_header e \<longrightarrow> orphan h e' \<longrightarrow> orphan h' e'"
    using glist.put_ok [OF G q' pre] by blast
  have "msg_rep c h' (B(q \<mapsto> (xs @ [e], mx)))"
    using h'(2) r q e by (auto simp: msg_rep_def msg_idle_def split: if_splits)
  moreover have "msg_idle h' e'" if "e' \<noteq> e" "msg_idle h e'" for e'
    using h'(3) that by (metis msg_header_inverse(2) msg_idle_def)
  ultimately show "\<exists>h'. ListAddTailMsg q e h = Some (gListOk_c, h') \<and> msg_rep c h' (B(q \<mapsto> (xs @ [e], mx))) \<and>
      (\<forall>e'. e' \<noteq> e \<longrightarrow> msg_idle h e' \<longrightarrow> msg_idle h' e')"
    using h'(1) by (auto simp: ListAddTailMsg_def)
next
  fix h B q mx
  assume "msg_rep c h B" "B q = Some ([], mx)"
  then show "ListRemoveHeadMsg q h = Some (NULL, h)"
    using glist.get_empty [of c h "headers B" q mx]
    by (simp add: ListRemoveHeadMsg_def msg_rep_def headers_def)
next
  fix h B q x xs mx
  assume r: "msg_rep c h B" and q: "B q = Some (x # xs, mx)"
  have G: "glist_rep c h (headers B)" using r by (simp add: msg_rep_def)
  have q': "headers B q = Some (msg_header x # map msg_header xs, mx)" using q by (simp add: headers_def)
  obtain h' where h': "ListRemoveHead q h = Some (msg_header x, h')"
    "glist_rep c h' ((headers B)(q \<mapsto> (map msg_header xs, mx)))" "msg_header x \<noteq> NULL"
    "orphan h' (msg_header x)" "\<forall>e'. orphan h e' \<longrightarrow> orphan h' e'"
    using glist.get_cons [OF G q'] by blast
  have "x \<noteq> NULL" using r q by (fastforce simp: msg_rep_def)
  moreover have "msg_rep c h' (B(q \<mapsto> (xs, mx)))"
    using h'(2) r q by (fastforce simp: msg_rep_def split: if_splits)
  ultimately show "\<exists>h'. ListRemoveHeadMsg q h = Some (x, h') \<and> msg_rep c h' (B(q \<mapsto> (xs, mx))) \<and>
      x \<noteq> NULL \<and> msg_idle h' x \<and> (\<forall>e'. msg_idle h e' \<longrightarrow> msg_idle h' e')"
    using h' by (intro exI [of _ h']) (simp add: ListRemoveHeadMsg_def msg_idle_def)
qed


section \<open>Draining a queue\<close>

text \<open>A queue that is not a pool anchor changes without touching the allocator.\<close>

lemma mem_inv_other_list:
  assumes inv: "mem_inv cfg s A" and q: "\<forall>i < length (poolInfo cfg). q \<noteq> pool_addr cfg i"
    and heap: "heap_refines h (A(q \<mapsto> v))" "irq h = irq (mheap s)"
  shows "mem_inv cfg (s\<lparr>mheap := h\<rparr>) (A(q \<mapsto> v))"
    "i < length (poolInfo cfg) \<Longrightarrow> free_of cfg (A(q \<mapsto> v)) i = free_of cfg A i"
proof -
  show free: "free_of cfg (A(q \<mapsto> v)) i = free_of cfg A i" if "i < length (poolInfo cfg)" for i
    using q that by (metis free_of_def fun_upd_other)
  have "free_total cfg (A(q \<mapsto> v)) = free_total cfg A"
    unfolding free_total_def by (intro sum.cong) (simp_all add: free)
  moreover have "pool_ok cfg (s\<lparr>mheap := h\<rparr>) (A(q \<mapsto> v)) i" if "i < length (poolInfo cfg)" for i
    using inv that free [OF that] q by (simp add: mem_inv_def pool_ok_def) metis
  ultimately show "mem_inv cfg (s\<lparr>mheap := h\<rparr>) (A(q \<mapsto> v))"
    using inv heap by (simp add: mem_inv_def)
qed

lemma set_all_blocks: "set (all_blocks cfg) = (\<Union>i < length (poolInfo cfg). set (blocks cfg i))"
  by (force simp: all_blocks_def blocks_def in_set_conv_nth)

text \<open>Every message of the drained queue ends in the free list of its own pool, in queue
  order.\<close>

lemma MSG_FreeQueue_ok:
  assumes cfg: "cfg_ok cfg" and q: "\<forall>i < length (poolInfo cfg). q \<noteq> pool_addr cfg i"
  shows "mem_inv cfg s A \<Longrightarrow> A q = Some (xs, mx) \<Longrightarrow> set xs \<subseteq> set (all_blocks cfg) \<Longrightarrow>
    \<exists>s' A'. MSG_FreeQueue cfg q s = Some s' \<and> mem_inv cfg s' A' \<and> A' q = Some ([], mx) \<and>
      (\<forall>i < length (poolInfo cfg). free_of cfg A' i =
        free_of cfg A i @ filter (\<lambda>b. b \<in> set (blocks cfg i)) xs) \<and>
      irq (mheap s') = irq (mheap s)"
proof (induction xs arbitrary: s A)
  case Nil
  then have "list_rep (mheap s) q [] mx" by (auto simp: mem_inv_def dest: heap_refines_repD)
  then have "MSG_FreeQueue cfg q s = Some s"
    by (subst MSG_FreeQueue.simps) (simp add: list_rep_def get_list_def)
  then show ?case using Nil by auto
next
  case (Cons b xs)
  have heap: "heap_refines (mheap s) A" and irq: "irq_ok 1 (irq (mheap s))"
    using Cons.prems(1) by (auto simp: mem_inv_def intro: irq_ok_mono)
  have G: "glist_rep (irq (mheap s)) (mheap s) A" using heap irq by (simp add: glist_rep_def)
  obtain h where h: "ListRemoveHead q (mheap s) = Some (b, h)"
    "glist_rep (irq (mheap s)) h (A(q \<mapsto> (xs, mx)))" "b \<noteq> NULL" "orphan h b"
    using glist.get_cons [OF G Cons.prems(2)] by blast
  obtain i where i: "i < length (poolInfo cfg)" "b \<in> set (blocks cfg i)"
    using Cons.prems(3) by (auto simp: set_all_blocks)
  let ?s1 = "s\<lparr>mheap := h\<rparr>" and ?A1 = "A(q \<mapsto> (xs, mx))"
  have inv1: "mem_inv cfg ?s1 ?A1"
    using mem_inv_other_list(1) [OF Cons.prems(1) q] h(2) by (simp add: glist_rep_def)
  have free1: "free_of cfg ?A1 j = free_of cfg A j" if "j < length (poolInfo cfg)" for j
    using mem_inv_other_list(2) [OF Cons.prems(1) q _ _ that] h(2) unfolding glist_rep_def by blast
  have o1: "orphan (mheap ?s1) b" using h(4) by simp
  let ?A2 = "?A1(pool_addr cfg i \<mapsto> (free_of cfg ?A1 i @ [b], pi_poolSize (poolInfo cfg ! i)))"
  obtain s2 where s2: "MEM_BufferFree cfg (b + of_nat header_size) ?s1 = Some (MEM_SUCCESS_c, s2)"
    "mem_inv cfg s2 ?A2" "irq (mheap s2) = irq (mheap ?s1)"
    using MEM_Free_ok [OF cfg inv1 i o1] by blast
  have q2: "?A2 q = Some (xs, mx)" using q i(1) by simp
  have sub: "set xs \<subseteq> set (all_blocks cfg)" using Cons.prems(3) by simp
  obtain s' A' where s': "MSG_FreeQueue cfg q s2 = Some s'" "mem_inv cfg s' A'" "A' q = Some ([], mx)"
    "\<forall>i < length (poolInfo cfg). free_of cfg A' i =
      free_of cfg ?A2 i @ filter (\<lambda>b. b \<in> set (blocks cfg i)) xs"
    "irq (mheap s') = irq (mheap s2)"
    using Cons.IH [OF s2(2) q2 sub] by blast
  have "list_rep (mheap s) q (b # xs) mx" by (rule heap_refines_repD [OF heap Cons.prems(2)])
  then have "MSG_FreeQueue cfg q s = Some s'"
    using h(1,3) s2(1) s'(1)
    by (subst MSG_FreeQueue.simps) (simp add: list_rep_def get_list_def ListRemoveHeadMsg_def header_msg_def)
  moreover have "free_of cfg A' j = free_of cfg A j @ filter (\<lambda>b. b \<in> set (blocks cfg j)) (b # xs)"
    if j: "j < length (poolInfo cfg)" for j
  proof -
    have "b \<in> set (blocks cfg j) \<longleftrightarrow> j = i" using blocks_disjoint [OF cfg j i(1)] i(2) by blast
    then show ?thesis
      using s'(4) j free_of_upd [OF cfg i(1) j, of ?A1] free1 [OF j] by (cases "j = i") simp_all
  qed
  moreover have "irq (mheap s') = irq (mheap s)"
    using s'(5) s2(3) h(2) by (simp add: glist_rep_def)
  ultimately show ?case using s'(2,3) by blast
qed


section \<open>Properties\<close>

text \<open>C30: \<open>MSG_FreeQueue\<close> always ends; it leaves the queue empty, gives every message of it
  back to the pool the message was allocated from, in queue order and behind what was
  free there, and keeps the allocator invariant and the interrupt state.\<close>

theorem msg_free_queue_drains:
  assumes "cfg_ok cfg" "\<forall>i < length (poolInfo cfg). q \<noteq> pool_addr cfg i"
    "mem_inv cfg s A" "A q = Some (xs, mx)" "set xs \<subseteq> set (all_blocks cfg)"
  shows "\<exists>s' A'. MSG_FreeQueue cfg q s = Some s' \<and> mem_inv cfg s' A' \<and> A' q = Some ([], mx) \<and>
      (\<forall>i < length (poolInfo cfg). free_of cfg A' i =
        free_of cfg A i @ filter (\<lambda>b. b \<in> set (blocks cfg i)) xs) \<and>
      irq (mheap s') = irq (mheap s)"
  by (rule MSG_FreeQueue_ok [OF assms])

lemma OSA_enable_disable [simp]: "irq_ok 1 (irq h) \<Longrightarrow> OSA_InterruptEnable (OSA_InterruptDisable h) = h"
  by (simp add: OSA_InterruptEnable_def OSA_InterruptDisable_def)

text \<open>Here \<open>ListGetHeadMsg\<close> and \<open>ListGetNextMsg\<close> walk a message queue from its oldest message
  to \<open>NULL\<close>, and \<open>ListRemoveMsg\<close> of a message that is in no queue is reported as
  \<open>gOrphanElement_c\<close>; none of them changes anything.\<close>

theorem msg_queries:
  assumes "msg_rep c h B" "B q = Some (xs, mx)"
  shows "ListGetHeadMsg q h = Some (hd_or NULL xs, h) \<and>
    (\<forall>i < length xs. ListGetNextMsg (xs ! i) h = Some (if Suc i < length xs then xs ! Suc i else NULL, h)) \<and>
    (\<forall>p. msg_idle h p \<longrightarrow> ListRemoveMsg p h = Some (gOrphanElement_c, h))"
proof -
  have G: "heap_refines h (headers B)" "irq_ok 1 (irq h)" using assms(1) by (auto simp: msg_rep_def glist_rep_def)
  have "headers B q = Some (map msg_header xs, mx)" using assms(2) by (rule headers_Some)
  then have rep: "list_rep h q (map msg_header xs) mx" using G(1) by (intro heap_refines_repD)
  let ?ys = "map msg_header xs"
  have d: "dseg (elems h) q NULL ?ys NULL" using rep by (simp add: list_rep_def)
  have nn: "msg_header (xs ! i) \<noteq> NULL" if "i < length xs" for i using dseg_nth [OF d, of i] that by simp
  have "ListGetHeadMsg q h = Some (hd_or NULL xs, h)"
    using rep G(2) nn [of 0]
    by (cases xs) (simp_all add: ListGetHeadMsg_def get_list_def OSA_InterruptDisable_def
        OSA_InterruptEnable_def list_rep_def Let_def)
  moreover have "ListGetNextMsg (xs ! i) h = Some (if Suc i < length xs then xs ! Suc i else NULL, h)"
    if i: "i < length xs" for i
    using dseg_nth [OF d, of i] i nn G(2)
    by (simp add: ListGetNextMsg_def get_elem_def OSA_InterruptDisable_def OSA_InterruptEnable_def Let_def)
  moreover have "ListRemoveMsg p h = Some (gOrphanElement_c, h)" if "msg_idle h p" for p
    using that ListRemoveElement_orphan [of h "msg_header p"] by (simp add: ListRemoveMsg_def msg_idle_def)
  ultimately show ?thesis by blast
qed

text \<open>C31: a message queue is first in, first out: what \<open>ListAddTailMsg\<close> queues comes out of
  \<open>ListRemoveHeadMsg\<close> as the same data pointers, in the same order, behind what was there.\<close>

theorem msg_fifo:
  assumes "msg_rep c h B" "B q = Some (xs, mx)" "distinct es" "\<forall>e \<in> set es. msg_idle h e"
    and "mx = 0 \<or> length xs + length es \<le> unat mx" "length xs + length es < 2 ^ 16"
  shows "\<exists>sts h1 h2. put_all (ListAddTailMsg q) es h = Some (sts, h1) \<and>
    get_n (ListRemoveHeadMsg q) (length xs + length es) h1 = Some (xs @ es, h2) \<and>
    msg_rep c h2 (B(q \<mapsto> ([], mx)))"
  using assms by (intro msgq.fifo_order) auto

text \<open>A machine with the pools of \<open>cfg0\<close> where the block 0x2000 is queued as a message in
  the queue 0x3000.\<close>

definition msg1 :: mem_state where
  "msg1 = \<lparr>mheap = \<lparr>hlists = [
         0x1000 \<mapsto> \<lparr>l_head = 0x2030, l_tail = 0x2030, l_size = 1, l_max = 2\<rparr>,
         0x1014 \<mapsto> \<lparr>l_head = 0x2060, l_tail = 0x2060, l_size = 1, l_max = 1\<rparr>,
         0x3000 \<mapsto> \<lparr>l_head = 0x2000, l_tail = 0x2000, l_size = 1, l_max = 0\<rparr>],
       elems = [0x2000 \<mapsto> \<lparr>el_next = 0, el_prev = 0, el_list = 0x3000\<rparr>,
         0x2030 \<mapsto> \<lparr>el_next = 0, el_prev = 0, el_list = 0x1000\<rparr>,
         0x2060 \<mapsto> \<lparr>el_next = 0, el_prev = 0, el_list = 0x1014\<rparr>],
       irq = \<lparr>gInterruptDisableCount = 0, primask = False\<rparr>\<rparr>,
     pParentPool = [0x2000 \<mapsto> 0x1000, 0x2030 \<mapsto> 0x1000, 0x2060 \<mapsto> 0x1014],
     memPools = [\<lparr>nextBlockSize = 64, blockSize = 32, poolId = 0, numBlocks = 2, allocatedBlocks = 1\<rparr>,
       \<lparr>nextBlockSize = 0, blockSize = 64, poolId = 0, numBlocks = 1, allocatedBlocks = 0\<rparr>],
     gFreeMessagesCount = 2\<rparr>"

definition msg1A :: alists where
  "msg1A = [0x1000 \<mapsto> ([0x2030], 2), 0x1014 \<mapsto> ([0x2060], 1), 0x3000 \<mapsto> ([0x2000], 0)]"

lemma msg1_heap: "heap_refines (mheap msg1) msg1A"
  by (auto simp: msg1_def msg1A_def heap_refines_def list_rep_def split: if_splits)

lemma msg1_inv: "mem_inv cfg0 msg1 msg1A"
proof -
  have "free_of cfg0 msg1A 0 = [0x2030]" "free_of cfg0 msg1A (Suc 0) = [0x2060]"
    by (simp_all add: free_of_def cfg0_layout msg1A_def)
  moreover have "irq_ok 2 (irq (mheap msg1))" by (simp add: msg1_def irq_ok_def)
  ultimately show ?thesis
    using msg1_heap unfolding mem_inv_def cfg0_layout all_less_two free_total_def pool_ok_def
    by (simp add: numeral_2_eq_2 cfg0_layout) (simp add: cfg0_def msg1_def msg1A_def next_pi_blockSize_def)
qed

theorem msg_free_queue_drains_witness:
  "\<exists>s' A'. MSG_FreeQueue cfg0 0x3000 msg1 = Some s' \<and> mem_inv cfg0 s' A' \<and>
    free_of cfg0 A' 0 = [0x2030, 0x2000]"
proof -
  have "\<forall>i < length (poolInfo cfg0). 0x3000 \<noteq> pool_addr cfg0 i" "msg1A 0x3000 = Some ([0x2000], 0)"
    "set [0x2000] \<subseteq> set (all_blocks cfg0)" "free_of cfg0 msg1A 0 = [0x2030]"
    by (simp_all add: cfg0_layout all_less_two msg1A_def free_of_def)
  then show ?thesis
    using msg_free_queue_drains [OF cfg0_ok(1) _ msg1_inv, of "0x3000" "[0x2000]" 0]
    by (auto simp: cfg0_layout all_less_two)
qed

theorem msg_fifo_witness:
  "\<exists>sts h1 h2. put_all (ListAddTailMsg 100) [24, 20] heap1 = Some (sts, h1) \<and>
    get_n (ListRemoveHeadMsg 100) 2 h1 = Some ([24, 20], h2)"
proof -
  let ?B = "[100 \<mapsto> ([], 2)] :: alists" and ?es = "[24, 20] :: ptr list"
  have "headers ?B = ?B" by (auto simp: headers_def)
  then have G: "msg_rep (irq heap1) heap1 ?B"
    using heap1_refines by (auto simp: msg_rep_def glist_rep_def irq_ok_def split: if_splits)
      (simp_all add: heap1_def)
  have pre: "?B 100 = Some ([], 2)" "distinct ?es" "\<forall>e \<in> set ?es. msg_idle heap1 e"
    "(2 :: u16) = 0 \<or> length ([] :: ptr list) + length ?es \<le> unat (2 :: u16)"
    "length ([] :: ptr list) + length ?es < 2 ^ 16"
    by (simp_all add: heap1_def orphan_def msg_idle_def msg_header_def)
  have n: "length ([] :: ptr list) + length ?es = 2" by simp
  show ?thesis
    using msg_fifo [OF G pre] unfolding n append_Nil by blast
qed


theorem msg_queries_witness:
  "\<exists>h. ListGetHeadMsg 0x3000 (mheap msg1) = Some (0x2010, h)"
proof -
  let ?B = "[0x1000 \<mapsto> ([0x2040], 2), 0x1014 \<mapsto> ([0x2070], 1), 0x3000 \<mapsto> ([0x2010], 0)] :: alists"
  have "headers ?B = msg1A" by (auto simp: headers_def msg1A_def msg_header_def)
  then have "msg_rep (irq (mheap msg1)) (mheap msg1) ?B"
    using msg1_heap by (auto simp: msg_rep_def glist_rep_def irq_ok_def split: if_splits)
      (simp_all add: msg1_def)
  then show ?thesis using msg_queries [of _ "mheap msg1" ?B "0x3000" "[0x2010]" 0] by simp
qed

end
