(* ===== verification/Function_Lib.thy ===== *)
theory Function_Lib
  imports Prelude
begin

text \<open>
  The memory functions of the framework (\<open>FunctionLib/FunctionLib.c\<close>, without the
  toolchain functions and the overflow checks) over a byte memory in which unmapped
  addresses fault. Addresses are 32 bits wide and wrap. Each loop runs over its byte
  counter; the lemmas give the resulting memory as a function of the old one.
\<close>

section \<open>Byte memory\<close>

type_synonym bytes = "ptr \<rightharpoonup> u8"

definition load8 :: "ptr \<Rightarrow> bytes \<Rightarrow> u8 option" where
  "load8 p m = m p"

definition store8 :: "ptr \<Rightarrow> u8 \<Rightarrow> bytes \<Rightarrow> bytes option" where
  "store8 p b m = (if p \<in> dom m then Some (m(p \<mapsto> b)) else None)"

text \<open>The little-endian values of 16 and 32 bits at an address.\<close>

definition load16 :: "ptr \<Rightarrow> bytes \<Rightarrow> u16 option" where
  "load16 p m = do { a \<leftarrow> load8 p m; b \<leftarrow> load8 (p + 1) m; Some (ucast a OR push_bit 8 (ucast b)) }"

definition store16 :: "ptr \<Rightarrow> u16 \<Rightarrow> bytes \<Rightarrow> bytes option" where
  "store16 p w m = do { m \<leftarrow> store8 p (ucast w) m; store8 (p + 1) (ucast (drop_bit 8 w)) m }"

definition load32 :: "ptr \<Rightarrow> bytes \<Rightarrow> u32 option" where
  "load32 p m = do { a \<leftarrow> load16 p m; b \<leftarrow> load16 (p + 2) m; Some (ucast a OR push_bit 16 (ucast b)) }"

definition store32 :: "ptr \<Rightarrow> u32 \<Rightarrow> bytes \<Rightarrow> bytes option" where
  "store32 p w m = do { m \<leftarrow> store16 p (ucast w) m; store16 (p + 2) (ucast (drop_bit 16 w)) m }"

text \<open>Accesses through a pointer to 16 or 32 bits. Where the core is \<open>strict\<close>, as the
  Cortex-M0+ is, an address that is not a multiple of the width faults.\<close>

definition read16 :: "bool \<Rightarrow> ptr \<Rightarrow> bytes \<Rightarrow> u16 option" where
  "read16 strict p m = (if strict \<and> unat p mod 2 \<noteq> 0 then None else load16 p m)"

definition write16 :: "bool \<Rightarrow> ptr \<Rightarrow> u16 \<Rightarrow> bytes \<Rightarrow> bytes option" where
  "write16 strict p w m = (if strict \<and> unat p mod 2 \<noteq> 0 then None else store16 p w m)"

definition read32 :: "bool \<Rightarrow> ptr \<Rightarrow> bytes \<Rightarrow> u32 option" where
  "read32 strict p m = (if strict \<and> unat p mod 4 \<noteq> 0 then None else load32 p m)"

definition write32 :: "bool \<Rightarrow> ptr \<Rightarrow> u32 \<Rightarrow> bytes \<Rightarrow> bytes option" where
  "write32 strict p w m = (if strict \<and> unat p mod 4 \<noteq> 0 then None else store32 p w m)"

section \<open>Operations\<close>

fun FLib_MemCpy_loop :: "ptr \<Rightarrow> ptr \<Rightarrow> nat \<Rightarrow> bytes \<Rightarrow> bytes option" where
  "FLib_MemCpy_loop pDst pSrc 0 m = Some m"
| "FLib_MemCpy_loop pDst pSrc (Suc cBytes) m = do {
     b \<leftarrow> load8 pSrc m;
     m \<leftarrow> store8 pDst b m;
     FLib_MemCpy_loop (pDst + 1) (pSrc + 1) cBytes m }"

definition FLib_MemCpy :: "ptr \<Rightarrow> ptr \<Rightarrow> u32 \<Rightarrow> bytes \<Rightarrow> bytes option" where
  "FLib_MemCpy pDst pSrc cBytes m = FLib_MemCpy_loop pDst pSrc (unat cBytes) m"

text \<open>The word loop and the guarded single copies of the aligned version.\<close>

fun FLib_MemCpy32_loop :: "bool \<Rightarrow> ptr \<Rightarrow> ptr \<Rightarrow> nat \<Rightarrow> bytes \<Rightarrow> (ptr \<times> ptr \<times> bytes) option" where
  "FLib_MemCpy32_loop strict to from 0 m = Some (to, from, m)"
| "FLib_MemCpy32_loop strict to from (Suc loops) m = do {
     w \<leftarrow> read32 strict from m;
     m \<leftarrow> write32 strict to w m;
     FLib_MemCpy32_loop strict (to + 4) (from + 4) loops m }"

definition copy_byte :: "ptr \<times> ptr \<times> bytes \<Rightarrow> (ptr \<times> ptr \<times> bytes) option" where
  "copy_byte = (\<lambda>(to, from, m). do { b \<leftarrow> load8 from m; m \<leftarrow> store8 to b m; Some (to + 1, from + 1, m) })"

definition copy_half :: "bool \<Rightarrow> ptr \<times> ptr \<times> bytes \<Rightarrow> (ptr \<times> ptr \<times> bytes) option" where
  "copy_half strict = (\<lambda>(to, from, m). do { w \<leftarrow> read16 strict from m; m \<leftarrow> write16 strict to w m; Some (to + 2, from + 2, m) })"

definition FLib_MemCpyAligned32bit :: "bool \<Rightarrow> ptr \<Rightarrow> ptr \<Rightarrow> u32 \<Rightarrow> bytes \<Rightarrow> bytes option" where
  "FLib_MemCpyAligned32bit strict to_ptr from_ptr number_of_bytes m = do {
     ((to, from, m), n) \<leftarrow>
       (if number_of_bytes > 3 then do {
          let n = number_of_bytes;
          (x, n) \<leftarrow> (if from_ptr AND 1 \<noteq> 0
             then do { x \<leftarrow> copy_byte (to_ptr, from_ptr, m); Some (x, n - 1) }
             else Some ((to_ptr, from_ptr, m), n));
          (x, n) \<leftarrow> (if fst (snd x) AND 2 \<noteq> 0
             then do { x \<leftarrow> copy_half strict x; Some (x, n - 2) }
             else Some (x, n));
          x \<leftarrow> (case x of (to, from, m) \<Rightarrow> FLib_MemCpy32_loop strict to from (unat (drop_bit 2 n)) m);
          Some (x, n) }
        else Some ((to_ptr, from_ptr, m), number_of_bytes));
     (to, from, m) \<leftarrow> (if n AND 2 \<noteq> 0 then copy_half strict (to, from, m) else Some (to, from, m));
     if n AND 1 \<noteq> 0 then do { b \<leftarrow> load8 from m; store8 to b m } else Some m }"

definition FLib_MemCpyDir :: "ptr \<Rightarrow> ptr \<Rightarrow> bool \<Rightarrow> u32 \<Rightarrow> bytes \<Rightarrow> bytes option" where
  "FLib_MemCpyDir pBuf1 pBuf2 dir n m =
     (if dir then FLib_MemCpy pBuf1 pBuf2 n m else FLib_MemCpy pBuf2 pBuf1 n m)"

fun FLib_MemCpyReverse_loop :: "ptr \<Rightarrow> ptr \<Rightarrow> nat \<Rightarrow> bytes \<Rightarrow> bytes option" where
  "FLib_MemCpyReverse_loop pDst pSrc 0 m = Some m"
| "FLib_MemCpyReverse_loop pDst pSrc (Suc cBytes) m = do {
     b \<leftarrow> load8 pSrc m;
     m \<leftarrow> store8 pDst b m;
     FLib_MemCpyReverse_loop (pDst - 1) (pSrc + 1) cBytes m }"

definition FLib_MemCpyReverseOrder :: "ptr \<Rightarrow> ptr \<Rightarrow> u32 \<Rightarrow> bytes \<Rightarrow> bytes option" where
  "FLib_MemCpyReverseOrder pDst pSrc cBytes m =
     (if cBytes \<noteq> 0 then FLib_MemCpyReverse_loop (pDst + (cBytes - 1)) pSrc (unat cBytes) m
      else Some m)"

fun FLib_MemCmp_loop :: "ptr \<Rightarrow> ptr \<Rightarrow> nat \<Rightarrow> bytes \<Rightarrow> bool option" where
  "FLib_MemCmp_loop pData1 pData2 0 m = Some True"
| "FLib_MemCmp_loop pData1 pData2 (Suc cBytes) m = do {
     a \<leftarrow> load8 pData1 m;
     b \<leftarrow> load8 pData2 m;
     if a \<noteq> b then Some False else FLib_MemCmp_loop (pData1 + 1) (pData2 + 1) cBytes m }"

definition FLib_MemCmp :: "ptr \<Rightarrow> ptr \<Rightarrow> u32 \<Rightarrow> bytes \<Rightarrow> bool option" where
  "FLib_MemCmp pData1 pData2 cBytes m = FLib_MemCmp_loop pData1 pData2 (unat cBytes) m"

fun FLib_MemCmpToVal_loop :: "ptr \<Rightarrow> u8 \<Rightarrow> nat \<Rightarrow> bytes \<Rightarrow> bool option" where
  "FLib_MemCmpToVal_loop pAddr val 0 m = Some True"
| "FLib_MemCmpToVal_loop pAddr val (Suc len) m = do {
     b \<leftarrow> load8 (pAddr + of_nat len) m;
     if b \<noteq> val then Some False else FLib_MemCmpToVal_loop pAddr val len m }"

definition FLib_MemCmpToVal :: "ptr \<Rightarrow> u8 \<Rightarrow> u32 \<Rightarrow> bytes \<Rightarrow> bool option" where
  "FLib_MemCmpToVal pAddr val len m = FLib_MemCmpToVal_loop pAddr val (unat len) m"

fun FLib_MemSet_loop :: "ptr \<Rightarrow> u8 \<Rightarrow> nat \<Rightarrow> bytes \<Rightarrow> bytes option" where
  "FLib_MemSet_loop pData value 0 m = Some m"
| "FLib_MemSet_loop pData value (Suc cBytes) m = do {
     m \<leftarrow> store8 (pData + of_nat cBytes) value m;
     FLib_MemSet_loop pData value cBytes m }"

definition FLib_MemSet :: "ptr \<Rightarrow> u8 \<Rightarrow> u32 \<Rightarrow> bytes \<Rightarrow> bytes option" where
  "FLib_MemSet pData value cBytes m = FLib_MemSet_loop pData value (unat cBytes) m"

text \<open>The backward loop of the overlapping copy.\<close>

fun FLib_MemInPlaceCpy_back :: "ptr \<Rightarrow> ptr \<Rightarrow> nat \<Rightarrow> bytes \<Rightarrow> bytes option" where
  "FLib_MemInPlaceCpy_back pDst pSrc 0 m = Some m"
| "FLib_MemInPlaceCpy_back pDst pSrc (Suc cBytes) m = do {
     b \<leftarrow> load8 (pSrc + of_nat cBytes) m;
     m \<leftarrow> store8 (pDst + of_nat cBytes) b m;
     FLib_MemInPlaceCpy_back pDst pSrc cBytes m }"

definition FLib_MemInPlaceCpy :: "ptr \<Rightarrow> ptr \<Rightarrow> u32 \<Rightarrow> bytes \<Rightarrow> bytes option" where
  "FLib_MemInPlaceCpy pDst pSrc cBytes m =
     (if pDst \<noteq> pSrc then
        (if pDst < pSrc then FLib_MemCpy_loop pDst pSrc (unat cBytes) m
         else FLib_MemInPlaceCpy_back pDst pSrc (unat cBytes) m)
      else Some m)"

definition FLib_MemCopy16Unaligned :: "ptr \<Rightarrow> u16 \<Rightarrow> bytes \<Rightarrow> bytes option" where
  "FLib_MemCopy16Unaligned pDst val16 m = do {
     m \<leftarrow> store8 pDst (ucast val16) m;
     store8 (pDst + 1) (ucast (drop_bit 8 val16)) m }"

definition FLib_MemCopy32Unaligned :: "ptr \<Rightarrow> u32 \<Rightarrow> bytes \<Rightarrow> bytes option" where
  "FLib_MemCopy32Unaligned pDst val32 m = do {
     m \<leftarrow> store8 pDst (ucast val32) m;
     m \<leftarrow> store8 (pDst + 1) (ucast (drop_bit 8 val32)) m;
     m \<leftarrow> store8 (pDst + 2) (ucast (drop_bit 16 val32)) m;
     store8 (pDst + 3) (ucast (drop_bit 24 val32)) m }"

definition FLib_MemCopy64Unaligned :: "ptr \<Rightarrow> u64 \<Rightarrow> bytes \<Rightarrow> bytes option" where
  "FLib_MemCopy64Unaligned pDst val64 m = do {
     m \<leftarrow> store8 pDst (ucast val64) m;
     m \<leftarrow> store8 (pDst + 1) (ucast (drop_bit 8 val64)) m;
     m \<leftarrow> store8 (pDst + 2) (ucast (drop_bit 16 val64)) m;
     m \<leftarrow> store8 (pDst + 3) (ucast (drop_bit 24 val64)) m;
     m \<leftarrow> store8 (pDst + 4) (ucast (drop_bit 32 val64)) m;
     m \<leftarrow> store8 (pDst + 5) (ucast (drop_bit 40 val64)) m;
     m \<leftarrow> store8 (pDst + 6) (ucast (drop_bit 48 val64)) m;
     store8 (pDst + 7) (ucast (drop_bit 56 val64)) m }"

definition FLib_AddOffsetToPointer :: "ptr \<Rightarrow> u32 \<Rightarrow> ptr" where
  "FLib_AddOffsetToPointer p offset = p + offset"

partial_function (option) FLib_StrLen_loop :: "ptr \<Rightarrow> u32 \<Rightarrow> bytes \<Rightarrow> u32 option" where
  "FLib_StrLen_loop str len m = do {
     c \<leftarrow> load8 str m;
     if c \<noteq> 0 then FLib_StrLen_loop (str + 1) (len + 1) m else Some len }"

definition FLib_StrLen :: "ptr \<Rightarrow> bytes \<Rightarrow> u32 option" where
  "FLib_StrLen str m = FLib_StrLen_loop str 0 m"

section \<open>Ranges\<close>

text \<open>\<open>mapped m p n\<close>: the \<open>n\<close> bytes from \<open>p\<close> on can be accessed. An address \<open>a\<close> is one of them
  when its distance from \<open>p\<close> is below \<open>n\<close>.\<close>

definition mapped :: "bytes \<Rightarrow> ptr \<Rightarrow> nat \<Rightarrow> bool" where
  "mapped m p n \<longleftrightarrow> (\<forall>a. unat (a - p) < n \<longrightarrow> a \<in> dom m)"

text \<open>The memory after \<open>n\<close> bytes went from \<open>s\<close> to \<open>d\<close>.\<close>

definition copied :: "bytes \<Rightarrow> ptr \<Rightarrow> ptr \<Rightarrow> nat \<Rightarrow> bytes" where
  "copied m d s n = (\<lambda>a. if unat (a - d) < n then m (s + (a - d)) else m a)"

text \<open>The bytes from \<open>d\<close> on do not start inside the \<open>n\<close> bytes from \<open>s\<close> on, past the first.\<close>

definition behind :: "ptr \<Rightarrow> ptr \<Rightarrow> nat \<Rightarrow> bool" where
  "behind d s n \<longleftrightarrow> d = s \<or> n \<le> unat (d - s)"


lemma unat_diff_wrap:
  "unat ((a :: ptr) - b) = (if unat b \<le> unat a then unat a - unat b else unat a + 2 ^ 32 - unat b)"
  by (simp add: unat_sub_if_size word_size)

lemma mapped_0 [simp]: "mapped m p 0"
  by (simp add: mapped_def)

lemma mapped_append:
  assumes "k + r \<le> 2 ^ 32" "mapped m p (k + r)"
  shows "mapped m p k" "mapped m (p + of_nat k) r"
proof -
  show "mapped m p k" using assms(2) by (simp add: mapped_def)
  have "a \<in> dom m" if a: "unat (a - (p + of_nat k)) < r" for a
  proof -
    have k: "unat (of_nat k :: ptr) = k"
      using assms(1) a by (intro unat_of_nat_small) simp
    have "a - p = (a - (p + of_nat k)) + of_nat k" by simp
    moreover have "unat ((a - (p + of_nat k)) + of_nat k) = unat (a - (p + of_nat k)) + k"
      using a assms(1) k by (subst unat_add_lem [THEN iffD1]) simp_all
    ultimately have "unat (a - p) < k + r" using a by simp
    then show ?thesis using assms(2) by (simp add: mapped_def)
  qed
  then show "mapped m (p + of_nat k) r" by (simp add: mapped_def)
qed

lemma copied_0 [simp]: "copied m d s 0 = m"
  by (simp add: copied_def)

lemma copied_same [simp]: "copied m p p n = m"
  by (rule ext) (simp add: copied_def)

lemma dom_copied:
  assumes "mapped m d n" "mapped m s n"
  shows "dom (copied m d s n) = dom m"
proof -
  have "copied m d s n a = None \<longleftrightarrow> m a = None" for a
  proof (cases "unat (a - d) < n")
    case True
    then have "a \<in> dom m" "s + (a - d) \<in> dom m"
      using assms by (simp_all add: mapped_def)
    then show ?thesis using True by (auto simp: copied_def)
  qed (simp add: copied_def)
  then show ?thesis by (intro set_eqI) (simp add: domIff)
qed

lemma mapped_copied:
  "mapped m d n \<Longrightarrow> mapped m s n \<Longrightarrow> mapped (copied m d s n) p k = mapped m p k"
  by (simp add: mapped_def dom_copied)

text \<open>A copy in two parts.\<close>

lemma copied_append:
  assumes n: "k + r \<le> 2 ^ 32" and b: "behind d s (k + r)"
  shows "copied (copied m d s k) (d + of_nat k) (s + of_nat k) r = copied m d s (k + r)"
proof (cases "r = 0")
  case False
  then have k: "unat (of_nat k :: ptr) = k" using n by (intro unat_of_nat_small) simp
  show ?thesis
  proof
    fix a
    define x where "x = a - d"
    have ad: "a = d + x" "a - (d + of_nat k) = x - of_nat k"
      "s + of_nat k + (x - of_nat k) = s + x" "s + x - d = x - (d - s)"
      by (simp_all add: x_def)
    have xk: "unat (x - of_nat k) = (if k \<le> unat x then unat x - k else unat x + 2 ^ 32 - k)"
      using k by (simp add: unat_diff_wrap)
    consider "unat x < k" | "k \<le> unat x" "unat x < k + r" | "k + r \<le> unat x" by linarith
    then show "copied (copied m d s k) (d + of_nat k) (s + of_nat k) r a = copied m d s (k + r) a"
    proof cases
      case 1
      then have "\<not> unat (x - of_nat k) < r" using xk n by simp
      then show ?thesis using 1 by (simp add: copied_def ad(1,2))
    next
      case 2
      have "\<not> unat (x - (d - s)) < k"
        using b 2 word_nat_less_len [of "d - s"]
        by (auto simp: behind_def unat_diff_wrap [of x "d - s"])
      then have "copied m d s k (s + x) = m (s + x)" by (simp only: copied_def ad(4)) simp
      moreover have "unat (x - of_nat k) < r" using 2 xk by simp
      ultimately show ?thesis using 2 by (simp add: copied_def [of _ _ _ r] copied_def [of _ _ _ "k + r"] ad)
    next
      case 3
      then have "\<not> unat (x - of_nat k) < r" "\<not> unat x < k" "\<not> unat x < k + r" using xk by simp_all
      then show ?thesis by (simp only: copied_def ad(2) x_def [symmetric] if_False)
    qed
  qed
qed simp

lemma mapped_first: "mapped m p (Suc n) \<Longrightarrow> p \<in> dom m"
  by (simp add: mapped_def)

text \<open>One byte is copied.\<close>

lemma copied_one: "p \<in> dom m \<Longrightarrow> m(d := m p) = copied m d p 1"
  by (rule ext) (auto simp: copied_def unat_eq_zero)

lemma byte_step:
  assumes "s \<in> dom m" "d \<in> dom m"
  shows "load8 s m \<bind> (\<lambda>b. store8 d b m) = Some (copied m d s 1)"
proof -
  obtain b where b: "m s = Some b" using assms(1) by blast
  have "m(d \<mapsto> b) = copied m d s 1" using copied_one [OF assms(1), of d] b by simp
  then show ?thesis using assms(2) b by (simp add: load8_def store8_def)
qed

lemma behind_less: "behind d s n \<Longrightarrow> k \<le> n \<Longrightarrow> behind d s k"
  by (auto simp: behind_def)

lemma behind_shift: "behind (d + k) (s + k) n = behind d s n"
  by (simp add: behind_def)

lemma FLib_MemCpy_loop_ok:
  assumes "n \<le> 2 ^ 32" "behind d s n" "mapped m d n" "mapped m s n"
  shows "FLib_MemCpy_loop d s n m = Some (copied m d s n)"
  using assms
proof (induction n arbitrary: d s m)
  case 0
  then show ?case by simp
next
  case (Suc n)
  let ?m = "copied m d s 1"
  have n: "1 + n \<le> 2 ^ 32" using Suc.prems(1) by simp
  have D: "mapped m d 1" "mapped m (d + 1) n" and S: "mapped m s 1" "mapped m (s + 1) n"
    using mapped_append [OF n, of m d] mapped_append [OF n, of m s] Suc.prems(3,4) by simp_all
  have "load8 s m \<bind> (\<lambda>b. store8 d b m) = Some ?m"
    using Suc.prems(3,4) by (intro byte_step) (rule mapped_first, assumption)+
  then have "FLib_MemCpy_loop d s (Suc n) m = FLib_MemCpy_loop (d + 1) (s + 1) n ?m"
    by (auto simp: bind_eq_Some_conv)
  also have "\<dots> = Some (copied ?m (d + 1) (s + 1) n)"
    using Suc.prems(1) behind_less [OF Suc.prems(2), of n] D S
    by (intro Suc.IH) (simp_all add: behind_shift mapped_copied)
  also have "copied ?m (d + 1) (s + 1) n = copied m d s (Suc n)"
    using copied_append [OF n, of d s m] Suc.prems(2) by simp
  finally show ?case .
qed


lemma copied_Suc:
  assumes "n < 2 ^ 32"
  shows "copied m d s (Suc n) = (copied m d s n)(d + of_nat n := m (s + of_nat n))"
proof
  fix a
  have n: "unat (of_nat n :: ptr) = n" using assms by (intro unat_of_nat_small) simp
  show "copied m d s (Suc n) a = ((copied m d s n)(d + of_nat n := m (s + of_nat n))) a"
  proof (cases "a = d + of_nat n")
    case True
    then have "a - d = of_nat n" by simp
    then show ?thesis using True n by (simp add: copied_def)
  next
    case False
    then have "a - d \<noteq> of_nat n" by (metis add.commute diff_add_cancel)
    then have "unat (a - d) \<noteq> n" using n by (metis of_nat_unat_id)
    then show ?thesis using False by (auto simp: copied_def)
  qed
qed

lemma store8_Some: "p \<in> dom m \<Longrightarrow> store8 p b m = Some (m(p \<mapsto> b))"
  by (simp add: store8_def)

lemma no_bit_8 [simp]: "\<not> bit (a :: u8) (8 + n)"
  by (auto dest: bit_imp_le_length)

lemma no_bit_16 [simp]: "\<not> bit (a :: u16) (16 + n)"
  by (auto dest: bit_imp_le_length)

lemma copied_small:
  "copied m d s 1 = m(d := m s)"
  "copied m d s 2 = m(d := m s, d + 1 := m (s + 1))"
  "copied m d s 4 = m(d := m s, d + 1 := m (s + 1), d + 2 := m (s + 2), d + 3 := m (s + 3))"
proof -
  show 1: "copied m d s 1 = m(d := m s)" using copied_Suc [of 0 m d s] by simp
  show 2: "copied m d s 2 = m(d := m s, d + 1 := m (s + 1))"
    using copied_Suc [of 1 m d s, unfolded Suc_1] by (simp add: 1 [simplified])
  have 3: "copied m d s 3 = (copied m d s 2)(d + 2 := m (s + 2))"
    using copied_Suc [of 2 m d s] by simp
  have "copied m d s 4 = (copied m d s 3)(d + 3 := m (s + 3))"
    using copied_Suc [of 3 m d s] by simp
  then show "copied m d s 4 = m(d := m s, d + 1 := m (s + 1), d + 2 := m (s + 2), d + 3 := m (s + 3))"
    by (simp only: 2 3)
qed

lemma half_bytes:
  "(ucast (ucast (a :: u8) OR push_bit 8 (ucast (b :: u8)) :: u16) :: u8) = a"
  "(ucast (drop_bit 8 (ucast (a :: u8) OR push_bit 8 (ucast (b :: u8)) :: u16)) :: u8) = b"
  by (auto intro!: bit_word_eqI simp: bit_simps dest: bit_imp_le_length)

lemma word_halves:
  "(ucast (ucast (a :: u16) OR push_bit 16 (ucast (b :: u16)) :: u32) :: u16) = a"
  "(ucast (drop_bit 16 (ucast (a :: u16) OR push_bit 16 (ucast (b :: u16)) :: u32)) :: u16) = b"
  by (auto intro!: bit_word_eqI simp: bit_simps dest: bit_imp_le_length)

lemma mapped_nth: "mapped m p n \<Longrightarrow> i < n \<Longrightarrow> n \<le> 2 ^ 32 \<Longrightarrow> p + of_nat i \<in> dom m"
  by (simp add: mapped_def unat_of_nat_small)

lemma half_step:
  assumes "mapped m d 2" "mapped m s 2"
  shows "load16 s m \<bind> (\<lambda>w. store16 d w m) = Some (copied m d s 2)"
proof -
  have D: "d \<in> dom m" "d + 1 \<in> dom m" and S: "s \<in> dom m" "s + 1 \<in> dom m"
    using mapped_nth [OF assms(1), of 0] mapped_nth [OF assms(1), of 1]
      mapped_nth [OF assms(2), of 0] mapped_nth [OF assms(2), of 1] by simp_all
  obtain a b where ab: "m s = Some a" "m (s + 1) = Some b" using S by blast
  have "copied m d s 2 = m(d \<mapsto> a, d + 1 \<mapsto> b)"
    using copied_small(2) [of m d s] ab by simp
  moreover have "store16 d (ucast a OR push_bit 8 (ucast b)) m = Some (m(d \<mapsto> a, d + 1 \<mapsto> b))"
    unfolding store16_def half_bytes using D by (simp add: store8_Some)
  ultimately show ?thesis using ab by (simp add: load16_def load8_def)
qed

lemma store16_Some:
  "p \<in> dom m \<Longrightarrow> p + 1 \<in> dom m \<Longrightarrow>
   store16 p w m = Some (m(p \<mapsto> ucast w, p + 1 \<mapsto> ucast (drop_bit 8 w)))"
  by (simp add: store16_def store8_Some)

lemma word_step:
  assumes "mapped m d 4" "mapped m s 4"
  shows "load32 s m \<bind> (\<lambda>w. store32 d w m) = Some (copied m d s 4)"
proof -
  have D: "d \<in> dom m" "d + 1 \<in> dom m" "d + 2 \<in> dom m" "d + 3 \<in> dom m"
    and S: "s \<in> dom m" "s + 1 \<in> dom m" "s + 2 \<in> dom m" "s + 3 \<in> dom m"
    using mapped_nth [OF assms(1), of 0] mapped_nth [OF assms(1), of 1]
      mapped_nth [OF assms(1), of 2] mapped_nth [OF assms(1), of 3]
      mapped_nth [OF assms(2), of 0] mapped_nth [OF assms(2), of 1]
      mapped_nth [OF assms(2), of 2] mapped_nth [OF assms(2), of 3]
    by simp_all
  obtain a b c e where ab: "m s = Some a" "m (s + 1) = Some b" "m (s + 2) = Some c" "m (s + 3) = Some e"
    using S by blast
  have p3: "p + 2 + 1 = p + 3" for p :: ptr by simp
  let ?m = "m(d \<mapsto> a, d + 1 \<mapsto> b, d + 2 \<mapsto> c, d + 3 \<mapsto> e)"
  let ?w = "ucast (ucast a OR push_bit 8 (ucast b) :: u16) OR
      push_bit 16 (ucast (ucast c OR push_bit 8 (ucast e) :: u16)) :: u32"
  have "copied m d s 4 = ?m" by (simp only: copied_small(3) ab)
  moreover have "store16 d (ucast a OR push_bit 8 (ucast b)) m = Some (m(d \<mapsto> a, d + 1 \<mapsto> b))"
    using D by (simp only: store16_Some half_bytes)
  moreover have "store16 (d + 2) (ucast c OR push_bit 8 (ucast e)) (m(d \<mapsto> a, d + 1 \<mapsto> b)) = Some ?m"
    using D by (subst store16_Some) (simp_all add: p3 half_bytes del: drop_bit_or)
  ultimately have "store32 d ?w m = Some (copied m d s 4)"
    unfolding store32_def word_halves by simp
  moreover have "load32 s m = Some ?w" using ab by (simp add: load32_def load16_def load8_def p3)
  ultimately show ?thesis by simp
qed


section \<open>The aligned copy\<close>

text \<open>The position after \<open>k\<close> bytes.\<close>

definition copy_at :: "bytes \<Rightarrow> ptr \<Rightarrow> ptr \<Rightarrow> nat \<Rightarrow> ptr \<times> ptr \<times> bytes" where
  "copy_at m d s k = (d + of_nat k, s + of_nat k, copied m d s k)"

lemma copied_next:
  assumes "k + j \<le> n" "n \<le> 2 ^ 32" "behind d s n" "mapped m d n" "mapped m s n"
  shows "mapped (copied m d s k) (d + of_nat k) j" "mapped (copied m d s k) (s + of_nat k) j"
    "copied (copied m d s k) (d + of_nat k) (s + of_nat k) j = copied m d s (k + j)"
proof -
  have kj: "k + j \<le> 2 ^ 32" using assms by simp
  have M: "mapped m d (k + j)" "mapped m s (k + j)" using assms by (simp_all add: mapped_def)
  then have "mapped m d k" "mapped m s k" "mapped m (d + of_nat k) j" "mapped m (s + of_nat k) j"
    using mapped_append [OF kj] by simp_all
  then show "mapped (copied m d s k) (d + of_nat k) j" "mapped (copied m d s k) (s + of_nat k) j"
    by (simp_all add: mapped_copied)
  show "copied (copied m d s k) (d + of_nat k) (s + of_nat k) j = copied m d s (k + j)"
    using kj behind_less [OF assms(3,1)] by (rule copied_append)
qed

lemma copy_byte_at:
  assumes "k + 1 \<le> n" "n \<le> 2 ^ 32" "behind d s n" "mapped m d n" "mapped m s n"
  shows "copy_byte (copy_at m d s k) = Some (copy_at m d s (k + 1))"
proof -
  note N = copied_next [OF assms]
  have "load8 (s + of_nat k) (copied m d s k) \<bind> (\<lambda>b. store8 (d + of_nat k) b (copied m d s k)) =
      Some (copied m d s (k + 1))"
    using byte_step [of "s + of_nat k" "copied m d s k" "d + of_nat k"] N
    by (simp add: mapped_first)
  then show ?thesis
    by (auto simp: copy_byte_def copy_at_def bind_eq_Some_conv ac_simps)
qed

text \<open>Alignment of the positions reached.\<close>

lemma mod_shift:
  "(x + k) mod 4 = 0 \<Longrightarrow> (x + (k + 4)) mod 4 = (0 :: nat)"
  "(x + k) mod 4 = 0 \<Longrightarrow> (x + (k + 4 * l)) mod 2 = (0 :: nat)"
  "(y + k) mod 2 = 0 \<Longrightarrow> x mod 4 = y mod 4 \<Longrightarrow> (x + k) mod 2 = (0 :: nat)"
  "(y + k) mod 4 = 0 \<Longrightarrow> x mod 4 = y mod 4 \<Longrightarrow> (x + k) mod 4 = (0 :: nat)"
  "(y + k) mod 4 = 0 \<Longrightarrow> (x + k) mod 4 = 0 \<Longrightarrow> x mod 4 = (y mod 4 :: nat)"
  by presburger+

lemma addr_mod4: "unat (d + of_nat k :: ptr) mod 4 = (unat d + k) mod 4"
proof -
  have "unat (d + of_nat k :: ptr) = (unat d + k) mod 2 ^ 32"
    by (simp add: unat_word_ariths unat_of_nat mod_add_right_eq)
  moreover have "(4 :: nat) dvd 2 ^ 32" by simp
  ultimately show ?thesis by (simp only: mod_mod_cancel)
qed

lemma mod2_of_mod4: "(x :: nat) mod 4 = y mod 4 \<Longrightarrow> x mod 2 = y mod 2"
  by presburger

lemma addr_mod2: "unat (d + of_nat k :: ptr) mod 2 = (unat d + k) mod 2"
  using mod2_of_mod4 [OF addr_mod4] .

lemma copy_half_at:
  assumes "k + 2 \<le> n" "n \<le> 2 ^ 32" "behind d s n" "mapped m d n" "mapped m s n"
    and al: "strict \<longrightarrow> (unat d + k) mod 2 = 0 \<and> (unat s + k) mod 2 = 0"
  shows "copy_half strict (copy_at m d s k) = Some (copy_at m d s (k + 2))"
proof -
  note N = copied_next [OF assms(1-5)]
  have "load16 (s + of_nat k) (copied m d s k) \<bind> (\<lambda>b. store16 (d + of_nat k) b (copied m d s k)) =
      Some (copied m d s (k + 2))"
    using half_step [OF N(1,2)] N(3) by simp
  then show ?thesis
    using al by (auto simp: copy_half_def copy_at_def read16_def write16_def addr_mod2 bind_eq_Some_conv ac_simps)
qed

lemma copy_word_at:
  assumes "k + 4 * l \<le> n" "n \<le> 2 ^ 32" "behind d s n" "mapped m d n" "mapped m s n"
    and "strict \<longrightarrow> (unat d + k) mod 4 = 0 \<and> (unat s + k) mod 4 = 0"
  shows "(case copy_at m d s k of (to, from, m') \<Rightarrow> FLib_MemCpy32_loop strict to from l m') =
    Some (copy_at m d s (k + 4 * l))"
  using assms(1,6)
proof (induction l arbitrary: k)
  case 0
  then show ?case by (simp add: copy_at_def)
next
  case (Suc l)
  have k4: "k + 4 \<le> n" using Suc.prems by simp
  note N = copied_next [OF k4 assms(2-5)]
  have "load32 (s + of_nat k) (copied m d s k) \<bind> (\<lambda>b. store32 (d + of_nat k) b (copied m d s k)) =
      Some (copied m d s (k + 4))"
    using word_step [OF N(1,2)] N(3) by simp
  then have "(case copy_at m d s k of (to, from, m') \<Rightarrow> FLib_MemCpy32_loop strict to from (Suc l) m') =
      (case copy_at m d s (k + 4) of (to, from, m') \<Rightarrow> FLib_MemCpy32_loop strict to from l m')"
    using Suc.prems(2) by (auto simp: copy_at_def read32_def write32_def addr_mod4 bind_eq_Some_conv ac_simps)
  moreover have "strict \<longrightarrow> (unat d + (k + 4)) mod 4 = 0 \<and> (unat s + (k + 4)) mod 4 = 0"
    using Suc.prems(2) mod_shift(1) [of "unat d" k] mod_shift(1) [of "unat s" k] by metis
  ultimately show ?case using Suc.IH [of "k + 4"] Suc.prems(1) by (simp add: ac_simps)
qed

lemma and_2_bit: "(w :: ptr) AND 2 \<noteq> 0 \<longleftrightarrow> odd (unat w div 2)"
proof -
  have "w AND 2 ^ 1 = 0 \<longleftrightarrow> \<not> bit w 1" by (rule and_exp_eq_0_iff_not_bit)
  moreover have "bit w 1 \<longleftrightarrow> odd (unat w div 2)"
    using bit_unsigned_iff [of w 1, where 'a = nat] by (simp add: bit_iff_odd)
  ultimately show ?thesis by simp
qed

lemma and_1_odd: "(w :: ptr) AND 1 \<noteq> 0 \<longleftrightarrow> odd (unat w)"
proof -
  have "w AND 2 ^ 0 = 0 \<longleftrightarrow> \<not> bit w 0" by (rule and_exp_eq_0_iff_not_bit)
  moreover have "bit w 0 \<longleftrightarrow> odd (unat w)"
    using bit_unsigned_iff [of w 0, where 'a = nat] by (simp add: bit_iff_odd)
  ultimately show ?thesis by simp
qed

lemma rest_of_words:
  "4 * (n div 4) + (if odd (n div 2) then 2 else 0) + (if odd n then 1 else 0) = (n :: nat)"
  by presburger


lemma copy_at_0: "copy_at m d s 0 = (d, s, m)"
  by (simp add: copy_at_def)

text \<open>The last half-word and byte.\<close>

lemma copy_tail:
  assumes "K + (if odd (unat n div 2) then 2 else 0) + (if odd (unat (n :: u32)) then 1 else 0) = N"
    "N \<le> 2 ^ 32" "behind d s N" "mapped m d N" "mapped m s N"
    and al: "strict \<and> odd (unat n div 2) \<longrightarrow> (unat d + K) mod 2 = 0 \<and> (unat s + K) mod 2 = 0"
  shows "(do { (to, from, m) \<leftarrow> (case copy_at m d s K of (to, from, m) \<Rightarrow>
      if n AND 2 \<noteq> 0 then copy_half strict (to, from, m) else Some (to, from, m));
    if n AND 1 \<noteq> 0 then do { b \<leftarrow> load8 from m; store8 to b m } else Some m }) = Some (copied m d s N)"
proof -
  let ?K = "K + (if odd (unat n div 2) then 2 else 0)"
  have "?K \<le> N" using assms(1) by simp
  then have half: "(case copy_at m d s K of (to, from, m) \<Rightarrow>
      if n AND 2 \<noteq> 0 then copy_half strict (to, from, m) else Some (to, from, m)) = Some (copy_at m d s ?K)"
  proof (cases "odd (unat n div 2)")
    case True
    then have "strict \<longrightarrow> (unat d + K) mod 2 = 0 \<and> (unat s + K) mod 2 = 0" using al by blast
    moreover have "K + 2 \<le> N" using True \<open>?K \<le> N\<close> by simp
    ultimately have "copy_half strict (copy_at m d s K) = Some (copy_at m d s (K + 2))"
      using assms(2-5) by (intro copy_half_at)
    then show ?thesis using True by (simp add: and_2_bit split: prod.splits)
  qed (simp add: and_2_bit split: prod.splits)
  show ?thesis
  proof (cases "odd (unat n)")
    case True
    then have K: "?K + 1 \<le> N" "N = ?K + 1" using assms(1) by simp_all
    note C = copied_next [OF K(1) assms(2-5)]
    have "load8 (s + of_nat ?K) (copied m d s ?K) \<bind> (\<lambda>b. store8 (d + of_nat ?K) b (copied m d s ?K)) =
        Some (copied m d s N)"
      using byte_step [of "s + of_nat ?K" "copied m d s ?K" "d + of_nat ?K"] C K(2)
      by (simp add: mapped_first)
    then show ?thesis unfolding half using True by (simp add: copy_at_def and_1_odd)
  next
    case False
    then show ?thesis unfolding half using assms(1) by (simp add: copy_at_def and_1_odd)
  qed
qed

lemma FLib_MemCpyAligned32bit_small:
  assumes "behind d s (unat n)" "mapped m d (unat n)" "mapped m s (unat n)" "n \<le> 3"
    and al: "strict \<and> 2 \<le> n \<longrightarrow> unat d mod 2 = 0 \<and> unat s mod 2 = 0"
  shows "FLib_MemCpyAligned32bit strict d s n m = Some (copied m d s (unat n))"
proof -
  have n: "unat n \<le> 3" using assms(4) by (simp add: word_le_nat_alt)
  then have sum: "0 + (if odd (unat n div 2) then 2 else 0) + (if odd (unat n) then 1 else 0) = unat n"
    using rest_of_words [of "unat n"] by simp
  have le: "unat n \<le> 2 ^ 32" using word_nat_less_len [of n] by simp
  have "odd (unat n div 2) \<Longrightarrow> 2 \<le> unat n" by (rule ccontr) simp
  then have "strict \<and> odd (unat n div 2) \<longrightarrow> (unat d + 0) mod 2 = 0 \<and> (unat s + 0) mod 2 = 0"
    using al by (simp add: word_le_nat_alt)
  from copy_tail [OF sum le assms(1-3) this] show ?thesis
    using leD [OF assms(4)] unfolding FLib_MemCpyAligned32bit_def copy_at_0 by simp
qed

text \<open>The steps that align the source. The destination is then aligned as well if it has the
  same remainder.\<close>

lemma aligned_sum: "x mod 2 = 0 \<Longrightarrow> (x + (if x mod 4 div 2 = 1 then 2 else 0)) mod 4 = (0 :: nat)"
  by presburger

lemma aligned_source:
  fixes s :: ptr
  defines "k1 \<equiv> (if s AND 1 \<noteq> 0 then 1 else 0 :: nat)"
  defines "k2 \<equiv> (if (s + of_nat k1) AND 2 \<noteq> 0 then 2 else 0 :: nat)"
  shows "(unat s + k1) mod 2 = 0" "(unat s + (k1 + k2)) mod 4 = 0"
proof -
  show e: "(unat s + k1) mod 2 = 0"
    unfolding k1_def and_1_odd by (simp add: even_iff_mod_2_eq_zero [symmetric])
  have "k2 = (if (unat s + k1) mod 4 div 2 = 1 then 2 else 0)"
  proof -
    have "odd (x div 2) \<longleftrightarrow> x mod 4 div 2 = 1" for x :: nat by presburger
    then show ?thesis unfolding k2_def and_2_bit by (simp only: addr_mod4)
  qed
  then show "(unat s + (k1 + k2)) mod 4 = 0" using e aligned_sum by (simp only: add.assoc [symmetric])
qed

lemma FLib_MemCpyAligned32bit_ok:
  assumes "behind d s (unat n)" "mapped m d (unat n)" "mapped m s (unat n)" and True: "n > 3"
    and al: "strict \<longrightarrow> unat d mod 4 = unat s mod 4"
  shows "FLib_MemCpyAligned32bit strict d s n m = Some (copied m d s (unat n))"
proof -
  let ?N = "unat n"
  have N: "3 < ?N" "?N \<le> 2 ^ 32" using True word_nat_less_len [of n] by (simp_all add: word_less_nat_alt)
  define k1 where "k1 = (if s AND 1 \<noteq> 0 then 1 else 0 :: nat)"
  define n1 where "n1 = (if s AND 1 \<noteq> 0 then n - 1 else n)"
  have n1: "unat n1 = ?N - k1" "k1 \<le> 1" using N(1) by (auto simp: n1_def k1_def unat_diff_wrap)
  have p1: "(if s AND 1 \<noteq> 0 then do { x \<leftarrow> copy_byte (d, s, m); Some (x, n - 1) }
      else Some ((d, s, m), n)) = Some (copy_at m d s k1, n1)"
    using copy_byte_at [of 0 ?N d s m] assms(1-3) N by (simp add: k1_def n1_def copy_at_0)
  define k2 where "k2 = (if (s + of_nat k1) AND 2 \<noteq> 0 then 2 else 0 :: nat)"
  define n2 where "n2 = (if (s + of_nat k1) AND 2 \<noteq> 0 then n1 - 2 else n1)"
  have n2: "unat n2 = ?N - k1 - k2" "k2 \<le> 2"
    using N(1) n1 by (auto simp: n2_def k2_def unat_diff_wrap)
  have A: "(unat s + k1) mod 2 = 0" "(unat s + (k1 + k2)) mod 4 = 0"
    using aligned_source [of s] by (simp_all only: k1_def k2_def)
  have D: "strict \<longrightarrow> (unat d + k1) mod 2 = 0 \<and> (unat s + k1) mod 2 = 0"
    "strict \<longrightarrow> (unat d + (k1 + k2)) mod 4 = 0 \<and> (unat s + (k1 + k2)) mod 4 = 0"
    using A al mod_shift(3) [of "unat s" k1 "unat d"] mod_shift(4) [of "unat s" "k1 + k2" "unat d"] by metis+
  have p2: "(if fst (snd (copy_at m d s k1)) AND 2 \<noteq> 0
      then do { x \<leftarrow> copy_half strict (copy_at m d s k1); Some (x, n1 - 2) }
      else Some (copy_at m d s k1, n1)) = Some (copy_at m d s (k1 + k2), n2)"
    using copy_half_at [of k1 ?N d s m strict] assms(1-3) N n1(2) D(1)
    by (simp add: k2_def n2_def) (simp add: copy_at_def)
  let ?l = "unat (drop_bit 2 n2)" let ?K = "k1 + k2 + 4 * ?l"
  have l: "?l = unat n2 div 4" by (simp add: drop_bit_eq_div unat_div_distrib)
  have sum: "?K + (if odd (unat n2 div 2) then 2 else 0) + (if odd (unat n2) then 1 else 0) = ?N"
    using rest_of_words [of "unat n2"] n2 n1(2) N(1) l by linarith
  then have "?K \<le> ?N" by linarith
  then have p3: "(case copy_at m d s (k1 + k2) of (to, from, m) \<Rightarrow> FLib_MemCpy32_loop strict to from ?l m) =
      Some (copy_at m d s ?K)"
    using assms(1-3) N D(2) by (intro copy_word_at)
  have E: "strict \<and> odd (unat n2 div 2) \<longrightarrow> (unat d + ?K) mod 2 = 0 \<and> (unat s + ?K) mod 2 = 0"
    using D(2) mod_shift(2) [of "unat d" "k1 + k2" ?l] mod_shift(2) [of "unat s" "k1 + k2" ?l] by metis
  show ?thesis
    unfolding FLib_MemCpyAligned32bit_def Let_def
    using copy_tail [OF sum N(2) assms(1-3) E] True p1 p2 p3
    by (simp split: prod.splits)
qed

text \<open>A strict core faults where the pointers do not match: at the first half-word of a short
  copy, or at the latest at the first word of a longer one.\<close>

lemma copy_half_fault:
  "unat to mod 2 \<noteq> 0 \<or> unat from mod 2 \<noteq> 0 \<Longrightarrow> copy_half True (to, from, m) = None"
  by (cases "read16 True from m") (auto simp: copy_half_def read16_def write16_def)

lemma aligned_small_faults:
  assumes "n = 2 \<or> n = 3" "unat d mod 2 \<noteq> 0 \<or> unat s mod 2 \<noteq> 0"
  shows "FLib_MemCpyAligned32bit True d s n m = None"
  using assms(1) copy_half_fault [OF assms(2)] by (auto simp: FLib_MemCpyAligned32bit_def)

lemma aligned_words_fault:
  assumes n: "6 < n" and ne: "unat d mod 4 \<noteq> unat s mod 4"
  shows "FLib_MemCpyAligned32bit True d s n m = None"
proof -
  define k1 where "k1 = (if s AND 1 \<noteq> 0 then 1 else 0 :: nat)"
  define n1 where "n1 = (if s AND 1 \<noteq> 0 then n - 1 else n)"
  define k2 where "k2 = (if (s + of_nat k1) AND 2 \<noteq> 0 then 2 else 0 :: nat)"
  define n2 where "n2 = (if (s + of_nat k1) AND 2 \<noteq> 0 then n1 - 2 else n1)"
  have N: "6 < unat n" using n by (simp add: word_less_nat_alt)
  have n1: "unat n1 = unat n - k1" "k1 \<le> 1" using N by (auto simp: n1_def k1_def unat_diff_wrap)
  have n2: "unat n2 = unat n - k1 - k2" "k2 \<le> 2" using N n1 by (auto simp: n2_def k2_def unat_diff_wrap)
  have l: "unat (drop_bit 2 n2) \<noteq> 0"
    using N n1(2) n2 by (simp add: drop_bit_eq_div unat_div_distrib)
  have A: "(unat s + (k1 + k2)) mod 4 = 0"
    using aligned_source(2) [of s] by (simp_all only: k1_def k2_def)
  have B: "(unat d + (k1 + k2)) mod 4 \<noteq> 0" using A ne mod_shift(5) [of "unat s" "k1 + k2" "unat d"] by metis
  have to: "unat (d + of_nat (k1 + k2)) mod 4 \<noteq> 0" using B by (simp only: addr_mod4) simp
  have loop: "FLib_MemCpy32_loop True (d + of_nat (k1 + k2)) from (unat (drop_bit 2 n2)) m' = None" for "from" m'
    using l to by (cases "unat (drop_bit 2 n2)"; cases "read32 True from m'") (simp_all add: write32_def)
  have s1: "(if s AND 1 \<noteq> 0 then do { x \<leftarrow> copy_byte (d, s, m); Some (x, n - 1) } else Some ((d, s, m), n)) = Some (x, n')
      \<Longrightarrow> n' = n1 \<and> (\<exists>m1. x = (d + of_nat k1, s + of_nat k1, m1))" for x n'
    by (auto simp: copy_byte_def k1_def n1_def split: if_splits bind_splits)
  have s2: "(if fst (snd x) AND 2 \<noteq> 0 then do { x \<leftarrow> copy_half True x; Some (x, n1 - 2) } else Some (x, n1)) = Some (y, n')
      \<Longrightarrow> x = (d + of_nat k1, s + of_nat k1, m1) \<Longrightarrow>
      n' = n2 \<and> (\<exists>m2 fr. y = (d + of_nat (k1 + k2), fr, m2))" for x y n' m1
    by (auto simp: copy_half_def k2_def n2_def ac_simps split: if_splits bind_splits)
  let ?e1 = "if s AND 1 \<noteq> 0 then do { x \<leftarrow> copy_byte (d, s, m); Some (x, n - 1) } else Some ((d, s, m), n)"
  have "(do {
      (x, n) \<leftarrow> ?e1;
      (x, n) \<leftarrow> (if fst (snd x) AND 2 \<noteq> 0 then do { x \<leftarrow> copy_half True x; Some (x, n - 2) } else Some (x, n));
      x \<leftarrow> (case x of (to, from, m) \<Rightarrow> FLib_MemCpy32_loop True to from (unat (drop_bit 2 n)) m);
      Some (x, n) }) = None"
  proof (cases ?e1)
    case (Some xn)
    obtain x n' where xn: "xn = (x, n')" by (cases xn)
    obtain m1 where x: "n' = n1" "x = (d + of_nat k1, s + of_nat k1, m1)" using s1 Some xn by blast
    let ?e2 = "if fst (snd x) AND 2 \<noteq> 0 then do { x \<leftarrow> copy_half True x; Some (x, n1 - 2) } else Some (x, n1)"
    show ?thesis
    proof (cases ?e2)
      case None
      then show ?thesis using Some xn x(1) by simp
    next
      case e2: (Some yn)
      obtain y n'' where yn: "yn = (y, n'')" by (cases yn)
      obtain m2 fr where y: "n'' = n2" "y = (d + of_nat (k1 + k2), fr, m2)" using s2 e2 x(2) yn by blast
      then show ?thesis using Some xn x(1) e2 yn loop by simp
    qed
  qed simp
  moreover have "n > 3" using N by (simp add: word_less_nat_alt)
  ultimately show ?thesis unfolding FLib_MemCpyAligned32bit_def Let_def by simp
qed


section \<open>Backward, reversed and filling loops\<close>

lemma offset_cases:
  fixes a d :: ptr
  assumes "n < 2 ^ 32"
  obtains (low) "unat (a - d) < n" "a \<noteq> d + of_nat n"
  | (last) "a = d + of_nat n" "unat (a - d) = n"
  | (out) "\<not> unat (a - d) < Suc n" "a \<noteq> d + of_nat n"
proof -
  have n: "unat (of_nat n :: ptr) = n" using assms by (intro unat_of_nat_small) simp
  then have "unat (a - d) = n" if "a = d + of_nat n" using that by simp
  moreover have "a = d + of_nat n" if "unat (a - d) = n"
    using that by (metis add.commute diff_add_cancel of_nat_unat_id)
  ultimately show thesis using that by (metis less_Suc_eq)
qed

lemma mapped_less: "mapped m p n \<Longrightarrow> k \<le> n \<Longrightarrow> mapped m p k"
  by (simp add: mapped_def)

lemma mapped_upd: "mapped m p n \<Longrightarrow> q \<in> dom m \<Longrightarrow> mapped (m(a := m q)) p n"
  by (auto simp: mapped_def)

lemma mapped_upd_Some: "mapped m p n \<Longrightarrow> mapped (m(a \<mapsto> v)) p n"
  by (auto simp: mapped_def)

lemma FLib_MemInPlaceCpy_back_ok:
  assumes "n \<le> 2 ^ 32" "behind s d n" "mapped m d n" "mapped m s n"
  shows "FLib_MemInPlaceCpy_back d s n m = Some (copied m d s n)"
  using assms
proof (induction n arbitrary: m)
  case 0
  then show ?case by simp
next
  case (Suc n)
  let ?m = "m(d + of_nat n := m (s + of_nat n))"
  have n: "n < 2 ^ 32" "n \<le> 2 ^ 32" using Suc.prems(1) by simp_all
  have un: "unat (of_nat n :: ptr) = n" using n by (intro unat_of_nat_small) simp
  have D: "d + of_nat n \<in> dom m" and S: "s + of_nat n \<in> dom m"
    using mapped_nth [OF Suc.prems(3) _ Suc.prems(1)] mapped_nth [OF Suc.prems(4) _ Suc.prems(1)] by auto
  have M: "mapped ?m d n" "mapped ?m s n"
    using mapped_less [OF Suc.prems(3), of n] mapped_less [OF Suc.prems(4), of n] S
    by (simp_all add: mapped_upd)
  have "FLib_MemInPlaceCpy_back d s (Suc n) m = FLib_MemInPlaceCpy_back d s n ?m"
    using D S by (auto simp: load8_def store8_def)
  also have "\<dots> = Some (copied ?m d s n)"
    using behind_less [OF Suc.prems(2), of n] by (intro Suc.IH n(2) M) simp
  also have "copied ?m d s n = copied m d s (Suc n)"
  proof
    fix a
    show "copied ?m d s n a = copied m d s (Suc n) a"
    proof (cases rule: offset_cases [OF n(1), of a d, case_names low last out])
      case low
      let ?x = "a - d"
      have "s + ?x \<noteq> d + of_nat n"
      proof
        assume eq: "s + ?x = d + of_nat n"
        then have e: "s - d = of_nat n - ?x" by (simp add: algebra_simps)
        have "unat (s - d) = n - unat ?x"
          unfolding e unat_diff_wrap [of "of_nat n"] un using low(1) by simp
        then show False using Suc.prems(2) low eq by (auto simp: behind_def)
      qed
      then show ?thesis using low by (simp add: copied_def)
    qed (simp_all add: copied_def)
  qed
  finally show ?case .
qed

text \<open>The memory with the \<open>n\<close> bytes from \<open>p\<close> on set by position.\<close>

definition filled :: "bytes \<Rightarrow> ptr \<Rightarrow> (nat \<Rightarrow> u8) \<Rightarrow> nat \<Rightarrow> bytes" where
  "filled m p f n = (\<lambda>a. if unat (a - p) < n then Some (f (unat (a - p))) else m a)"

lemma filled_0 [simp]: "filled m p f 0 = m"
  by (simp add: filled_def)

lemma store8_filled:
  assumes "mapped m p n" "k < n" "n \<le> 2 ^ 32"
  shows "store8 (p + of_nat k) (f k) (filled m p f k) = Some (filled m p f (Suc k))"
proof -
  have k: "k < 2 ^ 32" using assms by simp
  have "p + of_nat k \<in> dom m" using mapped_nth [OF assms(1,2,3)] .
  then have "p + of_nat k \<in> dom (filled m p f k)" by (auto simp: filled_def)
  moreover have "(filled m p f k)(p + of_nat k \<mapsto> f k) = filled m p f (Suc k)"
  proof
    fix a
    show "((filled m p f k)(p + of_nat k \<mapsto> f k)) a = filled m p f (Suc k) a"
      by (cases rule: offset_cases [OF k, of a p]) (simp_all add: filled_def)
  qed
  ultimately show ?thesis by (simp add: store8_def)
qed

lemma FLib_MemSet_loop_ok:
  assumes "n \<le> 2 ^ 32" "mapped m p n"
  shows "FLib_MemSet_loop p v n m = Some (filled m p (\<lambda>_. v) n)"
  using assms
proof (induction n arbitrary: m)
  case 0
  then show ?case by simp
next
  case (Suc n)
  let ?m = "m(p + of_nat n \<mapsto> v)"
  have n: "n < 2 ^ 32" using Suc.prems by simp
  have D: "p + of_nat n \<in> dom m" using mapped_nth [OF Suc.prems(2) _ Suc.prems(1)] by simp
  then have "FLib_MemSet_loop p v (Suc n) m = FLib_MemSet_loop p v n ?m"
    by (simp add: store8_def)
  also have "\<dots> = Some (filled ?m p (\<lambda>_. v) n)"
    using Suc.prems(1) mapped_less [OF Suc.prems(2), of n]
    by (intro Suc.IH mapped_upd_Some) simp_all
  also have "filled ?m p (\<lambda>_. v) n = filled m p (\<lambda>_. v) (Suc n)"
  proof
    fix a
    show "filled ?m p (\<lambda>_. v) n a = filled m p (\<lambda>_. v) (Suc n) a"
      by (cases rule: offset_cases [OF n, of a p]) (simp_all add: filled_def)
  qed
  finally show ?case .
qed

text \<open>The memory after \<open>n\<close> bytes went from \<open>s\<close> to \<open>d\<close> in reverse order.\<close>

definition reversed :: "bytes \<Rightarrow> ptr \<Rightarrow> ptr \<Rightarrow> nat \<Rightarrow> bytes" where
  "reversed m d s n = (\<lambda>a. if unat (a - d) < n then m (s + (of_nat n - 1 - (a - d))) else m a)"

definition apart :: "ptr \<Rightarrow> ptr \<Rightarrow> nat \<Rightarrow> bool" where
  "apart d s n \<longleftrightarrow> n \<le> unat (d - s) \<and> n \<le> unat (s - d)"

lemma FLib_MemCpyReverse_loop_ok:
  assumes "n \<le> 2 ^ 32" "apart d s n" "mapped m d n" "mapped m s n"
  shows "FLib_MemCpyReverse_loop (d + (of_nat n - 1)) s n m = Some (reversed m d s n)"
  using assms
proof (induction n arbitrary: m s)
  case 0
  then show ?case by (simp add: reversed_def)
next
  case (Suc n)
  let ?m = "m(d + of_nat n := m s)"
  have n: "n < 2 ^ 32" "1 + n \<le> 2 ^ 32" using Suc.prems(1) by simp_all
  have un: "unat (of_nat n :: ptr) = n" using n by (intro unat_of_nat_small) simp
  have D: "d + of_nat n \<in> dom m" using mapped_nth [OF Suc.prems(3) _ Suc.prems(1)] by auto
  have S: "s \<in> dom m" "mapped m (s + 1) n"
    using Suc.prems(4) mapped_append [OF n(2), of m s] by (simp_all add: mapped_first)
  have M: "mapped ?m d n" "mapped ?m (s + 1) n"
    using mapped_less [OF Suc.prems(3), of n] S by (simp_all add: mapped_upd)
  have e1: "d + (of_nat (Suc n) - 1) = d + of_nat n" "d + of_nat n - 1 = d + (of_nat n - 1)" by simp_all
  have ap: "apart d (s + 1) n"
  proof -
    have "s - d \<noteq> 0" "d - s \<noteq> 0" using Suc.prems(2) by (auto simp: apart_def)
    moreover have e: "d - (s + 1) = d - s - 1" "s + 1 - d = s - d + 1" by simp_all
    moreover have "unat (d - s) + unat (s - d) = 2 ^ 32"
    proof -
      have "unat s \<noteq> unat d" using calculation(1) by (metis of_nat_unat_id diff_self)
      then show ?thesis using word_nat_less_len [of s] word_nat_less_len [of d]
        by (auto simp: unat_diff_wrap)
    qed
    ultimately have "n \<le> unat (d - (s + 1))" "n = 0 \<or> unat (s - d) + 1 < 2 ^ 32"
      using Suc.prems(2) unfolding e by (auto simp: apart_def unat_minus_one)
    then show ?thesis
      using Suc.prems(2) unat_add_lem [of "s - d" 1] unfolding apart_def e by auto
  qed
  have "FLib_MemCpyReverse_loop (d + (of_nat (Suc n) - 1)) s (Suc n) m =
      FLib_MemCpyReverse_loop (d + (of_nat n - 1)) (s + 1) n ?m"
    using D S unfolding e1(1) by (auto simp: load8_def store8_def e1(2))
  also have "\<dots> = Some (reversed ?m d (s + 1) n)"
    using n by (intro Suc.IH ap M) simp
  also have "reversed ?m d (s + 1) n = reversed m d s (Suc n)"
  proof
    fix a
    show "reversed ?m d (s + 1) n a = reversed m d s (Suc n) a"
    proof (cases rule: offset_cases [OF n(1), of a d, case_names low last out])
      case low
      let ?x = "a - d"
      have pos: "s + 1 + (of_nat n - 1 - ?x) = s + (of_nat (Suc n) - 1 - ?x)" by simp
      have "s + (of_nat (Suc n) - 1 - ?x) \<noteq> d + of_nat n"
      proof
        assume "s + (of_nat (Suc n) - 1 - ?x) = d + of_nat n"
        then have "s - d = ?x" by (simp add: algebra_simps)
        then show False using Suc.prems(2) low(1) by (simp add: apart_def)
      qed
      then show ?thesis using low(1) unfolding reversed_def pos by simp
    qed (simp_all add: reversed_def)
  qed
  finally show ?case .
qed


section \<open>Comparison and strings\<close>

lemma mapped_tail:
  assumes "mapped m p (Suc n)" "Suc n \<le> 2 ^ 32"
  shows "p \<in> dom m" "mapped m (p + 1) n"
  using mapped_append [of 1 n m p] assms by (simp_all add: mapped_first)

lemma FLib_MemCmp_loop_ok:
  assumes "n \<le> 2 ^ 32" "mapped m a n" "mapped m b n"
  shows "FLib_MemCmp_loop a b n m = Some (\<forall>i < n. m (a + of_nat i) = m (b + of_nat i))"
  using assms
proof (induction n arbitrary: a b)
  case 0
  then show ?case by simp
next
  case (Suc n)
  note A = mapped_tail [OF Suc.prems(2,1)] and B = mapped_tail [OF Suc.prems(3,1)]
  have "(\<forall>i < Suc n. m (a + of_nat i) = m (b + of_nat i)) \<longleftrightarrow>
      m a = m b \<and> (\<forall>i < n. m (a + 1 + of_nat i) = m (b + 1 + of_nat i))"
    by (auto simp: all_less_Suc_iff add.assoc)
  moreover obtain x y where "m a = Some x" "m b = Some y" using A(1) B(1) by blast
  ultimately show ?case
    using Suc.IH [of "a + 1" "b + 1"] A(2) B(2) Suc.prems(1) by (simp add: load8_def)
qed

lemma FLib_MemCmpToVal_loop_ok:
  assumes "n \<le> 2 ^ 32" "mapped m a n"
  shows "FLib_MemCmpToVal_loop a v n m = Some (\<forall>i < n. m (a + of_nat i) = Some v)"
  using assms
proof (induction n)
  case 0
  then show ?case by simp
next
  case (Suc n)
  obtain b where b: "m (a + of_nat n) = Some b"
    using mapped_nth [OF Suc.prems(2) _ Suc.prems(1), of n] by auto
  show ?case
    using Suc.IH Suc.prems(1) mapped_less [OF Suc.prems(2), of n] b
    by (auto simp: load8_def less_Suc_eq)
qed

lemma FLib_StrLen_loop_ok:
  assumes "\<forall>i < n. \<exists>c. m (p + of_nat i) = Some c \<and> c \<noteq> 0" "m (p + of_nat n) = Some 0"
  shows "FLib_StrLen_loop p len m = Some (len + of_nat n)"
  using assms
proof (induction n arbitrary: p len)
  case 0
  then show ?case by (subst FLib_StrLen_loop.simps) (simp add: load8_def)
next
  case (Suc n)
  have h: "\<exists>c. m p = Some c \<and> c \<noteq> 0" using Suc.prems(1) by fastforce
  have "\<forall>i < n. \<exists>c. m (p + 1 + of_nat i) = Some c \<and> c \<noteq> 0" "m (p + 1 + of_nat n) = Some 0"
    using Suc.prems by (auto simp: all_less_Suc_iff add.assoc)
  then show ?case
    using Suc.IH [of "p + 1" "len + 1"] h
    by (subst FLib_StrLen_loop.simps) (auto simp: load8_def add.assoc)
qed

section \<open>Unaligned stores\<close>

text \<open>Byte \<open>i\<close> of a value, least significant first.\<close>

definition le_byte :: "'a :: len word \<Rightarrow> nat \<Rightarrow> u8" where
  "le_byte w i = ucast (drop_bit (8 * i) w)"

lemma store_chain:
  assumes "mapped m p n" "k < n" "n \<le> 2 ^ 32"
  shows "store8 (p + of_nat k) (ucast (drop_bit (8 * k) w)) (filled m p (le_byte w) k) =
    Some (filled m p (le_byte w) (Suc k))"
  using store8_filled [OF assms, of "le_byte w"] by (simp only: le_byte_def)

lemma store_chain_first:
  assumes "mapped m p n" "0 < n" "n \<le> 2 ^ 32"
  shows "store8 p (ucast w) m = Some (filled m p (le_byte w) 1)"
  using store_chain [OF assms, of w] by simp

lemma store_chain_second:
  assumes "mapped m p n" "1 < n" "n \<le> 2 ^ 32"
  shows "store8 (p + 1) (ucast (drop_bit 8 w)) (filled m p (le_byte w) 1) = Some (filled m p (le_byte w) 2)"
  using store_chain [OF assms, of w] by (simp only: of_nat_1 mult_1_right Suc_1)

lemma store_chain_numeral:
  assumes "mapped m p n" "numeral k < n" "n \<le> 2 ^ 32"
  shows "store8 (p + numeral k) (ucast (drop_bit (8 * numeral k) w)) (filled m p (le_byte w) (numeral k)) =
    Some (filled m p (le_byte w) (numeral (Num.inc k)))"
  using store_chain [OF assms, of w] by (simp only: of_nat_numeral Suc_eq_plus1 numeral_inc)

lemma FLib_MemCopy16Unaligned_ok:
  assumes "mapped m p 2"
  shows "FLib_MemCopy16Unaligned p w m = Some (filled m p (le_byte w) 2)"
  using store_chain_first [OF assms, of w] store_chain_second [OF assms, of w]
  by (simp add: FLib_MemCopy16Unaligned_def)

lemma FLib_MemCopy32Unaligned_ok:
  assumes "mapped m p 4"
  shows "FLib_MemCopy32Unaligned p w m = Some (filled m p (le_byte w) 4)"
  using store_chain_first [OF assms, of w] store_chain_second [OF assms, of w]
    store_chain_numeral [OF assms, of "Num.Bit0 Num.One" w]
    store_chain_numeral [OF assms, of "Num.Bit1 Num.One" w]
  by (simp add: FLib_MemCopy32Unaligned_def)

lemma FLib_MemCopy64Unaligned_ok:
  assumes "mapped m p 8"
  shows "FLib_MemCopy64Unaligned p w m = Some (filled m p (le_byte w) 8)"
  using store_chain_first [OF assms, of w] store_chain_second [OF assms, of w]
    store_chain_numeral [OF assms, of "Num.Bit0 Num.One" w]
    store_chain_numeral [OF assms, of "Num.Bit1 Num.One" w]
    store_chain_numeral [OF assms, of "Num.Bit0 (Num.Bit0 Num.One)" w]
    store_chain_numeral [OF assms, of "Num.Bit1 (Num.Bit0 Num.One)" w]
    store_chain_numeral [OF assms, of "Num.Bit0 (Num.Bit1 Num.One)" w]
    store_chain_numeral [OF assms, of "Num.Bit1 (Num.Bit1 Num.One)" w]
  by (simp add: FLib_MemCopy64Unaligned_def)

text \<open>Reading the value back.\<close>

lemma filled_at: "i < n \<Longrightarrow> n \<le> 2 ^ 32 \<Longrightarrow> filled m p f n (p + of_nat i) = Some (f i)"
  by (simp add: filled_def unat_of_nat_small)

lemma load16_filled: "load16 p (filled m p (le_byte (w :: u16)) 2) = Some w"
proof -
  have "load8 p (filled m p (le_byte w) 2) = Some (ucast w)"
    "load8 (p + 1) (filled m p (le_byte w) 2) = Some (ucast (drop_bit 8 w))"
    using filled_at [of 0 2 m p "le_byte w"] filled_at [of 1 2 m p "le_byte w"]
    by (simp_all add: load8_def le_byte_def)
  moreover have "(ucast (ucast w :: u8) OR push_bit 8 (ucast (ucast (drop_bit 8 w) :: u8)) :: u16) = w"
    by (rule bit_word_eqI) (auto simp: bit_simps)
  ultimately show ?thesis by (simp add: load16_def)
qed

lemma load32_filled: "load32 p (filled m p (le_byte (w :: u32)) 4) = Some w"
proof -
  let ?m = "filled m p (le_byte w) 4"
  have "load8 p ?m = Some (ucast w)" "load8 (p + 1) ?m = Some (ucast (drop_bit 8 w))"
    "load8 (p + 2) ?m = Some (ucast (drop_bit 16 w))" "load8 (p + 2 + 1) ?m = Some (ucast (drop_bit 24 w))"
    using filled_at [of 0 4 m p "le_byte w"] filled_at [of 1 4 m p "le_byte w"]
      filled_at [of 2 4 m p "le_byte w"] filled_at [of 3 4 m p "le_byte w"]
    by (simp_all add: load8_def le_byte_def add.assoc)
  moreover have "(ucast (ucast (ucast w :: u8) OR push_bit 8 (ucast (ucast (drop_bit 8 w) :: u8)) :: u16) OR
      push_bit 16 (ucast (ucast (ucast (drop_bit 16 w) :: u8) OR
        push_bit 8 (ucast (ucast (drop_bit 24 w) :: u8)) :: u16)) :: u32) = w" (is "?l = w")
  proof (rule bit_word_eqI)
    fix n assume "n < LENGTH(32)"
    then show "bit ?l n \<longleftrightarrow> bit w n"
      by (cases "n < 8"; cases "n < 16"; cases "n < 24") (auto simp: bit_simps)
  qed
  ultimately show ?thesis by (simp add: load32_def load16_def)
qed

section \<open>Properties\<close>

text \<open>A memory of 64 bytes at address 0x100, each holding the low byte of its address,
  for the witnesses.\<close>

definition mem64 :: bytes where
  "mem64 = (\<lambda>a. if unat (a - 0x100) < 64 then Some (ucast a) else None)"

lemma mem64_mapped: "unat (p - 0x100) + n \<le> 64 \<Longrightarrow> mapped mem64 p n"
proof -
  assume le: "unat (p - 0x100) + n \<le> 64"
  have "unat (a - 0x100) < 64" if "unat (a - p) < n" for a
  proof -
    have "a - 0x100 = (a - p) + (p - 0x100)" by simp
    then have "unat (a - 0x100) \<le> unat (a - p) + unat (p - 0x100)"
      by (simp only: unat_word_ariths) simp
    then show ?thesis using that le by simp
  qed
  then show ?thesis by (auto simp: mapped_def mem64_def dom_def)
qed

text \<open>C32: \<open>FLib_MemInPlaceCpy\<close> moves a buffer correctly however source and destination
  overlap: afterwards the destination holds the bytes the source held before, and nothing
  else has changed. Neither buffer may wrap around the end of the address space.\<close>

theorem flib_in_place_copy:
  assumes "mapped m d (unat n)" "mapped m s (unat n)"
    "unat d + unat n \<le> 2 ^ 32" "unat s + unat n \<le> 2 ^ 32"
  shows "FLib_MemInPlaceCpy d s n m = Some (copied m d s (unat n))"
proof -
  have n: "unat n \<le> 2 ^ 32" using word_nat_less_len [of n] by simp
  consider "d = s" | "d \<noteq> s" "d < s" | "d \<noteq> s" "\<not> d < s" by blast
  then show ?thesis
  proof cases
    case 2
    then have "behind d s (unat n)" using assms(4) by (simp add: behind_def unat_diff_wrap word_less_nat_alt)
    then show ?thesis using 2 FLib_MemCpy_loop_ok [OF n _ assms(1,2)] by (simp add: FLib_MemInPlaceCpy_def)
  next
    case 3
    then have "unat s < unat d" by (simp add: word_less_nat_alt [symmetric])
    then have "unat n \<le> unat (s - d)" using assms(3) by (simp add: unat_diff_wrap)
    then have "behind s d (unat n)" by (simp add: behind_def)
    then show ?thesis using 3 FLib_MemInPlaceCpy_back_ok [OF n _ assms(1,2)] by (simp add: FLib_MemInPlaceCpy_def)
  qed (simp add: FLib_MemInPlaceCpy_def)
qed

theorem flib_in_place_copy_witness:
  "FLib_MemInPlaceCpy 0x104 0x100 8 mem64 = Some (copied mem64 0x104 0x100 8) \<and>
   copied mem64 0x104 0x100 8 0x10B = Some 7"
proof -
  have "mapped mem64 0x104 (unat (8 :: u32))" "mapped mem64 0x100 (unat (8 :: u32))"
    by (rule mem64_mapped, simp)+
  then show ?thesis
    using flib_in_place_copy [of mem64 "0x104" 8 "0x100"] by (simp add: copied_def mem64_def)
qed

text \<open>C33: the word-wise \<open>FLib_MemCpyAligned32bit\<close> against the byte-wise \<open>FLib_MemCpy\<close>, when
  the destination does not start inside the source. On a core that allows unaligned
  accesses they are equivalent for every length and every alignment. On a core that faults
  at unaligned accesses (the Cortex-M0+ of the chip) they are equivalent for more than
  three bytes when both pointers have the same remainder modulo 4, whatever it is, and for
  up to three bytes when both are even or at most one byte is copied. Otherwise the
  word-wise copy faults: for two or three bytes at an odd address, and for seven and more
  bytes whenever the remainders differ.\<close>

theorem flib_aligned_copy_equiv:
  assumes "behind d s (unat n)" "mapped m d (unat n)" "mapped m s (unat n)"
  shows "FLib_MemCpy d s n m = Some (copied m d s (unat n)) \<and>
    FLib_MemCpyAligned32bit False d s n m = FLib_MemCpy d s n m \<and>
    (3 < n \<and> unat d mod 4 = unat s mod 4 \<longrightarrow>
      FLib_MemCpyAligned32bit True d s n m = FLib_MemCpy d s n m) \<and>
    (n \<le> 3 \<and> (n < 2 \<or> even (unat d) \<and> even (unat s)) \<longrightarrow>
      FLib_MemCpyAligned32bit True d s n m = FLib_MemCpy d s n m) \<and>
    ((n = 2 \<or> n = 3) \<and> (odd (unat d) \<or> odd (unat s)) \<longrightarrow>
      FLib_MemCpyAligned32bit True d s n m = None) \<and>
    (6 < n \<and> unat d mod 4 \<noteq> unat s mod 4 \<longrightarrow> FLib_MemCpyAligned32bit True d s n m = None)"
proof -
  have b: "FLib_MemCpy d s n m = Some (copied m d s (unat n))"
    using FLib_MemCpy_loop_ok [OF _ assms] word_nat_less_len [of n] by (simp add: FLib_MemCpy_def)
  have "FLib_MemCpyAligned32bit False d s n m = Some (copied m d s (unat n))"
    using FLib_MemCpyAligned32bit_small [OF assms, of False] FLib_MemCpyAligned32bit_ok [OF assms, of False]
    by (cases "n > 3") (simp_all add: not_less)
  moreover have "FLib_MemCpyAligned32bit True d s n m = Some (copied m d s (unat n))"
    if "3 < n \<and> unat d mod 4 = unat s mod 4"
    using FLib_MemCpyAligned32bit_ok [OF assms, of True] that by simp
  moreover have "FLib_MemCpyAligned32bit True d s n m = Some (copied m d s (unat n))"
    if "n \<le> 3 \<and> (n < 2 \<or> even (unat d) \<and> even (unat s))"
    using FLib_MemCpyAligned32bit_small [OF assms, of True] that
    by (auto simp: not_le even_iff_mod_2_eq_zero)
  moreover have "FLib_MemCpyAligned32bit True d s n m = None"
    if "(n = 2 \<or> n = 3) \<and> (odd (unat d) \<or> odd (unat s))"
    using aligned_small_faults [of n d s m] that by (auto simp: odd_iff_mod_2_eq_one)
  moreover have "FLib_MemCpyAligned32bit True d s n m = None"
    if "6 < n \<and> unat d mod 4 \<noteq> unat s mod 4"
    using aligned_words_fault [of n d s m] that by simp
  ultimately show ?thesis using b by simp
qed

theorem flib_aligned_copy_equiv_witness:
  "FLib_MemCpyAligned32bit True 0x125 0x101 15 mem64 = FLib_MemCpy 0x125 0x101 15 mem64 \<and>
   FLib_MemCpyAligned32bit True 0x122 0x101 15 mem64 = None \<and>
   FLib_MemCpyAligned32bit False 0x122 0x101 15 mem64 = FLib_MemCpy 0x122 0x101 15 mem64"
proof -
  have "mapped mem64 0x125 (unat (15 :: u32))" "mapped mem64 0x122 (unat (15 :: u32))"
    "mapped mem64 0x101 (unat (15 :: u32))"
    by (rule mem64_mapped, simp)+
  moreover have "behind 0x125 0x101 (unat (15 :: u32))" "behind 0x122 0x101 (unat (15 :: u32))"
    by (simp_all add: behind_def)
  ultimately show ?thesis
    using flib_aligned_copy_equiv [of "0x125" "0x101" 15 mem64] flib_aligned_copy_equiv [of "0x122" "0x101" 15 mem64]
    by simp
qed

text \<open>Here \<open>FLib_MemCpyReverseOrder\<close> writes the source bytes in reverse order, and
  \<open>FLib_MemSet\<close> fills exactly its range; other memory is unchanged.\<close>

theorem flib_reverse_and_set:
  assumes "mapped m d (unat n)"
  shows "FLib_MemSet d v n m = Some (filled m d (\<lambda>_. v) (unat n)) \<and>
    (apart d s (unat n) \<longrightarrow> mapped m s (unat n) \<longrightarrow>
      FLib_MemCpyReverseOrder d s n m = Some (reversed m d s (unat n)))"
proof -
  have n: "unat n \<le> 2 ^ 32" using word_nat_less_len [of n] by simp
  show ?thesis
    using FLib_MemSet_loop_ok [OF n assms] FLib_MemCpyReverse_loop_ok [OF n _ assms]
    by (auto simp: FLib_MemSet_def FLib_MemCpyReverseOrder_def reversed_def)
qed

theorem flib_reverse_and_set_witness:
  "FLib_MemCpyReverseOrder 0x120 0x100 4 mem64 = Some (reversed mem64 0x120 0x100 4) \<and>
   reversed mem64 0x120 0x100 4 0x120 = Some 3"
proof -
  have "mapped mem64 0x120 (unat (4 :: u32))" "mapped mem64 0x100 (unat (4 :: u32))"
    by (rule mem64_mapped, simp)+
  moreover have "apart 0x120 0x100 (unat (4 :: u32))" by (simp add: apart_def)
  ultimately show ?thesis
    using flib_reverse_and_set [of mem64 "0x120" 4 _ "0x100"] by (simp add: reversed_def mem64_def)
qed

text \<open>Here \<open>FLib_MemCmp\<close> and \<open>FLib_MemCmpToVal\<close> decide equality of the compared bytes, and
  \<open>FLib_StrLen\<close> ends at the first zero byte and returns its offset.\<close>

theorem flib_compare:
  assumes "mapped m a (unat n)" "mapped m b (unat n)"
  shows "FLib_MemCmp a b n m = Some (\<forall>i < unat n. m (a + of_nat i) = m (b + of_nat i)) \<and>
    FLib_MemCmpToVal a v n m = Some (\<forall>i < unat n. m (a + of_nat i) = Some v) \<and>
    (\<forall>k p. (\<forall>i < k. \<exists>c. m (p + of_nat i) = Some c \<and> c \<noteq> 0) \<longrightarrow> m (p + of_nat k) = Some 0 \<longrightarrow>
      FLib_StrLen p m = Some (of_nat k))"
proof -
  have n: "unat n \<le> 2 ^ 32" using word_nat_less_len [of n] by simp
  show ?thesis
    using FLib_MemCmp_loop_ok [OF n assms] FLib_MemCmpToVal_loop_ok [OF n assms(1)] FLib_StrLen_loop_ok [of _ m _ 0]
    by (simp add: FLib_MemCmp_def FLib_MemCmpToVal_def FLib_StrLen_def)
qed

theorem flib_compare_witness:
  "FLib_MemCmp 0x100 0x101 1 mem64 = Some False \<and> FLib_MemCmpToVal 0x103 3 1 mem64 = Some True"
proof -
  have "mapped mem64 0x100 (unat (1 :: u32))" "mapped mem64 0x101 (unat (1 :: u32))"
    "mapped mem64 0x103 (unat (1 :: u32))"
    by (rule mem64_mapped, simp)+
  then show ?thesis
    using flib_compare [of mem64 "0x100" 1 "0x101"] flib_compare [of mem64 "0x103" 1 "0x101" 3]
    by (simp add: mem64_def)
qed

text \<open>C34: the unaligned stores write the value least significant byte first, touch no other
  byte, and the 16 and 32 bit ones can be read back as the value.\<close>

theorem flib_unaligned_roundtrip:
  assumes "mapped m p 8"
  shows "FLib_MemCopy16Unaligned p a m = Some (filled m p (le_byte a) 2) \<and>
    load16 p (filled m p (le_byte a) 2) = Some a \<and>
    FLib_MemCopy32Unaligned p b m = Some (filled m p (le_byte b) 4) \<and>
    load32 p (filled m p (le_byte b) 4) = Some b \<and>
    FLib_MemCopy64Unaligned p c m = Some (filled m p (le_byte c) 8)"
  using assms mapped_less [OF assms, of 2] mapped_less [OF assms, of 4]
  by (simp add: FLib_MemCopy16Unaligned_ok FLib_MemCopy32Unaligned_ok FLib_MemCopy64Unaligned_ok
      load16_filled load32_filled)

theorem flib_unaligned_roundtrip_witness:
  "\<exists>m. FLib_MemCopy32Unaligned 0x101 0xDEADBEEF mem64 = Some m \<and> load32 0x101 m = Some 0xDEADBEEF"
proof -
  have "mapped mem64 0x101 8" by (rule mem64_mapped) simp
  then show ?thesis using flib_unaligned_roundtrip by blast
qed

end
