(* ===== verification/Virtqueue.thy ===== *)
theory Virtqueue
  imports Prelude
begin

text \<open>
  The virtqueues of RPMsg-Lite (\<open>rpmsg_lite/lib/virtio/virtqueue.c\<close> and
  \<open>lib/include/virtio_ring.h\<close>), built with \<open>VQUEUE_DEBUG\<close> off, so that the parameter
  checks and the busy flags are empty. A ring lies in shared memory; the driver core puts
  buffers into its available ring and takes them from its used ring, the device core does
  the opposite, each with its own free-running 16-bit indices. A virtqueue argument is an
  object, so the tests for a null virtqueue are false. The lemmas relate the two cores and
  the ring to two queues of buffer indices and two sets of buffers held, and every
  operation of either core to a move of one index.

  An update of a ring is a sequence of stores with a barrier in it. The operations run the
  sequence at once; the system of the two cores (\<open>vq_step\<close>) lets the stores of a call reach
  the memory one by one, in any order that the barrier allows, while the other core works,
  and lets a core read the other's index first and the entry and the descriptor later.
  Loads happen in program order, as on the in-order cores of the chip.
\<close>

section \<open>Data\<close>

record vring_desc =
  vd_addr :: u64
  vd_len :: u32
  vd_flags :: u16
  vd_next :: u16

record vring_used_elem =
  ue_id :: u32
  ue_len :: u32

text \<open>The pointers of \<open>struct vring\<close>, and what they point at.\<close>

record vring_ptrs =
  vr_num :: u32
  vr_desc :: ptr
  vr_avail :: ptr
  vr_used :: ptr

record vring =
  desc :: "vring_desc list"
  avail_flags :: u16
  avail_idx :: u16
  avail_ring :: "u16 list"
  used_event :: u16
  used_flags :: u16
  used_idx :: u16
  used_ring :: "vring_used_elem list"
  avail_event :: u16

record virtqueue =
  vq_flags :: u32
  vq_alignment :: u32
  vq_ring_size :: u32
  vq_ring_mem :: ptr
  vq_callback :: ptr
  vq_notify :: ptr
  vq_ring :: vring_ptrs
  vq_queue_index :: u16
  vq_nentries :: u16
  vq_free_cnt :: u16
  vq_queued_cnt :: u16
  vq_desc_head_idx :: u16
  vq_used_cons_idx :: u16
  vq_available_idx :: u16

record vring_alloc_info =
  phy_addr :: ptr
  ring_align :: u32
  num_descs :: u16

abbreviation (input) VQUEUE_SUCCESS :: int where "VQUEUE_SUCCESS \<equiv> 0"
abbreviation (input) ERROR_NO_MEM :: int where "ERROR_NO_MEM \<equiv> - 3004"
abbreviation (input) ERROR_VRING_NO_BUFF :: int where "ERROR_VRING_NO_BUFF \<equiv> - 3007"
abbreviation (input) VRING_DESC_F_WRITE :: u16 where "VRING_DESC_F_WRITE \<equiv> 2"
abbreviation (input) VRING_USED_F_NO_NOTIFY :: u16 where "VRING_USED_F_NO_NOTIFY \<equiv> 1"
abbreviation (input) VRING_AVAIL_F_NO_INTERRUPT :: u16 where "VRING_AVAIL_F_NO_INTERRUPT \<equiv> 1"
abbreviation (input) VIRTQUEUE_FLAG_EVENT_IDX :: u32 where "VIRTQUEUE_FLAG_EVENT_IDX \<equiv> 2"
abbreviation (input) VQ_RING_DESC_CHAIN_END :: u16 where "VQ_RING_DESC_CHAIN_END \<equiv> 32768"

text \<open>The address maps of the platform: \<open>platform_vatopa\<close> and \<open>platform_patova\<close> of
  \<open>rpmsg_platform.c\<close> are conversions between pointers and integers.\<close>

definition env_map_vatopa :: "ptr \<Rightarrow> u64" where
  "env_map_vatopa address = ucast address"

definition env_map_patova :: "u64 \<Rightarrow> ptr" where
  "env_map_patova address = ucast address"

section \<open>Layout and creation\<close>

definition vring_size :: "u32 \<Rightarrow> u32 \<Rightarrow> u32" where
  "vring_size n al =
     (let size = n * 16;
          size = size + 6 + n * 2 + 2;
          size = (size + al - 1) AND NOT (al - 1)
      in size + 12 + n * 8 + 2)"

definition vring_init :: "u32 \<Rightarrow> ptr \<Rightarrow> u32 \<Rightarrow> vring_ptrs" where
  "vring_init n p al =
     (let avail = p + n * 16 in
      \<lparr>vr_num = n, vr_desc = p, vr_avail = avail,
       vr_used = (avail + 4 + 2 * n + al - 1) AND NOT (al - 1)\<rparr>)"

definition vring_need_event :: "u16 \<Rightarrow> u16 \<Rightarrow> u16 \<Rightarrow> bool" where
  "vring_need_event event_idx new_idx old \<longleftrightarrow> new_idx - event_idx - 1 < new_idx - old"

definition virtqueue_create_static ::
  "u16 \<Rightarrow> vring_alloc_info \<Rightarrow> ptr \<Rightarrow> ptr \<Rightarrow> int \<times> virtqueue" where
  "virtqueue_create_static qid ring callback notify =
     (VQUEUE_SUCCESS,
      \<lparr>vq_flags = 0, vq_alignment = ring_align ring,
       vq_ring_size = vring_size (ucast (num_descs ring)) (ring_align ring),
       vq_ring_mem = phy_addr ring, vq_callback = callback, vq_notify = notify,
       vq_ring = vring_init (ucast (num_descs ring)) (phy_addr ring) (ring_align ring),
       vq_queue_index = qid, vq_nentries = num_descs ring, vq_free_cnt = 0, vq_queued_cnt = 0,
       vq_desc_head_idx = 0, vq_used_cons_idx = 0, vq_available_idx = 0\<rparr>)"

text \<open>\<open>alloc\<close>: whether \<open>env_allocate_memory\<close> has the memory. Without it the caller gets no
  virtqueue.\<close>

definition virtqueue_create ::
  "bool \<Rightarrow> u16 \<Rightarrow> vring_alloc_info \<Rightarrow> ptr \<Rightarrow> ptr \<Rightarrow> int \<times> virtqueue option" where
  "virtqueue_create alloc qid ring callback notify =
     (if \<not> alloc then (ERROR_NO_MEM, None)
      else case virtqueue_create_static qid ring callback notify of (st, vq) \<Rightarrow> (st, Some vq))"

definition virtqueue_free_static :: "virtqueue \<Rightarrow> virtqueue" where
  "virtqueue_free_static vq =
     (if vq_ring_mem vq \<noteq> NULL then vq\<lparr>vq_ring_size := 0, vq_ring_mem := NULL\<rparr> else vq)"

fun vq_ring_init_from :: "nat \<Rightarrow> nat \<Rightarrow> vring \<Rightarrow> vring option" where
  "vq_ring_init_from i 0 vr = do {
     d \<leftarrow> nth_opt (desc vr) i;
     Some (vr\<lparr>desc := (desc vr)[i := d\<lparr>vd_next := VQ_RING_DESC_CHAIN_END\<rparr>]\<rparr>) }"
| "vq_ring_init_from i (Suc k) vr = do {
     d \<leftarrow> nth_opt (desc vr) i;
     vq_ring_init_from (Suc i) k (vr\<lparr>desc := (desc vr)[i := d\<lparr>vd_next := of_nat (i + 1)\<rparr>]\<rparr>) }"

definition vq_ring_init :: "virtqueue \<Rightarrow> vring \<Rightarrow> vring option" where
  "vq_ring_init vq vr = vq_ring_init_from 0 (unat (vq_nentries vq) - 1) vr"

section \<open>Ring updates\<close>

text \<open>A core writes the ring by stores that the other core sees one by one. \<open>Wmb\<close> stands for
  \<open>env_wmb\<close>, before which every earlier store has to arrive. Each update computes its
  stores from the index it alone advances, and is these stores in their order.\<close>

datatype ring_op =
    Desc_addr u16 u64
  | Desc_len u16 u32
  | Desc_flags u16 u16
  | Avail_entry nat u16
  | Avail_inc
  | Used_id nat u32
  | Used_len nat u32
  | Used_inc
  | Wmb

fun ring_store :: "ring_op \<Rightarrow> vring \<Rightarrow> vring option" where
  "ring_store (Desc_addr i a) vr = do {
     d \<leftarrow> nth_opt (desc vr) (unat i);
     Some (vr\<lparr>desc := (desc vr)[unat i := d\<lparr>vd_addr := a\<rparr>]\<rparr>) }"
| "ring_store (Desc_len i l) vr = do {
     d \<leftarrow> nth_opt (desc vr) (unat i);
     Some (vr\<lparr>desc := (desc vr)[unat i := d\<lparr>vd_len := l\<rparr>]\<rparr>) }"
| "ring_store (Desc_flags i f) vr = do {
     d \<leftarrow> nth_opt (desc vr) (unat i);
     Some (vr\<lparr>desc := (desc vr)[unat i := d\<lparr>vd_flags := f\<rparr>]\<rparr>) }"
| "ring_store (Avail_entry k i) vr = do {
     r \<leftarrow> upd_opt (avail_ring vr) k i;
     Some (vr\<lparr>avail_ring := r\<rparr>) }"
| "ring_store Avail_inc vr = Some (vr\<lparr>avail_idx := avail_idx vr + 1\<rparr>)"
| "ring_store (Used_id k i) vr = do {
     e \<leftarrow> nth_opt (used_ring vr) k;
     Some (vr\<lparr>used_ring := (used_ring vr)[k := e\<lparr>ue_id := i\<rparr>]\<rparr>) }"
| "ring_store (Used_len k l) vr = do {
     e \<leftarrow> nth_opt (used_ring vr) k;
     Some (vr\<lparr>used_ring := (used_ring vr)[k := e\<lparr>ue_len := l\<rparr>]\<rparr>) }"
| "ring_store Used_inc vr = Some (vr\<lparr>used_idx := used_idx vr + 1\<rparr>)"
| "ring_store Wmb vr = Some vr"

fun ring_stores :: "ring_op list \<Rightarrow> vring \<Rightarrow> vring option" where
  "ring_stores [] vr = Some vr"
| "ring_stores (op # ops) vr = do { vr \<leftarrow> ring_store op vr; ring_stores ops vr }"

definition desc_stores :: "u16 \<Rightarrow> ptr \<Rightarrow> u32 \<Rightarrow> ring_op list" where
  "desc_stores i buffer len =
     [Desc_addr i (env_map_vatopa buffer), Desc_len i len, Desc_flags i VRING_DESC_F_WRITE]"

definition avail_stores :: "virtqueue \<Rightarrow> vring \<Rightarrow> u16 \<Rightarrow> ring_op list" where
  "avail_stores vq vr desc_idx =
     [Avail_entry (unat (avail_idx vr AND (vq_nentries vq - 1))) desc_idx, Wmb, Avail_inc]"

definition used_stores :: "virtqueue \<Rightarrow> vring \<Rightarrow> u16 \<Rightarrow> u32 \<Rightarrow> ring_op list" where
  "used_stores vq vr head_idx len =
     (let i = unat (used_idx vr AND (vq_nentries vq - 1))
      in [Used_id i (ucast head_idx), Used_len i len, Wmb, Used_inc])"

definition vq_ring_update_avail :: "virtqueue \<Rightarrow> vring \<Rightarrow> u16 \<Rightarrow> (virtqueue \<times> vring) option" where
  "vq_ring_update_avail vq vr desc_idx = do {
     vr \<leftarrow> ring_stores (avail_stores vq vr desc_idx) vr;
     Some (vq\<lparr>vq_queued_cnt := vq_queued_cnt vq + 1\<rparr>, vr) }"

definition vq_ring_update_used :: "virtqueue \<Rightarrow> vring \<Rightarrow> u16 \<Rightarrow> u32 \<Rightarrow> vring option" where
  "vq_ring_update_used vq vr head_idx len = ring_stores (used_stores vq vr head_idx len) vr"

definition vq_ring_add_buffer :: "vring \<Rightarrow> u16 \<Rightarrow> ptr \<Rightarrow> u32 \<Rightarrow> (u16 \<times> vring) option" where
  "vq_ring_add_buffer vr head_idx buffer len =
     (if buffer = NULL then Some (head_idx, vr)
      else do { vr \<leftarrow> ring_stores (desc_stores head_idx buffer len) vr; Some (head_idx + 1, vr) })"

section \<open>The driver side\<close>

definition virtqueue_add_buffer :: "virtqueue \<Rightarrow> vring \<Rightarrow> u16 \<Rightarrow> (int \<times> virtqueue \<times> vring) option" where
  "virtqueue_add_buffer vq vr head_idx = do {
     (vq, vr) \<leftarrow> vq_ring_update_avail vq vr head_idx;
     Some (VQUEUE_SUCCESS, vq, vr) }"

definition virtqueue_fill_avail_buffers ::
  "virtqueue \<Rightarrow> vring \<Rightarrow> ptr \<Rightarrow> u32 \<Rightarrow> (int \<times> virtqueue \<times> vring) option" where
  "virtqueue_fill_avail_buffers vq vr buffer len = do {
     let head_idx = vq_desc_head_idx vq;
     vr \<leftarrow> ring_stores (desc_stores head_idx buffer len) vr;
     let vq = vq\<lparr>vq_desc_head_idx := vq_desc_head_idx vq + 1\<rparr>;
     (vq, vr) \<leftarrow> vq_ring_update_avail vq vr head_idx;
     Some (VQUEUE_SUCCESS, vq, vr) }"

text \<open>The buffer (or \<open>NULL\<close>), the values written to \<open>*len\<close> and \<open>*idx\<close> when there is one, and
  the virtqueue. Callers pass both pointers. The call reads the index of the other core
  first, and the rest of the ring later (\<open>used_take\<close>, \<open>avail_take\<close>).\<close>

definition used_take :: "virtqueue \<Rightarrow> vring \<Rightarrow> (ptr \<times> (u32 \<times> u16) option \<times> virtqueue) option" where
  "used_take vq vr = do {
     let i = vq_used_cons_idx vq AND (vq_nentries vq - 1);
     uep \<leftarrow> nth_opt (used_ring vr) (unat i);
     let desc_idx = (ucast (ue_id uep) :: u16);
     let vq = vq\<lparr>vq_used_cons_idx := vq_used_cons_idx vq + 1\<rparr>;
     d \<leftarrow> nth_opt (desc vr) (unat desc_idx);
     Some (env_map_patova (vd_addr d), Some (ue_len uep, desc_idx), vq) }"

definition virtqueue_get_buffer ::
  "virtqueue \<Rightarrow> vring \<Rightarrow> (ptr \<times> (u32 \<times> u16) option \<times> virtqueue) option" where
  "virtqueue_get_buffer vq vr =
     (if vq_used_cons_idx vq = used_idx vr then Some (NULL, None, vq) else used_take vq vr)"

definition virtqueue_get_buffer_length :: "vring \<Rightarrow> u16 \<Rightarrow> u32 option" where
  "virtqueue_get_buffer_length vr idx = do { d \<leftarrow> nth_opt (desc vr) (unat idx); Some (vd_len d) }"

definition virtqueue_fill_used_buffers ::
  "virtqueue \<Rightarrow> vring \<Rightarrow> ptr \<Rightarrow> u32 \<Rightarrow> (int \<times> virtqueue \<times> vring) option" where
  "virtqueue_fill_used_buffers vq vr buffer len = do {
     let head_idx = vq_desc_head_idx vq;
     (idx, vr) \<leftarrow> vq_ring_add_buffer vr head_idx buffer len;
     let vq = vq\<lparr>vq_desc_head_idx := idx\<rparr>;
     vr \<leftarrow> vq_ring_update_used vq vr head_idx len;
     Some (VQUEUE_SUCCESS, vq, vr) }"

section \<open>The device side\<close>

definition avail_take :: "virtqueue \<Rightarrow> vring \<Rightarrow> (ptr \<times> (u32 \<times> u16) option \<times> virtqueue) option" where
  "avail_take vq vr = do {
     let head_idx = vq_available_idx vq AND (vq_nentries vq - 1);
     let vq = vq\<lparr>vq_available_idx := vq_available_idx vq + 1\<rparr>;
     i \<leftarrow> nth_opt (avail_ring vr) (unat head_idx);
     d \<leftarrow> nth_opt (desc vr) (unat i);
     Some (env_map_patova (vd_addr d), Some (vd_len d, i), vq) }"

definition virtqueue_get_available_buffer ::
  "virtqueue \<Rightarrow> vring \<Rightarrow> (ptr \<times> (u32 \<times> u16) option \<times> virtqueue) option" where
  "virtqueue_get_available_buffer vq vr =
     (if vq_available_idx vq = avail_idx vr then Some (NULL, None, vq) else avail_take vq vr)"

definition virtqueue_add_consumed_buffer ::
  "virtqueue \<Rightarrow> vring \<Rightarrow> u16 \<Rightarrow> u32 \<Rightarrow> (int \<times> vring) option" where
  "virtqueue_add_consumed_buffer vq vr head_idx len =
     (if head_idx > vq_nentries vq then Some (ERROR_VRING_NO_BUFF, vr)
      else do { vr \<leftarrow> vq_ring_update_used vq vr head_idx len; Some (VQUEUE_SUCCESS, vr) })"

definition virtqueue_get_desc_size :: "virtqueue \<Rightarrow> vring \<Rightarrow> u32 option" where
  "virtqueue_get_desc_size vq vr =
     (if vq_available_idx vq = avail_idx vr then Some 0
      else do {
        let head_idx = vq_available_idx vq AND (vq_nentries vq - 1);
        i \<leftarrow> nth_opt (avail_ring vr) (unat head_idx);
        d \<leftarrow> nth_opt (desc vr) (unat i);
        Some (vd_len d) })"

section \<open>Notification\<close>

definition virtqueue_nused :: "virtqueue \<Rightarrow> vring \<Rightarrow> u16" where
  "virtqueue_nused vq vr = used_idx vr - vq_used_cons_idx vq"

definition vq_ring_enable_interrupt :: "virtqueue \<Rightarrow> vring \<Rightarrow> u16 \<Rightarrow> bool \<times> vring" where
  "vq_ring_enable_interrupt vq vr ndesc =
     (let vr = (if vq_flags vq AND VIRTQUEUE_FLAG_EVENT_IDX \<noteq> 0
                then vr\<lparr>used_event := vq_used_cons_idx vq + ndesc\<rparr>
                else vr\<lparr>avail_flags := avail_flags vr AND NOT VRING_AVAIL_F_NO_INTERRUPT\<rparr>)
      in (virtqueue_nused vq vr > ndesc, vr))"

definition virtqueue_enable_cb :: "virtqueue \<Rightarrow> vring \<Rightarrow> bool \<times> vring" where
  "virtqueue_enable_cb vq vr = vq_ring_enable_interrupt vq vr 0"

definition virtqueue_disable_cb :: "virtqueue \<Rightarrow> vring \<Rightarrow> vring" where
  "virtqueue_disable_cb vq vr =
     (if vq_flags vq AND VIRTQUEUE_FLAG_EVENT_IDX \<noteq> 0
      then vr\<lparr>used_event := vq_used_cons_idx vq - vq_nentries vq - 1\<rparr>
      else vr\<lparr>avail_flags := avail_flags vr OR VRING_AVAIL_F_NO_INTERRUPT\<rparr>)"

definition vq_ring_must_notify_host :: "virtqueue \<Rightarrow> vring \<Rightarrow> bool" where
  "vq_ring_must_notify_host vq vr \<longleftrightarrow>
     (if vq_flags vq AND VIRTQUEUE_FLAG_EVENT_IDX \<noteq> 0
      then vring_need_event (avail_event vr) (avail_idx vr) (avail_idx vr - vq_queued_cnt vq)
      else used_flags vr AND VRING_USED_F_NO_NOTIFY = 0)"

text \<open>Whether \<open>notify\<close> is called, and the virtqueue after the kick.\<close>

definition vq_ring_notify_host :: "virtqueue \<Rightarrow> bool" where
  "vq_ring_notify_host vq \<longleftrightarrow> vq_notify vq \<noteq> NULL"

definition virtqueue_kick :: "virtqueue \<Rightarrow> vring \<Rightarrow> bool \<times> virtqueue" where
  "virtqueue_kick vq vr =
     (vq_ring_must_notify_host vq vr \<and> vq_ring_notify_host vq, vq\<lparr>vq_queued_cnt := 0\<rparr>)"

text \<open>Whether the callback runs.\<close>

definition virtqueue_notification :: "virtqueue \<Rightarrow> bool" where
  "virtqueue_notification vq \<longleftrightarrow> vq_callback vq \<noteq> NULL"

section \<open>Ring buffers\<close>

text \<open>A ring of \<open>n\<close> slots holds the queue \<open>xs\<close> from position \<open>s\<close> on.\<close>

definition ring_holds :: "nat \<Rightarrow> 'a list \<Rightarrow> nat \<Rightarrow> 'a list \<Rightarrow> bool" where
  "ring_holds n r s xs \<longleftrightarrow> length r = n \<and> length xs \<le> n \<and>
     (\<forall>j < length xs. r ! ((s + j) mod n) = xs ! j)"

lemma ring_holds_start_cong: "s mod n = s' mod n \<Longrightarrow> ring_holds n r s xs = ring_holds n r s' xs"
  unfolding ring_holds_def by (metis mod_add_left_eq)

lemma ring_push:
  assumes "ring_holds n r s xs" "length xs < n"
  shows "ring_holds n (r[(s + length xs) mod n := x]) s (xs @ [x])"
proof -
  have "(s + length xs) mod n \<noteq> (s + j) mod n" if "j < length xs" for j
  proof
    assume "(s + length xs) mod n = (s + j) mod n"
    then have "n dvd (s + length xs) - (s + j)" using that by (simp add: mod_eq_dvd_iff_nat)
    then show False using that assms(2) by (auto dest: dvd_imp_le)
  qed
  then show ?thesis
    using assms by (auto simp: ring_holds_def nth_append less_Suc_eq)
qed

lemma ring_slot_free:
  assumes "ring_holds n r s xs" "length xs < n"
  shows "ring_holds n (r[(s + length xs) mod n := x]) s xs"
  using ring_push [OF assms, of x] by (fastforce simp: ring_holds_def nth_append)

lemma ring_snoc:
  assumes "ring_holds n r s xs" "length xs < n" "r ! ((s + length xs) mod n) = x"
  shows "ring_holds n r s (xs @ [x])"
  using ring_push [OF assms(1,2), of x] assms(3) by (metis list_update_id)

lemma ring_pop:
  assumes "ring_holds n r s (x # xs)"
  shows "r ! (s mod n) = x" "ring_holds n r (Suc s) xs" "0 < n"
proof -
  show "0 < n" using assms by (auto simp: ring_holds_def)
  show "r ! (s mod n) = x" using assms by (fastforce simp: ring_holds_def)
  have "r ! ((s + Suc j) mod n) = (x # xs) ! Suc j" if "j < length xs" for j
    using assms that by (simp only: ring_holds_def length_Cons Suc_less_eq)
  then show "ring_holds n r (Suc s) xs" using assms by (simp add: ring_holds_def)
qed

lemma ring_empty: "ring_holds n r s [] \<longleftrightarrow> length r = n"
  by (auto simp: ring_holds_def)


section \<open>The abstract channel\<close>

text \<open>The buffer indices on their way from the driver to the device and back (with the
  reported length), and those each core holds.\<close>

record chan =
  ch_avail :: "u16 list"
  ch_used :: "(u16 \<times> u32) list"
  ch_drv :: "u16 set"
  ch_dev :: "u16 set"

text \<open>Each of the \<open>n\<close> indices is in exactly one place.\<close>

definition chan_ok :: "nat \<Rightarrow> chan \<Rightarrow> bool" where
  "chan_ok n ch \<longleftrightarrow> distinct (ch_avail ch @ map fst (ch_used ch)) \<and>
     ch_drv ch \<inter> ch_dev ch = {} \<and>
     (ch_drv ch \<union> ch_dev ch) \<inter> set (ch_avail ch @ map fst (ch_used ch)) = {} \<and>
     ch_drv ch \<union> ch_dev ch \<union> set (ch_avail ch @ map fst (ch_used ch)) = {i. unat i < n}"

lemma card_indices: "card {i :: u16. unat i < n} \<le> n" "finite {i :: u16. unat i < n}"
proof -
  have "unat ` {i :: u16. unat i < n} \<subseteq> {..<n}" by auto
  then have "card (unat ` {i :: u16. unat i < n}) \<le> card {..<n}" by (intro card_mono) auto
  moreover have "inj_on unat {i :: u16. unat i < n}" by (intro inj_onI) (metis of_nat_unat_id)
  ultimately show "card {i :: u16. unat i < n} \<le> n" by (simp add: card_image)
  show "finite {i :: u16. unat i < n}" by (rule finite_subset [OF subset_UNIV]) simp
qed

lemma chan_room:
  assumes "chan_ok n ch"
  shows "length (ch_avail ch) + length (ch_used ch) \<le> n"
    "i \<in> ch_drv ch \<union> ch_dev ch \<Longrightarrow> length (ch_avail ch) + length (ch_used ch) < n"
proof -
  let ?S = "set (ch_avail ch @ map fst (ch_used ch))"
  have d: "card ?S = length (ch_avail ch) + length (ch_used ch)"
    using assms distinct_card [of "ch_avail ch @ map fst (ch_used ch)"] by (simp add: chan_ok_def)
  have sub: "?S \<subseteq> {i. unat i < n}" using assms by (auto simp: chan_ok_def)
  show "length (ch_avail ch) + length (ch_used ch) \<le> n"
    using card_mono [OF card_indices(2) sub] card_indices(1) [of n] d by simp
  assume i: "i \<in> ch_drv ch \<union> ch_dev ch"
  have "?S \<subset> {i. unat i < n}" using assms i unfolding chan_ok_def by blast
  then show "length (ch_avail ch) + length (ch_used ch) < n"
    using psubset_card_mono [OF card_indices(2) \<open>?S \<subset> {i. unat i < n}\<close>] card_indices(1) [of n] d by simp
qed

section \<open>The relation between the cores, the ring and the channel\<close>

definition is_pow2 :: "u16 \<Rightarrow> bool" where
  "is_pow2 w \<longleftrightarrow> (\<exists>k < 16. w = 2 ^ k)"

lemma unat_pow2:
  assumes "k < 16"
  shows "unat (2 ^ k :: u16) = 2 ^ k"
proof -
  have "(2 :: nat) ^ k < 2 ^ 16" using assms by (intro power_strict_increasing) simp_all
  then have "unat (of_nat (2 ^ k) :: u16) = 2 ^ k" by (intro unat_of_nat_small) simp
  then show ?thesis by simp
qed

lemma ring_index:
  assumes "is_pow2 w"
  shows "unat (x AND (w - 1)) = unat x mod unat w"
proof -
  obtain k where k: "k < 16" "w = 2 ^ k" using assms by (auto simp: is_pow2_def)
  have "x AND (w - 1) = take_bit k x" by (simp add: k(2) take_bit_eq_mask mask_eq_exp_minus_1)
  then show ?thesis using k by (simp add: take_bit_eq_mod unat_mod_distrib unat_pow2)
qed

lemma pow2_dvd:
  assumes "is_pow2 w"
  shows "unat w dvd 2 ^ 16"
proof -
  obtain k where "k < 16" "unat w = 2 ^ k" using assms by (auto simp: is_pow2_def unat_pow2)
  moreover have "(2 :: nat) ^ k dvd 2 ^ 16" using calculation(1) by (intro le_imp_power_dvd) simp
  ultimately show ?thesis by simp
qed

text \<open>Free-running 16-bit positions wrap consistently with the ring.\<close>

lemma pos_mod:
  assumes "is_pow2 w"
  shows "unat (x + of_nat k :: u16) mod unat w = (unat x + k) mod unat w"
proof -
  have "unat (x + of_nat k :: u16) = (unat x + k) mod 2 ^ 16"
    by (simp add: unat_word_ariths unat_of_nat mod_add_right_eq)
  then show ?thesis using pow2_dvd [OF assms] by (simp add: mod_mod_cancel)
qed

definition used_elem :: "u16 \<times> u32 \<Rightarrow> vring_used_elem" where
  "used_elem = (\<lambda>(i, l). \<lparr>ue_id = ucast i, ue_len = l\<rparr>)"

definition vq_rel :: "virtqueue \<Rightarrow> virtqueue \<Rightarrow> vring \<Rightarrow> chan \<Rightarrow> bool" where
  "vq_rel drv dev vr ch \<longleftrightarrow>
     is_pow2 (vq_nentries drv) \<and> vq_nentries dev = vq_nentries drv \<and>
     length (desc vr) = unat (vq_nentries drv) \<and>
     chan_ok (unat (vq_nentries drv)) ch \<and>
     avail_idx vr = vq_available_idx dev + of_nat (length (ch_avail ch)) \<and>
     ring_holds (unat (vq_nentries drv)) (avail_ring vr) (unat (vq_available_idx dev)) (ch_avail ch) \<and>
     used_idx vr = vq_used_cons_idx drv + of_nat (length (ch_used ch)) \<and>
     ring_holds (unat (vq_nentries drv)) (used_ring vr) (unat (vq_used_cons_idx drv))
       (map used_elem (ch_used ch))"

lemma vq_room:
  assumes "vq_rel drv dev vr ch"
  shows "length (ch_avail ch) < 2 ^ 16" "length (ch_used ch) < 2 ^ 16"
  using chan_room(1) [of "unat (vq_nentries drv)" ch] assms word_nat_less_len [of "vq_nentries drv"]
  by (simp_all add: vq_rel_def)

lemma idx_eq_iff: "n < 2 ^ 16 \<Longrightarrow> (x :: u16) = x + of_nat n \<longleftrightarrow> n = 0"
  by (simp add: of_nat_eq_0_small)

text \<open>One slot of the available ring and of the used ring is written.\<close>

lemma update_avail_ok:
  assumes rel: "vq_rel drv dev vr ch" and i: "i \<in> ch_drv ch"
  shows "\<exists>drv' vr'. vq_ring_update_avail drv vr i = Some (drv', vr') \<and> desc vr' = desc vr \<and>
    drv' = drv\<lparr>vq_queued_cnt := vq_queued_cnt drv + 1\<rparr> \<and>
    vq_rel drv' dev vr' (ch\<lparr>ch_avail := ch_avail ch @ [i], ch_drv := ch_drv ch - {i}\<rparr>)"
proof -
  let ?n = "unat (vq_nentries drv)" let ?s = "unat (vq_available_idx dev)"
  have p: "is_pow2 (vq_nentries drv)" using rel by (simp add: vq_rel_def)
  have hold: "ring_holds ?n (avail_ring vr) ?s (ch_avail ch)" using rel by (simp add: vq_rel_def)
  have room: "length (ch_avail ch) < ?n" using chan_room(2) [of ?n ch i] rel i by (simp add: vq_rel_def)
  have idx: "unat (avail_idx vr AND (vq_nentries drv - 1)) = (?s + length (ch_avail ch)) mod ?n"
    using rel pos_mod [OF p] by (simp add: ring_index [OF p] vq_rel_def)
  let ?r = "(avail_ring vr)[(?s + length (ch_avail ch)) mod ?n := i]"
  have "(?s + length (ch_avail ch)) mod ?n < length (avail_ring vr)"
    using hold room by (simp add: ring_holds_def)
  then have "vq_ring_update_avail drv vr i = Some (drv\<lparr>vq_queued_cnt := vq_queued_cnt drv + 1\<rparr>,
      vr\<lparr>avail_ring := ?r, avail_idx := avail_idx vr + 1\<rparr>)"
    by (simp add: vq_ring_update_avail_def avail_stores_def upd_opt_def idx)
  moreover have "ring_holds ?n ?r ?s (ch_avail ch @ [i])" by (rule ring_push [OF hold room])
  moreover have "chan_ok ?n (ch\<lparr>ch_avail := ch_avail ch @ [i], ch_drv := ch_drv ch - {i}\<rparr>)"
    using rel i by (auto simp: vq_rel_def chan_ok_def)
  ultimately show ?thesis using rel by (simp add: vq_rel_def)
qed

lemma used_elem_full [simp]: "(e :: vring_used_elem)\<lparr>ue_id := a, ue_len := b\<rparr> = \<lparr>ue_id = a, ue_len = b\<rparr>"
  by (cases e) simp

lemma update_used_ok:
  assumes rel: "vq_rel drv dev vr ch" and i: "i \<in> ch_drv ch \<union> ch_dev ch"
    and q: "vq_nentries q = vq_nentries drv"
  shows "\<exists>vr'. vq_ring_update_used q vr i len = Some vr' \<and> desc vr' = desc vr \<and>
    vq_rel drv dev vr' (ch\<lparr>ch_used := ch_used ch @ [(i, len)], ch_drv := ch_drv ch - {i},
      ch_dev := ch_dev ch - {i}\<rparr>)"
proof -
  let ?n = "unat (vq_nentries drv)" let ?s = "unat (vq_used_cons_idx drv)"
  let ?e = "\<lparr>ue_id = ucast i, ue_len = len\<rparr>"
  have p: "is_pow2 (vq_nentries drv)" using rel by (simp add: vq_rel_def)
  have hold: "ring_holds ?n (used_ring vr) ?s (map used_elem (ch_used ch))" using rel by (simp add: vq_rel_def)
  have room: "length (map used_elem (ch_used ch)) < ?n"
    using chan_room(2) [of ?n ch i] rel i by (simp add: vq_rel_def)
  have idx: "unat (used_idx vr AND (vq_nentries drv - 1)) = (?s + length (map used_elem (ch_used ch))) mod ?n"
    using rel pos_mod [OF p] by (simp add: ring_index [OF p] vq_rel_def)
  let ?r = "(used_ring vr)[(?s + length (map used_elem (ch_used ch))) mod ?n := ?e]"
  have "(?s + length (map used_elem (ch_used ch))) mod ?n < length (used_ring vr)"
    using hold room by (simp add: ring_holds_def)
  then have "vq_ring_update_used q vr i len =
      Some (vr\<lparr>used_ring := ?r, used_idx := used_idx vr + 1\<rparr>)"
    unfolding vq_ring_update_used_def used_stores_def q Let_def idx by (simp add: nth_opt_def)
  moreover have "ring_holds ?n ?r ?s (map used_elem (ch_used ch) @ [?e])" by (rule ring_push [OF hold room])
  moreover have "chan_ok ?n (ch\<lparr>ch_used := ch_used ch @ [(i, len)], ch_drv := ch_drv ch - {i},
      ch_dev := ch_dev ch - {i}\<rparr>)"
    using rel i by (auto simp: vq_rel_def chan_ok_def)
  ultimately show ?thesis using rel by (simp add: vq_rel_def used_elem_def)
qed


lemma patova_vatopa [simp]: "env_map_patova (env_map_vatopa b) = b"
proof -
  have "unat (ucast (ucast b :: u64) :: ptr) = unat b"
    using word_nat_less_len [of b] by (simp add: unat_ucast_mod unat_ucast_up)
  then show ?thesis unfolding env_map_patova_def env_map_vatopa_def by (metis of_nat_unat_id)
qed

lemma ucast_u16_back [simp]: "(ucast (ucast (i :: u16) :: u32) :: u16) = i"
proof -
  have "unat (ucast (ucast i :: u32) :: u16) = unat i"
    using word_nat_less_len [of i] by (simp add: unat_ucast_mod unat_ucast_up)
  then show ?thesis by (metis of_nat_unat_id)
qed

section \<open>Each operation is a move of one index\<close>

lemma vq_rel_index:
  assumes "vq_rel drv dev vr ch"
    "i \<in> ch_drv ch \<union> ch_dev ch \<union> set (ch_avail ch @ map fst (ch_used ch))"
  shows "unat i < unat (vq_nentries drv)" "unat i < length (desc vr)"
  using assms unfolding vq_rel_def chan_ok_def by auto

lemma add_buffer_ok:
  assumes "vq_rel drv dev vr ch" "i \<in> ch_drv ch"
  shows "\<exists>drv' vr'. virtqueue_add_buffer drv vr i = Some (VQUEUE_SUCCESS, drv', vr') \<and>
    desc vr' = desc vr \<and> vq_nentries drv' = vq_nentries drv \<and>
    vq_rel drv' dev vr' (ch\<lparr>ch_avail := ch_avail ch @ [i], ch_drv := ch_drv ch - {i}\<rparr>)"
  using update_avail_ok [OF assms] by (auto simp: virtqueue_add_buffer_def)

lemma add_consumed_ok:
  assumes "vq_rel drv dev vr ch" "i \<in> ch_dev ch"
  shows "\<exists>vr'. virtqueue_add_consumed_buffer dev vr i len = Some (VQUEUE_SUCCESS, vr') \<and>
    desc vr' = desc vr \<and>
    vq_rel drv dev vr' (ch\<lparr>ch_used := ch_used ch @ [(i, len)], ch_dev := ch_dev ch - {i}\<rparr>)"
proof -
  have "vq_nentries dev = vq_nentries drv" using assms(1) by (simp add: vq_rel_def)
  moreover have "\<not> i > vq_nentries dev"
    using vq_rel_index(1) [OF assms(1), of i] assms(2) calculation by (simp add: word_less_nat_alt)
  moreover have "ch_drv ch - {i} = ch_drv ch" using assms by (auto simp: vq_rel_def chan_ok_def)
  ultimately show ?thesis
    using update_used_ok [OF assms(1), of i dev len] assms(2) by (auto simp: virtqueue_add_consumed_buffer_def)
qed

lemma ring_next:
  assumes "is_pow2 w" "ring_holds (unat w) r (Suc (unat s)) xs"
  shows "ring_holds (unat w) r (unat (s + 1 :: u16)) xs"
proof -
  have "unat (s + 1) mod unat w = Suc (unat s) mod unat w" using pos_mod [OF assms(1), of s 1] by simp
  then show ?thesis using assms(2) ring_holds_start_cong by blast
qed

lemma get_buffer_empty:
  assumes "vq_rel drv dev vr ch" "ch_used ch = []"
  shows "virtqueue_get_buffer drv vr = Some (NULL, None, drv)"
  using assms by (simp add: virtqueue_get_buffer_def vq_rel_def)

lemma get_buffer_ok:
  assumes rel: "vq_rel drv dev vr ch" and u: "ch_used ch = (i, l) # us"
  shows "\<exists>drv'. virtqueue_get_buffer drv vr =
      Some (env_map_patova (vd_addr (desc vr ! unat i)), Some (l, i), drv') \<and>
    vq_nentries drv' = vq_nentries drv \<and>
    vq_rel drv' dev vr (ch\<lparr>ch_used := us, ch_drv := insert i (ch_drv ch)\<rparr>)"
proof -
  let ?n = "unat (vq_nentries drv)" let ?s = "vq_used_cons_idx drv"
  have p: "is_pow2 (vq_nentries drv)" using rel by (simp add: vq_rel_def)
  have "ring_holds ?n (used_ring vr) (unat ?s) (used_elem (i, l) # map used_elem us)"
    using rel u by (simp add: vq_rel_def)
  note R = ring_pop [OF this]
  have len: "length (used_ring vr) = ?n" using R(2) by (simp add: ring_holds_def)
  have i: "unat i < length (desc vr)" using vq_rel_index(2) [OF rel, of i] u by simp
  have ne: "vq_used_cons_idx drv \<noteq> used_idx vr"
    using rel u vq_room(2) [OF rel] idx_eq_iff [of "length (ch_used ch)" ?s] by (simp add: vq_rel_def)
  have slot: "nth_opt (used_ring vr) (unat (?s AND (vq_nentries drv - 1))) = Some (used_elem (i, l))"
    using R(1,3) len by (simp add: nth_opt_def ring_index [OF p])
  let ?drv = "drv\<lparr>vq_used_cons_idx := ?s + 1\<rparr>"
  have "virtqueue_get_buffer drv vr =
      Some (env_map_patova (vd_addr (desc vr ! unat i)), Some (l, i), ?drv)"
    using ne slot i by (simp add: virtqueue_get_buffer_def used_take_def Let_def used_elem_def nth_opt_def)
  moreover have "ring_holds ?n (used_ring vr) (unat (?s + 1)) (map used_elem us)"
    by (rule ring_next [OF p R(2)])
  moreover have "used_idx vr = ?s + 1 + of_nat (length us)" using rel u by (simp add: vq_rel_def)
  moreover have "chan_ok ?n (ch\<lparr>ch_used := us, ch_drv := insert i (ch_drv ch)\<rparr>)"
    using rel u by (auto simp: vq_rel_def chan_ok_def)
  ultimately show ?thesis
    using rel by (simp add: vq_rel_def)
qed

lemma get_available_empty:
  assumes "vq_rel drv dev vr ch" "ch_avail ch = []"
  shows "virtqueue_get_available_buffer dev vr = Some (NULL, None, dev)"
  using assms by (simp add: virtqueue_get_available_buffer_def vq_rel_def)

lemma get_available_ok:
  assumes rel: "vq_rel drv dev vr ch" and u: "ch_avail ch = i # is"
  shows "\<exists>dev'. virtqueue_get_available_buffer dev vr =
      Some (env_map_patova (vd_addr (desc vr ! unat i)), Some (vd_len (desc vr ! unat i), i), dev') \<and>
    vq_nentries dev' = vq_nentries dev \<and>
    vq_rel drv dev' vr (ch\<lparr>ch_avail := is, ch_dev := insert i (ch_dev ch)\<rparr>)"
proof -
  let ?n = "unat (vq_nentries drv)" let ?s = "vq_available_idx dev"
  have p: "is_pow2 (vq_nentries drv)" and q: "vq_nentries dev = vq_nentries drv"
    using rel by (simp_all add: vq_rel_def)
  have "ring_holds ?n (avail_ring vr) (unat ?s) (i # is)"
    using rel u by (simp add: vq_rel_def)
  note R = ring_pop [OF this]
  have len: "length (avail_ring vr) = ?n" using R(2) by (simp add: ring_holds_def)
  have i: "unat i < length (desc vr)" using vq_rel_index(2) [OF rel, of i] u by simp
  have ne: "vq_available_idx dev \<noteq> avail_idx vr"
    using rel u vq_room(1) [OF rel] idx_eq_iff [of "length (ch_avail ch)" ?s] by (simp add: vq_rel_def)
  have slot: "nth_opt (avail_ring vr) (unat (?s AND (vq_nentries dev - 1))) = Some i"
    using R(1,3) len by (simp add: nth_opt_def q ring_index [OF p])
  let ?dev = "dev\<lparr>vq_available_idx := ?s + 1\<rparr>"
  have "virtqueue_get_available_buffer dev vr =
      Some (env_map_patova (vd_addr (desc vr ! unat i)), Some (vd_len (desc vr ! unat i), i), ?dev)"
    using ne slot i by (simp add: virtqueue_get_available_buffer_def avail_take_def Let_def nth_opt_def)
  moreover have "ring_holds ?n (avail_ring vr) (unat (?s + 1)) is"
    by (rule ring_next [OF p R(2)])
  moreover have "avail_idx vr = ?s + 1 + of_nat (length is)" using rel u by (simp add: vq_rel_def)
  moreover have "chan_ok ?n (ch\<lparr>ch_avail := is, ch_dev := insert i (ch_dev ch)\<rparr>)"
    using rel u by (auto simp: vq_rel_def chan_ok_def)
  ultimately show ?thesis
    using rel by (simp add: vq_rel_def)
qed

text \<open>What a kick and the interrupt controls change does not matter for the channel.\<close>

lemma vq_rel_kick: "vq_rel drv dev vr ch \<Longrightarrow> vq_rel (snd (virtqueue_kick drv vr)) dev vr ch"
  by (simp add: vq_rel_def virtqueue_kick_def)

lemma vq_rel_dev_kick: "vq_rel drv dev vr ch \<Longrightarrow> vq_rel drv (snd (virtqueue_kick dev vr)) vr ch"
  by (simp add: vq_rel_def virtqueue_kick_def)

lemma vq_rel_cb:
  "vq_rel drv dev vr ch \<Longrightarrow> vq_rel drv dev (virtqueue_disable_cb q vr) ch"
  "vq_rel drv dev vr ch \<Longrightarrow> vq_rel drv dev (snd (virtqueue_enable_cb q vr)) ch"
  by (simp_all add: vq_rel_def virtqueue_disable_cb_def virtqueue_enable_cb_def
      vq_ring_enable_interrupt_def Let_def)


text \<open>Filling the rings at start-up: the next descriptor gets its buffer and is handed to
  the device, or back to the driver itself.\<close>

definition filled_desc :: "vring \<Rightarrow> u16 \<Rightarrow> ptr \<Rightarrow> u32 \<Rightarrow> vring" where
  "filled_desc vr i buffer len = vr\<lparr>desc := (desc vr)[unat i := (desc vr ! unat i)
     \<lparr>vd_addr := env_map_vatopa buffer, vd_len := len, vd_flags := VRING_DESC_F_WRITE\<rparr>]\<rparr>"

lemma desc_stores_ok:
  "unat i < length (desc vr) \<Longrightarrow> ring_stores (desc_stores i buffer len) vr = Some (filled_desc vr i buffer len)"
  by (simp add: desc_stores_def filled_desc_def)

lemma vq_rel_filled_desc: "vq_rel drv dev vr ch \<Longrightarrow> vq_rel drv dev (filled_desc vr i b len) ch"
  by (simp add: vq_rel_def filled_desc_def)

lemma vq_rel_head: "vq_rel (drv\<lparr>vq_desc_head_idx := i\<rparr>) dev vr ch = vq_rel drv dev vr ch"
  by (simp add: vq_rel_def)

lemma fill_avail_ok:
  assumes rel: "vq_rel drv dev vr ch" and i: "vq_desc_head_idx drv = i" "i \<in> ch_drv ch"
  shows "\<exists>drv' vr'. virtqueue_fill_avail_buffers drv vr buffer len = Some (VQUEUE_SUCCESS, drv', vr') \<and>
    desc vr' = desc (filled_desc vr i buffer len) \<and> vq_desc_head_idx drv' = i + 1 \<and>
    vq_nentries drv' = vq_nentries drv \<and>
    vq_rel drv' dev vr' (ch\<lparr>ch_avail := ch_avail ch @ [i], ch_drv := ch_drv ch - {i}\<rparr>)"
proof -
  have len: "unat i < length (desc vr)" using vq_rel_index(2) [OF rel, of i] i by simp
  have "vq_rel (drv\<lparr>vq_desc_head_idx := i + 1\<rparr>) dev (filled_desc vr i buffer len) ch"
    using rel by (simp add: vq_rel_head vq_rel_filled_desc)
  from update_avail_ok [OF this i(2)] show ?thesis
    using i(1) len by (auto simp: virtqueue_fill_avail_buffers_def desc_stores_ok [OF len] Let_def)
qed

lemma fill_used_ok:
  assumes rel: "vq_rel drv dev vr ch" and i: "vq_desc_head_idx drv = i" "i \<in> ch_drv ch"
    and b: "buffer \<noteq> NULL"
  shows "\<exists>drv' vr'. virtqueue_fill_used_buffers drv vr buffer len = Some (VQUEUE_SUCCESS, drv', vr') \<and>
    desc vr' = desc (filled_desc vr i buffer len) \<and> vq_desc_head_idx drv' = i + 1 \<and>
    vq_nentries drv' = vq_nentries drv \<and>
    vq_rel drv' dev vr' (ch\<lparr>ch_used := ch_used ch @ [(i, len)], ch_drv := ch_drv ch - {i}\<rparr>)"
proof -
  let ?drv = "drv\<lparr>vq_desc_head_idx := i + 1\<rparr>"
  have len: "unat i < length (desc vr)" using vq_rel_index(2) [OF rel, of i] i by simp
  have R: "vq_rel ?drv dev (filled_desc vr i buffer len) ch"
    using rel by (simp add: vq_rel_head vq_rel_filled_desc)
  have "ch_dev ch - {i} = ch_dev ch" using rel i by (auto simp: vq_rel_def chan_ok_def)
  then obtain vr' where "vq_ring_update_used ?drv (filled_desc vr i buffer len) i len = Some vr'"
    "desc vr' = desc (filled_desc vr i buffer len)"
    "vq_rel ?drv dev vr' (ch\<lparr>ch_used := ch_used ch @ [(i, len)], ch_drv := ch_drv ch - {i}\<rparr>)"
    using update_used_ok [OF R, of i ?drv len] i(2) by auto
  then show ?thesis
    using i(1) len b
    by (simp add: virtqueue_fill_used_buffers_def vq_ring_add_buffer_def desc_stores_ok [OF len] Let_def)
qed

section \<open>Both cores at work\<close>

text \<open>What a core is doing: nothing with this ring; it has seen that the other core's index
  moved and will take the entry; or it hands index \<open>i\<close> over and these stores have still to
  reach the memory.\<close>

datatype core_pc = Idle | Looked | Storing u16 "ring_op list"

fun stores_left :: "core_pc \<Rightarrow> ring_op list" where
  "stores_left (Storing i ops) = ops"
| "stores_left Idle = []"
| "stores_left Looked = []"

text \<open>The stores of a call reach the memory in any order, but none passes a barrier.\<close>

inductive next_store :: "ring_op list \<Rightarrow> ring_op \<Rightarrow> ring_op list \<Rightarrow> bool" where
  "next_store (op # ops) op ops"
| "next_store ops op ops' \<Longrightarrow> a \<noteq> Wmb \<Longrightarrow> op \<noteq> Wmb \<Longrightarrow> next_store (a # ops) op (a # ops')"

inductive_simps next_store_simps [simp]:
  "next_store [] op ops'"
  "next_store (a # ops) op ops'"

text \<open>The two cores and the ring. \<open>s_chan\<close> and \<open>s_buf\<close> record what the calls were asked to do:
  which index was handed over or taken, and which buffer a descriptor was filled with.
  \<open>s_live\<close>: the driver has finished filling the rings and the device may use them.\<close>

record vq_sys =
  s_drv :: virtqueue
  s_dev :: virtqueue
  s_ring :: vring
  s_dpc :: core_pc
  s_rpc :: core_pc
  s_live :: bool
  s_chan :: chan
  s_buf :: "u16 \<Rightarrow> ptr \<times> u32"

definition drv_gives :: "u16 \<Rightarrow> chan \<Rightarrow> chan" where
  "drv_gives i ch = ch\<lparr>ch_avail := ch_avail ch @ [i], ch_drv := ch_drv ch - {i}\<rparr>"

definition dev_gives :: "u16 \<Rightarrow> u32 \<Rightarrow> chan \<Rightarrow> chan" where
  "dev_gives i len ch = ch\<lparr>ch_used := ch_used ch @ [(i, len)], ch_dev := ch_dev ch - {i}\<rparr>"

definition drv_fills_used :: "u16 \<Rightarrow> u32 \<Rightarrow> chan \<Rightarrow> chan" where
  "drv_fills_used i len ch = ch\<lparr>ch_used := ch_used ch @ [(i, len)], ch_drv := ch_drv ch - {i}\<rparr>"

definition drv_takes :: "u16 \<Rightarrow> chan \<Rightarrow> chan" where
  "drv_takes i ch = ch\<lparr>ch_used := tl (ch_used ch), ch_drv := insert i (ch_drv ch)\<rparr>"

definition dev_takes :: "u16 \<Rightarrow> chan \<Rightarrow> chan" where
  "dev_takes i ch = ch\<lparr>ch_avail := tl (ch_avail ch), ch_dev := insert i (ch_dev ch)\<rparr>"

lemmas chan_moves = drv_gives_def dev_gives_def drv_fills_used_def drv_takes_def dev_takes_def

text \<open>The steps. A core hands over only what it holds, and one call of a core ends before
  its next one begins; otherwise the steps of the two cores mix freely. Filling the used
  ring is the driver's part of the start-up, when the device is not live.\<close>

inductive vq_step :: "vq_sys \<Rightarrow> vq_sys \<Rightarrow> bool" where
  drv_fill_used: "\<not> s_live s \<Longrightarrow> s_dpc s = Idle \<Longrightarrow> vq_desc_head_idx (s_drv s) = i \<Longrightarrow>
    i \<in> ch_drv (s_chan s) \<Longrightarrow> buffer \<noteq> NULL \<Longrightarrow>
    virtqueue_fill_used_buffers (s_drv s) (s_ring s) buffer len = Some (st, drv, vr) \<Longrightarrow>
    vq_step s (s\<lparr>s_drv := drv, s_ring := vr, s_chan := drv_fills_used i len (s_chan s),
      s_buf := (s_buf s)(i := (buffer, len))\<rparr>)"
| go_live: "vq_step s (s\<lparr>s_live := True\<rparr>)"
| drv_fill_avail: "s_dpc s = Idle \<Longrightarrow> vq_desc_head_idx (s_drv s) = i \<Longrightarrow> i \<in> ch_drv (s_chan s) \<Longrightarrow>
    virtqueue_fill_avail_buffers (s_drv s) (s_ring s) buffer len = Some (st, drv, vr) \<Longrightarrow>
    vq_step s (s\<lparr>s_drv := drv, s_chan := drv_gives i (s_chan s), s_buf := (s_buf s)(i := (buffer, len)),
      s_dpc := Storing i (desc_stores i buffer len @ avail_stores (s_drv s) (s_ring s) i)\<rparr>)"
| drv_put: "s_dpc s = Idle \<Longrightarrow> i \<in> ch_drv (s_chan s) \<Longrightarrow>
    virtqueue_add_buffer (s_drv s) (s_ring s) i = Some (st, drv, vr) \<Longrightarrow>
    vq_step s (s\<lparr>s_drv := drv, s_chan := drv_gives i (s_chan s),
      s_dpc := Storing i (avail_stores (s_drv s) (s_ring s) i)\<rparr>)"
| drv_store: "s_dpc s = Storing i ops \<Longrightarrow> next_store ops op ops' \<Longrightarrow>
    ring_store op (s_ring s) = Some vr \<Longrightarrow>
    vq_step s (s\<lparr>s_ring := vr, s_dpc := Storing i ops'\<rparr>)"
| drv_done: "s_dpc s = Storing i [] \<Longrightarrow> vq_step s (s\<lparr>s_dpc := Idle\<rparr>)"
| drv_look: "s_dpc s = Idle \<Longrightarrow> vq_used_cons_idx (s_drv s) \<noteq> used_idx (s_ring s) \<Longrightarrow>
    vq_step s (s\<lparr>s_dpc := Looked\<rparr>)"
| drv_take: "s_dpc s = Looked \<Longrightarrow> used_take (s_drv s) (s_ring s) = Some (b, Some (l, i), drv) \<Longrightarrow>
    vq_step s (s\<lparr>s_drv := drv, s_dpc := Idle, s_chan := drv_takes i (s_chan s)\<rparr>)"
| dev_put: "s_live s \<Longrightarrow> s_rpc s = Idle \<Longrightarrow> i \<in> ch_dev (s_chan s) \<Longrightarrow>
    virtqueue_add_consumed_buffer (s_dev s) (s_ring s) i len = Some (VQUEUE_SUCCESS, vr) \<Longrightarrow>
    vq_step s (s\<lparr>s_chan := dev_gives i len (s_chan s),
      s_rpc := Storing i (used_stores (s_dev s) (s_ring s) i len)\<rparr>)"
| dev_store: "s_rpc s = Storing i ops \<Longrightarrow> next_store ops op ops' \<Longrightarrow>
    ring_store op (s_ring s) = Some vr \<Longrightarrow>
    vq_step s (s\<lparr>s_ring := vr, s_rpc := Storing i ops'\<rparr>)"
| dev_done: "s_rpc s = Storing i [] \<Longrightarrow> vq_step s (s\<lparr>s_rpc := Idle\<rparr>)"
| dev_look: "s_live s \<Longrightarrow> s_rpc s = Idle \<Longrightarrow> vq_available_idx (s_dev s) \<noteq> avail_idx (s_ring s) \<Longrightarrow>
    vq_step s (s\<lparr>s_rpc := Looked\<rparr>)"
| dev_take: "s_rpc s = Looked \<Longrightarrow> avail_take (s_dev s) (s_ring s) = Some (b, Some (l, i), dev) \<Longrightarrow>
    vq_step s (s\<lparr>s_dev := dev, s_rpc := Idle, s_chan := dev_takes i (s_chan s)\<rparr>)"
| drv_kick: "s_dpc s = Idle \<Longrightarrow> vq_step s (s\<lparr>s_drv := snd (virtqueue_kick (s_drv s) (s_ring s))\<rparr>)"
| dev_kick: "s_rpc s = Idle \<Longrightarrow> vq_step s (s\<lparr>s_dev := snd (virtqueue_kick (s_dev s) (s_ring s))\<rparr>)"
| drv_disable: "vq_step s (s\<lparr>s_ring := virtqueue_disable_cb (s_drv s) (s_ring s)\<rparr>)"
| drv_enable: "vq_step s (s\<lparr>s_ring := snd (virtqueue_enable_cb (s_drv s) (s_ring s))\<rparr>)"
| dev_disable: "vq_step s (s\<lparr>s_ring := virtqueue_disable_cb (s_dev s) (s_ring s)\<rparr>)"
| dev_enable: "vq_step s (s\<lparr>s_ring := snd (virtqueue_enable_cb (s_dev s) (s_ring s))\<rparr>)"

text \<open>Newly created virtqueues of the same power-of-two size on a cleared ring.\<close>

definition vq_start :: "virtqueue \<Rightarrow> virtqueue \<Rightarrow> vring \<Rightarrow> bool" where
  "vq_start drv dev vr \<longleftrightarrow> is_pow2 (vq_nentries drv) \<and> vq_nentries dev = vq_nentries drv \<and>
     vq_used_cons_idx drv = 0 \<and> vq_available_idx dev = 0 \<and> avail_idx vr = 0 \<and> used_idx vr = 0 \<and>
     length (desc vr) = unat (vq_nentries drv) \<and> length (avail_ring vr) = unat (vq_nentries drv) \<and>
     length (used_ring vr) = unat (vq_nentries drv)"

definition buf_in :: "vring \<Rightarrow> u16 \<Rightarrow> ptr \<times> u32" where
  "buf_in vr i = (env_map_patova (vd_addr (desc vr ! unat i)), vd_len (desc vr ! unat i))"

definition sys_start :: "virtqueue \<Rightarrow> virtqueue \<Rightarrow> vring \<Rightarrow> vq_sys" where
  "sys_start drv dev vr = \<lparr>s_drv = drv, s_dev = dev, s_ring = vr, s_dpc = Idle, s_rpc = Idle, s_live = False,
     s_chan = \<lparr>ch_avail = [], ch_used = [], ch_drv = {i. unat i < unat (vq_nentries drv)}, ch_dev = {}\<rparr>,
     s_buf = buf_in vr\<rparr>"

inductive vq_reach :: "vq_sys \<Rightarrow> bool" where
  reach_start: "vq_start drv dev vr \<Longrightarrow> vq_reach (sys_start drv dev vr)"
| reach_step: "vq_reach s \<Longrightarrow> vq_step s s' \<Longrightarrow> vq_reach s'"

section \<open>What the memory holds during a call\<close>

lemma vq_rel_n: "vq_rel drv dev vr c \<Longrightarrow> is_pow2 (vq_nentries drv) \<and> vq_nentries dev = vq_nentries drv"
  by (simp add: vq_rel_def)

text \<open>The slot behind the visible part of a ring.\<close>

lemma avail_slot:
  assumes "vq_rel drv dev vr c"
  shows "unat (avail_idx vr AND (vq_nentries drv - 1)) =
    (unat (vq_available_idx dev) + length (ch_avail c)) mod unat (vq_nentries drv)"
  using assms pos_mod [of "vq_nentries drv"] ring_index [of "vq_nentries drv"] by (simp add: vq_rel_def)

lemma used_slot:
  assumes "vq_rel drv dev vr c"
  shows "unat (used_idx vr AND (vq_nentries drv - 1)) =
    (unat (vq_used_cons_idx drv) + length (ch_used c)) mod unat (vq_nentries drv)"
  using assms pos_mod [of "vq_nentries drv"] ring_index [of "vq_nentries drv"] by (simp add: vq_rel_def)

lemma slot_bound:
  assumes "vq_rel drv dev vr c" "i \<in> ch_drv c \<union> ch_dev c"
  shows "length (ch_avail c) < unat (vq_nentries drv)" "length (ch_used c) < unat (vq_nentries drv)"
    "unat (avail_idx vr AND (vq_nentries drv - 1)) < length (avail_ring vr)"
    "unat (used_idx vr AND (vq_nentries drv - 1)) < length (used_ring vr)"
proof -
  show l: "length (ch_avail c) < unat (vq_nentries drv)" "length (ch_used c) < unat (vq_nentries drv)"
    using chan_room(2) [of "unat (vq_nentries drv)" c i] assms by (simp_all add: vq_rel_def)
  have "length (avail_ring vr) = unat (vq_nentries drv)" "length (used_ring vr) = unat (vq_nentries drv)"
    using assms(1) by (simp_all add: vq_rel_def ring_holds_def)
  then show "unat (avail_idx vr AND (vq_nentries drv - 1)) < length (avail_ring vr)"
    "unat (used_idx vr AND (vq_nentries drv - 1)) < length (used_ring vr)"
    using l unfolding avail_slot [OF assms(1)] used_slot [OF assms(1)] by simp_all
qed

text \<open>Stores behind the visible part leave the channel as it is; the index then extends it.\<close>

lemma vq_rel_avail_entry:
  assumes "vq_rel drv dev vr c" "i \<in> ch_drv c"
  shows "vq_rel drv dev (vr\<lparr>avail_ring := (avail_ring vr)
    [unat (avail_idx vr AND (vq_nentries drv - 1)) := x]\<rparr>) c"
  using assms(1) slot_bound(1) [OF assms(1), of i] assms(2) unfolding avail_slot [OF assms(1)]
  by (simp add: vq_rel_def ring_slot_free)

lemma vq_rel_avail_inc:
  assumes "vq_rel drv dev vr c" "i \<in> ch_drv c"
    "avail_ring vr ! unat (avail_idx vr AND (vq_nentries drv - 1)) = i"
  shows "vq_rel drv dev (vr\<lparr>avail_idx := avail_idx vr + 1\<rparr>) (drv_gives i c)"
proof -
  have "ring_holds (unat (vq_nentries drv)) (avail_ring vr) (unat (vq_available_idx dev)) (ch_avail c @ [i])"
    using assms slot_bound(1) [OF assms(1), of i] unfolding avail_slot [OF assms(1)]
    by (intro ring_snoc) (simp_all add: vq_rel_def)
  moreover have "chan_ok (unat (vq_nentries drv)) (drv_gives i c)"
    using assms(1,2) by (auto simp: vq_rel_def chan_ok_def drv_gives_def)
  ultimately show ?thesis using assms(1) by (simp add: vq_rel_def drv_gives_def)
qed

lemma vq_rel_used_entry:
  assumes "vq_rel drv dev vr c" "i \<in> ch_dev c"
  shows "vq_rel drv dev (vr\<lparr>used_ring := (used_ring vr)
    [unat (used_idx vr AND (vq_nentries drv - 1)) := x]\<rparr>) c"
proof -
  have "length (map used_elem (ch_used c)) < unat (vq_nentries drv)"
    using slot_bound(2) [OF assms(1), of i] assms(2) by simp
  then show ?thesis
    using assms(1) ring_slot_free [of "unat (vq_nentries drv)" "used_ring vr"
      "unat (vq_used_cons_idx drv)" "map used_elem (ch_used c)" x]
    unfolding used_slot [OF assms(1)] by (simp add: vq_rel_def)
qed

lemma vq_rel_used_inc:
  assumes "vq_rel drv dev vr c" "i \<in> ch_dev c"
    "used_ring vr ! unat (used_idx vr AND (vq_nentries drv - 1)) = used_elem (i, len)"
  shows "vq_rel drv dev (vr\<lparr>used_idx := used_idx vr + 1\<rparr>) (dev_gives i len c)"
proof -
  have "length (map used_elem (ch_used c)) < unat (vq_nentries drv)"
    using slot_bound(2) [OF assms(1), of i] assms(2) by simp
  then have "ring_holds (unat (vq_nentries drv)) (used_ring vr) (unat (vq_used_cons_idx drv))
      (map used_elem (ch_used c) @ [used_elem (i, len)])"
    using assms unfolding used_slot [OF assms(1)]
    by (intro ring_snoc) (simp_all add: vq_rel_def)
  moreover have "chan_ok (unat (vq_nentries drv)) (dev_gives i len c)"
    using assms(1,2) by (auto simp: vq_rel_def chan_ok_def dev_gives_def)
  ultimately show ?thesis using assms(1) by (simp add: vq_rel_def dev_gives_def)
qed

fun desc_op :: "u16 \<Rightarrow> ring_op \<Rightarrow> bool" where
  "desc_op i (Desc_addr j a) = (j = i)"
| "desc_op i (Desc_len j l) = (j = i)"
| "desc_op i (Desc_flags j f) = (j = i)"
| "desc_op i op = False"

lemma desc_op_store:
  assumes "unat i < length (desc vr)" "desc_op i op"
  shows "\<exists>d. ring_store op vr = Some (vr\<lparr>desc := (desc vr)[unat i := d]\<rparr>)"
  using assms by (cases op) auto

lemma vq_rel_desc: "vq_rel drv dev vr c \<Longrightarrow> vq_rel drv dev (vr\<lparr>desc := (desc vr)[k := d]\<rparr>) c"
  by (simp add: vq_rel_def)

text \<open>The stores of one hand-over that are left: some of the entry's, the barrier and the
  index, or the index alone.\<close>

definition storing :: "ring_op set \<Rightarrow> ring_op \<Rightarrow> ring_op list \<Rightarrow> bool" where
  "storing req inc ops \<longleftrightarrow>
     (\<exists>front. set front \<subseteq> req \<and> ops = front @ [Wmb, inc]) \<or> ops = [inc]"

lemma next_store_front:
  "next_store (front @ [Wmb, inc]) op ops' \<Longrightarrow> Wmb \<notin> set front \<Longrightarrow>
   front = [] \<and> op = Wmb \<and> ops' = [inc] \<or>
   op \<in> set front \<and> (\<exists>f. ops' = f @ [Wmb, inc] \<and> set front = insert op (set f))"
proof (induction front arbitrary: ops')
  case (Cons a front)
  from Cons.prems(1) consider "op = a" "ops' = front @ [Wmb, inc]"
    | ops'' where "next_store (front @ [Wmb, inc]) op ops''" "ops' = a # ops''" "op \<noteq> Wmb"
    by auto
  then show ?case
  proof cases
    case 2
    with Cons obtain f where "op \<in> set front" "ops'' = f @ [Wmb, inc]" "set front = insert op (set f)"
      by auto
    then show ?thesis using 2 by (intro disjI2 conjI exI [of _ "a # f"]) auto
  qed auto
qed auto

lemma storing_next:
  assumes "storing req inc ops" "next_store ops op ops'" "Wmb \<notin> req" "inc \<notin> req"
  shows "op \<in> req \<and> storing req inc ops' \<and> set ops = insert op (set ops') \<or>
    op = Wmb \<and> storing req inc ops' \<and> set ops \<inter> req = {} \<and> set ops' \<inter> req = {} \<or>
    op = inc \<and> ops = [inc] \<and> ops' = []"
  using assms(1) [unfolded storing_def]
proof (elim disjE exE conjE)
  fix front assume f: "set front \<subseteq> req" "ops = front @ [Wmb, inc]"
  have "Wmb \<notin> set front" using f assms(3) by auto
  from next_store_front [OF assms(2) [unfolded f(2)] this] show ?thesis
  proof (elim disjE exE conjE)
    assume "front = []" "op = Wmb" "ops' = [inc]"
    then show ?thesis using f(2) assms(3,4) by (intro disjI2 disjI1) (simp add: storing_def)
  next
    fix g assume g: "op \<in> set front" "ops' = g @ [Wmb, inc]" "set front = insert op (set g)"
    then have "storing req inc ops'" using f(1) unfolding storing_def by blast
    then show ?thesis using f g by (intro disjI1) auto
  qed
next
  assume "ops = [inc]"
  then show ?thesis using assms(2) by simp
qed

text \<open>How the memory's channel \<open>c\<close> and the recorded one differ while a core hands index
  \<open>i\<close> over: the memory does not have it yet, and every store that is not left has arrived.\<close>

definition avail_data :: "nat \<Rightarrow> u16 \<Rightarrow> ptr \<times> u32 \<Rightarrow> ring_op set" where
  "avail_data k i b = insert (Avail_entry k i) (set (desc_stores i (fst b) (snd b)))"

definition drv_rel :: "core_pc \<Rightarrow> nat \<Rightarrow> (u16 \<Rightarrow> ptr \<times> u32) \<Rightarrow> vring \<Rightarrow> chan \<Rightarrow> chan \<Rightarrow> bool" where
  "drv_rel pc k buf vr c ch \<longleftrightarrow>
     (if Avail_inc \<in> set (stores_left pc)
      then \<exists>i ops. pc = Storing i ops \<and> i \<in> ch_drv c \<and>
        ch_avail ch = ch_avail c @ [i] \<and> ch_drv ch = ch_drv c - {i} \<and>
        storing (avail_data k i (buf i)) Avail_inc ops \<and>
        (Avail_entry k i \<in> set ops \<or> avail_ring vr ! k = i)
      else stores_left pc = [] \<and> ch_avail ch = ch_avail c \<and> ch_drv ch = ch_drv c \<and>
        (pc = Looked \<longrightarrow> ch_used c \<noteq> []))"

definition dev_rel :: "core_pc \<Rightarrow> nat \<Rightarrow> vring \<Rightarrow> chan \<Rightarrow> chan \<Rightarrow> bool" where
  "dev_rel pc k vr c ch \<longleftrightarrow>
     (if Used_inc \<in> set (stores_left pc)
      then \<exists>i len ops. pc = Storing i ops \<and> i \<in> ch_dev c \<and>
        ch_used ch = ch_used c @ [(i, len)] \<and> ch_dev ch = ch_dev c - {i} \<and>
        storing {Used_id k (ucast i), Used_len k len} Used_inc ops \<and>
        (Used_id k (ucast i) \<in> set ops \<or> ue_id (used_ring vr ! k) = ucast i) \<and>
        (Used_len k len \<in> set ops \<or> ue_len (used_ring vr ! k) = len)
      else stores_left pc = [] \<and> ch_used ch = ch_used c \<and> ch_dev ch = ch_dev c \<and>
        (pc = Looked \<longrightarrow> ch_avail c \<noteq> []))"

definition desc_rel :: "ring_op set \<Rightarrow> vring \<Rightarrow> (u16 \<Rightarrow> ptr \<times> u32) \<Rightarrow> bool" where
  "desc_rel left vr buf \<longleftrightarrow> (\<forall>i. unat i < length (desc vr) \<longrightarrow>
     (Desc_addr i (env_map_vatopa (fst (buf i))) \<in> left \<or>
        env_map_patova (vd_addr (desc vr ! unat i)) = fst (buf i)) \<and>
     (Desc_len i (snd (buf i)) \<in> left \<or> vd_len (desc vr ! unat i) = snd (buf i)))"

abbreviation (input) avail_pos :: "virtqueue \<Rightarrow> vring \<Rightarrow> nat" where
  "avail_pos vq vr \<equiv> unat (avail_idx vr AND (vq_nentries vq - 1))"

abbreviation (input) used_pos :: "virtqueue \<Rightarrow> vring \<Rightarrow> nat" where
  "used_pos vq vr \<equiv> unat (used_idx vr AND (vq_nentries vq - 1))"

definition sys_rel :: "vq_sys \<Rightarrow> chan \<Rightarrow> bool" where
  "sys_rel s c \<longleftrightarrow> vq_rel (s_drv s) (s_dev s) (s_ring s) c \<and>
     drv_rel (s_dpc s) (avail_pos (s_drv s) (s_ring s)) (s_buf s) (s_ring s) c (s_chan s) \<and>
     dev_rel (s_rpc s) (used_pos (s_drv s) (s_ring s)) (s_ring s) c (s_chan s) \<and>
     desc_rel (set (stores_left (s_dpc s))) (s_ring s) (s_buf s) \<and>
     (s_live s \<or> s_rpc s = Idle)"

lemma desc_stores_op: "op \<in> set (desc_stores i b l) \<Longrightarrow> desc_op i op"
  by (auto simp: desc_stores_def)

lemma desc_rel_store:
  assumes "desc_rel left vr buf" "op \<in> set (desc_stores i (fst (buf i)) (snd (buf i)))"
    "ring_store op vr = Some vr'" "left = insert op left'"
  shows "desc_rel left' vr' buf"
proof -
  have d: "desc_rel (insert op left') vr buf" using assms(1,4) by simp
  obtain d where i: "unat i < length (desc vr)" and vr': "vr' = vr\<lparr>desc := (desc vr)[unat i := d]\<rparr>"
    using assms(2,3) by (auto simp: desc_stores_def nth_opt_def split: if_splits)
  have other: "desc vr' ! unat j = desc vr ! unat j" if "j \<noteq> i" for j :: u16
    using that by (simp add: vr' word_unat_eq_iff)
  show ?thesis
    unfolding desc_rel_def
  proof (intro allI impI)
    fix j :: u16 assume "unat j < length (desc vr')"
    then have j: "unat j < length (desc vr)" by (simp add: vr')
    note D = d [unfolded desc_rel_def, rule_format, OF j]
    show "(Desc_addr j (env_map_vatopa (fst (buf j))) \<in> left' \<or>
        env_map_patova (vd_addr (desc vr' ! unat j)) = fst (buf j)) \<and>
      (Desc_len j (snd (buf j)) \<in> left' \<or> vd_len (desc vr' ! unat j) = snd (buf j))"
    proof (cases "j = i")
      case True
      consider "op = Desc_addr i (env_map_vatopa (fst (buf i)))" | "op = Desc_len i (snd (buf i))"
        | "op = Desc_flags i VRING_DESC_F_WRITE"
        using assms(2) by (auto simp: desc_stores_def)
      then show ?thesis using D assms(3) i True by cases auto
    next
      case False
      then show ?thesis using D other [OF False] desc_stores_op [OF assms(2)] by auto
    qed
  qed
qed

lemma storing_sub: "storing req inc ops \<Longrightarrow> set ops \<subseteq> req \<union> {Wmb, inc}"
  by (auto simp: storing_def)

lemma desc_rel_mono:
  assumes "desc_rel left vr buf" "desc vr' = desc vr" "\<And>op i. op \<in> left \<Longrightarrow> desc_op i op \<Longrightarrow> op \<in> left'"
  shows "desc_rel left' vr' buf"
proof -
  have "Desc_addr i a \<in> left \<Longrightarrow> Desc_addr i a \<in> left'" "Desc_len i l \<in> left \<Longrightarrow> Desc_len i l \<in> left'" for i a l
    using assms(3) [of _ i] by simp_all
  then show ?thesis using assms(1) unfolding desc_rel_def assms(2) by blast
qed

lemma drv_rel_storing:
  assumes "drv_rel (Storing i ops) k buf vr c ch" "next_store ops op ops'"
  shows "i \<in> ch_drv c" "ch_avail ch = ch_avail c @ [i]" "ch_drv ch = ch_drv c - {i}"
    "Avail_inc \<in> set ops" "Avail_entry k i \<in> set ops \<or> avail_ring vr ! k = i"
    "op \<in> avail_data k i (buf i) \<and>
       storing (avail_data k i (buf i)) Avail_inc ops' \<and> set ops = insert op (set ops') \<or>
     op = Wmb \<and> storing (avail_data k i (buf i)) Avail_inc ops' \<and>
       set ops \<inter> avail_data k i (buf i) = {} \<and>
       set ops' \<inter> avail_data k i (buf i) = {} \<or>
     op = Avail_inc \<and> ops = [Avail_inc] \<and> ops' = []"
proof -
  have "ops \<noteq> []" using assms(2) by auto
  then have r: "Avail_inc \<in> set ops" "i \<in> ch_drv c" "ch_avail ch = ch_avail c @ [i]"
    "ch_drv ch = ch_drv c - {i}" "storing (avail_data k i (buf i)) Avail_inc ops"
    "Avail_entry k i \<in> set ops \<or> avail_ring vr ! k = i"
    using assms(1) by (auto simp: drv_rel_def split: if_splits)
  show "i \<in> ch_drv c" "ch_avail ch = ch_avail c @ [i]" "ch_drv ch = ch_drv c - {i}"
    "Avail_inc \<in> set ops" "Avail_entry k i \<in> set ops \<or> avail_ring vr ! k = i" by (fact r)+
  show "op \<in> avail_data k i (buf i) \<and>
       storing (avail_data k i (buf i)) Avail_inc ops' \<and> set ops = insert op (set ops') \<or>
     op = Wmb \<and> storing (avail_data k i (buf i)) Avail_inc ops' \<and>
       set ops \<inter> avail_data k i (buf i) = {} \<and>
       set ops' \<inter> avail_data k i (buf i) = {} \<or>
     op = Avail_inc \<and> ops = [Avail_inc] \<and> ops' = []"
    by (rule storing_next [OF r(5) assms(2)]) (simp_all add: avail_data_def desc_stores_def)
qed

lemma storing_inc: "storing req inc ops \<Longrightarrow> inc \<in> set ops"
  by (auto simp: storing_def)

lemma drv_store_rel:
  assumes s: "sys_rel s c" "s_dpc s = Storing i ops" "next_store ops op ops'"
  shows "\<exists>vr c'. ring_store op (s_ring s) = Some vr \<and> sys_rel (s\<lparr>s_ring := vr, s_dpc := Storing i ops'\<rparr>) c'"
proof -
  let ?k = "avail_pos (s_drv s) (s_ring s)" and ?r = "s_ring s"
  have rel: "vq_rel (s_drv s) (s_dev s) ?r c" and dr: "drv_rel (Storing i ops) ?k (s_buf s) ?r c (s_chan s)"
    and de: "dev_rel (s_rpc s) (used_pos (s_drv s) ?r) ?r c (s_chan s)"
    and b: "desc_rel (set ops) ?r (s_buf s)" and lv: "s_live s \<or> s_rpc s = Idle"
    using s(1,2) by (simp_all add: sys_rel_def)
  note D = drv_rel_storing [OF dr s(3)]
  note i = D(1)
  have "storing (avail_data ?k i (s_buf s i)) Avail_inc ops"
    using dr D(4) by (simp add: drv_rel_def)
  note sub = storing_sub [OF this]
  from D(6) show ?thesis
  proof (elim disjE conjE)
    assume op: "op \<in> avail_data ?k i (s_buf s i)"
      and st: "storing (avail_data ?k i (s_buf s i)) Avail_inc ops'"
      and ops: "set ops = insert op (set ops')"
    from op consider "op = Avail_entry ?k i" | "op \<in> set (desc_stores i (fst (s_buf s i)) (snd (s_buf s i)))"
      by (auto simp: avail_data_def)
    then show ?thesis
    proof cases
      case 1
      let ?vr = "?r\<lparr>avail_ring := (avail_ring ?r)[?k := i]\<rparr>"
      have k: "?k < length (avail_ring ?r)" using slot_bound(3) [OF rel, of i] i by simp
      have "desc_rel (set ops') ?vr (s_buf s)"
        by (rule desc_rel_mono [OF b]) (use ops 1 in auto)
      then have "sys_rel (s\<lparr>s_ring := ?vr, s_dpc := Storing i ops'\<rparr>) c"
        using vq_rel_avail_entry [OF rel i] i D(2,3) st storing_inc [OF st] k de lv
        by (simp add: sys_rel_def drv_rel_def dev_rel_def)
      then show ?thesis using 1 k by (intro exI [of _ ?vr] exI [of _ c]) simp
    next
      case 2
      have "unat i < length (desc ?r)" using vq_rel_index(2) [OF rel, of i] i by simp
      then obtain d where d: "ring_store op ?r = Some (?r\<lparr>desc := (desc ?r)[unat i := d]\<rparr>)"
        using desc_op_store desc_stores_op [OF 2] by blast
      let ?vr = "?r\<lparr>desc := (desc ?r)[unat i := d]\<rparr>"
      have "Avail_entry ?k i \<in> set ops' \<or> avail_ring ?vr ! ?k = i" using D(5) ops desc_stores_op [OF 2] by auto
      then have "sys_rel (s\<lparr>s_ring := ?vr, s_dpc := Storing i ops'\<rparr>) c"
        using vq_rel_desc [OF rel] i D(2,3) st storing_inc [OF st] de lv desc_rel_store [OF b 2 d ops]
        by (simp add: sys_rel_def drv_rel_def dev_rel_def)
      then show ?thesis using d by blast
    qed
  next
    assume op: "op = Wmb" and st: "storing (avail_data ?k i (s_buf s i)) Avail_inc ops'"
      and no: "set ops \<inter> avail_data ?k i (s_buf s i) = {}"
    have "desc_rel (set ops') ?r (s_buf s)" by (rule desc_rel_mono [OF b])
        (use no sub in \<open>auto simp: avail_data_def\<close>)
    moreover have e: "avail_ring ?r ! ?k = i" using D(5) no by (auto simp: avail_data_def)
    ultimately have "sys_rel (s\<lparr>s_dpc := Storing i ops'\<rparr>) c"
      using rel i D(2,3) e st storing_inc [OF st] de lv by (simp add: sys_rel_def drv_rel_def)
    then show ?thesis using op by (intro exI [of _ ?r] exI [of _ c]) simp
  next
    assume op: "op = Avail_inc" and ops: "ops = [Avail_inc]" "ops' = []"
    let ?vr = "?r\<lparr>avail_idx := avail_idx ?r + 1\<rparr>"
    have "desc_rel {} ?vr (s_buf s)" by (rule desc_rel_mono [OF b]) (use ops in auto)
    moreover have "vq_rel (s_drv s) (s_dev s) ?vr (drv_gives i c)"
      using vq_rel_avail_inc [OF rel i] D(5) ops by simp
    moreover have "dev_rel (s_rpc s) (used_pos (s_drv s) ?r) ?vr (drv_gives i c) (s_chan s)"
      using de by (simp add: dev_rel_def drv_gives_def)
    ultimately have "sys_rel (s\<lparr>s_ring := ?vr, s_dpc := Storing i []\<rparr>) (drv_gives i c)"
      using D(2,3) lv by (simp add: sys_rel_def drv_rel_def drv_gives_def)
    then show ?thesis using op ops by (intro exI [of _ ?vr] exI [of _ "drv_gives i c"]) simp
  qed
qed

lemma dev_rel_storing:
  assumes "dev_rel (Storing i ops) k vr c ch" "next_store ops op ops'"
  shows "\<exists>len. i \<in> ch_dev c \<and> ch_used ch = ch_used c @ [(i, len)] \<and> ch_dev ch = ch_dev c - {i} \<and>
    Used_inc \<in> set ops \<and> storing {Used_id k (ucast i), Used_len k len} Used_inc ops \<and>
    (Used_id k (ucast i) \<in> set ops \<or> ue_id (used_ring vr ! k) = ucast i) \<and>
    (Used_len k len \<in> set ops \<or> ue_len (used_ring vr ! k) = len)"
proof -
  have "ops \<noteq> []" using assms(2) by auto
  then show ?thesis using assms(1) by (auto simp: dev_rel_def split: if_splits)
qed

lemma dev_store_rel:
  assumes s: "sys_rel s c" "s_rpc s = Storing i ops" "next_store ops op ops'"
  shows "\<exists>vr c'. ring_store op (s_ring s) = Some vr \<and> sys_rel (s\<lparr>s_ring := vr, s_rpc := Storing i ops'\<rparr>) c'"
proof -
  let ?k = "used_pos (s_drv s) (s_ring s)" and ?r = "s_ring s"
  have rel: "vq_rel (s_drv s) (s_dev s) ?r c" and de: "dev_rel (Storing i ops) ?k ?r c (s_chan s)"
    and dr: "drv_rel (s_dpc s) (avail_pos (s_drv s) ?r) (s_buf s) ?r c (s_chan s)"
    and b: "desc_rel (set (stores_left (s_dpc s))) ?r (s_buf s)" and lv: "s_live s"
    using s(1,2) by (simp_all add: sys_rel_def)
  obtain len where D: "i \<in> ch_dev c" "ch_used (s_chan s) = ch_used c @ [(i, len)]"
    "ch_dev (s_chan s) = ch_dev c - {i}" "Used_inc \<in> set ops"
    "storing {Used_id ?k (ucast i), Used_len ?k len} Used_inc ops"
    "Used_id ?k (ucast i) \<in> set ops \<or> ue_id (used_ring ?r ! ?k) = ucast i"
    "Used_len ?k len \<in> set ops \<or> ue_len (used_ring ?r ! ?k) = len"
    using dev_rel_storing [OF de s(3)] by blast
  have k: "?k < length (used_ring ?r)" using slot_bound(4) [OF rel, of i] D(1) by simp
  have set_slot: "sys_rel (s\<lparr>s_ring := ?r\<lparr>used_ring := (used_ring ?r)[?k := e]\<rparr>, s_rpc := Storing i ops'\<rparr>) c"
    if "Used_id ?k (ucast i) \<in> set ops' \<or> ue_id e = ucast i" "Used_len ?k len \<in> set ops' \<or> ue_len e = len"
      "storing {Used_id ?k (ucast i), Used_len ?k len} Used_inc ops'" for e
  proof -
    have "desc_rel (set (stores_left (s_dpc s))) (?r\<lparr>used_ring := (used_ring ?r)[?k := e]\<rparr>) (s_buf s)"
      by (rule desc_rel_mono [OF b]) simp_all
    then show ?thesis
      using that storing_inc [OF that(3)] vq_rel_used_entry [OF rel D(1), of e] D(1,2,3) dr lv k
      by (simp add: sys_rel_def drv_rel_def dev_rel_def)
  qed
  have "Wmb \<notin> {Used_id ?k (ucast i), Used_len ?k len}" "Used_inc \<notin> {Used_id ?k (ucast i), Used_len ?k len}"
    by simp_all
  from storing_next [OF D(5) s(3) this] show ?thesis
  proof (elim disjE conjE)
    assume op: "op \<in> {Used_id ?k (ucast i), Used_len ?k len}" "set ops = insert op (set ops')"
      and st: "storing {Used_id ?k (ucast i), Used_len ?k len} Used_inc ops'"
    let ?e = "used_ring ?r ! ?k"
    from op(1) consider "op = Used_id ?k (ucast i)" | "op = Used_len ?k len" by auto
    then show ?thesis
    proof cases
      case 1
      have "Used_len ?k len \<in> set ops' \<or> ue_len ?e = len" using D(7) op(2) 1 by auto
      then show ?thesis using set_slot [of "?e\<lparr>ue_id := ucast i\<rparr>"] st k 1 by auto
    next
      case 2
      have "Used_id ?k (ucast i) \<in> set ops' \<or> ue_id ?e = ucast i" using D(6) op(2) 2 by auto
      then show ?thesis using set_slot [of "?e\<lparr>ue_len := len\<rparr>"] st k 2 by auto
    qed
  next
    assume op: "op = Wmb" and st: "storing {Used_id ?k (ucast i), Used_len ?k len} Used_inc ops'"
      and no: "set ops \<inter> {Used_id ?k (ucast i), Used_len ?k len} = {}"
    then have "ue_id (used_ring ?r ! ?k) = ucast i" "ue_len (used_ring ?r ! ?k) = len" using D(6,7) by auto
    then show ?thesis
      using set_slot [of "used_ring ?r ! ?k"] st op by auto
  next
    assume op: "op = Used_inc" and ops: "ops = [Used_inc]" "ops' = []"
    let ?vr = "?r\<lparr>used_idx := used_idx ?r + 1\<rparr>"
    have "used_ring ?r ! ?k = used_elem (i, len)"
      using D(6,7) ops by (cases "used_ring ?r ! ?k") (simp add: used_elem_def)
    from vq_rel_used_inc [OF rel D(1) this]
    have "vq_rel (s_drv s) (s_dev s) ?vr (dev_gives i len c)" .
    moreover have "desc_rel (set (stores_left (s_dpc s))) ?vr (s_buf s)"
      by (rule desc_rel_mono [OF b]) simp_all
    moreover have "drv_rel (s_dpc s) (avail_pos (s_drv s) ?r) (s_buf s) ?vr (dev_gives i len c) (s_chan s)"
      using dr by (simp add: drv_rel_def dev_gives_def)
    ultimately have "sys_rel (s\<lparr>s_ring := ?vr, s_rpc := Storing i []\<rparr>) (dev_gives i len c)"
      using D(2,3) lv by (simp add: sys_rel_def dev_rel_def dev_gives_def)
    then show ?thesis using op ops by (intro exI [of _ ?vr] exI [of _ "dev_gives i len c"]) simp
  qed
qed

text \<open>The calls. A put keeps the memory as it is and sets the core storing.\<close>

lemma drv_idle:
  assumes "sys_rel s c" "stores_left (s_dpc s) = []"
  shows "ch_avail (s_chan s) = ch_avail c" "ch_drv (s_chan s) = ch_drv c"
  using assms by (simp_all add: sys_rel_def drv_rel_def)

lemma dev_idle:
  assumes "sys_rel s c" "stores_left (s_rpc s) = []"
  shows "ch_used (s_chan s) = ch_used c" "ch_dev (s_chan s) = ch_dev c"
  using assms by (simp_all add: sys_rel_def dev_rel_def)

lemma storing_avail:
  "storing (avail_data (avail_pos vq vr) i b) Avail_inc (avail_stores vq vr i)"
  "storing (avail_data (avail_pos vq vr) i b) Avail_inc (desc_stores i (fst b) (snd b) @ avail_stores vq vr i)"
  "storing {Used_id (used_pos vq vr) (ucast i), Used_len (used_pos vq vr) len} Used_inc (used_stores vq vr i len)"
proof -
  show "storing (avail_data (avail_pos vq vr) i b) Avail_inc (avail_stores vq vr i)"
    unfolding storing_def avail_data_def avail_stores_def
    by (intro disjI1 exI [of _ "[Avail_entry (avail_pos vq vr) i]"]) simp
  show "storing (avail_data (avail_pos vq vr) i b) Avail_inc (desc_stores i (fst b) (snd b) @ avail_stores vq vr i)"
    unfolding storing_def avail_data_def avail_stores_def
    by (intro disjI1 exI [of _ "desc_stores i (fst b) (snd b) @ [Avail_entry (avail_pos vq vr) i]"]) simp
  show "storing {Used_id (used_pos vq vr) (ucast i), Used_len (used_pos vq vr) len} Used_inc (used_stores vq vr i len)"
    unfolding storing_def used_stores_def Let_def
    by (intro disjI1 exI [of _ "[Used_id (used_pos vq vr) (ucast i), Used_len (used_pos vq vr) len]"]) simp
qed

lemma drv_put_rel:
  assumes "sys_rel s c" "s_dpc s = Idle" "i \<in> ch_drv (s_chan s)"
    "ops = (if filled then desc_stores i (fst b) (snd b) else []) @ avail_stores (s_drv s) (s_ring s) i"
    "buf = (if filled then (s_buf s)(i := b) else s_buf s)"
    "vq_rel drv (s_dev s) (s_ring s) c" "vq_nentries drv = vq_nentries (s_drv s)"
  shows "sys_rel (s\<lparr>s_drv := drv, s_chan := drv_gives i (s_chan s), s_buf := buf, s_dpc := Storing i ops\<rparr>) c"
proof -
  have "storing (avail_data (avail_pos (s_drv s) (s_ring s)) i (buf i)) Avail_inc ops"
    unfolding assms(4,5) using storing_avail(1,2) by simp
  moreover have "Avail_entry (avail_pos (s_drv s) (s_ring s)) i \<in> set ops"
    unfolding assms(4) by (simp add: avail_stores_def)
  moreover have "desc_rel (set ops) (s_ring s) buf"
  proof -
    have "desc_rel {} (s_ring s) (s_buf s)" using assms(1,2) by (simp add: sys_rel_def)
    then show ?thesis unfolding assms(4,5) by (auto simp: desc_rel_def desc_stores_def)
  qed
  moreover have "dev_rel (s_rpc s) (used_pos drv (s_ring s)) (s_ring s) c (drv_gives i (s_chan s))"
    using assms(1,7) by (simp add: sys_rel_def dev_rel_def drv_gives_def)
  ultimately show ?thesis
    using assms(1,3,6,7) drv_idle [OF assms(1)] assms(2) storing_inc
    by (simp add: sys_rel_def drv_rel_def drv_gives_def)
qed

lemma dev_put_rel:
  assumes "sys_rel s c" "s_rpc s = Idle" "i \<in> ch_dev (s_chan s)" "s_live s"
  shows "sys_rel (s\<lparr>s_chan := dev_gives i len (s_chan s),
    s_rpc := Storing i (used_stores (s_dev s) (s_ring s) i len)\<rparr>) c"
proof -
  have n: "vq_nentries (s_dev s) = vq_nentries (s_drv s)" using assms(1) by (simp add: sys_rel_def vq_rel_def)
  have "storing {Used_id (used_pos (s_drv s) (s_ring s)) (ucast i), Used_len (used_pos (s_drv s) (s_ring s)) len}
      Used_inc (used_stores (s_dev s) (s_ring s) i len)"
    using storing_avail(3) [where vq = "s_dev s"] by (simp add: n)
  moreover have "Used_id (used_pos (s_drv s) (s_ring s)) (ucast i) \<in> set (used_stores (s_dev s) (s_ring s) i len)"
    "Used_len (used_pos (s_drv s) (s_ring s)) len \<in> set (used_stores (s_dev s) (s_ring s) i len)"
    by (simp_all add: used_stores_def n Let_def)
  moreover have "drv_rel (s_dpc s) (avail_pos (s_drv s) (s_ring s)) (s_buf s) (s_ring s) c (dev_gives i len (s_chan s))"
    using assms(1) by (simp add: sys_rel_def drv_rel_def dev_gives_def)
  ultimately show ?thesis
    using assms dev_idle [OF assms(1)] storing_inc
    by (simp add: sys_rel_def dev_rel_def dev_gives_def)
qed

lemma used_take_ok:
  assumes "vq_rel drv dev vr c" "ch_used c = (i, l) # us"
  shows "vq_used_cons_idx drv \<noteq> used_idx vr"
    "\<exists>drv'. used_take drv vr = Some (fst (buf_in vr i), Some (l, i), drv') \<and>
      vq_nentries drv' = vq_nentries drv \<and> vq_rel drv' dev vr (drv_takes i c)"
  using get_buffer_ok [OF assms] assms(2)
  by (auto simp: virtqueue_get_buffer_def drv_takes_def buf_in_def split: if_splits)

lemma avail_take_ok:
  assumes "vq_rel drv dev vr c" "ch_avail c = i # is"
  shows "vq_available_idx dev \<noteq> avail_idx vr"
    "\<exists>dev'. avail_take dev vr = Some (fst (buf_in vr i), Some (snd (buf_in vr i), i), dev') \<and>
      vq_rel drv dev' vr (dev_takes i c)"
  using get_available_ok [OF assms] assms(2)
  by (auto simp: virtqueue_get_available_buffer_def dev_takes_def buf_in_def split: if_splits)

lemma drv_look_iff:
  assumes "vq_rel drv dev vr c"
  shows "vq_used_cons_idx drv \<noteq> used_idx vr \<longleftrightarrow> ch_used c \<noteq> []"
  using assms used_take_ok(1) [OF assms] by (cases "ch_used c") (auto simp: vq_rel_def)

lemma dev_look_iff:
  assumes "vq_rel drv dev vr c"
  shows "vq_available_idx dev \<noteq> avail_idx vr \<longleftrightarrow> ch_avail c \<noteq> []"
  using assms avail_take_ok(1) [OF assms] by (cases "ch_avail c") (auto simp: vq_rel_def)

lemma drv_take_rel:
  assumes s: "sys_rel s c" "s_dpc s = Looked" "used_take (s_drv s) (s_ring s) = Some (b, Some (l, i), drv)"
  shows "sys_rel (s\<lparr>s_drv := drv, s_dpc := Idle, s_chan := drv_takes i (s_chan s)\<rparr>) (drv_takes i c)"
proof -
  have rel: "vq_rel (s_drv s) (s_dev s) (s_ring s) c" using s(1) by (simp add: sys_rel_def)
  have "ch_used c \<noteq> []" using s(1,2) by (simp add: sys_rel_def drv_rel_def)
  then obtain j m us where u: "ch_used c = (j, m) # us" by (cases "ch_used c") auto
  have i: "i = j" "vq_nentries drv = vq_nentries (s_drv s)"
    "vq_rel drv (s_dev s) (s_ring s) (drv_takes i c)"
    using used_take_ok(2) [OF rel u] s(3) by auto
  have "tl (ch_used c @ xs) = tl (ch_used c) @ xs" for xs using u by simp
  then show ?thesis
    using s(1,2) i(2,3) drv_idle [OF s(1)]
    by (auto simp: sys_rel_def drv_rel_def dev_rel_def drv_takes_def split: if_splits)
qed

lemma dev_take_rel:
  assumes s: "sys_rel s c" "s_rpc s = Looked" "avail_take (s_dev s) (s_ring s) = Some (b, Some (l, i), dev)"
  shows "sys_rel (s\<lparr>s_dev := dev, s_rpc := Idle, s_chan := dev_takes i (s_chan s)\<rparr>) (dev_takes i c)"
proof -
  have rel: "vq_rel (s_drv s) (s_dev s) (s_ring s) c" using s(1) by (simp add: sys_rel_def)
  have "ch_avail c \<noteq> []" using s(1,2) by (simp add: sys_rel_def dev_rel_def)
  then obtain j js where u: "ch_avail c = j # js" by (cases "ch_avail c") auto
  have i: "i = j" "vq_rel (s_drv s) dev (s_ring s) (dev_takes i c)"
    using avail_take_ok(2) [OF rel u] s(3) by auto
  have "tl (ch_avail c @ xs) = tl (ch_avail c) @ xs" for xs using u by simp
  then show ?thesis
    using s(1,2) i(2) dev_idle [OF s(1)]
    by (auto simp: sys_rel_def drv_rel_def dev_rel_def dev_takes_def split: if_splits)
qed

lemma drv_fill_used_rel:
  assumes s: "sys_rel s c" "\<not> s_live s" "s_dpc s = Idle" "vq_desc_head_idx (s_drv s) = i"
    "i \<in> ch_drv (s_chan s)" "b \<noteq> NULL"
    "virtqueue_fill_used_buffers (s_drv s) (s_ring s) b len = Some (st, drv, vr)"
  shows "sys_rel (s\<lparr>s_drv := drv, s_ring := vr, s_chan := drv_fills_used i len (s_chan s),
      s_buf := (s_buf s)(i := (b, len))\<rparr>) (drv_fills_used i len c)"
proof -
  have rel: "vq_rel (s_drv s) (s_dev s) (s_ring s) c" and pc: "s_rpc s = Idle"
    using s(1,2) by (simp_all add: sys_rel_def)
  have ch: "ch_used (s_chan s) = ch_used c" "ch_dev (s_chan s) = ch_dev c"
    "ch_avail (s_chan s) = ch_avail c" "ch_drv (s_chan s) = ch_drv c"
    using drv_idle [OF s(1)] dev_idle [OF s(1)] s(3) pc by simp_all
  from fill_used_ok [OF rel s(4), of b len] s(5,6,7) ch(4)
  have vr: "desc vr = desc (filled_desc (s_ring s) i b len)" "vq_rel drv (s_dev s) vr (drv_fills_used i len c)"
    by (auto simp: drv_fills_used_def)
  have i: "unat i < length (desc (s_ring s))" using vq_rel_index(2) [OF rel, of i] s(5) ch(4) by simp
  have "desc_rel {} (s_ring s) (s_buf s)" using s(1,3) by (simp add: sys_rel_def)
  then have "desc_rel {} vr ((s_buf s)(i := (b, len)))"
    using i unfolding desc_rel_def vr(1) by (auto simp: filled_desc_def nth_list_update word_unat_eq_iff)
  then show ?thesis
    using vr(2) ch pc s(2,3) by (simp add: sys_rel_def drv_rel_def dev_rel_def drv_fills_used_def)
qed

lemma sys_rel_ring:
  assumes "sys_rel s c" "desc vr = desc (s_ring s)" "avail_idx vr = avail_idx (s_ring s)"
    "avail_ring vr = avail_ring (s_ring s)" "used_idx vr = used_idx (s_ring s)"
    "used_ring vr = used_ring (s_ring s)"
  shows "sys_rel (s\<lparr>s_ring := vr\<rparr>) c"
proof -
  have "vq_rel drv dev vr c = vq_rel drv dev (s_ring s) c" "drv_rel pc k b vr c ch = drv_rel pc k b (s_ring s) c ch"
    "dev_rel pc k vr c ch = dev_rel pc k (s_ring s) c ch" "desc_rel L vr b = desc_rel L (s_ring s) b"
    for drv dev pc k ch L b
    by (simp_all add: vq_rel_def drv_rel_def dev_rel_def desc_rel_def assms(2-))
  then show ?thesis using assms(1,3,5) by (simp add: sys_rel_def)
qed

lemma cb_rel:
  assumes "sys_rel s c"
  shows "sys_rel (s\<lparr>s_ring := virtqueue_disable_cb q (s_ring s)\<rparr>) c"
    "sys_rel (s\<lparr>s_ring := snd (virtqueue_enable_cb q (s_ring s))\<rparr>) c"
  by (rule sys_rel_ring [OF assms]; simp add: virtqueue_disable_cb_def virtqueue_enable_cb_def
      vq_ring_enable_interrupt_def Let_def)+

lemma vq_step_rel:
  assumes "vq_step s s'" "sys_rel s c"
  shows "\<exists>c'. sys_rel s' c'"
  using assms(1)
proof cases
  case (drv_fill_used i buffer len st drv vr)
  then show ?thesis using drv_fill_used_rel [OF assms(2)] by blast
next
  case go_live
  then show ?thesis using assms(2) by (auto simp: sys_rel_def)
next
  case (drv_fill_avail i buffer len st drv vr)
  have rel: "vq_rel (s_drv s) (s_dev s) (s_ring s) c" using assms(2) by (simp add: sys_rel_def)
  have d: "drv = (s_drv s)\<lparr>vq_desc_head_idx := i + 1, vq_queued_cnt := vq_queued_cnt (s_drv s) + 1\<rparr>"
    using drv_fill_avail(3,5)
    by (simp add: virtqueue_fill_avail_buffers_def vq_ring_update_avail_def Let_def split: bind_splits)
  have "vq_rel drv (s_dev s) (s_ring s) c" "vq_nentries drv = vq_nentries (s_drv s)"
    using rel by (simp_all add: d vq_rel_def)
  from drv_put_rel [OF assms(2) drv_fill_avail(2,4) _ _ this, where filled = True and b = "(buffer, len)"]
  show ?thesis using drv_fill_avail(1) by auto
next
  case (drv_put i st drv vr)
  have rel: "vq_rel (s_drv s) (s_dev s) (s_ring s) c" using assms(2) by (simp add: sys_rel_def)
  have d: "drv = (s_drv s)\<lparr>vq_queued_cnt := vq_queued_cnt (s_drv s) + 1\<rparr>"
    using drv_put(4) by (simp add: virtqueue_add_buffer_def vq_ring_update_avail_def split: bind_splits)
  have "vq_rel drv (s_dev s) (s_ring s) c" "vq_nentries drv = vq_nentries (s_drv s)"
    using rel by (simp_all add: d vq_rel_def)
  from drv_put_rel [OF assms(2) drv_put(2,3) _ _ this, where filled = False]
  have "sys_rel (s\<lparr>s_drv := drv, s_chan := drv_gives i (s_chan s), s_buf := s_buf s,
      s_dpc := Storing i (avail_stores (s_drv s) (s_ring s) i)\<rparr>) c" by simp
  then show ?thesis using drv_put(1) by auto
next
  case (drv_store i ops op ops' vr)
  then show ?thesis using drv_store_rel [OF assms(2)] by fastforce
next
  case (drv_done i)
  then show ?thesis using assms(2) by (auto simp: sys_rel_def drv_rel_def)
next
  case drv_look
  then show ?thesis
    using assms(2) drv_look_iff by (auto simp: sys_rel_def drv_rel_def)
next
  case (drv_take b l i drv)
  then show ?thesis using drv_take_rel [OF assms(2)] by blast
next
  case (dev_put i len vr)
  then show ?thesis using dev_put_rel [OF assms(2)] by blast
next
  case (dev_store i ops op ops' vr)
  then show ?thesis using dev_store_rel [OF assms(2)] by fastforce
next
  case (dev_done i)
  then show ?thesis using assms(2) by (auto simp: sys_rel_def dev_rel_def)
next
  case dev_look
  then show ?thesis
    using assms(2) dev_look_iff by (auto simp: sys_rel_def dev_rel_def)
next
  case (dev_take b l i dev)
  then show ?thesis using dev_take_rel [OF assms(2)] by blast
next
  case drv_kick
  then show ?thesis
    using assms(2) by (auto simp: sys_rel_def virtqueue_kick_def vq_rel_def)
next
  case dev_kick
  then show ?thesis
    using assms(2) by (auto simp: sys_rel_def virtqueue_kick_def vq_rel_def)
qed (use assms(2) cb_rel in blast)+

lemma vq_start_rel:
  assumes "vq_start drv dev vr"
  shows "vq_rel drv dev vr \<lparr>ch_avail = [], ch_used = [],
    ch_drv = {i. unat i < unat (vq_nentries drv)}, ch_dev = {}\<rparr>"
  using assms by (simp add: vq_start_def vq_rel_def chan_ok_def ring_empty)

lemma vq_reach_rel: "vq_reach s \<Longrightarrow> \<exists>c. sys_rel s c"
proof (induction rule: vq_reach.induct)
  case (reach_start drv dev vr)
  have "sys_rel (sys_start drv dev vr) \<lparr>ch_avail = [], ch_used = [],
      ch_drv = {i. unat i < unat (vq_nentries drv)}, ch_dev = {}\<rparr>"
    using vq_start_rel [OF reach_start]
    by (simp add: sys_rel_def sys_start_def drv_rel_def dev_rel_def desc_rel_def buf_in_def)
  then show ?case by blast
next
  case (reach_step s s')
  then show ?case using vq_step_rel by blast
qed

section \<open>Properties\<close>

lemma sys_rel_chan_ok:
  assumes "sys_rel s c"
  shows "chan_ok (unat (vq_nentries (s_drv s))) (s_chan s)"
proof -
  let ?n = "unat (vq_nentries (s_drv s))" let ?h = "s_chan s"
  have c: "chan_ok ?n c" using assms by (simp add: sys_rel_def vq_rel_def)
  define c' where "c' = c\<lparr>ch_avail := ch_avail ?h, ch_drv := ch_drv ?h\<rparr>"
  have "ch_avail ?h = ch_avail c \<and> ch_drv ?h = ch_drv c \<or>
      (\<exists>i \<in> ch_drv c. ch_avail ?h = ch_avail c @ [i] \<and> ch_drv ?h = ch_drv c - {i})"
    using assms by (auto simp: sys_rel_def drv_rel_def split: if_splits)
  then have c': "chan_ok ?n c'"
    using c unfolding c'_def
    by (elim disjE bexE conjE; simp add: chan_ok_def; blast)
  have "ch_used ?h = ch_used c' \<and> ch_dev ?h = ch_dev c' \<or>
      (\<exists>i \<in> ch_dev c'. \<exists>l. ch_used ?h = ch_used c' @ [(i, l)] \<and> ch_dev ?h = ch_dev c' - {i})"
    using assms by (auto simp: c'_def sys_rel_def dev_rel_def split: if_splits)
  moreover have "ch_avail ?h = ch_avail c'" "ch_drv ?h = ch_drv c'" by (simp_all add: c'_def)
  ultimately show ?thesis
    using c' by (elim disjE bexE exE conjE; simp add: chan_ok_def; blast)
qed

text \<open>The part of the channel that the other core can see: all of it but the index whose
  hand-over has not ended.\<close>

lemma drv_sees:
  assumes "sys_rel s c"
  shows "s_rpc s = Looked \<Longrightarrow> ch_avail c \<noteq> []" "s_dpc s = Looked \<Longrightarrow> ch_used c \<noteq> []"
    "\<exists>ys. ch_avail (s_chan s) = ch_avail c @ ys" "\<exists>ys. ch_used (s_chan s) = ch_used c @ ys"
    "stores_left (s_dpc s) = [] \<Longrightarrow> ch_avail c = ch_avail (s_chan s)"
    "stores_left (s_rpc s) = [] \<Longrightarrow> ch_used c = ch_used (s_chan s)"
  using assms by (auto simp: sys_rel_def drv_rel_def dev_rel_def split: if_splits)

lemma drv_used_take:
  assumes "sys_rel s c" "s_dpc s = Looked \<or> vq_used_cons_idx (s_drv s) \<noteq> used_idx (s_ring s)"
  shows "\<exists>i l us drv. ch_used (s_chan s) = (i, l) # us \<and>
    used_take (s_drv s) (s_ring s) = Some (fst (buf_in (s_ring s) i), Some (l, i), drv)"
proof -
  have rel: "vq_rel (s_drv s) (s_dev s) (s_ring s) c" using assms(1) by (simp add: sys_rel_def)
  have "ch_used c \<noteq> []" using assms(2) drv_look_iff [OF rel] drv_sees(2) [OF assms(1)] by blast
  then obtain i l us where u: "ch_used c = (i, l) # us" by (cases "ch_used c") auto
  then show ?thesis using used_take_ok(2) [OF rel u] drv_sees(4) [OF assms(1)] by auto
qed

lemma dev_avail_take:
  assumes "sys_rel s c" "s_rpc s = Looked \<or> vq_available_idx (s_dev s) \<noteq> avail_idx (s_ring s)"
  shows "\<exists>i is dev. ch_avail (s_chan s) = i # is \<and>
    avail_take (s_dev s) (s_ring s) = Some (fst (s_buf s i), Some (snd (s_buf s i), i), dev)"
proof -
  have rel: "vq_rel (s_drv s) (s_dev s) (s_ring s) c" using assms(1) by (simp add: sys_rel_def)
  have "ch_avail c \<noteq> []" using assms(2) dev_look_iff [OF rel] drv_sees(1) [OF assms(1)] by blast
  then obtain i js where u: "ch_avail c = i # js" by (cases "ch_avail c") auto
  have i: "unat i < length (desc (s_ring s))" using vq_rel_index(2) [OF rel, of i] u by simp
  have "i \<notin> ch_drv c" using rel u by (auto simp: vq_rel_def chan_ok_def)
  moreover have "op \<in> set (stores_left (s_dpc s)) \<Longrightarrow> desc_op j op \<Longrightarrow> j \<in> ch_drv c" for op j
    using assms(1) storing_sub
    by (fastforce simp: sys_rel_def drv_rel_def avail_data_def desc_stores_def split: if_splits)
  ultimately have "buf_in (s_ring s) i = s_buf s i"
    using assms(1) i unfolding sys_rel_def desc_rel_def buf_in_def
    by (metis desc_op.simps(1,2) prod.collapse)
  then show ?thesis using avail_take_ok(2) [OF rel u] drv_sees(3) [OF assms(1)] u by auto
qed

text \<open>C27: however the stores and loads of the two cores mix (a core's stores in any order
  that its barriers allow, and the other core at work between them): every index is in
  exactly one place, held by one core or once in a queue; a core that hands over what it
  holds succeeds, and no store on the way faults; a core that has seen an entry takes the
  oldest one handed over, with the length or, at the device, the buffer and the length that
  its descriptor was filled with, and none that is still being written; when a call has
  ended the other core sees its entry; and no more entries are pending than the queue has.\<close>

theorem vq_channel_safe:
  assumes "vq_reach s"
  shows "chan_ok (unat (vq_nentries (s_drv s))) (s_chan s) \<and>
    (\<forall>i \<in> ch_drv (s_chan s). \<exists>drv vr.
      virtqueue_add_buffer (s_drv s) (s_ring s) i = Some (VQUEUE_SUCCESS, drv, vr)) \<and>
    (\<forall>i \<in> ch_dev (s_chan s). \<forall>len. \<exists>vr.
      virtqueue_add_consumed_buffer (s_dev s) (s_ring s) i len = Some (VQUEUE_SUCCESS, vr)) \<and>
    (\<forall>i ops op ops'. (s_dpc s = Storing i ops \<or> s_rpc s = Storing i ops) \<and> next_store ops op ops' \<longrightarrow>
      ring_store op (s_ring s) \<noteq> None) \<and>
    (s_dpc s = Looked \<or> vq_used_cons_idx (s_drv s) \<noteq> used_idx (s_ring s) \<longrightarrow>
      (\<exists>i l us b drv. ch_used (s_chan s) = (i, l) # us \<and>
        used_take (s_drv s) (s_ring s) = Some (b, Some (l, i), drv))) \<and>
    (s_rpc s = Looked \<or> vq_available_idx (s_dev s) \<noteq> avail_idx (s_ring s) \<longrightarrow>
      (\<exists>i is dev. ch_avail (s_chan s) = i # is \<and>
        avail_take (s_dev s) (s_ring s) = Some (fst (s_buf s i), Some (snd (s_buf s i), i), dev))) \<and>
    (s_dpc s = Idle \<and> ch_avail (s_chan s) \<noteq> [] \<longrightarrow> vq_available_idx (s_dev s) \<noteq> avail_idx (s_ring s)) \<and>
    (s_rpc s = Idle \<and> ch_used (s_chan s) \<noteq> [] \<longrightarrow> vq_used_cons_idx (s_drv s) \<noteq> used_idx (s_ring s)) \<and>
    virtqueue_nused (s_drv s) (s_ring s) \<le> vq_nentries (s_drv s)"
proof -
  obtain c where c: "sys_rel s c" using vq_reach_rel [OF assms] by blast
  then have rel: "vq_rel (s_drv s) (s_dev s) (s_ring s) c" by (simp add: sys_rel_def)
  have "ch_drv (s_chan s) \<subseteq> ch_drv c" "ch_dev (s_chan s) \<subseteq> ch_dev c"
    using c by (auto simp: sys_rel_def drv_rel_def dev_rel_def split: if_splits)
  then have put: "\<forall>i \<in> ch_drv (s_chan s). \<exists>drv vr.
      virtqueue_add_buffer (s_drv s) (s_ring s) i = Some (VQUEUE_SUCCESS, drv, vr)"
    "\<forall>i \<in> ch_dev (s_chan s). \<forall>len. \<exists>vr.
      virtqueue_add_consumed_buffer (s_dev s) (s_ring s) i len = Some (VQUEUE_SUCCESS, vr)"
    using add_buffer_ok [OF rel] add_consumed_ok [OF rel] by blast+
  have store: "\<forall>i ops op ops'. (s_dpc s = Storing i ops \<or> s_rpc s = Storing i ops) \<and> next_store ops op ops' \<longrightarrow>
      ring_store op (s_ring s) \<noteq> None"
    using drv_store_rel [OF c] dev_store_rel [OF c] by force
  have "s_dpc s = Idle \<and> ch_avail (s_chan s) \<noteq> [] \<longrightarrow> vq_available_idx (s_dev s) \<noteq> avail_idx (s_ring s)"
    "s_rpc s = Idle \<and> ch_used (s_chan s) \<noteq> [] \<longrightarrow> vq_used_cons_idx (s_drv s) \<noteq> used_idx (s_ring s)"
    using drv_sees(5,6) [OF c] by (simp_all add: dev_look_iff [OF rel] drv_look_iff [OF rel])
  moreover have "virtqueue_nused (s_drv s) (s_ring s) \<le> vq_nentries (s_drv s)"
  proof -
    have "virtqueue_nused (s_drv s) (s_ring s) = of_nat (length (ch_used c))"
      using rel by (simp add: virtqueue_nused_def vq_rel_def)
    moreover have "length (ch_used c) \<le> unat (vq_nentries (s_drv s))"
      using rel chan_room(1) [of "unat (vq_nentries (s_drv s))" c] by (simp add: vq_rel_def)
    ultimately show ?thesis
      using vq_room(2) [OF rel] by (simp add: word_le_nat_alt unat_of_nat_small)
  qed
  ultimately show ?thesis
    using sys_rel_chan_ok [OF c] put store drv_used_take [OF c] dev_avail_take [OF c] by blast
qed

text \<open>Two virtqueues of two entries on a cleared ring: the driver hands index 1 over, and
  the device looks when the last store has arrived.\<close>

definition vq2 :: virtqueue where
  "vq2 = snd (virtqueue_create_static 0 \<lparr>phy_addr = 0x8000, ring_align = 16, num_descs = 2\<rparr> 0 0)"

definition ring2 :: vring where
  "ring2 = \<lparr>desc = replicate 2 \<lparr>vd_addr = 0, vd_len = 0, vd_flags = 0, vd_next = 0\<rparr>,
     avail_flags = 0, avail_idx = 0, avail_ring = replicate 2 0, used_event = 0,
     used_flags = 0, used_idx = 0, used_ring = replicate 2 \<lparr>ue_id = 0, ue_len = 0\<rparr>, avail_event = 0\<rparr>"

definition sys2 :: vq_sys where
  "sys2 = sys_start vq2 vq2 ring2"

lemma sys2_reach: "vq_reach sys2"
  unfolding sys2_def
proof (rule reach_start)
  have "is_pow2 2" unfolding is_pow2_def by (intro exI [of _ 1]) simp
  then show "vq_start vq2 vq2 ring2"
    by (simp add: vq2_def ring2_def vq_start_def virtqueue_create_static_def)
qed

definition sys2_puts :: "vring \<Rightarrow> ring_op list \<Rightarrow> core_pc \<Rightarrow> vq_sys" where
  "sys2_puts vr ops rpc = sys2\<lparr>s_live := True, s_drv := vq2\<lparr>vq_queued_cnt := 1\<rparr>, s_ring := vr,
     s_chan := drv_gives 1 (s_chan sys2), s_dpc := Storing 1 ops, s_rpc := rpc\<rparr>"

definition ring2' :: vring where
  "ring2' = ring2\<lparr>avail_ring := [1, 0]\<rparr>"

lemma sys2_looked: "vq_reach (sys2_puts (ring2'\<lparr>avail_idx := 1\<rparr>) [] Looked)"
proof -
  have "vq_reach (sys2\<lparr>s_live := True\<rparr>)" by (rule reach_step [OF sys2_reach go_live])
  moreover have "virtqueue_add_buffer vq2 ring2 1 =
      Some (VQUEUE_SUCCESS, vq2\<lparr>vq_queued_cnt := 1\<rparr>, ring2'\<lparr>avail_idx := 1\<rparr>)"
    "avail_stores vq2 ring2 1 = [Avail_entry 0 1, Wmb, Avail_inc]"
    by (simp_all add: vq2_def ring2_def ring2'_def virtqueue_create_static_def virtqueue_add_buffer_def
        vq_ring_update_avail_def avail_stores_def numeral_2_eq_2)
  ultimately have put: "vq_reach (sys2_puts ring2 [Avail_entry 0 1, Wmb, Avail_inc] Idle)"
    using reach_step [OF _ drv_put [of "sys2\<lparr>s_live := True\<rparr>" 1]]
    by (simp add: sys2_puts_def sys2_def sys_start_def vq2_def virtqueue_create_static_def)
  have step: "vq_reach (sys2_puts vr ops Idle) \<Longrightarrow> next_store ops op ops' \<Longrightarrow>
      ring_store op vr = Some vr' \<Longrightarrow> vq_reach (sys2_puts vr' ops' Idle)" for vr ops op ops' vr'
    using reach_step [OF _ drv_store [of "sys2_puts vr ops Idle" 1 ops op ops' vr']]
    by (simp add: sys2_puts_def sys2_def sys_start_def)
  from put have "vq_reach (sys2_puts ring2' [Wmb, Avail_inc] Idle)"
    by (rule step) (auto simp: ring2_def ring2'_def numeral_2_eq_2)
  then have "vq_reach (sys2_puts ring2' [Avail_inc] Idle)" by (rule step) auto
  then have "vq_reach (sys2_puts (ring2'\<lparr>avail_idx := 1\<rparr>) [] Idle)"
    by (rule step) (auto simp: ring2_def ring2'_def)
  then show ?thesis
    using reach_step [OF _ dev_look [of "sys2_puts (ring2'\<lparr>avail_idx := 1\<rparr>) [] Idle"]]
    by (simp add: sys2_puts_def sys2_def sys_start_def ring2'_def vq2_def virtqueue_create_static_def)
qed

theorem vq_channel_safe_witness:
  "\<exists>dev. avail_take vq2 (ring2'\<lparr>avail_idx := 1\<rparr>) = Some (0, Some (0, 1), dev)"
proof -
  let ?s = "sys2_puts (ring2'\<lparr>avail_idx := 1\<rparr>) [] Looked"
  have "s_rpc ?s = Looked" "ch_avail (s_chan ?s) = [1]" "s_dev ?s = vq2"
    "s_ring ?s = ring2'\<lparr>avail_idx := 1\<rparr>" "s_buf ?s 1 = (0, 0)"
    by (simp_all add: sys2_puts_def sys2_def sys_start_def drv_gives_def buf_in_def ring2_def env_map_patova_def)
  then show ?thesis using vq_channel_safe [OF sys2_looked] by fastforce
qed

text \<open>C29: \<open>vring_need_event\<close> is exact in spite of the wrap-around of the indices: after \<open>m\<close>
  entries were added behind \<open>old\<close>, it asks for an event if and only if the event index is
  one of those \<open>m\<close> positions.\<close>

theorem need_event_exact:
  assumes "m < 2 ^ 16"
  shows "vring_need_event e (old + of_nat m) old \<longleftrightarrow> (\<exists>j < m. e = old + of_nat j)"
proof -
  define d where "d = e - old"
  have m: "unat (of_nat m :: u16) = m" using assms by (intro unat_of_nat_small) simp
  have e: "old + of_nat m - e - 1 = of_nat m - (d + 1)" "old + of_nat m - old = of_nat m"
    by (simp_all add: d_def)
  have wrap: "unat (a - b :: u16) = (if unat b \<le> unat a then unat a - unat b else unat a + 2 ^ 16 - unat b)"
    for a b by (simp add: unat_sub_if_size word_size)
  have "vring_need_event e (old + of_nat m) old \<longleftrightarrow> unat (of_nat m - (d + 1)) < m"
    unfolding vring_need_event_def e word_less_nat_alt m ..
  also have "\<dots> \<longleftrightarrow> unat d < m"
  proof (cases "d + 1 = 0")
    case True
    then have "d = - 1" by (simp add: eq_neg_iff_add_eq_0)
    then have "unat d = 2 ^ 16 - 1" by (simp add: unsigned_minus_1_eq_mask mask_eq_exp_minus_1)
    then show ?thesis using True assms m by simp
  next
    case False
    then have "unat (d + 1) = unat d + 1" by (simp add: unatSuc add.commute)
    then show ?thesis using word_nat_less_len [of d] assms unfolding wrap m by auto
  qed
  also have "\<dots> \<longleftrightarrow> (\<exists>j < m. e = old + of_nat j)"
  proof
    assume "unat d < m"
    moreover have "e = old + of_nat (unat d)" by (simp add: d_def)
    ultimately show "\<exists>j < m. e = old + of_nat j" by blast
  next
    assume "\<exists>j < m. e = old + of_nat j"
    then obtain j where "j < m" "d = of_nat j" by (auto simp: d_def)
    then show "unat d < m" using assms by (simp add: unat_of_nat_small)
  qed
  finally show ?thesis .
qed

theorem need_event_exact_witness: "vring_need_event 0xFFFF (0xFFFE + of_nat 3) 0xFFFE"
proof -
  have "(3 :: nat) < 2 ^ 16" "(1 :: nat) < 3" "0xFFFF = (0xFFFE + of_nat 1 :: u16)" by simp_all
  then show ?thesis using need_event_exact by blast
qed


lemma unat_align16: "unat ((x :: u32) AND NOT 15) = unat x div 16 * 16"
proof -
  have m: "(15 :: u32) = mask 4" by (simp add: mask_eq_exp_minus_1)
  have "x AND NOT 15 = push_bit 4 (drop_bit 4 x)"
    unfolding m by (rule bit_word_eqI) (auto simp: bit_simps)
  also have "\<dots> = drop_bit 4 x * 16" by (simp add: push_bit_eq_mult)
  finally have e: "x AND NOT 15 = drop_bit 4 x * 16" .
  have d: "unat (drop_bit 4 x) = unat x div 16" by (simp add: drop_bit_eq_div unat_div_distrib)
  have "unat x div 16 * 16 < 2 ^ 32" using word_nat_less_len [of x] by simp
  then show ?thesis unfolding e unat_word_ariths d by simp
qed

text \<open>C28: with the alignment of the platform, 16, a ring of \<open>2 ^ k\<close> entries laid out by
  \<open>vring_init\<close> at an aligned address keeps its three parts apart and inside the
  \<open>vring_size\<close> bytes reserved for it: the descriptors, then the available ring with its
  event index, then the used ring with its event index, which is aligned.\<close>

theorem vring_layout:
  assumes "k \<le> 15" "unat p mod 16 = 0" "unat p + unat (vring_size (2 ^ k) 16) < 2 ^ 32"
  shows "let n = 2 ^ k; r = vring_init (2 ^ k) p 16 in
    vr_desc r = p \<and> unat (vr_avail r) = unat p + 16 * n \<and>
    unat (vr_avail r) + (4 + 2 * n + 2) \<le> unat (vr_used r) \<and> unat (vr_used r) mod 16 = 0 \<and>
    unat (vr_used r) + (4 + 8 * n + 2) \<le> unat p + unat (vring_size (2 ^ k) 16)"
proof -
  define n :: nat where "n = 2 ^ k"
  have n15: "n \<le> 2 ^ 15" unfolding n_def using assms(1) by (intro power_increasing) simp_all
  have un: "(2 :: u32) ^ k = of_nat n" by (simp add: n_def)
  have nm: "n = 1 \<or> n = 2 \<or> n = 4 \<or> n mod 8 = 0"
  proof (cases "k \<le> 2")
    case True
    then have "k = 0 \<or> k = 1 \<or> k = 2" by auto
    then show ?thesis by (auto simp: n_def)
  next
    case False
    then have "(2 :: nat) ^ 3 dvd 2 ^ k" by (intro le_imp_power_dvd) simp
    then show ?thesis by (simp add: n_def mod_eq_0_iff_dvd)
  qed
  have sum: "unat (of_nat a :: u32) = a" if "a < 2 ^ 32" for a using that by (intro unat_of_nat_small) simp
  have size: "vring_size (2 ^ k) 16 = of_nat ((18 * n + 23) div 16 * 16 + 8 * n + 14)"
  proof -
    have e: "of_nat n * 16 + 6 + of_nat n * 2 + 2 + 16 - 1 = (of_nat (18 * n + 23) :: u32)" by simp
    have lt: "18 * n + 23 < 2 ^ 32" using n15 by simp
    have "unat ((of_nat n * 16 + 6 + of_nat n * 2 + 2 + 16 - 1) AND NOT (15 :: u32)) = (18 * n + 23) div 16 * 16"
      unfolding e unat_align16 sum [OF lt] ..
    then have "(of_nat n * 16 + 6 + of_nat n * 2 + 2 + 16 - 1) AND NOT (15 :: u32) = of_nat ((18 * n + 23) div 16 * 16)"
      by (metis of_nat_unat_id)
    then show ?thesis unfolding un vring_size_def Let_def by simp
  qed
  have us: "unat (vring_size (2 ^ k) 16) = (18 * n + 23) div 16 * 16 + 8 * n + 14"
    unfolding size using n15 by (intro sum) simp
  have "18 * n + 8 \<le> (18 * n + 23) div 16 * 16" "1 \<le> n" by presburger (simp add: n_def)
  then have lim: "unat p + 18 * n + 23 < 2 ^ 32" using assms(3) us by linarith
  have pa: "p = of_nat (unat p)" by simp
  have av: "vr_avail (vring_init (2 ^ k) p 16) = of_nat (unat p + 16 * n)"
    unfolding vring_init_def Let_def un by simp
  have e: "p + of_nat n * 16 + 4 + 2 * of_nat n + 16 - 1 = (of_nat (unat p + 18 * n + 19) :: ptr)"
    by simp
  have lt: "unat p + 18 * n + 19 < 2 ^ 32" "unat p + 16 * n < 2 ^ 32" using lim by simp_all
  have e15: "(16 - 1 :: ptr) = 15" by simp
  have usd: "unat (vr_used (vring_init (2 ^ k) p 16)) = (unat p + 18 * n + 19) div 16 * 16"
    unfolding vring_init_def Let_def un vring_ptrs.simps e e15 unat_align16 sum [OF lt(1)] ..
  have uav: "unat (vr_avail (vring_init (2 ^ k) p 16)) = unat p + 16 * n"
    unfolding av sum [OF lt(2)] ..
  obtain q where q: "unat p = 16 * q" using assms(2) by (auto simp: mod_eq_0_iff_dvd)
  have A: "16 * q + 16 * n + (4 + 2 * n + 2) \<le> (16 * q + 18 * n + 19) div 16 * 16 \<and>
    (16 * q + 18 * n + 19) div 16 * 16 + (4 + 8 * n + 2) \<le> 16 * q + ((18 * n + 23) div 16 * 16 + 8 * n + 14)"
  proof -
    consider "n = 1" | "n = 2" | "n = 4" | m where "n = 8 * m" using nm by (auto simp: mod_eq_0_iff_dvd)
    then show ?thesis
    proof cases
      case (4 m)
      have "(16 * q + 18 * n + 19) div 16 = q + 9 * m + 1" "(18 * n + 23) div 16 = 9 * m + 1"
        unfolding 4 by (rule div_nat_eqI; simp)+
      then show ?thesis using 4 by simp
    qed (simp_all add: add.commute [of "16 * q"])
  qed
  have "vr_desc (vring_init (2 ^ k) p 16) = p" by (simp add: vring_init_def Let_def)
  then show ?thesis
    unfolding Let_def n_def [symmetric] uav usd us q using A by simp
qed

theorem vring_layout_witness:
  "unat (vr_used (vring_init (2 ^ 1) 0x8000 16)) + (4 + 8 * 2 ^ 1 + 2) \<le> 0x8000 + unat (vring_size (2 ^ 1) 16)"
  using vring_layout [of 1 "0x8000"] unfolding Let_def by (simp add: vring_size_def)

end
