(* ===== verification/Rpmsg_Lite.thy ===== *)
theory Rpmsg_Lite
  imports Virtqueue
begin

text \<open>
  RPMsg-Lite (\<open>rpmsg_lite/lib/rpmsg_lite/rpmsg_lite.c\<close>, \<open>lib/common/llist.c\<close>) on the
  bare-metal environment, where the mutex functions are empty, with the default
  configuration. A core sees its two virtqueues, the rings and buffers in shared memory,
  and its table of endpoints, a linked list. Memory blocks that \<open>env_allocate_memory\<close>
  returns are arguments, and so is what the other core and the interrupts do while a
  sender sleeps. \<open>RL_ASSERT\<close> of a false condition never returns, which is \<open>None\<close> here. The
  instance is an object, so that the tests for a null instance, which answer
  \<open>RL_ERR_PARAM\<close> or \<open>NULL\<close>, are false. The notifications a core sends are recorded in order.
\<close>

section \<open>Data\<close>

abbreviation (input) RL_SUCCESS :: int where "RL_SUCCESS \<equiv> 0"
abbreviation (input) RL_ERR_NO_MEM :: int where "RL_ERR_NO_MEM \<equiv> - 5001"
abbreviation (input) RL_ERR_BUFF_SIZE :: int where "RL_ERR_BUFF_SIZE \<equiv> - 5002"
abbreviation (input) RL_ERR_PARAM :: int where "RL_ERR_PARAM \<equiv> - 5003"
abbreviation (input) RL_NOT_READY :: int where "RL_NOT_READY \<equiv> - 5007"
abbreviation (input) RL_ADDR_ANY :: u32 where "RL_ADDR_ANY \<equiv> 0xFFFFFFFF"
abbreviation (input) RL_BUFFER_PAYLOAD_SIZE :: u32 where "RL_BUFFER_PAYLOAD_SIZE \<equiv> 496"
abbreviation (input) RL_BUFFER_SIZE :: u32 where "RL_BUFFER_SIZE \<equiv> 512"
abbreviation (input) RL_BUFFER_COUNT :: u16 where "RL_BUFFER_COUNT \<equiv> 2"
abbreviation (input) VRING_SIZE :: u32 where "VRING_SIZE \<equiv> 0x400"
abbreviation (input) VRING_ALIGN :: u32 where "VRING_ALIGN \<equiv> 16"
abbreviation (input) RL_VRING_OVERHEAD :: u32 where "RL_VRING_OVERHEAD \<equiv> 0x800"

text \<open>The header of a message, with the reserved word split as in
  \<open>struct rpmsg_hdr_reserved\<close>, and its payload.\<close>

record rpmsg_std_msg =
  h_src :: u32
  h_dst :: u32
  h_rfu :: u16
  h_idx :: u16
  h_len :: u16
  h_flags :: u16
  payload :: "u8 list"

record llist =
  ll_data :: ptr
  ll_next :: ptr
  ll_prev :: ptr

record rpmsg_lite_endpoint =
  ept_addr :: u32
  ept_rx_cb :: ptr
  ept_rx_cb_data :: ptr

text \<open>The table of queue operations, which differs between master and remote. An operation
  works on a virtqueue and its ring.\<close>

record virtqueue_ops =
  vq_tx :: "virtqueue \<Rightarrow> vring \<Rightarrow> ptr \<Rightarrow> u32 \<Rightarrow> u16 \<Rightarrow> (virtqueue \<times> vring) option"
  vq_tx_alloc :: "virtqueue \<Rightarrow> vring \<Rightarrow> (ptr \<times> (u32 \<times> u16) option \<times> virtqueue) option"
  vq_rx :: "virtqueue \<Rightarrow> vring \<Rightarrow> (ptr \<times> (u32 \<times> u16) option \<times> virtqueue) option"
  vq_rx_free :: "virtqueue \<Rightarrow> vring \<Rightarrow> ptr \<Rightarrow> u32 \<Rightarrow> u16 \<Rightarrow> (virtqueue \<times> vring) option"

record rpmsg_lite_instance =
  rvq :: virtqueue
  tvq :: virtqueue
  rl_endpoints :: ptr
  link_state :: u32
  sh_mem_base :: ptr
  sh_mem_remaining :: u32
  sh_mem_total :: u32
  vq_ops :: virtqueue_ops

text \<open>What a core works on: its instance, the two rings, the buffers, and the heap objects of
  the endpoint table; and the notifications it has sent, each a queue index.\<close>

record rl_state =
  dev :: rpmsg_lite_instance
  rring :: vring
  tring :: vring
  msgs :: "ptr \<rightharpoonup> rpmsg_std_msg"
  nodes :: "ptr \<rightharpoonup> llist"
  epts :: "ptr \<rightharpoonup> rpmsg_lite_endpoint"
  notified :: "u16 list"

section \<open>The linked list\<close>

type_synonym llheap = "ptr \<rightharpoonup> llist"

definition mod_node :: "ptr \<Rightarrow> (llist \<Rightarrow> llist) \<Rightarrow> llheap \<Rightarrow> llheap option" where
  "mod_node p f m = (if p = NULL then None else case m p of None \<Rightarrow> None | Some n \<Rightarrow> Some (m(p \<mapsto> f n)))"

definition get_node :: "ptr \<Rightarrow> llheap \<Rightarrow> llist option" where
  "get_node p m = (if p = NULL then None else m p)"

definition add_to_list :: "ptr \<Rightarrow> ptr \<Rightarrow> llheap \<Rightarrow> (ptr \<times> llheap) option" where
  "add_to_list head node m =
     (if node = NULL then Some (head, m)
      else if head \<noteq> NULL then do {
        m \<leftarrow> mod_node node (ll_next_update (\<lambda>_. head)) m;
        m \<leftarrow> mod_node node (ll_prev_update (\<lambda>_. NULL)) m;
        m \<leftarrow> mod_node head (ll_prev_update (\<lambda>_. node)) m;
        Some (node, m) }
      else do {
        m \<leftarrow> mod_node node (ll_next_update (\<lambda>_. NULL)) m;
        m \<leftarrow> mod_node node (ll_prev_update (\<lambda>_. NULL)) m;
        Some (node, m) })"

definition remove_from_list :: "ptr \<Rightarrow> ptr \<Rightarrow> llheap \<Rightarrow> (ptr \<times> llheap) option" where
  "remove_from_list head node m =
     (if head = NULL \<or> node = NULL then Some (head, m)
      else if node = head then do { h \<leftarrow> get_node head m; Some (ll_next h, m) }
      else do {
        n \<leftarrow> get_node node m;
        if ll_next n = NULL then do {
          m \<leftarrow> mod_node (ll_prev n) (ll_next_update (\<lambda>_. ll_next n)) m;
          Some (head, m) }
        else do {
          m \<leftarrow> mod_node (ll_prev n) (ll_next_update (\<lambda>_. ll_next n)) m;
          n \<leftarrow> get_node node m;
          m \<leftarrow> mod_node (ll_next n) (ll_prev_update (\<lambda>_. ll_prev n)) m;
          Some (head, m) } })"

section \<open>Endpoints\<close>

partial_function (option) get_endpoint_loop ::
  "llheap \<Rightarrow> (ptr \<rightharpoonup> rpmsg_lite_endpoint) \<Rightarrow> ptr \<Rightarrow> u32 \<Rightarrow> ptr option" where
  "get_endpoint_loop m es p addr =
     (if p = NULL then Some NULL
      else do {
        n \<leftarrow> get_node p m;
        e \<leftarrow> es (ll_data n);
        if ept_addr e = addr then Some p else get_endpoint_loop m es (ll_next n) addr })"

definition rpmsg_lite_get_endpoint_from_addr :: "rl_state \<Rightarrow> u32 \<Rightarrow> ptr option" where
  "rpmsg_lite_get_endpoint_from_addr s addr =
     get_endpoint_loop (nodes s) (epts s) (rl_endpoints (dev s)) addr"

text \<open>The search for a free address runs over \<open>i\<close> up to \<open>0xFFFFFFFE\<close>; \<open>k\<close> values are left.
  Without one the address stays \<open>RL_ADDR_ANY\<close>.\<close>

fun find_free_addr :: "rl_state \<Rightarrow> nat \<Rightarrow> u32 \<Rightarrow> u32 option" where
  "find_free_addr s 0 i = Some RL_ADDR_ANY"
| "find_free_addr s (Suc k) i = do {
     node \<leftarrow> rpmsg_lite_get_endpoint_from_addr s i;
     if node = NULL then Some i else find_free_addr s k (i + 1) }"

text \<open>\<open>rl_ept\<close> and \<open>node\<close> are the blocks that the two allocations return, or \<open>NULL\<close>.\<close>

definition create_ept_at ::
  "rl_state \<Rightarrow> u32 \<Rightarrow> ptr \<Rightarrow> ptr \<Rightarrow> ptr \<Rightarrow> ptr \<Rightarrow> (ptr \<times> rl_state) option" where
  "create_ept_at s addr rx_cb rx_cb_data rl_ept node =
     (if rl_ept = NULL then Some (NULL, s)
      else if node = NULL then Some (NULL, s)
      else do {
        let s = s\<lparr>epts := (epts s)(rl_ept \<mapsto>
          \<lparr>ept_addr = addr, ept_rx_cb = rx_cb, ept_rx_cb_data = rx_cb_data\<rparr>)\<rparr>;
        (head, m) \<leftarrow> add_to_list (rl_endpoints (dev s)) node
          ((nodes s)(node \<mapsto> \<lparr>ll_data = rl_ept, ll_next = NULL, ll_prev = NULL\<rparr>));
        Some (rl_ept, s\<lparr>nodes := m, dev := (dev s)\<lparr>rl_endpoints := head\<rparr>\<rparr>) })"

definition rpmsg_lite_create_ept ::
  "rl_state \<Rightarrow> u32 \<Rightarrow> ptr \<Rightarrow> ptr \<Rightarrow> ptr \<Rightarrow> ptr \<Rightarrow> (ptr \<times> rl_state) option" where
  "rpmsg_lite_create_ept s addr rx_cb rx_cb_data rl_ept node =
     (if addr = RL_ADDR_ANY then do {
        a \<leftarrow> find_free_addr s (2 ^ 32 - 2) 1;
        if a = RL_ADDR_ANY then Some (NULL, s)
        else create_ept_at s a rx_cb rx_cb_data rl_ept node }
      else do {
        found \<leftarrow> rpmsg_lite_get_endpoint_from_addr s addr;
        if found \<noteq> NULL then Some (NULL, s)
        else create_ept_at s addr rx_cb rx_cb_data rl_ept node })"

definition rpmsg_lite_destroy_ept :: "rl_state \<Rightarrow> ptr \<Rightarrow> (int \<times> rl_state) option" where
  "rpmsg_lite_destroy_ept s rl_ept =
     (if rl_ept = NULL then Some (RL_ERR_PARAM, s)
      else do {
        e \<leftarrow> epts s rl_ept;
        node \<leftarrow> rpmsg_lite_get_endpoint_from_addr s (ept_addr e);
        if node \<noteq> NULL then do {
          (head, m) \<leftarrow> remove_from_list (rl_endpoints (dev s)) node (nodes s);
          Some (RL_SUCCESS, s\<lparr>dev := (dev s)\<lparr>rl_endpoints := head\<rparr>,
            nodes := m(node := None), epts := (epts s)(rl_ept := None)\<rparr>) }
        else Some (RL_ERR_PARAM, s) })"

definition rpmsg_lite_is_link_up :: "rl_state \<Rightarrow> u32" where
  "rpmsg_lite_is_link_up s = link_state (dev s)"

section \<open>The queue operations of the two sides\<close>

definition vq_tx_remote :: "virtqueue \<Rightarrow> vring \<Rightarrow> ptr \<Rightarrow> u32 \<Rightarrow> u16 \<Rightarrow> (virtqueue \<times> vring) option" where
  "vq_tx_remote vq vr buffer len idx = do {
     (status, vr) \<leftarrow> virtqueue_add_consumed_buffer vq vr idx len;
     if status = VQUEUE_SUCCESS then Some (vq, vr) else None }"

definition vq_tx_alloc_remote :: "virtqueue \<Rightarrow> vring \<Rightarrow> (ptr \<times> (u32 \<times> u16) option \<times> virtqueue) option" where
  "vq_tx_alloc_remote vq vr = virtqueue_get_available_buffer vq vr"

definition vq_rx_remote :: "virtqueue \<Rightarrow> vring \<Rightarrow> (ptr \<times> (u32 \<times> u16) option \<times> virtqueue) option" where
  "vq_rx_remote vq vr = virtqueue_get_available_buffer vq vr"

definition vq_rx_free_remote :: "virtqueue \<Rightarrow> vring \<Rightarrow> ptr \<Rightarrow> u32 \<Rightarrow> u16 \<Rightarrow> (virtqueue \<times> vring) option" where
  "vq_rx_free_remote vq vr buffer len idx = do {
     (status, vr) \<leftarrow> virtqueue_add_consumed_buffer vq vr idx len;
     if status = VQUEUE_SUCCESS then Some (vq, vr) else None }"

definition vq_tx_master :: "virtqueue \<Rightarrow> vring \<Rightarrow> ptr \<Rightarrow> u32 \<Rightarrow> u16 \<Rightarrow> (virtqueue \<times> vring) option" where
  "vq_tx_master vq vr buffer len idx = do {
     (status, vq, vr) \<leftarrow> virtqueue_add_buffer vq vr idx;
     if status = VQUEUE_SUCCESS then Some (vq, vr) else None }"

definition vq_tx_alloc_master :: "virtqueue \<Rightarrow> vring \<Rightarrow> (ptr \<times> (u32 \<times> u16) option \<times> virtqueue) option" where
  "vq_tx_alloc_master vq vr = virtqueue_get_buffer vq vr"

definition vq_rx_master :: "virtqueue \<Rightarrow> vring \<Rightarrow> (ptr \<times> (u32 \<times> u16) option \<times> virtqueue) option" where
  "vq_rx_master vq vr = virtqueue_get_buffer vq vr"

definition vq_rx_free_master :: "virtqueue \<Rightarrow> vring \<Rightarrow> ptr \<Rightarrow> u32 \<Rightarrow> u16 \<Rightarrow> (virtqueue \<times> vring) option" where
  "vq_rx_free_master vq vr buffer len idx = do {
     (status, vq, vr) \<leftarrow> virtqueue_add_buffer vq vr idx;
     if status = VQUEUE_SUCCESS then Some (vq, vr) else None }"

definition master_vq_ops :: virtqueue_ops where
  "master_vq_ops = \<lparr>vq_tx = vq_tx_master, vq_tx_alloc = vq_tx_alloc_master, vq_rx = vq_rx_master,
     vq_rx_free = vq_rx_free_master\<rparr>"

definition remote_vq_ops :: virtqueue_ops where
  "remote_vq_ops = \<lparr>vq_tx = vq_tx_remote, vq_tx_alloc = vq_tx_alloc_remote, vq_rx = vq_rx_remote,
     vq_rx_free = vq_rx_free_remote\<rparr>"

section \<open>Sending\<close>

definition tx_alloc :: "rl_state \<Rightarrow> (ptr \<times> (u32 \<times> u16) option \<times> rl_state) option" where
  "tx_alloc s = do {
     (buffer, out, q) \<leftarrow> vq_tx_alloc (vq_ops (dev s)) (tvq (dev s)) (tring s);
     Some (buffer, out, s\<lparr>dev := (dev s)\<lparr>tvq := q\<rparr>\<rparr>) }"

text \<open>The loop that waits for a buffer, one millisecond a round: \<open>k\<close> is \<open>timeout\<close> less the
  ticks counted so far.\<close>

fun tx_wait :: "(rl_state \<Rightarrow> rl_state) \<Rightarrow> nat \<Rightarrow> rl_state \<Rightarrow> (ptr \<times> (u32 \<times> u16) option \<times> rl_state) option" where
  "tx_wait sleep 0 s = Some (NULL, None, s)"
| "tx_wait sleep (Suc k) s = do {
     (buffer, out, s) \<leftarrow> tx_alloc (sleep s);
     if buffer \<noteq> NULL then Some (buffer, out, s)
     else if k = 0 then Some (NULL, None, s)
     else tx_wait sleep k s }"

definition tx_alloc_timeout ::
  "(rl_state \<Rightarrow> rl_state) \<Rightarrow> u32 \<Rightarrow> rl_state \<Rightarrow> (ptr \<times> (u32 \<times> u16) option \<times> rl_state) option" where
  "tx_alloc_timeout sleep timeout s = do {
     (buffer, out, s) \<leftarrow> tx_alloc s;
     if buffer \<noteq> NULL then Some (buffer, out, s)
     else if timeout = 0 then Some (NULL, None, s)
     else tx_wait sleep (unat timeout) s }"

text \<open>\<open>env_memcpy\<close> into the payload of a buffer, which has \<open>RL_BUFFER_PAYLOAD_SIZE\<close> bytes.\<close>

definition copy_payload :: "u8 list \<Rightarrow> u32 \<Rightarrow> u8 list \<Rightarrow> u8 list option" where
  "copy_payload data sz old =
     (if unat sz \<le> length data \<and> unat sz \<le> length old then Some (take (unat sz) data @ drop (unat sz) old)
      else None)"

text \<open>\<open>virtqueue_notify\<close> interrupts the other core through \<open>platform_notify\<close>. What the messaging unit carries is
  the index of the queue, which the other core's handler hands to \<open>env_isr\<close>; only the index is kept here.\<close>

definition virtqueue_notify :: "virtqueue \<Rightarrow> rl_state \<Rightarrow> rl_state" where
  "virtqueue_notify vq s = s\<lparr>notified := notified s @ [vq_queue_index vq]\<rparr>"

definition tx_kick :: "rl_state \<Rightarrow> ptr \<Rightarrow> u32 \<Rightarrow> u16 \<Rightarrow> rl_state option" where
  "tx_kick s buffer len idx = do {
     (q, vr) \<leftarrow> vq_tx (vq_ops (dev s)) (tvq (dev s)) (tring s) buffer len idx;
     let (notify, q') = virtqueue_kick q vr;
     let s = s\<lparr>dev := (dev s)\<lparr>tvq := q'\<rparr>, tring := vr\<rparr>;
     Some (if notify then virtqueue_notify q s else s) }"

definition rpmsg_lite_format_message ::
  "(rl_state \<Rightarrow> rl_state) \<Rightarrow> rl_state \<Rightarrow> u32 \<Rightarrow> u32 \<Rightarrow> u8 list option \<Rightarrow> u32 \<Rightarrow> u32 \<Rightarrow> u32 \<Rightarrow>
   (int \<times> rl_state) option" where
  "rpmsg_lite_format_message sleep s src dst data sz flags timeout =
     (case data of None \<Rightarrow> Some (RL_ERR_PARAM, s)
      | Some bytes \<Rightarrow>
        if link_state (dev s) = 0 then Some (RL_NOT_READY, s)
        else do {
          (buffer, out, s) \<leftarrow> tx_alloc_timeout sleep timeout s;
          if buffer = NULL then Some (RL_ERR_NO_MEM, s)
          else do {
            (buff_len, idx) \<leftarrow> out;
            m \<leftarrow> msgs s buffer;
            p \<leftarrow> copy_payload bytes sz (payload m);
            let s = s\<lparr>msgs := (msgs s)(buffer \<mapsto>
              m\<lparr>h_dst := dst, h_src := src, h_len := ucast sz, h_flags := ucast flags, payload := p\<rparr>)\<rparr>;
            s \<leftarrow> tx_kick s buffer buff_len idx;
            Some (RL_SUCCESS, s) } })"

definition rpmsg_lite_send ::
  "(rl_state \<Rightarrow> rl_state) \<Rightarrow> rl_state \<Rightarrow> ptr \<Rightarrow> u32 \<Rightarrow> u8 list option \<Rightarrow> u32 \<Rightarrow> u32 \<Rightarrow> (int \<times> rl_state) option" where
  "rpmsg_lite_send sleep s ept dst data sz timeout =
     (if ept = NULL then Some (RL_ERR_PARAM, s)
      else if sz > RL_BUFFER_PAYLOAD_SIZE then Some (RL_ERR_BUFF_SIZE, s)
      else do {
        e \<leftarrow> epts s ept;
        rpmsg_lite_format_message sleep s (ept_addr e) dst data sz 0 timeout })"

text \<open>The zero-copy interface works on the payload address, 16 bytes into the buffer.\<close>

definition rpmsg_lite_alloc_tx_buffer ::
  "(rl_state \<Rightarrow> rl_state) \<Rightarrow> rl_state \<Rightarrow> u32 \<Rightarrow> (ptr \<times> u32 \<times> rl_state) option" where
  "rpmsg_lite_alloc_tx_buffer sleep s timeout =
     (if link_state (dev s) = 0 then Some (NULL, 0, s)
      else do {
        (buffer, out, s) \<leftarrow> tx_alloc_timeout sleep timeout s;
        if buffer = NULL then Some (NULL, 0, s)
        else do {
          (len, idx) \<leftarrow> out;
          m \<leftarrow> msgs s buffer;
          Some (buffer + 16, len - 16, s\<lparr>msgs := (msgs s)(buffer \<mapsto> m\<lparr>h_idx := idx\<rparr>)\<rparr>) } })"

definition rpmsg_lite_send_nocopy ::
  "rl_state \<Rightarrow> ptr \<Rightarrow> u32 \<Rightarrow> ptr \<Rightarrow> u32 \<Rightarrow> (int \<times> rl_state) option" where
  "rpmsg_lite_send_nocopy s ept dst data sz =
     (if ept = NULL \<or> data = NULL then Some (RL_ERR_PARAM, s)
      else if sz > RL_BUFFER_PAYLOAD_SIZE then Some (RL_ERR_BUFF_SIZE, s)
      else if link_state (dev s) = 0 then Some (RL_NOT_READY, s)
      else do {
        e \<leftarrow> epts s ept;
        m \<leftarrow> msgs s (data - 16);
        let s = s\<lparr>msgs := (msgs s)(data - 16 \<mapsto>
          m\<lparr>h_dst := dst, h_src := ept_addr e, h_len := ucast sz, h_flags := 0\<rparr>)\<rparr>;
        len \<leftarrow> virtqueue_get_buffer_length (tring s) (h_idx m);
        s \<leftarrow> tx_kick s (data - 16) len (h_idx m);
        Some (RL_SUCCESS, s) })"

definition rpmsg_lite_release_rx_buffer :: "rl_state \<Rightarrow> ptr \<Rightarrow> (int \<times> rl_state) option" where
  "rpmsg_lite_release_rx_buffer s rxbuf =
     (if rxbuf = NULL then Some (RL_ERR_PARAM, s)
      else do {
        m \<leftarrow> msgs s (rxbuf - 16);
        len \<leftarrow> virtqueue_get_buffer_length (rring s) (h_idx m);
        (q, vr) \<leftarrow> vq_rx_free (vq_ops (dev s)) (rvq (dev s)) (rring s) (rxbuf - 16) len (h_idx m);
        Some (RL_SUCCESS, s\<lparr>dev := (dev s)\<lparr>rvq := q\<rparr>, rring := vr\<rparr>) })"

section \<open>Receiving\<close>

text \<open>What a receive callback is called with.\<close>

record delivery =
  dl_ept :: rpmsg_lite_endpoint
  dl_payload :: "u8 list"
  dl_len :: u16
  dl_src :: u32

text \<open>\<open>hold\<close> says whether the callback keeps the buffer (\<open>RL_HOLD\<close>). The calls made are
  returned in order.\<close>

definition rx_deliver :: "rl_state \<Rightarrow> rpmsg_std_msg \<Rightarrow> delivery list option" where
  "rx_deliver s m = do {
     node \<leftarrow> rpmsg_lite_get_endpoint_from_addr s (h_dst m);
     (if node \<noteq> NULL then do {
        n \<leftarrow> get_node node (nodes s);
        e \<leftarrow> epts s (ll_data n);
        Some [\<lparr>dl_ept = e, dl_payload = payload m, dl_len = h_len m, dl_src = h_src m\<rparr>] }
      else Some []) }"

definition rx_settle ::
  "(delivery \<Rightarrow> bool) \<Rightarrow> delivery list \<Rightarrow> rl_state \<Rightarrow> ptr \<Rightarrow> rpmsg_std_msg \<Rightarrow> u32 \<Rightarrow> u16 \<Rightarrow> rl_state option" where
  "rx_settle hold call s msg m len idx =
     (if \<exists>d \<in> set call. hold d then Some (s\<lparr>msgs := (msgs s)(msg \<mapsto> m\<lparr>h_idx := idx\<rparr>)\<rparr>)
      else do {
        (q, vr) \<leftarrow> vq_rx_free (vq_ops (dev s)) (rvq (dev s)) (rring s) msg len idx;
        Some (s\<lparr>dev := (dev s)\<lparr>rvq := q\<rparr>, rring := vr\<rparr>) })"

partial_function (option) rx_callback_loop ::
  "(delivery \<Rightarrow> bool) \<Rightarrow> ptr \<Rightarrow> (u32 \<times> u16) option \<Rightarrow> rl_state \<Rightarrow> delivery list \<Rightarrow> (delivery list \<times> rl_state) option" where
  "rx_callback_loop hold msg out s calls =
     (if msg = NULL then Some (calls, s)
      else do {
        (len, idx) \<leftarrow> out;
        m \<leftarrow> msgs s msg;
        call \<leftarrow> rx_deliver s m;
        s \<leftarrow> rx_settle hold call s msg m len idx;
        (msg, out, q) \<leftarrow> vq_rx (vq_ops (dev s)) (rvq (dev s)) (rring s);
        rx_callback_loop hold msg out (s\<lparr>dev := (dev s)\<lparr>rvq := q\<rparr>\<rparr>) (calls @ call) })"

definition rpmsg_lite_rx_callback :: "(delivery \<Rightarrow> bool) \<Rightarrow> rl_state \<Rightarrow> (delivery list \<times> rl_state) option" where
  "rpmsg_lite_rx_callback hold s = do {
     (msg, out, q) \<leftarrow> vq_rx (vq_ops (dev s)) (rvq (dev s)) (rring s);
     rx_callback_loop hold msg out (s\<lparr>dev := (dev s)\<lparr>rvq := q\<rparr>\<rparr>) [] }"

definition rpmsg_lite_tx_callback :: "rl_state \<Rightarrow> rl_state" where
  "rpmsg_lite_tx_callback s = s\<lparr>dev := (dev s)\<lparr>link_state := 1\<rparr>\<rparr>"

section \<open>The endpoint table\<close>

text \<open>Linked nodes: every node but the first knows its predecessor. (The first keeps a
  stale one when it became first by a removal.)\<close>

fun llseg :: "llheap \<Rightarrow> ptr option \<Rightarrow> ptr list \<Rightarrow> ptr \<Rightarrow> bool" where
  "llseg m po [] nx = True"
| "llseg m po (x # xs) nx = (x \<noteq> NULL \<and>
     (\<exists>n. m x = Some n \<and> ll_next n = hd_or nx xs \<and> (\<forall>p. po = Some p \<longrightarrow> ll_prev n = p)) \<and>
     llseg m (Some x) xs nx)"

definition last_opt :: "'a option \<Rightarrow> 'a list \<Rightarrow> 'a option" where
  "last_opt po xs = (if xs = [] then po else Some (last xs))"

lemma last_opt_simps [simp]: "last_opt po [] = po" "last_opt po (x # xs) = last_opt (Some x) xs"
  by (simp_all add: last_opt_def)

lemma llseg_append [simp]:
  "llseg m po (xs @ ys) nx \<longleftrightarrow> llseg m po xs (hd_or nx ys) \<and> llseg m (last_opt po xs) ys nx"
  by (induction xs arbitrary: po) auto

lemma llseg_upd [simp]: "x \<notin> set xs \<Longrightarrow> llseg (m(x := v)) po xs nx = llseg m po xs nx"
  by (induction xs arbitrary: po) auto

lemma llseg_prev_None: "llseg m po xs nx \<Longrightarrow> llseg m None xs nx"
  by (cases xs) auto

text \<open>One entry: the node, the endpoint it points at and what is stored there.\<close>

record entry =
  en_node :: ptr
  en_ept :: ptr
  en_obj :: rpmsg_lite_endpoint

abbreviation (input) en_addr :: "entry \<Rightarrow> u32" where
  "en_addr t \<equiv> ept_addr (en_obj t)"

definition entries_in :: "llheap \<Rightarrow> (ptr \<rightharpoonup> rpmsg_lite_endpoint) \<Rightarrow> entry list \<Rightarrow> bool" where
  "entries_in m es ts \<longleftrightarrow> (\<forall>t \<in> set ts. (\<exists>n. m (en_node t) = Some n \<and> ll_data n = en_ept t) \<and>
     es (en_ept t) = Some (en_obj t))"

definition ept_rep :: "rl_state \<Rightarrow> entry list \<Rightarrow> bool" where
  "ept_rep s ts \<longleftrightarrow> rl_endpoints (dev s) = hd_or NULL (map en_node ts) \<and>
     llseg (nodes s) None (map en_node ts) NULL \<and> entries_in (nodes s) (epts s) ts \<and>
     distinct (map en_node ts) \<and> distinct (map en_ept ts) \<and> NULL \<notin> set (map en_ept ts) \<and>
     distinct (map en_addr ts)"

definition lookup_ept :: "entry list \<Rightarrow> u32 \<Rightarrow> entry option" where
  "lookup_ept ts addr = List.find (\<lambda>t. en_addr t = addr) ts"

lemma get_endpoint_loop_ok:
  assumes "llseg m po (map en_node ts) NULL" "entries_in m es ts"
  shows "get_endpoint_loop m es (hd_or NULL (map en_node ts)) addr =
    Some (case lookup_ept ts addr of None \<Rightarrow> NULL | Some t \<Rightarrow> en_node t)"
  using assms
proof (induction ts arbitrary: po)
  case Nil
  then show ?case by (subst get_endpoint_loop.simps) (simp add: lookup_ept_def)
next
  case (Cons t ts)
  obtain n where n: "m (en_node t) = Some n" "ll_next n = hd_or NULL (map en_node ts)" "en_node t \<noteq> NULL"
    using Cons.prems(1) by auto
  have d: "ll_data n = en_ept t" "es (en_ept t) = Some (en_obj t)" "entries_in m es ts"
    using Cons.prems(2) n(1) by (auto simp: entries_in_def)
  have "llseg m (Some (en_node t)) (map en_node ts) NULL" using Cons.prems(1) by simp
  from Cons.IH [OF this d(3)] show ?case
    using n d by (subst get_endpoint_loop.simps) (simp add: get_node_def lookup_ept_def)
qed

lemma get_endpoint_ok:
  assumes "ept_rep s ts"
  shows "rpmsg_lite_get_endpoint_from_addr s addr =
    Some (case lookup_ept ts addr of None \<Rightarrow> NULL | Some t \<Rightarrow> en_node t)"
proof -
  have r: "rl_endpoints (dev s) = hd_or NULL (map en_node ts)" "llseg (nodes s) None (map en_node ts) NULL"
    "entries_in (nodes s) (epts s) ts"
    using assms by (simp_all add: ept_rep_def)
  show ?thesis
    unfolding rpmsg_lite_get_endpoint_from_addr_def r(1) by (rule get_endpoint_loop_ok [OF r(2,3)])
qed

lemma lookup_ept_None: "lookup_ept ts addr = None \<longleftrightarrow> addr \<notin> set (map en_addr ts)"
  by (auto simp: lookup_ept_def find_None_iff)

lemma lookup_ept_Some: "lookup_ept ts addr = Some t \<Longrightarrow> t \<in> set ts \<and> en_addr t = addr"
  by (auto simp: lookup_ept_def find_Some_iff)

lemma ept_rep_node_not_null: "ept_rep s ts \<Longrightarrow> t \<in> set ts \<Longrightarrow> en_node t \<noteq> NULL"
proof -
  assume r: "ept_rep s ts" and t: "t \<in> set ts"
  have "x \<noteq> NULL" if "llseg m po xs nx" "x \<in> set xs" for m po xs nx x
    using that by (induction xs arbitrary: po) auto
  then show ?thesis using r t by (fastforce simp: ept_rep_def)
qed

lemma get_endpoint_null_iff:
  assumes "ept_rep s ts"
  shows "rpmsg_lite_get_endpoint_from_addr s addr = Some NULL \<longleftrightarrow> addr \<notin> set (map en_addr ts)"
  using get_endpoint_ok [OF assms, of addr] ept_rep_node_not_null [OF assms] lookup_ept_None [of ts addr]
  by (auto split: option.splits dest: lookup_ept_Some)

lemma entries_in_links:
  "entries_in m es ts \<Longrightarrow> m x = Some n \<Longrightarrow> ll_data n' = ll_data n \<Longrightarrow> entries_in (m(x \<mapsto> n')) es ts"
  by (auto simp: entries_in_def)

lemma entries_in_upd:
  assumes "entries_in m es ts" "x \<notin> set (map en_node ts)" "p \<notin> set (map en_ept ts)"
  shows "entries_in (m(x := v)) (es(p := w)) ts"
  unfolding entries_in_def
proof
  fix t assume t: "t \<in> set ts"
  then have "en_node t \<noteq> x" "en_ept t \<noteq> p" using assms(2,3) by auto
  then show "(\<exists>n. (m(x := v)) (en_node t) = Some n \<and> ll_data n = en_ept t) \<and>
      (es(p := w)) (en_ept t) = Some (en_obj t)"
    using assms(1) t by (simp add: entries_in_def)
qed

lemma entries_in_Cons:
  assumes "m (en_node t) = Some n" "ll_data n = en_ept t" "es (en_ept t) = Some (en_obj t)" "entries_in m es ts"
  shows "entries_in m es (t # ts)"
  using assms by (simp add: entries_in_def)

lemma create_ept_at_ok:
  assumes rep: "ept_rep s ts" and addr: "addr \<notin> set (map en_addr ts)"
    and fresh: "p \<noteq> NULL" "node \<noteq> NULL" "p \<notin> set (map en_ept ts)" "node \<notin> set (map en_node ts)"
  shows "\<exists>s'. create_ept_at s addr cb cbd p node = Some (p, s') \<and>
    ept_rep s' (\<lparr>en_node = node, en_ept = p,
      en_obj = \<lparr>ept_addr = addr, ept_rx_cb = cb, ept_rx_cb_data = cbd\<rparr>\<rparr> # ts) \<and>
    s' = s\<lparr>dev := (dev s)\<lparr>rl_endpoints := node\<rparr>, nodes := nodes s', epts := epts s'\<rparr>"
proof -
  let ?e = "\<lparr>ept_addr = addr, ept_rx_cb = cb, ept_rx_cb_data = cbd\<rparr>"
  have other: "entries_in ((nodes s)(node := v)) ((epts s)(p := w)) ts" for v w
    using rep fresh by (intro entries_in_upd) (simp_all add: ept_rep_def)
  show ?thesis
  proof (cases ts)
    case Nil
    then show ?thesis
      using rep fresh
      by (simp add: create_ept_at_def ept_rep_def add_to_list_def mod_node_def Let_def entries_in_def)
  next
    case (Cons t us)
    obtain n where n: "nodes s (en_node t) = Some n" "ll_data n = en_ept t" "en_node t \<noteq> NULL"
      "ll_next n = hd_or NULL (map en_node us)"
      using rep Cons by (auto simp: ept_rep_def entries_in_def)
    have ne: "en_node t \<noteq> node" "en_node t \<notin> set (map en_node us)" "node \<notin> set (map en_node us)"
      using fresh(4) Cons rep by (auto simp: ept_rep_def)
    have seg: "llseg (nodes s) (Some (en_node t)) (map en_node us) NULL"
      using rep Cons by (simp add: ept_rep_def)
    let ?m = "((nodes s)(node \<mapsto> \<lparr>ll_data = p, ll_next = en_node t, ll_prev = NULL\<rparr>))
      (en_node t \<mapsto> n\<lparr>ll_prev := node\<rparr>)"
    have run: "create_ept_at s addr cb cbd p node = Some (p, s\<lparr>epts := (epts s)(p \<mapsto> ?e), nodes := ?m,
        dev := (dev s)\<lparr>rl_endpoints := node\<rparr>\<rparr>)"
      using rep fresh n ne(1) Cons
      by (simp add: create_ept_at_def ept_rep_def add_to_list_def mod_node_def Let_def)
    have "llseg ?m None (node # map en_node ts) NULL"
      using n ne seg fresh(2) Cons by simp
    moreover have "entries_in ?m ((epts s)(p \<mapsto> ?e)) ts"
      using n(1) ne(1) by (intro entries_in_links [OF other, where n = n]) simp_all
    then have "entries_in ?m ((epts s)(p \<mapsto> ?e)) (\<lparr>en_node = node, en_ept = p, en_obj = ?e\<rparr> # ts)"
      using ne(1) by (intro entries_in_Cons [where n = "\<lparr>ll_data = p, ll_next = en_node t, ll_prev = NULL\<rparr>"]) simp_all
    moreover have "distinct (map en_ept ts)" "NULL \<notin> set (map en_ept ts)" "distinct (map en_addr ts)"
      "distinct (map en_node ts)"
      using rep by (simp_all add: ept_rep_def)
    ultimately have "ept_rep (s\<lparr>epts := (epts s)(p \<mapsto> ?e), nodes := ?m,
        dev := (dev s)\<lparr>rl_endpoints := node\<rparr>\<rparr>) (\<lparr>en_node = node, en_ept = p, en_obj = ?e\<rparr> # ts)"
      using fresh addr unfolding ept_rep_def by (simp del: llseg.simps fun_upd_apply)
    with run show ?thesis by simp
  qed
qed


lemma destroy_ept_ok:
  assumes rep: "ept_rep s (ys @ t # zs)"
  shows "\<exists>s'. rpmsg_lite_destroy_ept s (en_ept t) = Some (RL_SUCCESS, s') \<and> ept_rep s' (ys @ zs)"
proof -
  let ?ts = "ys @ t # zs"
  have en: "entries_in (nodes s) (epts s) ?ts" using rep by (simp add: ept_rep_def)
  have t: "epts s (en_ept t) = Some (en_obj t)" using en by (simp add: entries_in_def)
  have dist: "distinct (map en_node ?ts)" "distinct (map en_ept ?ts)" "distinct (map en_addr ?ts)"
    using rep by (simp_all only: ept_rep_def)
  have look: "lookup_ept ?ts (en_addr t) = Some t"
    unfolding lookup_ept_def using dist(3) by (induction ys) auto
  have nn: "en_node t \<noteq> NULL" using ept_rep_node_not_null [OF rep, of t] by simp
  have found: "rpmsg_lite_get_endpoint_from_addr s (en_addr t) = Some (en_node t)"
    using get_endpoint_ok [OF rep] look by simp
  have head: "rl_endpoints (dev s) = hd_or (en_node t) (map en_node ys)" using rep by (simp add: ept_rep_def)
  have segs: "llseg (nodes s) None (map en_node ys) (en_node t)"
    "llseg (nodes s) (last_opt None (map en_node ys)) (en_node t # map en_node zs) NULL"
    using rep by (simp_all add: ept_rep_def)
  obtain n where n: "nodes s (en_node t) = Some n" "ll_next n = hd_or NULL (map en_node zs)"
    "\<forall>p. last_opt None (map en_node ys) = Some p \<longrightarrow> ll_prev n = p"
    "llseg (nodes s) (Some (en_node t)) (map en_node zs) NULL"
    using segs(2) by auto
  have notin: "en_node t \<notin> set (map en_node ys)" "en_node t \<notin> set (map en_node zs)"
    "en_ept t \<notin> set (map en_ept (ys @ zs))"
    using dist(1,2) by auto
  define m where "m = (case rev ys of [] \<Rightarrow> nodes s | y # _ \<Rightarrow>
    (let m1 = (nodes s)(en_node y \<mapsto> (the (nodes s (en_node y)))\<lparr>ll_next := ll_next n\<rparr>) in
     case zs of [] \<Rightarrow> m1 | z # _ \<Rightarrow> m1(en_node z \<mapsto> (the (m1 (en_node z)))\<lparr>ll_prev := en_node y\<rparr>)))"
  have rm: "remove_from_list (rl_endpoints (dev s)) (en_node t) (nodes s) =
      Some (hd_or NULL (map en_node (ys @ zs)), m) \<and>
    llseg m None (map en_node (ys @ zs)) NULL \<and> entries_in m (epts s) (ys @ zs)"
  proof (cases ys rule: rev_cases)
    case Nil
    then have "entries_in (nodes s) (epts s) (ys @ zs)" using en by (simp add: entries_in_def)
    then show ?thesis
      using Nil head n nn by (simp add: remove_from_list_def get_node_def m_def llseg_prev_None)
  next
    case (snoc us y)
    have yp: "ll_prev n = en_node y" using n(3) snoc by (simp add: last_opt_def)
    have y: "en_node y \<noteq> NULL" "en_node y \<noteq> en_node t" "en_node y \<notin> set (map en_node us)"
      "en_node y \<notin> set (map en_node zs)"
      using ept_rep_node_not_null [OF rep, of y] dist(1) snoc by auto
    have hd: "rl_endpoints (dev s) \<noteq> en_node t" "rl_endpoints (dev s) \<noteq> NULL"
    proof -
      have "rl_endpoints (dev s) \<in> set (map en_node ys)" using head snoc by (cases us) auto
      then show "rl_endpoints (dev s) \<noteq> en_node t" "rl_endpoints (dev s) \<noteq> NULL"
        using notin(1) ept_rep_node_not_null [OF rep] by auto
    qed
    obtain ny where ny: "nodes s (en_node y) = Some ny"
      "\<forall>p. last_opt None (map en_node us) = Some p \<longrightarrow> ll_prev ny = p"
      "llseg (nodes s) None (map en_node us) (en_node y)"
      using segs(1) snoc by auto
    have en1: "entries_in (nodes s) (epts s) (ys @ zs)" using en by (simp add: entries_in_def)
    let ?m1 = "(nodes s)(en_node y \<mapsto> ny\<lparr>ll_next := ll_next n\<rparr>)"
    have en2: "entries_in ?m1 (epts s) (ys @ zs)"
      using ny(1) by (intro entries_in_links [OF en1, where n = ny]) simp_all
    show ?thesis
    proof (cases zs)
      case Nil
      then have "m = ?m1" using snoc ny(1) by (simp add: m_def Let_def)
      then show ?thesis
        using Nil snoc hd nn n y ny en2 yp head
        by (simp add: remove_from_list_def get_node_def mod_node_def)
    next
      case (Cons z vs)
      have z: "en_node z \<noteq> NULL" "en_node z \<noteq> en_node t" "en_node z \<noteq> en_node y"
        "en_node z \<notin> set (map en_node us)" "en_node z \<notin> set (map en_node vs)"
        using ept_rep_node_not_null [OF rep, of z] dist(1) snoc Cons by auto
      obtain nz where nz: "nodes s (en_node z) = Some nz" "ll_next nz = hd_or NULL (map en_node vs)"
        "llseg (nodes s) (Some (en_node z)) (map en_node vs) NULL"
        using n(4) Cons by auto
      let ?m2 = "?m1(en_node z \<mapsto> nz\<lparr>ll_prev := en_node y\<rparr>)"
      have m: "m = ?m2" using snoc Cons ny(1) nz(1) z(3) by (simp add: m_def Let_def)
      have en3: "entries_in ?m2 (epts s) (ys @ zs)"
        using nz(1) z(3) by (intro entries_in_links [OF en2, where n = nz]) simp_all
      have seg: "llseg ?m2 None (map en_node (ys @ zs)) NULL"
        using Cons snoc y z ny nz n(2) by simp
      have "remove_from_list (rl_endpoints (dev s)) (en_node t) (nodes s) =
          Some (hd_or NULL (map en_node (ys @ zs)), ?m2)"
        using hd nn n y z ny(1) nz(1) yp snoc Cons head
        by (simp add: remove_from_list_def get_node_def mod_node_def)
      then show ?thesis unfolding m using en3 seg by blast
    qed
  qed
  let ?s = "s\<lparr>dev := (dev s)\<lparr>rl_endpoints := hd_or NULL (map en_node (ys @ zs))\<rparr>,
    nodes := m(en_node t := None), epts := (epts s)(en_ept t := None)\<rparr>"
  have "en_ept t \<noteq> NULL" using rep by (auto simp: ept_rep_def)
  then have "rpmsg_lite_destroy_ept s (en_ept t) = Some (RL_SUCCESS, ?s)"
    using t found nn rm by (simp add: rpmsg_lite_destroy_ept_def)
  moreover have "ept_rep ?s (ys @ zs)"
  proof -
    have "llseg (m(en_node t := None)) None (map en_node (ys @ zs)) NULL"
      using rm notin by (subst llseg_upd) auto
    moreover have "entries_in (m(en_node t := None)) ((epts s)(en_ept t := None)) (ys @ zs)"
      using rm notin by (intro entries_in_upd) auto
    moreover have "NULL \<notin> set (map en_ept (ys @ zs))" using rep by (auto simp: ept_rep_def)
    ultimately show ?thesis using dist by (simp add: ept_rep_def)
  qed
  ultimately show ?thesis by blast
qed

section \<open>The buffers of a queue\<close>

definition buf_of :: "vring \<Rightarrow> u16 \<Rightarrow> ptr" where
  "buf_of v i = env_map_patova (vd_addr (desc v ! unat i))"

text \<open>The descriptors point at different buffers, all in memory and of full size.\<close>

definition bufs_ok :: "vring \<Rightarrow> (ptr \<rightharpoonup> rpmsg_std_msg) \<Rightarrow> bool" where
  "bufs_ok v ms \<longleftrightarrow>
     (\<forall>i. unat i < length (desc v) \<longrightarrow> buf_of v i \<noteq> NULL \<and>
        (\<exists>m. ms (buf_of v i) = Some m \<and> length (payload m) = 496)) \<and>
     (\<forall>i j. unat i < length (desc v) \<longrightarrow> unat j < length (desc v) \<longrightarrow> buf_of v i = buf_of v j \<longrightarrow> i = j)"

lemma buf_of_cong: "desc v' = desc v \<Longrightarrow> buf_of v' i = buf_of v i"
  by (simp add: buf_of_def)

lemma bufs_ok_desc: "bufs_ok v ms \<Longrightarrow> desc v' = desc v \<Longrightarrow> bufs_ok v' ms"
  by (simp add: bufs_ok_def buf_of_def)

lemma bufs_ok_upd: "bufs_ok v ms \<Longrightarrow> length (payload m) = 496 \<Longrightarrow> bufs_ok v (ms(b \<mapsto> m))"
  by (auto simp: bufs_ok_def)

lemma bufs_ok_get:
  assumes "bufs_ok v ms" "unat i < length (desc v)"
  obtains m where "buf_of v i \<noteq> NULL" "ms (buf_of v i) = Some m" "length (payload m) = 496"
  using assms unfolding bufs_ok_def by blast

text \<open>What one core needs of a queue: it takes buffers in the order they come, and hands them
  over in the order it gives them. \<open>I\<close> are the indices that wait for this core, \<open>H\<close> those it
  holds, \<open>Q\<close> those that wait for the other core.\<close>

locale queue_port =
  fixes take_op :: "virtqueue \<Rightarrow> vring \<Rightarrow> (ptr \<times> (u32 \<times> u16) option \<times> virtqueue) option"
    and put_op :: "virtqueue \<Rightarrow> vring \<Rightarrow> ptr \<Rightarrow> u32 \<Rightarrow> u16 \<Rightarrow> (virtqueue \<times> vring) option"
    and port :: "virtqueue \<Rightarrow> vring \<Rightarrow> u16 list \<Rightarrow> u16 set \<Rightarrow> u16 list \<Rightarrow> bool"
  assumes port_range: "port q v I H Q \<Longrightarrow> i \<in> set I \<union> H \<union> set Q \<Longrightarrow> unat i < length (desc v)"
    and port_apart: "port q v I H Q \<Longrightarrow> distinct (I @ Q) \<and> H \<inter> set (I @ Q) = {}"
    and take_empty: "port q v [] H Q \<Longrightarrow> take_op q v = Some (NULL, None, q)"
    and take_next: "port q v (i # I) H Q \<Longrightarrow>
      \<exists>q' len. take_op q v = Some (buf_of v i, Some (len, i), q') \<and> port q' v I (insert i H) Q"
    and put_back: "port q v I H Q \<Longrightarrow> i \<in> H \<Longrightarrow>
      \<exists>q' v'. put_op q v b l i = Some (q', v') \<and> desc v' = desc v \<and> port q' v' I (H - {i}) (Q @ [i])"
    and kick_port: "port q v I H Q \<Longrightarrow> port (snd (virtqueue_kick q v)) v I H Q"

text \<open>The driver and the device end of a virtqueue; \<open>d\<close> is the virtqueue of the other core, which
  no operation of this one changes.\<close>

definition drv_port :: "virtqueue \<Rightarrow> virtqueue \<Rightarrow> vring \<Rightarrow> u16 list \<Rightarrow> u16 set \<Rightarrow> u16 list \<Rightarrow> bool" where
  "drv_port d q v I H Q \<longleftrightarrow> (\<exists>ch. vq_rel q d v ch \<and> map fst (ch_used ch) = I \<and> ch_drv ch = H \<and> ch_avail ch = Q)"

definition dev_port :: "virtqueue \<Rightarrow> virtqueue \<Rightarrow> vring \<Rightarrow> u16 list \<Rightarrow> u16 set \<Rightarrow> u16 list \<Rightarrow> bool" where
  "dev_port d q v I H Q \<longleftrightarrow> (\<exists>ch. vq_rel d q v ch \<and> ch_avail ch = I \<and> ch_dev ch = H \<and> map fst (ch_used ch) = Q)"

lemma port_parts:
  assumes "vq_rel q d v ch"
  shows "distinct (map fst (ch_used ch) @ ch_avail ch)" "distinct (ch_avail ch @ map fst (ch_used ch))"
    "ch_drv ch \<inter> set (map fst (ch_used ch) @ ch_avail ch) = {}"
    "ch_dev ch \<inter> set (ch_avail ch @ map fst (ch_used ch)) = {}"
proof -
  have "distinct (ch_avail ch @ map fst (ch_used ch))"
    "(ch_drv ch \<union> ch_dev ch) \<inter> set (ch_avail ch @ map fst (ch_used ch)) = {}"
    using assms by (simp_all add: vq_rel_def chan_ok_def)
  then show "distinct (map fst (ch_used ch) @ ch_avail ch)" "distinct (ch_avail ch @ map fst (ch_used ch))"
    "ch_drv ch \<inter> set (map fst (ch_used ch) @ ch_avail ch) = {}"
    "ch_dev ch \<inter> set (ch_avail ch @ map fst (ch_used ch)) = {}"
    by (simp_all add: Int_Un_distrib Int_Un_distrib2 Int_commute)
qed

lemma drv_portE:
  assumes "drv_port d q v I H Q"
  obtains ch where "vq_rel q d v ch" "map fst (ch_used ch) = I" "ch_drv ch = H" "ch_avail ch = Q"
  using assms unfolding drv_port_def by blast

lemma dev_portE:
  assumes "dev_port d q v I H Q"
  obtains ch where "vq_rel d q v ch" "ch_avail ch = I" "ch_dev ch = H" "map fst (ch_used ch) = Q"
  using assms unfolding dev_port_def by blast

interpretation master_tx: queue_port vq_tx_alloc_master vq_tx_master "drv_port d" for d
proof unfold_locales
  fix q v H Q and I :: "u16 list" and i
  assume p: "drv_port d q v I H Q" and i: "i \<in> set I \<union> H \<union> set Q"
  from p show "unat i < length (desc v)"
  proof (rule drv_portE)
    fix ch assume r: "vq_rel q d v ch" "map fst (ch_used ch) = I" "ch_drv ch = H" "ch_avail ch = Q"
    show ?thesis by (rule vq_rel_index(2) [OF r(1)]) (use i r(2-) in auto)
  qed
next
  fix q v H Q and I :: "u16 list"
  assume "drv_port d q v I H Q"
  then obtain ch where r: "vq_rel q d v ch" "map fst (ch_used ch) = I" "ch_drv ch = H" "ch_avail ch = Q"
    by (rule drv_portE)
  show "distinct (I @ Q) \<and> H \<inter> set (I @ Q) = {}"
    using port_parts [OF r(1)] r(2-) by simp
  show "drv_port d (snd (virtqueue_kick q v)) v I H Q"
    using vq_rel_kick [OF r(1)] r(2-) unfolding drv_port_def by blast
next
  fix q v H Q i b l and I :: "u16 list"
  assume p: "drv_port d q v I H Q" and i: "i \<in> H"
  from p obtain ch where r: "vq_rel q d v ch" "map fst (ch_used ch) = I" "ch_drv ch = H" "ch_avail ch = Q"
    by (rule drv_portE)
  obtain q' v' where s: "virtqueue_add_buffer q v i = Some (VQUEUE_SUCCESS, q', v')" "desc v' = desc v"
    "vq_rel q' d v' (ch\<lparr>ch_avail := ch_avail ch @ [i], ch_drv := ch_drv ch - {i}\<rparr>)"
    using add_buffer_ok [OF r(1)] i r(3) by blast
  have "drv_port d q' v' I (H - {i}) (Q @ [i])"
    unfolding drv_port_def by (rule exI, rule conjI, rule s(3)) (use r(2-) in simp)
  then show "\<exists>q' v'. vq_tx_master q v b l i = Some (q', v') \<and> desc v' = desc v \<and>
      drv_port d q' v' I (H - {i}) (Q @ [i])"
    using s(1,2) by (simp add: vq_tx_master_def)
next
  fix q v H Q
  assume "drv_port d q v [] H Q"
  then obtain ch where "vq_rel q d v ch" "map fst (ch_used ch) = []" by (rule drv_portE)
  then show "vq_tx_alloc_master q v = Some (NULL, None, q)"
    using get_buffer_empty by (simp add: vq_tx_alloc_master_def)
next
  fix q v H Q i and I :: "u16 list"
  assume "drv_port d q v (i # I) H Q"
  then obtain ch where r: "vq_rel q d v ch" "map fst (ch_used ch) = i # I" "ch_drv ch = H" "ch_avail ch = Q"
    by (rule drv_portE)
  then obtain l us where u: "ch_used ch = (i, l) # us" "map fst us = I" by (cases "ch_used ch") auto
  obtain q' where s: "virtqueue_get_buffer q v = Some (buf_of v i, Some (l, i), q')"
    "vq_rel q' d v (ch\<lparr>ch_used := us, ch_drv := insert i (ch_drv ch)\<rparr>)"
    using get_buffer_ok [OF r(1) u(1)] unfolding buf_of_def by blast
  have "drv_port d q' v I (insert i H) Q"
    unfolding drv_port_def by (rule exI, rule conjI, rule s(2)) (use r(3-) u(2) in simp)
  then show "\<exists>q' len. vq_tx_alloc_master q v = Some (buf_of v i, Some (len, i), q') \<and>
      drv_port d q' v I (insert i H) Q"
    using s(1) by (simp add: vq_tx_alloc_master_def)
qed

interpretation remote_tx: queue_port vq_tx_alloc_remote vq_tx_remote "dev_port d" for d
proof unfold_locales
  fix q v H Q and I :: "u16 list" and i
  assume p: "dev_port d q v I H Q" and i: "i \<in> set I \<union> H \<union> set Q"
  from p show "unat i < length (desc v)"
  proof (rule dev_portE)
    fix ch assume r: "vq_rel d q v ch" "ch_avail ch = I" "ch_dev ch = H" "map fst (ch_used ch) = Q"
    show ?thesis by (rule vq_rel_index(2) [OF r(1)]) (use i r(2-) in auto)
  qed
next
  fix q v H Q and I :: "u16 list"
  assume "dev_port d q v I H Q"
  then obtain ch where r: "vq_rel d q v ch" "ch_avail ch = I" "ch_dev ch = H" "map fst (ch_used ch) = Q"
    by (rule dev_portE)
  show "distinct (I @ Q) \<and> H \<inter> set (I @ Q) = {}"
    using port_parts [OF r(1)] r(2-) by simp
  show "dev_port d (snd (virtqueue_kick q v)) v I H Q"
    using vq_rel_dev_kick [OF r(1)] r(2-) unfolding dev_port_def by blast
next
  fix q v H Q i b l and I :: "u16 list"
  assume p: "dev_port d q v I H Q" and i: "i \<in> H"
  from p obtain ch where r: "vq_rel d q v ch" "ch_avail ch = I" "ch_dev ch = H" "map fst (ch_used ch) = Q"
    by (rule dev_portE)
  obtain v' where s: "virtqueue_add_consumed_buffer q v i l = Some (VQUEUE_SUCCESS, v')" "desc v' = desc v"
    "vq_rel d q v' (ch\<lparr>ch_used := ch_used ch @ [(i, l)], ch_dev := ch_dev ch - {i}\<rparr>)"
    using add_consumed_ok [OF r(1)] i r(3) by blast
  have "dev_port d q v' I (H - {i}) (Q @ [i])"
    unfolding dev_port_def by (rule exI, rule conjI, rule s(3)) (use r(2-) in simp)
  then show "\<exists>q' v'. vq_tx_remote q v b l i = Some (q', v') \<and> desc v' = desc v \<and>
      dev_port d q' v' I (H - {i}) (Q @ [i])"
    using s(1,2) by (simp add: vq_tx_remote_def)
next
  fix q v H Q
  assume "dev_port d q v [] H Q"
  then obtain ch where "vq_rel d q v ch" "ch_avail ch = []" by (rule dev_portE)
  then show "vq_tx_alloc_remote q v = Some (NULL, None, q)"
    using get_available_empty by (simp add: vq_tx_alloc_remote_def)
next
  fix q v H Q i and I :: "u16 list"
  assume "dev_port d q v (i # I) H Q"
  then obtain ch where r: "vq_rel d q v ch" "ch_avail ch = i # I" "ch_dev ch = H" "map fst (ch_used ch) = Q"
    by (rule dev_portE)
  obtain q' where s: "virtqueue_get_available_buffer q v =
      Some (buf_of v i, Some (vd_len (desc v ! unat i), i), q')"
    "vq_rel d q' v (ch\<lparr>ch_avail := I, ch_dev := insert i (ch_dev ch)\<rparr>)"
    using get_available_ok [OF r(1,2)] unfolding buf_of_def by blast
  have "dev_port d q' v I (insert i H) Q"
    unfolding dev_port_def by (rule exI, rule conjI, rule s(2)) (use r(3-) in simp)
  then show "\<exists>q' len. vq_tx_alloc_remote q v = Some (buf_of v i, Some (len, i), q') \<and>
      dev_port d q' v I (insert i H) Q"
    using s(1) by (simp add: vq_tx_alloc_remote_def)
qed

text \<open>One core: the operations of its table keep to the contract in both directions.\<close>

locale rl_side =
  tx: queue_port "vq_tx_alloc ops" "vq_tx ops" port + rx: queue_port "vq_rx ops" "vq_rx_free ops" port
  for ops :: virtqueue_ops
    and port :: "virtqueue \<Rightarrow> vring \<Rightarrow> u16 list \<Rightarrow> u16 set \<Rightarrow> u16 list \<Rightarrow> bool"

definition tx_rel ::
  "virtqueue_ops \<Rightarrow> (virtqueue \<Rightarrow> vring \<Rightarrow> u16 list \<Rightarrow> u16 set \<Rightarrow> u16 list \<Rightarrow> bool) \<Rightarrow>
   rl_state \<Rightarrow> u16 list \<Rightarrow> u16 set \<Rightarrow> u16 list \<Rightarrow> bool" where
  "tx_rel ops port s I H Q \<longleftrightarrow> vq_ops (dev s) = ops \<and> port (tvq (dev s)) (tring s) I H Q \<and>
     bufs_ok (tring s) (msgs s)"

definition rx_rel ::
  "virtqueue_ops \<Rightarrow> (virtqueue \<Rightarrow> vring \<Rightarrow> u16 list \<Rightarrow> u16 set \<Rightarrow> u16 list \<Rightarrow> bool) \<Rightarrow>
   rl_state \<Rightarrow> u16 list \<Rightarrow> u16 set \<Rightarrow> u16 list \<Rightarrow> bool" where
  "rx_rel ops port s I H Q \<longleftrightarrow> vq_ops (dev s) = ops \<and> port (rvq (dev s)) (rring s) I H Q \<and>
     bufs_ok (rring s) (msgs s)"

text \<open>A message as its receiver sees it.\<close>

definition msg_view :: "rpmsg_std_msg \<Rightarrow> u32 \<times> u32 \<times> u8 list" where
  "msg_view m = (h_src m, h_dst m, take (unat (h_len m)) (payload m))"

definition flight :: "rl_state \<Rightarrow> u16 list \<Rightarrow> (u32 \<times> u32 \<times> u8 list) list" where
  "flight s Q = map (\<lambda>i. msg_view (the (msgs s (buf_of (tring s) i)))) Q"

lemma copy_payload_ok:
  "unat sz \<le> length bytes \<Longrightarrow> unat sz \<le> length old \<Longrightarrow>
   \<exists>p. copy_payload bytes sz old = Some p \<and> length p = length old \<and> take (unat sz) p = take (unat sz) bytes"
  by (auto simp: copy_payload_def)

context rl_side begin

lemma tx_alloc_none:
  assumes "tx_rel ops port s [] H Q"
  shows "tx_alloc s = Some (NULL, None, s)"
  using assms tx.take_empty [of "tvq (dev s)" "tring s" H Q] by (simp add: tx_alloc_def tx_rel_def)

lemma tx_alloc_some:
  assumes "tx_rel ops port s (i # I) H Q"
  shows "\<exists>s' len q. tx_alloc s = Some (buf_of (tring s) i, Some (len, i), s') \<and>
    s' = s\<lparr>dev := (dev s)\<lparr>tvq := q\<rparr>\<rparr> \<and> tx_rel ops port s' I (insert i H) Q"
  using assms tx.take_next [of "tvq (dev s)" "tring s" i I H Q] by (fastforce simp: tx_alloc_def tx_rel_def)

lemma tx_kick_ok:
  assumes "tx_rel ops port s I H Q" "i \<in> H"
  shows "\<exists>s'. tx_kick s b len i = Some s' \<and> desc (tring s') = desc (tring s) \<and> msgs s' = msgs s \<and>
    tx_rel ops port s' I (H - {i}) (Q @ [i])"
proof -
  have r: "vq_ops (dev s) = ops" "port (tvq (dev s)) (tring s) I H Q" "bufs_ok (tring s) (msgs s)"
    using assms(1) by (simp_all add: tx_rel_def)
  obtain q v where v: "vq_tx ops (tvq (dev s)) (tring s) b len i = Some (q, v)" "desc v = desc (tring s)"
    "port q v I (H - {i}) (Q @ [i])"
    using tx.put_back [OF r(2) assms(2)] by blast
  show ?thesis
    using v r bufs_ok_desc [OF r(3) v(2)] tx.kick_port [OF v(3)]
    by (cases "virtqueue_kick q v") (simp add: tx_kick_def tx_rel_def virtqueue_notify_def Let_def)
qed

end

lemma same_ops:
  "vq_rx_master = vq_tx_alloc_master" "vq_rx_free_master = vq_tx_master"
  "vq_rx_remote = vq_tx_alloc_remote" "vq_rx_free_remote = vq_tx_remote"
  unfolding fun_eq_iff by (simp_all add: vq_rx_master_def vq_tx_alloc_master_def vq_rx_free_master_def vq_tx_master_def
      vq_rx_remote_def vq_tx_alloc_remote_def vq_rx_free_remote_def vq_tx_remote_def)

interpretation master: rl_side master_vq_ops "drv_port d" for d
  by (rule rl_side.intro) (simp_all add: master_vq_ops_def same_ops master_tx.queue_port_axioms)

interpretation remote: rl_side remote_vq_ops "dev_port d" for d
  by (rule rl_side.intro) (simp_all add: remote_vq_ops_def same_ops remote_tx.queue_port_axioms)

lemma tx_alloc_dev:
  "tx_alloc s = Some (b, out, s') \<Longrightarrow> \<exists>q. s' = s\<lparr>dev := (dev s)\<lparr>tvq := q\<rparr>\<rparr>"
  by (auto simp: tx_alloc_def split: bind_splits)

text \<open>Waiting: the queue stays empty for the first \<open>k\<close> looks.\<close>

definition starved :: "(rl_state \<Rightarrow> rl_state) \<Rightarrow> rl_state \<Rightarrow> nat \<Rightarrow> bool" where
  "starved sleep s k \<longleftrightarrow> (\<forall>j < k. tx_alloc ((sleep ^^ j) s) = Some (NULL, None, (sleep ^^ j) s))"

lemma starved_step: "starved sleep s (Suc k) \<Longrightarrow> starved sleep (sleep s) k"
  unfolding starved_def
proof (intro allI impI)
  fix j assume h: "\<forall>j < Suc k. tx_alloc ((sleep ^^ j) s) = Some (NULL, None, (sleep ^^ j) s)" "j < k"
  then have "tx_alloc ((sleep ^^ Suc j) s) = Some (NULL, None, (sleep ^^ Suc j) s)" by blast
  then show "tx_alloc ((sleep ^^ j) (sleep s)) = Some (NULL, None, (sleep ^^ j) (sleep s))"
    by (simp add: funpow_swap1)
qed

lemma starved_head: "starved sleep s (Suc k) \<Longrightarrow> tx_alloc s = Some (NULL, None, s)"
  unfolding starved_def by (metis funpow_0 zero_less_Suc)

context rl_side begin

lemma put_message_ok:
  assumes rel: "tx_rel ops port s I (insert i H) Q" and i: "i \<notin> H"
    and b: "b = buf_of (tring s) i" and m: "length (payload m) = 496"
  shows "\<exists>s'. tx_kick (s\<lparr>msgs := (msgs s)(b \<mapsto> m)\<rparr>) b len i = Some s' \<and>
    desc (tring s') = desc (tring s) \<and> msgs s' = (msgs s)(b \<mapsto> m) \<and> tx_rel ops port s' I H (Q @ [i]) \<and>
    flight s' (Q @ [i]) = flight s Q @ [msg_view m]"
proof -
  let ?s = "s\<lparr>msgs := (msgs s)(b \<mapsto> m)\<rparr>"
  have r: "tx_rel ops port ?s I (insert i H) Q"
    using rel bufs_ok_upd [of "tring s" "msgs s" m b] m by (simp add: tx_rel_def)
  have "port (tvq (dev s)) (tring s) I (insert i H) Q" using rel by (simp add: tx_rel_def)
  then have rng: "unat j < length (desc (tring s))" if "j = i \<or> j \<in> set Q" for j
    using tx.port_range that by blast
  have iQ: "i \<notin> set Q" using rel tx.port_apart [of "tvq (dev s)" "tring s" I "insert i H" Q]
    by (auto simp: tx_rel_def)
  have ok: "bufs_ok (tring s) (msgs s)" using rel by (simp add: tx_rel_def)
  obtain s' where s': "tx_kick ?s b len i = Some s'" "desc (tring s') = desc (tring ?s)" "msgs s' = msgs ?s"
    "tx_rel ops port s' I (insert i H - {i}) (Q @ [i])"
    using tx_kick_ok [OF r] by blast
  have "buf_of (tring s) j \<noteq> b" if "j \<in> set Q" for j
    using ok rng that iQ unfolding b bufs_ok_def by metis
  then have "flight s' (Q @ [i]) = flight s Q @ [msg_view m]"
    using s'(2,3) by (simp add: flight_def buf_of_cong [OF s'(2)] b)
  moreover have "insert i H - {i} = H" using i by simp
  ultimately show ?thesis using s' by auto
qed

lemma tx_wait_none:
  "n \<noteq> 0 \<Longrightarrow> starved sleep (sleep s) n \<Longrightarrow> tx_wait sleep n s = Some (NULL, None, (sleep ^^ n) s)"
proof (induction n arbitrary: s)
  case (Suc n)
  have a: "tx_alloc (sleep s) = Some (NULL, None, sleep s)"
    using starved_head [OF Suc.prems(2)] .
  show ?case
    using Suc.IH [of "sleep s"] starved_step [OF Suc.prems(2)] a
    by (cases n) (simp_all add: funpow_swap1)
qed simp

lemma tx_wait_some:
  "k < n \<Longrightarrow> starved sleep (sleep s) k \<Longrightarrow>
   tx_alloc ((sleep ^^ k) (sleep s)) = Some (b, out, s') \<Longrightarrow> b \<noteq> NULL \<Longrightarrow> tx_wait sleep n s = Some (b, out, s')"
proof (induction n arbitrary: s k)
  case (Suc n)
  show ?case
  proof (cases k)
    case 0
    then show ?thesis using Suc.prems(3,4) by simp
  next
    case (Suc j)
    have "tx_alloc (sleep s) = Some (NULL, None, sleep s)"
      using starved_head Suc.prems(2) Suc by blast
    moreover have "tx_wait sleep n (sleep s) = Some (b, out, s')"
    proof (rule Suc.IH)
      show "j < n" using Suc.prems(1) Suc by simp
      show "starved sleep (sleep (sleep s)) j" using starved_step Suc.prems(2) Suc by blast
      show "tx_alloc ((sleep ^^ j) (sleep (sleep s))) = Some (b, out, s')"
        using Suc.prems(3) Suc by (simp add: funpow_swap1)
    qed (rule Suc.prems(4))
    ultimately show ?thesis using Suc Suc.prems(1) by simp
  qed
qed simp

lemma tx_alloc_timeout_none:
  assumes "starved sleep s (Suc (unat t))"
  shows "tx_alloc_timeout sleep t s = Some (NULL, None, (sleep ^^ unat t) s)"
proof -
  have a: "tx_alloc s = Some (NULL, None, s)" using starved_head [OF assms] .
  show ?thesis
  proof (cases "t = 0")
    case True
    then show ?thesis using a by (simp add: tx_alloc_timeout_def)
  next
    case False
    then have "unat t \<noteq> 0" by (simp add: unat_eq_zero)
    then show ?thesis
      using a False tx_wait_none starved_step [OF assms] by (simp add: tx_alloc_timeout_def)
  qed
qed

lemma tx_alloc_timeout_some:
  assumes "k \<le> unat t" "starved sleep s k" "tx_rel ops port ((sleep ^^ k) s) (i # I) H Q"
  shows "\<exists>s' len q. tx_alloc_timeout sleep t s = Some (buf_of (tring ((sleep ^^ k) s)) i, Some (len, i), s') \<and>
    s' = ((sleep ^^ k) s)\<lparr>dev := (dev ((sleep ^^ k) s))\<lparr>tvq := q\<rparr>\<rparr> \<and> tx_rel ops port s' I (insert i H) Q \<and>
    buf_of (tring ((sleep ^^ k) s)) i \<noteq> NULL"
proof -
  let ?s = "(sleep ^^ k) s"
  obtain s' len q where a: "tx_alloc ?s = Some (buf_of (tring ?s) i, Some (len, i), s')"
    "s' = ?s\<lparr>dev := (dev ?s)\<lparr>tvq := q\<rparr>\<rparr>" "tx_rel ops port s' I (insert i H) Q"
    using tx_alloc_some [OF assms(3)] by blast
  have "port (tvq (dev ?s)) (tring ?s) (i # I) H Q" "bufs_ok (tring ?s) (msgs ?s)"
    using assms(3) by (simp_all add: tx_rel_def)
  then have b: "buf_of (tring ?s) i \<noteq> NULL" using tx.port_range unfolding bufs_ok_def by (metis UnI1 list.set_intros(1))
  have "tx_alloc_timeout sleep t s = Some (buf_of (tring ?s) i, Some (len, i), s')"
  proof (cases k)
    case 0
    then show ?thesis using a(1) b by (simp add: tx_alloc_timeout_def)
  next
    case (Suc j)
    have "tx_alloc s = Some (NULL, None, s)" using starved_head assms(2) Suc by blast
    moreover have "tx_wait sleep (unat t) s = Some (buf_of (tring ?s) i, Some (len, i), s')"
    proof (rule tx_wait_some)
      show "j < unat t" using assms(1) Suc by simp
      show "starved sleep (sleep s) j" using starved_step assms(2) Suc by blast
      show "tx_alloc ((sleep ^^ j) (sleep s)) = Some (buf_of (tring ?s) i, Some (len, i), s')"
        using a(1) Suc by (simp add: funpow_swap1)
    qed (rule b)
    moreover have "t \<noteq> 0" using assms(1) Suc by auto
    ultimately show ?thesis by (simp add: tx_alloc_timeout_def)
  qed
  then show ?thesis using a b by blast
qed

end

lemma payload_len:
  assumes "sz \<le> RL_BUFFER_PAYLOAD_SIZE"
  shows "unat sz \<le> 496" "unat (ucast sz :: u16) = unat sz"
proof -
  show l: "unat sz \<le> 496" using assms by (simp add: word_le_nat_alt)
  then show "unat (ucast sz :: u16) = unat sz" by (simp add: unat_ucast_mod)
qed

context rl_side begin

lemma tx_buf_range:
  assumes "tx_rel ops port s I H Q" "i \<in> set I \<union> H \<union> set Q"
  obtains m where "buf_of (tring s) i \<noteq> NULL" "msgs s (buf_of (tring s) i) = Some m" "length (payload m) = 496"
    "unat i < length (desc (tring s))"
proof -
  have "port (tvq (dev s)) (tring s) I H Q" and ok: "bufs_ok (tring s) (msgs s)"
    using assms(1) by (simp_all add: tx_rel_def)
  then have r: "unat i < length (desc (tring s))" using tx.port_range assms(2) by blast
  from bufs_ok_get [OF ok this] that r show thesis by blast
qed

lemma tx_waiting_not_held:
  assumes "tx_rel ops port s (i # I) H Q"
  shows "i \<notin> H"
  using assms tx.port_apart [of "tvq (dev s)" "tring s" "i # I" H Q] by (auto simp: tx_rel_def)

lemma send_ok:
  assumes e: "ept \<noteq> NULL" "epts s ept = Some e" and link: "link_state (dev s) \<noteq> 0"
    and sz: "sz \<le> RL_BUFFER_PAYLOAD_SIZE" "unat sz \<le> length bytes"
    and k: "k \<le> unat timeout" "starved sleep s k" "tx_rel ops port ((sleep ^^ k) s) (i # I) H Q"
  shows "\<exists>s' m. rpmsg_lite_send sleep s ept dst (Some bytes) sz timeout = Some (RL_SUCCESS, s') \<and>
    tx_rel ops port s' I H (Q @ [i]) \<and>
    flight s' (Q @ [i]) = flight ((sleep ^^ k) s) Q @ [(ept_addr e, dst, take (unat sz) bytes)] \<and>
    msgs s' = (msgs ((sleep ^^ k) s))(buf_of (tring ((sleep ^^ k) s)) i \<mapsto> m) \<and>
    desc (tring s') = desc (tring ((sleep ^^ k) s))"
proof -
  let ?s = "(sleep ^^ k) s" and ?b = "buf_of (tring ((sleep ^^ k) s)) i"
  obtain s1 len q where a: "tx_alloc_timeout sleep timeout s = Some (?b, Some (len, i), s1)"
    "s1 = ?s\<lparr>dev := (dev ?s)\<lparr>tvq := q\<rparr>\<rparr>" "tx_rel ops port s1 I (insert i H) Q" "?b \<noteq> NULL"
    using tx_alloc_timeout_some [OF k] by blast
  have s1: "tring s1 = tring ?s" "msgs s1 = msgs ?s" using a(2) by simp_all
  obtain m where m: "msgs s1 ?b = Some m" "length (payload m) = 496"
    using tx_buf_range [OF a(3), of i] s1(1) by (metis insertI1 UnI1 UnI2)
  obtain p where p: "copy_payload bytes sz (payload m) = Some p" "length p = 496"
    "take (unat sz) p = take (unat sz) bytes"
    using copy_payload_ok [OF sz(2), of "payload m"] payload_len(1) [OF sz(1)] m(2) by auto
  let ?m = "m\<lparr>h_dst := dst, h_src := ept_addr e, h_len := ucast sz, h_flags := ucast (0 :: u32), payload := p\<rparr>"
  have view: "msg_view ?m = (ept_addr e, dst, take (unat sz) bytes)"
    using payload_len(2) [OF sz(1)] p(3) by (simp add: msg_view_def)
  obtain s' where s': "tx_kick (s1\<lparr>msgs := (msgs s1)(?b \<mapsto> ?m)\<rparr>) ?b len i = Some s'"
    "msgs s' = (msgs s1)(?b \<mapsto> ?m)" "tx_rel ops port s' I H (Q @ [i])"
    "flight s' (Q @ [i]) = flight s1 Q @ [msg_view ?m]" "desc (tring s') = desc (tring s1)"
    using put_message_ok [OF a(3) tx_waiting_not_held [OF k(3)], of ?b ?m len] s1(1) p(2) by auto
  have fl: "flight s1 Q = flight ?s Q" by (simp add: flight_def s1)
  have run: "rpmsg_lite_send sleep s ept dst (Some bytes) sz timeout = Some (RL_SUCCESS, s')"
    using e link sz(1) a(1,4) m(1) p(1) s'(1)
    by (simp add: rpmsg_lite_send_def rpmsg_lite_format_message_def Let_def not_less)
  show ?thesis
    by (rule exI [of _ s'], rule exI [of _ ?m]) (use run s'(2-) fl view s1 in simp)
qed

lemma send_starved:
  assumes "ept \<noteq> NULL" "epts s ept = Some e" "link_state (dev s) \<noteq> 0" "sz \<le> RL_BUFFER_PAYLOAD_SIZE"
    and "starved sleep s (Suc (unat timeout))"
  shows "rpmsg_lite_send sleep s ept dst (Some bytes) sz timeout =
    Some (RL_ERR_NO_MEM, (sleep ^^ unat timeout) s)"
  using tx_alloc_timeout_none [OF assms(5)] assms(1-4)
  by (simp add: rpmsg_lite_send_def rpmsg_lite_format_message_def not_less)

text \<open>The zero-copy interface: the sender fills the payload between the two calls.\<close>

lemma nocopy_ok:
  assumes e: "ept \<noteq> NULL" "epts s ept = Some e" and link: "link_state (dev s) \<noteq> 0"
    and sz: "sz \<le> RL_BUFFER_PAYLOAD_SIZE" and p: "length p = 496"
    and rel: "tx_rel ops port s (i # I) H Q"
    and b: "buf_of (tring s) i + 16 \<noteq> NULL"
  shows "\<exists>n s1 m s'. rpmsg_lite_alloc_tx_buffer sleep s timeout = Some (buf_of (tring s) i + 16, n, s1) \<and>
    tx_rel ops port s1 I (insert i H) Q \<and> msgs s1 (buf_of (tring s) i) = Some m \<and>
    rpmsg_lite_send_nocopy (s1\<lparr>msgs := (msgs s1)(buf_of (tring s) i \<mapsto> m\<lparr>payload := p\<rparr>)\<rparr>)
      ept dst (buf_of (tring s) i + 16) sz = Some (RL_SUCCESS, s') \<and>
    tx_rel ops port s' I H (Q @ [i]) \<and>
    flight s' (Q @ [i]) = flight s Q @ [(ept_addr e, dst, take (unat sz) p)]"
proof -
  let ?b = "buf_of (tring s) i"
  have st: "starved sleep s 0" by (simp add: starved_def)
  obtain s0 len q where a: "tx_alloc_timeout sleep timeout s = Some (?b, Some (len, i), s0)"
    "s0 = s\<lparr>dev := (dev s)\<lparr>tvq := q\<rparr>\<rparr>" "tx_rel ops port s0 I (insert i H) Q" "?b \<noteq> NULL"
    using tx_alloc_timeout_some [of 0 timeout sleep s i I H Q, OF _ st] rel by auto
  have s0: "tring s0 = tring s" "msgs s0 = msgs s" using a(2) by simp_all
  obtain m where m: "msgs s0 ?b = Some m" "length (payload m) = 496" "unat i < length (desc (tring s0))"
    using tx_buf_range [OF a(3), of i] s0(1) by (metis insertI1 UnI1 UnI2)
  let ?s1 = "s0\<lparr>msgs := (msgs s0)(?b \<mapsto> m\<lparr>h_idx := i\<rparr>)\<rparr>"
  have al: "rpmsg_lite_alloc_tx_buffer sleep s timeout = Some (?b + 16, len - 16, ?s1)"
    using link a(1,4) m(1) by (simp add: rpmsg_lite_alloc_tx_buffer_def)
  have r1: "tx_rel ops port ?s1 I (insert i H) Q"
    using a(3) bufs_ok_upd [of "tring s0" "msgs s0" "m\<lparr>h_idx := i\<rparr>" ?b] m(2) by (simp add: tx_rel_def)
  let ?m = "m\<lparr>h_idx := i, payload := p, h_dst := dst, h_src := ept_addr e, h_len := ucast sz, h_flags := 0\<rparr>"
  let ?s2 = "?s1\<lparr>msgs := (msgs ?s1)(?b \<mapsto> m\<lparr>h_idx := i, payload := p\<rparr>)\<rparr>"
  obtain s' where s': "tx_kick (s0\<lparr>msgs := (msgs s0)(?b \<mapsto> ?m)\<rparr>) ?b (vd_len (desc (tring s0) ! unat i)) i = Some s'"
    "tx_rel ops port s' I H (Q @ [i])" "flight s' (Q @ [i]) = flight s0 Q @ [msg_view ?m]"
    using put_message_ok [OF a(3) tx_waiting_not_held [OF rel], of ?b ?m] s0(1) p by auto
  have "rpmsg_lite_send_nocopy ?s2 ept dst (?b + 16) sz = Some (RL_SUCCESS, s')"
    using e link sz b m(3) s'(1) a(2)
    by (simp add: rpmsg_lite_send_nocopy_def Let_def not_less virtqueue_get_buffer_length_def nth_opt_def)
  moreover have "msg_view ?m = (ept_addr e, dst, take (unat sz) p)"
    using payload_len(2) [OF sz] by (simp add: msg_view_def)
  moreover have "flight s0 Q = flight s Q" by (simp add: flight_def s0)
  moreover have "?s2 = ?s1\<lparr>msgs := (msgs ?s1)(?b \<mapsto> (m\<lparr>h_idx := i\<rparr>)\<lparr>payload := p\<rparr>)\<rparr>" by simp
  moreover have "msgs ?s1 ?b = Some (m\<lparr>h_idx := i\<rparr>)" by simp
  ultimately show ?thesis using al r1 s'(2,3) by metis
qed

end

text \<open>The calls one received message leads to.\<close>

definition calls_for :: "entry list \<Rightarrow> rpmsg_std_msg \<Rightarrow> delivery list" where
  "calls_for ts m = (case lookup_ept ts (h_dst m) of None \<Rightarrow> []
     | Some t \<Rightarrow> [\<lparr>dl_ept = en_obj t, dl_payload = payload m, dl_len = h_len m, dl_src = h_src m\<rparr>])"

definition received :: "rl_state \<Rightarrow> u16 \<Rightarrow> rpmsg_std_msg" where
  "received s i = the (msgs s (buf_of (rring s) i))"

text \<open>The messages whose receiver keeps them.\<close>

definition kept :: "(delivery \<Rightarrow> bool) \<Rightarrow> entry list \<Rightarrow> rl_state \<Rightarrow> u16 \<Rightarrow> bool" where
  "kept hold ts s i \<longleftrightarrow> (\<exists>d \<in> set (calls_for ts (received s i)). hold d)"

lemma ept_rep_cong:
  "rl_endpoints (dev s') = rl_endpoints (dev s) \<Longrightarrow> nodes s' = nodes s \<Longrightarrow> epts s' = epts s \<Longrightarrow>
   ept_rep s' ts = ept_rep s ts"
  by (simp add: ept_rep_def)

lemma deliver_ok:
  assumes rep: "ept_rep s ts"
  shows "rx_deliver s m = Some (calls_for ts m)"
proof (cases "lookup_ept ts (h_dst m)")
  case None
  then show ?thesis using get_endpoint_ok [OF rep, of "h_dst m"] by (simp add: calls_for_def rx_deliver_def)
next
  case (Some t)
  then have t: "t \<in> set ts" using lookup_ept_Some by blast
  then have "en_node t \<noteq> NULL" using ept_rep_node_not_null [OF rep] by simp
  moreover obtain n where "nodes s (en_node t) = Some n" "ll_data n = en_ept t" "epts s (en_ept t) = Some (en_obj t)"
    using rep t by (auto simp: ept_rep_def entries_in_def)
  ultimately show ?thesis
    using get_endpoint_ok [OF rep, of "h_dst m"] Some by (simp add: calls_for_def get_node_def rx_deliver_def)
qed

context rl_side begin

lemma rx_buf_range:
  assumes "rx_rel ops port s I H Q" "i \<in> set I \<union> H \<union> set Q"
  obtains m where "buf_of (rring s) i \<noteq> NULL" "msgs s (buf_of (rring s) i) = Some m" "length (payload m) = 496"
    "unat i < length (desc (rring s))"
proof -
  have "port (rvq (dev s)) (rring s) I H Q" and ok: "bufs_ok (rring s) (msgs s)"
    using assms(1) by (simp_all add: rx_rel_def)
  then have r: "unat i < length (desc (rring s))" using rx.port_range assms(2) by blast
  from bufs_ok_get [OF ok this] that r show thesis by blast
qed

lemma rx_buf_inj:
  assumes "rx_rel ops port s I H Q" "i \<in> set I \<union> H \<union> set Q" "j \<in> set I \<union> H \<union> set Q" "i \<noteq> j"
  shows "buf_of (rring s) i \<noteq> buf_of (rring s) j"
proof -
  have "port (rvq (dev s)) (rring s) I H Q" and ok: "bufs_ok (rring s) (msgs s)"
    using assms(1) by (simp_all add: rx_rel_def)
  then have "unat i < length (desc (rring s))" "unat j < length (desc (rring s))"
    using rx.port_range assms(2,3) by blast+
  then show ?thesis using ok assms(4) unfolding bufs_ok_def by blast
qed

lemma rx_free_ok:
  assumes "rx_rel ops port s I H Q" "i \<in> H"
  shows "\<exists>q v. vq_rx_free ops (rvq (dev s)) (rring s) b l i = Some (q, v) \<and> desc v = desc (rring s) \<and>
    rx_rel ops port (s\<lparr>dev := (dev s)\<lparr>rvq := q\<rparr>, rring := v\<rparr>) I (H - {i}) (Q @ [i])"
proof -
  have r: "vq_ops (dev s) = ops" "port (rvq (dev s)) (rring s) I H Q" "bufs_ok (rring s) (msgs s)"
    using assms(1) by (simp_all add: rx_rel_def)
  obtain q v where v: "vq_rx_free ops (rvq (dev s)) (rring s) b l i = Some (q, v)" "desc v = desc (rring s)"
    "port q v I (H - {i}) (Q @ [i])"
    using rx.put_back [OF r(2) assms(2)] by blast
  then show ?thesis using r bufs_ok_desc [OF r(3) v(2)] by (simp add: rx_rel_def)
qed

lemma rx_take_none:
  "rx_rel ops port s [] H Q \<Longrightarrow> vq_rx ops (rvq (dev s)) (rring s) = Some (NULL, None, rvq (dev s))"
  unfolding rx_rel_def using rx.take_empty by blast

lemma rx_take_some:
  assumes "rx_rel ops port s (i # I) H Q"
  shows "\<exists>q len. vq_rx ops (rvq (dev s)) (rring s) = Some (buf_of (rring s) i, Some (len, i), q) \<and>
    rx_rel ops port (s\<lparr>dev := (dev s)\<lparr>rvq := q\<rparr>\<rparr>) I (insert i H) Q"
  using rx.take_next [of "rvq (dev s)" "rring s" i I H Q] assms by (fastforce simp: rx_rel_def)

text \<open>One round: the message in hand is delivered, and kept or given back.\<close>

lemma rx_settle_ok:
  assumes rel: "rx_rel ops port s I (insert i H) Q" and i: "i \<notin> H" and rep: "ept_rep s ts"
    and m: "m = received s i"
  shows "\<exists>s'. rx_settle hold (calls_for ts m) s (buf_of (rring s) i) m len i = Some s' \<and>
    ept_rep s' ts \<and> desc (rring s') = desc (rring s) \<and>
    (\<forall>b. msgs s' b = (if b = buf_of (rring s) i \<and> kept hold ts s i then Some (m\<lparr>h_idx := i\<rparr>) else msgs s b)) \<and>
    rx_rel ops port s' I (if kept hold ts s i then insert i H else H) (Q @ (if kept hold ts s i then [] else [i]))"
proof (cases "kept hold ts s i")
  case True
  let ?s = "s\<lparr>msgs := (msgs s)(buf_of (rring s) i \<mapsto> m\<lparr>h_idx := i\<rparr>)\<rparr>"
  obtain m' where "msgs s (buf_of (rring s) i) = Some m'" "length (payload m') = 496"
    using rx_buf_range [OF rel, of i] by (metis insertI1 UnI1 UnI2)
  then have "length (payload m) = 496" by (simp add: m received_def)
  then have "rx_rel ops port ?s I (insert i H) Q"
    using rel bufs_ok_upd [of "rring s" "msgs s" "m\<lparr>h_idx := i\<rparr>"] by (simp add: rx_rel_def)
  moreover have "\<exists>d \<in> set (calls_for ts m). hold d" using True by (simp add: kept_def m)
  moreover have "ept_rep ?s ts" using rep by (simp add: ept_rep_def)
  ultimately show ?thesis using True by (intro exI [of _ ?s]) (simp add: rx_settle_def)
next
  case False
  obtain q v where v: "vq_rx_free ops (rvq (dev s)) (rring s) (buf_of (rring s) i) len i = Some (q, v)"
    "desc v = desc (rring s)"
    "rx_rel ops port (s\<lparr>dev := (dev s)\<lparr>rvq := q\<rparr>, rring := v\<rparr>) I (insert i H - {i}) (Q @ [i])"
    using rx_free_ok [OF rel] by blast
  let ?s = "s\<lparr>dev := (dev s)\<lparr>rvq := q\<rparr>, rring := v\<rparr>"
  have "vq_ops (dev s) = ops" using rel by (simp add: rx_rel_def)
  moreover have "\<not> (\<exists>d \<in> set (calls_for ts m). hold d)" using False by (simp add: kept_def m)
  moreover have "insert i H - {i} = H" using i by simp
  moreover have "ept_rep ?s ts" using rep by (simp add: ept_rep_def)
  ultimately show ?thesis using False v by (intro exI [of _ ?s]) (simp add: rx_settle_def)
qed

lemma rx_loop_ok:
  assumes "rx_rel ops port s I (insert i H) Q" "i \<notin> H" "ept_rep s ts"
  shows "\<exists>s'. rx_callback_loop hold (buf_of (rring s) i) (Some (len, i)) s calls =
      Some (calls @ concat (map (\<lambda>j. calls_for ts (received s j)) (i # I)), s') \<and>
    ept_rep s' ts \<and> desc (rring s') = desc (rring s) \<and>
    (\<forall>j \<in> set (i # I). kept hold ts s j \<longrightarrow>
      msgs s' (buf_of (rring s) j) = Some ((received s j)\<lparr>h_idx := j\<rparr>)) \<and>
    (\<forall>b. (\<forall>j \<in> set (i # I). kept hold ts s j \<longrightarrow> b \<noteq> buf_of (rring s) j) \<longrightarrow> msgs s' b = msgs s b) \<and>
    rx_rel ops port s' [] (H \<union> {j \<in> set (i # I). kept hold ts s j})
      (Q @ filter (\<lambda>j. \<not> kept hold ts s j) (i # I))"
  using assms
proof (induction I arbitrary: i s H Q calls len)
  case Nil
  let ?b = "buf_of (rring s) i"
  obtain m where m: "?b \<noteq> NULL" "msgs s ?b = Some m"
    using rx_buf_range [OF Nil.prems(1), of i] by (metis insertI1 UnI1 UnI2)
  have rm: "received s i = m" by (simp add: received_def m(2))
  obtain s1 where s1: "rx_settle hold (calls_for ts m) s ?b m len i = Some s1" "ept_rep s1 ts"
    "desc (rring s1) = desc (rring s)"
    "\<forall>b. msgs s1 b = (if b = ?b \<and> kept hold ts s i then Some (m\<lparr>h_idx := i\<rparr>) else msgs s b)"
    "rx_rel ops port s1 [] (if kept hold ts s i then insert i H else H)
      (Q @ (if kept hold ts s i then [] else [i]))"
    using rx_settle_ok [OF Nil.prems(1,2,3) rm [symmetric], of hold len] by blast
  have "vq_ops (dev s1) = ops" using s1(5) by (simp add: rx_rel_def)
  then have "rx_callback_loop hold ?b (Some (len, i)) s calls = Some (calls @ calls_for ts m, s1)"
    using m deliver_ok [OF Nil.prems(3)] s1(1) rx_take_none [OF s1(5)]
    by (subst rx_callback_loop.simps) (simp add: rx_callback_loop.simps [of _ NULL])
  moreover have "H \<union> {j \<in> set [i]. kept hold ts s j} = (if kept hold ts s i then insert i H else H)"
    by auto
  ultimately show ?case
    using s1(2-) rm by (intro exI [of _ s1], cases "kept hold ts s i") simp_all
next
  case (Cons j I)
  let ?b = "buf_of (rring s) i" and ?K = "kept hold ts s i"
  obtain m where m: "?b \<noteq> NULL" "msgs s ?b = Some m"
    using rx_buf_range [OF Cons.prems(1), of i] by (metis insertI1 UnI1 UnI2)
  have rm: "received s i = m" by (simp add: received_def m(2))
  obtain s1 where s1: "rx_settle hold (calls_for ts m) s ?b m len i = Some s1" "ept_rep s1 ts"
    "desc (rring s1) = desc (rring s)"
    "\<forall>b. msgs s1 b = (if b = ?b \<and> ?K then Some (m\<lparr>h_idx := i\<rparr>) else msgs s b)"
    "rx_rel ops port s1 (j # I) (if ?K then insert i H else H) (Q @ (if ?K then [] else [i]))"
    using rx_settle_ok [OF Cons.prems(1,2,3) rm [symmetric], of hold len] by blast
  have ops: "vq_ops (dev s1) = ops" using s1(5) by (simp add: rx_rel_def)
  obtain q l where q: "vq_rx ops (rvq (dev s1)) (rring s1) = Some (buf_of (rring s1) j, Some (l, j), q)"
    "rx_rel ops port (s1\<lparr>dev := (dev s1)\<lparr>rvq := q\<rparr>\<rparr>) I (insert j (if ?K then insert i H else H))
      (Q @ (if ?K then [] else [i]))"
    using rx_take_some [OF s1(5)] by blast
  let ?s = "s1\<lparr>dev := (dev s1)\<lparr>rvq := q\<rparr>\<rparr>"
  have bufs: "buf_of (rring s1) k = buf_of (rring s) k" for k by (rule buf_of_cong [OF s1(3)])
  have apart: "i \<notin> set (j # I)" "buf_of (rring s) k \<noteq> ?b" if "k \<in> set (j # I)" for k
  proof -
    have "port (rvq (dev s)) (rring s) (j # I) (insert i H) Q" using Cons.prems(1) by (simp add: rx_rel_def)
    from rx.port_apart [OF this] show n: "i \<notin> set (j # I)" by auto
    show "buf_of (rring s) k \<noteq> ?b"
      by (rule rx_buf_inj [OF Cons.prems(1)]) (use that n in auto)
  qed
  have same: "received ?s k = received s k" "kept hold ts ?s k = kept hold ts s k" if "k \<in> set (j # I)" for k
  proof -
    show "received ?s k = received s k" using s1(4) apart(2) [OF that] by (simp add: received_def bufs)
    then show "kept hold ts ?s k = kept hold ts s k" by (simp add: kept_def)
  qed
  have "port (rvq (dev s1)) (rring s1) (j # I) (if ?K then insert i H else H) (Q @ (if ?K then [] else [i]))"
    using s1(5) by (simp add: rx_rel_def)
  from rx.port_apart [OF this] have j: "j \<notin> (if ?K then insert i H else H)" by auto
  have "ept_rep ?s ts" using s1(2) by (simp add: ept_rep_def)
  from Cons.IH [OF q(2) j this, of l "calls @ calls_for ts m"]
  obtain s' where s': "rx_callback_loop hold (buf_of (rring s) j) (Some (l, j)) ?s (calls @ calls_for ts m) =
      Some ((calls @ calls_for ts m) @ concat (map (\<lambda>k. calls_for ts (received ?s k)) (j # I)), s')"
    "ept_rep s' ts" "desc (rring s') = desc (rring s)"
    "\<forall>k \<in> set (j # I). kept hold ts ?s k \<longrightarrow> msgs s' (buf_of (rring s) k) = Some ((received ?s k)\<lparr>h_idx := k\<rparr>)"
    "\<forall>b. (\<forall>k \<in> set (j # I). kept hold ts ?s k \<longrightarrow> b \<noteq> buf_of (rring s) k) \<longrightarrow> msgs s' b = msgs s1 b"
    "rx_rel ops port s' [] ((if ?K then insert i H else H) \<union> {k \<in> set (j # I). kept hold ts ?s k})
      ((Q @ (if ?K then [] else [i])) @ filter (\<lambda>k. \<not> kept hold ts ?s k) (j # I))"
    by (auto simp: bufs s1(3))
  have first: "rx_callback_loop hold ?b (Some (len, i)) s calls =
      rx_callback_loop hold (buf_of (rring s) j) (Some (l, j)) ?s (calls @ calls_for ts m)"
    using m deliver_ok [OF Cons.prems(3)] s1(1) q(1) ops bufs
    by (subst rx_callback_loop.simps) simp
  have later: "map (\<lambda>k. calls_for ts (received ?s k)) (j # I) = map (\<lambda>k. calls_for ts (received s k)) (j # I)"
    by (rule map_cong [OF refl]) (simp only: same(1))
  have run: "rx_callback_loop hold ?b (Some (len, i)) s calls =
      Some (calls @ concat (map (\<lambda>k. calls_for ts (received s k)) (i # j # I)), s')"
    unfolding first s'(1) later by (simp add: rm)
  have A: "\<forall>k \<in> set (i # j # I). kept hold ts s k \<longrightarrow>
      msgs s' (buf_of (rring s) k) = Some ((received s k)\<lparr>h_idx := k\<rparr>)"
  proof (intro ballI impI)
    fix k assume k: "k \<in> set (i # j # I)" "kept hold ts s k"
    show "msgs s' (buf_of (rring s) k) = Some ((received s k)\<lparr>h_idx := k\<rparr>)"
    proof (cases "k = i")
      case True
      have "msgs s' ?b = msgs s1 ?b" using s'(5) apart(2) by metis
      then show ?thesis using s1(4) True k(2) rm by simp
    next
      case False
      then have "k \<in> set (j # I)" using k(1) by simp
      then show ?thesis using s'(4) same k(2) by metis
    qed
  qed
  have B: "\<forall>b. (\<forall>k \<in> set (i # j # I). kept hold ts s k \<longrightarrow> b \<noteq> buf_of (rring s) k) \<longrightarrow> msgs s' b = msgs s b"
  proof (intro allI impI)
    fix b assume b: "\<forall>k \<in> set (i # j # I). kept hold ts s k \<longrightarrow> b \<noteq> buf_of (rring s) k"
    then have "\<forall>k \<in> set (j # I). kept hold ts ?s k \<longrightarrow> b \<noteq> buf_of (rring s) k" using same(2) by simp
    then have "msgs s' b = msgs s1 b" using s'(5) by blast
    also have "\<dots> = msgs s b" using s1(4) b by auto
    finally show "msgs s' b = msgs s b" .
  qed
  have "(if ?K then insert i H else H) \<union> {k \<in> set (j # I). kept hold ts ?s k} =
      H \<union> {k \<in> set (i # j # I). kept hold ts s k}"
    using same(2) by (cases ?K) auto
  moreover have "filter (\<lambda>k. \<not> kept hold ts ?s k) (j # I) = filter (\<lambda>k. \<not> kept hold ts s k) (j # I)"
    using same(2) by (intro filter_cong refl) simp
  ultimately have C: "rx_rel ops port s' [] (H \<union> {k \<in> set (i # j # I). kept hold ts s k})
      (Q @ filter (\<lambda>k. \<not> kept hold ts s k) (i # j # I))"
    using s'(6) by (cases ?K) (simp_all only: filter.simps if_True if_False append.assoc append_Nil append_Cons not_True_eq_False not_False_eq_True)
  show ?case using run s'(2,3) A B C by blast
qed

lemma rx_callback_ok:
  assumes rel: "rx_rel ops port s I H Q" and rep: "ept_rep s ts"
  shows "\<exists>s'. rpmsg_lite_rx_callback hold s = Some (concat (map (\<lambda>j. calls_for ts (received s j)) I), s') \<and>
    ept_rep s' ts \<and>
    (\<forall>j \<in> set I. kept hold ts s j \<longrightarrow>
      msgs s' (buf_of (rring s) j) = Some ((received s j)\<lparr>h_idx := j\<rparr>)) \<and>
    (\<forall>b. (\<forall>j \<in> set I. kept hold ts s j \<longrightarrow> b \<noteq> buf_of (rring s) j) \<longrightarrow> msgs s' b = msgs s b) \<and>
    rx_rel ops port s' [] (H \<union> {j \<in> set I. kept hold ts s j}) (Q @ filter (\<lambda>j. \<not> kept hold ts s j) I) \<and>
    desc (rring s') = desc (rring s)"
proof (cases I)
  case Nil
  have "vq_ops (dev s) = ops" using rel by (simp add: rx_rel_def)
  then have "rpmsg_lite_rx_callback hold s = Some ([], s)"
    using rx_take_none rel Nil by (simp add: rpmsg_lite_rx_callback_def rx_callback_loop.simps [of _ NULL])
  then show ?thesis using rel rep Nil by (intro exI [of _ s]) simp
next
  case (Cons i I')
  have ops: "vq_ops (dev s) = ops" and p: "port (rvq (dev s)) (rring s) (i # I') H Q"
    using rel Cons by (simp_all add: rx_rel_def)
  have i: "i \<notin> H" using rx.port_apart [OF p] by auto
  obtain q l where q: "vq_rx ops (rvq (dev s)) (rring s) = Some (buf_of (rring s) i, Some (l, i), q)"
    "rx_rel ops port (s\<lparr>dev := (dev s)\<lparr>rvq := q\<rparr>\<rparr>) I' (insert i H) Q"
    using rx_take_some [OF rel [unfolded Cons]] by blast
  let ?s = "s\<lparr>dev := (dev s)\<lparr>rvq := q\<rparr>\<rparr>"
  have same: "received ?s j = received s j" "kept hold ts ?s j = kept hold ts s j" for j
    by (simp_all add: received_def kept_def)
  have "ept_rep ?s ts" using rep by (simp add: ept_rep_def)
  from rx_loop_ok [OF q(2) i this, of hold l "[]"]
  obtain s' where s': "rx_callback_loop hold (buf_of (rring s) i) (Some (l, i)) ?s [] =
      Some (concat (map (\<lambda>j. calls_for ts (received s j)) I), s')"
    "ept_rep s' ts" "desc (rring s') = desc (rring s)"
    "\<forall>j \<in> set I. kept hold ts s j \<longrightarrow> msgs s' (buf_of (rring s) j) = Some ((received s j)\<lparr>h_idx := j\<rparr>)"
    "\<forall>b. (\<forall>j \<in> set I. kept hold ts s j \<longrightarrow> b \<noteq> buf_of (rring s) j) \<longrightarrow> msgs s' b = msgs s b"
    "rx_rel ops port s' [] (H \<union> {j \<in> set I. kept hold ts s j}) (Q @ filter (\<lambda>j. \<not> kept hold ts s j) I)"
    unfolding same Cons by auto
  have "rpmsg_lite_rx_callback hold s = Some (concat (map (\<lambda>j. calls_for ts (received s j)) I), s')"
    using q(1) ops s'(1) by (simp add: rpmsg_lite_rx_callback_def)
  then show ?thesis using s'(2-) by (intro exI [of _ s']) simp
qed

lemma release_ok:
  assumes rel: "rx_rel ops port s I H Q" and j: "j \<in> H"
    and m: "msgs s (buf_of (rring s) j) = Some m" "h_idx m = j" and b: "buf_of (rring s) j + 16 \<noteq> NULL"
  shows "\<exists>s'. rpmsg_lite_release_rx_buffer s (buf_of (rring s) j + 16) = Some (RL_SUCCESS, s') \<and>
    msgs s' = msgs s \<and> rx_rel ops port s' I (H - {j}) (Q @ [j])"
proof -
  have ops: "vq_ops (dev s) = ops" using rel by (simp add: rx_rel_def)
  have "unat j < length (desc (rring s))" using rx_buf_range [OF rel, of j] j by (metis UnI1 UnI2)
  then have len: "virtqueue_get_buffer_length (rring s) j = Some (vd_len (desc (rring s) ! unat j))"
    by (simp add: virtqueue_get_buffer_length_def nth_opt_def)
  show ?thesis
    using rx_free_ok [OF rel j, of "buf_of (rring s) j" "vd_len (desc (rring s) ! unat j)"] ops len m b
    by (auto simp: rpmsg_lite_release_rx_buffer_def)
qed

end

end
