(* ===== verification/Rpmsg_Link.thy ===== *)
theory Rpmsg_Link
  imports Rpmsg_Lite
begin

text \<open>
  The life of a link (\<open>rpmsg_lite_master_init\<close>, \<open>rpmsg_lite_remote_init\<close>,
  \<open>rpmsg_lite_deinit\<close>) with the default two buffers per direction, and the properties of
  RPMsg-Lite on both sides of it. What the allocator, the environment and the mutex creation
  answer are arguments; interrupt controller calls have no effect on the data.
\<close>

section \<open>Initialisation\<close>

definition RL_WORD_ALIGN_UP :: "u32 \<Rightarrow> u32" where
  "RL_WORD_ALIGN_UP a = (if a AND 3 \<noteq> 0 then (a AND NOT 3) + 4 else a)"

definition RL_WORD_ALIGN_DOWN :: "u32 \<Rightarrow> u32" where
  "RL_WORD_ALIGN_DOWN a = (if a AND 3 \<noteq> 0 then a AND NOT 3 else a)"

definition RL_GET_VQ_ID :: "u32 \<Rightarrow> u32 \<Rightarrow> u16" where
  "RL_GET_VQ_ID core_id queue_id = ucast ((queue_id AND 1) OR (push_bit 1 core_id AND 0xFFFFFFFE))"

text \<open>What the environment answers: whether the instance and the two virtqueues can be
  allocated, and the results of \<open>env_init\<close> and \<open>env_create_mutex\<close>.\<close>

record rl_env =
  env_dev :: bool
  env_vq :: "nat \<Rightarrow> bool"
  env_init_status :: int
  env_mutex_status :: int

text \<open>The addresses of the functions that the virtqueues call.\<close>

record rl_funs =
  fn_rx :: ptr
  fn_tx :: ptr
  fn_notify :: ptr

definition zero_ring :: "nat \<Rightarrow> vring" where
  "zero_ring n = \<lparr>desc = replicate n \<lparr>vd_addr = 0, vd_len = 0, vd_flags = 0, vd_next = 0\<rparr>,
     avail_flags = 0, avail_idx = 0, avail_ring = replicate n 0, used_event = 0,
     used_flags = 0, used_idx = 0, used_ring = replicate n \<lparr>ue_id = 0, ue_len = 0\<rparr>, avail_event = 0\<rparr>"

definition zero_msg :: rpmsg_std_msg where
  "zero_msg = \<lparr>h_src = 0, h_dst = 0, h_rfu = 0, h_idx = 0, h_len = 0, h_flags = 0, payload = replicate 496 0\<rparr>"

definition ring_info_at :: "ptr \<Rightarrow> nat \<Rightarrow> vring_alloc_info" where
  "ring_info_at shmem_addr idx = \<lparr>phy_addr = shmem_addr + (if idx = 0 then 0 else VRING_SIZE),
     ring_align = VRING_ALIGN, num_descs = RL_BUFFER_COUNT\<rparr>"

text \<open>The \<open>idx\<close>-th queue of the master, on a ring it has cleared; without memory the
  instance is given up.\<close>

definition master_queue ::
  "rl_env \<Rightarrow> rl_funs \<Rightarrow> ptr \<Rightarrow> u32 \<Rightarrow> nat \<Rightarrow> (virtqueue \<times> vring) option option" where
  "master_queue env fns shmem_addr link_id idx =
     (case virtqueue_create (env_vq env idx) (RL_GET_VQ_ID link_id (of_nat idx)) (ring_info_at shmem_addr idx)
        (if idx = 0 then fn_rx fns else fn_tx fns) (fn_notify fns) of
        (status, None) \<Rightarrow> Some None
      | (status, Some vq) \<Rightarrow> do {
          vr \<leftarrow> vq_ring_init vq (zero_ring (unat RL_BUFFER_COUNT));
          Some (Some (vq, virtqueue_disable_cb vq vr)) })"

text \<open>The loop that hands the buffers out: \<open>k\<close> rounds are left, on the receive queue or on
  the transmit queue.\<close>

fun master_fill :: "bool \<Rightarrow> nat \<Rightarrow> rl_state \<Rightarrow> (int \<times> rl_state) option" where
  "master_fill rx 0 s = Some (RL_SUCCESS, s)"
| "master_fill rx (Suc k) s = do {
     let d = dev s;
     let buffer = (if sh_mem_remaining d \<noteq> 0
       then sh_mem_base d + RL_BUFFER_SIZE * (sh_mem_total d - sh_mem_remaining d) else NULL);
     let s = (if sh_mem_remaining d \<noteq> 0 then s\<lparr>dev := d\<lparr>sh_mem_remaining := sh_mem_remaining d - 1\<rparr>\<rparr> else s);
     if buffer = NULL then None
     else do {
       let s = s\<lparr>msgs := (msgs s)(buffer \<mapsto> zero_msg)\<rparr>;
       (status, s) \<leftarrow>
         (if rx then do {
            (status, q, vr) \<leftarrow> virtqueue_fill_avail_buffers (rvq (dev s)) (rring s) buffer RL_BUFFER_SIZE;
            Some (status, s\<lparr>dev := (dev s)\<lparr>rvq := q\<rparr>, rring := vr\<rparr>) }
          else do {
            (status, q, vr) \<leftarrow> virtqueue_fill_used_buffers (tvq (dev s)) (tring s) buffer RL_BUFFER_SIZE;
            Some (status, s\<lparr>dev := (dev s)\<lparr>tvq := q\<rparr>, tring := vr\<rparr>) });
       if status \<noteq> RL_SUCCESS then Some (status, s) else master_fill rx k s } }"

definition fill_rounds :: "virtqueue \<Rightarrow> rpmsg_lite_instance \<Rightarrow> nat" where
  "fill_rounds q d = min (unat (vq_nentries q)) (unat (sh_mem_total d))"

text \<open>\<open>Some None\<close> is the result \<open>NULL\<close>. The endpoint heaps are what the heap holds already.\<close>

definition rpmsg_lite_master_init ::
  "rl_env \<Rightarrow> rl_funs \<Rightarrow> ptr \<Rightarrow> u32 \<Rightarrow> u32 \<Rightarrow> (ptr \<rightharpoonup> rpmsg_std_msg) \<Rightarrow> llheap \<Rightarrow>
   (ptr \<rightharpoonup> rpmsg_lite_endpoint) \<Rightarrow> rl_state option option" where
  "rpmsg_lite_master_init env fns shmem_addr shmem_length link_id ms ns es =
     (if 2 * ucast RL_BUFFER_COUNT > RL_WORD_ALIGN_DOWN (shmem_length - RL_VRING_OVERHEAD) div RL_BUFFER_SIZE
      then Some None
      else if sint link_id > 0 then Some None
      else if shmem_addr = NULL then Some None
      else if \<not> env_dev env then Some None
      else if env_init_status env \<noteq> RL_SUCCESS then Some None
      else do {
        q0 \<leftarrow> master_queue env fns shmem_addr link_id 0;
        (case q0 of None \<Rightarrow> Some None | Some (rq, rr) \<Rightarrow> do {
          q1 \<leftarrow> master_queue env fns shmem_addr link_id 1;
          (case q1 of None \<Rightarrow> Some None | Some (tq, tr) \<Rightarrow>
            if env_mutex_status env \<noteq> RL_SUCCESS then Some None
            else do {
              let remaining = RL_WORD_ALIGN_DOWN (shmem_length - RL_VRING_OVERHEAD) div RL_BUFFER_SIZE;
              let d = \<lparr>rvq = rq, tvq = tq, rl_endpoints = NULL, link_state = 0,
                sh_mem_base = RL_WORD_ALIGN_UP (shmem_addr + RL_VRING_OVERHEAD),
                sh_mem_remaining = remaining, sh_mem_total = remaining, vq_ops = master_vq_ops\<rparr>;
              let s = \<lparr>dev = d, rring = rr, tring = tr, msgs = ms, nodes = ns, epts = es, notified = []\<rparr>;
              (status, s) \<leftarrow> master_fill True (fill_rounds rq d) s;
              if status \<noteq> RL_SUCCESS then Some None
              else do {
                (status, s) \<leftarrow> master_fill False (fill_rounds tq d) s;
                if status \<noteq> RL_SUCCESS then Some None
                else do {
                  let (notify, q) = virtqueue_kick (rvq (dev s)) (rring s);
                  let s = s\<lparr>dev := (dev s)\<lparr>link_state := 1, rvq := q\<rparr>\<rparr>;
                  Some (Some (if notify then virtqueue_notify q s else s)) } } }) }) })"

text \<open>The remote finds the rings \<open>r0\<close> and \<open>r1\<close> and the buffers in shared memory.\<close>

definition rpmsg_lite_remote_init ::
  "rl_env \<Rightarrow> rl_funs \<Rightarrow> ptr \<Rightarrow> u32 \<Rightarrow> vring \<Rightarrow> vring \<Rightarrow> (ptr \<rightharpoonup> rpmsg_std_msg) \<Rightarrow> llheap \<Rightarrow>
   (ptr \<rightharpoonup> rpmsg_lite_endpoint) \<Rightarrow> rl_state option" where
  "rpmsg_lite_remote_init env fns shmem_addr link_id r0 r1 ms ns es =
     (if sint link_id > 0 then None
      else if shmem_addr = NULL then None
      else if \<not> env_dev env then None
      else if env_init_status env \<noteq> RL_SUCCESS then None
      else case virtqueue_create (env_vq env 0) (RL_GET_VQ_ID link_id 0) (ring_info_at shmem_addr 0)
          (fn_tx fns) (fn_notify fns) of
        (status, None) \<Rightarrow> None
      | (status, Some tq) \<Rightarrow>
        (case virtqueue_create (env_vq env 1) (RL_GET_VQ_ID link_id 1) (ring_info_at shmem_addr 1)
            (fn_rx fns) (fn_notify fns) of
          (status, None) \<Rightarrow> None
        | (status, Some rq) \<Rightarrow>
          if env_mutex_status env \<noteq> RL_SUCCESS then None
          else Some \<lparr>dev = \<lparr>rvq = rq, tvq = tq, rl_endpoints = NULL, link_state = 0, sh_mem_base = NULL,
              sh_mem_remaining = 0, sh_mem_total = 0, vq_ops = remote_vq_ops\<rparr>,
            rring = r1, tring = r0, msgs = ms, nodes = ns, epts = es, notified = []\<rparr>))"

text \<open>\<open>rpmsg_lite_deinit\<close>; \<open>lock\<close> is the mutex of the instance. What remains of the instance
  is gone after it; the status and the queues as \<open>virtqueue_free\<close> leaves them are returned.\<close>

definition rpmsg_lite_deinit :: "rl_state \<Rightarrow> bool \<Rightarrow> (int \<times> rl_state) option" where
  "rpmsg_lite_deinit s lock =
     (if \<not> lock then None
      else Some (RL_SUCCESS, s\<lparr>dev := (dev s)\<lparr>link_state := 0,
        rvq := virtqueue_free_static (rvq (dev s)), tvq := virtqueue_free_static (tvq (dev s))\<rparr>\<rparr>))"

section \<open>Initialisation gives a working link\<close>

lemma pow2_two: "is_pow2 2"
  unfolding is_pow2_def by (intro exI [of _ 1]) simp

text \<open>What creation leaves behind.\<close>

definition fresh_queue :: "virtqueue \<Rightarrow> bool" where
  "fresh_queue q \<longleftrightarrow> vq_nentries q = 2 \<and> vq_desc_head_idx q = 0 \<and> vq_used_cons_idx q = 0 \<and> vq_available_idx q = 0"

lemma virtqueue_create_fresh:
  "\<exists>q. virtqueue_create True i (ring_info_at p idx) cb nt = (VQUEUE_SUCCESS, Some q) \<and> fresh_queue q"
  by (simp add: virtqueue_create_def virtqueue_create_static_def ring_info_at_def fresh_queue_def)

lemma vq_ring_init_two:
  assumes "vq_nentries q = 2"
  shows "\<exists>v. vq_ring_init q (zero_ring 2) = Some v \<and> avail_idx v = 0 \<and> used_idx v = 0 \<and>
    length (desc v) = 2 \<and> length (avail_ring v) = 2 \<and> length (used_ring v) = 2"
proof -
  let ?d = "\<lparr>vd_addr = 0, vd_len = 0, vd_flags = 0, vd_next = 0\<rparr>"
  have z: "zero_ring 2 = \<lparr>desc = [?d, ?d],
     avail_flags = 0, avail_idx = 0, avail_ring = [0, 0], used_event = 0,
     used_flags = 0, used_idx = 0, used_ring = [\<lparr>ue_id = 0, ue_len = 0\<rparr>, \<lparr>ue_id = 0, ue_len = 0\<rparr>], avail_event = 0\<rparr>"
    by (simp add: zero_ring_def numeral_2_eq_2)
  have n: "unat (vq_nentries q) - 1 = Suc 0" using assms by simp
  show ?thesis unfolding vq_ring_init_def n z by (simp add: nth_opt_def)
qed

lemma master_queue_fresh:
  assumes "env_vq env idx"
  shows "\<exists>q v. master_queue env fns p l idx = Some (Some (q, v)) \<and> fresh_queue q \<and>
    (\<forall>d. fresh_queue d \<longrightarrow> vq_rel q d v \<lparr>ch_avail = [], ch_used = [], ch_drv = {i. unat i < 2}, ch_dev = {}\<rparr>)"
proof -
  obtain q where q: "virtqueue_create (env_vq env idx) (RL_GET_VQ_ID l (of_nat idx)) (ring_info_at p idx)
      (if idx = 0 then fn_rx fns else fn_tx fns) (fn_notify fns) = (VQUEUE_SUCCESS, Some q)" "fresh_queue q"
    using virtqueue_create_fresh [of "RL_GET_VQ_ID l (of_nat idx)" p idx "if idx = 0 then fn_rx fns else fn_tx fns" "fn_notify fns"] assms
    by auto
  obtain v where v: "vq_ring_init q (zero_ring 2) = Some v" "avail_idx v = 0" "used_idx v = 0"
    "length (desc v) = 2" "length (avail_ring v) = 2" "length (used_ring v) = 2"
    using vq_ring_init_two q(2) by (auto simp: fresh_queue_def)
  have "vq_rel q d (virtqueue_disable_cb q v) \<lparr>ch_avail = [], ch_used = [], ch_drv = {i. unat i < 2}, ch_dev = {}\<rparr>"
    if "fresh_queue d" for d
  proof (rule vq_rel_cb(1))
    have "vq_start q d v" using v q(2) that pow2_two by (simp add: vq_start_def fresh_queue_def)
    from vq_start_rel [OF this]
    show "vq_rel q d v \<lparr>ch_avail = [], ch_used = [], ch_drv = {i. unat i < 2}, ch_dev = {}\<rparr>"
      using q(2) by (simp add: fresh_queue_def)
  qed
  moreover have "master_queue env fns p l idx = Some (Some (q, virtqueue_disable_cb q v))"
    using q(1) v(1) by (simp add: master_queue_def)
  ultimately show ?thesis using q(2) by blast
qed

text \<open>One round of the loop that hands out buffers.\<close>

lemma master_fill_rx:
  assumes rel: "\<forall>d. fresh_queue d \<longrightarrow> vq_rel (rvq (dev s)) d (rring s) ch"
    and i: "vq_desc_head_idx (rvq (dev s)) = i" "i \<in> ch_drv ch"
    and r: "sh_mem_remaining (dev s) \<noteq> 0"
    and b: "b = sh_mem_base (dev s) + RL_BUFFER_SIZE * (sh_mem_total (dev s) - sh_mem_remaining (dev s))" "b \<noteq> NULL"
    and fresh: "fresh_queue d0"
  shows "\<exists>q v. master_fill True (Suc k) s = master_fill True k
      (s\<lparr>msgs := (msgs s)(b \<mapsto> zero_msg),
        dev := (dev s)\<lparr>sh_mem_remaining := sh_mem_remaining (dev s) - 1, rvq := q\<rparr>, rring := v\<rparr>) \<and>
    (\<forall>d. fresh_queue d \<longrightarrow> vq_rel q d v (ch\<lparr>ch_avail := ch_avail ch @ [i], ch_drv := ch_drv ch - {i}\<rparr>)) \<and>
    desc v = desc (filled_desc (rring s) i b RL_BUFFER_SIZE) \<and> vq_desc_head_idx q = i + 1"
proof -
  obtain q v where q: "virtqueue_fill_avail_buffers (rvq (dev s)) (rring s) b RL_BUFFER_SIZE = Some (VQUEUE_SUCCESS, q, v)"
    "desc v = desc (filled_desc (rring s) i b RL_BUFFER_SIZE)" "vq_desc_head_idx q = i + 1"
    using fill_avail_ok [of "rvq (dev s)" d0 "rring s" ch i b RL_BUFFER_SIZE] rel fresh i by blast
  have "vq_rel q d v (ch\<lparr>ch_avail := ch_avail ch @ [i], ch_drv := ch_drv ch - {i}\<rparr>)" if "fresh_queue d" for d
    using fill_avail_ok [of "rvq (dev s)" d "rring s" ch i b RL_BUFFER_SIZE] rel that i q(1) by auto
  then show ?thesis
    using q r b by (intro exI [of _ q] exI [of _ v]) (simp add: Let_def)
qed

lemma master_fill_tx:
  assumes rel: "\<forall>d. fresh_queue d \<longrightarrow> vq_rel (tvq (dev s)) d (tring s) ch"
    and i: "vq_desc_head_idx (tvq (dev s)) = i" "i \<in> ch_drv ch"
    and r: "sh_mem_remaining (dev s) \<noteq> 0"
    and b: "b = sh_mem_base (dev s) + RL_BUFFER_SIZE * (sh_mem_total (dev s) - sh_mem_remaining (dev s))" "b \<noteq> NULL"
    and fresh: "fresh_queue d0"
  shows "\<exists>q v. master_fill False (Suc k) s = master_fill False k
      (s\<lparr>msgs := (msgs s)(b \<mapsto> zero_msg),
        dev := (dev s)\<lparr>sh_mem_remaining := sh_mem_remaining (dev s) - 1, tvq := q\<rparr>, tring := v\<rparr>) \<and>
    (\<forall>d. fresh_queue d \<longrightarrow> vq_rel q d v (ch\<lparr>ch_used := ch_used ch @ [(i, RL_BUFFER_SIZE)], ch_drv := ch_drv ch - {i}\<rparr>)) \<and>
    desc v = desc (filled_desc (tring s) i b RL_BUFFER_SIZE) \<and> vq_desc_head_idx q = i + 1"
proof -
  obtain q v where q: "virtqueue_fill_used_buffers (tvq (dev s)) (tring s) b RL_BUFFER_SIZE = Some (VQUEUE_SUCCESS, q, v)"
    "desc v = desc (filled_desc (tring s) i b RL_BUFFER_SIZE)" "vq_desc_head_idx q = i + 1"
    using fill_used_ok [of "tvq (dev s)" d0 "tring s" ch i b RL_BUFFER_SIZE] rel fresh i b(2) by blast
  have "vq_rel q d v (ch\<lparr>ch_used := ch_used ch @ [(i, RL_BUFFER_SIZE)], ch_drv := ch_drv ch - {i}\<rparr>)" if "fresh_queue d" for d
    using fill_used_ok [of "tvq (dev s)" d "tring s" ch i b RL_BUFFER_SIZE] rel that i q(1) b(2) by auto
  then show ?thesis
    using q r b by (intro exI [of _ q] exI [of _ v]) (simp add: Let_def)
qed

lemma two_indices: "{i :: u16. unat i < 2} = {0, 1}"
proof (intro equalityI subsetI)
  fix i :: u16 assume "i \<in> {i. unat i < 2}"
  then consider "unat i = 0" | "unat i = 1" by fastforce
  then show "i \<in> {0, 1}"
  proof cases
    case 2
    have "i = of_nat (unat i)" by simp
    then show ?thesis unfolding 2 by simp
  qed (simp add: unat_eq_zero)
qed auto

text \<open>The two rounds on one queue, from a fresh one.\<close>

lemma master_fill_rx_two:
  assumes rel: "\<forall>d. fresh_queue d \<longrightarrow> vq_rel (rvq (dev s)) d (rring s)
      \<lparr>ch_avail = [], ch_used = [], ch_drv = {i. unat i < 2}, ch_dev = {}\<rparr>"
    and h: "vq_desc_head_idx (rvq (dev s)) = 0" and len: "length (desc (rring s)) = 2"
    and r: "sh_mem_remaining (dev s) = t - k" "sh_mem_total (dev s) = t" "t - k \<noteq> 0" "t - k - 1 \<noteq> 0"
    and b: "b0 = sh_mem_base (dev s) + 512 * k" "b1 = b0 + 512" "b0 \<noteq> NULL" "b1 \<noteq> NULL"
    and fresh: "fresh_queue d0"
  shows "\<exists>q v. master_fill True 2 s = Some (RL_SUCCESS,
      s\<lparr>msgs := (msgs s)(b0 \<mapsto> zero_msg, b1 \<mapsto> zero_msg),
        dev := (dev s)\<lparr>sh_mem_remaining := t - k - 2, rvq := q\<rparr>, rring := v\<rparr>) \<and>
    (\<forall>d. fresh_queue d \<longrightarrow> vq_rel q d v \<lparr>ch_avail = [0, 1], ch_used = [], ch_drv = {}, ch_dev = {}\<rparr>) \<and>
    length (desc v) = 2 \<and> buf_of v 0 = b0 \<and> buf_of v 1 = b1"
proof -
  let ?c = "\<lparr>ch_avail = [], ch_used = [], ch_drv = {i. unat i < 2}, ch_dev = {}\<rparr> :: chan"
  have i0: "(0 :: u16) \<in> ch_drv ?c" "(1 :: u16) \<in> ch_drv ?c - {0}" by (simp_all add: two_indices)
  have b0: "b0 = sh_mem_base (dev s) + RL_BUFFER_SIZE * (sh_mem_total (dev s) - sh_mem_remaining (dev s))"
    using b(1) r(1,2) by simp
  have "sh_mem_remaining (dev s) \<noteq> 0" using r by simp
  from master_fill_rx [OF rel h i0(1) this b0 b(3) fresh, of 1]
  obtain q v where q: "master_fill True (Suc 1) s = master_fill True 1
      (s\<lparr>msgs := (msgs s)(b0 \<mapsto> zero_msg),
        dev := (dev s)\<lparr>sh_mem_remaining := sh_mem_remaining (dev s) - 1, rvq := q\<rparr>, rring := v\<rparr>)"
    "\<forall>d. fresh_queue d \<longrightarrow> vq_rel q d v (?c\<lparr>ch_avail := ch_avail ?c @ [0], ch_drv := ch_drv ?c - {0}\<rparr>)"
    "desc v = desc (filled_desc (rring s) 0 b0 RL_BUFFER_SIZE)" "vq_desc_head_idx q = 0 + 1"
    by blast
  let ?s = "s\<lparr>msgs := (msgs s)(b0 \<mapsto> zero_msg),
        dev := (dev s)\<lparr>sh_mem_remaining := sh_mem_remaining (dev s) - 1, rvq := q\<rparr>, rring := v\<rparr>"
  have R: "\<forall>d. fresh_queue d \<longrightarrow> vq_rel (rvq (dev ?s)) d (rring ?s)
      (?c\<lparr>ch_avail := ch_avail ?c @ [0], ch_drv := ch_drv ?c - {0}\<rparr>)" using q(2) by simp
  have H: "vq_desc_head_idx (rvq (dev ?s)) = 1" using q(4) by simp
  have I: "(1 :: u16) \<in> ch_drv (?c\<lparr>ch_avail := ch_avail ?c @ [0], ch_drv := ch_drv ?c - {0}\<rparr>)"
    using i0(2) by simp
  have N: "sh_mem_remaining (dev ?s) \<noteq> 0" using r by simp
  have B: "b1 = sh_mem_base (dev ?s) + RL_BUFFER_SIZE * (sh_mem_total (dev ?s) - sh_mem_remaining (dev ?s))"
  proof -
    have e: "sh_mem_total (dev ?s) - sh_mem_remaining (dev ?s) = k + 1" using r(1,2) by simp
    have "b1 = sh_mem_base (dev ?s) + RL_BUFFER_SIZE * (k + 1)" using b(1,2) by (simp add: distrib_left)
    then show ?thesis unfolding e .
  qed
  from master_fill_rx [OF R H I N B b(4) fresh, of 0]
  obtain q' v' where q': "master_fill True (Suc 0) ?s = master_fill True 0
      (?s\<lparr>msgs := (msgs ?s)(b1 \<mapsto> zero_msg),
        dev := (dev ?s)\<lparr>sh_mem_remaining := sh_mem_remaining (dev ?s) - 1, rvq := q'\<rparr>, rring := v'\<rparr>)"
    "\<forall>d. fresh_queue d \<longrightarrow> vq_rel q' d v' \<lparr>ch_avail = [0, 1], ch_used = [], ch_drv = {}, ch_dev = {}\<rparr>"
    "desc v' = desc (filled_desc (rring ?s) 1 b1 RL_BUFFER_SIZE)"
    by (auto simp: two_indices)
  have two: "(2 :: nat) = Suc 1" by simp
  have "master_fill True 2 s = master_fill True (Suc 0) ?s" unfolding two q(1) by (simp only: One_nat_def)
  then have "master_fill True 2 s = Some (RL_SUCCESS,
      s\<lparr>msgs := (msgs s)(b0 \<mapsto> zero_msg, b1 \<mapsto> zero_msg),
        dev := (dev s)\<lparr>sh_mem_remaining := t - k - 2, rvq := q'\<rparr>, rring := v'\<rparr>)"
    unfolding q'(1) using r(1) by (simp add: algebra_simps)
  moreover have "length (desc v') = 2" using q'(3) q(3) len by (simp add: filled_desc_def)
  moreover have "buf_of v' 0 = b0" "buf_of v' 1 = b1"
    using q'(3) q(3) len by (simp_all add: buf_of_def filled_desc_def)
  ultimately show ?thesis using q'(2) by blast
qed

lemma master_fill_tx_two:
  assumes rel: "\<forall>d. fresh_queue d \<longrightarrow> vq_rel (tvq (dev s)) d (tring s)
      \<lparr>ch_avail = [], ch_used = [], ch_drv = {i. unat i < 2}, ch_dev = {}\<rparr>"
    and h: "vq_desc_head_idx (tvq (dev s)) = 0" and len: "length (desc (tring s)) = 2"
    and r: "sh_mem_remaining (dev s) = t - k" "sh_mem_total (dev s) = t" "t - k \<noteq> 0" "t - k - 1 \<noteq> 0"
    and b: "b0 = sh_mem_base (dev s) + 512 * k" "b1 = b0 + 512" "b0 \<noteq> NULL" "b1 \<noteq> NULL"
    and fresh: "fresh_queue d0"
  shows "\<exists>q v. master_fill False 2 s = Some (RL_SUCCESS,
      s\<lparr>msgs := (msgs s)(b0 \<mapsto> zero_msg, b1 \<mapsto> zero_msg),
        dev := (dev s)\<lparr>sh_mem_remaining := t - k - 2, tvq := q\<rparr>, tring := v\<rparr>) \<and>
    (\<forall>d. fresh_queue d \<longrightarrow> vq_rel q d v \<lparr>ch_avail = [], ch_used = [(0, 512), (1, 512)], ch_drv = {}, ch_dev = {}\<rparr>) \<and>
    length (desc v) = 2 \<and> buf_of v 0 = b0 \<and> buf_of v 1 = b1"
proof -
  let ?c = "\<lparr>ch_avail = [], ch_used = [], ch_drv = {i. unat i < 2}, ch_dev = {}\<rparr> :: chan"
  have i0: "(0 :: u16) \<in> ch_drv ?c" "(1 :: u16) \<in> ch_drv ?c - {0}" by (simp_all add: two_indices)
  have b0: "b0 = sh_mem_base (dev s) + RL_BUFFER_SIZE * (sh_mem_total (dev s) - sh_mem_remaining (dev s))"
    using b(1) r(1,2) by simp
  have "sh_mem_remaining (dev s) \<noteq> 0" using r by simp
  from master_fill_tx [OF rel h i0(1) this b0 b(3) fresh, of 1]
  obtain q v where q: "master_fill False (Suc 1) s = master_fill False 1
      (s\<lparr>msgs := (msgs s)(b0 \<mapsto> zero_msg),
        dev := (dev s)\<lparr>sh_mem_remaining := sh_mem_remaining (dev s) - 1, tvq := q\<rparr>, tring := v\<rparr>)"
    "\<forall>d. fresh_queue d \<longrightarrow> vq_rel q d v (?c\<lparr>ch_used := ch_used ?c @ [(0, RL_BUFFER_SIZE)], ch_drv := ch_drv ?c - {0}\<rparr>)"
    "desc v = desc (filled_desc (tring s) 0 b0 RL_BUFFER_SIZE)" "vq_desc_head_idx q = 0 + 1"
    by blast
  let ?s = "s\<lparr>msgs := (msgs s)(b0 \<mapsto> zero_msg),
        dev := (dev s)\<lparr>sh_mem_remaining := sh_mem_remaining (dev s) - 1, tvq := q\<rparr>, tring := v\<rparr>"
  have R: "\<forall>d. fresh_queue d \<longrightarrow> vq_rel (tvq (dev ?s)) d (tring ?s)
      (?c\<lparr>ch_used := ch_used ?c @ [(0, RL_BUFFER_SIZE)], ch_drv := ch_drv ?c - {0}\<rparr>)" using q(2) by simp
  have H: "vq_desc_head_idx (tvq (dev ?s)) = 1" using q(4) by simp
  have I: "(1 :: u16) \<in> ch_drv (?c\<lparr>ch_used := ch_used ?c @ [(0, RL_BUFFER_SIZE)], ch_drv := ch_drv ?c - {0}\<rparr>)"
    using i0(2) by simp
  have N: "sh_mem_remaining (dev ?s) \<noteq> 0" using r by simp
  have B: "b1 = sh_mem_base (dev ?s) + RL_BUFFER_SIZE * (sh_mem_total (dev ?s) - sh_mem_remaining (dev ?s))"
  proof -
    have e: "sh_mem_total (dev ?s) - sh_mem_remaining (dev ?s) = k + 1" using r(1,2) by simp
    have "b1 = sh_mem_base (dev ?s) + RL_BUFFER_SIZE * (k + 1)" using b(1,2) by (simp add: distrib_left)
    then show ?thesis unfolding e .
  qed
  from master_fill_tx [OF R H I N B b(4) fresh, of 0]
  obtain q' v' where q': "master_fill False (Suc 0) ?s = master_fill False 0
      (?s\<lparr>msgs := (msgs ?s)(b1 \<mapsto> zero_msg),
        dev := (dev ?s)\<lparr>sh_mem_remaining := sh_mem_remaining (dev ?s) - 1, tvq := q'\<rparr>, tring := v'\<rparr>)"
    "\<forall>d. fresh_queue d \<longrightarrow> vq_rel q' d v' \<lparr>ch_avail = [], ch_used = [(0, 512), (1, 512)], ch_drv = {}, ch_dev = {}\<rparr>"
    "desc v' = desc (filled_desc (tring ?s) 1 b1 RL_BUFFER_SIZE)"
    by (auto simp: two_indices)
  have two: "(2 :: nat) = Suc 1" by simp
  have "master_fill False 2 s = master_fill False (Suc 0) ?s" unfolding two q(1) by (simp only: One_nat_def)
  then have "master_fill False 2 s = Some (RL_SUCCESS,
      s\<lparr>msgs := (msgs s)(b0 \<mapsto> zero_msg, b1 \<mapsto> zero_msg),
        dev := (dev s)\<lparr>sh_mem_remaining := t - k - 2, tvq := q'\<rparr>, tring := v'\<rparr>)"
    unfolding q'(1) using r(1) by (simp add: algebra_simps)
  moreover have "length (desc v') = 2" using q'(3) q(3) len by (simp add: filled_desc_def)
  moreover have "buf_of v' 0 = b0" "buf_of v' 1 = b1"
    using q'(3) q(3) len by (simp_all add: buf_of_def filled_desc_def)
  ultimately show ?thesis using q'(2) by blast
qed

text \<open>The side a core is on: the driver side of both queues is the master's.\<close>

definition side_ops :: "bool \<Rightarrow> virtqueue_ops" where
  "side_ops master = (if master then master_vq_ops else remote_vq_ops)"

definition side_port :: "bool \<Rightarrow> virtqueue \<Rightarrow> virtqueue \<Rightarrow> vring \<Rightarrow> u16 list \<Rightarrow> u16 set \<Rightarrow> u16 list \<Rightarrow> bool" where
  "side_port master = (if master then drv_port else dev_port)"

lemma side: "rl_side (side_ops master) (side_port master d)"
  by (cases master) (simp_all add: side_ops_def side_port_def master.rl_side_axioms remote.rl_side_axioms)

definition tx_side :: "bool \<Rightarrow> virtqueue \<Rightarrow> rl_state \<Rightarrow> u16 list \<Rightarrow> u16 set \<Rightarrow> u16 list \<Rightarrow> bool" where
  "tx_side master d = tx_rel (side_ops master) (side_port master d)"

definition rx_side :: "bool \<Rightarrow> virtqueue \<Rightarrow> rl_state \<Rightarrow> u16 list \<Rightarrow> u16 set \<Rightarrow> u16 list \<Rightarrow> bool" where
  "rx_side master d = rx_rel (side_ops master) (side_port master d)"

text \<open>What the environment must answer for an initialisation to succeed.\<close>

definition env_ok :: "rl_env \<Rightarrow> bool" where
  "env_ok env \<longleftrightarrow> env_dev env \<and> env_vq env 0 \<and> env_vq env 1 \<and> env_init_status env = RL_SUCCESS \<and>
     env_mutex_status env = RL_SUCCESS"

text \<open>The functions that the queues call are distinct objects of the program.\<close>

definition funs_ok :: "rl_funs \<Rightarrow> bool" where
  "funs_ok fns \<longleftrightarrow> fn_rx fns \<noteq> NULL \<and> fn_tx fns \<noteq> NULL \<and> fn_rx fns \<noteq> fn_tx fns \<and> fn_notify fns \<noteq> NULL"

lemma remote_init_ok:
  assumes "env_ok env" "shmem_addr \<noteq> NULL"
  shows "\<exists>r. rpmsg_lite_remote_init env fns shmem_addr 0 r0 r1 ms ns es = Some r \<and>
    fresh_queue (tvq (dev r)) \<and> fresh_queue (rvq (dev r)) \<and> link_state (dev r) = 0 \<and>
    rl_endpoints (dev r) = NULL \<and> vq_ops (dev r) = remote_vq_ops \<and> rring r = r1 \<and> tring r = r0 \<and>
    msgs r = ms \<and> nodes r = ns \<and> epts r = es"
proof -
  have e: "env_vq env 0" "env_vq env 1" "env_dev env" "env_init_status env = 0" "env_mutex_status env = 0"
    using assms(1) by (simp_all add: env_ok_def)
  obtain tq where tq: "virtqueue_create True (RL_GET_VQ_ID 0 0) (ring_info_at shmem_addr 0) (fn_tx fns) (fn_notify fns) =
      (VQUEUE_SUCCESS, Some tq)" "fresh_queue tq"
    using virtqueue_create_fresh by blast
  obtain rq where rq: "virtqueue_create True (RL_GET_VQ_ID 0 1) (ring_info_at shmem_addr 1) (fn_rx fns) (fn_notify fns) =
      (VQUEUE_SUCCESS, Some rq)" "fresh_queue rq"
    using virtqueue_create_fresh by blast
  show ?thesis
    using e assms(2) tq rq by (simp add: rpmsg_lite_remote_init_def)
qed

lemma shared_blocks:
  assumes "unat shmem_addr + unat shmem_length \<le> 2 ^ 32" "4096 \<le> unat shmem_length"
  shows "4 \<le> unat (RL_WORD_ALIGN_DOWN (shmem_length - RL_VRING_OVERHEAD) div RL_BUFFER_SIZE)"
proof -
  let ?a = "shmem_length - RL_VRING_OVERHEAD"
  have a: "unat ?a = unat shmem_length - 2048"
    using assms(2) by (subst unat_sub) (simp_all add: word_le_nat_alt)
  have d: "?a AND NOT 3 = of_nat (unat ?a div 4 * 4)"
  proof -
    have m: "(3 :: u32) = mask 2" by (simp add: mask_eq_exp_minus_1)
    have SS: "Suc (Suc (n - 2)) = n" if "2 \<le> n" for n :: nat using that by simp
    have "?a AND NOT 3 = push_bit 2 (drop_bit 2 ?a)"
      unfolding m by (rule bit_word_eqI) (auto simp: bit_simps SS)
    also have "\<dots> = of_nat (unat (drop_bit 2 ?a) * 4)" by (simp add: push_bit_eq_mult)
    also have "unat (drop_bit 2 ?a) = unat ?a div 4" by (simp add: drop_bit_eq_div unat_div_distrib)
    finally show ?thesis .
  qed
  have "unat ?a div 4 * 4 < 2 ^ 32" using word_nat_less_len [of ?a] by simp
  then have "unat (?a AND NOT 3) = unat ?a div 4 * 4" unfolding d by (intro unat_of_nat_small) simp
  moreover have "512 \<le> unat ?a div 4" using a assms(2) div_le_mono [of 2048 "unat ?a" 4] by simp
  ultimately have "2048 \<le> unat (RL_WORD_ALIGN_DOWN ?a)"
    using a assms(2) by (auto simp: RL_WORD_ALIGN_DOWN_def)
  then show ?thesis by (simp add: unat_div_distrib)
qed

lemma shared_not_null:
  assumes "unat shmem_addr + unat shmem_length \<le> 2 ^ 32" "4096 \<le> unat shmem_length" "0 < k" "k < 4096"
  shows "shmem_addr + of_nat k \<noteq> NULL"
proof -
  have "unat (of_nat k :: u32) = k" using assms by (intro unat_of_nat_small) simp
  then have "unat (shmem_addr + of_nat k) = unat shmem_addr + k"
    using assms by (simp add: unat_word_ariths)
  then show ?thesis using assms by auto
qed

text \<open>The two cores on their shared memory.\<close>

lemma master_init_ok:
  assumes env: "env_ok env" and a: "shmem_addr \<noteq> NULL" "shmem_addr AND 3 = 0"
    and size: "unat shmem_addr + unat shmem_length \<le> 2 ^ 32" "4096 \<le> unat shmem_length"
  shows "\<exists>m. rpmsg_lite_master_init env fns shmem_addr shmem_length 0 ms ns es = Some (Some m) \<and>
    link_state (dev m) = 1 \<and> rl_endpoints (dev m) = NULL \<and> vq_ops (dev m) = master_vq_ops \<and>
    (\<forall>d. fresh_queue d \<longrightarrow>
      vq_rel (rvq (dev m)) d (rring m) \<lparr>ch_avail = [0, 1], ch_used = [], ch_drv = {}, ch_dev = {}\<rparr> \<and>
      vq_rel (tvq (dev m)) d (tring m) \<lparr>ch_avail = [], ch_used = [(0, 512), (1, 512)], ch_drv = {}, ch_dev = {}\<rparr>) \<and>
    length (desc (rring m)) = 2 \<and> length (desc (tring m)) = 2 \<and>
    map (buf_of (rring m)) [0, 1] = [shmem_addr + 0x800, shmem_addr + 0xA00] \<and>
    map (buf_of (tring m)) [0, 1] = [shmem_addr + 0xC00, shmem_addr + 0xE00] \<and>
    nodes m = ns \<and> epts m = es \<and>
    msgs m = ms(shmem_addr + 0x800 \<mapsto> zero_msg, shmem_addr + 0xA00 \<mapsto> zero_msg,
      shmem_addr + 0xC00 \<mapsto> zero_msg, shmem_addr + 0xE00 \<mapsto> zero_msg)"
proof -
  have e: "env_vq env 0" "env_vq env 1" "env_dev env" "env_init_status env = 0" "env_mutex_status env = 0"
    using env by (simp_all add: env_ok_def)
  define t where "t = RL_WORD_ALIGN_DOWN (shmem_length - RL_VRING_OVERHEAD) div RL_BUFFER_SIZE"
  have t4: "4 \<le> unat t" unfolding t_def by (rule shared_blocks [OF size])
  have t: "\<not> 2 * ucast RL_BUFFER_COUNT > t" "t \<noteq> 0" "t - 1 \<noteq> 0" "t - 2 \<noteq> 0" "t - 3 \<noteq> 0"
    using t4 by (auto simp: word_less_nat_alt)
  have base: "RL_WORD_ALIGN_UP (shmem_addr + RL_VRING_OVERHEAD) = shmem_addr + 0x800"
  proof -
    have m: "x AND 3 = 0 \<longleftrightarrow> unat x mod 4 = 0" for x :: u32
    proof -
      have "x AND 3 = take_bit 2 x" by (simp add: take_bit_eq_mask mask_eq_exp_minus_1)
      then have "unat (x AND 3) = unat x mod 4" by (simp add: take_bit_eq_mod unat_mod_distrib)
      then show ?thesis by (metis unat_eq_zero)
    qed
    have "unat (shmem_addr + 0x800) = unat shmem_addr + 0x800"
      using size by (simp add: unat_word_ariths)
    moreover have "unat shmem_addr mod 4 = 0" using a(2) by (simp only: m)
    ultimately have "unat (shmem_addr + 0x800) mod 4 = (0 + 0x800) mod 4" by (metis mod_add_left_eq)
    then have "unat (shmem_addr + 0x800) mod 4 = 0" by simp
    then have "(shmem_addr + 0x800) AND 3 = 0" by (simp only: m)
    then show ?thesis by (simp add: RL_WORD_ALIGN_UP_def)
  qed
  note nn = shared_not_null [OF size]
  obtain rq rr where rq: "master_queue env fns shmem_addr 0 0 = Some (Some (rq, rr))" "fresh_queue rq"
    "\<forall>d. fresh_queue d \<longrightarrow> vq_rel rq d rr \<lparr>ch_avail = [], ch_used = [], ch_drv = {i. unat i < 2}, ch_dev = {}\<rparr>"
    using master_queue_fresh [OF e(1)] by blast
  obtain tq tr where tq: "master_queue env fns shmem_addr 0 1 = Some (Some (tq, tr))" "fresh_queue tq"
    "\<forall>d. fresh_queue d \<longrightarrow> vq_rel tq d tr \<lparr>ch_avail = [], ch_used = [], ch_drv = {i. unat i < 2}, ch_dev = {}\<rparr>"
    using master_queue_fresh [OF e(2)] by blast
  define d where "d = \<lparr>rvq = rq, tvq = tq, rl_endpoints = NULL, link_state = 0,
    sh_mem_base = shmem_addr + 0x800, sh_mem_remaining = t, sh_mem_total = t, vq_ops = master_vq_ops\<rparr>"
  define s where "s = \<lparr>dev = d, rring = rr, tring = tr, msgs = ms, nodes = ns, epts = es, notified = []\<rparr>"
  have rounds: "fill_rounds rq d = 2" "fill_rounds tq d = 2"
    using t4 rq(2) tq(2) by (simp_all add: fill_rounds_def fresh_queue_def d_def)
  have len: "length (desc rr) = 2" "length (desc tr) = 2"
    using rq(2,3) tq(2,3) by (auto simp: vq_rel_def fresh_queue_def)
  have ad: "shmem_addr + 0x800 \<noteq> NULL" "shmem_addr + 0xA00 \<noteq> NULL" "shmem_addr + 0xC00 \<noteq> NULL" "shmem_addr + 0xE00 \<noteq> NULL"
    using nn [of "0x800"] nn [of "0xA00"] nn [of "0xC00"] nn [of "0xE00"] by simp_all
  have hq: "vq_desc_head_idx rq = 0" "vq_desc_head_idx tq = 0"
    using rq(2) tq(2) by (simp_all add: fresh_queue_def)
  have A: "\<forall>d. fresh_queue d \<longrightarrow> vq_rel (rvq (dev s)) d (rring s)
      \<lparr>ch_avail = [], ch_used = [], ch_drv = {i. unat i < 2}, ch_dev = {}\<rparr>"
    "vq_desc_head_idx (rvq (dev s)) = 0" "length (desc (rring s)) = 2"
    "sh_mem_remaining (dev s) = t - 0" "sh_mem_total (dev s) = t" "t - 0 \<noteq> 0" "t - 0 - 1 \<noteq> 0"
    "shmem_addr + 0x800 = sh_mem_base (dev s) + 512 * 0" "shmem_addr + 0xA00 = shmem_addr + 0x800 + 512"
    "shmem_addr + 0x800 \<noteq> NULL" "shmem_addr + 0xA00 \<noteq> NULL"
    using len(1) t ad hq
    by (simp_all only: s_def d_def rl_state.simps rpmsg_lite_instance.simps) (use rq(3) in simp_all)
  obtain q v where q: "master_fill True 2 s = Some (RL_SUCCESS,
      s\<lparr>msgs := (msgs s)(shmem_addr + 0x800 \<mapsto> zero_msg, shmem_addr + 0xA00 \<mapsto> zero_msg),
        dev := (dev s)\<lparr>sh_mem_remaining := t - 0 - 2, rvq := q\<rparr>, rring := v\<rparr>)"
    "\<forall>d. fresh_queue d \<longrightarrow> vq_rel q d v \<lparr>ch_avail = [0, 1], ch_used = [], ch_drv = {}, ch_dev = {}\<rparr>"
    "length (desc v) = 2" "buf_of v 0 = shmem_addr + 0x800" "buf_of v 1 = shmem_addr + 0xA00"
    using master_fill_rx_two [OF A(1-7) A(8-11) rq(2)] by blast
  let ?s = "s\<lparr>msgs := (msgs s)(shmem_addr + 0x800 \<mapsto> zero_msg, shmem_addr + 0xA00 \<mapsto> zero_msg),
        dev := (dev s)\<lparr>sh_mem_remaining := t - 2, rvq := q\<rparr>, rring := v\<rparr>"
  have B: "\<forall>d. fresh_queue d \<longrightarrow> vq_rel (tvq (dev ?s)) d (tring ?s)
      \<lparr>ch_avail = [], ch_used = [], ch_drv = {i. unat i < 2}, ch_dev = {}\<rparr>"
    "vq_desc_head_idx (tvq (dev ?s)) = 0" "length (desc (tring ?s)) = 2"
    "sh_mem_remaining (dev ?s) = t - 2" "sh_mem_total (dev ?s) = t" "t - 2 \<noteq> 0" "t - 2 - 1 \<noteq> 0"
    "shmem_addr + 0xC00 = sh_mem_base (dev ?s) + 512 * 2" "shmem_addr + 0xE00 = shmem_addr + 0xC00 + 512"
    "shmem_addr + 0xC00 \<noteq> NULL" "shmem_addr + 0xE00 \<noteq> NULL"
    using len(2) t ad hq
    by (simp_all only: s_def d_def rl_state.simps rpmsg_lite_instance.simps) (use tq(3) in simp_all)
  obtain q' v' where q': "master_fill False 2 ?s = Some (RL_SUCCESS,
      ?s\<lparr>msgs := (msgs ?s)(shmem_addr + 0xC00 \<mapsto> zero_msg, shmem_addr + 0xE00 \<mapsto> zero_msg),
        dev := (dev ?s)\<lparr>sh_mem_remaining := t - 2 - 2, tvq := q'\<rparr>, tring := v'\<rparr>)"
    "\<forall>d. fresh_queue d \<longrightarrow> vq_rel q' d v' \<lparr>ch_avail = [], ch_used = [(0, 512), (1, 512)], ch_drv = {}, ch_dev = {}\<rparr>"
    "length (desc v') = 2" "buf_of v' 0 = shmem_addr + 0xC00" "buf_of v' 1 = shmem_addr + 0xE00"
    using master_fill_tx_two [OF B(1-7) B(8-11) rq(2)] by blast
  obtain n q2 where k: "virtqueue_kick q v = (n, q2)" by fastforce
  let ?m0 = "?s\<lparr>msgs := (msgs ?s)(shmem_addr + 0xC00 \<mapsto> zero_msg, shmem_addr + 0xE00 \<mapsto> zero_msg),
        dev := (dev ?s)\<lparr>sh_mem_remaining := t - 2 - 2, tvq := q', link_state := 1, rvq := q2\<rparr>, tring := v'\<rparr>"
  let ?m = "if n then virtqueue_notify q2 ?m0 else ?m0"
  have "rpmsg_lite_master_init env fns shmem_addr shmem_length 0 ms ns es = Some (Some ?m)"
    unfolding rpmsg_lite_master_init_def t_def [symmetric] base
    using e a(1) t(1) rq(1) tq(1) rounds q(1) q'(1) k
    by (simp add: s_def [symmetric] d_def [symmetric] Let_def virtqueue_notify_def)
  moreover have "vq_rel q2 d v \<lparr>ch_avail = [0, 1], ch_used = [], ch_drv = {}, ch_dev = {}\<rparr>"
    if "fresh_queue d" for d
    using vq_rel_kick [of q d v] q(2) k that by auto
  ultimately show ?thesis
    using q(3-) q'(2-) by (intro exI [of _ ?m]) (simp add: s_def d_def virtqueue_notify_def)
qed

lemma bufs_ok_two:
  assumes "length (desc v) = 2" "map (buf_of v) [0, 1] = [a, b]" "a \<noteq> b" "a \<noteq> NULL" "b \<noteq> NULL"
    "ms a = Some zero_msg" "ms b = Some zero_msg"
  shows "bufs_ok v ms"
proof -
  have "i = 0 \<or> i = 1" if "unat i < length (desc v)" for i :: u16
    using that two_indices assms(1) by auto
  then show ?thesis unfolding bufs_ok_def using assms(2-) by (metis length_replicate list.simps(9) list.inject rpmsg_std_msg.select_convs(7) zero_msg_def)
qed

lemma init_both_ok:
  assumes "env_ok env" "env_ok env'" "shmem_addr \<noteq> NULL" "shmem_addr AND 3 = 0"
    and "unat shmem_addr + unat shmem_length \<le> 2 ^ 32" "4096 \<le> unat shmem_length"
  shows "\<exists>m r. rpmsg_lite_master_init env fns shmem_addr shmem_length 0 ms ns es = Some (Some m) \<and>
    rpmsg_lite_remote_init env' fns' shmem_addr 0 (rring m) (tring m) (msgs m) ns' es' = Some r \<and>
    rring r = tring m \<and> tring r = rring m \<and> link_state (dev m) = 1 \<and> link_state (dev r) = 0 \<and>
    ept_rep m [] \<and> ept_rep r [] \<and>
    tx_side True (rvq (dev r)) m [0, 1] {} [] \<and> rx_side False (tvq (dev m)) r [] {} [0, 1] \<and>
    tx_side False (rvq (dev m)) r [0, 1] {} [] \<and> rx_side True (tvq (dev r)) m [] {} [0, 1] \<and>
    buf_of (tring m) 0 = shmem_addr + 0xC00 \<and> buf_of (rring m) 0 = shmem_addr + 0x800 \<and> msgs r = msgs m"
proof -
  obtain m where m: "rpmsg_lite_master_init env fns shmem_addr shmem_length 0 ms ns es = Some (Some m)"
    "link_state (dev m) = 1" "rl_endpoints (dev m) = NULL" "vq_ops (dev m) = master_vq_ops"
    "\<forall>d. fresh_queue d \<longrightarrow>
      vq_rel (rvq (dev m)) d (rring m) \<lparr>ch_avail = [0, 1], ch_used = [], ch_drv = {}, ch_dev = {}\<rparr> \<and>
      vq_rel (tvq (dev m)) d (tring m) \<lparr>ch_avail = [], ch_used = [(0, 512), (1, 512)], ch_drv = {}, ch_dev = {}\<rparr>"
    "length (desc (rring m)) = 2" "length (desc (tring m)) = 2"
    "map (buf_of (rring m)) [0, 1] = [shmem_addr + 0x800, shmem_addr + 0xA00]"
    "map (buf_of (tring m)) [0, 1] = [shmem_addr + 0xC00, shmem_addr + 0xE00]"
    "msgs m = ms(shmem_addr + 0x800 \<mapsto> zero_msg, shmem_addr + 0xA00 \<mapsto> zero_msg,
      shmem_addr + 0xC00 \<mapsto> zero_msg, shmem_addr + 0xE00 \<mapsto> zero_msg)"
    using master_init_ok [OF assms(1,3-6), of fns ms ns es] by (elim exE conjE, intro that) assumption+
  obtain r where r: "rpmsg_lite_remote_init env' fns' shmem_addr 0 (rring m) (tring m) (msgs m) ns' es' = Some r"
    "fresh_queue (tvq (dev r))" "fresh_queue (rvq (dev r))" "link_state (dev r) = 0" "rl_endpoints (dev r) = NULL"
    "vq_ops (dev r) = remote_vq_ops" "rring r = tring m" "tring r = rring m" "msgs r = msgs m"
    using remote_init_ok [OF assms(2,3)] by blast
  note nn = shared_not_null [OF assms(5,6)]
  have "bufs_ok (rring m) (msgs m)"
    using nn [of "0x800"] nn [of "0xA00"] by (intro bufs_ok_two [OF m(6,8)]) (simp_all add: m(10))
  moreover have "bufs_ok (tring m) (msgs m)"
    using nn [of "0xC00"] nn [of "0xE00"] by (intro bufs_ok_two [OF m(7,9)]) (simp_all add: m(10))
  moreover have "vq_rel (rvq (dev m)) (tvq (dev r)) (rring m) \<lparr>ch_avail = [0, 1], ch_used = [], ch_drv = {}, ch_dev = {}\<rparr>"
    "vq_rel (tvq (dev m)) (rvq (dev r)) (tring m) \<lparr>ch_avail = [], ch_used = [(0, 512), (1, 512)], ch_drv = {}, ch_dev = {}\<rparr>"
    using m(5) r(2,3) by blast+
  moreover from this have
    "drv_port (rvq (dev r)) (tvq (dev m)) (tring m) [0, 1] {} []" "drv_port (tvq (dev r)) (rvq (dev m)) (rring m) [] {} [0, 1]"
    "dev_port (tvq (dev m)) (rvq (dev r)) (tring m) [] {} [0, 1]" "dev_port (rvq (dev m)) (tvq (dev r)) (rring m) [0, 1] {} []"
    unfolding drv_port_def dev_port_def by fastforce+
  ultimately show ?thesis
    using m(1-4,8,9) r
    by (intro exI [of _ m] exI [of _ r])
      (simp add: ept_rep_def entries_in_def tx_side_def rx_side_def tx_rel_def rx_rel_def side_ops_def side_port_def)
qed

section \<open>Notifications\<close>

text \<open>\<open>env_isr\<close>: the vector is the index of the queue that was kicked; both queues of an
  initialised instance are registered, and a vector of no queue has no data.\<close>

definition env_isr ::
  "rl_funs \<Rightarrow> (delivery \<Rightarrow> bool) \<Rightarrow> u16 \<Rightarrow> rl_state \<Rightarrow> (delivery list \<times> rl_state) option" where
  "env_isr fns hold vector s =
     (if vector \<noteq> vq_queue_index (rvq (dev s)) \<and> vector \<noteq> vq_queue_index (tvq (dev s)) then Some ([], s)
      else do {
        let vq = (if vector = vq_queue_index (tvq (dev s)) then tvq (dev s) else rvq (dev s));
        if \<not> virtqueue_notification vq then Some ([], s)
        else if vq_callback vq = fn_rx fns then rpmsg_lite_rx_callback hold s
        else if vq_callback vq = fn_tx fns then Some ([], rpmsg_lite_tx_callback s)
        else None })"

text \<open>What a queue is created with and keeps.\<close>

definition set_up :: "virtqueue \<Rightarrow> u16 \<Rightarrow> ptr \<Rightarrow> ptr \<Rightarrow> bool" where
  "set_up q i cb nt \<longleftrightarrow> vq_queue_index q = i \<and> vq_callback q = cb \<and> vq_notify q = nt \<and> vq_flags q = 0"

lemma create_set_up: "virtqueue_create a i info cb nt = (st, Some q) \<Longrightarrow> set_up q i cb nt"
  by (auto simp: virtqueue_create_def virtqueue_create_static_def set_up_def split: if_splits)

lemma ring_stores_flags: "ring_stores ops v = Some v' \<Longrightarrow> used_flags v' = used_flags v"
proof (induction ops arbitrary: v)
  case (Cons op ops)
  then show ?case by (cases op) (auto split: bind_splits)
qed simp

lemma update_avail_set_up:
  "vq_ring_update_avail q v i = Some (q', v') \<Longrightarrow> used_flags v' = used_flags v \<and> set_up q' = set_up q"
  by (auto simp: vq_ring_update_avail_def set_up_def fun_eq_iff dest: ring_stores_flags split: bind_splits)

lemma update_used_flags: "vq_ring_update_used q v i l = Some v' \<Longrightarrow> used_flags v' = used_flags v"
  by (auto simp: vq_ring_update_used_def dest: ring_stores_flags)

lemma fill_set_up:
  "virtqueue_fill_avail_buffers q v b l = Some (st, q', v') \<Longrightarrow> used_flags v' = used_flags v \<and> set_up q' = set_up q"
  "virtqueue_fill_used_buffers q v b l = Some (st, q', v') \<Longrightarrow> used_flags v' = used_flags v \<and> set_up q' = set_up q"
proof -
  assume "virtqueue_fill_avail_buffers q v b l = Some (st, q', v')"
  then show "used_flags v' = used_flags v \<and> set_up q' = set_up q"
    by (fastforce simp: virtqueue_fill_avail_buffers_def Let_def set_up_def fun_eq_iff
        dest: ring_stores_flags update_avail_set_up split: bind_splits)
next
  assume "virtqueue_fill_used_buffers q v b l = Some (st, q', v')"
  then show "used_flags v' = used_flags v \<and> set_up q' = set_up q"
    by (fastforce simp: virtqueue_fill_used_buffers_def vq_ring_add_buffer_def Let_def set_up_def fun_eq_iff
        dest: ring_stores_flags update_used_flags split: bind_splits if_splits)
qed

definition set_up_same :: "rl_state \<Rightarrow> rl_state \<Rightarrow> bool" where
  "set_up_same s' s \<longleftrightarrow>
     set_up (rvq (dev s')) = set_up (rvq (dev s)) \<and> set_up (tvq (dev s')) = set_up (tvq (dev s)) \<and>
     used_flags (rring s') = used_flags (rring s) \<and> used_flags (tring s') = used_flags (tring s) \<and>
     notified s' = notified s \<and> epts s' = epts s"

lemma master_fill_set_up: "master_fill rx k s = Some (st, s') \<Longrightarrow> set_up_same s' s"
proof (induction k arbitrary: s)
  case 0
  then show ?case by (simp add: set_up_same_def)
next
  case (Suc k)
  let ?b = "sh_mem_base (dev s) + RL_BUFFER_SIZE * (sh_mem_total (dev s) - sh_mem_remaining (dev s))"
  let ?s = "s\<lparr>msgs := (msgs s)(?b \<mapsto> zero_msg),
    dev := (dev s)\<lparr>sh_mem_remaining := sh_mem_remaining (dev s) - 1\<rparr>\<rparr>"
  have "\<exists>st1 s1. set_up_same s1 s \<and>
      (if st1 \<noteq> RL_SUCCESS then Some (st1, s1) else master_fill rx k s1) = Some (st, s')"
  proof (cases rx)
    case True
    with Suc.prems obtain st1 q v where f: "virtqueue_fill_avail_buffers (rvq (dev s)) (rring s) ?b RL_BUFFER_SIZE = Some (st1, q, v)"
      "(if st1 \<noteq> RL_SUCCESS then Some (st1, ?s\<lparr>dev := (dev ?s)\<lparr>rvq := q\<rparr>, rring := v\<rparr>)
        else master_fill rx k (?s\<lparr>dev := (dev ?s)\<lparr>rvq := q\<rparr>, rring := v\<rparr>)) = Some (st, s')"
      by (fastforce simp: Let_def split: bind_splits if_splits)
    have "set_up_same (?s\<lparr>dev := (dev ?s)\<lparr>rvq := q\<rparr>, rring := v\<rparr>) s"
      using fill_set_up(1) [OF f(1)] by (simp add: set_up_same_def)
    then show ?thesis using f(2) by blast
  next
    case False
    with Suc.prems obtain st1 q v where f: "virtqueue_fill_used_buffers (tvq (dev s)) (tring s) ?b RL_BUFFER_SIZE = Some (st1, q, v)"
      "(if st1 \<noteq> RL_SUCCESS then Some (st1, ?s\<lparr>dev := (dev ?s)\<lparr>tvq := q\<rparr>, tring := v\<rparr>)
        else master_fill rx k (?s\<lparr>dev := (dev ?s)\<lparr>tvq := q\<rparr>, tring := v\<rparr>)) = Some (st, s')"
      by (fastforce simp: Let_def split: bind_splits if_splits)
    have "set_up_same (?s\<lparr>dev := (dev ?s)\<lparr>tvq := q\<rparr>, tring := v\<rparr>) s"
      using fill_set_up(2) [OF f(1)] by (simp add: set_up_same_def)
    then show ?thesis using f(2) by blast
  qed
  then obtain st1 s1 where s1: "set_up_same s1 s"
    "(if st1 \<noteq> RL_SUCCESS then Some (st1, s1) else master_fill rx k s1) = Some (st, s')" by blast
  then have "s' = s1 \<or> master_fill rx k s1 = Some (st, s')" by (auto split: if_splits)
  then show ?case using s1(1) Suc.IH by (auto simp: set_up_same_def)
qed

lemma vq_ring_init_flags: "vq_ring_init_from i k v = Some v' \<Longrightarrow> used_flags v' = used_flags v"
  by (induction i k v rule: vq_ring_init_from.induct) (auto split: bind_splits)

lemma master_queue_set_up:
  "master_queue env fns p l idx = Some (Some (q, v)) \<Longrightarrow> used_flags v = 0 \<and>
   set_up q (RL_GET_VQ_ID l (of_nat idx)) (if idx = 0 then fn_rx fns else fn_tx fns) (fn_notify fns)"
  by (auto simp: master_queue_def virtqueue_disable_cb_def vq_ring_init_def zero_ring_def
      dest: vq_ring_init_flags create_set_up split: prod.splits option.splits bind_splits if_splits)

lemma kick_notifies:
  assumes "set_up q i cb nt" "nt \<noteq> NULL" "used_flags v = 0"
  shows "virtqueue_kick q v = (True, q\<lparr>vq_queued_cnt := 0\<rparr>)"
  using assms by (simp add: virtqueue_kick_def vq_ring_must_notify_host_def vq_ring_notify_host_def set_up_def)

lemma set_up_queued: "set_up (q\<lparr>vq_queued_cnt := n\<rparr>) = set_up q"
  by (simp add: set_up_def fun_eq_iff)

lemma vq_id: "RL_GET_VQ_ID 0 0 = 0" "RL_GET_VQ_ID 0 1 = 1"
  by (simp_all add: RL_GET_VQ_ID_def)

lemma master_init_set_up:
  assumes run: "rpmsg_lite_master_init env fns shmem_addr shmem_length 0 ms ns es = Some (Some m)"
    and n: "fn_notify fns \<noteq> NULL"
  shows "set_up (rvq (dev m)) 0 (fn_rx fns) (fn_notify fns) \<and> set_up (tvq (dev m)) 1 (fn_tx fns) (fn_notify fns) \<and>
    used_flags (rring m) = 0 \<and> used_flags (tring m) = 0 \<and> notified m = [0] \<and> epts m = es"
proof -
  let ?t = "RL_WORD_ALIGN_DOWN (shmem_length - RL_VRING_OVERHEAD) div RL_BUFFER_SIZE"
  obtain rq rr where q0: "master_queue env fns shmem_addr 0 0 = Some (Some (rq, rr))"
    using run by (auto simp: rpmsg_lite_master_init_def split: bind_splits if_splits option.splits)
  obtain tq tr where q1: "master_queue env fns shmem_addr 0 1 = Some (Some (tq, tr))"
    using run q0 by (auto simp: rpmsg_lite_master_init_def split: bind_splits if_splits option.splits)
  define d where "d = \<lparr>rvq = rq, tvq = tq, rl_endpoints = NULL, link_state = 0,
    sh_mem_base = RL_WORD_ALIGN_UP (shmem_addr + RL_VRING_OVERHEAD),
    sh_mem_remaining = ?t, sh_mem_total = ?t, vq_ops = master_vq_ops\<rparr>"
  define s where "s = \<lparr>dev = d, rring = rr, tring = tr, msgs = ms, nodes = ns, epts = es, notified = []\<rparr>"
  from run q0 q1 obtain s1 s2 where f: "master_fill True (fill_rounds rq d) s = Some (RL_SUCCESS, s1)"
    "master_fill False (fill_rounds tq d) s1 = Some (RL_SUCCESS, s2)"
    "m = (case virtqueue_kick (rvq (dev s2)) (rring s2) of (notify, q) \<Rightarrow>
       if notify then virtqueue_notify q (s2\<lparr>dev := (dev s2)\<lparr>link_state := 1, rvq := q\<rparr>\<rparr>)
       else s2\<lparr>dev := (dev s2)\<lparr>link_state := 1, rvq := q\<rparr>\<rparr>)"
    unfolding rpmsg_lite_master_init_def
    by (auto simp: Let_def d_def [symmetric] s_def [symmetric] split: bind_splits if_splits prod.splits)
  have q: "used_flags rr = 0" "set_up rq 0 (fn_rx fns) (fn_notify fns)"
    "used_flags tr = 0" "set_up tq 1 (fn_tx fns) (fn_notify fns)"
    using master_queue_set_up [OF q0] master_queue_set_up [OF q1] vq_id by simp_all
  have s2: "set_up (rvq (dev s2)) 0 (fn_rx fns) (fn_notify fns)" "set_up (tvq (dev s2)) 1 (fn_tx fns) (fn_notify fns)"
    "used_flags (rring s2) = 0" "used_flags (tring s2) = 0" "notified s2 = []" "epts s2 = es"
    using master_fill_set_up [OF f(1)] master_fill_set_up [OF f(2)] q by (simp_all add: set_up_same_def s_def d_def)
  have "virtqueue_kick (rvq (dev s2)) (rring s2) = (True, (rvq (dev s2))\<lparr>vq_queued_cnt := 0\<rparr>)"
    by (rule kick_notifies [OF s2(1) n s2(3)])
  then show ?thesis using s2 f(3) by (simp add: virtqueue_notify_def set_up_queued set_up_def)
qed

lemma remote_init_set_up:
  assumes "rpmsg_lite_remote_init env fns shmem_addr 0 r0 r1 ms ns es = Some r"
  shows "set_up (tvq (dev r)) 0 (fn_tx fns) (fn_notify fns) \<and> set_up (rvq (dev r)) 1 (fn_rx fns) (fn_notify fns) \<and>
    notified r = [] \<and> epts r = es"
  using assms
  by (auto simp: rpmsg_lite_remote_init_def vq_id dest: create_set_up split: if_splits prod.splits option.splits)

lemma tx_set_up:
  assumes "vq_tx (side_ops master) q v b len i = Some (q', v')"
  shows "set_up q' = set_up q" "used_flags v' = used_flags v"
  using assms update_avail_set_up update_used_flags
  by (cases master; fastforce simp: side_ops_def master_vq_ops_def remote_vq_ops_def vq_tx_master_def
      vq_tx_remote_def virtqueue_add_buffer_def virtqueue_add_consumed_buffer_def split: bind_splits if_splits)+

lemma tx_alloc_set_up:
  assumes "vq_tx_alloc (side_ops master) q v = Some (b, out, q')"
  shows "set_up q' = set_up q"
  using assms
  by (cases master) (auto simp: side_ops_def master_vq_ops_def remote_vq_ops_def vq_tx_alloc_master_def
      vq_tx_alloc_remote_def virtqueue_get_buffer_def virtqueue_get_available_buffer_def used_take_def
      avail_take_def Let_def set_up_def fun_eq_iff split: bind_splits if_splits)

text \<open>A send that finds a buffer at once notifies the other core with the index of its
  transmit queue.\<close>

lemma send_notifies:
  assumes tx: "tx_side master d s (i # I) H Q" and q: "set_up (tvq (dev s)) n cb nt" "nt \<noteq> NULL" "used_flags (tring s) = 0"
    and run: "rpmsg_lite_send sleep s ept dst (Some bytes) sz timeout = Some (RL_SUCCESS, s')"
  shows "notified s' = notified s @ [n]"
proof -
  have st: "starved sleep s 0" by (simp add: starved_def)
  have t0: "tx_rel (side_ops master) (side_port master d) ((sleep ^^ 0) s) (i # I) H Q"
    using tx by (simp add: tx_side_def)
  obtain s1 len q1 where a: "tx_alloc_timeout sleep timeout s = Some (buf_of (tring s) i, Some (len, i), s1)"
    "s1 = s\<lparr>dev := (dev s)\<lparr>tvq := q1\<rparr>\<rparr>" "buf_of (tring s) i \<noteq> NULL"
    using rl_side.tx_alloc_timeout_some [OF side _ st t0, of timeout] by auto
  obtain s1' len' q1' where al: "tx_alloc s = Some (buf_of (tring s) i, Some (len', i), s1')"
    "s1' = s\<lparr>dev := (dev s)\<lparr>tvq := q1'\<rparr>\<rparr>"
    using rl_side.tx_alloc_some [OF side, of master d s i I H Q] tx unfolding tx_side_def by blast
  have "s1 = s1'" using a al by (simp add: tx_alloc_timeout_def)
  have ops: "vq_ops (dev s) = side_ops master" using tx by (simp add: tx_side_def tx_rel_def)
  have "vq_tx_alloc (side_ops master) (tvq (dev s)) (tring s) = Some (buf_of (tring s) i, Some (len', i), tvq (dev s1'))"
    using al(1) ops by (auto simp: tx_alloc_def split: bind_splits)
  then have "set_up q1' = set_up (tvq (dev s))" using tx_alloc_set_up al(2) by simp
  then have s1: "set_up (tvq (dev s1)) n cb nt" "vq_ops (dev s1) = side_ops master" "tring s1 = tring s"
    "notified s1 = notified s"
    using \<open>s1 = s1'\<close> al(2) q(1) ops by simp_all
  from run a obtain m where k: "tx_kick (s1\<lparr>msgs := m\<rparr>) (buf_of (tring s) i) len i = Some s'"
    by (fastforce simp: rpmsg_lite_send_def rpmsg_lite_format_message_def Let_def split: bind_splits if_splits)
  then obtain q' v' where t: "vq_tx (side_ops master) (tvq (dev s1)) (tring s1) (buf_of (tring s) i) len i = Some (q', v')"
    "s' = (let (notify, q2) = virtqueue_kick q' v'; s = s1\<lparr>msgs := m, dev := (dev s1)\<lparr>tvq := q2\<rparr>, tring := v'\<rparr>
       in if notify then virtqueue_notify q' s else s)"
    using s1(2) by (auto simp: tx_kick_def Let_def split: bind_splits prod.splits)
  have "set_up q' n cb nt" "used_flags v' = 0"
    using tx_set_up [OF t(1)] s1 q(3) by simp_all
  from kick_notifies [OF this(1) q(2) this(2)] this t(2) show ?thesis
    using s1(4) by (simp add: virtqueue_notify_def set_up_def)
qed

section \<open>Properties\<close>

subsection \<open>Bringing a link up\<close>

definition env1 :: rl_env where
  "env1 = \<lparr>env_dev = True, env_vq = (\<lambda>_. True), env_init_status = 0, env_mutex_status = 0\<rparr>"

definition funs1 :: rl_funs where
  "funs1 = \<lparr>fn_rx = 0x100, fn_tx = 0x200, fn_notify = 0x300\<rparr>"

definition master1 :: rl_state where
  "master1 = the (the (rpmsg_lite_master_init env1 funs1 0x20000000 0x1000 0 (\<lambda>_. None) (\<lambda>_. None) (\<lambda>_. None)))"

definition remote1 :: rl_state where
  "remote1 = the (rpmsg_lite_remote_init env1 funs1 0x20000000 0 (rring master1) (tring master1) (msgs master1)
     (\<lambda>_. None) (\<lambda>_. None))"

lemma env1_ok: "env_ok env1"
  by (simp add: env_ok_def env1_def)

lemma master1_ok:
  "ept_rep master1 []" "link_state (dev master1) = 1" "tx_side True (rvq (dev remote1)) master1 [0, 1] {} []"
  "rx_side True (tvq (dev remote1)) master1 [] {} [0, 1]" "buf_of (tring master1) 0 = 0x20000C00"
  and remote1_ok:
  "ept_rep remote1 []" "rx_side False (tvq (dev master1)) remote1 [] {} [0, 1]"
  "tx_side False (rvq (dev master1)) remote1 [0, 1] {} []"
  "rring remote1 = tring master1" "tring remote1 = rring master1" "link_state (dev remote1) = 0"
  "msgs remote1 = msgs master1"
  using init_both_ok [OF env1_ok env1_ok, of "0x20000000" "0x1000" funs1 "\<lambda>_. None" "\<lambda>_. None" "\<lambda>_. None" funs1 "\<lambda>_. None" "\<lambda>_. None"]
  by (auto simp: master1_def remote1_def)

lemma send_at_once:
  assumes "tx_side master d s (i # I) H Q" "ept \<noteq> NULL" "epts s ept = Some e" "link_state (dev s) \<noteq> 0"
    "sz \<le> RL_BUFFER_PAYLOAD_SIZE" "unat sz \<le> length bytes"
  shows "\<exists>s'. rpmsg_lite_send sleep s ept dst (Some bytes) sz timeout = Some (RL_SUCCESS, s')"
  using rl_side.send_ok [OF side assms(2-6), of 0 timeout sleep master d i I H Q dst] assms(1)
  by (auto simp: starved_def tx_side_def)

text \<open>C23: initialising the master and then the remote on the same shared memory succeeds.
  Each side's transmit queue is the other's receive queue; both buffers of each direction
  wait to be filled by its sender, no side holds any, no endpoint exists. The master's link
  is up and the kick that ends its initialisation notifies the remote with queue 0; the
  remote's link is down, and every send of it is refused, until that notification reaches
  it: its interrupt handler then runs the transmit callback, which raises the link and
  changes nothing else. From then on the link works in both directions: any message that
  fits can be sent from either side at once, the send notifies the other core, and the
  handler of that notification is the receive callback there.\<close>

theorem link_established:
  assumes "env_ok env" "env_ok env'" "shmem_addr \<noteq> NULL" "shmem_addr AND 3 = 0"
    and "unat shmem_addr + unat shmem_length \<le> 2 ^ 32" "4096 \<le> unat shmem_length"
    and "funs_ok fns" "funs_ok fns'"
  shows "\<exists>m r r'. rpmsg_lite_master_init env fns shmem_addr shmem_length 0 ms ns es = Some (Some m) \<and>
    rpmsg_lite_remote_init env' fns' shmem_addr 0 (rring m) (tring m) (msgs m) ns' es' = Some r \<and>
    rring r = tring m \<and> tring r = rring m \<and> link_state (dev m) = 1 \<and> link_state (dev r) = 0 \<and>
    ept_rep m [] \<and> ept_rep r [] \<and>
    tx_side True (rvq (dev r)) m [0, 1] {} [] \<and> rx_side False (tvq (dev m)) r [] {} [0, 1] \<and>
    tx_side False (rvq (dev m)) r [0, 1] {} [] \<and> rx_side True (tvq (dev r)) m [] {} [0, 1] \<and>
    notified m = [0] \<and> notified r = [] \<and>
    (\<forall>sleep ept e dst bytes sz timeout. ept \<noteq> NULL \<and> es' ept = Some e \<and> sz \<le> RL_BUFFER_PAYLOAD_SIZE \<longrightarrow>
      rpmsg_lite_send sleep r ept dst (Some bytes) sz timeout = Some (RL_NOT_READY, r)) \<and>
    (\<forall>hold. env_isr fns' hold 0 r = Some ([], r')) \<and> r' = r\<lparr>dev := (dev r)\<lparr>link_state := 1\<rparr>\<rparr> \<and>
    (\<forall>sleep ept e dst bytes sz timeout. ept \<noteq> NULL \<and> es ept = Some e \<and>
      sz \<le> RL_BUFFER_PAYLOAD_SIZE \<and> unat sz \<le> length bytes \<longrightarrow>
      (\<exists>s. rpmsg_lite_send sleep m ept dst (Some bytes) sz timeout = Some (RL_SUCCESS, s) \<and> notified s = [0, 1])) \<and>
    (\<forall>sleep ept e dst bytes sz timeout. ept \<noteq> NULL \<and> es' ept = Some e \<and>
      sz \<le> RL_BUFFER_PAYLOAD_SIZE \<and> unat sz \<le> length bytes \<longrightarrow>
      (\<exists>s. rpmsg_lite_send sleep r' ept dst (Some bytes) sz timeout = Some (RL_SUCCESS, s) \<and> notified s = [0])) \<and>
    (\<forall>hold v b. env_isr fns' hold 1 (r'\<lparr>rring := v, msgs := b\<rparr>) = rpmsg_lite_rx_callback hold (r'\<lparr>rring := v, msgs := b\<rparr>)) \<and>
    (\<forall>hold v b. env_isr fns hold 0 (m\<lparr>rring := v, msgs := b\<rparr>) = rpmsg_lite_rx_callback hold (m\<lparr>rring := v, msgs := b\<rparr>))"
proof -
  obtain m r where i: "rpmsg_lite_master_init env fns shmem_addr shmem_length 0 ms ns es = Some (Some m)"
    "rpmsg_lite_remote_init env' fns' shmem_addr 0 (rring m) (tring m) (msgs m) ns' es' = Some r"
    "rring r = tring m" "tring r = rring m" "link_state (dev m) = 1" "link_state (dev r) = 0" "ept_rep m []" "ept_rep r []"
    "tx_side True (rvq (dev r)) m [0, 1] {} []" "rx_side False (tvq (dev m)) r [] {} [0, 1]"
    "tx_side False (rvq (dev m)) r [0, 1] {} []" "rx_side True (tvq (dev r)) m [] {} [0, 1]"
    using init_both_ok [OF assms(1-6), of fns ms ns es fns' ns' es'] by (elim exE conjE, intro that) assumption+
  let ?r = "r\<lparr>dev := (dev r)\<lparr>link_state := 1\<rparr>\<rparr>"
  note f = assms(7,8) [unfolded funs_ok_def]
  have m: "set_up (rvq (dev m)) 0 (fn_rx fns) (fn_notify fns)" "set_up (tvq (dev m)) 1 (fn_tx fns) (fn_notify fns)"
    "used_flags (rring m) = 0" "used_flags (tring m) = 0" "notified m = [0]" "epts m = es"
    using master_init_set_up [OF i(1)] f(1) by blast+
  have r: "set_up (tvq (dev r)) 0 (fn_tx fns') (fn_notify fns')" "set_up (rvq (dev r)) 1 (fn_rx fns') (fn_notify fns')"
    "notified r = []" "epts r = es'"
    using remote_init_set_up [OF i(2)] by blast+
  have rt: "tx_side False (rvq (dev m)) ?r [0, 1] {} []" using i(11) by (simp add: tx_side_def tx_rel_def)
  have up: "env_isr fns' hold 0 r = Some ([], ?r)" for hold
    using r(1,2) f(2) by (auto simp: env_isr_def set_up_def virtqueue_notification_def rpmsg_lite_tx_callback_def)
  have down: "rpmsg_lite_send sleep r ept dst (Some bytes) sz timeout = Some (RL_NOT_READY, r)"
    if "ept \<noteq> NULL" "es' ept = Some e" "sz \<le> RL_BUFFER_PAYLOAD_SIZE" for sleep ept e dst bytes sz timeout
    using that r(4) i(6) by (simp add: rpmsg_lite_send_def rpmsg_lite_format_message_def not_less)
  have sm: "\<exists>s. rpmsg_lite_send sleep m ept dst (Some bytes) sz timeout = Some (RL_SUCCESS, s) \<and> notified s = [0, 1]"
    if "ept \<noteq> NULL" "es ept = Some e" "sz \<le> RL_BUFFER_PAYLOAD_SIZE" "unat sz \<le> length bytes"
    for sleep ept e dst bytes sz timeout
    using send_at_once [OF i(9) that(1) _ _ that(3,4), of e sleep dst timeout]
      send_notifies [OF i(9) m(2) _ m(4)] m(5,6) that(2) i(5) f(1) by fastforce
  have sr: "\<exists>s. rpmsg_lite_send sleep ?r ept dst (Some bytes) sz timeout = Some (RL_SUCCESS, s) \<and> notified s = [0]"
    if "ept \<noteq> NULL" "es' ept = Some e" "sz \<le> RL_BUFFER_PAYLOAD_SIZE" "unat sz \<le> length bytes"
    for sleep ept e dst bytes sz timeout
    using send_at_once [OF rt that(1) _ _ that(3,4), of e sleep dst timeout]
      send_notifies [OF rt, of 0 "fn_tx fns'" "fn_notify fns'"] r m(3) i(4) that(2) f(2) by fastforce
  have rx: "env_isr fns' hold 1 (?r\<lparr>rring := v, msgs := b\<rparr>) = rpmsg_lite_rx_callback hold (?r\<lparr>rring := v, msgs := b\<rparr>)"
    "env_isr fns hold 0 (m\<lparr>rring := v, msgs := b\<rparr>) = rpmsg_lite_rx_callback hold (m\<lparr>rring := v, msgs := b\<rparr>)" for hold v b
    using r(1,2) m(1,2) f by (simp_all add: env_isr_def set_up_def virtqueue_notification_def)
  show ?thesis
    by (rule exI [of _ m], rule exI [of _ r], rule exI [of _ ?r])
      (intro conjI allI impI; (elim conjE)?; rule i m(5) r(3) up down sm sr rx refl; assumption)
qed

theorem link_established_witness:
  "\<exists>m r. rpmsg_lite_master_init env1 funs1 0x20000000 0x1000 0 (\<lambda>_. None) (\<lambda>_. None) (\<lambda>_. None) = Some (Some m) \<and>
   rpmsg_lite_remote_init env1 funs1 0x20000000 0 (rring m) (tring m) (msgs m) (\<lambda>_. None) (\<lambda>_. None) = Some r \<and>
   link_state (dev r) = 0 \<and> notified m = [0] \<and>
   env_isr funs1 (\<lambda>_. False) 0 r = Some ([], r\<lparr>dev := (dev r)\<lparr>link_state := 1\<rparr>\<rparr>)"
proof -
  have f: "funs_ok funs1" by (simp add: funs_ok_def funs1_def)
  show ?thesis
    using link_established [OF env1_ok env1_ok _ _ _ _ f f, of "0x20000000" "0x1000"
      "\<lambda>_. None" "\<lambda>_. None" "\<lambda>_. None" "\<lambda>_. None" "\<lambda>_. None"]
    by fastforce
qed

lemma find_free_addr_ok:
  "ept_rep s ts \<Longrightarrow> \<forall>j < n. i + of_nat j \<in> set (map en_addr ts) \<Longrightarrow> i + of_nat n \<notin> set (map en_addr ts) \<Longrightarrow>
   n < k \<Longrightarrow> find_free_addr s k i = Some (i + of_nat n)"
proof (induction k arbitrary: i n)
  case (Suc k)
  show ?case
  proof (cases n)
    case 0
    then show ?thesis using get_endpoint_null_iff [OF Suc.prems(1), of i] Suc.prems(3) by simp
  next
    case (Suc l)
    have "i \<in> set (map en_addr ts)" using Suc.prems(2) [rule_format, of 0] Suc by simp
    then obtain node where node: "rpmsg_lite_get_endpoint_from_addr s i = Some node" "node \<noteq> NULL"
      using get_endpoint_ok [OF Suc.prems(1), of i] get_endpoint_null_iff [OF Suc.prems(1), of i] by auto
    have "find_free_addr s k (i + 1) = Some (i + 1 + of_nat l)"
    proof (rule Suc.IH [OF Suc.prems(1)])
      show "\<forall>j < l. i + 1 + of_nat j \<in> set (map en_addr ts)"
      proof (intro allI impI)
        fix j assume "j < l"
        then show "i + 1 + of_nat j \<in> set (map en_addr ts)"
          using Suc.prems(2) [rule_format, of "Suc j"] Suc by (simp add: ac_simps)
      qed
      show "i + 1 + of_nat l \<notin> set (map en_addr ts)" using Suc.prems(3) Suc by (simp add: ac_simps)
      show "l < k" using Suc.prems(4) Suc by simp
    qed
    then show ?thesis using node Suc by (simp add: ac_simps)
  qed
qed simp

lemma free_addr_exists:
  fixes A :: "u32 set"
  assumes "finite A" "card A < 2 ^ 32 - 2"
  obtains n where "n < 2 ^ 32 - 2" "1 + of_nat n \<notin> A" "\<forall>j < n. 1 + of_nat j \<in> A"
proof -
  let ?f = "\<lambda>n. 1 + of_nat n :: u32"
  have inj: "inj_on ?f {..<2 ^ 32 - 2}" by (intro inj_onI) (simp add: of_nat_eq_iff_small)
  have "\<not> ?f ` {..<2 ^ 32 - 2} \<subseteq> A"
  proof
    assume "?f ` {..<2 ^ 32 - 2} \<subseteq> A"
    then have "card {..<2 ^ 32 - 2 :: nat} \<le> card A" using card_inj_on_le [OF inj _ assms(1)] by blast
    then show False using assms(2) by simp
  qed
  then obtain m where m: "m < 2 ^ 32 - 2" "?f m \<notin> A" by auto
  let ?n = "LEAST n. ?f n \<notin> A"
  have "?f ?n \<notin> A" by (rule LeastI [of "\<lambda>n. ?f n \<notin> A", OF m(2)])
  moreover have le: "?n \<le> m" by (rule Least_le [of "\<lambda>n. ?f n \<notin> A", OF m(2)])
  moreover have "\<forall>j < ?n. ?f j \<in> A" using not_less_Least by blast
  moreover have "?n < 2 ^ 32 - 2" by (rule le_less_trans [OF le m(1)])
  ultimately show thesis using that by blast
qed

text \<open>C26: \<open>rpmsg_lite_create_ept\<close> refuses an address that is in use and changes nothing
  then; otherwise the new endpoint is the head of the table. Asked for any address it
  chooses the least one from 1 on that is not in use, so addresses stay unique.\<close>

theorem ept_create:
  assumes rep: "ept_rep s ts" and room: "length ts < 2 ^ 32 - 2"
    and fresh: "p \<noteq> NULL" "node \<noteq> NULL" "p \<notin> set (map en_ept ts)" "node \<notin> set (map en_node ts)"
  shows "if addr \<noteq> RL_ADDR_ANY \<and> addr \<in> set (map en_addr ts)
    then rpmsg_lite_create_ept s addr cb cbd p node = Some (NULL, s)
    else \<exists>a s'. rpmsg_lite_create_ept s addr cb cbd p node = Some (p, s') \<and>
      ept_rep s' (\<lparr>en_node = node, en_ept = p,
        en_obj = \<lparr>ept_addr = a, ept_rx_cb = cb, ept_rx_cb_data = cbd\<rparr>\<rparr> # ts) \<and>
      (if addr = RL_ADDR_ANY
       then 1 \<le> a \<and> a \<noteq> RL_ADDR_ANY \<and> (\<forall>b. 1 \<le> b \<and> b < a \<longrightarrow> b \<in> set (map en_addr ts))
       else a = addr)"
proof -
  let ?A = "set (map en_addr ts)"
  have at: "\<exists>s'. create_ept_at s a cb cbd p node = Some (p, s') \<and> ept_rep s' (\<lparr>en_node = node, en_ept = p,
        en_obj = \<lparr>ept_addr = a, ept_rx_cb = cb, ept_rx_cb_data = cbd\<rparr>\<rparr> # ts)" if "a \<notin> ?A" for a
    using create_ept_at_ok [OF rep that fresh] by blast
  consider (used) "addr \<noteq> RL_ADDR_ANY" "addr \<in> ?A" | (free) "addr \<noteq> RL_ADDR_ANY" "addr \<notin> ?A"
    | (any) "addr = RL_ADDR_ANY" by blast
  then show ?thesis
  proof cases
    case used
    obtain nd where "rpmsg_lite_get_endpoint_from_addr s addr = Some nd" using get_endpoint_ok [OF rep] by blast
    then show ?thesis
      using used get_endpoint_null_iff [OF rep, of addr] by (simp add: rpmsg_lite_create_ept_def)
  next
    case free
    then have "rpmsg_lite_get_endpoint_from_addr s addr = Some NULL" using get_endpoint_null_iff [OF rep] by blast
    then show ?thesis using free at [OF free(2)] by (simp add: rpmsg_lite_create_ept_def)
  next
    case any
    have "card ?A < 2 ^ 32 - 2" using room card_length [of "map en_addr ts"] by simp
    then obtain n where n: "n < 2 ^ 32 - 2" "1 + of_nat n \<notin> ?A" "\<forall>j < n. 1 + of_nat j \<in> ?A"
      using free_addr_exists [of ?A] by blast
    let ?a = "1 + of_nat n :: u32"
    have find: "find_free_addr s (2 ^ 32 - 2) 1 = Some ?a" by (rule find_free_addr_ok [OF rep n(3,2,1)])
    have ua: "unat ?a = n + 1"
    proof -
      have "unat (of_nat (n + 1) :: u32) = n + 1" using n(1) by (intro unat_of_nat_small) simp
      then show ?thesis by simp
    qed
    have "b \<in> ?A" if "1 \<le> b" "b < ?a" for b
    proof -
      have "1 \<le> unat b" "unat b < n + 1" using that ua by (simp_all add: word_le_nat_alt word_less_nat_alt)
      then have "unat b - 1 < n" by linarith
      then have "1 + of_nat (unat b - 1) \<in> ?A" using n(3) by blast
      moreover have "1 + of_nat (unat b - 1) = (of_nat (1 + (unat b - 1)) :: u32)" by simp
      moreover have "1 + (unat b - 1) = unat b" using \<open>1 \<le> unat b\<close> by simp
      ultimately show ?thesis by (metis of_nat_unat_id)
    qed
    moreover have "?a \<noteq> RL_ADDR_ANY" using ua n(1) by auto
    moreover have "1 \<le> ?a" using ua by (simp add: word_le_nat_alt)
    ultimately show ?thesis
      using any find at [OF n(2)] by (fastforce simp: rpmsg_lite_create_ept_def)
  qed
qed


definition entry2 :: entry where
  "entry2 = \<lparr>en_node = 0x500, en_ept = 0x400, en_obj = \<lparr>ept_addr = 30, ept_rx_cb = 0x600, ept_rx_cb_data = 0\<rparr>\<rparr>"

theorem ept_create_witness:
  "\<exists>a s'. rpmsg_lite_create_ept master1 RL_ADDR_ANY 0x600 0 0x400 0x500 = Some (0x400, s') \<and>
    ept_rep s' [\<lparr>en_node = 0x500, en_ept = 0x400,
      en_obj = \<lparr>ept_addr = a, ept_rx_cb = 0x600, ept_rx_cb_data = 0\<rparr>\<rparr>]"
  using ept_create [OF master1_ok(1), of "0x400" "0x500" RL_ADDR_ANY "0x600" 0] by auto

lemma create_ept_frame:
  assumes "rpmsg_lite_create_ept s addr cb cbd p node = Some (q, s')"
  shows "tring s' = tring s \<and> rring s' = rring s \<and> msgs s' = msgs s \<and> tvq (dev s') = tvq (dev s) \<and>
    rvq (dev s') = rvq (dev s) \<and> vq_ops (dev s') = vq_ops (dev s) \<and> link_state (dev s') = link_state (dev s)"
  using assms by (auto simp: rpmsg_lite_create_ept_def create_ept_at_def Let_def split: bind_splits if_splits)

lemma side_cong:
  assumes "tring s' = tring s \<and> rring s' = rring s \<and> msgs s' = msgs s \<and> tvq (dev s') = tvq (dev s) \<and>
    rvq (dev s') = rvq (dev s) \<and> vq_ops (dev s') = vq_ops (dev s) \<and> link_state (dev s') = link_state (dev s)"
  shows "tx_side master d s' I H Q = tx_side master d s I H Q" "rx_side master d s' I H Q = rx_side master d s I H Q"
  using assms by (simp_all add: tx_side_def rx_side_def tx_rel_def rx_rel_def)

text \<open>Both cores with an endpoint at address 30.\<close>

definition with_ept :: "rl_state \<Rightarrow> rl_state" where
  "with_ept s = snd (the (rpmsg_lite_create_ept s 30 0x600 0 0x400 0x500))"

lemma with_ept_ok:
  assumes "ept_rep s []"
  shows "rpmsg_lite_create_ept s 30 0x600 0 0x400 0x500 = Some (0x400, with_ept s)" "ept_rep (with_ept s) [entry2]"
    "epts (with_ept s) 0x400 = Some (en_obj entry2)" "link_state (dev (with_ept s)) = link_state (dev s)"
    "tring (with_ept s) = tring s" "rring (with_ept s) = rring s" "msgs (with_ept s) = msgs s"
    "tvq (dev (with_ept s)) = tvq (dev s)" "rvq (dev (with_ept s)) = rvq (dev s)"
    "tx_side master d (with_ept s) I H Q = tx_side master d s I H Q"
    "rx_side master d (with_ept s) I H Q = rx_side master d s I H Q"
proof -
  have "rpmsg_lite_get_endpoint_from_addr s 30 = Some NULL" using get_endpoint_null_iff [OF assms] by simp
  then obtain s' where s': "rpmsg_lite_create_ept s 30 0x600 0 0x400 0x500 = Some (0x400, s')" "ept_rep s' [entry2]"
    using create_ept_at_ok [OF assms, of 30 "0x400" "0x500" "0x600" 0]
    by (auto simp: rpmsg_lite_create_ept_def entry2_def)
  then have w: "with_ept s = s'" by (simp add: with_ept_def)
  note fr = create_ept_frame [OF s'(1)]
  show "rpmsg_lite_create_ept s 30 0x600 0 0x400 0x500 = Some (0x400, with_ept s)" "ept_rep (with_ept s) [entry2]"
    using s' by (simp_all add: w)
  then show "epts (with_ept s) 0x400 = Some (en_obj entry2)"
    by (simp add: ept_rep_def entries_in_def entry2_def)
  show "link_state (dev (with_ept s)) = link_state (dev s)"
    "tring (with_ept s) = tring s" "rring (with_ept s) = rring s" "msgs (with_ept s) = msgs s"
    "tvq (dev (with_ept s)) = tvq (dev s)" "rvq (dev (with_ept s)) = rvq (dev s)"
    "tx_side master d (with_ept s) I H Q = tx_side master d s I H Q"
    "rx_side master d (with_ept s) I H Q = rx_side master d s I H Q"
    using fr side_cong [OF fr] by (simp_all add: w)
qed

text \<open>Here \<open>rpmsg_lite_destroy_ept\<close> takes exactly its endpoint out of the table: its address is
  no longer found, every other address is found as before, and destroying \<open>NULL\<close> is
  refused.\<close>

theorem ept_destroy:
  assumes "ept_rep s (ys @ t # zs)"
  shows "rpmsg_lite_destroy_ept s NULL = Some (RL_ERR_PARAM, s) \<and>
    (\<exists>s'. rpmsg_lite_destroy_ept s (en_ept t) = Some (RL_SUCCESS, s') \<and> ept_rep s' (ys @ zs) \<and>
      epts s' (en_ept t) = None \<and>
      rpmsg_lite_get_endpoint_from_addr s' (en_addr t) = Some NULL \<and>
      (\<forall>addr. addr \<noteq> en_addr t \<longrightarrow>
        rpmsg_lite_get_endpoint_from_addr s' addr = rpmsg_lite_get_endpoint_from_addr s addr))"
proof -
  obtain s' where s': "rpmsg_lite_destroy_ept s (en_ept t) = Some (RL_SUCCESS, s')" "ept_rep s' (ys @ zs)"
    using destroy_ept_ok [OF assms] by blast
  have "epts s' (en_ept t) = None"
    using s'(1) by (auto simp: rpmsg_lite_destroy_ept_def split: bind_splits if_splits)
  moreover have "distinct (map en_addr (ys @ t # zs))" using assms by (simp only: ept_rep_def)
  then have "rpmsg_lite_get_endpoint_from_addr s' (en_addr t) = Some NULL"
    using get_endpoint_null_iff [OF s'(2)] by auto
  moreover have "lookup_ept (ys @ zs) addr = lookup_ept (ys @ t # zs) addr" if "addr \<noteq> en_addr t" for addr
    using that unfolding lookup_ept_def by (induction ys) auto
  then have "\<forall>addr. addr \<noteq> en_addr t \<longrightarrow>
      rpmsg_lite_get_endpoint_from_addr s' addr = rpmsg_lite_get_endpoint_from_addr s addr"
    using get_endpoint_ok [OF s'(2)] get_endpoint_ok [OF assms] by simp
  ultimately show ?thesis using s' by (simp add: rpmsg_lite_destroy_ept_def)
qed

theorem ept_destroy_witness:
  "\<exists>s'. rpmsg_lite_destroy_ept (with_ept master1) 0x400 = Some (RL_SUCCESS, s') \<and>
    rpmsg_lite_get_endpoint_from_addr s' 30 = Some NULL"
  using ept_destroy [of "with_ept master1" "[]" entry2 "[]"] with_ept_ok(2) [OF master1_ok(1)]
  by (auto simp: entry2_def)

subsection \<open>Sending\<close>

text \<open>C21: on either side, a message that fits is sent as soon as a buffer turns up within
  the timeout: the call succeeds, the message is the last of those in flight with the
  endpoint's address as its source, only its own buffer is written, and no buffer is lost.\<close>

theorem rl_send_delivers:
  assumes "ept \<noteq> NULL" "epts s ept = Some e" "link_state (dev s) \<noteq> 0"
    and "sz \<le> RL_BUFFER_PAYLOAD_SIZE" "unat sz \<le> length bytes"
    and "k \<le> unat timeout" "starved sleep s k" "tx_side master d ((sleep ^^ k) s) (i # I) H Q"
  shows "\<exists>s' m. rpmsg_lite_send sleep s ept dst (Some bytes) sz timeout = Some (RL_SUCCESS, s') \<and>
    tx_side master d s' I H (Q @ [i]) \<and>
    flight s' (Q @ [i]) = flight ((sleep ^^ k) s) Q @ [(ept_addr e, dst, take (unat sz) bytes)] \<and>
    msgs s' = (msgs ((sleep ^^ k) s))(buf_of (tring ((sleep ^^ k) s)) i \<mapsto> m)"
  using rl_side.send_ok [OF side assms(1-7)] assms(8) unfolding tx_side_def by blast

text \<open>C22: when no buffer turns up, the sender looks once and once more after each of at most
  \<open>timeout\<close> sleeps, then gives up with \<open>RL_ERR_NO_MEM\<close>; a message that is too big, a missing
  endpoint, missing data and a link that is down are refused at once. In each case nothing
  but the sleeping has changed the state.\<close>

theorem rl_send_refuses:
  assumes "ept \<noteq> NULL" "epts s ept = Some e"
  shows "rpmsg_lite_send sleep s NULL dst data sz timeout = Some (RL_ERR_PARAM, s) \<and>
    (sz > RL_BUFFER_PAYLOAD_SIZE \<longrightarrow>
      rpmsg_lite_send sleep s ept dst data sz timeout = Some (RL_ERR_BUFF_SIZE, s)) \<and>
    (sz \<le> RL_BUFFER_PAYLOAD_SIZE \<longrightarrow>
      rpmsg_lite_send sleep s ept dst None sz timeout = Some (RL_ERR_PARAM, s) \<and>
      (link_state (dev s) = 0 \<longrightarrow>
        rpmsg_lite_send sleep s ept dst (Some bytes) sz timeout = Some (RL_NOT_READY, s)) \<and>
      (link_state (dev s) \<noteq> 0 \<and> starved sleep s (Suc (unat timeout)) \<longrightarrow>
        rpmsg_lite_send sleep s ept dst (Some bytes) sz timeout =
          Some (RL_ERR_NO_MEM, (sleep ^^ unat timeout) s)))"
  using rl_side.send_starved [OF side] assms
  by (auto simp: rpmsg_lite_send_def rpmsg_lite_format_message_def not_less)

definition sent1 :: rl_state where
  "sent1 = snd (the (rpmsg_lite_send id (with_ept master1) 0x400 30 (Some [1, 2, 3]) 3 0))"

theorem rl_send_delivers_witness:
  "rpmsg_lite_send id (with_ept master1) 0x400 30 (Some [1, 2, 3]) 3 0 = Some (RL_SUCCESS, sent1) \<and>
   tx_side True (rvq (dev remote1)) sent1 [1] {} [0] \<and> flight sent1 [0] = [(30, 30, [1, 2, 3])]"
proof -
  have "tx_side True (rvq (dev remote1)) ((id ^^ 0) (with_ept master1)) (0 # [1]) {} []"
    using with_ept_ok(10) [OF master1_ok(1)] master1_ok(3) by simp
  then show ?thesis
    using rl_send_delivers [of "0x400" "with_ept master1" "en_obj entry2" 3 "[1, 2, 3]" 0 0 id True "rvq (dev remote1)" 0 "[1]" "{}" "[]" 30]
      with_ept_ok(3,4) [OF master1_ok(1)] master1_ok(2)
    by (auto simp: starved_def flight_def entry2_def sent1_def)
qed

theorem rl_send_refuses_witness:
  "rpmsg_lite_send id (with_ept remote1) 0x400 30 (Some [1, 2, 3]) 3 7 = Some (RL_NOT_READY, with_ept remote1) \<and>
   rpmsg_lite_send id (with_ept remote1) 0x400 30 (Some [1, 2, 3]) 497 7 = Some (RL_ERR_BUFF_SIZE, with_ept remote1)"
proof -
  have "link_state (dev (with_ept remote1)) = 0"
    using with_ept_ok(4) [OF remote1_ok(1)] remote1_ok(6) by simp
  then show ?thesis
    using rl_send_refuses [of "0x400" "with_ept remote1" "en_obj entry2"] with_ept_ok(3) [OF remote1_ok(1)] by simp
qed

text \<open>C24: the zero-copy path sends the same message as the copying one: a buffer is handed to
  the sender, which holds it while it fills the payload in place, and sending it puts it
  behind the messages in flight.\<close>

theorem rl_zero_copy:
  assumes "ept \<noteq> NULL" "epts s ept = Some e" "link_state (dev s) \<noteq> 0"
    and "sz \<le> RL_BUFFER_PAYLOAD_SIZE" "length p = 496"
    and "tx_side master d s (i # I) H Q" "buf_of (tring s) i + 16 \<noteq> NULL"
  shows "\<exists>n s1 m s'. rpmsg_lite_alloc_tx_buffer sleep s timeout = Some (buf_of (tring s) i + 16, n, s1) \<and>
    tx_side master d s1 I (insert i H) Q \<and> msgs s1 (buf_of (tring s) i) = Some m \<and>
    rpmsg_lite_send_nocopy (s1\<lparr>msgs := (msgs s1)(buf_of (tring s) i \<mapsto> m\<lparr>payload := p\<rparr>)\<rparr>)
      ept dst (buf_of (tring s) i + 16) sz = Some (RL_SUCCESS, s') \<and>
    tx_side master d s' I H (Q @ [i]) \<and>
    flight s' (Q @ [i]) = flight s Q @ [(ept_addr e, dst, take (unat sz) p)]"
  using rl_side.nocopy_ok [OF side assms(1-5)] assms(6,7) unfolding tx_side_def by blast

theorem rl_zero_copy_witness:
  "\<exists>n s1. rpmsg_lite_alloc_tx_buffer id (with_ept master1) 0 = Some (buf_of (tring master1) 0 + 16, n, s1) \<and>
    tx_side True (rvq (dev remote1)) s1 [1] {0} []"
proof -
  have "buf_of (tring master1) 0 + 16 \<noteq> NULL" using master1_ok(5) by simp
  then show ?thesis
    using rl_zero_copy [of "0x400" "with_ept master1" "en_obj entry2" 3 "replicate 496 0" True "rvq (dev remote1)" 0 "[1]" "{}" "[]" id 0 30]
      with_ept_ok(3,4,5,10) [OF master1_ok(1)] master1_ok(2,3)
    by (auto simp: entry2_def)
qed

subsection \<open>Receiving\<close>

lemma port_switch: "side_port master d q v I H Q \<Longrightarrow> \<exists>H'. side_port (\<not> master) q d v Q H' I"
  by (auto simp: side_port_def drv_port_def dev_port_def)

text \<open>The peer of a sender sees the shared memory after the send.\<close>

lemma peer_sees:
  assumes s': "tx_side master (rvq (dev r)) s' I H (Q @ [i])" and ops: "vq_ops (dev r) = side_ops (\<not> master)"
  shows "\<exists>H'. rx_side (\<not> master) (tvq (dev s')) (r\<lparr>rring := tring s', msgs := msgs s'\<rparr>) (Q @ [i]) H' I"
  using s' port_switch [of master "rvq (dev r)" "tvq (dev s')" "tring s'" I H "Q @ [i]"] ops
  by (auto simp: tx_side_def rx_side_def tx_rel_def rx_rel_def)

lemma end_to_end_ok:
  assumes send: "ept \<noteq> NULL" "epts s ept = Some e" "link_state (dev s) \<noteq> 0"
      "sz \<le> RL_BUFFER_PAYLOAD_SIZE" "unat sz \<le> length bytes" "tx_side master (rvq (dev r)) s (i # I) H Q"
    and peer: "vq_ops (dev r) = side_ops (\<not> master)" "rring r = tring s" "msgs r = msgs s" "ept_rep r ts"
      "lookup_ept ts dst = Some t"
  shows "\<exists>s' c r'. rpmsg_lite_send sleep s ept dst (Some bytes) sz timeout = Some (RL_SUCCESS, s') \<and>
    rpmsg_lite_rx_callback hold (r\<lparr>rring := tring s', msgs := msgs s'\<rparr>) =
      Some (concat (map (\<lambda>j. calls_for ts (received r j)) Q) @ [c], r') \<and>
    dl_ept c = en_obj t \<and> dl_src c = ept_addr e \<and>
    take (unat (dl_len c)) (dl_payload c) = take (unat sz) bytes"
proof -
  have st: "starved sleep s 0" by (simp add: starved_def)
  have t0: "tx_rel (side_ops master) (side_port master (rvq (dev r))) ((sleep ^^ 0) s) (i # I) H Q"
    using send(6) by (simp add: tx_side_def)
  obtain s' m where s': "rpmsg_lite_send sleep s ept dst (Some bytes) sz timeout = Some (RL_SUCCESS, s')"
    "tx_rel (side_ops master) (side_port master (rvq (dev r))) s' I H (Q @ [i])"
    "flight s' (Q @ [i]) = flight s Q @ [(ept_addr e, dst, take (unat sz) bytes)]"
    "msgs s' = (msgs s)(buf_of (tring s) i \<mapsto> m)" "desc (tring s') = desc (tring s)"
    using rl_side.send_ok [OF side send(1-5) _ st t0, of timeout dst] by auto
  let ?r = "r\<lparr>rring := tring s', msgs := msgs s'\<rparr>"
  obtain H' where H': "rx_side (\<not> master) (tvq (dev s')) ?r (Q @ [i]) H' I"
    using peer_sees [OF _ peer(1)] s'(2) unfolding tx_side_def by blast
  have rep: "ept_rep ?r ts" using peer(4) by (simp add: ept_rep_def)
  obtain r' where r': "rpmsg_lite_rx_callback hold ?r =
      Some (concat (map (\<lambda>j. calls_for ts (received ?r j)) (Q @ [i])), r')"
    using rl_side.rx_callback_ok [OF side H' [unfolded rx_side_def] rep] by blast
  have view: "msg_view (received ?r i) = (ept_addr e, dst, take (unat sz) bytes)"
    using s'(3) by (simp add: flight_def received_def)
  then have dst: "h_dst (received ?r i) = dst" by (simp add: msg_view_def)
  have "received ?r j = received r j" if "j \<in> set Q" for j
  proof -
    have "buf_of (tring s') j \<noteq> buf_of (tring s') i"
    proof -
      have p: "side_port master (rvq (dev r)) (tvq (dev s)) (tring s) (i # I) H Q" "bufs_ok (tring s) (msgs s)"
        using send(6) by (simp_all add: tx_side_def tx_rel_def)
      from queue_port.port_range [OF rl_side.axioms(1) [OF side] p(1)]
      have "unat i < length (desc (tring s))" "unat j < length (desc (tring s))" using that by auto
      moreover have "i \<noteq> j" using queue_port.port_apart [OF rl_side.axioms(1) [OF side] p(1)] that by auto
      ultimately show ?thesis using p(2) unfolding bufs_ok_def buf_of_cong [OF s'(5)] by blast
    qed
    then show ?thesis using s'(4) peer(2,3) by (simp add: received_def buf_of_cong [OF s'(5)])
  qed
  then have earlier: "map (\<lambda>j. calls_for ts (received ?r j)) Q = map (\<lambda>j. calls_for ts (received r j)) Q"
    by (intro map_cong refl) simp
  let ?c = "\<lparr>dl_ept = en_obj t, dl_payload = payload (received ?r i), dl_len = h_len (received ?r i),
    dl_src = h_src (received ?r i)\<rparr>"
  have "calls_for ts (received ?r i) = [?c]" using dst peer(5) by (simp add: calls_for_def)
  then have "rpmsg_lite_rx_callback hold ?r = Some (concat (map (\<lambda>j. calls_for ts (received r j)) Q) @ [?c], r')"
    using r' earlier by (simp only: map_append concat_append list.map concat.simps append_Nil2)
  moreover have "h_src (received ?r i) = ept_addr e"
    "take (unat (h_len (received ?r i))) (payload (received ?r i)) = take (unat sz) bytes"
    using view by (simp_all add: msg_view_def)
  ultimately show ?thesis using s'(1) by (intro exI [of _ s'] exI [of _ ?c] exI [of _ r']) simp
qed

text \<open>C19: what one core sends the other receives: after a send, the callback of the receiving
  core first delivers all messages that were in flight before, in their order, and then
  this one, to the endpoint of its destination address, with the sender's address as its
  source and with the bytes that were sent.\<close>

theorem rl_end_to_end:
  assumes "ept \<noteq> NULL" "epts s ept = Some e" "link_state (dev s) \<noteq> 0"
      "sz \<le> RL_BUFFER_PAYLOAD_SIZE" "unat sz \<le> length bytes" "tx_side master (rvq (dev r)) s (i # I) H Q"
    and "vq_ops (dev r) = side_ops (\<not> master)" "rring r = tring s" "msgs r = msgs s" "ept_rep r ts"
      "lookup_ept ts dst = Some t"
  shows "\<exists>s' c r'. rpmsg_lite_send sleep s ept dst (Some bytes) sz timeout = Some (RL_SUCCESS, s') \<and>
    rpmsg_lite_rx_callback hold (r\<lparr>rring := tring s', msgs := msgs s'\<rparr>) =
      Some (concat (map (\<lambda>j. calls_for ts (received r j)) Q) @ [c], r') \<and>
    dl_ept c = en_obj t \<and> dl_src c = ept_addr e \<and>
    take (unat (dl_len c)) (dl_payload c) = take (unat sz) bytes"
  by (rule end_to_end_ok [OF assms])

theorem rl_end_to_end_witness:
  "\<exists>s' c r'. rpmsg_lite_send id (with_ept master1) 0x400 30 (Some [1, 2, 3]) 3 0 = Some (RL_SUCCESS, s') \<and>
    rpmsg_lite_rx_callback (\<lambda>_. False) ((with_ept remote1)\<lparr>rring := tring s', msgs := msgs s'\<rparr>) = Some ([c], r') \<and>
    dl_ept c = en_obj entry2 \<and> take (unat (dl_len c)) (dl_payload c) = [1, 2, 3]"
proof -
  have r: "vq_ops (dev (with_ept remote1)) = side_ops (\<not> True)" "rvq (dev (with_ept remote1)) = rvq (dev remote1)"
    "rring (with_ept remote1) = tring (with_ept master1)" "msgs (with_ept remote1) = msgs (with_ept master1)"
    using with_ept_ok [OF remote1_ok(1)] with_ept_ok [OF master1_ok(1)] remote1_ok(2-)
      with_ept_ok(11) [OF remote1_ok(1), of False "tvq (dev master1)" "[]" "{}" "[0, 1]"]
    by (simp_all add: rx_side_def rx_rel_def)
  have t: "tx_side True (rvq (dev (with_ept remote1))) (with_ept master1) [0, 1] {} []"
    using master1_ok(3) r(2) by (simp add: with_ept_ok(10) [OF master1_ok(1)])
  have l: "link_state (dev (with_ept master1)) \<noteq> 0" using with_ept_ok(4) [OF master1_ok(1)] master1_ok(2) by simp
  have k: "lookup_ept [entry2] 30 = Some entry2" by (simp add: lookup_ept_def entry2_def)
  have sz: "(3 :: u32) \<le> RL_BUFFER_PAYLOAD_SIZE" "unat (3 :: u32) \<le> length [1, 2, 3 :: u8]" "(0x400 :: ptr) \<noteq> NULL"
    by simp_all
  show ?thesis
    using rl_end_to_end [OF sz(3) with_ept_ok(3) [OF master1_ok(1)] l sz(1,2) t r(1,3,4)
        with_ept_ok(2) [OF remote1_ok(1)] k, of id 0 "\<lambda>_. False"]
    by auto
qed

text \<open>C20: the receive callback drains the queue: each waiting message is delivered exactly
  once, in order, to the endpoint of its address or to none; it leaves the messages
  themselves alone except for the note in those that are kept; and each buffer is
  afterwards either held by its receiver or on its way back, in order.\<close>

theorem rl_receives_all:
  assumes "rx_side master d s I H Q" "ept_rep s ts"
  shows "\<exists>s'. rpmsg_lite_rx_callback hold s = Some (concat (map (\<lambda>j. calls_for ts (received s j)) I), s') \<and>
    ept_rep s' ts \<and>
    (\<forall>b. (\<forall>j \<in> set I. kept hold ts s j \<longrightarrow> b \<noteq> buf_of (rring s) j) \<longrightarrow> msgs s' b = msgs s b) \<and>
    rx_side master d s' [] (H \<union> {j \<in> set I. kept hold ts s j}) (Q @ filter (\<lambda>j. \<not> kept hold ts s j) I)"
  using rl_side.rx_callback_ok [OF side assms [unfolded rx_side_def], of hold] unfolding rx_side_def by blast

text \<open>C25: a message that the callback kept can be given back later, at any time, by its
  payload address: the buffer then goes back to the sender behind those already returned.\<close>

theorem rl_hold_release:
  assumes rx: "rx_side master d s I H Q" and rep: "ept_rep s ts" and j: "j \<in> set I" "kept hold ts s j"
    and run: "rpmsg_lite_rx_callback hold s = Some (calls, s')" and b: "buf_of (rring s) j + 16 \<noteq> NULL"
  shows "\<exists>s''. rpmsg_lite_release_rx_buffer s' (buf_of (rring s) j + 16) = Some (RL_SUCCESS, s'') \<and>
    msgs s'' = msgs s' \<and>
    rx_side master d s'' [] (H \<union> {j \<in> set I. kept hold ts s j} - {j})
      (Q @ filter (\<lambda>j. \<not> kept hold ts s j) I @ [j])"
proof -
  have s': "msgs s' (buf_of (rring s) j) = Some ((received s j)\<lparr>h_idx := j\<rparr>)"
    "rx_rel (side_ops master) (side_port master d) s' [] (H \<union> {j \<in> set I. kept hold ts s j})
      (Q @ filter (\<lambda>j. \<not> kept hold ts s j) I)"
    "desc (rring s') = desc (rring s)"
    using rl_side.rx_callback_ok [OF side rx [unfolded rx_side_def] rep, of hold] run j by auto
  have jH: "j \<in> H \<union> {j \<in> set I. kept hold ts s j}" using j by simp
  note e = buf_of_cong [OF s'(3), of j]
  from rl_side.release_ok [OF side s'(2) jH s'(1) [folded e] _ b [folded e]] e show ?thesis unfolding rx_side_def by simp
qed

text \<open>The remote core when the message of \<open>sent1\<close> has arrived.\<close>

definition arrived1 :: rl_state where
  "arrived1 = (with_ept remote1)\<lparr>rring := tring sent1, msgs := msgs sent1\<rparr>"

lemma arrived1_ok:
  "ept_rep arrived1 [entry2]" "\<exists>d H'. rx_side False d arrived1 [0] H' [1]"
  "msg_view (received arrived1 0) = (30, 30, [1, 2, 3])" "buf_of (rring arrived1) 0 = 0x20000C00"
proof -
  show "ept_rep arrived1 [entry2]"
    using with_ept_ok(2) [OF remote1_ok(1)] by (simp add: arrived1_def ept_rep_def)
  have t: "tx_rel (side_ops True) (side_port True (rvq (dev remote1))) ((id ^^ 0) (with_ept master1)) (0 # [1]) {} []"
    using with_ept_ok(10) [OF master1_ok(1), of True "rvq (dev remote1)" "[0, 1]" "{}" "[]"] master1_ok(3)
    by (simp add: tx_side_def)
  have l: "link_state (dev (with_ept master1)) \<noteq> 0" using with_ept_ok(4) [OF master1_ok(1)] master1_ok(2) by simp
  have sz: "(3 :: u32) \<le> RL_BUFFER_PAYLOAD_SIZE" "unat (3 :: u32) \<le> length [1, 2, 3 :: u8]" "(0x400 :: ptr) \<noteq> NULL"
    "0 \<le> unat (0 :: u32)" "starved id (with_ept master1) 0"
    by (simp_all add: starved_def)
  have s: "tx_side True (rvq (dev remote1)) sent1 [1] {} ([] @ [0])" "flight sent1 ([] @ [0]) = [(30, 30, [1, 2, 3])]"
    "desc (tring sent1) = desc (tring (with_ept master1))"
    using rl_side.send_ok [OF side sz(3) with_ept_ok(3) [OF master1_ok(1)] l sz(1,2,4,5) t, of 30]
    by (auto simp: sent1_def tx_side_def flight_def entry2_def)
  have p: "rvq (dev (with_ept remote1)) = rvq (dev remote1)" "vq_ops (dev (with_ept remote1)) = side_ops (\<not> True)"
    using with_ept_ok(9) [OF remote1_ok(1)] remote1_ok(2)
      with_ept_ok(11) [OF remote1_ok(1), of False "tvq (dev master1)" "[]" "{}" "[0, 1]"]
    by (simp_all add: rx_side_def rx_rel_def)
  show "\<exists>d H'. rx_side False d arrived1 [0] H' [1]"
    using peer_sees [of True "with_ept remote1" sent1 "[1]" "{}" "[]" 0] s(1) p by (auto simp: arrived1_def)
  show "msg_view (received arrived1 0) = (30, 30, [1, 2, 3])"
    using s(2) by (simp add: flight_def received_def arrived1_def)
  show "buf_of (rring arrived1) 0 = 0x20000C00"
    using buf_of_cong [OF s(3), of 0] with_ept_ok(5) [OF master1_ok(1)] master1_ok(5) by (simp add: arrived1_def)
qed

theorem rl_receives_all_witness:
  "\<exists>c s'. rpmsg_lite_rx_callback (\<lambda>_. False) arrived1 = Some ([c], s') \<and> dl_ept c = en_obj entry2 \<and> dl_src c = 30"
proof -
  obtain d H where r: "rx_side False d arrived1 [0] H [1]" using arrived1_ok(2) by blast
  have c: "calls_for [entry2] (received arrived1 0) = [\<lparr>dl_ept = en_obj entry2, dl_payload = payload (received arrived1 0),
      dl_len = h_len (received arrived1 0), dl_src = h_src (received arrived1 0)\<rparr>]" "h_src (received arrived1 0) = 30"
    using arrived1_ok(3) by (simp_all add: msg_view_def calls_for_def lookup_ept_def entry2_def)
  show ?thesis using rl_receives_all [OF r arrived1_ok(1), of "\<lambda>_. False"] c by auto
qed

theorem rl_hold_release_witness:
  "\<exists>calls s' s''. rpmsg_lite_rx_callback (\<lambda>_. True) arrived1 = Some (calls, s') \<and>
    rpmsg_lite_release_rx_buffer s' 0x20000C10 = Some (RL_SUCCESS, s'')"
proof -
  obtain d H where r: "rx_side False d arrived1 [0] H [1]" using arrived1_ok(2) by blast
  have k: "kept (\<lambda>_. True) [entry2] arrived1 0"
    using arrived1_ok(3) by (simp add: kept_def msg_view_def calls_for_def lookup_ept_def entry2_def)
  obtain calls s' where run: "rpmsg_lite_rx_callback (\<lambda>_. True) arrived1 = Some (calls, s')"
    using rl_side.rx_callback_ok [OF side r [unfolded rx_side_def] arrived1_ok(1), of "\<lambda>_. True"] by blast
  have b: "buf_of (rring arrived1) 0 + 16 \<noteq> NULL" using arrived1_ok(4) by simp
  show ?thesis using rl_hold_release [OF r arrived1_ok(1) _ k run b] run arrived1_ok(4) by auto
qed

end
