(* ===== verification/Timers_Manager.thy ===== *)
theory Timers_Manager
  imports Prelude
begin

text \<open>
  The software timers (\<open>TimersManager/Source/TimersManager.c\<close>): nine timers over one
  hardware counter of 16 bits. Each entry of the status table packs the state of a timer
  and its type. Readings of the counter are arguments; the compare register and the enable
  bit of the hardware timer are part of the state, as is the event flag that wakes the
  timer task. Critical sections are nested disable/enable pairs around accesses that the
  interrupt handler does not make, so they have no effect here.
\<close>

section \<open>Data\<close>

abbreviation (input) gTmrTotalTimers_c :: nat where "gTmrTotalTimers_c \<equiv> 9"
abbreviation (input) gTmrInvalidTimerID_c :: u8 where "gTmrInvalidTimerID_c \<equiv> 0xFF"
abbreviation (input) gStackTimerMaxCountValue_c :: u16 where "gStackTimerMaxCountValue_c \<equiv> 0xFFFF"

abbreviation (input) mTmrStatusActive_c :: u8 where "mTmrStatusActive_c \<equiv> 0x20"
abbreviation (input) mTmrStatusReady_c :: u8 where "mTmrStatusReady_c \<equiv> 0x40"
abbreviation (input) mTmrStatusInactive_c :: u8 where "mTmrStatusInactive_c \<equiv> 0x80"
abbreviation (input) mTimerStatusMask_c :: u8 where "mTimerStatusMask_c \<equiv> 0xE0"

abbreviation (input) gTmrSingleShotTimer_c :: u8 where "gTmrSingleShotTimer_c \<equiv> 0x01"
abbreviation (input) gTmrIntervalTimer_c :: u8 where "gTmrIntervalTimer_c \<equiv> 0x02"
abbreviation (input) gTmrSetMinuteTimer_c :: u8 where "gTmrSetMinuteTimer_c \<equiv> 0x04"
abbreviation (input) gTmrSetSecondTimer_c :: u8 where "gTmrSetSecondTimer_c \<equiv> 0x08"
abbreviation (input) gTmrLowPowerTimer_c :: u8 where "gTmrLowPowerTimer_c \<equiv> 0x10"
abbreviation (input) mTimerType_c :: u8 where "mTimerType_c \<equiv> 0x1F"

datatype tmrErrCode = gTmrSuccess_c | gTmrInvalidId_c | gTmrOutOfRange_c

record tmrTimerTableEntry =
  intervalInTicks :: u64
  remainingTicks :: u64
  pfCallBack :: ptr
  param :: ptr
  timestamp :: u16

record tmr_state =
  maTmrTimerTable :: "tmrTimerTableEntry list"
  maTmrTimerStatusTable :: "u8 list"
  numberOfActiveTimers :: u8
  numberOfLowPowerActiveTimers :: u8
  timerHardwareIsRunning :: bool
  previousTimeInTicks :: u16
  mMaxToCountDown :: u16
  mTicksFor4ms :: u16
  mCounterFreqHz :: u32
  hw_enabled :: bool
  hw_compare :: u16
  tmr_event :: bool

section \<open>Status and type of a timer\<close>

definition TMR_GetTimerStatus :: "tmr_state \<Rightarrow> u8 \<Rightarrow> u8 option" where
  "TMR_GetTimerStatus s timerID = do {
     v \<leftarrow> nth_opt (maTmrTimerStatusTable s) (unat timerID);
     Some (v AND mTimerStatusMask_c) }"

definition TMR_SetTimerStatus :: "tmr_state \<Rightarrow> u8 \<Rightarrow> u8 \<Rightarrow> tmr_state option" where
  "TMR_SetTimerStatus s timerID status = do {
     v \<leftarrow> nth_opt (maTmrTimerStatusTable s) (unat timerID);
     t \<leftarrow> upd_opt (maTmrTimerStatusTable s) (unat timerID) (v AND NOT mTimerStatusMask_c OR status);
     Some (s\<lparr>maTmrTimerStatusTable := t\<rparr>) }"

definition TMR_GetTimerType :: "tmr_state \<Rightarrow> u8 \<Rightarrow> u8 option" where
  "TMR_GetTimerType s timerID = do {
     v \<leftarrow> nth_opt (maTmrTimerStatusTable s) (unat timerID);
     Some (v AND mTimerType_c) }"

definition TMR_SetTimerType :: "tmr_state \<Rightarrow> u8 \<Rightarrow> u8 \<Rightarrow> tmr_state option" where
  "TMR_SetTimerType s timerID type = do {
     v \<leftarrow> nth_opt (maTmrTimerStatusTable s) (unat timerID);
     t \<leftarrow> upd_opt (maTmrTimerStatusTable s) (unat timerID) (v AND NOT mTimerType_c OR type);
     Some (s\<lparr>maTmrTimerStatusTable := t\<rparr>) }"

text \<open>The macros.\<close>

definition TMR_IsTimerAllocated :: "tmr_state \<Rightarrow> u8 \<Rightarrow> bool option" where
  "TMR_IsTimerAllocated s timerID = do {
     v \<leftarrow> nth_opt (maTmrTimerStatusTable s) (unat timerID); Some (v \<noteq> 0) }"

definition TMR_MarkTimerFree :: "tmr_state \<Rightarrow> u8 \<Rightarrow> tmr_state option" where
  "TMR_MarkTimerFree s timerID = do {
     t \<leftarrow> upd_opt (maTmrTimerStatusTable s) (unat timerID) 0; Some (s\<lparr>maTmrTimerStatusTable := t\<rparr>) }"

definition IncrementActiveTimerNumber :: "u8 \<Rightarrow> tmr_state \<Rightarrow> tmr_state" where
  "IncrementActiveTimerNumber type s =
     (if type AND gTmrLowPowerTimer_c \<noteq> 0
      then s\<lparr>numberOfLowPowerActiveTimers := numberOfLowPowerActiveTimers s + 1\<rparr>
      else s\<lparr>numberOfActiveTimers := numberOfActiveTimers s + 1\<rparr>)"

definition DecrementActiveTimerNumber :: "u8 \<Rightarrow> tmr_state \<Rightarrow> tmr_state" where
  "DecrementActiveTimerNumber type s =
     (if type AND gTmrLowPowerTimer_c \<noteq> 0
      then s\<lparr>numberOfLowPowerActiveTimers := numberOfLowPowerActiveTimers s - 1\<rparr>
      else s\<lparr>numberOfActiveTimers := numberOfActiveTimers s - 1\<rparr>)"

definition set_entry :: "tmr_state \<Rightarrow> u8 \<Rightarrow> (tmrTimerTableEntry \<Rightarrow> tmrTimerTableEntry) \<Rightarrow> tmr_state option" where
  "set_entry s timerID f = do {
     e \<leftarrow> nth_opt (maTmrTimerTable s) (unat timerID);
     t \<leftarrow> upd_opt (maTmrTimerTable s) (unat timerID) (f e);
     Some (s\<lparr>maTmrTimerTable := t\<rparr>) }"

section \<open>Conversions\<close>

definition TmrTicksFromMilliseconds :: "tmr_state \<Rightarrow> u32 \<Rightarrow> u64" where
  "TmrTicksFromMilliseconds s milliseconds = ucast milliseconds * ucast (mCounterFreqHz s) div 1000"

definition TmrSeconds :: "u32 \<Rightarrow> u32" where "TmrSeconds n = n * 1000"
definition TmrMinutes :: "u32 \<Rightarrow> u32" where "TmrMinutes n = TmrSeconds n * 60"

definition TMR_NotifyClkChanged :: "u32 \<Rightarrow> tmr_state \<Rightarrow> tmr_state" where
  "TMR_NotifyClkChanged freq s =
     (let s = s\<lparr>mCounterFreqHz := freq\<rparr>;
          s = s\<lparr>mMaxToCountDown := ucast (ucast gStackTimerMaxCountValue_c - TmrTicksFromMilliseconds s 8)\<rparr>
      in s\<lparr>mTicksFor4ms := ucast (TmrTicksFromMilliseconds s 4)\<rparr>)"

definition TMR_GetTimerFreq :: "tmr_state \<Rightarrow> u32" where
  "TMR_GetTimerFreq s = mCounterFreqHz s"

section \<open>Allocation\<close>

text \<open>The search starts at \<open>i\<close> with \<open>k\<close> entries left.\<close>

fun TMR_AllocateTimer_from :: "nat \<Rightarrow> nat \<Rightarrow> tmr_state \<Rightarrow> (u8 \<times> tmr_state) option" where
  "TMR_AllocateTimer_from 0 i s = Some (gTmrInvalidTimerID_c, s)"
| "TMR_AllocateTimer_from (Suc k) i s = do {
     a \<leftarrow> TMR_IsTimerAllocated s (of_nat i);
     if \<not> a then do {
       s \<leftarrow> TMR_SetTimerStatus s (of_nat i) mTmrStatusInactive_c;
       Some (of_nat i, s) }
     else TMR_AllocateTimer_from k (Suc i) s }"

definition TMR_AllocateTimer :: "tmr_state \<Rightarrow> (u8 \<times> tmr_state) option" where
  "TMR_AllocateTimer s = TMR_AllocateTimer_from gTmrTotalTimers_c 0 s"

definition TMR_AreAllTimersOff :: "tmr_state \<Rightarrow> bool" where
  "TMR_AreAllTimersOff s \<longleftrightarrow> numberOfActiveTimers s = 0"

definition TMR_IsTimerActive :: "tmr_state \<Rightarrow> u8 \<Rightarrow> bool option" where
  "TMR_IsTimerActive s timerID = do { v \<leftarrow> TMR_GetTimerStatus s timerID; Some (v = mTmrStatusActive_c) }"

definition TMR_IsTimerReady :: "tmr_state \<Rightarrow> u8 \<Rightarrow> bool option" where
  "TMR_IsTimerReady s timerID = do { v \<leftarrow> TMR_GetTimerStatus s timerID; Some (v = mTmrStatusReady_c) }"

section \<open>Starting and stopping\<close>

definition TMR_StopTimer :: "tmr_state \<Rightarrow> u8 \<Rightarrow> (tmrErrCode \<times> tmr_state) option" where
  "TMR_StopTimer s timerID =
     (if unat timerID \<ge> gTmrTotalTimers_c then Some (gTmrInvalidId_c, s)
      else do {
        a \<leftarrow> TMR_IsTimerAllocated s timerID;
        if \<not> a then Some (gTmrInvalidId_c, s)
        else do {
          status \<leftarrow> TMR_GetTimerStatus s timerID;
          if status = mTmrStatusActive_c \<or> status = mTmrStatusReady_c then do {
            s \<leftarrow> TMR_SetTimerStatus s timerID mTmrStatusInactive_c;
            type \<leftarrow> TMR_GetTimerType s timerID;
            let s = DecrementActiveTimerNumber type s;
            (if numberOfActiveTimers s = 0 \<and> numberOfLowPowerActiveTimers s = 0 \<and> timerHardwareIsRunning s
             then Some (gTmrSuccess_c, s\<lparr>hw_enabled := False, timerHardwareIsRunning := False\<rparr>)
             else Some (gTmrSuccess_c, s)) }
          else Some (gTmrSuccess_c, s) } })"

definition TMR_FreeTimer :: "tmr_state \<Rightarrow> u8 \<Rightarrow> (tmrErrCode \<times> tmr_state) option" where
  "TMR_FreeTimer s timerID = do {
     (status, s) \<leftarrow> TMR_StopTimer s timerID;
     s \<leftarrow> (if status = gTmrSuccess_c then TMR_MarkTimerFree s timerID else Some s);
     Some (gTmrSuccess_c, s) }"

definition TMR_EnableTimer :: "tmr_state \<Rightarrow> u8 \<Rightarrow> tmr_state option" where
  "TMR_EnableTimer s tmrID = do {
     status \<leftarrow> TMR_GetTimerStatus s tmrID;
     if status = mTmrStatusInactive_c then do {
       type \<leftarrow> TMR_GetTimerType s tmrID;
       s \<leftarrow> TMR_SetTimerStatus (IncrementActiveTimerNumber type s) tmrID mTmrStatusReady_c;
       Some (s\<lparr>tmr_event := True\<rparr>) }
     else Some s }"

text \<open>\<open>now\<close> is the reading of the counter.\<close>

definition TMR_StartTimer ::
  "tmr_state \<Rightarrow> u16 \<Rightarrow> u8 \<Rightarrow> u8 \<Rightarrow> u32 \<Rightarrow> ptr \<Rightarrow> ptr \<Rightarrow> (tmrErrCode \<times> tmr_state) option" where
  "TMR_StartTimer s now timerID timerType timeInMilliseconds callback prm = do {
     (status, s) \<leftarrow> TMR_StopTimer s timerID;
     if status = gTmrSuccess_c then do {
       let ticks = TmrTicksFromMilliseconds s timeInMilliseconds;
       s \<leftarrow> set_entry s timerID (timestamp_update (\<lambda>_. now));
       let ticks = (if ticks = 0 then 1 else ticks);
       s \<leftarrow> TMR_SetTimerType s timerID timerType;
       s \<leftarrow> set_entry s timerID (\<lambda>e. e\<lparr>intervalInTicks := ticks, remainingTicks := ticks,
         pfCallBack := callback, param := prm\<rparr>);
       s \<leftarrow> TMR_EnableTimer s timerID;
       Some (status, s) }
     else Some (status, s) }"

definition TMR_StartLowPowerTimer ::
  "tmr_state \<Rightarrow> u16 \<Rightarrow> u8 \<Rightarrow> u8 \<Rightarrow> u32 \<Rightarrow> ptr \<Rightarrow> ptr \<Rightarrow> (tmrErrCode \<times> tmr_state) option" where
  "TMR_StartLowPowerTimer s now timerId timerType time callback prm =
     TMR_StartTimer s now timerId (timerType OR gTmrLowPowerTimer_c) time callback prm"

definition TMR_StartLowPowerMinuteTimer ::
  "tmr_state \<Rightarrow> u16 \<Rightarrow> u8 \<Rightarrow> u32 \<Rightarrow> ptr \<Rightarrow> ptr \<Rightarrow> (tmrErrCode \<times> tmr_state) option" where
  "TMR_StartLowPowerMinuteTimer s now timerId timeInMinutes callback prm =
     TMR_StartLowPowerTimer s now timerId gTmrSetMinuteTimer_c (TmrMinutes timeInMinutes) callback prm"

definition TMR_StartLowPowerSecondTimer ::
  "tmr_state \<Rightarrow> u16 \<Rightarrow> u8 \<Rightarrow> u32 \<Rightarrow> ptr \<Rightarrow> ptr \<Rightarrow> (tmrErrCode \<times> tmr_state) option" where
  "TMR_StartLowPowerSecondTimer s now timerId timeInSeconds callback prm =
     TMR_StartLowPowerTimer s now timerId gTmrSetSecondTimer_c (TmrSeconds timeInSeconds) callback prm"

definition TMR_StartMinuteTimer ::
  "tmr_state \<Rightarrow> u16 \<Rightarrow> u8 \<Rightarrow> u32 \<Rightarrow> ptr \<Rightarrow> ptr \<Rightarrow> (tmrErrCode \<times> tmr_state) option" where
  "TMR_StartMinuteTimer s now timerId timeInMinutes callback prm =
     TMR_StartTimer s now timerId gTmrSetMinuteTimer_c (TmrMinutes timeInMinutes) callback prm"

definition TMR_StartSecondTimer ::
  "tmr_state \<Rightarrow> u16 \<Rightarrow> u8 \<Rightarrow> u32 \<Rightarrow> ptr \<Rightarrow> ptr \<Rightarrow> (tmrErrCode \<times> tmr_state) option" where
  "TMR_StartSecondTimer s now timerId timeInSeconds callback prm =
     TMR_StartTimer s now timerId gTmrSetSecondTimer_c (TmrSeconds timeInSeconds) callback prm"

definition TMR_StartIntervalTimer ::
  "tmr_state \<Rightarrow> u16 \<Rightarrow> u8 \<Rightarrow> u32 \<Rightarrow> ptr \<Rightarrow> ptr \<Rightarrow> (tmrErrCode \<times> tmr_state) option" where
  "TMR_StartIntervalTimer s now timerID timeInMilliseconds callback prm =
     TMR_StartTimer s now timerID gTmrIntervalTimer_c timeInMilliseconds callback prm"

definition TMR_StartSingleShotTimer ::
  "tmr_state \<Rightarrow> u16 \<Rightarrow> u8 \<Rightarrow> u32 \<Rightarrow> ptr \<Rightarrow> ptr \<Rightarrow> (tmrErrCode \<times> tmr_state) option" where
  "TMR_StartSingleShotTimer s now timerID timeInMilliseconds callback prm =
     TMR_StartTimer s now timerID gTmrSingleShotTimer_c timeInMilliseconds callback prm"

section \<open>Queries\<close>

definition TMR_GetRemainingTime :: "tmr_state \<Rightarrow> u16 \<Rightarrow> u8 \<Rightarrow> u32 option" where
  "TMR_GetRemainingTime s now tmrID =
     (if unat tmrID \<ge> gTmrTotalTimers_c then Some 0
      else do {
        a \<leftarrow> TMR_IsTimerAllocated s tmrID;
        e \<leftarrow> nth_opt (maTmrTimerTable s) (unat tmrID);
        if \<not> a \<or> remainingTicks e = 0 then Some 0
        else do {
          let currentTime = (if now < timestamp e then now + gStackTimerMaxCountValue_c else now);
          let elapsed = currentTime - timestamp e;
          if ucast elapsed > remainingTicks e then Some 1
          else if mCounterFreqHz s = 0 then None
          else Some (ucast (((remainingTicks e - ucast elapsed) * 1000 + ucast (mCounterFreqHz s) - 1)
            div ucast (mCounterFreqHz s))) } })"

fun TMR_GetFirstExpireTime_from :: "tmr_state \<Rightarrow> (nat \<Rightarrow> u16) \<Rightarrow> u8 \<Rightarrow> nat \<Rightarrow> nat \<Rightarrow> u32 \<Rightarrow> u32 option" where
  "TMR_GetFirstExpireTime_from s now timerType 0 i m = Some m"
| "TMR_GetFirstExpireTime_from s now timerType (Suc k) i m = do {
     a \<leftarrow> TMR_IsTimerActive s (of_nat i);
     t \<leftarrow> TMR_GetTimerType s (of_nat i);
     if a \<and> timerType AND t > 0 then do {
       r \<leftarrow> TMR_GetRemainingTime s (now i) (of_nat i);
       TMR_GetFirstExpireTime_from s now timerType k (Suc i) (if r < m then r else m) }
     else TMR_GetFirstExpireTime_from s now timerType k (Suc i) m }"

definition TMR_GetFirstExpireTime :: "tmr_state \<Rightarrow> (nat \<Rightarrow> u16) \<Rightarrow> u8 \<Rightarrow> u32 option" where
  "TMR_GetFirstExpireTime s now timerType =
     TMR_GetFirstExpireTime_from s now timerType gTmrTotalTimers_c 0 0xFFFFFFFF"

fun TMR_GetFirstWithParam_from :: "tmr_state \<Rightarrow> ptr \<Rightarrow> nat \<Rightarrow> nat \<Rightarrow> u8 \<Rightarrow> u8 option" where
  "TMR_GetFirstWithParam_from s prm 0 i tmrId = Some tmrId"
| "TMR_GetFirstWithParam_from s prm (Suc k) i tmrId = do {
     a \<leftarrow> TMR_IsTimerAllocated s (of_nat i);
     e \<leftarrow> nth_opt (maTmrTimerTable s) i;
     TMR_GetFirstWithParam_from s prm k (Suc i) (if a \<and> param e = prm then of_nat i else tmrId) }"

definition TMR_GetFirstWithParam :: "tmr_state \<Rightarrow> ptr \<Rightarrow> u8 option" where
  "TMR_GetFirstWithParam s prm = TMR_GetFirstWithParam_from s prm gTmrTotalTimers_c 0 gTmrInvalidTimerID_c"

section \<open>The timer task\<close>

definition StackTimer_ISR :: "tmr_state \<Rightarrow> tmr_state" where
  "StackTimer_ISR s = s\<lparr>tmr_event := True\<rparr>"

definition TMR_MakeTMRThreadReady :: "tmr_state \<Rightarrow> tmr_state" where
  "TMR_MakeTMRThreadReady s = s\<lparr>tmr_event := True\<rparr>"

text \<open>One pass over a timer: \<open>elapsed\<close> ticks since the last run, \<open>rd\<close> the counter when its
  entry is written, \<open>call\<close> the effect of the application's callbacks, \<open>next\<close> the ticks to the
  next interrupt. The callbacks called are returned in order.\<close>

type_synonym tmr_call = "ptr \<Rightarrow> ptr \<Rightarrow> tmr_state \<Rightarrow> tmr_state"

definition earlier :: "u16 \<Rightarrow> u64 \<Rightarrow> u16" where
  "earlier nxt ticks = (if ucast nxt > ticks then ucast ticks else nxt)"

definition one_shot :: "u8 \<Rightarrow> bool" where
  "one_shot type \<longleftrightarrow> type AND gTmrSingleShotTimer_c \<noteq> 0 \<or> type AND gTmrSetMinuteTimer_c \<noteq> 0 \<or>
     type AND gTmrSetSecondTimer_c \<noteq> 0"

definition TMR_Task_timer ::
  "tmr_call \<Rightarrow> u16 \<Rightarrow> u16 \<Rightarrow> u8 \<Rightarrow> tmr_state \<times> u16 \<times> u8 list \<Rightarrow> (tmr_state \<times> u16 \<times> u8 list) option" where
  "TMR_Task_timer call elapsed rd timerID = (\<lambda>(s, nxt, fired). do {
     timerType \<leftarrow> TMR_GetTimerType s timerID;
     status \<leftarrow> TMR_GetTimerStatus s timerID;
     e \<leftarrow> nth_opt (maTmrTimerTable s) (unat timerID);
     if status = mTmrStatusReady_c then do {
       s \<leftarrow> TMR_SetTimerStatus s timerID mTmrStatusActive_c;
       Some (s, earlier nxt (remainingTicks e), fired) }
     else if status = mTmrStatusActive_c then
       (if remainingTicks e > ucast elapsed then do {
          let ticks = remainingTicks e - ucast elapsed;
          s \<leftarrow> set_entry s timerID (\<lambda>e. e\<lparr>remainingTicks := ticks, timestamp := rd\<rparr>);
          Some (s, earlier nxt ticks, fired) }
        else do {
          (s, nxt) \<leftarrow>
            (if one_shot timerType then do {
               s \<leftarrow> set_entry s timerID (remainingTicks_update (\<lambda>_. 0));
               (err, s) \<leftarrow> TMR_StopTimer s timerID;
               Some (s, nxt) }
             else do {
               s \<leftarrow> set_entry s timerID (\<lambda>e. e\<lparr>remainingTicks := intervalInTicks e, timestamp := rd\<rparr>);
               Some (s, earlier nxt (intervalInTicks e)) });
          e \<leftarrow> nth_opt (maTmrTimerTable s) (unat timerID);
          if pfCallBack e \<noteq> NULL
          then Some (call (pfCallBack e) (param e) s, nxt, fired @ [timerID])
          else Some (s, nxt, fired) })
     else Some (s, nxt, fired) })"

fun TMR_Task_loop ::
  "tmr_call \<Rightarrow> u16 \<Rightarrow> (nat \<Rightarrow> u16) \<Rightarrow> nat \<Rightarrow> nat \<Rightarrow> tmr_state \<times> u16 \<times> u8 list \<Rightarrow> (tmr_state \<times> u16 \<times> u8 list) option" where
  "TMR_Task_loop call elapsed rd 0 i x = Some x"
| "TMR_Task_loop call elapsed rd (Suc k) i x = do {
     x \<leftarrow> TMR_Task_timer call elapsed (rd i) (of_nat i) x;
     TMR_Task_loop call elapsed rd k (Suc i) x }"

text \<open>The programming of the next interrupt; \<open>fin\<close> is the last reading.\<close>

definition next_interrupt :: "tmr_state \<Rightarrow> u16 \<Rightarrow> u16 \<Rightarrow> u16 \<Rightarrow> u16" where
  "next_interrupt s current fin nxt =
     (let ticksdiff = fin - current;
          nxt = (if ticksdiff \<ge> nxt then ticksdiff + mTicksFor4ms s
                 else if nxt - ticksdiff < mTicksFor4ms s then ticksdiff + mTicksFor4ms s
                 else nxt)
      in nxt + current)"

definition TMR_Task ::
  "tmr_call \<Rightarrow> u16 \<Rightarrow> (nat \<Rightarrow> u16) \<Rightarrow> u16 \<Rightarrow> tmr_state \<Rightarrow> (tmr_state \<times> u8 list) option" where
  "TMR_Task call current rd fin s = do {
     let elapsed = current - previousTimeInTicks s;
     let s = s\<lparr>previousTimeInTicks := current, tmr_event := False\<rparr>;
     (s, nxt, fired) \<leftarrow> TMR_Task_loop call elapsed rd gTmrTotalTimers_c 0 (s, mMaxToCountDown s, []);
     let compare = next_interrupt s current fin nxt;
     (if numberOfActiveTimers s \<noteq> 0 \<or> numberOfLowPowerActiveTimers s \<noteq> 0
      then Some (s\<lparr>hw_compare := compare, hw_enabled := True, timerHardwareIsRunning := True\<rparr>, fired)
      else if timerHardwareIsRunning s
      then Some (s\<lparr>hw_enabled := False, timerHardwareIsRunning := False\<rparr>, fired)
      else Some (s, fired)) }"

section \<open>Sleeping\<close>

definition TMR_NotCountedTicksBeforeSleep :: "tmr_state \<Rightarrow> u16 \<Rightarrow> u32 \<times> tmr_state" where
  "TMR_NotCountedTicksBeforeSleep s current =
     (if numberOfLowPowerActiveTimers s \<noteq> 0
      then (ucast (current - previousTimeInTicks s), s\<lparr>hw_enabled := False, timerHardwareIsRunning := False\<rparr>)
      else (0, s))"

fun TMR_SyncLpmTimers_from :: "u32 \<Rightarrow> nat \<Rightarrow> nat \<Rightarrow> tmr_state \<Rightarrow> tmr_state option" where
  "TMR_SyncLpmTimers_from d 0 i s = Some s"
| "TMR_SyncLpmTimers_from d (Suc k) i s = do {
     type \<leftarrow> TMR_GetTimerType s (of_nat i);
     status \<leftarrow> TMR_GetTimerStatus s (of_nat i);
     s \<leftarrow> (if status = mTmrStatusActive_c \<and> type AND gTmrLowPowerTimer_c \<noteq> 0
       then set_entry s (of_nat i) (\<lambda>e. e\<lparr>remainingTicks :=
         (if remainingTicks e > ucast d then remainingTicks e - ucast d else 0)\<rparr>)
       else Some s);
     TMR_SyncLpmTimers_from d k (Suc i) s }"

definition TMR_SyncLpmTimers :: "u32 \<Rightarrow> u16 \<Rightarrow> tmr_state \<Rightarrow> tmr_state option" where
  "TMR_SyncLpmTimers sleepDuration current s =
     (if numberOfLowPowerActiveTimers s \<noteq> 0 then do {
        s \<leftarrow> TMR_SyncLpmTimers_from sleepDuration gTmrTotalTimers_c 0 s;
        Some (s\<lparr>hw_enabled := True, previousTimeInTicks := current\<rparr>) }
      else Some s)"

section \<open>Status bits\<close>

lemma set_status_bits:
  fixes v st :: u8
  assumes "st AND 0xE0 = st"
  shows "(v AND NOT 0xE0 OR st) AND 0xE0 = st" "(v AND NOT 0xE0 OR st) AND 0x10 = v AND 0x10"
    "(v AND NOT 0xE0 OR st) AND 0x1F = v AND 0x1F"
proof -
  have a: "st AND 0x10 = 0" "st AND 0x1F = 0"
    by (subst assms [symmetric], simp add: and.assoc)+
  have n: "NOT (0xE0 :: u8) AND 0xE0 = 0" "NOT (0xE0 :: u8) AND 0x10 = 0x10" "NOT (0xE0 :: u8) AND 0x1F = 0x1F" by simp_all
  show "(v AND NOT 0xE0 OR st) AND 0xE0 = st" "(v AND NOT 0xE0 OR st) AND 0x10 = v AND 0x10"
    "(v AND NOT 0xE0 OR st) AND 0x1F = v AND 0x1F"
    unfolding bit.conj_disj_distrib2 and.assoc n using assms a by simp_all
qed

lemma set_type_bits:
  fixes v t :: u8
  assumes "t AND 0x1F = t"
  shows "(v AND NOT 0x1F OR t) AND 0xE0 = v AND 0xE0" "(v AND NOT 0x1F OR t) AND 0x1F = t"
    "(v AND NOT 0x1F OR t) AND 0x10 = t AND 0x10"
proof -
  have a: "t AND 0xE0 = 0" by (subst assms [symmetric], simp add: and.assoc)
  have n: "NOT (0x1F :: u8) AND 0xE0 = 0xE0" "NOT (0x1F :: u8) AND 0x10 = 0" "NOT (0x1F :: u8) AND 0x1F = 0" by simp_all
  show "(v AND NOT 0x1F OR t) AND 0xE0 = v AND 0xE0" "(v AND NOT 0x1F OR t) AND 0x1F = t"
    "(v AND NOT 0x1F OR t) AND 0x10 = t AND 0x10"
    unfolding bit.conj_disj_distrib2 and.assoc n using assms a by simp_all
qed

lemma type_low_power: "((v :: u8) AND 0x1F) AND 0x10 = v AND 0x10"
  by (simp add: and.assoc)

text \<open>A timer is counted while it is active or ready, among the low-power ones or the others.\<close>

definition running :: "u8 \<Rightarrow> bool" where
  "running v \<longleftrightarrow> v AND mTimerStatusMask_c = mTmrStatusActive_c \<or> v AND mTimerStatusMask_c = mTmrStatusReady_c"

definition low_power :: "u8 \<Rightarrow> bool" where
  "low_power v \<longleftrightarrow> v AND gTmrLowPowerTimer_c \<noteq> 0"

definition status_ok :: "u8 \<Rightarrow> bool" where
  "status_ok v \<longleftrightarrow> v = 0 \<or> running v \<or> v AND mTimerStatusMask_c = mTmrStatusInactive_c"

text \<open>Every entry is free or in exactly one state; the two counters count the running timers of
  their kind; the hardware timer runs only if a timer does.\<close>

definition tmr_inv :: "tmr_state \<Rightarrow> bool" where
  "tmr_inv s \<longleftrightarrow> length (maTmrTimerTable s) = gTmrTotalTimers_c \<and>
     length (maTmrTimerStatusTable s) = gTmrTotalTimers_c \<and>
     (\<forall>v \<in> set (maTmrTimerStatusTable s). status_ok v) \<and>
     unat (numberOfActiveTimers s) = length (filter (\<lambda>v. running v \<and> \<not> low_power v) (maTmrTimerStatusTable s)) \<and>
     unat (numberOfLowPowerActiveTimers s) = length (filter (\<lambda>v. running v \<and> low_power v) (maTmrTimerStatusTable s)) \<and>
     (timerHardwareIsRunning s \<longrightarrow> hw_enabled s \<and>
       (numberOfActiveTimers s \<noteq> 0 \<or> numberOfLowPowerActiveTimers s \<noteq> 0))"

abbreviation (input) tstat :: "tmr_state \<Rightarrow> u8 \<Rightarrow> u8" where
  "tstat s i \<equiv> maTmrTimerStatusTable s ! unat i"

abbreviation (input) tentry :: "tmr_state \<Rightarrow> u8 \<Rightarrow> tmrTimerTableEntry" where
  "tentry s i \<equiv> maTmrTimerTable s ! unat i"

lemma tmr_inv_lengths:
  "tmr_inv s \<Longrightarrow> length (maTmrTimerTable s) = 9" "tmr_inv s \<Longrightarrow> length (maTmrTimerStatusTable s) = 9"
  by (simp_all add: tmr_inv_def)

lemma tmr_ops:
  assumes "tmr_inv s" "unat i < 9"
  shows "TMR_GetTimerStatus s i = Some (tstat s i AND 0xE0)" "TMR_GetTimerType s i = Some (tstat s i AND 0x1F)"
    "TMR_IsTimerAllocated s i = Some (tstat s i \<noteq> 0)"
    "TMR_SetTimerStatus s i st = Some (s\<lparr>maTmrTimerStatusTable :=
      (maTmrTimerStatusTable s)[unat i := tstat s i AND NOT 0xE0 OR st]\<rparr>)"
    "TMR_SetTimerType s i t = Some (s\<lparr>maTmrTimerStatusTable :=
      (maTmrTimerStatusTable s)[unat i := tstat s i AND NOT 0x1F OR t]\<rparr>)"
    "TMR_MarkTimerFree s i = Some (s\<lparr>maTmrTimerStatusTable := (maTmrTimerStatusTable s)[unat i := 0]\<rparr>)"
    "nth_opt (maTmrTimerTable s) (unat i) = Some (tentry s i)"
    "set_entry s i f = Some (s\<lparr>maTmrTimerTable := (maTmrTimerTable s)[unat i := f (tentry s i)]\<rparr>)"
  using assms
  by (simp_all add: tmr_inv_def TMR_GetTimerStatus_def TMR_GetTimerType_def TMR_IsTimerAllocated_def
      TMR_SetTimerStatus_def TMR_SetTimerType_def TMR_MarkTimerFree_def set_entry_def)

lemma tmr_inv_status: "tmr_inv s \<Longrightarrow> unat i < 9 \<Longrightarrow> status_ok (tstat s i)"
  by (simp add: tmr_inv_def)

lemma tmr_inv_entry:
  "tmr_inv s \<Longrightarrow> length t = 9 \<Longrightarrow> tmr_inv (s\<lparr>maTmrTimerTable := t\<rparr>)"
  by (simp add: tmr_inv_def)

text \<open>Rewriting one status, with the counters adjusted to it.\<close>

lemma tmr_inv_update:
  assumes inv: "tmr_inv s" and i: "unat i < 9" and v: "status_ok v"
    and st: "maTmrTimerStatusTable s' = (maTmrTimerStatusTable s)[unat i := v]" "length (maTmrTimerTable s') = 9"
    and a: "unat (numberOfActiveTimers s') + (if running (tstat s i) \<and> \<not> low_power (tstat s i) then 1 else 0) =
      unat (numberOfActiveTimers s) + (if running v \<and> \<not> low_power v then 1 else 0)"
    and l: "unat (numberOfLowPowerActiveTimers s') + (if running (tstat s i) \<and> low_power (tstat s i) then 1 else 0) =
      unat (numberOfLowPowerActiveTimers s) + (if running v \<and> low_power v then 1 else 0)"
    and hw: "timerHardwareIsRunning s' \<longrightarrow> hw_enabled s' \<and>
      (numberOfActiveTimers s' \<noteq> 0 \<or> numberOfLowPowerActiveTimers s' \<noteq> 0)"
  shows "tmr_inv s'"
proof -
  have len: "unat i < length (maTmrTimerStatusTable s)" using inv i by (simp add: tmr_inv_def)
  have "unat (numberOfActiveTimers s') = length (filter (\<lambda>v. running v \<and> \<not> low_power v) (maTmrTimerStatusTable s'))"
    using length_filter_update [OF len, of "\<lambda>v. running v \<and> \<not> low_power v" v] a inv
    by (simp add: st(1) tmr_inv_def split: if_splits)
  moreover have "unat (numberOfLowPowerActiveTimers s') = length (filter (\<lambda>v. running v \<and> low_power v) (maTmrTimerStatusTable s'))"
    using length_filter_update [OF len, of "\<lambda>v. running v \<and> low_power v" v] l inv
    by (simp add: st(1) tmr_inv_def split: if_splits)
  moreover have "\<forall>w \<in> set (maTmrTimerStatusTable s'). status_ok w"
    using inv v set_update_subset_insert [of "maTmrTimerStatusTable s" "unat i" v]
    by (auto simp: st(1) tmr_inv_def)
  ultimately show ?thesis using inv hw st by (simp add: tmr_inv_def)
qed

lemma counts_small:
  assumes "tmr_inv s"
  shows "unat (numberOfActiveTimers s) \<le> 9" "unat (numberOfLowPowerActiveTimers s) \<le> 9"
    "unat i < 9 \<Longrightarrow> running (tstat s i) \<Longrightarrow> \<not> low_power (tstat s i) \<Longrightarrow> numberOfActiveTimers s \<noteq> 0"
    "unat i < 9 \<Longrightarrow> running (tstat s i) \<Longrightarrow> low_power (tstat s i) \<Longrightarrow> numberOfLowPowerActiveTimers s \<noteq> 0"
proof -
  show "unat (numberOfActiveTimers s) \<le> 9" "unat (numberOfLowPowerActiveTimers s) \<le> 9"
    using assms by (simp_all add: tmr_inv_def) (metis length_filter_le)+
  show "numberOfActiveTimers s \<noteq> 0" if "unat i < 9" "running (tstat s i)" "\<not> low_power (tstat s i)"
  proof -
    have "tstat s i \<in> set (filter (\<lambda>v. running v \<and> \<not> low_power v) (maTmrTimerStatusTable s))"
      using that assms by (simp add: tmr_inv_def)
    moreover have "unat (numberOfActiveTimers s) = length (filter (\<lambda>v. running v \<and> \<not> low_power v) (maTmrTimerStatusTable s))"
      using assms by (simp only: tmr_inv_def)
    ultimately have "0 < unat (numberOfActiveTimers s)" by (metis length_pos_if_in_set)
    then show ?thesis by auto
  qed
  show "numberOfLowPowerActiveTimers s \<noteq> 0" if "unat i < 9" "running (tstat s i)" "low_power (tstat s i)"
  proof -
    have "tstat s i \<in> set (filter (\<lambda>v. running v \<and> low_power v) (maTmrTimerStatusTable s))"
      using that assms by (simp add: tmr_inv_def)
    moreover have "unat (numberOfLowPowerActiveTimers s) = length (filter (\<lambda>v. running v \<and> low_power v) (maTmrTimerStatusTable s))"
      using assms by (simp only: tmr_inv_def)
    ultimately have "0 < unat (numberOfLowPowerActiveTimers s)" by (metis length_pos_if_in_set)
    then show ?thesis by auto
  qed
qed

text \<open>What the operations leave alone: the clock and the pending event.\<close>

definition same_clock :: "tmr_state \<Rightarrow> tmr_state \<Rightarrow> bool" where
  "same_clock s s' \<longleftrightarrow> previousTimeInTicks s' = previousTimeInTicks s \<and> mMaxToCountDown s' = mMaxToCountDown s \<and>
     mTicksFor4ms s' = mTicksFor4ms s \<and> mCounterFreqHz s' = mCounterFreqHz s"

lemma same_clock_refl [simp]: "same_clock s s"
  by (simp add: same_clock_def)

text \<open>The status a stop leaves.\<close>

definition inactive :: "u8 \<Rightarrow> u8" where
  "inactive v = v AND NOT mTimerStatusMask_c OR mTmrStatusInactive_c"

definition ready :: "u8 \<Rightarrow> u8" where
  "ready v = v AND NOT mTimerStatusMask_c OR mTmrStatusReady_c"

definition active :: "u8 \<Rightarrow> u8" where
  "active v = v AND NOT mTimerStatusMask_c OR mTmrStatusActive_c"

lemma status_in_mask:
  "(0x80 :: u8) AND 0xE0 = 0x80" "(0x40 :: u8) AND 0xE0 = 0x40" "(0x20 :: u8) AND 0xE0 = 0x20"
  by simp_all

lemma status_changes [simp]:
  "inactive v AND 0xE0 = 0x80" "ready v AND 0xE0 = 0x40" "active v AND 0xE0 = 0x20"
  "inactive v AND 0x1F = v AND 0x1F" "ready v AND 0x1F = v AND 0x1F" "active v AND 0x1F = v AND 0x1F"
  unfolding inactive_def ready_def active_def
  by (rule set_status_bits [OF status_in_mask(1)] set_status_bits [OF status_in_mask(2)]
      set_status_bits [OF status_in_mask(3)])+

lemma low_power_changes [simp]:
  "low_power (inactive v) = low_power v" "low_power (ready v) = low_power v" "low_power (active v) = low_power v"
  unfolding low_power_def inactive_def ready_def active_def
  by (simp_all only: set_status_bits(2) [OF status_in_mask(1)] set_status_bits(2) [OF status_in_mask(2)]
      set_status_bits(2) [OF status_in_mask(3)])

lemma running_changes [simp]:
  "\<not> running (inactive v)" "running (ready v)" "running (active v)"
  "status_ok (inactive v)" "status_ok (ready v)" "status_ok (active v)"
  by (simp_all add: running_def status_ok_def)

lemma changes_not_zero [simp]: "inactive v \<noteq> 0" "ready v \<noteq> 0" "active v \<noteq> 0"
proof -
  have z: "x \<noteq> 0" if "x AND 0xE0 = y" "y \<noteq> 0" for x y :: u8 using that by auto
  show "inactive v \<noteq> 0" "ready v \<noteq> 0" "active v \<noteq> 0"
    by (rule z [OF status_changes(1)] z [OF status_changes(2)] z [OF status_changes(3)]; simp)+
qed

lemma not_running_zero [simp]: "\<not> running 0" "status_ok 0"
  by (simp_all add: running_def status_ok_def)

lemma type_low: "(v AND 0x1F) AND 0x10 \<noteq> 0 \<longleftrightarrow> low_power v"
  by (simp only: type_low_power low_power_def)

lemma TMR_StopTimer_ok:
  assumes inv: "tmr_inv s"
  shows "\<exists>s'. TMR_StopTimer s i =
      Some (if unat i < 9 \<and> tstat s i \<noteq> 0 then gTmrSuccess_c else gTmrInvalidId_c, s') \<and>
    tmr_inv s' \<and> same_clock s s' \<and> tmr_event s' = tmr_event s \<and> maTmrTimerTable s' = maTmrTimerTable s \<and>
    maTmrTimerStatusTable s' =
      (if unat i < 9 \<and> running (tstat s i) then (maTmrTimerStatusTable s)[unat i := inactive (tstat s i)]
       else maTmrTimerStatusTable s)"
proof (cases "unat i < 9 \<and> running (tstat s i)")
  case False
  then show ?thesis
    using inv tmr_ops(1,3) [OF inv, of i]
    by (intro exI [of _ s]) (auto simp: TMR_StopTimer_def running_def)
next
  case True
  let ?v = "tstat s i"
  let ?s1 = "s\<lparr>maTmrTimerStatusTable := (maTmrTimerStatusTable s)[unat i := inactive ?v]\<rparr>"
  let ?s2 = "DecrementActiveTimerNumber (?v AND 0x1F) ?s1"
  let ?off = "numberOfActiveTimers ?s2 = 0 \<and> numberOfLowPowerActiveTimers ?s2 = 0 \<and> timerHardwareIsRunning ?s2"
  let ?s3 = "if ?off then ?s2\<lparr>hw_enabled := False, timerHardwareIsRunning := False\<rparr> else ?s2"
  have len: "length (maTmrTimerStatusTable s) = 9" using inv by (rule tmr_inv_lengths)
  have n0: "?v \<noteq> 0" using True by (auto simp: running_def)
  have "TMR_SetTimerStatus s i mTmrStatusInactive_c = Some ?s1"
    using tmr_ops(4) [OF inv, of i "0x80"] True by (simp add: inactive_def)
  moreover have "TMR_GetTimerType ?s1 i = Some (?v AND 0x1F)"
    using True len by (simp add: TMR_GetTimerType_def)
  ultimately have run: "TMR_StopTimer s i = Some (gTmrSuccess_c, ?s3)"
    using True n0 tmr_ops(1,3) [OF inv, of i] by (simp add: TMR_StopTimer_def running_def Let_def)
  have eqs: "maTmrTimerStatusTable ?s3 = (maTmrTimerStatusTable s)[unat i := inactive ?v]"
    "maTmrTimerTable ?s3 = maTmrTimerTable s" "same_clock s ?s3" "tmr_event ?s3 = tmr_event s"
    by (simp_all add: DecrementActiveTimerNumber_def same_clock_def)
  have nA: "numberOfActiveTimers ?s3 = numberOfActiveTimers s - (if low_power ?v then 0 else 1)"
    "numberOfLowPowerActiveTimers ?s3 = numberOfLowPowerActiveTimers s - (if low_power ?v then 1 else 0)"
    by (simp_all only: if_distrib [of numberOfActiveTimers] if_distrib [of numberOfLowPowerActiveTimers]
        DecrementActiveTimerNumber_def type_low) simp_all
  have "tmr_inv ?s3"
  proof (rule tmr_inv_update [OF inv, of i "inactive ?v"])
    show "length (maTmrTimerTable ?s3) = 9" using inv by (simp only: eqs tmr_inv_lengths)
    show "unat (numberOfActiveTimers ?s3) + (if running ?v \<and> \<not> low_power ?v then 1 else 0) =
        unat (numberOfActiveTimers s) + (if running (inactive ?v) \<and> \<not> low_power (inactive ?v) then 1 else 0)"
      unfolding nA using True counts_small(3) [OF inv, of i] by (simp add: unat_minus_one unat_pos)
    show "unat (numberOfLowPowerActiveTimers ?s3) + (if running ?v \<and> low_power ?v then 1 else 0) =
        unat (numberOfLowPowerActiveTimers s) + (if running (inactive ?v) \<and> low_power (inactive ?v) then 1 else 0)"
      unfolding nA using True counts_small(4) [OF inv, of i] by (simp add: unat_minus_one unat_pos)
    show "timerHardwareIsRunning ?s3 \<longrightarrow> hw_enabled ?s3 \<and>
        (numberOfActiveTimers ?s3 \<noteq> 0 \<or> numberOfLowPowerActiveTimers ?s3 \<noteq> 0)"
      using inv by (auto simp: tmr_inv_def DecrementActiveTimerNumber_def)
  qed (use True eqs in simp_all)
  then show ?thesis using run eqs True n0 by (intro exI [of _ ?s3]) simp
qed

lemma TMR_EnableTimer_ok:
  assumes inv: "tmr_inv s" and i: "unat i < 9" and st: "tstat s i AND 0xE0 = 0x80"
  shows "\<exists>s'. TMR_EnableTimer s i = Some s' \<and> tmr_inv s' \<and> same_clock s s' \<and> tmr_event s' \<and>
    maTmrTimerTable s' = maTmrTimerTable s \<and>
    maTmrTimerStatusTable s' = (maTmrTimerStatusTable s)[unat i := ready (tstat s i)]"
proof -
  let ?v = "tstat s i"
  let ?s1 = "IncrementActiveTimerNumber (?v AND 0x1F) s"
  let ?s2 = "?s1\<lparr>maTmrTimerStatusTable := (maTmrTimerStatusTable s)[unat i := ready ?v], tmr_event := True\<rparr>"
  have nr: "\<not> running ?v" using st by (simp add: running_def)
  have s1: "maTmrTimerStatusTable ?s1 = maTmrTimerStatusTable s" "maTmrTimerTable ?s1 = maTmrTimerTable s"
    "timerHardwareIsRunning ?s1 = timerHardwareIsRunning s" "hw_enabled ?s1 = hw_enabled s" "same_clock s ?s1"
    by (simp_all add: IncrementActiveTimerNumber_def same_clock_def)
  have nA: "numberOfActiveTimers ?s1 = numberOfActiveTimers s + (if low_power ?v then 0 else 1)"
    "numberOfLowPowerActiveTimers ?s1 = numberOfLowPowerActiveTimers s + (if low_power ?v then 1 else 0)"
    by (simp_all only: IncrementActiveTimerNumber_def type_low) simp_all
  have len: "length (maTmrTimerStatusTable s) = 9" using inv by (rule tmr_inv_lengths)
  have run: "TMR_EnableTimer s i = Some ?s2"
    using tmr_ops(1,2) [OF inv i] st i len s1(1)
    by (simp add: TMR_EnableTimer_def TMR_SetTimerStatus_def ready_def)
  have small: "unat (numberOfActiveTimers s + 1) = unat (numberOfActiveTimers s) + 1"
    "unat (numberOfLowPowerActiveTimers s + 1) = unat (numberOfLowPowerActiveTimers s) + 1"
    using counts_small(1,2) [OF inv] by (simp_all add: unat_word_ariths)
  have "tmr_inv ?s2"
  proof (rule tmr_inv_update [OF inv i, of "ready ?v"])
    show "length (maTmrTimerTable ?s2) = 9" using inv s1 by (simp add: tmr_inv_lengths)
    show "unat (numberOfActiveTimers ?s2) + (if running ?v \<and> \<not> low_power ?v then 1 else 0) =
        unat (numberOfActiveTimers s) + (if running (ready ?v) \<and> \<not> low_power (ready ?v) then 1 else 0)"
      using nA small nr by simp
    show "unat (numberOfLowPowerActiveTimers ?s2) + (if running ?v \<and> low_power ?v then 1 else 0) =
        unat (numberOfLowPowerActiveTimers s) + (if running (ready ?v) \<and> low_power (ready ?v) then 1 else 0)"
      using nA small nr by simp
    have "numberOfActiveTimers ?s1 \<noteq> 0 \<or> numberOfLowPowerActiveTimers ?s1 \<noteq> 0"
      using nA small by (cases "low_power ?v") (auto simp flip: unat_eq_0)
    then show "timerHardwareIsRunning ?s2 \<longrightarrow> hw_enabled ?s2 \<and>
        (numberOfActiveTimers ?s2 \<noteq> 0 \<or> numberOfLowPowerActiveTimers ?s2 \<noteq> 0)"
      using inv s1 by (simp add: tmr_inv_def)
  qed simp_all
  moreover have "same_clock s ?s2" using s1(5) by (simp add: same_clock_def)
  ultimately show ?thesis using run s1 by (intro exI [of _ ?s2]) simp
qed

lemma TMR_FreeTimer_ok:
  assumes inv: "tmr_inv s"
  shows "\<exists>s'. TMR_FreeTimer s i = Some (gTmrSuccess_c, s') \<and> tmr_inv s' \<and> same_clock s s' \<and>
    maTmrTimerTable s' = maTmrTimerTable s \<and>
    maTmrTimerStatusTable s' = (if unat i < 9 then (maTmrTimerStatusTable s)[unat i := 0] else maTmrTimerStatusTable s)"
proof -
  obtain s1 where s1: "TMR_StopTimer s i =
      Some (if unat i < 9 \<and> tstat s i \<noteq> 0 then gTmrSuccess_c else gTmrInvalidId_c, s1)"
    "tmr_inv s1" "same_clock s s1" "maTmrTimerTable s1 = maTmrTimerTable s"
    "maTmrTimerStatusTable s1 = (if unat i < 9 \<and> running (tstat s i)
       then (maTmrTimerStatusTable s)[unat i := inactive (tstat s i)] else maTmrTimerStatusTable s)"
    using TMR_StopTimer_ok [OF inv] by blast
  have len: "length (maTmrTimerStatusTable s) = 9" using inv by (rule tmr_inv_lengths)
  show ?thesis
  proof (cases "unat i < 9 \<and> tstat s i \<noteq> 0")
    case False
    then have "maTmrTimerStatusTable s1 = (if unat i < 9 then (maTmrTimerStatusTable s)[unat i := 0] else maTmrTimerStatusTable s)"
      using s1(5) by (cases "unat i < 9") (use False in \<open>simp_all, metis list_update_id\<close>)
    then show ?thesis using False s1 by (auto simp: TMR_FreeTimer_def)
  next
    case True
    let ?s2 = "s1\<lparr>maTmrTimerStatusTable := (maTmrTimerStatusTable s1)[unat i := 0]\<rparr>"
    have nr: "\<not> running (tstat s1 i)" using s1(5) True len by auto
    have "tmr_inv ?s2"
    proof (rule tmr_inv_update [OF s1(2), of i 0])
      show "timerHardwareIsRunning ?s2 \<longrightarrow> hw_enabled ?s2 \<and>
          (numberOfActiveTimers ?s2 \<noteq> 0 \<or> numberOfLowPowerActiveTimers ?s2 \<noteq> 0)"
        using s1(2) by (simp add: tmr_inv_def)
      show "length (maTmrTimerTable ?s2) = 9" using s1(2) by (simp add: tmr_inv_lengths)
    qed (use True nr in simp_all)
    moreover have "TMR_FreeTimer s i = Some (gTmrSuccess_c, ?s2)"
      using s1(1) True tmr_ops(6) [OF s1(2), of i] by (simp add: TMR_FreeTimer_def)
    moreover have "same_clock s ?s2" using s1(3) by (simp add: same_clock_def)
    ultimately show ?thesis using s1(4,5) True by (intro exI [of _ ?s2]) simp
  qed
qed

text \<open>The entry a start writes.\<close>

definition started_entry :: "tmr_state \<Rightarrow> u16 \<Rightarrow> u32 \<Rightarrow> ptr \<Rightarrow> ptr \<Rightarrow> tmrTimerTableEntry" where
  "started_entry s now ms callback prm =
     (let ticks = TmrTicksFromMilliseconds s ms; ticks = (if ticks = 0 then 1 else ticks) in
      \<lparr>intervalInTicks = ticks, remainingTicks = ticks, pfCallBack = callback, param = prm, timestamp = now\<rparr>)"

lemma TMR_StartTimer_ok:
  assumes inv: "tmr_inv s" and i: "unat i < 9" "tstat s i \<noteq> 0" and type: "type AND 0x1F = type"
  shows "\<exists>s' w. TMR_StartTimer s now i type ms cb prm = Some (gTmrSuccess_c, s') \<and> tmr_inv s' \<and> same_clock s s' \<and>
    tmr_event s' \<and> maTmrTimerTable s' = (maTmrTimerTable s)[unat i := started_entry s now ms cb prm] \<and>
    maTmrTimerStatusTable s' = (maTmrTimerStatusTable s)[unat i := w] \<and>
    w AND 0xE0 = mTmrStatusReady_c \<and> w AND 0x1F = type"
proof -
  obtain s1 where s1: "TMR_StopTimer s i = Some (gTmrSuccess_c, s1)"
    "tmr_inv s1" "same_clock s s1" "maTmrTimerTable s1 = maTmrTimerTable s"
    "maTmrTimerStatusTable s1 = (if running (tstat s i)
       then (maTmrTimerStatusTable s)[unat i := inactive (tstat s i)] else maTmrTimerStatusTable s)"
    using TMR_StopTimer_ok [OF inv, of i] i by auto
  have len: "length (maTmrTimerStatusTable s1) = 9" "length (maTmrTimerTable s1) = 9"
    using s1(2) by (simp_all add: tmr_inv_lengths)
  have ui: "(maTmrTimerStatusTable s1)[unat i := x] = (maTmrTimerStatusTable s)[unat i := x]" for x
    using s1(5) by simp
  let ?v = "tstat s1 i"
  have v: "?v AND 0xE0 = 0x80"
    using s1(5) i tmr_inv_status [OF inv i(1)] tmr_inv_lengths(2) [OF inv] by (auto simp: status_ok_def)
  define w where "w = ?v AND NOT 0x1F OR type"
  have w: "w AND 0xE0 = 0x80" "w AND 0x1F = type" "\<not> running w" "status_ok w"
    using v set_type_bits [OF type, of ?v] by (simp_all add: w_def running_def status_ok_def)
  let ?e = "started_entry s now ms cb prm"
  let ?s2 = "s1\<lparr>maTmrTimerStatusTable := (maTmrTimerStatusTable s1)[unat i := w],
    maTmrTimerTable := (maTmrTimerTable s1)[unat i := ?e]\<rparr>"
  have inv2: "tmr_inv ?s2"
  proof (rule tmr_inv_update [OF s1(2) i(1) w(4)])
    have "\<not> running ?v" using v by (simp add: running_def)
    then show "unat (numberOfActiveTimers ?s2) + (if running ?v \<and> \<not> low_power ?v then 1 else 0) =
        unat (numberOfActiveTimers s1) + (if running w \<and> \<not> low_power w then 1 else 0)"
      "unat (numberOfLowPowerActiveTimers ?s2) + (if running ?v \<and> low_power ?v then 1 else 0) =
        unat (numberOfLowPowerActiveTimers s1) + (if running w \<and> low_power w then 1 else 0)"
      using w(3) by simp_all
    show "timerHardwareIsRunning ?s2 \<longrightarrow> hw_enabled ?s2 \<and>
        (numberOfActiveTimers ?s2 \<noteq> 0 \<or> numberOfLowPowerActiveTimers ?s2 \<noteq> 0)"
      using s1(2) by (simp add: tmr_inv_def)
  qed (use len in simp_all)
  have st: "tstat ?s2 i = w" using len i by simp
  obtain s3 where s3: "TMR_EnableTimer ?s2 i = Some s3" "tmr_inv s3" "same_clock ?s2 s3" "tmr_event s3"
    "maTmrTimerTable s3 = maTmrTimerTable ?s2"
    "maTmrTimerStatusTable s3 = (maTmrTimerStatusTable ?s2)[unat i := ready w]"
    using TMR_EnableTimer_ok [OF inv2 i(1)] w(1) unfolding st by blast
  have ticks: "TmrTicksFromMilliseconds s1 ms = TmrTicksFromMilliseconds s ms"
    using s1(3) by (simp add: TmrTicksFromMilliseconds_def same_clock_def)
  have "TMR_StartTimer s now i type ms cb prm = Some (gTmrSuccess_c, s3)"
  proof -
    let ?old = "(tentry s1 i)\<lparr>timestamp := now\<rparr>"
    let ?sa = "s1\<lparr>maTmrTimerTable := (maTmrTimerTable s1)[unat i := ?old]\<rparr>"
    let ?sb = "?sa\<lparr>maTmrTimerStatusTable := (maTmrTimerStatusTable s1)[unat i := w]\<rparr>"
    have "tmr_inv ?sa" using s1(2) len by (simp add: tmr_inv_entry)
    from tmr_ops(5) [OF this i(1), of type] have b: "TMR_SetTimerType ?sa i type = Some ?sb"
      by (simp add: w_def)
    have c: "set_entry ?sb i (\<lambda>e. e\<lparr>intervalInTicks := t, remainingTicks := t, pfCallBack := cb, param := prm\<rparr>) = Some ?s2"
      if "t = (if TmrTicksFromMilliseconds s1 ms = 0 then 1 else TmrTicksFromMilliseconds s1 ms)" for t
    proof -
      have "?old\<lparr>intervalInTicks := t, remainingTicks := t, pfCallBack := cb, param := prm\<rparr> = ?e"
        by (cases "tentry s1 i") (simp add: started_entry_def that ticks Let_def)
      then show ?thesis using len i by (simp add: set_entry_def)
    qed
    show ?thesis
      unfolding TMR_StartTimer_def s1(1) Option.bind.bind_lunit case_prod_conv tmr_ops(8) [OF s1(2) i(1)] Let_def b
      by (simp add: c s3(1) del: set_entry_def)
  qed
  moreover have "same_clock s s3" using s1(3) s3(3) by (simp add: same_clock_def)
  ultimately show ?thesis
    using s3 w(2) s1(4) ui by (intro exI [of _ s3] exI [of _ "ready w"]) simp
qed

section \<open>One pass of the task over one timer\<close>

definition is_ready :: "u8 \<Rightarrow> bool" where "is_ready v \<longleftrightarrow> v AND mTimerStatusMask_c = mTmrStatusReady_c"
definition is_active :: "u8 \<Rightarrow> bool" where "is_active v \<longleftrightarrow> v AND mTimerStatusMask_c = mTmrStatusActive_c"

text \<open>A timer expires in a run of the task that finds it active with no more than the elapsed
  ticks remaining.\<close>

definition expires :: "u16 \<Rightarrow> u8 \<Rightarrow> tmrTimerTableEntry \<Rightarrow> bool" where
  "expires elapsed v e \<longleftrightarrow> is_active v \<and> remainingTicks e \<le> ucast elapsed"

definition status_after :: "u16 \<Rightarrow> u8 \<Rightarrow> tmrTimerTableEntry \<Rightarrow> u8" where
  "status_after elapsed v e =
     (if is_ready v then active v else if expires elapsed v e \<and> one_shot v then inactive v else v)"

definition entry_after :: "u16 \<Rightarrow> u16 \<Rightarrow> u8 \<Rightarrow> tmrTimerTableEntry \<Rightarrow> tmrTimerTableEntry" where
  "entry_after elapsed rd v e =
     (if \<not> is_active v then e
      else if \<not> expires elapsed v e
      then e\<lparr>remainingTicks := remainingTicks e - ucast elapsed, timestamp := rd\<rparr>
      else if one_shot v then e\<lparr>remainingTicks := 0\<rparr>
      else e\<lparr>remainingTicks := intervalInTicks e, timestamp := rd\<rparr>)"

definition next_after :: "u16 \<Rightarrow> u8 \<Rightarrow> tmrTimerTableEntry \<Rightarrow> u16 \<Rightarrow> u16" where
  "next_after elapsed v e nxt =
     (if is_active (status_after elapsed v e) then earlier nxt (remainingTicks (entry_after elapsed 0 v e)) else nxt)"

definition calls_back :: "u16 \<Rightarrow> u8 \<Rightarrow> tmrTimerTableEntry \<Rightarrow> bool" where
  "calls_back elapsed v e \<longleftrightarrow> expires elapsed v e \<and> pfCallBack e \<noteq> NULL"

lemma ready_not_active: "is_ready v \<Longrightarrow> \<not> is_active v"
  by (simp add: is_ready_def is_active_def)

lemma is_state [simp]: "is_active (active v)" "\<not> is_active (inactive v)" "is_ready (ready v)"
  "\<not> is_ready (inactive v)" "\<not> is_ready (active v)" "\<not> is_active (ready v)"
  by (simp_all add: is_active_def is_ready_def)

lemma running_cases: "running v \<longleftrightarrow> is_ready v \<or> is_active v"
  by (auto simp: running_def is_ready_def is_active_def)

lemma one_shot_type: "one_shot (v AND 0x1F) = one_shot v"
  by (simp add: one_shot_def and.assoc)

lemma task_ready:
  assumes inv: "tmr_inv s" and i: "unat i < 9" and st: "is_ready (tstat s i)"
  shows "TMR_Task_timer call elapsed rd i (s, nxt, fired) =
      Some (s\<lparr>maTmrTimerStatusTable := (maTmrTimerStatusTable s)[unat i := active (tstat s i)]\<rparr>,
        earlier nxt (remainingTicks (tentry s i)), fired)"
    "tmr_inv (s\<lparr>maTmrTimerStatusTable := (maTmrTimerStatusTable s)[unat i := active (tstat s i)]\<rparr>)"
proof -
  show "TMR_Task_timer call elapsed rd i (s, nxt, fired) =
      Some (s\<lparr>maTmrTimerStatusTable := (maTmrTimerStatusTable s)[unat i := active (tstat s i)]\<rparr>,
        earlier nxt (remainingTicks (tentry s i)), fired)"
    using st by (simp add: TMR_Task_timer_def tmr_ops [OF inv i] is_ready_def active_def)
  have r: "running (tstat s i)" using st by (simp add: running_cases)
  show "tmr_inv (s\<lparr>maTmrTimerStatusTable := (maTmrTimerStatusTable s)[unat i := active (tstat s i)]\<rparr>)" (is "tmr_inv ?s'")
  proof (rule tmr_inv_update [OF inv i, of "active (tstat s i)"])
    show "timerHardwareIsRunning ?s' \<longrightarrow> hw_enabled ?s' \<and>
        (numberOfActiveTimers ?s' \<noteq> 0 \<or> numberOfLowPowerActiveTimers ?s' \<noteq> 0)"
      using inv by (simp add: tmr_inv_def)
    show "length (maTmrTimerTable ?s') = 9" using inv by (simp add: tmr_inv_lengths)
  qed (use r in simp_all)
qed

lemma task_expired_one_shot:
  assumes inv: "tmr_inv s" and i: "unat i < 9" and st: "expires elapsed (tstat s i) (tentry s i)" "one_shot (tstat s i)"
  shows "\<exists>s'. TMR_Task_timer call elapsed rd i (s, nxt, fired) =
      Some (if pfCallBack (tentry s i) \<noteq> NULL
        then (call (pfCallBack (tentry s i)) (param (tentry s i)) s', nxt, fired @ [i]) else (s', nxt, fired)) \<and>
    tmr_inv s' \<and> same_clock s s' \<and> tmr_event s' = tmr_event s \<and>
    maTmrTimerTable s' = (maTmrTimerTable s)[unat i := (tentry s i)\<lparr>remainingTicks := 0\<rparr>] \<and>
    maTmrTimerStatusTable s' = (maTmrTimerStatusTable s)[unat i := inactive (tstat s i)]"
proof -
  let ?s1 = "s\<lparr>maTmrTimerTable := (maTmrTimerTable s)[unat i := (tentry s i)\<lparr>remainingTicks := 0\<rparr>]\<rparr>"
  have inv1: "tmr_inv ?s1" using inv by (simp add: tmr_inv_entry tmr_inv_lengths)
  have act: "is_active (tstat s i)" using st by (simp add: expires_def)
  then have "running (tstat s i)" "tstat s i \<noteq> 0" by (auto simp: running_def is_active_def)
  then obtain s2 where s2: "TMR_StopTimer ?s1 i = Some (gTmrSuccess_c, s2)" "tmr_inv s2" "same_clock ?s1 s2"
    "tmr_event s2 = tmr_event s" "maTmrTimerTable s2 = maTmrTimerTable ?s1"
    "maTmrTimerStatusTable s2 = (maTmrTimerStatusTable s)[unat i := inactive (tstat s i)]"
    using TMR_StopTimer_ok [OF inv1, of i] i by auto
  have len: "length (maTmrTimerTable s) = 9" using inv by (rule tmr_inv_lengths)
  have "\<not> remainingTicks (tentry s i) > ucast elapsed" using st by (simp add: expires_def not_less)
  then have "TMR_Task_timer call elapsed rd i (s, nxt, fired) =
      Some (if pfCallBack (tentry s i) \<noteq> NULL
        then (call (pfCallBack (tentry s i)) (param (tentry s i)) s2, nxt, fired @ [i]) else (s2, nxt, fired))"
    using st(2) act s2(1,5) i len
    by (simp add: TMR_Task_timer_def tmr_ops [OF inv i] is_active_def one_shot_type)
  moreover have "same_clock s s2" using s2(3) by (simp add: same_clock_def)
  ultimately show ?thesis using s2 by (intro exI [of _ s2]) simp
qed

lemma task_active_entry:
  assumes inv: "tmr_inv s" and i: "unat i < 9" and st: "is_active (tstat s i)"
    "\<not> (expires elapsed (tstat s i) (tentry s i) \<and> one_shot (tstat s i))"
  shows "TMR_Task_timer call elapsed rd i (s, nxt, fired) =
      (let e = entry_after elapsed rd (tstat s i) (tentry s i);
           s' = s\<lparr>maTmrTimerTable := (maTmrTimerTable s)[unat i := e]\<rparr>;
           nxt' = earlier nxt (remainingTicks e) in
       Some (if calls_back elapsed (tstat s i) (tentry s i)
         then (call (pfCallBack e) (param e) s', nxt', fired @ [i]) else (s', nxt', fired)))"
    "tmr_inv (s\<lparr>maTmrTimerTable := (maTmrTimerTable s)[unat i := e]\<rparr>)"
proof -
  have len: "length (maTmrTimerTable s) = 9" using inv by (rule tmr_inv_lengths)
  show "TMR_Task_timer call elapsed rd i (s, nxt, fired) =
      (let e = entry_after elapsed rd (tstat s i) (tentry s i);
           s' = s\<lparr>maTmrTimerTable := (maTmrTimerTable s)[unat i := e]\<rparr>;
           nxt' = earlier nxt (remainingTicks e) in
       Some (if calls_back elapsed (tstat s i) (tentry s i)
         then (call (pfCallBack e) (param e) s', nxt', fired @ [i]) else (s', nxt', fired)))"
  proof (cases "expires elapsed (tstat s i) (tentry s i)")
    case True
    then have "\<not> remainingTicks (tentry s i) > ucast elapsed" "\<not> one_shot (tstat s i)" using st by (simp_all add: expires_def not_less)
    then show ?thesis using st True i len
      by (simp add: TMR_Task_timer_def tmr_ops [OF inv i] is_active_def one_shot_type entry_after_def calls_back_def Let_def)
  next
    case False
    then have "remainingTicks (tentry s i) > ucast elapsed" using st by (simp add: expires_def not_le)
    then show ?thesis using st False i len
      by (simp add: TMR_Task_timer_def tmr_ops [OF inv i] is_active_def one_shot_type entry_after_def calls_back_def Let_def)
  qed
  show "tmr_inv (s\<lparr>maTmrTimerTable := (maTmrTimerTable s)[unat i := e]\<rparr>)"
    using inv len by (simp add: tmr_inv_entry)
qed

lemma earlier_bounds:
  "unat (earlier nxt t) \<le> unat nxt" "unat (earlier nxt t) \<le> unat t"
  "earlier nxt t = nxt \<or> unat (earlier nxt t) = unat t"
proof -
  have u: "unat (ucast nxt :: u64) = unat nxt" by (simp add: unat_ucast_up)
  have "unat (ucast t :: u16) = unat t" if "unat t < unat nxt"
    using that word_nat_less_len [of nxt] by (simp add: unat_ucast_mod)
  then show "unat (earlier nxt t) \<le> unat nxt" "unat (earlier nxt t) \<le> unat t"
    "earlier nxt t = nxt \<or> unat (earlier nxt t) = unat t"
    using u by (auto simp: earlier_def word_less_nat_alt)
qed

lemma entry_after_fields [simp]:
  "pfCallBack (entry_after el rd v e) = pfCallBack e" "param (entry_after el rd v e) = param e"
  "intervalInTicks (entry_after el rd v e) = intervalInTicks e"
  by (simp_all add: entry_after_def)

lemma entry_after_remaining: "remainingTicks (entry_after el rd v e) = remainingTicks (entry_after el rd' v e)"
  by (simp add: entry_after_def)

text \<open>Callbacks that leave the timers alone: the run is a function of each timer by itself.\<close>

definition quiet :: tmr_call where "quiet = (\<lambda>cb prm s. s)"

lemma TMR_Task_timer_quiet:
  assumes inv: "tmr_inv s" and i: "unat i < 9"
  defines "v \<equiv> tstat s i" and "e \<equiv> tentry s i"
  shows "\<exists>s'. TMR_Task_timer quiet el rd i (s, nxt, fired) =
      Some (s', next_after el v e nxt, fired @ (if calls_back el v e then [i] else [])) \<and>
    tmr_inv s' \<and> same_clock s s' \<and> tmr_event s' = tmr_event s \<and>
    maTmrTimerTable s' = (maTmrTimerTable s)[unat i := entry_after el rd v e] \<and>
    maTmrTimerStatusTable s' = (maTmrTimerStatusTable s)[unat i := status_after el v e]"
proof -
  consider (ready) "is_ready v" | (shot) "expires el v e" "one_shot v"
    | (active) "is_active v" "\<not> (expires el v e \<and> one_shot v)" | (idle) "\<not> is_ready v" "\<not> is_active v"
    by blast
  then show ?thesis
  proof cases
    case ready
    then have "\<not> is_active v" by (rule ready_not_active)
    with ready show ?thesis using task_ready(1) [OF inv i, of quiet el rd nxt fired] task_ready(2) [OF inv i]
      by (simp add: v_def e_def status_after_def entry_after_def next_after_def calls_back_def expires_def same_clock_def)
  next
    case shot
    then have "\<not> is_ready v" "is_active v" using ready_not_active by (auto simp: expires_def)
    with shot show ?thesis using task_expired_one_shot [OF inv i, of el quiet rd nxt fired]
      by (auto simp: v_def e_def status_after_def entry_after_def next_after_def calls_back_def quiet_def)
  next
    case active
    then have "status_after el v e = v" using ready_not_active by (auto simp: status_after_def)
    with active show ?thesis
      using task_active_entry(1) [OF inv i active [unfolded v_def e_def], where call = quiet] task_active_entry(2) [OF inv i active [unfolded v_def e_def]]
      by (auto simp: v_def e_def next_after_def quiet_def same_clock_def Let_def entry_after_remaining [of el rd _ _ 0])
  next
    case idle
    have "TMR_Task_timer quiet el rd i (s, nxt, fired) = Some (s, nxt, fired)"
      using idle by (simp add: TMR_Task_timer_def tmr_ops [OF inv i] is_active_def is_ready_def v_def)
    with idle inv show ?thesis
      by (intro exI [of _ s]) (simp add: v_def e_def status_after_def entry_after_def next_after_def calls_back_def expires_def)
  qed
qed

definition calls_safe :: "tmr_call \<Rightarrow> bool" where
  "calls_safe call \<longleftrightarrow> (\<forall>cb prm s. tmr_inv s \<longrightarrow> tmr_inv (call cb prm s))"

lemma TMR_Task_timer_inv:
  assumes inv: "tmr_inv s" and i: "unat i < 9" and call: "calls_safe call"
  shows "\<exists>s' nxt' fired'. TMR_Task_timer call el rd i (s, nxt, fired) = Some (s', nxt', fired') \<and> tmr_inv s'"
proof -
  let ?v = "tstat s i" and ?e = "tentry s i"
  consider (ready) "is_ready ?v" | (shot) "expires el ?v ?e" "one_shot ?v"
    | (active) "is_active ?v" "\<not> (expires el ?v ?e \<and> one_shot ?v)" | (idle) "\<not> is_ready ?v" "\<not> is_active ?v"
    by blast
  then show ?thesis
  proof cases
    case ready
    then show ?thesis using task_ready [OF inv i] by blast
  next
    case shot
    then show ?thesis
      using task_expired_one_shot [OF inv i, of el call rd nxt fired] call
      by (auto simp: calls_safe_def split: if_splits)
  next
    case active
    then show ?thesis
      using task_active_entry(1) [OF inv i, of el call rd nxt fired] task_active_entry(2) [OF inv i] call
      by (auto simp: Let_def calls_safe_def)
  next
    case idle
    then show ?thesis
      using inv by (simp add: TMR_Task_timer_def tmr_ops [OF inv i] is_active_def is_ready_def)
  qed
qed

lemma TMR_Task_loop_inv:
  assumes "tmr_inv s" "i + k \<le> 9" "calls_safe call"
  shows "\<exists>s' nxt' fired'. TMR_Task_loop call el rd k i (s, nxt, fired) = Some (s', nxt', fired') \<and> tmr_inv s'"
  using assms(1,2)
proof (induction k arbitrary: i s nxt fired)
  case (Suc k)
  have i: "unat (of_nat i :: u8) < 9" using Suc.prems(2) by (simp add: unat_of_nat)
  obtain s1 n1 f1 where s1: "TMR_Task_timer call el (rd i) (of_nat i) (s, nxt, fired) = Some (s1, n1, f1)" "tmr_inv s1"
    using TMR_Task_timer_inv [OF Suc.prems(1) i assms(3)] by blast
  obtain s2 n2 f2 where "TMR_Task_loop call el rd k (Suc i) (s1, n1, f1) = Some (s2, n2, f2)" "tmr_inv s2"
    using Suc.IH [OF s1(2), of "Suc i" n1 f1] Suc.prems(2) by auto
  then show ?case using s1 by simp
qed simp

text \<open>What a run leaves, timer by timer, and the callbacks it makes.\<close>

definition after_run :: "u16 \<Rightarrow> (nat \<Rightarrow> u16) \<Rightarrow> nat set \<Rightarrow> tmr_state \<Rightarrow> tmr_state \<Rightarrow> bool" where
  "after_run el rd J s s' \<longleftrightarrow> (\<forall>j < 9.
     maTmrTimerTable s' ! j = (if j \<in> J then entry_after el (rd j) (maTmrTimerStatusTable s ! j) (maTmrTimerTable s ! j)
       else maTmrTimerTable s ! j) \<and>
     maTmrTimerStatusTable s' ! j = (if j \<in> J then status_after el (maTmrTimerStatusTable s ! j) (maTmrTimerTable s ! j)
       else maTmrTimerStatusTable s ! j))"

definition callbacks_of :: "u16 \<Rightarrow> tmr_state \<Rightarrow> nat list \<Rightarrow> u8 list" where
  "callbacks_of el s js = map of_nat (filter (\<lambda>j. calls_back el (maTmrTimerStatusTable s ! j) (maTmrTimerTable s ! j)) js)"

definition next_of :: "u16 \<Rightarrow> tmr_state \<Rightarrow> nat list \<Rightarrow> u16 \<Rightarrow> u16" where
  "next_of el s = fold (\<lambda>j. next_after el (maTmrTimerStatusTable s ! j) (maTmrTimerTable s ! j))"

text \<open>Whether a timer is active after the run, and with how many ticks.\<close>

definition active_after :: "u16 \<Rightarrow> tmr_state \<Rightarrow> nat \<Rightarrow> bool" where
  "active_after el s j \<longleftrightarrow> is_active (status_after el (maTmrTimerStatusTable s ! j) (maTmrTimerTable s ! j))"

definition left_after :: "u16 \<Rightarrow> tmr_state \<Rightarrow> nat \<Rightarrow> u64" where
  "left_after el s j = remainingTicks (entry_after el 0 (maTmrTimerStatusTable s ! j) (maTmrTimerTable s ! j))"

lemma next_of_Cons: "next_of el s (a # js) nxt =
    next_of el s js (if active_after el s a then earlier nxt (left_after el s a) else nxt)"
  by (simp add: next_of_def next_after_def active_after_def left_after_def)

lemma next_of_bounds:
  "unat (next_of el s js nxt) \<le> unat nxt \<and>
   (\<forall>j \<in> set js. active_after el s j \<longrightarrow> unat (next_of el s js nxt) \<le> unat (left_after el s j)) \<and>
   (next_of el s js nxt = nxt \<or> (\<exists>j \<in> set js. active_after el s j \<and> unat (next_of el s js nxt) = unat (left_after el s j)))"
proof (induction js arbitrary: nxt)
  case (Cons a js)
  define n where "n = (if active_after el s a then earlier nxt (left_after el s a) else nxt)"
  have n: "unat n \<le> unat nxt" "active_after el s a \<Longrightarrow> unat n \<le> unat (left_after el s a)"
    "n = nxt \<or> active_after el s a \<and> unat n = unat (left_after el s a)"
    using earlier_bounds [of nxt "left_after el s a"] by (auto simp: n_def)
  show ?case
    unfolding next_of_Cons n_def [symmetric] list.set ball_simps bex_simps
  proof (intro conjI)
    show "next_of el s js n = nxt \<or> active_after el s a \<and> unat (next_of el s js n) = unat (left_after el s a) \<or>
        (\<exists>j\<in>set js. active_after el s j \<and> unat (next_of el s js n) = unat (left_after el s j))"
      using Cons.IH [THEN conjunct2, THEN conjunct2, of n] n(3) by (elim disjE) simp_all
  qed (use Cons.IH [of n] n(1,2) in \<open>auto intro: order_trans\<close>)
qed (simp add: next_of_def)

lemma TMR_Task_loop_quiet:
  assumes "tmr_inv s" "i + k \<le> 9"
  shows "\<exists>s'. TMR_Task_loop quiet el rd k i (s, nxt, fired) =
      Some (s', next_of el s [i..<i + k] nxt, fired @ callbacks_of el s [i..<i + k]) \<and>
    tmr_inv s' \<and> same_clock s s' \<and> tmr_event s' = tmr_event s \<and> after_run el rd {i..<i + k} s s'"
  using assms
proof (induction k arbitrary: i s nxt fired)
  case 0
  then show ?case by (simp add: next_of_def callbacks_of_def after_run_def)
next
  case (Suc k)
  have i: "unat (of_nat i :: u8) = i" "i < 9" using Suc.prems(2) by (simp_all add: unat_of_nat)
  obtain s1 where s1: "TMR_Task_timer quiet el (rd i) (of_nat i) (s, nxt, fired) =
      Some (s1, next_after el (maTmrTimerStatusTable s ! i) (maTmrTimerTable s ! i) nxt,
        fired @ (if calls_back el (maTmrTimerStatusTable s ! i) (maTmrTimerTable s ! i) then [of_nat i] else []))"
    "tmr_inv s1" "same_clock s s1" "tmr_event s1 = tmr_event s"
    "maTmrTimerTable s1 = (maTmrTimerTable s)[i := entry_after el (rd i) (maTmrTimerStatusTable s ! i) (maTmrTimerTable s ! i)]"
    "maTmrTimerStatusTable s1 = (maTmrTimerStatusTable s)[i := status_after el (maTmrTimerStatusTable s ! i) (maTmrTimerTable s ! i)]"
    using TMR_Task_timer_quiet [OF Suc.prems(1), of "of_nat i" el "rd i" nxt fired] i by auto
  have same: "maTmrTimerTable s1 ! j = maTmrTimerTable s ! j" "maTmrTimerStatusTable s1 ! j = maTmrTimerStatusTable s ! j"
    if "j \<noteq> i" for j using that by (simp_all add: s1)
  have nxt: "next_of el s1 [Suc i..<Suc i + k] n = next_of el s [Suc i..<Suc i + k] n" for n
    unfolding next_of_def by (rule fold_cong) (simp_all only: set_upt, auto simp: same)
  have fire: "callbacks_of el s1 [Suc i..<Suc i + k] = callbacks_of el s [Suc i..<Suc i + k]"
    unfolding callbacks_of_def by (rule arg_cong [of _ _ "map of_nat"], rule filter_cong) (simp_all only: set_upt, auto simp: same)
  obtain s2 where s2: "TMR_Task_loop quiet el rd k (Suc i) (s1, n, f) =
      Some (s2, next_of el s [Suc i..<Suc i + k] n, f @ callbacks_of el s [Suc i..<Suc i + k])"
    "tmr_inv s2" "same_clock s1 s2" "tmr_event s2 = tmr_event s1" "after_run el rd {Suc i..<Suc i + k} s1 s2"
    if "n = next_after el (maTmrTimerStatusTable s ! i) (maTmrTimerTable s ! i) nxt"
      "f = fired @ (if calls_back el (maTmrTimerStatusTable s ! i) (maTmrTimerTable s ! i) then [of_nat i] else [])" for n f
    using Suc.IH [OF s1(2), of "Suc i"] Suc.prems(2) unfolding nxt fire by fastforce
  note s2 = s2 [OF refl refl]
  have up: "[i..<i + Suc k] = i # [Suc i..<Suc i + k]" by (simp add: upt_rec)
  have "TMR_Task_loop quiet el rd (Suc k) i (s, nxt, fired) =
      Some (s2, next_of el s [i..<i + Suc k] nxt, fired @ callbacks_of el s [i..<i + Suc k])"
    unfolding up using s1(1) s2(1) by (simp add: next_of_def callbacks_of_def)
  moreover have "after_run el rd {i..<i + Suc k} s s2"
    using s2(5) s1(5,6) i(2) tmr_inv_lengths [OF Suc.prems(1)] unfolding after_run_def
    by (auto simp: nth_list_update split: if_splits)
  moreover have "same_clock s s2" using s1(3) s2(3) by (simp add: same_clock_def)
  ultimately show ?case using s2 s1(4) by (intro exI [of _ s2]) simp
qed

section \<open>Runs of the interface\<close>

text \<open>The tables as the linker leaves them, and the first call of the initialisation.\<close>

definition tmr_boot :: tmr_state where
  "tmr_boot = \<lparr>maTmrTimerTable = replicate gTmrTotalTimers_c
       \<lparr>intervalInTicks = 0, remainingTicks = 0, pfCallBack = NULL, param = NULL, timestamp = 0\<rparr>,
     maTmrTimerStatusTable = replicate gTmrTotalTimers_c 0, numberOfActiveTimers = 0,
     numberOfLowPowerActiveTimers = 0, timerHardwareIsRunning = False, previousTimeInTicks = 0,
     mMaxToCountDown = 0, mTicksFor4ms = 0, mCounterFreqHz = 0, hw_enabled = False, hw_compare = 0, tmr_event = False\<rparr>"

definition TMR_Init :: "u32 \<Rightarrow> bool \<times> tmr_state \<Rightarrow> bool \<times> tmr_state" where
  "TMR_Init freq = (\<lambda>(initialized, s). if \<not> initialized then (True, TMR_NotifyClkChanged freq s) else (initialized, s))"

inductive tmr_op :: "tmr_state \<Rightarrow> tmr_state \<Rightarrow> bool" where
  alloc: "TMR_AllocateTimer s = Some (i, s') \<Longrightarrow> tmr_op s s'"
| free: "TMR_FreeTimer s i = Some (err, s') \<Longrightarrow> tmr_op s s'"
| stop: "TMR_StopTimer s i = Some (err, s') \<Longrightarrow> tmr_op s s'"
| start: "type AND mTimerType_c = type \<Longrightarrow> TMR_StartTimer s now i type ms cb prm = Some (err, s') \<Longrightarrow> tmr_op s s'"
| enable: "unat i < gTmrTotalTimers_c \<Longrightarrow> TMR_EnableTimer s i = Some s' \<Longrightarrow> tmr_op s s'"
| interrupt: "tmr_op s (StackTimer_ISR s)"
| wake: "tmr_op s (TMR_MakeTMRThreadReady s)"
| clock: "tmr_op s (TMR_NotifyClkChanged freq s)"
| sleep: "TMR_NotCountedTicksBeforeSleep s current = (ticks, s') \<Longrightarrow> tmr_op s s'"
| sync: "TMR_SyncLpmTimers d current s = Some s' \<Longrightarrow> tmr_op s s'"

inductive_cases tmr_opE: "tmr_op s s'"

text \<open>A callback may call the interface itself, any number of times.\<close>

definition client_call :: "tmr_call \<Rightarrow> bool" where
  "client_call call \<longleftrightarrow> (\<forall>cb prm s. tmr_op\<^sup>*\<^sup>* s (call cb prm s))"

inductive tmr_run :: "tmr_state \<Rightarrow> bool" where
  boot: "tmr_run (snd (TMR_Init freq (False, tmr_boot)))"
| op: "tmr_run s \<Longrightarrow> tmr_op s s' \<Longrightarrow> tmr_run s'"
| task: "tmr_run s \<Longrightarrow> client_call call \<Longrightarrow> TMR_Task call current rd fin s = Some (s', fired) \<Longrightarrow> tmr_run s'"

lemma TMR_AllocateTimer_from_ok:
  assumes "tmr_inv s" "i + k \<le> 9"
  shows "\<exists>r s'. TMR_AllocateTimer_from k i s = Some (r, s') \<and> tmr_inv s' \<and>
    (if \<exists>j \<in> {i..<i + k}. maTmrTimerStatusTable s ! j = 0
     then \<exists>j. i \<le> j \<and> j < i + k \<and> r = of_nat j \<and> maTmrTimerStatusTable s ! j = 0 \<and>
       (\<forall>l. i \<le> l \<longrightarrow> l < j \<longrightarrow> maTmrTimerStatusTable s ! l \<noteq> 0) \<and>
       s' = s\<lparr>maTmrTimerStatusTable := (maTmrTimerStatusTable s)[j := mTmrStatusInactive_c]\<rparr>
     else r = gTmrInvalidTimerID_c \<and> s' = s)"
  using assms
proof (induction k arbitrary: i)
  case (Suc k)
  have i: "unat (of_nat i :: u8) = i" "i < 9" using Suc.prems(2) by (simp_all add: unat_of_nat)
  note ops = tmr_ops [OF Suc.prems(1), of "of_nat i", unfolded i(1), OF i(2)]
  show ?case
  proof (cases "maTmrTimerStatusTable s ! i = 0")
    case True
    let ?s' = "s\<lparr>maTmrTimerStatusTable := (maTmrTimerStatusTable s)[i := mTmrStatusInactive_c]\<rparr>"
    have "tmr_inv ?s'"
    proof (rule tmr_inv_update [OF Suc.prems(1), of "of_nat i" mTmrStatusInactive_c])
      show "length (maTmrTimerTable ?s') = 9" using Suc.prems(1) by (simp add: tmr_inv_lengths)
      show "timerHardwareIsRunning ?s' \<longrightarrow> hw_enabled ?s' \<and>
          (numberOfActiveTimers ?s' \<noteq> 0 \<or> numberOfLowPowerActiveTimers ?s' \<noteq> 0)"
        using Suc.prems(1) by (simp add: tmr_inv_def)
    qed (use i True in \<open>simp_all add: status_ok_def running_def\<close>)
    moreover have "TMR_AllocateTimer_from (Suc k) i s = Some (of_nat i, ?s')"
      using True ops by simp
    ultimately show ?thesis using True by (intro exI conjI) auto
  next
    case False
    have e: "(\<exists>j \<in> {i..<i + Suc k}. maTmrTimerStatusTable s ! j = 0) \<longleftrightarrow>
        (\<exists>j \<in> {Suc i..<Suc i + k}. maTmrTimerStatusTable s ! j = 0)"
    proof -
      have "{i..<i + Suc k} = insert i {Suc i..<Suc i + k}" by auto
      then show ?thesis using False by simp
    qed
    obtain r s' where "TMR_AllocateTimer_from k (Suc i) s = Some (r, s')" "tmr_inv s'"
      "if \<exists>j \<in> {Suc i..<Suc i + k}. maTmrTimerStatusTable s ! j = 0
       then \<exists>j. Suc i \<le> j \<and> j < Suc i + k \<and> r = of_nat j \<and> maTmrTimerStatusTable s ! j = 0 \<and>
         (\<forall>l. Suc i \<le> l \<longrightarrow> l < j \<longrightarrow> maTmrTimerStatusTable s ! l \<noteq> 0) \<and>
         s' = s\<lparr>maTmrTimerStatusTable := (maTmrTimerStatusTable s)[j := mTmrStatusInactive_c]\<rparr>
       else r = gTmrInvalidTimerID_c \<and> s' = s"
      using Suc.IH [of "Suc i"] Suc.prems by auto
    moreover have "maTmrTimerStatusTable s ! l \<noteq> 0" if "\<forall>l. Suc i \<le> l \<longrightarrow> l < j \<longrightarrow> maTmrTimerStatusTable s ! l \<noteq> 0"
      "i \<le> l" "l < j" for l j
      using that False by (cases "l = i") auto
    ultimately show ?thesis unfolding e using False ops(3)
      by (intro exI [of _ r] exI [of _ s']) (simp, metis Suc_leD add_Suc)
  qed
qed simp

lemma TMR_SyncLpmTimers_from_ok:
  assumes "tmr_inv s" "i + k \<le> 9"
  shows "\<exists>s'. TMR_SyncLpmTimers_from d k i s = Some s' \<and> tmr_inv s' \<and>
    (\<forall>j < 9. maTmrTimerTable s' ! j =
      (let e = maTmrTimerTable s ! j; v = maTmrTimerStatusTable s ! j in
       if i \<le> j \<and> j < i + k \<and> is_active v \<and> low_power v
       then e\<lparr>remainingTicks := (if remainingTicks e > ucast d then remainingTicks e - ucast d else 0)\<rparr> else e)) \<and>
    s' = s\<lparr>maTmrTimerTable := maTmrTimerTable s'\<rparr>"
  using assms
proof (induction k arbitrary: i s)
  case (Suc k)
  have i: "unat (of_nat i :: u8) = i" "i < 9" using Suc.prems(2) by (simp_all add: unat_of_nat)
  note ops = tmr_ops [OF Suc.prems(1), of "of_nat i", unfolded i(1), OF i(2)]
  let ?v = "maTmrTimerStatusTable s ! i" and ?e = "maTmrTimerTable s ! i"
  define e' where "e' = (if is_active ?v \<and> low_power ?v
     then ?e\<lparr>remainingTicks := (if remainingTicks ?e > ucast d then remainingTicks ?e - ucast d else 0)\<rparr> else ?e)"
  let ?s1 = "s\<lparr>maTmrTimerTable := (maTmrTimerTable s)[i := e']\<rparr>"
  have len: "length (maTmrTimerTable s) = 9" using Suc.prems(1) by (rule tmr_inv_lengths)
  have inv1: "tmr_inv ?s1" using Suc.prems(1) len by (simp add: tmr_inv_entry)
  have step: "TMR_SyncLpmTimers_from d (Suc k) i s = TMR_SyncLpmTimers_from d k (Suc i) ?s1"
    using type_low [of ?v] by (simp add: ops is_active_def e'_def)
  obtain s' where s': "TMR_SyncLpmTimers_from d k (Suc i) ?s1 = Some s'" "tmr_inv s'"
    "\<forall>j < 9. maTmrTimerTable s' ! j =
      (let e = maTmrTimerTable ?s1 ! j; v = maTmrTimerStatusTable s ! j in
       if Suc i \<le> j \<and> j < Suc i + k \<and> is_active v \<and> low_power v
       then e\<lparr>remainingTicks := (if remainingTicks e > ucast d then remainingTicks e - ucast d else 0)\<rparr> else e)"
    "s' = ?s1\<lparr>maTmrTimerTable := maTmrTimerTable s'\<rparr>"
    using Suc.IH [OF inv1, of "Suc i"] Suc.prems(2) by auto
  have "maTmrTimerTable s' ! j =
      (let e = maTmrTimerTable s ! j; v = maTmrTimerStatusTable s ! j in
       if i \<le> j \<and> j < i + Suc k \<and> is_active v \<and> low_power v
       then e\<lparr>remainingTicks := (if remainingTicks e > ucast d then remainingTicks e - ucast d else 0)\<rparr> else e)"
    if "j < 9" for j
    using s'(3) that len i(2) by (cases "j = i") (auto simp: Let_def e'_def)
  moreover have "s' = s\<lparr>maTmrTimerTable := maTmrTimerTable s'\<rparr>" using s'(4) by simp
  ultimately show ?case unfolding step using s'(1,2) by blast
qed (auto simp: Let_def)

lemma clock_inv: "tmr_inv (TMR_NotifyClkChanged freq s) = tmr_inv s"
  by (simp add: TMR_NotifyClkChanged_def tmr_inv_def Let_def)

lemma start_refused:
  assumes "tmr_inv s" "\<not> (unat i < 9 \<and> tstat s i \<noteq> 0)"
  shows "TMR_StartTimer s now i type ms cb prm = Some (gTmrInvalidId_c, s)"
proof -
  have "TMR_StopTimer s i = Some (gTmrInvalidId_c, s)"
    using assms tmr_ops(3) [OF assms(1), of i] by (auto simp: TMR_StopTimer_def)
  then show ?thesis by (simp add: TMR_StartTimer_def)
qed

lemma enable_total:
  assumes "tmr_inv s" "unat i < 9"
  shows "\<exists>s'. TMR_EnableTimer s i = Some s' \<and> tmr_inv s'"
proof (cases "tstat s i AND 0xE0 = 0x80")
  case True
  then show ?thesis using TMR_EnableTimer_ok [OF assms] by blast
next
  case False
  then show ?thesis using assms tmr_ops(1) [OF assms] by (simp add: TMR_EnableTimer_def)
qed

lemma start_total:
  assumes "tmr_inv s" "type AND 0x1F = type"
  shows "\<exists>err s'. TMR_StartTimer s now i type ms cb prm = Some (err, s') \<and> tmr_inv s'"
proof (cases "unat i < 9 \<and> tstat s i \<noteq> 0")
  case True
  then show ?thesis using TMR_StartTimer_ok [OF assms(1) _ _ assms(2)] by blast
next
  case False
  then show ?thesis using start_refused [OF assms(1) False] assms(1) by blast
qed

lemma alloc_total:
  assumes "tmr_inv s"
  shows "\<exists>i s'. TMR_AllocateTimer s = Some (i, s') \<and> tmr_inv s'"
  using TMR_AllocateTimer_from_ok [OF assms, of 0 9] unfolding TMR_AllocateTimer_def by auto

lemma sync_total:
  assumes "tmr_inv s"
  shows "\<exists>s'. TMR_SyncLpmTimers d current s = Some s' \<and> tmr_inv s'"
proof -
  obtain s1 where s1: "TMR_SyncLpmTimers_from d 9 0 s = Some s1" "tmr_inv s1"
    using TMR_SyncLpmTimers_from_ok [OF assms, of 0 9] by auto
  then have "tmr_inv (s1\<lparr>hw_enabled := True, previousTimeInTicks := current\<rparr>)" by (simp add: tmr_inv_def)
  then show ?thesis using s1 assms by (auto simp: TMR_SyncLpmTimers_def)
qed

lemma tmr_op_inv: "tmr_op s s' \<Longrightarrow> tmr_inv s \<Longrightarrow> tmr_inv s'"
proof (induction rule: tmr_op.induct)
  case (alloc s i s')
  then show ?case using alloc_total [of s] by auto
next
  case (free s i err s')
  then show ?case using TMR_FreeTimer_ok [of s i] by auto
next
  case (stop s i err s')
  then show ?case using TMR_StopTimer_ok [of s i] by auto
next
  case (start type s now i ms cb prm err s')
  then show ?case using start_total [of s type now i ms cb prm] by auto
next
  case (enable i s s')
  then show ?case using enable_total [of s i] by auto
next
  case (sleep s current ticks s')
  then show ?case by (auto simp: TMR_NotCountedTicksBeforeSleep_def tmr_inv_def split: if_splits)
next
  case (sync d current s s')
  then show ?case using sync_total [of s d current] by auto
qed (simp_all add: clock_inv, simp_all add: tmr_inv_def StackTimer_ISR_def TMR_MakeTMRThreadReady_def)

lemma tmr_ops_inv: "tmr_op\<^sup>*\<^sup>* s s' \<Longrightarrow> tmr_inv s \<Longrightarrow> tmr_inv s'"
  by (induction rule: rtranclp_induct) (auto intro: tmr_op_inv)

lemma client_calls_safe: "client_call call \<Longrightarrow> calls_safe call"
  by (auto simp: client_call_def calls_safe_def intro: tmr_ops_inv)

text \<open>The end of a run: the interrupt is programmed, or the hardware timer is off.\<close>

definition task_end :: "u16 \<Rightarrow> tmr_state \<Rightarrow> tmr_state" where
  "task_end compare s =
     (if numberOfActiveTimers s \<noteq> 0 \<or> numberOfLowPowerActiveTimers s \<noteq> 0
      then s\<lparr>hw_compare := compare, hw_enabled := True, timerHardwareIsRunning := True\<rparr>
      else if timerHardwareIsRunning s then s\<lparr>hw_enabled := False, timerHardwareIsRunning := False\<rparr> else s)"

lemma task_end_inv: "tmr_inv s \<Longrightarrow> tmr_inv (task_end c s)"
  by (auto simp: task_end_def tmr_inv_def)

lemma task_begin_inv: "tmr_inv s \<Longrightarrow> tmr_inv (s\<lparr>previousTimeInTicks := current, tmr_event := False\<rparr>)"
  by (simp add: tmr_inv_def)

lemma TMR_Task_run:
  assumes "TMR_Task_loop call (current - previousTimeInTicks s) rd 9 0
    (s\<lparr>previousTimeInTicks := current, tmr_event := False\<rparr>, mMaxToCountDown s, []) = Some (s1, nxt, fired)"
  shows "TMR_Task call current rd fin s = Some (task_end (next_interrupt s1 current fin nxt) s1, fired)"
  using assms by (simp add: TMR_Task_def task_end_def Let_def)

lemma TMR_Task_total:
  assumes "tmr_inv s" "calls_safe call"
  shows "\<exists>s' fired. TMR_Task call current rd fin s = Some (s', fired) \<and> tmr_inv s'"
proof -
  obtain s1 nxt fired where s1: "TMR_Task_loop call (current - previousTimeInTicks s) rd 9 0
      (s\<lparr>previousTimeInTicks := current, tmr_event := False\<rparr>, mMaxToCountDown s, []) = Some (s1, nxt, fired)" "tmr_inv s1"
    using TMR_Task_loop_inv [OF task_begin_inv [OF assms(1)] _ assms(2), of 0 9] by fastforce
  show ?thesis using TMR_Task_run [OF s1(1), of fin] task_end_inv [OF s1(2)] by blast
qed

lemma TMR_Task_quiet:
  fixes current :: u16
  assumes "tmr_inv s"
  defines "el \<equiv> current - previousTimeInTicks s"
  shows "\<exists>s1. TMR_Task quiet current rd fin s =
      Some (task_end (next_interrupt s current fin (next_of el s [0..<9] (mMaxToCountDown s))) s1,
        callbacks_of el s [0..<9]) \<and>
    tmr_inv s1 \<and> after_run el rd {0..<9} s s1 \<and> previousTimeInTicks s1 = current \<and> \<not> tmr_event s1 \<and>
    mMaxToCountDown s1 = mMaxToCountDown s \<and> mTicksFor4ms s1 = mTicksFor4ms s \<and> mCounterFreqHz s1 = mCounterFreqHz s"
proof -
  let ?s = "s\<lparr>previousTimeInTicks := current, tmr_event := False\<rparr>"
  obtain s1 where s1: "TMR_Task_loop quiet el rd 9 0 (?s, mMaxToCountDown s, []) =
      Some (s1, next_of el ?s [0..<9] (mMaxToCountDown s), callbacks_of el ?s [0..<9])"
    "tmr_inv s1" "same_clock ?s s1" "tmr_event s1 = tmr_event ?s" "after_run el rd {0..<9} ?s s1"
    using TMR_Task_loop_quiet [OF task_begin_inv [OF assms(1), of current], of 0 9 el rd "mMaxToCountDown s" "[]"]
    by auto
  have "next_interrupt s1 = next_interrupt s"
    using s1(3) by (intro ext) (simp add: next_interrupt_def same_clock_def Let_def)
  moreover have "next_of el ?s = next_of el s" "callbacks_of el ?s = callbacks_of el s" "after_run el rd {0..<9} ?s s1 = after_run el rd {0..<9} s s1"
    by (simp_all add: next_of_def callbacks_of_def after_run_def fun_eq_iff)
  ultimately show ?thesis
    using TMR_Task_run [OF s1(1) [unfolded el_def], of fin] s1 unfolding el_def
    by (intro exI [of _ s1]) (simp add: same_clock_def)
qed

section \<open>Properties\<close>

lemma tmr_boot_inv: "tmr_inv (snd (TMR_Init freq (b, tmr_boot)))"
proof -
  have "tmr_inv tmr_boot" by (simp add: tmr_inv_def tmr_boot_def)
  then show ?thesis by (simp add: TMR_Init_def clock_inv)
qed

lemma tmr_run_inv: "tmr_run s \<Longrightarrow> tmr_inv s"
proof (induction rule: tmr_run.induct)
  case (boot freq)
  then show ?case by (rule tmr_boot_inv)
next
  case (op s s')
  then show ?case by (auto intro: tmr_op_inv)
next
  case (task s call current rd fin s' fired)
  then show ?case using TMR_Task_total [OF _ client_calls_safe, of s call current rd fin] by auto
qed

text \<open>C35: however the interface, the interrupt and the timer task interleave, and whatever timers the
  callbacks start, stop, allocate or free, the tables stay consistent: nine entries, each free or in exactly
  one state, the two counters counting the running timers of their kind, the hardware timer running only
  while a timer is. In every such state every operation returns; none of them faults.\<close>

theorem tmr_run_safe:
  assumes "tmr_run s"
  shows "tmr_inv s \<and> (\<exists>r. TMR_AllocateTimer s = Some r) \<and> (\<forall>i. \<exists>r. TMR_FreeTimer s i = Some r) \<and>
    (\<forall>i. \<exists>r. TMR_StopTimer s i = Some r) \<and>
    (\<forall>i type now ms cb prm. type AND mTimerType_c = type \<longrightarrow> (\<exists>r. TMR_StartTimer s now i type ms cb prm = Some r)) \<and>
    (\<forall>i. unat i < gTmrTotalTimers_c \<longrightarrow> (\<exists>r. TMR_EnableTimer s i = Some r)) \<and>
    (\<forall>d current. \<exists>r. TMR_SyncLpmTimers d current s = Some r) \<and>
    (\<forall>call current rd fin. client_call call \<longrightarrow> (\<exists>r. TMR_Task call current rd fin s = Some r))"
proof -
  have inv: "tmr_inv s" using assms by (rule tmr_run_inv)
  have "\<exists>r. TMR_FreeTimer s i = Some r" "\<exists>r. TMR_StopTimer s i = Some r" for i
    using TMR_FreeTimer_ok [OF inv, of i] TMR_StopTimer_ok [OF inv, of i] by blast+
  moreover have "\<exists>r. TMR_StartTimer s now i type ms cb prm = Some r" if "type AND mTimerType_c = type"
    for now i type ms cb prm using start_total [OF inv that, of now i ms cb prm] by blast
  moreover have "\<exists>r. TMR_Task call current rd fin s = Some r" if "client_call call" for call current rd fin
    using TMR_Task_total [OF inv client_calls_safe [OF that], of current rd fin] by blast
  ultimately show ?thesis
    using inv alloc_total [OF inv] enable_total [OF inv] sync_total [OF inv] by blast
qed

text \<open>A state with a timer allocated and started, used by the witnesses.\<close>

definition tmr0 :: tmr_state where "tmr0 = snd (TMR_Init 32768 (False, tmr_boot))"

definition tmr1 :: tmr_state where
  "tmr1 = (case TMR_AllocateTimer tmr0 of Some (i, s) \<Rightarrow> s | None \<Rightarrow> tmr0)"

lemma tmr0_inv: "tmr_inv tmr0" unfolding tmr0_def by (rule tmr_boot_inv)

lemma tmr1_inv: "tmr_inv tmr1"
  using alloc_total [OF tmr0_inv] by (auto simp: tmr1_def)

lemma tmr1_alloc: "TMR_AllocateTimer tmr0 = Some (0, tmr1)" "tstat tmr1 0 = 0x80"
proof -
  have z: "maTmrTimerStatusTable tmr0 = replicate 9 0"
    by (simp add: tmr0_def TMR_Init_def tmr_boot_def TMR_NotifyClkChanged_def Let_def)
  have "TMR_AllocateTimer tmr0 = Some (0, tmr0\<lparr>maTmrTimerStatusTable := (maTmrTimerStatusTable tmr0)[0 := 0x80]\<rparr>)"
    by (simp add: TMR_AllocateTimer_def TMR_IsTimerAllocated_def TMR_SetTimerStatus_def z eval_nat_numeral)
  then show "TMR_AllocateTimer tmr0 = Some (0, tmr1)" "tstat tmr1 0 = 0x80"
    using z by (simp_all add: tmr1_def)
qed

theorem tmr_run_safe_witness:
  "tmr_inv tmr1 \<and> (\<exists>r. TMR_AllocateTimer tmr1 = Some r)"
proof -
  have "tmr_run tmr1"
    by (rule tmr_run.op [OF tmr_run.boot [of 32768, folded tmr0_def]], rule tmr_op.alloc, rule tmr1_alloc)
  then show ?thesis using tmr_run_safe by blast
qed

text \<open>C40: allocating returns the least free identifier, which becomes inactive and leaves every other
  timer as it is, or 0xFF when all nine are in use; freeing the
  identifier at once gives back the tables as they were.\<close>

theorem tmr_alloc_free:
  assumes "tmr_inv s"
  shows "\<exists>i s'. TMR_AllocateTimer s = Some (i, s') \<and>
    (if \<exists>j < gTmrTotalTimers_c. maTmrTimerStatusTable s ! j = 0
     then unat i < gTmrTotalTimers_c \<and> tstat s i = 0 \<and> (\<forall>j < unat i. maTmrTimerStatusTable s ! j \<noteq> 0) \<and>
       s' = s\<lparr>maTmrTimerStatusTable := (maTmrTimerStatusTable s)[unat i := mTmrStatusInactive_c]\<rparr> \<and>
       (\<exists>s''. TMR_FreeTimer s' i = Some (gTmrSuccess_c, s'') \<and>
         maTmrTimerStatusTable s'' = maTmrTimerStatusTable s \<and> maTmrTimerTable s'' = maTmrTimerTable s)
     else i = gTmrInvalidTimerID_c \<and> s' = s)"
proof -
  have le: "(0 :: nat) + 9 \<le> 9" by simp
  obtain r s' where a: "TMR_AllocateTimer s = Some (r, s')" "tmr_inv s'"
    "if \<exists>j \<in> {0..<0 + 9}. maTmrTimerStatusTable s ! j = 0
     then \<exists>j. 0 \<le> j \<and> j < 0 + 9 \<and> r = of_nat j \<and> maTmrTimerStatusTable s ! j = 0 \<and>
       (\<forall>l. 0 \<le> l \<longrightarrow> l < j \<longrightarrow> maTmrTimerStatusTable s ! l \<noteq> 0) \<and>
       s' = s\<lparr>maTmrTimerStatusTable := (maTmrTimerStatusTable s)[j := mTmrStatusInactive_c]\<rparr>
     else r = gTmrInvalidTimerID_c \<and> s' = s"
    using TMR_AllocateTimer_from_ok [OF assms le] unfolding TMR_AllocateTimer_def by blast
  show ?thesis
  proof (cases "\<exists>j < 9. maTmrTimerStatusTable s ! j = 0")
    case False
    then show ?thesis using a by (intro exI [of _ r] exI [of _ s']) auto
  next
    case True
    then have ex: "\<exists>j \<in> {0..<0 + 9}. maTmrTimerStatusTable s ! j = 0" by auto
    obtain j where j: "j < 9" "r = of_nat j" "maTmrTimerStatusTable s ! j = 0"
      "\<forall>l < j. maTmrTimerStatusTable s ! l \<noteq> 0"
      "s' = s\<lparr>maTmrTimerStatusTable := (maTmrTimerStatusTable s)[j := mTmrStatusInactive_c]\<rparr>"
      using a(3) unfolding if_P [OF ex] by auto
    have r: "unat r = j" using j(1,2) by (simp add: unat_of_nat)
    obtain s'' where "TMR_FreeTimer s' r = Some (gTmrSuccess_c, s'')" "maTmrTimerTable s'' = maTmrTimerTable s'"
      "maTmrTimerStatusTable s'' = (maTmrTimerStatusTable s')[j := 0]"
      using TMR_FreeTimer_ok [OF a(2), of r] j(1) r by auto
    moreover have "(maTmrTimerStatusTable s)[j := 0] = maTmrTimerStatusTable s" using j(3) by (metis list_update_id)
    ultimately show ?thesis using True a(1) j r by (intro exI [of _ r] exI [of _ s']) simp
  qed
qed

theorem tmr_alloc_free_witness: "\<exists>i s'. TMR_AllocateTimer tmr1 = Some (i, s')"
  using tmr_alloc_free [OF tmr1_inv] by blast

lemma status_after_running: "running (status_after el v e) \<longleftrightarrow> running v \<and> \<not> (expires el v e \<and> one_shot v)"
  by (auto simp: status_after_def running_cases expires_def ready_not_active)

lemma status_after_running_active: "running (status_after el v e) \<Longrightarrow> is_active (status_after el v e)"
  by (auto simp: status_after_def running_cases split: if_splits)

lemma some_running:
  assumes "tmr_inv s"
  shows "(numberOfActiveTimers s \<noteq> 0 \<or> numberOfLowPowerActiveTimers s \<noteq> 0) \<longleftrightarrow>
    (\<exists>j < 9. running (maTmrTimerStatusTable s ! j))"
proof -
  have "(numberOfActiveTimers s = 0 \<and> numberOfLowPowerActiveTimers s = 0) \<longleftrightarrow>
      (\<forall>v \<in> set (maTmrTimerStatusTable s). \<not> running v)"
    using assms by (auto simp: tmr_inv_def filter_empty_conv simp flip: unat_eq_0)
  then show ?thesis using assms by (auto simp: tmr_inv_def all_set_conv_all_nth in_set_conv_nth)
qed

lemma task_end_fields [simp]:
  "maTmrTimerTable (task_end c s) = maTmrTimerTable s" "maTmrTimerStatusTable (task_end c s) = maTmrTimerStatusTable s"
  "previousTimeInTicks (task_end c s) = previousTimeInTicks s" "mCounterFreqHz (task_end c s) = mCounterFreqHz s"
  "numberOfActiveTimers (task_end c s) = numberOfActiveTimers s"
  "numberOfLowPowerActiveTimers (task_end c s) = numberOfLowPowerActiveTimers s"
  by (simp_all add: task_end_def)

lemma task_end_running:
  "tmr_inv s \<Longrightarrow> timerHardwareIsRunning (task_end c s) \<longleftrightarrow> (\<exists>j < 9. running (maTmrTimerStatusTable s ! j))"
  by (simp only: some_running [symmetric]) (auto simp: task_end_def)

lemma task_end_compare:
  "tmr_inv s \<Longrightarrow> \<exists>j < 9. running (maTmrTimerStatusTable s ! j) \<Longrightarrow> hw_compare (task_end c s) = c"
  by (simp only: some_running [symmetric]) (simp add: task_end_def)

text \<open>A timer of 100 milliseconds started on it.\<close>

definition tmr2 :: tmr_state where
  "tmr2 = (case TMR_StartTimer tmr1 0 0 gTmrSingleShotTimer_c 100 0x1000 7 of Some (err, s) \<Rightarrow> s | None \<Rightarrow> tmr1)"

lemma tmr2_inv: "tmr_inv tmr2"
  using start_total [OF tmr1_inv, of 1 0 0 100 "0x1000" 7] by (auto simp: tmr2_def)

lemma tmr2_table: "maTmrTimerStatusTable tmr2 = [0x41, 0, 0, 0, 0, 0, 0, 0, 0]" "mTicksFor4ms tmr2 = 131"
  by code_simp+

text \<open>C37: one run of the timer task, with callbacks that leave the timers alone. It makes exactly the
  callbacks of the timers that expire, in the order of the table; a timer just started becomes active; an
  active one with more than the elapsed ticks left loses them; an expired one stops, or is reloaded with its
  interval; the others are untouched, and the hardware timer is left running exactly when a timer is.\<close>

theorem tmr_task_pass:
  fixes current :: u16
  assumes inv: "tmr_inv s"
  defines "el \<equiv> current - previousTimeInTicks s"
  shows "\<exists>s'. TMR_Task quiet current rd fin s = Some (s', map of_nat (filter (\<lambda>j.
        is_active (maTmrTimerStatusTable s ! j) \<and> remainingTicks (maTmrTimerTable s ! j) \<le> ucast el \<and>
        pfCallBack (maTmrTimerTable s ! j) \<noteq> NULL) [0..<gTmrTotalTimers_c])) \<and>
    tmr_inv s' \<and> previousTimeInTicks s' = current \<and>
    (timerHardwareIsRunning s' \<longleftrightarrow> (\<exists>j < gTmrTotalTimers_c. running (maTmrTimerStatusTable s' ! j))) \<and>
    (\<forall>j < gTmrTotalTimers_c. let v = maTmrTimerStatusTable s ! j; e = maTmrTimerTable s ! j;
        v' = maTmrTimerStatusTable s' ! j; e' = maTmrTimerTable s' ! j in
      (is_ready v \<longrightarrow> v' = active v \<and> e' = e) \<and>
      (is_active v \<and> ucast el < remainingTicks e \<longrightarrow>
        v' = v \<and> e' = e\<lparr>remainingTicks := remainingTicks e - ucast el, timestamp := rd j\<rparr>) \<and>
      (is_active v \<and> remainingTicks e \<le> ucast el \<and> one_shot v \<longrightarrow> v' = inactive v \<and> e' = e\<lparr>remainingTicks := 0\<rparr>) \<and>
      (is_active v \<and> remainingTicks e \<le> ucast el \<and> \<not> one_shot v \<longrightarrow>
        v' = v \<and> e' = e\<lparr>remainingTicks := intervalInTicks e, timestamp := rd j\<rparr>) \<and>
      (\<not> running v \<longrightarrow> v' = v \<and> e' = e))"
proof -
  obtain s1 where s1: "TMR_Task quiet current rd fin s =
      Some (task_end (next_interrupt s current fin (next_of el s [0..<9] (mMaxToCountDown s))) s1, callbacks_of el s [0..<9])"
    "tmr_inv s1" "after_run el rd {0..<9} s s1" "previousTimeInTicks s1 = current"
    using TMR_Task_quiet [OF inv, of current rd fin] unfolding el_def by blast
  have pw: "maTmrTimerStatusTable s1 ! j = status_after el (maTmrTimerStatusTable s ! j) (maTmrTimerTable s ! j)"
    "maTmrTimerTable s1 ! j = entry_after el (rd j) (maTmrTimerStatusTable s ! j) (maTmrTimerTable s ! j)" if "j < 9" for j
    using s1(3) that by (simp_all add: after_run_def)
  have calls: "callbacks_of el s [0..<9] = map of_nat (filter (\<lambda>j.
        is_active (maTmrTimerStatusTable s ! j) \<and> remainingTicks (maTmrTimerTable s ! j) \<le> ucast el \<and>
        pfCallBack (maTmrTimerTable s ! j) \<noteq> NULL) [0..<9])"
    by (simp only: callbacks_of_def calls_back_def expires_def conj_assoc)
  show ?thesis
    unfolding s1(1) calls
    by (intro exI conjI, rule refl, rule task_end_inv [OF s1(2)], simp add: s1(4), simp add: task_end_running [OF s1(2)])
      (auto simp: Let_def pw status_after_def entry_after_def expires_def running_cases ready_not_active not_le)
qed

theorem tmr_task_pass_witness:
  "\<exists>s'. TMR_Task quiet 5 (\<lambda>j. 5) 5 tmr2 = Some (s', []) \<and> tmr_inv s' \<and> previousTimeInTicks s' = 5"
proof -
  have "\<forall>v \<in> set (maTmrTimerStatusTable tmr2). \<not> is_active v" by (simp add: is_active_def tmr2_table(1))
  then have "\<not> is_active (maTmrTimerStatusTable tmr2 ! j)" if "j < 9" for j
    using that tmr2_inv by (simp add: tmr_inv_def)
  then have none: "filter (\<lambda>j. is_active (maTmrTimerStatusTable tmr2 ! j) \<and> P j) [0..<9] = []" for P
    by (auto simp: filter_empty_conv)
  show ?thesis using tmr_task_pass [OF tmr2_inv, of 5 "\<lambda>j. 5" 5] unfolding none list.map by blast
qed

text \<open>C38: the next interrupt, after a run whose callbacks call nothing of the manager and that is itself done
  before the counter laps. Let \<open>m\<close> be the least of the ticks that the running timers have left and of the longest
  count allowed. The compare value is \<open>m\<close> ticks after the reading that the run began with, or four milliseconds
  after the one it ended with, whichever is later. So it never lies in the past, a timer that has at least four
  milliseconds left when the run ends is served at its expiry or before, and one that has less is served late, four
  milliseconds after the end of the run.\<close>

theorem tmr_next_interrupt:
  assumes inv: "tmr_inv s" and lap: "unat (fin - current) + unat (mTicksFor4ms s) < 2 ^ 16"
  shows "\<exists>s' fired. TMR_Task quiet current rd fin s = Some (s', fired) \<and>
    ((\<exists>j < gTmrTotalTimers_c. running (maTmrTimerStatusTable s' ! j)) \<longrightarrow>
      unat (mTicksFor4ms s) \<le> unat (hw_compare s' - fin) \<and>
      (\<exists>m \<le> unat (mMaxToCountDown s).
        (\<forall>j < gTmrTotalTimers_c. running (maTmrTimerStatusTable s' ! j) \<longrightarrow>
          m \<le> unat (remainingTicks (maTmrTimerTable s' ! j))) \<and>
        (m = unat (mMaxToCountDown s) \<or> (\<exists>j < gTmrTotalTimers_c. running (maTmrTimerStatusTable s' ! j) \<and>
          m = unat (remainingTicks (maTmrTimerTable s' ! j)))) \<and>
        unat (hw_compare s' - current) = max m (unat (fin - current) + unat (mTicksFor4ms s))))"
proof -
  define el where "el = current - previousTimeInTicks s"
  define nxt where "nxt = next_of el s [0..<9] (mMaxToCountDown s)"
  define d where "d = fin - current"
  define n where "n = (if d \<ge> nxt then d + mTicksFor4ms s else if nxt - d < mTicksFor4ms s then d + mTicksFor4ms s else nxt)"
  obtain s1 where s1: "TMR_Task quiet current rd fin s = Some (task_end (n + current) s1, callbacks_of el s [0..<9])"
    "tmr_inv s1" "after_run el rd {0..<9} s s1"
    using TMR_Task_quiet [OF inv, of current rd fin]
    unfolding el_def [symmetric] nxt_def [symmetric] next_interrupt_def Let_def d_def [symmetric] n_def [symmetric] by blast
  let ?s = "task_end (n + current) s1"
  have sum: "unat (d + mTicksFor4ms s) = unat d + unat (mTicksFor4ms s)"
    using lap by (simp add: d_def unat_word_ariths)
  have n: "unat (mTicksFor4ms s) \<le> unat (n - d)" "unat n = max (unat nxt) (unat d + unat (mTicksFor4ms s))"
    using sum by (auto simp: n_def word_less_nat_alt not_le word_le_nat_alt unat_sub max_def)
  have nd: "n + current - fin = n - d" by (simp add: d_def)
  have b: "unat nxt \<le> unat (mMaxToCountDown s)"
    "\<forall>j < 9. active_after el s j \<longrightarrow> unat nxt \<le> unat (left_after el s j)"
    "nxt = mMaxToCountDown s \<or> (\<exists>j < 9. active_after el s j \<and> unat nxt = unat (left_after el s j))"
    using next_of_bounds [of el s "[0..<9]" "mMaxToCountDown s"] by (auto simp: nxt_def)
  have r: "running (maTmrTimerStatusTable s1 ! j) = active_after el s j"
    "running (maTmrTimerStatusTable s1 ! j) \<Longrightarrow> remainingTicks (maTmrTimerTable s1 ! j) = left_after el s j" if "j < 9" for j
    using s1(3) that status_after_running_active
    by (auto simp: after_run_def active_after_def left_after_def entry_after_remaining [of el "rd j" _ _ 0] running_def is_active_def)
  have same: "maTmrTimerStatusTable ?s = maTmrTimerStatusTable s1" "maTmrTimerTable ?s = maTmrTimerTable s1"
    by (simp_all add: task_end_def)
  have "unat (mTicksFor4ms s) \<le> unat (hw_compare ?s - fin) \<and>
      (\<exists>m \<le> unat (mMaxToCountDown s).
        (\<forall>j < gTmrTotalTimers_c. running (maTmrTimerStatusTable ?s ! j) \<longrightarrow>
          m \<le> unat (remainingTicks (maTmrTimerTable ?s ! j))) \<and>
        (m = unat (mMaxToCountDown s) \<or> (\<exists>j < gTmrTotalTimers_c. running (maTmrTimerStatusTable ?s ! j) \<and>
          m = unat (remainingTicks (maTmrTimerTable ?s ! j)))) \<and>
        unat (hw_compare ?s - current) = max m (unat (fin - current) + unat (mTicksFor4ms s)))"
    if some: "\<exists>j < gTmrTotalTimers_c. running (maTmrTimerStatusTable ?s ! j)"
  proof -
    have h: "hw_compare ?s = n + current" using task_end_compare [OF s1(2)] some same by simp
    have all: "\<forall>j < gTmrTotalTimers_c. running (maTmrTimerStatusTable ?s ! j) \<longrightarrow>
        unat nxt \<le> unat (remainingTicks (maTmrTimerTable ?s ! j))"
      unfolding same using b(2) r by metis
    have att: "unat nxt = unat (mMaxToCountDown s) \<or> (\<exists>j < gTmrTotalTimers_c. running (maTmrTimerStatusTable ?s ! j) \<and>
        unat nxt = unat (remainingTicks (maTmrTimerTable ?s ! j)))"
      unfolding same using b(3) r by metis
    have "unat (hw_compare ?s - current) = max (unat nxt) (unat (fin - current) + unat (mTicksFor4ms s))"
      unfolding h d_def [symmetric] using n(2) by simp
    then show ?thesis using n(1) b(1) all att unfolding h nd by blast
  qed
  then show ?thesis using s1(1) by (intro exI conjI) (assumption, blast)
qed

theorem tmr_next_interrupt_witness: "\<exists>s' fired. TMR_Task quiet 5 (\<lambda>j. 6) 7 tmr2 = Some (s', fired)"
proof -
  have "mTicksFor4ms tmr2 = 131" by (rule tmr2_table)
  then show ?thesis using tmr_next_interrupt [OF tmr2_inv, of 7 5 "\<lambda>j. 6"] by auto
qed

text \<open>Runs of the task at given readings of the counter, and the ticks that pass over them.\<close>

fun task_runs :: "tmr_state \<Rightarrow> u16 list \<Rightarrow> (tmr_state \<times> u8 list list) option" where
  "task_runs s [] = Some (s, [])"
| "task_runs s (c # cs) = do {
     (s, fired) \<leftarrow> TMR_Task quiet c (\<lambda>j. c) c s;
     (s, fs) \<leftarrow> task_runs s cs;
     Some (s, fired # fs) }"

fun ticks_over :: "u16 \<Rightarrow> u16 list \<Rightarrow> nat" where
  "ticks_over p [] = 0"
| "ticks_over p (c # cs) = unat (c - p) + ticks_over c cs"

text \<open>The conversion does not overflow.\<close>

lemma ticks_unat: "unat (TmrTicksFromMilliseconds s ms) = unat ms * unat (mCounterFreqHz s) div 1000"
proof -
  have "unat ms * unat (mCounterFreqHz s) < 2 ^ 32 * 2 ^ 32"
    using word_nat_less_len [of ms] word_nat_less_len [of "mCounterFreqHz s"] by (intro mult_strict_mono) simp_all
  then show ?thesis by (simp add: TmrTicksFromMilliseconds_def unat_word_ariths unat_ucast_up)
qed

lemma task_runs_step:
  assumes "tmr_inv s" "unat i < 9"
  shows "\<exists>s'. TMR_Task quiet c rd fin s = Some (s', callbacks_of (c - previousTimeInTicks s) s [0..<9]) \<and>
    tmr_inv s' \<and> previousTimeInTicks s' = c \<and>
    tstat s' i = status_after (c - previousTimeInTicks s) (tstat s i) (tentry s i) \<and>
    tentry s' i = entry_after (c - previousTimeInTicks s) (rd (unat i)) (tstat s i) (tentry s i)"
proof -
  obtain s1 cmp where s1: "TMR_Task quiet c rd fin s =
      Some (task_end cmp s1, callbacks_of (c - previousTimeInTicks s) s [0..<9])"
    "tmr_inv s1" "after_run (c - previousTimeInTicks s) rd {0..<9} s s1" "previousTimeInTicks s1 = c"
    using TMR_Task_quiet [OF assms(1), of c rd fin] by blast
  then show ?thesis using assms(2) task_end_inv [OF s1(2)]
    by (intro exI [of _ "task_end cmp s1"]) (simp add: after_run_def)
qed

lemma callbacks_iff:
  assumes "unat i < 9"
  shows "i \<in> set (callbacks_of el s [0..<9]) \<longleftrightarrow> calls_back el (tstat s i) (tentry s i)"
proof -
  have "of_nat j = i \<longleftrightarrow> j = unat i" if "j < 9" for j
    using that by (auto simp: unat_of_nat)
  then show ?thesis using assms by (fastforce simp: callbacks_of_def)
qed

lemma runs_idle:
  assumes "tmr_inv s" "unat i < 9" "\<not> running (tstat s i)"
  shows "\<exists>s' fs. task_runs s cs = Some (s', fs) \<and> length fs = length cs \<and> (\<forall>f \<in> set fs. i \<notin> set f) \<and>
    \<not> running (tstat s' i)"
  using assms(1,3)
proof (induction cs arbitrary: s)
  case (Cons c cs)
  obtain s1 where s1: "TMR_Task quiet c (\<lambda>j. c) c s = Some (s1, callbacks_of (c - previousTimeInTicks s) s [0..<9])"
    "tmr_inv s1" "tstat s1 i = status_after (c - previousTimeInTicks s) (tstat s i) (tentry s i)"
    using task_runs_step [OF Cons.prems(1) assms(2), of c "\<lambda>j. c" c] by blast
  have "\<not> running (tstat s1 i)" "i \<notin> set (callbacks_of (c - previousTimeInTicks s) s [0..<9])"
    using Cons.prems(2) unfolding s1(3) status_after_running callbacks_iff [OF assms(2)] calls_back_def expires_def
    by (simp_all add: running_cases)
  then show ?case using Cons.IH [OF s1(2)] s1(1) by force
qed simp

lemma runs_one_shot:
  assumes "tmr_inv s" "unat i < 9" "is_active (tstat s i)" "one_shot (tstat s i)" "pfCallBack (tentry s i) \<noteq> NULL"
    "0 < unat (remainingTicks (tentry s i))"
  shows "\<exists>s' fs. task_runs s cs = Some (s', fs) \<and> length fs = length cs \<and>
    (\<forall>k < length cs. i \<in> set (fs ! k) \<longleftrightarrow> ticks_over (previousTimeInTicks s) (take k cs) < unat (remainingTicks (tentry s i)) \<and>
      unat (remainingTicks (tentry s i)) \<le> ticks_over (previousTimeInTicks s) (take (Suc k) cs)) \<and>
    (running (tstat s' i) \<longleftrightarrow> ticks_over (previousTimeInTicks s) cs < unat (remainingTicks (tentry s i)))"
  using assms
proof (induction cs arbitrary: s)
  case (Cons c cs)
  define el where "el = c - previousTimeInTicks s"
  define v where "v = tstat s i"
  define e where "e = tentry s i"
  obtain s1 where s1: "TMR_Task quiet c (\<lambda>j. c) c s = Some (s1, callbacks_of el s [0..<9])"
    "tmr_inv s1" "previousTimeInTicks s1 = c" "tstat s1 i = status_after el v e" "tentry s1 i = entry_after el c v e"
    using task_runs_step [OF Cons.prems(1,2), of c "\<lambda>j. c" c] unfolding el_def v_def e_def by blast
  have fire: "i \<in> set (callbacks_of el s [0..<9]) \<longleftrightarrow> expires el v e"
    using Cons.prems(5) by (simp add: callbacks_iff [OF Cons.prems(2)] calls_back_def v_def e_def)
  have exp: "expires el v e \<longleftrightarrow> unat (remainingTicks e) \<le> unat el"
    using Cons.prems(3) by (simp add: expires_def v_def word_le_nat_alt unat_ucast_up)
  have nr: "\<not> is_ready v" using Cons.prems(3) ready_not_active v_def by blast
  show ?case
  proof (cases "expires el v e")
    case True
    then have "\<not> running (tstat s1 i)" using Cons.prems(4) by (simp add: s1(4) status_after_running v_def)
    then obtain s2 fs where s2: "task_runs s1 cs = Some (s2, fs)" "length fs = length cs" "\<forall>f \<in> set fs. i \<notin> set f"
      "\<not> running (tstat s2 i)"
      using runs_idle [OF s1(2) Cons.prems(2)] by blast
    have "i \<in> set ((callbacks_of el s [0..<9] # fs) ! k) \<longleftrightarrow>
        ticks_over (previousTimeInTicks s) (take k (c # cs)) < unat (remainingTicks e) \<and>
        unat (remainingTicks e) \<le> ticks_over (previousTimeInTicks s) (take (Suc k) (c # cs))" if "k < length (c # cs)" for k
      using that s2(2,3) True exp fire Cons.prems(6) by (cases k) (auto simp: el_def e_def nth_mem)
    then show ?thesis using s1(1) s2 True exp
      by (intro exI [of _ s2] exI [of _ "callbacks_of el s [0..<9] # fs"]) (simp add: el_def e_def)
  next
    case False
    then have lt: "unat el < unat (remainingTicks e)" using exp by simp
    have st: "tstat s1 i = v" using False nr by (simp add: s1(4) status_after_def)
    have "tentry s1 i = e\<lparr>remainingTicks := remainingTicks e - ucast el, timestamp := c\<rparr>"
      using False Cons.prems(3) by (simp add: s1(5) entry_after_def v_def)
    moreover have "unat (remainingTicks e - ucast el) = unat (remainingTicks e) - unat el"
      using lt by (simp add: unat_sub word_le_nat_alt unat_ucast_up)
    ultimately have e1: "unat (remainingTicks (tentry s1 i)) = unat (remainingTicks e) - unat el"
      "pfCallBack (tentry s1 i) = pfCallBack e" by simp_all
    obtain s2 fs where s2: "task_runs s1 cs = Some (s2, fs)" "length fs = length cs"
      "\<forall>k < length cs. i \<in> set (fs ! k) \<longleftrightarrow> ticks_over c (take k cs) < unat (remainingTicks e) - unat el \<and>
        unat (remainingTicks e) - unat el \<le> ticks_over c (take (Suc k) cs)"
      "running (tstat s2 i) \<longleftrightarrow> ticks_over c cs < unat (remainingTicks e) - unat el"
      using Cons.IH [OF s1(2) Cons.prems(2)] Cons.prems(3-5) lt unfolding st e1 s1(3) v_def e_def by auto
    have "i \<in> set ((callbacks_of el s [0..<9] # fs) ! k) \<longleftrightarrow>
        ticks_over (previousTimeInTicks s) (take k (c # cs)) < unat (remainingTicks e) \<and>
        unat (remainingTicks e) \<le> ticks_over (previousTimeInTicks s) (take (Suc k) (c # cs))" if "k < length (c # cs)" for k
      using that s2(3) False lt fire by (cases k) (auto simp flip: el_def)
    then show ?thesis using s1(1) s2 lt
      by (intro exI [of _ s2] exI [of _ "callbacks_of el s [0..<9] # fs"]) (auto simp flip: el_def e_def)
  qed
qed (simp add: running_cases)

text \<open>C36: a one-shot timer fires exactly once and on time. Start it, let the task run at any sequence of
  readings of the counter: the first run arms it, and its callback is made in exactly that later run in
  which the ticks since then first reach the interval, in no run before and in none after; until then the
  timer is running, and from then on it is not.\<close>

theorem tmr_one_shot_fires:
  fixes ms :: u32
  assumes "tmr_inv s" "unat i < gTmrTotalTimers_c" "tstat s i \<noteq> 0" "cb \<noteq> NULL"
  defines "t \<equiv> max 1 (unat ms * unat (mCounterFreqHz s) div 1000)"
  shows "\<exists>s1 s2 first fs. TMR_StartSingleShotTimer s now i ms cb prm = Some (gTmrSuccess_c, s1) \<and>
    task_runs s1 (c # cs) = Some (s2, first # fs) \<and> i \<notin> set first \<and> length fs = length cs \<and>
    (\<forall>k < length cs. i \<in> set (fs ! k) \<longleftrightarrow> ticks_over c (take k cs) < t \<and> t \<le> ticks_over c (take (Suc k) cs)) \<and>
    (running (tstat s2 i) \<longleftrightarrow> ticks_over c cs < t)"
proof -
  obtain s1 w where s1: "TMR_StartSingleShotTimer s now i ms cb prm = Some (gTmrSuccess_c, s1)" "tmr_inv s1"
    "maTmrTimerTable s1 = (maTmrTimerTable s)[unat i := started_entry s now ms cb prm]"
    "maTmrTimerStatusTable s1 = (maTmrTimerStatusTable s)[unat i := w]"
    "w AND 0xE0 = mTmrStatusReady_c" "w AND 0x1F = gTmrSingleShotTimer_c"
    using TMR_StartTimer_ok [OF assms(1-3), of gTmrSingleShotTimer_c now ms cb prm]
    unfolding TMR_StartSingleShotTimer_def by auto
  have st: "tstat s1 i = w" "tentry s1 i = started_entry s now ms cb prm"
    using assms(2) tmr_inv_lengths [OF assms(1)] by (simp_all add: s1(3,4))
  have w: "is_ready w" "one_shot (active w)" "is_active (active w)"
    using s1(5,6) one_shot_type [of "active w"] by (simp_all add: is_ready_def one_shot_def)
  have e: "unat (remainingTicks (started_entry s now ms cb prm)) = t" "pfCallBack (started_entry s now ms cb prm) = cb"
    using ticks_unat [of s ms] by (auto simp: started_entry_def Let_def t_def simp flip: unat_eq_0)
  obtain s2 where s2: "TMR_Task quiet c (\<lambda>j. c) c s1 = Some (s2, callbacks_of (c - previousTimeInTicks s1) s1 [0..<9])"
    "tmr_inv s2" "previousTimeInTicks s2 = c" "tstat s2 i = active w" "tentry s2 i = started_entry s now ms cb prm"
    using task_runs_step [OF s1(2) assms(2), of c "\<lambda>j. c" c] w(1) ready_not_active [OF w(1)]
    unfolding st status_after_def entry_after_def by auto
  have tpos: "0 < t" by (simp add: t_def)
  have "i \<notin> set (callbacks_of (c - previousTimeInTicks s1) s1 [0..<9])"
    using ready_not_active [OF w(1)] by (simp add: callbacks_iff [OF assms(2)] st calls_back_def expires_def)
  moreover obtain s3 fs where "task_runs s2 cs = Some (s3, fs)" "length fs = length cs"
    "\<forall>k < length cs. i \<in> set (fs ! k) \<longleftrightarrow> ticks_over c (take k cs) < t \<and> t \<le> ticks_over c (take (Suc k) cs)"
    "running (tstat s3 i) \<longleftrightarrow> ticks_over c cs < t"
    using runs_one_shot [OF s2(2) assms(2), of cs, unfolded s2(3-5) e, OF w(3,2) assms(4) tpos] by blast
  ultimately show ?thesis using s1(1) s2(1) by (intro exI [of _ s1] exI [of _ s3] exI) simp
qed

theorem tmr_one_shot_fires_witness:
  "\<exists>s1 s2 first fs. TMR_StartSingleShotTimer tmr1 0 0 1000 0x1000 7 = Some (gTmrSuccess_c, s1) \<and>
     task_runs s1 [100, 20100, 40100, 50100] = Some (s2, first # fs) \<and>
     0 \<notin> set (fs ! 0) \<and> 0 \<in> set (fs ! 1) \<and> 0 \<notin> set (fs ! 2)"
proof -
  have f: "mCounterFreqHz tmr1 = 32768" by code_simp
  have P: "unat (0 :: u8) < 9" "tstat tmr1 0 \<noteq> 0" "(0x1000 :: ptr) \<noteq> 0" using tmr1_alloc(2) by simp_all
  obtain s1 s2 first fs where r: "TMR_StartSingleShotTimer tmr1 0 0 1000 0x1000 7 = Some (gTmrSuccess_c, s1)"
    "task_runs s1 [100, 20100, 40100, 50100] = Some (s2, first # fs)"
    "\<forall>k < length [20100, 40100, 50100 :: u16]. 0 \<in> set (fs ! k) \<longleftrightarrow>
       ticks_over 100 (take k [20100, 40100, 50100]) < max 1 (unat (1000 :: u32) * unat (mCounterFreqHz tmr1) div 1000) \<and>
       max 1 (unat (1000 :: u32) * unat (mCounterFreqHz tmr1) div 1000) \<le> ticks_over 100 (take (Suc k) [20100, 40100, 50100])"
    using tmr_one_shot_fires [OF tmr1_inv P, of 0 1000 7 100 "[20100, 40100, 50100]"] by blast
  have "0 \<notin> set (fs ! 0)" using spec [OF r(3), of 0] by (simp add: f)
  moreover have "0 \<in> set (fs ! 1)" using spec [OF r(3), of 1] by (simp add: f)
  moreover have "0 \<notin> set (fs ! 2)" using spec [OF r(3), of 2] by (simp add: f)
  ultimately show ?thesis using r(1,2) by blast
qed

text \<open>The time left, without overflow: the ticks left rounded up to milliseconds.\<close>

definition ms_left :: "nat \<Rightarrow> nat \<Rightarrow> nat" where
  "ms_left ticks freq = (ticks * 1000 + freq - 1) div freq"

lemma ms_left_ceiling:
  assumes "0 < freq"
  shows "ticks * 1000 \<le> ms_left ticks freq * freq" "ms_left ticks freq * freq < ticks * 1000 + freq"
proof -
  let ?a = "ticks * 1000 + freq - 1"
  have "?a = ?a div freq * freq + ?a mod freq" by simp
  moreover have "?a mod freq < freq" using assms by simp
  ultimately show "ticks * 1000 \<le> ms_left ticks freq * freq" "ms_left ticks freq * freq < ticks * 1000 + freq"
    using assms unfolding ms_left_def by linarith+
qed

lemma ms_left_unique:
  assumes "0 < freq" "ticks * 1000 \<le> m * freq" "m * freq < ticks * 1000 + freq"
  shows "ms_left ticks freq = m"
proof -
  have "ticks * 1000 + freq - 1 = m * freq + (ticks * 1000 + freq - 1 - m * freq)" using assms by simp
  moreover have "ticks * 1000 + freq - 1 - m * freq < freq" using assms by linarith
  ultimately show ?thesis unfolding ms_left_def using assms(1)
    by (metis div_mult_self3 div_less add.commute add_cancel_right_right not_less0 neq0_conv)
qed

lemma ms_left_start:
  assumes "1000 \<le> freq"
  shows "ms_left (ms * freq div 1000) freq = ms"
proof (rule ms_left_unique)
  have "ms * freq = ms * freq div 1000 * 1000 + ms * freq mod 1000" "ms * freq mod 1000 < 1000" by simp_all
  then show "ms * freq div 1000 * 1000 \<le> ms * freq" "ms * freq < ms * freq div 1000 * 1000 + freq"
    using assms by linarith+
qed (use assms in simp)

lemma remaining_time_at:
  assumes inv: "tmr_inv s" and i: "unat i < 9" "tstat s i \<noteq> 0" and f: "mCounterFreqHz s \<noteq> 0"
    and cur: "cur = (if now < timestamp (tentry s i) then now + gStackTimerMaxCountValue_c else now)"
    and el: "unat (cur - timestamp (tentry s i)) \<le> unat (remainingTicks (tentry s i))"
    and big: "unat (remainingTicks (tentry s i)) * 1000 \<le> (2 ^ 32 - 1) * unat (mCounterFreqHz s)"
    and pos: "remainingTicks (tentry s i) \<noteq> 0"
  defines "left \<equiv> unat (remainingTicks (tentry s i)) - unat (cur - timestamp (tentry s i))"
  shows "\<exists>r. TMR_GetRemainingTime s now i = Some r \<and> unat r = ms_left left (unat (mCounterFreqHz s))"
proof -
  let ?e = "tentry s i" and ?d = "cur - timestamp (tentry s i)"
  let ?f = "unat (mCounterFreqHz s)"
  let ?w = "((remainingTicks ?e - ucast ?d) * 1000 + ucast (mCounterFreqHz s) - 1) div (ucast (mCounterFreqHz s) :: u64)"
  have f0: "0 < ?f" using f by (simp add: unat_gt_0)
  have fl: "?f < 2 ^ 32" using word_nat_less_len [of "mCounterFreqHz s"] by simp
  have nw: "\<not> ucast ?d > remainingTicks ?e"
    using el by (simp_all add: not_less word_le_nat_alt unat_ucast_up)
  have run: "TMR_GetRemainingTime s now i = Some (ucast ?w)"
    using i f pos nw by (simp add: TMR_GetRemainingTime_def tmr_ops [OF inv i(1)] Let_def cur [symmetric])
  have sub: "unat (remainingTicks ?e - ucast ?d) = left"
    using el by (simp add: left_def unat_sub word_le_nat_alt unat_ucast_up)
  have lb: "left * 1000 \<le> (2 ^ 32 - 1) * ?f" using big unfolding left_def by (meson diff_le_self le_trans mult_le_mono1)
  then have b: "left * 1000 + ?f - 1 < 2 ^ 32 * ?f" "2 ^ 32 * ?f < 2 ^ 64" using f0 fl by (simp_all add: algebra_simps)
  have "unat (x * 1000) = left * 1000" if "unat x = left" for x :: u64
    using b f0 that by (simp add: unat_word_ariths)
  then have m: "unat ((remainingTicks ?e - ucast ?d) * 1000) = left * 1000" using sub by blast
  have "unat (x + ucast (mCounterFreqHz s)) = left * 1000 + ?f" if "unat x = left * 1000" for x :: u64
    using b f0 that by (simp add: unat_word_ariths unat_ucast_up)
  then have "unat ((remainingTicks ?e - ucast ?d) * 1000 + ucast (mCounterFreqHz s)) = left * 1000 + ?f"
    using m by blast
  then have "unat ((remainingTicks ?e - ucast ?d) * 1000 + ucast (mCounterFreqHz s) - 1) = left * 1000 + ?f - 1"
    using f0 by (subst unat_minus_one) (metis add_is_0 less_numeral_extra(3) unat_eq_0, simp)
  then have w: "unat ?w = ms_left left ?f"
    by (simp add: unat_div ms_left_def unat_ucast_up)
  have "ms_left left ?f < 2 ^ 32" using b(1) f0 by (simp add: ms_left_def less_mult_imp_div_less)
  then show ?thesis using run w by (simp add: unat_ucast_mod)
qed

lemma remaining_time:
  assumes "tmr_inv s" "unat i < 9" "tstat s i \<noteq> 0" "mCounterFreqHz s \<noteq> 0" "timestamp (tentry s i) \<le> now"
    "unat (now - timestamp (tentry s i)) \<le> unat (remainingTicks (tentry s i))"
    "unat (remainingTicks (tentry s i)) * 1000 \<le> (2 ^ 32 - 1) * unat (mCounterFreqHz s)"
    "remainingTicks (tentry s i) \<noteq> 0"
  shows "\<exists>r. TMR_GetRemainingTime s now i = Some r \<and>
    unat r = ms_left (unat (remainingTicks (tentry s i)) - unat (now - timestamp (tentry s i))) (unat (mCounterFreqHz s))"
  using remaining_time_at [OF assms(1-4), of now now] assms(5-8) by (simp add: not_less)

text \<open>A reading after the wrap: one tick of the elapsed time is missing.\<close>

lemma remaining_time_wrapped:
  assumes "tmr_inv s" "unat i < 9" "tstat s i \<noteq> 0" "mCounterFreqHz s \<noteq> 0" "now < timestamp (tentry s i)"
    "unat (now + gStackTimerMaxCountValue_c - timestamp (tentry s i)) \<le> unat (remainingTicks (tentry s i))"
    "unat (remainingTicks (tentry s i)) * 1000 \<le> (2 ^ 32 - 1) * unat (mCounterFreqHz s)"
    "remainingTicks (tentry s i) \<noteq> 0"
  shows "\<exists>r. TMR_GetRemainingTime s now i = Some r \<and>
    unat r = ms_left (unat (remainingTicks (tentry s i)) -
      unat (now + gStackTimerMaxCountValue_c - timestamp (tentry s i))) (unat (mCounterFreqHz s))"
  using remaining_time_at [OF assms(1-4), of "now + gStackTimerMaxCountValue_c" now] assms(5-8) by simp

text \<open>C39: the time a timer reports. Right after a start with a time in milliseconds it is that very time, on
  any counter of at least 1 kHz, although the interval is kept in ticks. After \<open>d\<close> more ticks (less than a lap, and
  before the timer task runs and counts them down) it is the ticks left, rounded up to the millisecond, as long as the
  16-bit counter has not wrapped since the start. Once it has, the
  function adds one tick too few to the reading, and it reports the time of one tick more than is left.\<close>

theorem tmr_remaining_time:
  fixes ms :: u32
  assumes inv: "tmr_inv s" and i: "unat i < gTmrTotalTimers_c" "tstat s i \<noteq> 0" and type: "type AND mTimerType_c = type"
    and f: "1000 \<le> unat (mCounterFreqHz s)" and ms: "ms \<noteq> 0"
  defines "t \<equiv> unat ms * unat (mCounterFreqHz s) div 1000"
  shows "\<exists>s'. TMR_StartTimer s now i type ms cb prm = Some (gTmrSuccess_c, s') \<and> TMR_GetRemainingTime s' now i = Some ms \<and>
    (\<forall>d. unat now + unat d < 2 ^ 16 \<longrightarrow> unat d \<le> t \<longrightarrow> (\<exists>r. TMR_GetRemainingTime s' (now + d) i = Some r \<and>
      (t - unat d) * 1000 \<le> unat r * unat (mCounterFreqHz s) \<and>
      unat r * unat (mCounterFreqHz s) < (t - unat d) * 1000 + unat (mCounterFreqHz s))) \<and>
    (\<forall>d. 2 ^ 16 \<le> unat now + unat d \<longrightarrow> unat d \<le> t \<longrightarrow> (\<exists>r. TMR_GetRemainingTime s' (now + d) i = Some r \<and>
      (t - unat d + 1) * 1000 \<le> unat r * unat (mCounterFreqHz s) \<and>
      unat r * unat (mCounterFreqHz s) < (t - unat d + 1) * 1000 + unat (mCounterFreqHz s)))"
proof -
  let ?f = "unat (mCounterFreqHz s)"
  obtain s' w where s': "TMR_StartTimer s now i type ms cb prm = Some (gTmrSuccess_c, s')" "tmr_inv s'" "same_clock s s'"
    "maTmrTimerTable s' = (maTmrTimerTable s)[unat i := started_entry s now ms cb prm]"
    "maTmrTimerStatusTable s' = (maTmrTimerStatusTable s)[unat i := w]" "w AND 0xE0 = mTmrStatusReady_c"
    using TMR_StartTimer_ok [OF inv i type, of now ms cb prm] by blast
  have st: "tstat s' i = w" "tentry s' i = started_entry s now ms cb prm" "w \<noteq> 0" "mCounterFreqHz s' = mCounterFreqHz s"
    using i s'(3,6) tmr_inv_lengths [OF inv] by (auto simp: s'(4,5) same_clock_def)
  have "1 * 1000 \<le> unat ms * ?f" using f ms by (intro mult_le_mono) (simp_all add: unat_pos Suc_leI)
  then have t1: "1 \<le> t" by (simp add: t_def)
  then have tick: "TmrTicksFromMilliseconds s ms \<noteq> 0" using ticks_unat [of s ms] by (auto simp: t_def)
  then have e: "unat (remainingTicks (tentry s' i)) = t" "timestamp (tentry s' i) = now" "remainingTicks (tentry s' i) \<noteq> 0"
    by (simp_all add: st(2) started_entry_def Let_def ticks_unat t_def)
  have "t * 1000 \<le> unat ms * ?f" by (simp add: t_def)
  also have "\<dots> \<le> (2 ^ 32 - 1) * ?f" using word_nat_less_len [of ms] by (intro mult_le_mono1) simp
  finally have big: "t * 1000 \<le> (2 ^ 32 - 1) * ?f" .
  have f0: "mCounterFreqHz s \<noteq> 0" "0 < ?f" using f by auto
  have get: "\<exists>r. TMR_GetRemainingTime s' (now + d) i = Some r \<and> unat r = ms_left (t - unat d) ?f"
    if "unat now + unat d < 2 ^ 16" "unat d \<le> t" for d
  proof -
    have "timestamp (tentry s' i) \<le> now + d" using that(1) by (simp add: e word_le_nat_alt unat_word_ariths)
    then show ?thesis
      using remaining_time [OF s'(2) i(1), of "now + d"] that(2) st e big f0 by simp
  qed
  have late: "\<exists>r. TMR_GetRemainingTime s' (now + d) i = Some r \<and> unat r = ms_left (t - unat d + 1) ?f"
    if "2 ^ 16 \<le> unat now + unat d" "unat d \<le> t" for d
  proof -
    have lim: "unat now < 2 ^ 16" "unat d < 2 ^ 16" using word_nat_less_len [of now] word_nat_less_len [of d] by simp_all
    then have "(unat now + unat d) mod 2 ^ 16 = unat now + unat d - 2 ^ 16"
      using that(1) by (subst le_mod_geq) simp_all
    then have w: "now + d < timestamp (tentry s' i)" "1 \<le> unat d"
      using that(1) lim by (simp_all add: e word_less_nat_alt unat_word_ariths)
    have d0: "d \<noteq> 0" using w(2) by auto
    have e1: "d + 0xFFFF = d - 1" by simp
    have d1: "unat (d + 0xFFFF) = unat d - 1" unfolding e1 by (rule unat_minus_one [OF d0])
    have left: "t - (unat d - 1) = t - unat d + 1" using w(2) that(2) by simp
    show ?thesis
      using remaining_time_wrapped [OF s'(2) i(1), of "now + d"] w d1 left that(2) st e big f0 by simp
  qed
  have "TMR_GetRemainingTime s' now i = Some ms"
    using get [of 0] word_nat_less_len [of now] ms_left_start [OF f, of "unat ms"]
    by (auto simp: t_def intro: unsigned_word_eqI)
  moreover have "\<exists>r. TMR_GetRemainingTime s' (now + d) i = Some r \<and>
      (t - unat d) * 1000 \<le> unat r * ?f \<and> unat r * ?f < (t - unat d) * 1000 + ?f"
    if "unat now + unat d < 2 ^ 16" "unat d \<le> t" for d
    using get [OF that] ms_left_ceiling [OF f0(2), of "t - unat d"] by metis
  moreover have "\<exists>r. TMR_GetRemainingTime s' (now + d) i = Some r \<and>
      (t - unat d + 1) * 1000 \<le> unat r * ?f \<and> unat r * ?f < (t - unat d + 1) * 1000 + ?f"
    if "2 ^ 16 \<le> unat now + unat d" "unat d \<le> t" for d
    using late [OF that] ms_left_ceiling [OF f0(2), of "t - unat d + 1"] by metis
  ultimately show ?thesis using s'(1) by blast
qed

theorem tmr_remaining_time_witness:
  "\<exists>s'. TMR_StartTimer tmr1 100 0 gTmrSingleShotTimer_c 1234 NULL 0 = Some (gTmrSuccess_c, s') \<and>
    TMR_GetRemainingTime s' 100 0 = Some 1234"
proof -
  have f: "mCounterFreqHz tmr1 = 32768" by code_simp
  show ?thesis
    using tmr_remaining_time [OF tmr1_inv, of 0 gTmrSingleShotTimer_c 1234 100 NULL 0] tmr1_alloc(2) f by auto
qed

end
