(* ===== verification/OSA_Sched.thy ===== *)
theory OSA_Sched
  imports OSA_Irq
begin

text \<open>
  The cooperative scheduler of the bare-metal OS abstraction
  (\<open>OSAbstraction/Source/fsl_os_abstraction_bm.c\<close>): seven task control blocks, linked into a
  circular doubly linked list in the order of their priorities (a smaller number is more
  urgent) or into the free list. The control blocks are a store indexed by address; the
  lemmas relate it to the sequence of tasks and the sequence of free blocks.
\<close>

section \<open>Data\<close>

datatype osaStatus = osaStatus_Success | osaStatus_Error | osaStatus_Timeout | osaStatus_Idle

abbreviation (input) TASK_MAX_NUM :: nat where "TASK_MAX_NUM \<equiv> 7"

record task_control_block =
  p_func :: ptr
  haveToRun :: bool
  priority :: u16
  task_param :: ptr
  tcb_next :: ptr
  tcb_prev :: ptr

record osaThreadDef =
  pthread :: ptr
  tpriority :: u32

record os_tasks =
  tcbs :: "ptr \<rightharpoonup> task_control_block"
  p_taskListHead :: ptr
  g_curTask :: ptr
  g_freeTaskControlBlock :: ptr

definition get_tcb :: "ptr \<Rightarrow> os_tasks \<Rightarrow> task_control_block option" where
  "get_tcb p s = tcbs s p"

definition mod_tcb :: "ptr \<Rightarrow> (task_control_block \<Rightarrow> task_control_block) \<Rightarrow> os_tasks \<Rightarrow> os_tasks option" where
  "mod_tcb p f s = do { t \<leftarrow> get_tcb p s; Some (s\<lparr>tcbs := (tcbs s)(p \<mapsto> f t)\<rparr>) }"

section \<open>Operations\<close>

text \<open>The blocks of the pool lie \<open>sz\<close> bytes apart.\<close>

definition pool_at :: "ptr \<Rightarrow> u32 \<Rightarrow> nat \<Rightarrow> ptr" where
  "pool_at pool sz i = pool + of_nat i * sz"

fun task_init_loop :: "ptr \<Rightarrow> u32 \<Rightarrow> nat \<Rightarrow> os_tasks \<Rightarrow> os_tasks option" where
  "task_init_loop pool sz 0 s = Some s"
| "task_init_loop pool sz (Suc i) s = do {
     s \<leftarrow> mod_tcb (pool_at pool sz i) (tcb_next_update (\<lambda>_. pool_at pool sz (Suc i))) s;
     task_init_loop pool sz i s }"

definition task_init :: "ptr \<Rightarrow> u32 \<Rightarrow> os_tasks \<Rightarrow> os_tasks option" where
  "task_init pool sz s = do {
     s \<leftarrow> mod_tcb (pool_at pool sz (TASK_MAX_NUM - 1)) (tcb_next_update (\<lambda>_. NULL)) s;
     s \<leftarrow> task_init_loop pool sz (TASK_MAX_NUM - 1) s;
     Some (s\<lparr>g_freeTaskControlBlock := pool\<rparr>) }"

definition OSA_Init :: "ptr \<Rightarrow> u32 \<Rightarrow> os_tasks \<Rightarrow> (osaStatus \<times> os_tasks) option" where
  "OSA_Init pool sz s = do { s \<leftarrow> task_init pool sz s; Some (osaStatus_Success, s) }"

definition OSA_TaskGetId :: "os_tasks \<Rightarrow> ptr" where
  "OSA_TaskGetId s = g_curTask s"

definition OSA_TaskYield :: "os_tasks \<Rightarrow> osaStatus" where
  "OSA_TaskYield s = osaStatus_Success"

definition OSA_TaskGetPriority :: "ptr \<Rightarrow> os_tasks \<Rightarrow> u16 option" where
  "OSA_TaskGetPriority taskId s = do { t \<leftarrow> get_tcb taskId s; Some (priority t) }"

definition OSA_InsertTaskBefore :: "ptr \<Rightarrow> ptr \<Rightarrow> os_tasks \<Rightarrow> os_tasks option" where
  "OSA_InsertTaskBefore newTCB currentTCB s = do {
     s \<leftarrow> mod_tcb newTCB (tcb_next_update (\<lambda>_. currentTCB)) s;
     c \<leftarrow> get_tcb currentTCB s;
     s \<leftarrow> mod_tcb newTCB (tcb_prev_update (\<lambda>_. tcb_prev c)) s;
     c \<leftarrow> get_tcb currentTCB s;
     s \<leftarrow> mod_tcb (tcb_prev c) (tcb_next_update (\<lambda>_. newTCB)) s;
     mod_tcb currentTCB (tcb_prev_update (\<lambda>_. newTCB)) s }"

text \<open>The loop that looks for the place of \<open>handler\<close>, from \<open>p\<close> on.\<close>

partial_function (option) insert_loop :: "ptr \<Rightarrow> ptr \<Rightarrow> os_tasks \<Rightarrow> os_tasks option" where
  "insert_loop handler p s =
     (if p = p_taskListHead s then Some s
      else do {
        h \<leftarrow> get_tcb handler s;
        t \<leftarrow> get_tcb p s;
        if priority h \<le> priority t then OSA_InsertTaskBefore handler p s
        else insert_loop handler (tcb_next t) s })"

text \<open>The choice between the head, the tail and the loop.\<close>

definition insert_task :: "ptr \<Rightarrow> os_tasks \<Rightarrow> os_tasks option" where
  "insert_task handler s = do {
     h \<leftarrow> get_tcb handler s;
     t \<leftarrow> get_tcb (p_taskListHead s) s;
     if priority h \<le> priority t then do {
       s \<leftarrow> OSA_InsertTaskBefore handler (p_taskListHead s) s;
       Some (s\<lparr>p_taskListHead := handler\<rparr>) }
     else do {
       l \<leftarrow> get_tcb (tcb_prev t) s;
       if priority h \<ge> priority l then OSA_InsertTaskBefore handler (p_taskListHead s) s
       else insert_loop handler (tcb_next t) s } }"

definition unlink_task :: "ptr \<Rightarrow> os_tasks \<Rightarrow> os_tasks option" where
  "unlink_task handler s = do {
     h \<leftarrow> get_tcb handler s;
     s \<leftarrow> mod_tcb (tcb_prev h) (tcb_next_update (\<lambda>_. tcb_next h)) s;
     h \<leftarrow> get_tcb handler s;
     mod_tcb (tcb_next h) (tcb_prev_update (\<lambda>_. tcb_prev h)) s }"

definition OSA_TaskSetPriority :: "ptr \<Rightarrow> u16 \<Rightarrow> os_tasks \<Rightarrow> (osaStatus \<times> os_tasks) option" where
  "OSA_TaskSetPriority taskId taskPriority s = do {
     s \<leftarrow> unlink_task taskId s;
     h \<leftarrow> get_tcb taskId s;
     let s = (if taskId = p_taskListHead s then s\<lparr>p_taskListHead := tcb_next h\<rparr> else s);
     s \<leftarrow> mod_tcb taskId (priority_update (\<lambda>_. taskPriority)) s;
     s \<leftarrow> insert_task taskId s;
     Some (osaStatus_Success, s) }"

definition OSA_TaskCreate :: "osaThreadDef \<Rightarrow> ptr \<Rightarrow> os_tasks \<Rightarrow> (ptr \<times> os_tasks) option" where
  "OSA_TaskCreate thread_def param s =
     (if g_freeTaskControlBlock s = NULL then Some (NULL, s)
      else do {
        let new = g_freeTaskControlBlock s;
        f \<leftarrow> get_tcb new s;
        let s = s\<lparr>g_freeTaskControlBlock := tcb_next f\<rparr>;
        s \<leftarrow> mod_tcb new (\<lambda>t. t\<lparr>p_func := pthread thread_def, haveToRun := True,
          priority := ucast (tpriority thread_def), task_param := param, tcb_next := NULL, tcb_prev := NULL\<rparr>) s;
        s \<leftarrow> (if p_taskListHead s = NULL then
                mod_tcb new (\<lambda>t. t\<lparr>tcb_next := new, tcb_prev := new\<rparr>) (s\<lparr>p_taskListHead := new\<rparr>)
              else insert_task new s);
        Some (new, s) })"

definition OSA_TaskDestroy :: "ptr \<Rightarrow> os_tasks \<Rightarrow> (osaStatus \<times> os_tasks) option" where
  "OSA_TaskDestroy taskId s =
     (if taskId = NULL then Some (osaStatus_Error, s)
      else do {
        s \<leftarrow> unlink_task taskId s;
        h \<leftarrow> get_tcb taskId s;
        let s = (if taskId = g_curTask s then s\<lparr>g_curTask := tcb_prev h\<rparr> else s);
        s \<leftarrow> mod_tcb taskId (\<lambda>t. t\<lparr>tcb_prev := NULL, tcb_next := g_freeTaskControlBlock s\<rparr>) s;
        Some (osaStatus_Success, s\<lparr>g_freeTaskControlBlock := taskId\<rparr>) })"

text \<open>One round of the endless loop; \<open>run\<close> is what the task functions do.\<close>

definition OSA_Start_round :: "(ptr \<Rightarrow> ptr \<Rightarrow> os_tasks \<Rightarrow> os_tasks) \<Rightarrow> os_tasks \<Rightarrow> (ptr option \<times> os_tasks) option" where
  "OSA_Start_round run s = do {
     t \<leftarrow> get_tcb (g_curTask s) s;
     if haveToRun t then do {
       let ran = g_curTask s;
       let s = (if p_func t \<noteq> NULL then run (p_func t) (task_param t) s else s);
       Some (Some ran, s\<lparr>g_curTask := p_taskListHead s\<rparr>) }
     else Some (None, s\<lparr>g_curTask := tcb_next t\<rparr>) }"

definition OSA_Start_begin :: "os_tasks \<Rightarrow> os_tasks" where
  "OSA_Start_begin s = s\<lparr>g_curTask := p_taskListHead s\<rparr>"

section \<open>Circular lists of tasks\<close>

fun tseg :: "(ptr \<rightharpoonup> task_control_block) \<Rightarrow> ptr \<Rightarrow> ptr list \<Rightarrow> ptr \<Rightarrow> bool" where
  "tseg m p [] n = True"
| "tseg m p (x # xs) n = ((\<exists>t. m x = Some t \<and> tcb_prev t = p \<and> tcb_next t = hd_or n xs) \<and> tseg m x xs n)"

definition ring :: "(ptr \<rightharpoonup> task_control_block) \<Rightarrow> ptr list \<Rightarrow> bool" where
  "ring m xs \<longleftrightarrow> distinct xs \<and> tseg m (last_or NULL xs) xs (hd_or NULL xs)"

lemma tseg_append [simp]:
  "tseg m p (xs @ ys) n \<longleftrightarrow> tseg m p xs (hd_or n ys) \<and> tseg m (last_or p xs) ys n"
  by (induction xs arbitrary: p) auto

lemma tseg_upd [simp]: "x \<notin> set xs \<Longrightarrow> tseg (m(x \<mapsto> t)) p xs n = tseg m p xs n"
  by (induction xs arbitrary: p) auto

text \<open>Only the links matter.\<close>

lemma tseg_links:
  assumes "m x = Some t" "tcb_next t' = tcb_next t" "tcb_prev t' = tcb_prev t"
  shows "tseg (m(x \<mapsto> t')) p xs n = tseg m p xs n"
  using assms by (induction xs arbitrary: p) auto

lemma ring_links:
  "m x = Some t \<Longrightarrow> tcb_next t' = tcb_next t \<Longrightarrow> tcb_prev t' = tcb_prev t \<Longrightarrow> ring (m(x \<mapsto> t')) xs = ring m xs"
  by (simp add: ring_def tseg_links)

lemma tseg_in: "tseg m p xs n \<Longrightarrow> x \<in> set xs \<Longrightarrow> \<exists>t. m x = Some t"
  by (induction xs arbitrary: p) auto

lemma hd_or_default: "xs \<noteq> [] \<Longrightarrow> hd_or a xs = hd_or b xs" "xs \<noteq> [] \<Longrightarrow> last_or a xs = last_or b xs"
  by (cases xs; simp)+

lemma ring_rotate: "ring m (xs @ ys) \<longleftrightarrow> ring m (ys @ xs)"
proof (cases "xs = [] \<or> ys = []")
  case False
  then have "hd_or NULL xs = hd_or a xs" "last_or NULL xs = last_or a xs" "hd_or NULL ys = hd_or a ys" "last_or NULL ys = last_or a ys" for a
    using hd_or_default by metis+
  then show ?thesis unfolding ring_def by (simp add: conj_commute Int_commute) metis
qed auto

lemma ring_upd: "x \<notin> set xs \<Longrightarrow> ring (m(x \<mapsto> t)) xs = ring m xs"
  by (simp add: ring_def)

lemma ring_single: "ring m [x] \<longleftrightarrow> (\<exists>t. m x = Some t \<and> tcb_prev t = x \<and> tcb_next t = x)"
  by (simp add: ring_def)

lemma ring_ends:
  "ring m (x # xs @ [y]) \<longleftrightarrow> distinct (x # xs @ [y]) \<and>
     (\<exists>t. m x = Some t \<and> tcb_prev t = y \<and> tcb_next t = hd_or y xs) \<and> tseg m x xs y \<and>
     (\<exists>t. m y = Some t \<and> tcb_prev t = last_or x xs \<and> tcb_next t = x)"
  unfolding ring_def by auto

text \<open>What the links do not carry.\<close>

definition tcb_data :: "task_control_block \<Rightarrow> task_control_block" where
  "tcb_data t = t\<lparr>tcb_next := NULL, tcb_prev := NULL\<rparr>"

definition same_data :: "os_tasks \<Rightarrow> os_tasks \<Rightarrow> bool" where
  "same_data s s' \<longleftrightarrow> (\<forall>x. map_option tcb_data (tcbs s' x) = map_option tcb_data (tcbs s x))"

lemma tcb_data_links [simp]: "tcb_data (t\<lparr>tcb_next := a\<rparr>) = tcb_data t" "tcb_data (t\<lparr>tcb_prev := a\<rparr>) = tcb_data t"
  by (simp_all add: tcb_data_def)

lemma OSA_InsertTaskBefore_ok:
  assumes ring: "ring (tcbs s) (z # rest)" and new: "new \<notin> set (z # rest)" "tcbs s new = Some tn"
  shows "\<exists>m. OSA_InsertTaskBefore new z s = Some (s\<lparr>tcbs := m\<rparr>) \<and> ring m (new # z # rest) \<and>
    same_data s (s\<lparr>tcbs := m\<rparr>) \<and> (\<forall>x. x \<notin> set (new # z # rest) \<longrightarrow> m x = tcbs s x)"
proof (cases rest rule: rev_cases)
  case Nil
  then obtain t where t: "tcbs s z = Some t" "tcb_prev t = z" "tcb_next t = z"
    using ring by (auto simp: ring_single)
  show ?thesis using new t Nil
    by (auto simp: OSA_InsertTaskBefore_def mod_tcb_def get_tcb_def ring_def same_data_def)
next
  case (snoc rs l)
  then obtain t u where t: "tcbs s z = Some t" "tcb_prev t = l" "tcb_next t = hd_or l rs" and
    u: "tcbs s l = Some u" "tcb_prev u = last_or z rs" "tcb_next u = z" and
    d: "distinct (z # rs @ [l])" and seg: "tseg (tcbs s) z rs l"
    using ring by (auto simp: ring_ends)
  show ?thesis using new t u d seg snoc
    by (auto simp: OSA_InsertTaskBefore_def mod_tcb_def get_tcb_def ring_def same_data_def)
qed

lemma unlink_ok:
  assumes ring: "ring (tcbs s) (x # rest)" "rest \<noteq> []"
  shows "\<exists>m. unlink_task x s = Some (s\<lparr>tcbs := m\<rparr>) \<and> ring m rest \<and> m x = tcbs s x \<and>
    same_data s (s\<lparr>tcbs := m\<rparr>) \<and> (\<forall>y. y \<notin> set rest \<longrightarrow> m y = tcbs s y)"
proof -
  obtain rs l where rs: "rest = rs @ [l]" using ring(2) by (cases rest rule: rev_cases) auto
  then obtain t u where t: "tcbs s x = Some t" "tcb_prev t = l" "tcb_next t = hd_or l rs" and
    u: "tcbs s l = Some u" "tcb_prev u = last_or x rs" "tcb_next u = x" and
    d: "distinct (x # rs @ [l])" and seg: "tseg (tcbs s) x rs l"
    using ring by (auto simp: ring_ends)
  show ?thesis
  proof (cases rs)
    case Nil
    then show ?thesis using t u d rs
      by (auto simp: unlink_task_def mod_tcb_def get_tcb_def ring_def same_data_def)
  next
    case (Cons r rs')
    then obtain v where "tcbs s r = Some v" "tcb_prev v = x" "tcb_next v = hd_or l rs'" using seg by auto
    then show ?thesis using t u d rs seg Cons
      by (auto simp: unlink_task_def mod_tcb_def get_tcb_def ring_def same_data_def)
  qed
qed

section \<open>The place of a task\<close>

definition prio :: "(ptr \<rightharpoonup> task_control_block) \<Rightarrow> ptr \<Rightarrow> nat" where
  "prio m x = (case m x of Some t \<Rightarrow> unat (priority t) | None \<Rightarrow> 0)"

lemma prio_Some: "m x = Some t \<Longrightarrow> prio m x = unat (priority t)"
  by (simp add: prio_def)

lemma same_data_prio: "same_data s s' \<Longrightarrow> prio (tcbs s') x = prio (tcbs s) x"
proof -
  assume "same_data s s'"
  then have "map_option tcb_data (tcbs s' x) = map_option tcb_data (tcbs s x)" by (simp add: same_data_def)
  then show ?thesis
    by (cases "tcbs s x"; cases "tcbs s' x") (auto simp: prio_def tcb_data_def dest: arg_cong [of _ _ priority])
qed

lemma same_data_refl [simp]: "same_data s s"
  by (simp add: same_data_def)

lemma same_data_trans: "same_data s s1 \<Longrightarrow> same_data s1 s2 \<Longrightarrow> same_data s s2"
  by (simp add: same_data_def)

text \<open>Before the first task that is not more urgent; behind all of them when none of them is less.\<close>

definition place :: "(ptr \<Rightarrow> nat) \<Rightarrow> ptr \<Rightarrow> ptr list \<Rightarrow> ptr list" where
  "place pr h xs =
     (if xs \<noteq> [] \<and> pr (hd xs) < pr h \<and> pr (last xs) \<le> pr h then xs @ [h]
      else takeWhile (\<lambda>x. pr x < pr h) xs @ h # dropWhile (\<lambda>x. pr x < pr h) xs)"

lemma place_set: "set (place pr h xs) = insert h (set xs)"
proof -
  have "set xs = set (takeWhile (\<lambda>x. pr x < pr h) xs) \<union> set (dropWhile (\<lambda>x. pr x < pr h) xs)"
    by (metis set_append takeWhile_dropWhile_id)
  then show ?thesis by (auto simp: place_def)
qed

lemma place_removes: "h \<notin> set xs \<Longrightarrow> filter (\<lambda>x. x \<noteq> h) (place pr h xs) = xs"
proof -
  assume h: "h \<notin> set xs"
  have "filter (\<lambda>x. x \<noteq> h) ys = ys" if "set ys \<subseteq> set xs" for ys
    using h that by (auto simp: filter_id_conv)
  then show ?thesis
    using set_takeWhileD [of _ "\<lambda>x. pr x < pr h" xs] set_dropWhileD [of _ "\<lambda>x. pr x < pr h" xs]
    by (auto simp: place_def subset_iff)
qed

lemma place_sorted:
  assumes "sorted (map pr xs)"
  shows "sorted (map pr (place pr h xs))"
proof (cases "xs \<noteq> [] \<and> pr (hd xs) < pr h \<and> pr (last xs) \<le> pr h")
  case True
  have "pr x \<le> pr (last xs)" if "x \<in> set xs" for x
    using assms that by (cases xs rule: rev_cases) (auto simp: sorted_append)
  then show ?thesis using True assms by (force simp: place_def sorted_append)
next
  case False
  let ?t = "takeWhile (\<lambda>x. pr x < pr h) xs" and ?d = "dropWhile (\<lambda>x. pr x < pr h) xs"
  have "sorted (map pr (?t @ ?d))" using assms by simp
  then have s: "sorted (map pr ?t)" "sorted (map pr ?d)" by (auto simp only: map_append sorted_append)
  have "\<forall>x \<in> set ?t. pr x < pr h" using set_takeWhileD by fastforce
  moreover have "\<forall>y \<in> set ?d. pr h \<le> pr y"
  proof (cases ?d)
    case (Cons y ys)
    then have "pr h \<le> pr y" by (metis dropWhile_eq_Cons_conv not_less)
    then show ?thesis using s(2) Cons by auto
  next
    case Nil
    then show ?thesis by (simp only: Nil list.set ball_simps)
  qed
  moreover have "place pr h xs = ?t @ h # ?d" unfolding place_def by (simp only: False if_False)
  ultimately show ?thesis using s by (auto simp: sorted_append intro: less_imp_le less_le_trans)
qed

lemma insert_loop_ok:
  assumes "ring (tcbs s) (pre @ ys)" "pre \<noteq> []" "p_taskListHead s = hd pre" "h \<notin> set (pre @ ys)" "tcbs s h = Some th"
    "\<exists>y \<in> set ys. prio (tcbs s) h \<le> prio (tcbs s) y"
  shows "\<exists>m. insert_loop h (hd_or (hd pre) ys) s = Some (s\<lparr>tcbs := m\<rparr>) \<and>
    ring m (pre @ takeWhile (\<lambda>x. prio (tcbs s) x < prio (tcbs s) h) ys @ h # dropWhile (\<lambda>x. prio (tcbs s) x < prio (tcbs s) h) ys) \<and>
    same_data s (s\<lparr>tcbs := m\<rparr>) \<and> (\<forall>x. x \<notin> set (h # pre @ ys) \<longrightarrow> m x = tcbs s x)"
  using assms
proof (induction ys arbitrary: pre)
  case (Cons y ys)
  have nh: "y \<noteq> p_taskListHead s" using Cons.prems(1-3) by (cases pre) (auto simp: ring_def)
  obtain t where t: "tcbs s y = Some t" "tcb_next t = hd_or (hd pre) ys"
    using Cons.prems(1,2) unfolding ring_def by (cases pre) auto
  have cmp: "priority th \<le> priority t \<longleftrightarrow> prio (tcbs s) h \<le> prio (tcbs s) y"
    using t(1) Cons.prems(5) by (simp add: prio_Some word_le_nat_alt)
  show ?case
  proof (cases "prio (tcbs s) h \<le> prio (tcbs s) y")
    case True
    have "ring (tcbs s) (y # ys @ pre)" using Cons.prems(1) ring_rotate [of _ pre "y # ys"] by simp
    then obtain m where m: "OSA_InsertTaskBefore h y s = Some (s\<lparr>tcbs := m\<rparr>)" "ring m (h # y # ys @ pre)"
      "same_data s (s\<lparr>tcbs := m\<rparr>)" "\<forall>x. x \<notin> set (h # y # ys @ pre) \<longrightarrow> m x = tcbs s x"
      using OSA_InsertTaskBefore_ok [of s y "ys @ pre" h th] Cons.prems(4,5) by auto
    have "ring m (pre @ h # y # ys)" using m(2) ring_rotate [of _ pre "h # y # ys"] by simp
    moreover have "insert_loop h y s = Some (s\<lparr>tcbs := m\<rparr>)"
      using nh t(1) Cons.prems(5) True cmp m(1) by (subst insert_loop.simps) (simp add: get_tcb_def)
    ultimately show ?thesis using m(3,4) True by (intro exI [of _ m]) auto
  next
    case False
    have step: "insert_loop h y s = insert_loop h (hd_or (hd (pre @ [y])) ys) s"
      using nh t Cons.prems(2,5) False cmp by (subst insert_loop.simps) (simp add: get_tcb_def)
    show ?thesis
      using Cons.IH [of "pre @ [y]"] Cons.prems False unfolding hd_or_simps step by (auto simp: not_le)
  qed
qed simp

lemma tcb_data_eq: "tcb_data t = tcb_data t' \<longleftrightarrow> p_func t = p_func t' \<and> haveToRun t = haveToRun t' \<and>
    priority t = priority t' \<and> task_param t = task_param t'"
  by (cases t; cases t') (simp add: tcb_data_def)

lemma last_or_last: "last_or z xs = (if xs = [] then z else last xs)"
  by (simp add: last_or_def)

lemma insert_task_ok:
  assumes ring: "ring (tcbs s) xs" "xs \<noteq> []" "p_taskListHead s = hd xs" and h: "h \<notin> set xs" "tcbs s h = Some th"
  shows "\<exists>m. insert_task h s = Some (s\<lparr>tcbs := m, p_taskListHead := hd (place (prio (tcbs s)) h xs)\<rparr>) \<and>
    ring m (place (prio (tcbs s)) h xs) \<and> same_data s (s\<lparr>tcbs := m\<rparr>) \<and> (\<forall>x. x \<notin> set (h # xs) \<longrightarrow> m x = tcbs s x)"
proof -
  obtain z rest where xs: "xs = z # rest" using ring(2) by (cases xs) auto
  let ?pr = "prio (tcbs s)"
  have s_eq: "s\<lparr>tcbs := m, p_taskListHead := z\<rparr> = s\<lparr>tcbs := m\<rparr>" for m using ring(3) xs by simp
  obtain t where t: "tcbs s z = Some t" "tcb_prev t = last xs" "tcb_next t = hd_or z rest"
    using ring(1) xs unfolding ring_def by (auto simp: last_or_last)
  obtain l where l: "tcbs s (last xs) = Some l" using ring(1) ring(2) tseg_in unfolding ring_def by (metis last_in_set)
  obtain m where m: "OSA_InsertTaskBefore h z s = Some (s\<lparr>tcbs := m\<rparr>)" "ring m (h # z # rest)"
    "same_data s (s\<lparr>tcbs := m\<rparr>)" "\<forall>x. x \<notin> set (h # z # rest) \<longrightarrow> m x = tcbs s x"
    using OSA_InsertTaskBefore_ok [of s z rest h th] ring(1) h xs by auto
  have cmp: "priority th \<le> priority t \<longleftrightarrow> ?pr h \<le> ?pr z" "priority th \<ge> priority l \<longleftrightarrow> ?pr (last xs) \<le> ?pr h"
    using t(1) l h(2) by (simp_all add: prio_Some word_le_nat_alt)
  consider (front) "?pr h \<le> ?pr z" | (tail) "\<not> ?pr h \<le> ?pr z" "?pr (last xs) \<le> ?pr h"
    | (mid) "\<not> ?pr h \<le> ?pr z" "\<not> ?pr (last xs) \<le> ?pr h" by blast
  then show ?thesis
  proof cases
    case front
    then have p: "place ?pr h xs = h # z # rest" by (simp add: place_def xs)
    have "insert_task h s = Some (s\<lparr>tcbs := m, p_taskListHead := h\<rparr>)"
      using front cmp(1) h(2) t(1) m(1) ring(3) xs by (simp add: insert_task_def get_tcb_def)
    then show ?thesis using m unfolding p by (intro exI [of _ m]) (simp add: xs)
  next
    case tail
    then have p: "place ?pr h xs = xs @ [h]" by (simp add: place_def xs)
    have "ring m (xs @ [h])" using m(2) ring_rotate [of m "[h]" xs] xs by simp
    moreover have "insert_task h s = Some (s\<lparr>tcbs := m, p_taskListHead := hd (place ?pr h xs)\<rparr>)"
      using tail cmp h(2) t(1,2) l m(1) ring(3) unfolding p by (simp add: insert_task_def get_tcb_def xs s_eq del: last.simps)
    ultimately show ?thesis using m(3,4) xs p by (intro exI [of _ m]) auto
  next
    case mid
    have rest: "rest \<noteq> []" "last xs \<in> set rest" using mid xs by (auto split: if_splits)
    let ?r = "takeWhile (\<lambda>x. ?pr x < ?pr h) rest @ h # dropWhile (\<lambda>x. ?pr x < ?pr h) rest"
    have p: "place ?pr h xs = z # ?r" using mid by (auto simp: place_def xs)
    have "\<exists>y \<in> set rest. ?pr h \<le> ?pr y" using mid(2) rest(2) by (intro bexI [of _ "last xs"]) simp_all
    then obtain m where m: "insert_loop h (hd_or z rest) s = Some (s\<lparr>tcbs := m\<rparr>)" "ring m (z # ?r)"
      "same_data s (s\<lparr>tcbs := m\<rparr>)" "\<forall>x. x \<notin> set (h # xs) \<longrightarrow> m x = tcbs s x"
      using insert_loop_ok [of s "[z]" rest h th] ring(1,3) h xs by auto
    have "insert_task h s = Some (s\<lparr>tcbs := m, p_taskListHead := hd (place ?pr h xs)\<rparr>)"
      using mid cmp h(2) t l m(1) ring(3) unfolding p by (simp add: insert_task_def get_tcb_def xs s_eq del: last.simps)
    then show ?thesis using m unfolding p by (intro exI [of _ m]) simp
  qed
qed

text \<open>The free blocks.\<close>

fun free_list :: "(ptr \<rightharpoonup> task_control_block) \<Rightarrow> ptr \<Rightarrow> ptr list \<Rightarrow> bool" where
  "free_list m p [] \<longleftrightarrow> p = NULL"
| "free_list m p (x # xs) \<longleftrightarrow> p = x \<and> (\<exists>t. m x = Some t \<and> free_list m (tcb_next t) xs)"

lemma free_list_cong: "(\<And>x. x \<in> set xs \<Longrightarrow> m x = m' x) \<Longrightarrow> free_list m p xs = free_list m' p xs"
  by (induction xs arbitrary: p) auto

lemma free_list_upd [simp]: "x \<notin> set xs \<Longrightarrow> free_list (m(x \<mapsto> t)) p xs = free_list m p xs"
  by (rule free_list_cong) auto

text \<open>The tasks \<open>xs\<close> in the order of their priorities and the free blocks \<open>fs\<close>.\<close>

definition sched :: "os_tasks \<Rightarrow> ptr list \<Rightarrow> ptr list \<Rightarrow> bool" where
  "sched s xs fs \<longleftrightarrow> ring (tcbs s) xs \<and> p_taskListHead s = hd_or NULL xs \<and> sorted (map (prio (tcbs s)) xs) \<and>
     free_list (tcbs s) (g_freeTaskControlBlock s) fs \<and> distinct (xs @ fs) \<and> NULL \<notin> set (xs @ fs)"

lemma place_cong: "(\<And>x. x \<in> insert h (set xs) \<Longrightarrow> pr x = pr' x) \<Longrightarrow> place pr h xs = place pr' h xs"
  unfolding place_def by (cases "xs = []") (auto intro!: arg_cong2 [of _ _ _ _ append] arg_cong2 [of _ _ _ _ Cons] takeWhile_cong dropWhile_cong)

lemma insert_sched:
  assumes s: "sched s xs fs" "xs \<noteq> []" and h: "h \<notin> set (xs @ fs)" "h \<noteq> NULL" "tcbs s h = Some th"
  shows "\<exists>s'. insert_task h s = Some s' \<and> sched s' (place (prio (tcbs s')) h xs) fs \<and> same_data s s' \<and>
    g_curTask s' = g_curTask s"
proof -
  have ring: "ring (tcbs s) xs" "p_taskListHead s = hd xs" using s by (cases xs; simp add: sched_def)+
  let ?ys = "place (prio (tcbs s)) h xs"
  obtain m where m: "insert_task h s = Some (s\<lparr>tcbs := m, p_taskListHead := hd ?ys\<rparr>)"
    "ring m ?ys" "same_data s (s\<lparr>tcbs := m\<rparr>)" "\<forall>x. x \<notin> set (h # xs) \<longrightarrow> m x = tcbs s x"
    using insert_task_ok [OF ring(1) s(2) ring(2) _ h(3)] h(1) by auto
  let ?s' = "s\<lparr>tcbs := m, p_taskListHead := hd ?ys\<rparr>"
  have pm: "prio m = prio (tcbs s)" using same_data_prio [OF m(3)] by (simp add: fun_eq_iff)
  have "free_list m (g_freeTaskControlBlock s) fs"
    using s(1) h(1) m(4) by (subst free_list_cong [of fs m "tcbs s"]) (auto simp: sched_def)
  moreover have "hd_or NULL ?ys = hd ?ys" using place_set [of "prio (tcbs s)" h xs] by (cases ?ys) auto
  moreover have "sorted (map (prio (tcbs s)) ?ys)" using s(1) by (intro place_sorted) (simp add: sched_def)
  moreover have "distinct ?ys" using m(2) by (simp add: ring_def)
  ultimately have "sched ?s' ?ys fs"
    using m(2) s(1) h(1,2) unfolding sched_def by (simp add: pm place_set)
  then show ?thesis using m(1,3) pm by (intro exI [of _ ?s']) (simp add: same_data_def)
qed

lemma OSA_TaskCreate_ok:
  assumes s: "sched s xs (f # fs)"
  shows "\<exists>s'. OSA_TaskCreate def prm s = Some (f, s') \<and> sched s' (place (prio (tcbs s')) f xs) fs \<and>
    prio (tcbs s') f = unat (ucast (tpriority def) :: u16) \<and> (\<forall>x. x \<noteq> f \<longrightarrow> prio (tcbs s') x = prio (tcbs s) x) \<and>
    g_curTask s' = g_curTask s \<and>
    (\<exists>t. tcbs s' f = Some t \<and> haveToRun t \<and> p_func t = pthread def \<and> task_param t = prm)"
proof -
  obtain t where t: "tcbs s f = Some t" "free_list (tcbs s) (tcb_next t) fs" "g_freeTaskControlBlock s = f"
    using s by (auto simp: sched_def)
  have d: "f \<notin> set xs" "f \<notin> set fs" "f \<noteq> NULL" using s by (auto simp: sched_def)
  define n where "n = t\<lparr>p_func := pthread def, haveToRun := True, priority := ucast (tpriority def), task_param := prm,
    tcb_next := NULL, tcb_prev := NULL\<rparr>"
  let ?s1 = "s\<lparr>g_freeTaskControlBlock := tcb_next t, tcbs := (tcbs s)(f \<mapsto> n)\<rparr>"
  have pr: "prio (tcbs ?s1) f = unat (ucast (tpriority def) :: u16)" "x \<noteq> f \<Longrightarrow> prio (tcbs ?s1) x = prio (tcbs s) x" for x
    by (simp_all add: prio_def n_def)
  have "map (prio (tcbs ?s1)) xs = map (prio (tcbs s)) xs" using pr(2) d(1) by (intro map_cong refl) metis
  moreover have "sorted (map (prio (tcbs s)) xs)" using s by (simp add: sched_def)
  ultimately have "sorted (map (prio (tcbs ?s1)) xs)" by (simp only:)
  then have s1: "sched ?s1 xs fs" using s t(2) d(1,2) unfolding sched_def by (simp add: ring_upd)
  show ?thesis
  proof (cases "xs = []")
    case True
    let ?n = "n\<lparr>tcb_next := f, tcb_prev := f\<rparr>"
    let ?s2 = "?s1\<lparr>tcbs := (tcbs s)(f \<mapsto> ?n), p_taskListHead := f\<rparr>"
    have "OSA_TaskCreate def prm s = Some (f, ?s2)"
      using True t(1,3) d(3) s by (simp add: OSA_TaskCreate_def mod_tcb_def get_tcb_def n_def sched_def)
    moreover have "sched ?s2 [f] fs" using t d s by (simp add: sched_def ring_single)
    ultimately show ?thesis using True
      by (intro exI [of _ ?s2]) (simp add: place_def prio_def n_def)
  next
    case False
    then have hd: "p_taskListHead ?s1 \<noteq> NULL" using s by (cases xs) (auto simp: sched_def)
    obtain s2 where s2: "insert_task f ?s1 = Some s2" "sched s2 (place (prio (tcbs s2)) f xs) fs" "same_data ?s1 s2"
      "g_curTask s2 = g_curTask s"
      using insert_sched [OF s1 False, of f n] d by auto
    have "OSA_TaskCreate def prm s = Some (f, s2)"
      using t(1,3) d(3) hd s2(1) by (simp add: OSA_TaskCreate_def mod_tcb_def get_tcb_def n_def)
    moreover have "map_option tcb_data (tcbs s2 f) = Some (tcb_data n)" using s2(3) by (simp add: same_data_def)
    then have "\<exists>t. tcbs s2 f = Some t \<and> haveToRun t \<and> p_func t = pthread def \<and> task_param t = prm"
      by (auto simp: tcb_data_eq n_def)
    ultimately show ?thesis using s2 pr same_data_prio [OF s2(3)] by (intro exI [of _ s2]) simp
  qed
qed

lemma sched_remove:
  assumes s: "sched s xs fs" and x: "x \<in> set xs" "xs \<noteq> [x]"
  shows "\<exists>m t. unlink_task x s = Some (s\<lparr>tcbs := m\<rparr>) \<and> ring m (remove1 x xs) \<and> remove1 x xs \<noteq> [] \<and> m x = Some t \<and>
    tcbs s x = Some t \<and> same_data s (s\<lparr>tcbs := m\<rparr>) \<and> (\<forall>y. y \<notin> set xs \<longrightarrow> m y = tcbs s y) \<and>
    hd (remove1 x xs) = (if x = p_taskListHead s then tcb_next t else p_taskListHead s)"
proof -
  obtain pre post where xs: "xs = pre @ x # post" "x \<notin> set pre" using x(1) by (meson split_list_first)
  have d: "distinct xs" using s by (simp add: sched_def)
  have rm: "remove1 x xs = pre @ post" using xs by (simp add: remove1_append)
  have ne: "post @ pre \<noteq> []" using x(2) xs by auto
  have "ring (tcbs s) (x # post @ pre)" using s ring_rotate [of _ pre "x # post"] xs by (simp add: sched_def)
  from unlink_ok [OF this ne] obtain m where m: "unlink_task x s = Some (s\<lparr>tcbs := m\<rparr>)" "ring m (post @ pre)"
    "m x = tcbs s x" "same_data s (s\<lparr>tcbs := m\<rparr>)" "\<forall>y. y \<notin> set (post @ pre) \<longrightarrow> m y = tcbs s y" by blast
  have seg: "tseg (tcbs s) (last_or NULL xs) (pre @ x # post) (hd_or NULL xs)" using s xs by (simp add: sched_def ring_def)
  then obtain t where t: "tcbs s x = Some t" "tcb_next t = hd_or (hd_or NULL xs) post" by auto
  have "hd (pre @ post) = (if x = p_taskListHead s then tcb_next t else p_taskListHead s)"
    using s xs t(2) ne by (cases pre; cases post) (auto simp: sched_def)
  then show ?thesis using m t(1) ne ring_rotate [of m pre post] xs unfolding rm by (intro exI [of _ m] exI [of _ t]) auto
qed

lemma sched_prio_cong:
  assumes "\<And>x. x \<in> set xs \<Longrightarrow> prio m x = prio m' x" "sorted (map (prio m') xs)"
  shows "sorted (map (prio m) xs)"
proof -
  have "map (prio m) xs = map (prio m') xs" using assms(1) by (intro map_cong refl)
  then show ?thesis using assms(2) by (simp only:)
qed

lemma sorted_remove1_map: "sorted (map f xs) \<Longrightarrow> sorted (map f (remove1 x xs))"
  by (induction xs) (auto dest: set_remove1_subset [THEN subsetD])

lemma OSA_TaskSetPriority_ok:
  assumes s: "sched s xs fs" and x: "x \<in> set xs"
  shows "\<exists>s'. OSA_TaskSetPriority x p s = Some (osaStatus_Success, s') \<and>
    sched s' (place (prio (tcbs s')) x (remove1 x xs)) fs \<and> prio (tcbs s') x = unat p \<and>
    (\<forall>y. y \<noteq> x \<longrightarrow> prio (tcbs s') y = prio (tcbs s) y) \<and> g_curTask s' = g_curTask s"
proof (cases "xs = [x]")
  case True
  then obtain t where t: "tcbs s x = Some t" "tcb_prev t = x" "tcb_next t = x" "p_taskListHead s = x"
    using s by (auto simp: sched_def ring_single)
  let ?s' = "s\<lparr>tcbs := (tcbs s)(x \<mapsto> t\<lparr>priority := p\<rparr>)\<rparr>"
  have idle: "t\<lparr>tcb_next := x\<rparr> = t" "t\<lparr>tcb_prev := x\<rparr> = t" "(tcbs s)(x \<mapsto> t) = tcbs s"
    "t\<lparr>priority := p, tcb_next := x\<rparr> = t\<lparr>priority := p\<rparr>" "t\<lparr>priority := p, tcb_prev := x\<rparr> = t\<lparr>priority := p\<rparr>"
    "t\<lparr>priority := p, tcb_next := x, tcb_prev := x\<rparr> = t\<lparr>priority := p\<rparr>"
    "s\<lparr>p_taskListHead := x\<rparr> = s" "s\<lparr>tcbs := M, p_taskListHead := x\<rparr> = s\<lparr>tcbs := M\<rparr>" for M
    using t by (auto intro: task_control_block.equality os_tasks.equality)
  have "OSA_TaskSetPriority x p s = Some (osaStatus_Success, ?s')"
    using t(1-4) by (simp add: OSA_TaskSetPriority_def unlink_task_def insert_task_def OSA_InsertTaskBefore_def mod_tcb_def get_tcb_def idle)
  moreover have "sched ?s' [x] fs" using s t True by (simp add: sched_def ring_single)
  ultimately show ?thesis using True by (intro exI [of _ ?s']) (simp add: place_def prio_def)
next
  case False
  obtain m t where m: "unlink_task x s = Some (s\<lparr>tcbs := m\<rparr>)" "ring m (remove1 x xs)" "remove1 x xs \<noteq> []" "m x = Some t"
    "same_data s (s\<lparr>tcbs := m\<rparr>)" "\<forall>y. y \<notin> set xs \<longrightarrow> m y = tcbs s y"
    "hd (remove1 x xs) = (if x = p_taskListHead s then tcb_next t else p_taskListHead s)"
    using sched_remove [OF s x False] by blast
  let ?r = "remove1 x xs"
  let ?s1 = "s\<lparr>p_taskListHead := hd ?r, tcbs := m(x \<mapsto> t\<lparr>priority := p\<rparr>)\<rparr>"
  have d: "distinct xs" "x \<notin> set ?r" "set ?r \<subseteq> set xs" "x \<notin> set fs" "x \<noteq> NULL" "NULL \<notin> set (xs @ fs)" "set xs \<inter> set fs = {}" "distinct fs"
    using s x by (auto simp: sched_def)
  have pm: "prio m y = prio (tcbs s) y" for y using same_data_prio [OF m(5)] by simp
  have pr: "prio (tcbs ?s1) x = unat p" "y \<noteq> x \<Longrightarrow> prio (tcbs ?s1) y = prio (tcbs s) y" for y
    using pm [of y] by (simp_all add: prio_def)
  have "sorted (map (prio (tcbs s)) ?r)" using s by (intro sorted_remove1_map) (simp add: sched_def)
  then have "sorted (map (prio (tcbs ?s1)) ?r)"
    using pr(2) d(2) by (intro sched_prio_cong [of ?r "tcbs ?s1" "tcbs s"]) metis+
  moreover have "free_list (tcbs ?s1) (g_freeTaskControlBlock s) fs"
    using s m(6) d by (subst free_list_cong [of fs _ "tcbs s"]) (auto simp: sched_def)
  moreover have "hd_or NULL ?r = hd ?r" using m(3) by (cases ?r) simp_all
  moreover have "ring (tcbs ?s1) ?r" using m(2) d(2) by (simp add: ring_upd)
  moreover have "distinct (?r @ fs)" "NULL \<notin> set (?r @ fs)" using d by (auto simp: distinct_remove1)
  ultimately have s1: "sched ?s1 ?r fs" by (simp add: sched_def)
  obtain s2 where s2: "insert_task x ?s1 = Some s2" "sched s2 (place (prio (tcbs s2)) x ?r) fs" "same_data ?s1 s2"
    "g_curTask s2 = g_curTask s"
    using insert_sched [OF s1 m(3), of x "t\<lparr>priority := p\<rparr>"] d by auto
  have "OSA_TaskSetPriority x p s = Some (osaStatus_Success, s2)"
  proof -
    have "(if x = p_taskListHead s then s\<lparr>tcbs := m, p_taskListHead := tcb_next t\<rparr> else s\<lparr>tcbs := m\<rparr>) =
        s\<lparr>tcbs := m, p_taskListHead := hd ?r\<rparr>" using m(7) by simp
    then show ?thesis
      using m(1,4) s2(1) by (simp add: OSA_TaskSetPriority_def mod_tcb_def get_tcb_def Let_def)
  qed
  then show ?thesis using s2 pr same_data_prio [OF s2(3)] by (intro exI [of _ s2]) simp
qed

text \<open>Destroying a task that is not the first one, and the first one.\<close>

lemma OSA_TaskDestroy_ok:
  assumes s: "sched s xs fs" and x: "x \<in> set xs" "xs \<noteq> [x]"
  shows "\<exists>s'. OSA_TaskDestroy x s = Some (osaStatus_Success, s') \<and> ring (tcbs s') (remove1 x xs) \<and>
    free_list (tcbs s') (g_freeTaskControlBlock s') (x # fs) \<and> p_taskListHead s' = p_taskListHead s \<and>
    (x \<noteq> hd xs \<longrightarrow> sched s' (remove1 x xs) (x # fs))"
proof -
  obtain m t where m: "unlink_task x s = Some (s\<lparr>tcbs := m\<rparr>)" "ring m (remove1 x xs)" "remove1 x xs \<noteq> []" "m x = Some t"
    "same_data s (s\<lparr>tcbs := m\<rparr>)" "\<forall>y. y \<notin> set xs \<longrightarrow> m y = tcbs s y"
    "hd (remove1 x xs) = (if x = p_taskListHead s then tcb_next t else p_taskListHead s)"
    using sched_remove [OF s x] by blast
  let ?r = "remove1 x xs"
  have d: "distinct xs" "x \<notin> set ?r" "set ?r \<subseteq> set xs" "x \<notin> set fs" "x \<noteq> NULL" "NULL \<notin> set (xs @ fs)" "set xs \<inter> set fs = {}" "distinct fs"
    using s x by (auto simp: sched_def)
  define c where "c = (if x = g_curTask s then tcb_prev t else g_curTask s)"
  let ?s' = "s\<lparr>tcbs := m(x \<mapsto> t\<lparr>tcb_prev := NULL, tcb_next := g_freeTaskControlBlock s\<rparr>), g_curTask := c,
    g_freeTaskControlBlock := x\<rparr>"
  have run: "OSA_TaskDestroy x s = Some (osaStatus_Success, ?s')"
  proof -
    have "(if x = g_curTask s then s\<lparr>tcbs := m, g_curTask := tcb_prev t\<rparr> else s\<lparr>tcbs := m\<rparr>) = s\<lparr>tcbs := m, g_curTask := c\<rparr>"
      by (rule os_tasks.equality) (simp_all add: c_def)
    then show ?thesis
      using m(1,4) d(5) by (simp add: OSA_TaskDestroy_def mod_tcb_def get_tcb_def Let_def)
  qed
  have ring: "ring (tcbs ?s') ?r" using m(2) d(2) by (simp add: ring_upd)
  have fl: "free_list (tcbs ?s') x (x # fs)"
    using s m(6) d by (simp, subst free_list_cong [of fs _ "tcbs s"]) (auto simp: sched_def)
  have "sched ?s' ?r (x # fs)" if "x \<noteq> hd xs"
  proof -
    have "p_taskListHead s = hd xs" using s x by (cases xs) (auto simp: sched_def)
    then have "p_taskListHead s = hd_or NULL ?r" using m(3,7) that by (cases ?r) auto
    moreover have "prio (tcbs ?s') y = prio (tcbs s) y" if "y \<in> set ?r" for y
      using same_data_prio [OF m(5), of y] that d(2) by (auto simp: prio_def)
    moreover have "sorted (map (prio (tcbs s)) ?r)" using s by (intro sorted_remove1_map) (simp add: sched_def)
    ultimately show ?thesis
      using ring fl d sched_prio_cong [of ?r "tcbs ?s'" "tcbs s"] by (auto simp: sched_def distinct_remove1 simp del: free_list.simps)
  qed
  then show ?thesis using run ring fl by (intro exI [of _ ?s']) simp
qed

section \<open>Initialisation\<close>

text \<open>The pool as the linker leaves it; it lies in one piece below the end of the address space.\<close>

definition pool_ok :: "ptr \<Rightarrow> u32 \<Rightarrow> bool" where
  "pool_ok pool sz \<longleftrightarrow> pool \<noteq> NULL \<and> sz \<noteq> 0 \<and> unat pool + TASK_MAX_NUM * unat sz \<le> 2 ^ 32"

definition os_boot :: "ptr \<Rightarrow> u32 \<Rightarrow> os_tasks" where
  "os_boot pool sz = \<lparr>tcbs = (\<lambda>p. if p \<in> set (map (pool_at pool sz) [0..<TASK_MAX_NUM])
       then Some \<lparr>p_func = NULL, haveToRun = False, priority = 0, task_param = NULL, tcb_next = NULL, tcb_prev = NULL\<rparr>
       else None),
     p_taskListHead = NULL, g_curTask = NULL, g_freeTaskControlBlock = NULL\<rparr>"

lemma unat_pool_at:
  assumes "pool_ok pool sz" "i < 7"
  shows "unat (pool_at pool sz i) = unat pool + i * unat sz"
proof -
  have "i * unat sz \<le> 6 * unat sz" using assms(2) by (intro mult_le_mono1) simp
  moreover have "6 * unat sz < 7 * unat sz" "unat pool > 0" using assms(1) by (simp_all add: pool_ok_def unat_pos)
  moreover have "i < 2 ^ 32" using assms(2) by simp
  ultimately have lt: "unat pool + i * unat sz < 2 ^ 32" "i * unat sz < 2 ^ 32" "i < 2 ^ 32"
    using assms unfolding pool_ok_def by linarith+
  then have "unat (of_nat i * sz) = i * unat sz" by (simp add: unat_word_ariths unat_of_nat)
  then show ?thesis using lt by (simp add: pool_at_def unat_word_ariths)
qed

lemma pool_at_inj:
  assumes "pool_ok pool sz" "i < 7" "j < 7" "pool_at pool sz i = pool_at pool sz j"
  shows "i = j"
proof -
  have "i * unat sz = j * unat sz" using assms unat_pool_at by (metis add_left_cancel)
  moreover have "0 < unat sz" using assms(1) by (simp add: pool_ok_def unat_pos)
  ultimately show ?thesis by simp
qed

lemma task_init_loop_ok:
  assumes "pool_ok pool sz" "n \<le> 6" "\<forall>i < 7. pool_at pool sz i \<in> dom (tcbs s)"
  shows "\<exists>m. task_init_loop pool sz n s = Some (s\<lparr>tcbs := m\<rparr>) \<and> dom m = dom (tcbs s) \<and>
    (\<forall>i < n. \<exists>t. m (pool_at pool sz i) = Some t \<and> tcb_next t = pool_at pool sz (Suc i)) \<and>
    (\<forall>i < 7. n \<le> i \<longrightarrow> m (pool_at pool sz i) = tcbs s (pool_at pool sz i))"
  using assms(2,3)
proof (induction n arbitrary: s)
  case (Suc n)
  obtain t where t: "tcbs s (pool_at pool sz n) = Some t"
    using Suc.prems(2) [THEN spec, of n] Suc.prems(1) by auto
  let ?s1 = "s\<lparr>tcbs := (tcbs s)(pool_at pool sz n \<mapsto> t\<lparr>tcb_next := pool_at pool sz (Suc n)\<rparr>)\<rparr>"
  have "\<forall>i < 7. pool_at pool sz i \<in> dom (tcbs ?s1)" using Suc.prems(2) by simp
  with Suc.prems(1) obtain m where m: "task_init_loop pool sz n ?s1 = Some (?s1\<lparr>tcbs := m\<rparr>)" "dom m = dom (tcbs ?s1)"
    "\<forall>i < n. \<exists>t. m (pool_at pool sz i) = Some t \<and> tcb_next t = pool_at pool sz (Suc i)"
    "\<forall>i < 7. n \<le> i \<longrightarrow> m (pool_at pool sz i) = tcbs ?s1 (pool_at pool sz i)"
    using Suc.IH [of ?s1] Suc_leD by blast
  have other: "pool_at pool sz i \<noteq> pool_at pool sz n" if "i < 7" "i \<noteq> n" for i
    using pool_at_inj [OF assms(1), of i n] that Suc.prems(1) by auto
  have "task_init_loop pool sz (Suc n) s = Some (s\<lparr>tcbs := m\<rparr>)"
    using t m(1) by (simp add: mod_tcb_def get_tcb_def)
  moreover have "dom m = dom (tcbs s)" using m(2) t by auto
  ultimately show ?case using m(3,4) other Suc.prems(1) by (intro exI [of _ m]) (auto simp: less_Suc_eq)
next
  case 0
  then show ?case by (intro exI [of _ "tcbs s"]) simp
qed

lemma free_list_pool:
  assumes "\<forall>i < n. \<exists>t. m (f i) = Some t \<and> tcb_next t = f (Suc i)" "\<exists>t. m (f n) = Some t \<and> tcb_next t = NULL" "i \<le> n"
  shows "free_list m (f i) (map f [i..<Suc n])"
  using assms(3)
proof (induction "n - i" arbitrary: i)
  case 0
  then show ?case using assms(2) by auto
next
  case (Suc k)
  then have "k = n - Suc i" "Suc i \<le> n" by simp_all
  then have "free_list m (f (Suc i)) (map f [Suc i..<Suc n])" by (rule Suc.hyps(1))
  moreover have "[i..<Suc n] = i # [Suc i..<Suc n]" using Suc.prems by (simp add: upt_rec)
  moreover have "\<exists>t. m (f i) = Some t \<and> tcb_next t = f (Suc i)" using assms(1) Suc.hyps(2) by simp
  ultimately show ?case by auto
qed

lemma OSA_Init_ok:
  assumes "pool_ok pool sz"
  shows "\<exists>s. OSA_Init pool sz (os_boot pool sz) = Some (osaStatus_Success, s) \<and>
    sched s [] (map (pool_at pool sz) [0..<7])"
proof -
  let ?b = "os_boot pool sz" and ?f = "pool_at pool sz"
  have dom: "tcbs ?b (?f i) = Some \<lparr>p_func = NULL, haveToRun = False, priority = 0, task_param = NULL,
      tcb_next = NULL, tcb_prev = NULL\<rparr>" if "i < 7" for i
    using that by (simp add: os_boot_def)
  define s1 where "s1 = ?b\<lparr>tcbs := (tcbs ?b)(?f 6 \<mapsto> \<lparr>p_func = NULL, haveToRun = False, priority = 0,
    task_param = NULL, tcb_next = NULL, tcb_prev = NULL\<rparr>)\<rparr>"
  have "\<forall>i < 7. ?f i \<in> dom (tcbs s1)" using dom by (auto simp: s1_def)
  then obtain m where m: "task_init_loop pool sz 6 s1 = Some (s1\<lparr>tcbs := m\<rparr>)"
    "\<forall>i < 6. \<exists>t. m (?f i) = Some t \<and> tcb_next t = ?f (Suc i)"
    "\<forall>i < 7. 6 \<le> i \<longrightarrow> m (?f i) = tcbs s1 (?f i)"
    using task_init_loop_ok [OF assms, of 6 s1] by auto
  have run: "OSA_Init pool sz ?b = Some (osaStatus_Success, s1\<lparr>tcbs := m, g_freeTaskControlBlock := pool\<rparr>)"
    using dom [of 6] m(1) by (simp add: OSA_Init_def task_init_def mod_tcb_def get_tcb_def s1_def)
  have "m (?f 6) = tcbs s1 (?f 6)" using m(3) by simp
  then have "free_list m (?f 0) (map ?f [0..<Suc 6])"
    using m(2) by (intro free_list_pool) (simp_all add: s1_def)
  moreover have "?f 0 = pool" by (simp add: pool_at_def)
  moreover have "distinct (map ?f [0..<7])"
    using pool_at_inj [OF assms] by (auto simp: distinct_map inj_on_def)
  moreover have "?f i \<noteq> NULL" if "i < 7" for i
    using unat_pool_at [OF assms that] assms unat_pos [of pool] by (auto simp: pool_ok_def)
  ultimately show ?thesis
    using run by (intro exI [of _ "s1\<lparr>tcbs := m, g_freeTaskControlBlock := pool\<rparr>"])
      (auto simp: sched_def ring_def s1_def os_boot_def eval_nat_numeral)
qed

section \<open>Runs of the scheduler\<close>

text \<open>The live tasks of a run of the interface. A task that waits is marked so that it does not have to
  run, and marked back when what it waits for arrives. Destroying is restricted to tasks that are not the
  first of the list.\<close>

inductive os_run :: "ptr \<Rightarrow> u32 \<Rightarrow> os_tasks \<Rightarrow> ptr set \<Rightarrow> bool" for pool sz where
  init: "OSA_Init pool sz (os_boot pool sz) = Some (st, s) \<Longrightarrow> os_run pool sz s {}"
| create: "os_run pool sz s T \<Longrightarrow> OSA_TaskCreate def prm s = Some (h, s') \<Longrightarrow>
    os_run pool sz s' (if h = NULL then T else insert h T)"
| set_priority: "os_run pool sz s T \<Longrightarrow> h \<in> T \<Longrightarrow> OSA_TaskSetPriority h p s = Some (st, s') \<Longrightarrow> os_run pool sz s' T"
| destroy: "os_run pool sz s T \<Longrightarrow> h \<in> T \<Longrightarrow> h \<noteq> p_taskListHead s \<Longrightarrow> OSA_TaskDestroy h s = Some (st, s') \<Longrightarrow>
    os_run pool sz s' (T - {h})"
| mark: "os_run pool sz s T \<Longrightarrow> h \<in> T \<Longrightarrow> mod_tcb h (haveToRun_update (\<lambda>_. b)) s = Some s' \<Longrightarrow> os_run pool sz s' T"

lemma sched_cur [simp]: "sched (s\<lparr>g_curTask := c\<rparr>) xs fs = sched s xs fs"
  by (simp add: sched_def)

lemma sched_mark:
  assumes "sched s xs fs" "h \<in> set xs"
  shows "\<exists>s'. mod_tcb h (haveToRun_update (\<lambda>_. b)) s = Some s' \<and> sched s' xs fs"
proof -
  obtain t where t: "tcbs s h = Some t" using assms tseg_in by (fastforce simp: sched_def ring_def)
  let ?m = "(tcbs s)(h \<mapsto> t\<lparr>haveToRun := b\<rparr>)"
  have "prio ?m = prio (tcbs s)" using t by (auto simp: prio_def)
  moreover have "ring ?m xs = ring (tcbs s) xs" using t by (rule ring_links) simp_all
  moreover have "h \<notin> set fs" using assms by (auto simp: sched_def)
  ultimately have "sched (s\<lparr>tcbs := ?m\<rparr>) xs fs" using assms by (simp add: sched_def)
  then show ?thesis using t by (simp add: mod_tcb_def get_tcb_def)
qed

lemma create_full: "sched s xs [] \<Longrightarrow> OSA_TaskCreate def prm s = Some (NULL, s)"
  by (simp add: sched_def OSA_TaskCreate_def)

lemma os_run_sched:
  assumes "os_run pool sz s T" "pool_ok pool sz"
  shows "\<exists>xs fs. sched s xs fs \<and> set xs = T \<and> length xs + length fs = TASK_MAX_NUM"
  using assms(1)
proof (induction rule: os_run.induct)
  case (init st s)
  then show ?case using OSA_Init_ok [OF assms(2)] by - (rule exI [of _ "[]"], rule exI [of _ "map (pool_at pool sz) [0..<7]"], auto)
next
  case (create s T "def" prm h s')
  then obtain xs fs where xs: "sched s xs fs" "set xs = T" "length xs + length fs = 7" by blast
  show ?case
  proof (cases fs)
    case Nil
    then show ?thesis using create.hyps(2) create_full [of s xs "def" prm] xs
      by - (rule exI [of _ xs], rule exI [of _ "[]"], auto)
  next
    case (Cons f fs')
    then obtain s2 where s2: "OSA_TaskCreate def prm s = Some (f, s2)" "sched s2 (place (prio (tcbs s2)) f xs) fs'"
      using OSA_TaskCreate_ok [of s xs f fs' "def" prm] xs(1) by blast
    have "length (place (prio (tcbs s2)) f xs) = Suc (length xs)"
      by (simp add: place_def) (metis length_append takeWhile_dropWhile_id)
    moreover have "f \<noteq> NULL" using xs(1) Cons by (simp add: sched_def)
    ultimately show ?thesis using s2 create.hyps(2) xs(2,3) Cons
      by (intro exI [of _ "place (prio (tcbs s2)) f xs"] exI [of _ fs']) (simp add: place_set)
  qed
next
  case (set_priority s T h p st s')
  then obtain xs fs where xs: "sched s xs fs" "set xs = T" "length xs + length fs = 7" by blast
  then obtain s2 where s2: "OSA_TaskSetPriority h p s = Some (osaStatus_Success, s2)"
    "sched s2 (place (prio (tcbs s2)) h (remove1 h xs)) fs"
    using OSA_TaskSetPriority_ok [of s xs fs h p] set_priority.hyps(2) by blast
  have d: "distinct xs" using xs(1) by (simp add: sched_def)
  have "length (place (prio (tcbs s2)) h (remove1 h xs)) = Suc (length (remove1 h xs))"
    by (simp add: place_def) (metis length_append takeWhile_dropWhile_id)
  then have "length (place (prio (tcbs s2)) h (remove1 h xs)) = length xs"
    using xs(2) set_priority.hyps(2) length_pos_if_in_set [of h xs] by (auto simp: length_remove1)
  then show ?case using s2 set_priority.hyps xs d
    by - (rule exI [of _ "place (prio (tcbs s2)) h (remove1 h xs)"], rule exI [of _ fs], auto simp: place_set)
next
  case (destroy s T h st s')
  then obtain xs fs where xs: "sched s xs fs" "set xs = T" "length xs + length fs = 7" by blast
  have hd: "xs \<noteq> [h]" "h \<noteq> hd xs" using destroy.hyps xs by (cases xs; auto simp: sched_def)+
  obtain s2 where s2: "OSA_TaskDestroy h s = Some (osaStatus_Success, s2)" "sched s2 (remove1 h xs) (h # fs)"
    using OSA_TaskDestroy_ok [of s xs fs h] xs destroy.hyps(2) hd by blast
  have "distinct xs" using xs(1) by (simp add: sched_def)
  moreover have "length (remove1 h xs) + length (h # fs) = 7"
  proof -
    have "h \<in> set xs" using xs(2) destroy.hyps(2) by simp
    then have "Suc (length (remove1 h xs)) = length xs" by (metis Suc_pred' length_pos_if_in_set length_remove1)
    then show ?thesis using xs(3) by simp
  qed
  ultimately show ?case using s2 destroy.hyps xs
    by - (rule exI [of _ "remove1 h xs"], rule exI [of _ "h # fs"], auto)
next
  case (mark s T h b s')
  then obtain xs fs where xs: "sched s xs fs" "set xs = T" "length xs + length fs = 7" by blast
  then have "sched s' xs fs" using sched_mark [of s xs fs h b] mark.hyps by auto
  then show ?case using xs by blast
qed

text \<open>Rounds of the endless loop.\<close>

fun rounds :: "(ptr \<Rightarrow> ptr \<Rightarrow> os_tasks \<Rightarrow> os_tasks) \<Rightarrow> nat \<Rightarrow> os_tasks \<Rightarrow> (ptr option list \<times> os_tasks) option" where
  "rounds run 0 s = Some ([], s)"
| "rounds run (Suc n) s = do {
     (r, s) \<leftarrow> OSA_Start_round run s;
     (rs, s) \<leftarrow> rounds run n s;
     Some (r # rs, s) }"

definition ready_task :: "os_tasks \<Rightarrow> ptr \<Rightarrow> bool" where
  "ready_task s x = (case tcbs s x of Some t \<Rightarrow> haveToRun t | None \<Rightarrow> False)"

lemma idle_rounds:
  assumes "tseg (tcbs s) p (pre @ x # post) n" "\<forall>y \<in> set pre. \<not> ready_task s y"
  shows "rounds run (length pre) (s\<lparr>g_curTask := hd (pre @ [x])\<rparr>) =
    Some (replicate (length pre) None, s\<lparr>g_curTask := x\<rparr>)"
  using assms
proof (induction pre arbitrary: p)
  case (Cons y pre)
  obtain t where t: "tcbs s y = Some t" "tcb_next t = hd (pre @ [x])"
    using Cons.prems(1) by (cases pre) auto
  have "\<not> haveToRun t" using Cons.prems(2) t(1) by (simp add: ready_task_def)
  then have "OSA_Start_round run (s\<lparr>g_curTask := y\<rparr>) = Some (None, s\<lparr>g_curTask := hd (pre @ [x])\<rparr>)"
    using t by (simp add: OSA_Start_round_def get_tcb_def)
  moreover have "rounds run (length pre) (s\<lparr>g_curTask := hd (pre @ [x])\<rparr>) =
      Some (replicate (length pre) None, s\<lparr>g_curTask := x\<rparr>)"
    using Cons.IH [of y] Cons.prems by auto
  ultimately show ?case by simp
qed simp

section \<open>Properties\<close>

text \<open>C14: whatever tasks are created, given another priority, marked or (other than the first) destroyed,
  the live tasks always form one circular list in the order of their priorities, which starts at the most
  urgent one; creating a task fails exactly when all seven blocks are in use, and changing the priority of
  a live task never fails. None of these operations faults or loops.\<close>

theorem osa_task_order:
  assumes "os_run pool sz s T" "pool_ok pool sz"
  shows "\<exists>xs. set xs = T \<and> ring (tcbs s) xs \<and> p_taskListHead s = hd_or NULL xs \<and> sorted (map (prio (tcbs s)) xs) \<and>
    (\<forall>def prm. \<exists>h s'. OSA_TaskCreate def prm s = Some (h, s') \<and> (h = NULL \<longleftrightarrow> card T = TASK_MAX_NUM)) \<and>
    (\<forall>h \<in> T. \<forall>p. \<exists>s'. OSA_TaskSetPriority h p s = Some (osaStatus_Success, s')) \<and>
    (\<forall>h \<in> T. h \<noteq> p_taskListHead s \<longrightarrow> (\<exists>s'. OSA_TaskDestroy h s = Some (osaStatus_Success, s')))"
proof -
  obtain xs fs where xs: "sched s xs fs" "set xs = T" "length xs + length fs = 7"
    using os_run_sched [OF assms] by blast
  have card: "card T = length xs" using xs(1,2) by (auto simp: sched_def distinct_card)
  have "\<exists>h s'. OSA_TaskCreate def prm s = Some (h, s') \<and> (h = NULL \<longleftrightarrow> card T = 7)" for "def" prm
  proof (cases fs)
    case Nil
    then show ?thesis using create_full [of s xs "def" prm] xs card by simp
  next
    case (Cons f fs')
    moreover have "f \<noteq> NULL" using xs(1) Cons by (simp add: sched_def)
    ultimately show ?thesis using OSA_TaskCreate_ok [of s xs f fs' "def" prm] xs(1,3) card by auto
  qed
  moreover have "\<exists>s'. OSA_TaskSetPriority h p s = Some (osaStatus_Success, s')" if "h \<in> T" for h p
    using OSA_TaskSetPriority_ok [OF xs(1), of h p] that xs(2) by blast
  moreover have "\<exists>s'. OSA_TaskDestroy h s = Some (osaStatus_Success, s')" if "h \<in> T" "h \<noteq> p_taskListHead s" for h
    using OSA_TaskDestroy_ok [OF xs(1), of h] that xs(1,2) by (cases "xs = [h]") (auto simp: sched_def)
  ultimately show ?thesis using xs(1,2) unfolding sched_def by (intro exI [of _ xs]) blast
qed

text \<open>C17: the scheduler runs the most urgent task that has to run: if some live task does, then after fewer
  idle rounds than there are tasks it runs one, no other task that has to run is more urgent, and the next
  search starts at the head of the list again.\<close>

theorem osa_runs_most_urgent:
  assumes "os_run pool sz s T" "pool_ok pool sz" "y \<in> T" "ready_task s y"
  shows "\<exists>n x s1 s2. n < card T \<and> rounds run n (OSA_Start_begin s) = Some (replicate n None, s1) \<and>
    OSA_Start_round run s1 = Some (Some x, s2) \<and> x \<in> T \<and> ready_task s x \<and>
    (\<forall>z \<in> T. ready_task s z \<longrightarrow> prio (tcbs s) x \<le> prio (tcbs s) z) \<and> g_curTask s2 = p_taskListHead s2"
proof -
  obtain xs fs where xs: "sched s xs fs" "set xs = T" using os_run_sched [OF assms(1,2)] by blast
  obtain pre x post where p: "xs = pre @ x # post" "ready_task s x" "\<forall>z \<in> set pre. \<not> ready_task s z"
    using split_list_first_propE [of xs "ready_task s"] assms(3,4) xs(2) by metis
  have card: "card T = length xs" using xs by (auto simp: sched_def distinct_card)
  obtain t where t: "tcbs s x = Some t" "haveToRun t" using p(2) by (auto simp: ready_task_def split: option.splits)
  have "tseg (tcbs s) (last_or NULL xs) (pre @ x # post) (hd_or NULL xs)" using xs(1) p(1) by (simp add: sched_def ring_def)
  moreover have "OSA_Start_begin s = s\<lparr>g_curTask := hd (pre @ [x])\<rparr>"
    using xs(1) p(1) by (cases pre) (simp_all add: OSA_Start_begin_def sched_def)
  ultimately have "rounds run (length pre) (OSA_Start_begin s) = Some (replicate (length pre) None, s\<lparr>g_curTask := x\<rparr>)"
    using idle_rounds p(3) by simp
  moreover obtain s2 where "OSA_Start_round run (s\<lparr>g_curTask := x\<rparr>) = Some (Some x, s2)" "g_curTask s2 = p_taskListHead s2"
    using t by (simp add: OSA_Start_round_def get_tcb_def Let_def)
  moreover have "prio (tcbs s) x \<le> prio (tcbs s) z" if "z \<in> T" "ready_task s z" for z
    using xs p that by (auto simp: sched_def sorted_append)
  ultimately show ?thesis using p xs(2) card by (intro exI [of _ "length pre"] exI) (auto simp: ready_task_def)
qed

text \<open>Destroying the first task leaves the head of the list at its block, which is then free: the list the
  scheduler starts from is the free list.\<close>

theorem osa_destroy_first_dangles:
  assumes "sched s (x # y # xs) fs"
  shows "\<exists>s'. OSA_TaskDestroy x s = Some (osaStatus_Success, s') \<and> ring (tcbs s') (y # xs) \<and>
    p_taskListHead s' = x \<and> g_freeTaskControlBlock s' = x"
  using OSA_TaskDestroy_ok [OF assms, of x] assms by (auto simp: sched_def)

text \<open>Two tasks, the second more urgent.\<close>

definition os0 :: os_tasks where
  "os0 = (case OSA_Init 0x1000 24 (os_boot 0x1000 24) of Some (st, s) \<Rightarrow> s | None \<Rightarrow> os_boot 0x1000 24)"
definition os1 :: os_tasks where
  "os1 = (case OSA_TaskCreate \<lparr>pthread = 0x100, tpriority = 5\<rparr> NULL os0 of Some (h, s) \<Rightarrow> s | None \<Rightarrow> os0)"
definition os2 :: os_tasks where
  "os2 = (case OSA_TaskCreate \<lparr>pthread = 0x200, tpriority = 3\<rparr> NULL os1 of Some (h, s) \<Rightarrow> s | None \<Rightarrow> os1)"

lemma pool_ok_example: "pool_ok 0x1000 24"
  by (simp add: pool_ok_def)

lemma os2_run: "\<exists>a b. os_run 0x1000 24 os2 {a, b} \<and> ready_task os2 b"
proof -
  let ?d1 = "\<lparr>pthread = 0x100, tpriority = 5\<rparr>" and ?d2 = "\<lparr>pthread = 0x200, tpriority = 3\<rparr>"
  obtain s where i: "OSA_Init 0x1000 24 (os_boot 0x1000 24) = Some (osaStatus_Success, s)"
    "sched s [] (map (pool_at 0x1000 24) [0..<7])"
    using OSA_Init_ok [OF pool_ok_example] by blast
  have "map (pool_at 0x1000 24) [0..<7] = pool_at 0x1000 24 0 # pool_at 0x1000 24 1 # map (pool_at 0x1000 24) [2..<7]"
    by (simp add: eval_nat_numeral upt_rec)
  then obtain f g fs where fs: "sched s [] (f # g # fs)" using i(2) by metis
  have s0: "os0 = s" by (simp add: os0_def i(1))
  obtain s1 where s1: "OSA_TaskCreate ?d1 NULL s = Some (f, s1)" "sched s1 (place (prio (tcbs s1)) f []) (g # fs)"
    using OSA_TaskCreate_ok [OF fs] by blast
  obtain s2 where s2: "OSA_TaskCreate ?d2 NULL s1 = Some (g, s2)" "\<exists>t. tcbs s2 g = Some t \<and> haveToRun t"
    using OSA_TaskCreate_ok [OF s1(2), of ?d2 NULL] by blast
  have e: "os1 = s1" "os2 = s2" using s1(1) s2(1) by (simp_all add: os1_def os2_def s0)
  have ne: "f \<noteq> NULL" "g \<noteq> NULL" using fs by (auto simp: sched_def)
  have "os_run 0x1000 24 s1 {f}" using os_run.create [OF os_run.init [OF i(1)] s1(1)] ne by simp
  from os_run.create [OF this s2(1)] have "os_run 0x1000 24 s2 {g, f}" using ne by simp
  moreover have "ready_task s2 f \<or> ready_task s2 g" using s2(2) by (auto simp: ready_task_def)
  ultimately show ?thesis using e s2(2) by - (rule exI [of _ f], rule exI [of _ g], auto simp: ready_task_def insert_commute)
qed

theorem osa_task_order_witness: "\<exists>xs. ring (tcbs os2) xs \<and> sorted (map (prio (tcbs os2)) xs)"
  using os2_run osa_task_order [OF _ pool_ok_example] by blast

theorem osa_runs_most_urgent_witness:
  "\<exists>n s1 x s2. rounds (\<lambda>f prm s. s) n (OSA_Start_begin os2) = Some (replicate n None, s1) \<and>
    OSA_Start_round (\<lambda>f prm s. s) s1 = Some (Some x, s2)"
  using os2_run osa_runs_most_urgent [OF _ pool_ok_example] by (metis insertCI)

end
