(* ===== verification/OSA_Objects.thy ===== *)
theory OSA_Objects
  imports OSA_Sched
begin

text \<open>
  Semaphores, mutexes, events and message queues of the bare-metal OS abstraction
  (\<open>OSAbstraction/Source/fsl_os_abstraction_bm.c\<close>). Each kind has an array of objects with
  a flag that says whether the object is in use, and handles are the addresses of the objects.
  Waiting is polling: a wait that is not served answers \<open>osaStatus_Idle\<close> and is called again,
  until it answers success or \<open>osaStatus_Timeout\<close>. Whether the build has the tick timer
  (\<open>FSL_OSA_BM_TIMER_CONFIG\<close>) is an argument. Critical sections are as in \<open>OSA_Irq\<close> and have no
  other effect.
\<close>

section \<open>Data\<close>

abbreviation (input) osNumberOfMessages :: nat where "osNumberOfMessages \<equiv> 10"
abbreviation (input) osaWaitForever_c :: u32 where "osaWaitForever_c \<equiv> 0xFFFFFFFF"
abbreviation (input) FSL_OSA_TIME_RANGE :: u32 where "FSL_OSA_TIME_RANGE \<equiv> 0xFFFFFFFF"

record semaphore_t =
  sem_isWaiting :: bool
  semCount :: u8
  sem_time_start :: u32
  sem_timeout :: u32

record mutex_t =
  mtx_isWaiting :: bool
  isLocked :: bool
  mtx_time_start :: u32
  mtx_timeout :: u32

record event_t =
  ev_isWaiting :: bool
  ev_time_start :: u32
  ev_timeout :: u32
  flags :: u32
  autoClear :: bool
  ev_waitingTask :: ptr

record msg_queue_t =
  mq_isWaiting :: bool
  mq_number :: u16
  mq_max :: u16
  mq_head :: u16
  mq_tail :: u16
  queueMem :: "u32 list"
  mq_time_start :: u32
  mq_timeout :: u32
  mq_waitingTask :: ptr

text \<open>An array of objects with their flags: where it lies, how far apart, and what it holds.\<close>

record 'a osObjectInfo =
  pHeap :: ptr
  objectStructSize :: u32
  objects :: "(u32 \<times> 'a) list"

record os_state =
  osSemaphores :: "semaphore_t osObjectInfo"
  osMutexes :: "mutex_t osObjectInfo"
  osEvents :: "event_t osObjectInfo"
  osMsgQs :: "msg_queue_t osObjectInfo"
  tasks :: os_tasks
  gTickCounter :: u32

section \<open>Handles\<close>

fun osObjectAlloc_from :: "u32 \<Rightarrow> ptr \<Rightarrow> (u32 \<times> 'a) list \<Rightarrow> ptr \<times> (u32 \<times> 'a) list" where
  "osObjectAlloc_from sz pObj [] = (NULL, [])"
| "osObjectAlloc_from sz pObj ((inUse, x) # os) =
     (if inUse = 0 then (pObj, (1, x) # os)
      else (let (p, os) = osObjectAlloc_from sz (pObj + sz) os in (p, (inUse, x) # os)))"

definition osObjectAlloc :: "'a osObjectInfo \<Rightarrow> ptr \<times> 'a osObjectInfo" where
  "osObjectAlloc h = (let (p, os) = osObjectAlloc_from (objectStructSize h) (pHeap h) (objects h) in (p, h\<lparr>objects := os\<rparr>))"

fun osObjectIsAllocated_from :: "u32 \<Rightarrow> ptr \<Rightarrow> ptr \<Rightarrow> (u32 \<times> 'a) list \<Rightarrow> bool" where
  "osObjectIsAllocated_from sz p pObj [] = False"
| "osObjectIsAllocated_from sz p pObj ((inUse, x) # os) =
     (if pObj = p then inUse \<noteq> 0 else osObjectIsAllocated_from sz p (pObj + sz) os)"

definition osObjectIsAllocated :: "'a osObjectInfo \<Rightarrow> ptr \<Rightarrow> bool" where
  "osObjectIsAllocated h p = osObjectIsAllocated_from (objectStructSize h) p (pHeap h) (objects h)"

fun osObjectFree_from :: "u32 \<Rightarrow> ptr \<Rightarrow> ptr \<Rightarrow> (u32 \<times> 'a) list \<Rightarrow> (u32 \<times> 'a) list" where
  "osObjectFree_from sz p pObj [] = []"
| "osObjectFree_from sz p pObj ((inUse, x) # os) =
     (if pObj = p then (0, x) # os else (inUse, x) # osObjectFree_from sz p (pObj + sz) os)"

definition osObjectFree :: "'a osObjectInfo \<Rightarrow> ptr \<Rightarrow> 'a osObjectInfo" where
  "osObjectFree h p = h\<lparr>objects := osObjectFree_from (objectStructSize h) p (pHeap h) (objects h)\<rparr>"

text \<open>Access to the object at an address; an address that is not that of an object faults.\<close>

fun obj_get_from :: "u32 \<Rightarrow> ptr \<Rightarrow> ptr \<Rightarrow> (u32 \<times> 'a) list \<Rightarrow> 'a option" where
  "obj_get_from sz p pObj [] = None"
| "obj_get_from sz p pObj ((inUse, x) # os) = (if pObj = p then Some x else obj_get_from sz p (pObj + sz) os)"

fun obj_put_from :: "u32 \<Rightarrow> ptr \<Rightarrow> 'a \<Rightarrow> ptr \<Rightarrow> (u32 \<times> 'a) list \<Rightarrow> (u32 \<times> 'a) list option" where
  "obj_put_from sz p y pObj [] = None"
| "obj_put_from sz p y pObj ((inUse, x) # os) =
     (if pObj = p then Some ((inUse, y) # os)
      else do { os \<leftarrow> obj_put_from sz p y (pObj + sz) os; Some ((inUse, x) # os) })"

definition obj_get :: "ptr \<Rightarrow> 'a osObjectInfo \<Rightarrow> 'a option" where
  "obj_get p h = obj_get_from (objectStructSize h) p (pHeap h) (objects h)"

definition obj_put :: "ptr \<Rightarrow> 'a \<Rightarrow> 'a osObjectInfo \<Rightarrow> 'a osObjectInfo option" where
  "obj_put p x h = do {
     os \<leftarrow> obj_put_from (objectStructSize h) p x (pHeap h) (objects h);
     Some (h\<lparr>objects := os\<rparr>) }"

section \<open>Time\<close>

definition OSA_TimeDiff :: "u32 \<Rightarrow> u32 \<Rightarrow> u32" where
  "OSA_TimeDiff time_start time_end =
     (if time_end \<ge> time_start then time_end - time_start else FSL_OSA_TIME_RANGE - time_start + time_end + 1)"

definition OSA_TimeGetMsec :: "bool \<Rightarrow> os_state \<Rightarrow> u32" where
  "OSA_TimeGetMsec timer s = (if timer then gTickCounter s else 0)"

definition SysTick_Handler :: "os_state \<Rightarrow> os_state" where
  "SysTick_Handler s = s\<lparr>gTickCounter := gTickCounter s + 1\<rparr>"

section \<open>Semaphores\<close>

definition OSA_SemaphoreCreate :: "u32 \<Rightarrow> os_state \<Rightarrow> (ptr \<times> os_state) option" where
  "OSA_SemaphoreCreate initValue s =
     (let (semId, h) = osObjectAlloc (osSemaphores s) in
      if semId = NULL then Some (NULL, s\<lparr>osSemaphores := h\<rparr>)
      else do {
        h \<leftarrow> obj_put semId \<lparr>sem_isWaiting = False, semCount = ucast initValue, sem_time_start = 0, sem_timeout = 0\<rparr> h;
        Some (semId, s\<lparr>osSemaphores := h\<rparr>) })"

definition OSA_SemaphoreDestroy :: "ptr \<Rightarrow> os_state \<Rightarrow> osaStatus \<times> os_state" where
  "OSA_SemaphoreDestroy semId s =
     (if \<not> osObjectIsAllocated (osSemaphores s) semId then (osaStatus_Error, s)
      else (osaStatus_Success, s\<lparr>osSemaphores := osObjectFree (osSemaphores s) semId\<rparr>))"

definition put_sem :: "ptr \<Rightarrow> semaphore_t \<Rightarrow> osaStatus \<Rightarrow> os_state \<Rightarrow> (osaStatus \<times> os_state) option" where
  "put_sem semId x st s = do { h \<leftarrow> obj_put semId x (osSemaphores s); Some (st, s\<lparr>osSemaphores := h\<rparr>) }"

definition OSA_SemaphoreWait :: "bool \<Rightarrow> ptr \<Rightarrow> u32 \<Rightarrow> os_state \<Rightarrow> (osaStatus \<times> os_state) option" where
  "OSA_SemaphoreWait timer semId millisec s =
     (if \<not> osObjectIsAllocated (osSemaphores s) semId then Some (osaStatus_Error, s)
      else do {
        x \<leftarrow> obj_get semId (osSemaphores s);
        if semCount x \<noteq> 0 then put_sem semId (x\<lparr>semCount := semCount x - 1, sem_isWaiting := False\<rparr>) osaStatus_Success s
        else if millisec = 0 then Some (osaStatus_Timeout, s)
        else if timer \<and> sem_isWaiting x then
          (if sem_timeout x < OSA_TimeDiff (sem_time_start x) (OSA_TimeGetMsec timer s)
           then put_sem semId (x\<lparr>sem_isWaiting := False\<rparr>) osaStatus_Timeout s
           else Some (osaStatus_Idle, s))
        else if timer \<and> millisec \<noteq> osaWaitForever_c then
          put_sem semId (x\<lparr>sem_isWaiting := True, sem_time_start := OSA_TimeGetMsec timer s, sem_timeout := millisec\<rparr>)
            osaStatus_Idle s
        else Some (osaStatus_Idle, s) })"

definition OSA_SemaphorePost :: "ptr \<Rightarrow> os_state \<Rightarrow> (osaStatus \<times> os_state) option" where
  "OSA_SemaphorePost semId s =
     (if \<not> osObjectIsAllocated (osSemaphores s) semId then Some (osaStatus_Error, s)
      else do {
        x \<leftarrow> obj_get semId (osSemaphores s);
        if semCount x = 0xFF then Some (osaStatus_Error, s)
        else put_sem semId (x\<lparr>semCount := semCount x + 1\<rparr>) osaStatus_Success s })"

section \<open>Mutexes\<close>

definition OSA_MutexCreate :: "os_state \<Rightarrow> (ptr \<times> os_state) option" where
  "OSA_MutexCreate s =
     (let (mutexId, h) = osObjectAlloc (osMutexes s) in
      if mutexId = NULL then Some (NULL, s\<lparr>osMutexes := h\<rparr>)
      else do {
        h \<leftarrow> obj_put mutexId \<lparr>mtx_isWaiting = False, isLocked = False, mtx_time_start = 0, mtx_timeout = 0\<rparr> h;
        Some (mutexId, s\<lparr>osMutexes := h\<rparr>) })"

definition put_mutex :: "ptr \<Rightarrow> mutex_t \<Rightarrow> osaStatus \<Rightarrow> os_state \<Rightarrow> (osaStatus \<times> os_state) option" where
  "put_mutex mutexId x st s = do { h \<leftarrow> obj_put mutexId x (osMutexes s); Some (st, s\<lparr>osMutexes := h\<rparr>) }"

definition OSA_MutexLock :: "bool \<Rightarrow> ptr \<Rightarrow> u32 \<Rightarrow> os_state \<Rightarrow> (osaStatus \<times> os_state) option" where
  "OSA_MutexLock timer mutexId millisec s =
     (if \<not> osObjectIsAllocated (osMutexes s) mutexId then Some (osaStatus_Error, s)
      else do {
        x \<leftarrow> obj_get mutexId (osMutexes s);
        if \<not> isLocked x then put_mutex mutexId (x\<lparr>isLocked := True, mtx_isWaiting := False\<rparr>) osaStatus_Success s
        else if millisec = 0 then Some (osaStatus_Timeout, s)
        else if timer \<and> mtx_isWaiting x then
          (if mtx_timeout x < OSA_TimeDiff (mtx_time_start x) (OSA_TimeGetMsec timer s)
           then put_mutex mutexId (x\<lparr>mtx_isWaiting := False\<rparr>) osaStatus_Timeout s
           else Some (osaStatus_Idle, s))
        else if timer \<and> millisec \<noteq> osaWaitForever_c then
          put_mutex mutexId (x\<lparr>mtx_isWaiting := True, mtx_time_start := OSA_TimeGetMsec timer s, mtx_timeout := millisec\<rparr>)
            osaStatus_Idle s
        else Some (osaStatus_Idle, s) })"

definition OSA_MutexUnlock :: "ptr \<Rightarrow> os_state \<Rightarrow> (osaStatus \<times> os_state) option" where
  "OSA_MutexUnlock mutexId s =
     (if \<not> osObjectIsAllocated (osMutexes s) mutexId then Some (osaStatus_Error, s)
      else do {
        x \<leftarrow> obj_get mutexId (osMutexes s);
        put_mutex mutexId (x\<lparr>isLocked := False\<rparr>) osaStatus_Success s })"

definition OSA_MutexDestroy :: "ptr \<Rightarrow> os_state \<Rightarrow> osaStatus \<times> os_state" where
  "OSA_MutexDestroy mutexId s =
     (if \<not> osObjectIsAllocated (osMutexes s) mutexId then (osaStatus_Error, s)
      else (osaStatus_Success, s\<lparr>osMutexes := osObjectFree (osMutexes s) mutexId\<rparr>))"

section \<open>Events\<close>

text \<open>Marking a task that may be \<open>NULL\<close>.\<close>

definition wake_task :: "ptr \<Rightarrow> os_tasks \<Rightarrow> os_tasks option" where
  "wake_task h s = (if h \<noteq> NULL then mod_tcb h (haveToRun_update (\<lambda>_. True)) s else Some s)"

definition OSA_EventCreate :: "bool \<Rightarrow> os_state \<Rightarrow> (ptr \<times> os_state) option" where
  "OSA_EventCreate auto s =
     (let (eventId, h) = osObjectAlloc (osEvents s) in
      if eventId = NULL then Some (NULL, s\<lparr>osEvents := h\<rparr>)
      else do {
        h \<leftarrow> obj_put eventId \<lparr>ev_isWaiting = False, ev_time_start = 0, ev_timeout = 0, flags = 0, autoClear = auto,
          ev_waitingTask = NULL\<rparr> h;
        Some (eventId, s\<lparr>osEvents := h\<rparr>) })"

definition OSA_EventSet :: "ptr \<Rightarrow> u32 \<Rightarrow> os_state \<Rightarrow> (osaStatus \<times> os_state) option" where
  "OSA_EventSet eventId flagsToSet s =
     (if \<not> osObjectIsAllocated (osEvents s) eventId then Some (osaStatus_Error, s)
      else do {
        x \<leftarrow> obj_get eventId (osEvents s);
        h \<leftarrow> obj_put eventId (x\<lparr>flags := flags x OR flagsToSet\<rparr>) (osEvents s);
        t \<leftarrow> wake_task (ev_waitingTask x) (tasks s);
        Some (osaStatus_Success, s\<lparr>osEvents := h, tasks := t\<rparr>) })"

definition OSA_EventClear :: "ptr \<Rightarrow> u32 \<Rightarrow> os_state \<Rightarrow> (osaStatus \<times> os_state) option" where
  "OSA_EventClear eventId flagsToClear s =
     (if \<not> osObjectIsAllocated (osEvents s) eventId then Some (osaStatus_Error, s)
      else do {
        x \<leftarrow> obj_get eventId (osEvents s);
        let f = flags x AND NOT flagsToClear;
        h \<leftarrow> obj_put eventId (x\<lparr>flags := f\<rparr>) (osEvents s);
        t \<leftarrow> (if f \<noteq> 0 then wake_task (ev_waitingTask x) (tasks s) else Some (tasks s));
        Some (osaStatus_Success, s\<lparr>osEvents := h, tasks := t\<rparr>) })"

text \<open>The flags that are written through \<open>pSetFlags\<close> are part of the answer.\<close>

definition OSA_EventWait ::
  "bool \<Rightarrow> ptr \<Rightarrow> u32 \<Rightarrow> bool \<Rightarrow> u32 \<Rightarrow> ptr \<Rightarrow> os_state \<Rightarrow> (osaStatus \<times> u32 option \<times> os_state) option" where
  "OSA_EventWait timer eventId flagsToWait waitAll millisec pSetFlags s =
     (if pSetFlags = NULL then Some (osaStatus_Error, None, s)
      else if \<not> osObjectIsAllocated (osEvents s) eventId then Some (osaStatus_Error, None, s)
      else do {
        x \<leftarrow> obj_get eventId (osEvents s);
        let x = x\<lparr>ev_waitingTask := OSA_TaskGetId (tasks s)\<rparr>;
        let setFlags = flags x AND flagsToWait;
        (st, x, t) \<leftarrow>
          (if (\<not> waitAll \<and> setFlags \<noteq> 0) \<or> setFlags = flagsToWait then
             Some (osaStatus_Success,
               (if autoClear x then x\<lparr>ev_isWaiting := False, flags := flags x AND NOT flagsToWait\<rparr>
                else x\<lparr>ev_isWaiting := False\<rparr>), tasks s)
           else if millisec = 0 then Some (osaStatus_Timeout, x, tasks s)
           else if timer \<and> ev_isWaiting x then
             (if ev_timeout x < OSA_TimeDiff (ev_time_start x) (OSA_TimeGetMsec timer s)
              then Some (osaStatus_Timeout, x\<lparr>ev_isWaiting := False\<rparr>, tasks s)
              else Some (osaStatus_Idle, x, tasks s))
           else if timer \<and> millisec \<noteq> osaWaitForever_c then
             Some (osaStatus_Idle,
               x\<lparr>ev_isWaiting := True, ev_time_start := OSA_TimeGetMsec timer s, ev_timeout := millisec\<rparr>, tasks s)
           else do {
             t \<leftarrow> mod_tcb (ev_waitingTask x) (haveToRun_update (\<lambda>_. False)) (tasks s);
             Some (osaStatus_Idle, x, t) });
        h \<leftarrow> obj_put eventId x (osEvents s);
        Some (st, Some setFlags, s\<lparr>osEvents := h, tasks := t\<rparr>) })"

definition OSA_EventDestroy :: "ptr \<Rightarrow> os_state \<Rightarrow> osaStatus \<times> os_state" where
  "OSA_EventDestroy eventId s =
     (if \<not> osObjectIsAllocated (osEvents s) eventId then (osaStatus_Error, s)
      else (osaStatus_Success, s\<lparr>osEvents := osObjectFree (osEvents s) eventId\<rparr>))"

section \<open>Message queues\<close>

definition OSA_MsgQCreate :: "u32 \<Rightarrow> os_state \<Rightarrow> (ptr \<times> os_state) option" where
  "OSA_MsgQCreate msgNo s =
     (if msgNo \<le> of_nat osNumberOfMessages then
        (let (msgQId, h) = osObjectAlloc (osMsgQs s) in
         if msgQId = NULL then Some (NULL, s\<lparr>osMsgQs := h\<rparr>)
         else do {
           q \<leftarrow> obj_get msgQId h;
           h \<leftarrow> obj_put msgQId (q\<lparr>mq_max := ucast msgNo, mq_number := 0, mq_head := 0, mq_tail := 0\<rparr>) h;
           Some (msgQId, s\<lparr>osMsgQs := h\<rparr>) })
      else Some (NULL, s))"

text \<open>The message is what \<open>pMessage\<close> points at.\<close>

definition OSA_MsgQPut :: "ptr \<Rightarrow> u32 \<Rightarrow> os_state \<Rightarrow> (osaStatus \<times> os_state) option" where
  "OSA_MsgQPut msgQId message s =
     (if \<not> osObjectIsAllocated (osMsgQs s) msgQId then Some (osaStatus_Error, s)
      else do {
        q \<leftarrow> obj_get msgQId (osMsgQs s);
        if mq_number q \<ge> mq_max q then Some (osaStatus_Error, s)
        else do {
          mem \<leftarrow> upd_opt (queueMem q) (unat (mq_tail q)) message;
          let tail = mq_tail q + 1;
          h \<leftarrow> obj_put msgQId (q\<lparr>queueMem := mem, mq_number := mq_number q + 1,
            mq_tail := (if tail \<ge> mq_max q then 0 else tail)\<rparr>) (osMsgQs s);
          t \<leftarrow> wake_task (mq_waitingTask q) (tasks s);
          Some (osaStatus_Success, s\<lparr>osMsgQs := h, tasks := t\<rparr>) } })"

definition OSA_MsgQGet :: "bool \<Rightarrow> ptr \<Rightarrow> u32 \<Rightarrow> os_state \<Rightarrow> (osaStatus \<times> u32 option \<times> os_state) option" where
  "OSA_MsgQGet timer msgQId millisec s =
     (if \<not> osObjectIsAllocated (osMsgQs s) msgQId then Some (osaStatus_Error, None, s)
      else do {
        q \<leftarrow> obj_get msgQId (osMsgQs s);
        let q = q\<lparr>mq_waitingTask := OSA_TaskGetId (tasks s)\<rparr>;
        (st, m, q, t) \<leftarrow>
          (if mq_number q \<noteq> 0 then do {
             m \<leftarrow> nth_opt (queueMem q) (unat (mq_head q));
             let head = mq_head q + 1;
             Some (osaStatus_Success, Some m, q\<lparr>mq_isWaiting := False, mq_number := mq_number q - 1,
               mq_head := (if head \<ge> mq_max q then 0 else head)\<rparr>, tasks s) }
           else if millisec = 0 then Some (osaStatus_Timeout, None, q, tasks s)
           else if timer \<and> mq_isWaiting q then
             (if mq_timeout q < OSA_TimeDiff (mq_time_start q) (OSA_TimeGetMsec timer s)
              then Some (osaStatus_Timeout, None, q\<lparr>mq_isWaiting := False\<rparr>, tasks s)
              else Some (osaStatus_Idle, None, q, tasks s))
           else if timer \<and> millisec \<noteq> osaWaitForever_c then
             Some (osaStatus_Idle, None,
               q\<lparr>mq_isWaiting := True, mq_time_start := OSA_TimeGetMsec timer s, mq_timeout := millisec\<rparr>, tasks s)
           else do {
             t \<leftarrow> mod_tcb (mq_waitingTask q) (haveToRun_update (\<lambda>_. False)) (tasks s);
             Some (osaStatus_Idle, None, q, t) });
        h \<leftarrow> obj_put msgQId q (osMsgQs s);
        Some (st, m, s\<lparr>osMsgQs := h, tasks := t\<rparr>) })"

definition OSA_MsgQDestroy :: "ptr \<Rightarrow> os_state \<Rightarrow> (osaStatus \<times> os_state) option" where
  "OSA_MsgQDestroy msgQId s =
     (if \<not> osObjectIsAllocated (osMsgQs s) msgQId then Some (osaStatus_Error, s)
      else do {
        q \<leftarrow> obj_get msgQId (osMsgQs s);
        t \<leftarrow> wake_task (mq_waitingTask q) (tasks s);
        h \<leftarrow> obj_put msgQId (if mq_waitingTask q \<noteq> NULL then q\<lparr>mq_waitingTask := NULL\<rparr> else q) (osMsgQs s);
        Some (osaStatus_Success, s\<lparr>osMsgQs := osObjectFree h msgQId, tasks := t\<rparr>) })"

section \<open>Arrays of objects\<close>

text \<open>The objects lie in one piece of memory: the addresses are different and not \<open>NULL\<close>.\<close>

definition obj_addr :: "u32 \<Rightarrow> ptr \<Rightarrow> nat \<Rightarrow> ptr" where
  "obj_addr sz p i = p + of_nat i * sz"

definition objs_ok :: "'a osObjectInfo \<Rightarrow> bool" where
  "objs_ok h \<longleftrightarrow> pHeap h \<noteq> NULL \<and> 0 < objectStructSize h \<and>
     unat (pHeap h) + length (objects h) * unat (objectStructSize h) \<le> 2 ^ 32"

abbreviation (input) addr_of :: "'a osObjectInfo \<Rightarrow> nat \<Rightarrow> ptr" where
  "addr_of h i \<equiv> obj_addr (objectStructSize h) (pHeap h) i"

lemma obj_addr_0 [simp]: "obj_addr sz p 0 = p"
  by (simp add: obj_addr_def)

lemma obj_addr_Suc: "obj_addr sz p (Suc i) = obj_addr sz (p + sz) i"
  by (simp add: obj_addr_def algebra_simps)

lemma unat_addr:
  assumes "objs_ok h" "i < length (objects h)"
  shows "unat (addr_of h i) = unat (pHeap h) + i * unat (objectStructSize h)"
proof -
  let ?n = "length (objects h)" and ?z = "unat (objectStructSize h)"
  have z: "0 < ?z" using assms(1) by (simp add: objs_ok_def word_less_nat_alt)
  have "i * ?z < ?n * ?z" using assms(2) z by simp
  then have lt: "unat (pHeap h) + i * ?z < 2 ^ 32" "i * ?z < 2 ^ 32"
    using assms(1) unfolding objs_ok_def by linarith+
  have "i \<le> i * ?z" using z by simp
  then have "i < 2 ^ 32" using lt(2) by linarith
  then have "unat (of_nat i * objectStructSize h) = i * ?z" using lt(2) by (simp add: unat_word_ariths unat_of_nat)
  then show ?thesis using lt(1) by (simp add: obj_addr_def unat_word_ariths)
qed

lemma addr_inj:
  assumes "objs_ok h" "i < length (objects h)" "j < length (objects h)" "addr_of h i = addr_of h j"
  shows "i = j"
proof -
  have "unat (pHeap h) + i * unat (objectStructSize h) = unat (pHeap h) + j * unat (objectStructSize h)"
    unfolding unat_addr [OF assms(1,2), symmetric] unat_addr [OF assms(1,3), symmetric] assms(4) by (rule refl)
  then have "i * unat (objectStructSize h) = j * unat (objectStructSize h)" by (simp only: add_left_cancel)
  moreover have "0 < unat (objectStructSize h)" using assms(1) by (simp add: objs_ok_def word_less_nat_alt)
  ultimately show ?thesis by simp
qed

lemma addr_not_null: "objs_ok h \<Longrightarrow> i < length (objects h) \<Longrightarrow> addr_of h i \<noteq> NULL"
  using unat_addr [of h i] unat_pos [of "pHeap h"] by (auto simp: objs_ok_def)

text \<open>Walking to the first address that matches.\<close>

lemma from_addr:
  assumes "i < length os" "\<forall>j < i. obj_addr sz q j \<noteq> obj_addr sz q i"
  shows "obj_get_from sz (obj_addr sz q i) q os = Some (snd (os ! i)) \<and>
    obj_put_from sz (obj_addr sz q i) y q os = Some (os[i := (fst (os ! i), y)]) \<and>
    (osObjectIsAllocated_from sz (obj_addr sz q i) q os \<longleftrightarrow> fst (os ! i) \<noteq> 0) \<and>
    osObjectFree_from sz (obj_addr sz q i) q os = os[i := (0, snd (os ! i))]"
  using assms
proof (induction os arbitrary: q i)
  case (Cons ob os)
  obtain u x where ob: "ob = (u, x)" by force
  show ?case
  proof (cases i)
    case (Suc k)
    then have "q \<noteq> obj_addr sz (q + sz) k" using Cons.prems(2) by (metis obj_addr_0 obj_addr_Suc zero_less_Suc)
    moreover have "\<forall>j < k. obj_addr sz (q + sz) j \<noteq> obj_addr sz (q + sz) k"
      using Cons.prems(2) Suc by (metis Suc_less_eq obj_addr_Suc)
    ultimately show ?thesis using Cons.IH [of k "q + sz"] Cons.prems(1) Suc by (simp add: ob obj_addr_Suc)
  qed (simp add: ob)
qed simp

lemma allocated_from_addr:
  "osObjectIsAllocated_from sz p q os \<Longrightarrow> \<exists>i < length os. p = obj_addr sz q i"
proof (induction sz p q os rule: osObjectIsAllocated_from.induct)
  case (2 sz p q u x os)
  show ?case
  proof (cases "q = p")
    case True
    then show ?thesis by (intro exI [of _ 0]) simp
  next
    case False
    then obtain i where "i < length os" "p = obj_addr sz (q + sz) i" using 2 by auto
    then show ?thesis by (intro exI [of _ "Suc i"]) (simp add: obj_addr_Suc)
  qed
qed simp

lemma alloc_from:
  "osObjectAlloc_from sz q os = (p, os') \<Longrightarrow>
    (\<exists>i < length os. fst (os ! i) = 0 \<and> (\<forall>j < i. fst (os ! j) \<noteq> 0) \<and> p = obj_addr sz q i \<and> os' = os[i := (1, snd (os ! i))]) \<or>
    (\<forall>i < length os. fst (os ! i) \<noteq> 0) \<and> p = NULL \<and> os' = os"
proof (induction sz q os arbitrary: p os' rule: osObjectAlloc_from.induct)
  case (2 sz q u x os)
  show ?case
  proof (cases "u = 0")
    case True
    then show ?thesis using 2(2) by (intro disjI1 exI [of _ 0]) simp
  next
    case False
    then obtain os1 where os1: "osObjectAlloc_from sz (q + sz) os = (p, os1)" "os' = (u, x) # os1"
      using 2(2) by (auto split: prod.splits)
    from 2(1) [OF False os1(1)] show ?thesis
    proof (elim disjE exE conjE)
      fix i assume i: "i < length os" "fst (os ! i) = 0" "\<forall>j < i. fst (os ! j) \<noteq> 0" "p = obj_addr sz (q + sz) i"
        "os1 = os[i := (1, snd (os ! i))]"
      have "fst (((u, x) # os) ! j) \<noteq> 0" if "j < Suc i" for j
        using that i(3) False by (cases j) simp_all
      then show ?thesis using i os1(2)
        by (intro disjI1 exI [of _ "Suc i"]) (simp add: obj_addr_Suc)
    next
      assume n: "\<forall>i < length os. fst (os ! i) \<noteq> 0" "p = NULL" "os1 = os"
      have "fst (((u, x) # os) ! j) \<noteq> 0" if "j < length ((u, x) # os)" for j
        using that n(1) False by (cases j) simp_all
      then show ?thesis using n os1(2) by blast
    qed
  qed
qed simp

section \<open>Objects by their place in the array\<close>

lemma obj_at:
  assumes "objs_ok h" "i < length (objects h)"
  shows "obj_get (addr_of h i) h = Some (snd (objects h ! i))"
    "obj_put (addr_of h i) y h = Some (h\<lparr>objects := (objects h)[i := (fst (objects h ! i), y)]\<rparr>)"
    "osObjectIsAllocated h (addr_of h i) \<longleftrightarrow> fst (objects h ! i) \<noteq> 0"
    "osObjectFree h (addr_of h i) = h\<lparr>objects := (objects h)[i := (0, snd (objects h ! i))]\<rparr>"
proof -
  have "addr_of h j \<noteq> addr_of h i" if "j < i" for j using addr_inj [OF assms(1), of j i] assms(2) that by auto
  then have "\<forall>j < i. addr_of h j \<noteq> addr_of h i" by blast
  from from_addr [OF assms(2) this]
  show "obj_get (addr_of h i) h = Some (snd (objects h ! i))"
    "obj_put (addr_of h i) y h = Some (h\<lparr>objects := (objects h)[i := (fst (objects h ! i), y)]\<rparr>)"
    "osObjectIsAllocated h (addr_of h i) \<longleftrightarrow> fst (objects h ! i) \<noteq> 0"
    "osObjectFree h (addr_of h i) = h\<lparr>objects := (objects h)[i := (0, snd (objects h ! i))]\<rparr>"
    by (simp_all add: obj_get_def obj_put_def osObjectIsAllocated_def osObjectFree_def)
qed

lemma allocated_at:
  assumes "objs_ok h" "osObjectIsAllocated h p"
  obtains i where "i < length (objects h)" "p = addr_of h i" "fst (objects h ! i) \<noteq> 0"
  using allocated_from_addr [of "objectStructSize h" p "pHeap h" "objects h"] assms obj_at(3) [OF assms(1)]
  by (auto simp: osObjectIsAllocated_def)

lemma alloc_at:
  assumes "osObjectAlloc h = (p, h')"
  obtains (some) i where "i < length (objects h)" "fst (objects h ! i) = 0" "\<forall>j < i. fst (objects h ! j) \<noteq> 0"
      "p = addr_of h i" "h' = h\<lparr>objects := (objects h)[i := (1, snd (objects h ! i))]\<rparr>"
    | (none) "\<forall>i < length (objects h). fst (objects h ! i) \<noteq> 0" "p = NULL" "h' = h"
  using alloc_from [of "objectStructSize h" "pHeap h" "objects h" p] assms
  by (auto simp: osObjectAlloc_def split: prod.splits)

lemma objs_ok_upd [simp]: "length os = length (objects h) \<Longrightarrow> objs_ok (h\<lparr>objects := os\<rparr>) = objs_ok h"
  by (simp add: objs_ok_def)

text \<open>The object behind a handle that is in use.\<close>

definition live :: "ptr \<Rightarrow> 'a osObjectInfo \<Rightarrow> 'a option" where
  "live p h = (if osObjectIsAllocated h p then obj_get p h else None)"

lemma live_get:
  assumes "objs_ok h" "live p h = Some x"
  shows "osObjectIsAllocated h p" "obj_get p h = Some x"
  using assms by (auto simp: live_def split: if_splits)

lemma live_other:
  assumes ok: "objs_ok h" and i: "i < length (objects h)" and q: "q \<noteq> addr_of h i"
  shows "live q (h\<lparr>objects := (objects h)[i := z]\<rparr>) = live q h"
proof -
  let ?h' = "h\<lparr>objects := (objects h)[i := z]\<rparr>"
  have ok': "objs_ok ?h'" using ok by simp
  show ?thesis
  proof (cases "\<exists>j < length (objects h). q = addr_of h j")
    case True
    then obtain j where j: "j < length (objects h)" "q = addr_of h j" by blast
    then have "j \<noteq> i" using q by auto
    then show ?thesis using obj_at(1,3) [OF ok j(1)] obj_at(1,3) [OF ok', of j] j by (simp add: live_def)
  next
    case False
    then have "\<not> osObjectIsAllocated h q" by (auto elim: allocated_at [OF ok])
    moreover have "\<not> osObjectIsAllocated ?h' q"
    proof
      assume "osObjectIsAllocated ?h' q"
      then show False by (rule allocated_at [OF ok']) (use False in auto)
    qed
    ultimately show ?thesis by (simp add: live_def)
  qed
qed

lemma live_put:
  assumes ok: "objs_ok h" and l: "live p h = Some x"
  shows "\<exists>h'. obj_put p y h = Some h' \<and> objs_ok h' \<and> live p h' = Some y \<and> (\<forall>q. q \<noteq> p \<longrightarrow> live q h' = live q h)"
proof -
  obtain i where i: "i < length (objects h)" "p = addr_of h i" "fst (objects h ! i) \<noteq> 0"
    using allocated_at [OF ok live_get(1) [OF ok l]] by blast
  let ?h' = "h\<lparr>objects := (objects h)[i := (fst (objects h ! i), y)]\<rparr>"
  have ok': "objs_ok ?h'" using ok by simp
  have put: "obj_put p y h = Some ?h'" using obj_at(2) [OF ok i(1)] i(2) by simp
  have "live p ?h' = Some y" using obj_at(1,3) [OF ok', of i] i by (simp add: live_def)
  moreover have "live q ?h' = live q h" if "q \<noteq> p" for q using live_other [OF ok i(1)] i(2) that by simp
  ultimately show ?thesis using put ok' by blast
qed

lemma not_live:
  assumes ok: "objs_ok h" and l: "live p h = None"
  shows "\<not> osObjectIsAllocated h p"
proof
  assume a: "osObjectIsAllocated h p"
  then obtain i where "i < length (objects h)" "p = addr_of h i" using allocated_at [OF ok] by blast
  then show False using obj_at(1) [OF ok] a l by (simp add: live_def)
qed

text \<open>Allocating and freeing a handle.\<close>

lemma live_alloc:
  assumes ok: "objs_ok h" and a: "osObjectAlloc h = (p, h')"
  shows "objs_ok h' \<and> (if \<forall>i < length (objects h). fst (objects h ! i) \<noteq> 0 then p = NULL \<and> h' = h
    else p \<noteq> NULL \<and> live p h = None \<and> (\<exists>x. live p h' = Some x) \<and> (\<forall>q. q \<noteq> p \<longrightarrow> live q h' = live q h))"
  using a
proof (cases rule: alloc_at)
  case (some i)
  have ok': "objs_ok h'" using ok some(5) by simp
  have "live q h' = live q h" if "q \<noteq> p" for q unfolding some(5) using live_other [OF ok some(1)] some(4) that by simp
  moreover have "live p h = None" using obj_at(3) [OF ok some(1)] some(2,4) by (simp add: live_def)
  moreover have "live p h' = Some (snd (objects h ! i))"
    using obj_at(1,3) [OF ok', of i] some(1,4,5) by (simp add: live_def)
  ultimately show ?thesis using ok' some(1,2,4) addr_not_null [OF ok some(1)] by auto
next
  case none
  then show ?thesis using ok by simp
qed

lemma live_free:
  assumes ok: "objs_ok h" and l: "live p h = Some x"
  shows "objs_ok (osObjectFree h p) \<and> live p (osObjectFree h p) = None \<and>
    (\<forall>q. q \<noteq> p \<longrightarrow> live q (osObjectFree h p) = live q h)"
proof -
  obtain i where i: "i < length (objects h)" "p = addr_of h i"
    using allocated_at [OF ok live_get(1) [OF ok l]] by blast
  let ?h' = "osObjectFree h p"
  have h': "?h' = h\<lparr>objects := (objects h)[i := (0, snd (objects h ! i))]\<rparr>" using obj_at(4) [OF ok i(1)] i(2) by simp
  have ok': "objs_ok ?h'" using ok unfolding h' by simp
  have "live p ?h' = None" using obj_at(3) [OF ok', of i] i unfolding h' by (simp add: live_def)
  moreover have "live q ?h' = live q h" if "q \<noteq> p" for q unfolding h' using live_other [OF ok i(1)] i(2) that by simp
  ultimately show ?thesis using ok' by blast
qed

end
