(* ===== verification/OSA_Waits.thy ===== *)
theory OSA_Waits
  imports OSA_Objects
begin

text \<open>
  Waiting for the objects of \<open>OSA_Objects\<close>. The locale \<open>timed_wait\<close> states what polling an object with a
  timeout promises, and is interpreted for semaphores, mutexes, events and message queues. A message queue is a
  ring that holds a sequence of messages; its runs are those of a bounded sequence.
\<close>

section \<open>Polled waits with a timeout\<close>

lemma OSA_TimeDiff_eq: "OSA_TimeDiff a b = b - a"
proof -
  have m: "(0xFFFFFFFF :: u32) = - 1" by simp
  have "(- 1 :: u32) - a + b + 1 = b - a" by simp
  then show ?thesis unfolding OSA_TimeDiff_def m by simp
qed

text \<open>What a wait depends on: whether the object can serve it, and the timeout that runs.\<close>

record wait_view =
  avail :: bool
  waiting :: bool
  since :: u32
  limit :: u32

text \<open>The answer of a poll that is not served at the time \<open>now\<close>. Without the tick timer no timeout is started and
  none is looked at.\<close>

definition wait_step :: "bool \<Rightarrow> u32 \<Rightarrow> u32 \<Rightarrow> wait_view \<Rightarrow> osaStatus \<times> wait_view" where
  "wait_step timer now ms v =
     (if ms = 0 then (osaStatus_Timeout, v)
      else if \<not> timer then (osaStatus_Idle, v)
      else if waiting v then
        (if limit v < now - since v then (osaStatus_Timeout, v\<lparr>waiting := False\<rparr>) else (osaStatus_Idle, v))
      else if ms \<noteq> osaWaitForever_c then (osaStatus_Idle, v\<lparr>waiting := True, since := now, limit := ms\<rparr>)
      else (osaStatus_Idle, v))"

text \<open>Polls at the given times.\<close>

fun polls :: "('s \<Rightarrow> (osaStatus \<times> 's) option) \<Rightarrow> (u32 \<Rightarrow> 's \<Rightarrow> 's) \<Rightarrow> u32 list \<Rightarrow> 's \<Rightarrow> (osaStatus list \<times> 's) option" where
  "polls poll clock [] s = Some ([], s)"
| "polls poll clock (t # ts) s = do {
     (st, s) \<leftarrow> poll (clock t s);
     (sts, s) \<leftarrow> polls poll clock ts s;
     Some (st # sts, s) }"

locale timed_wait =
  fixes timer :: bool
    and poll :: "u32 \<Rightarrow> 's \<Rightarrow> (osaStatus \<times> 's) option"
    and clock :: "u32 \<Rightarrow> 's \<Rightarrow> 's"
    and view :: "'s \<Rightarrow> wait_view option"
  assumes served: "view s = Some v \<Longrightarrow> avail v \<Longrightarrow>
      \<exists>s' v'. poll ms (clock now s) = Some (osaStatus_Success, s') \<and> view s' = Some v' \<and> \<not> waiting v'"
    and unserved: "view s = Some v \<Longrightarrow> \<not> avail v \<Longrightarrow> wait_step timer now ms v = (st, v') \<Longrightarrow>
      \<exists>s'. poll ms (clock now s) = Some (st, s') \<and> view s' = Some v'"
begin

lemma waits:
  assumes "view s = Some v" "\<not> avail v" "timer \<longrightarrow> waiting v" "ms \<noteq> 0"
    and "timer \<longrightarrow> (\<forall>t \<in> set ts. t - since v \<le> limit v)"
  shows "\<exists>s'. polls (poll ms) clock ts s = Some (replicate (length ts) osaStatus_Idle, s') \<and> view s' = Some v"
  using assms(1,5)
proof (induction ts arbitrary: s)
  case (Cons t ts)
  have "wait_step timer t ms v = (osaStatus_Idle, v)" using assms(3,4) Cons.prems(2) by (auto simp: wait_step_def)
  then obtain s1 where s1: "poll ms (clock t s) = Some (osaStatus_Idle, s1)" "view s1 = Some v"
    using unserved [OF Cons.prems(1) assms(2)] by blast
  obtain s2 where "polls (poll ms) clock ts s1 = Some (replicate (length ts) osaStatus_Idle, s2)" "view s2 = Some v"
    using Cons.IH [OF s1(2)] Cons.prems(2) by auto
  then show ?case using s1(1) by simp
qed simp

lemma polls_append:
  "polls p c (ts @ us) s = do { (a, s) \<leftarrow> polls p c ts s; (b, s) \<leftarrow> polls p c us s; Some (a @ b, s) }"
  by (induction ts arbitrary: s) (auto split: option.splits bind_splits)

lemma runs_out:
  assumes v: "view s = Some v" "\<not> avail v" "waiting v" and timer and ms: "ms \<noteq> 0"
    and ts: "\<forall>t \<in> set ts. t - since v \<le> limit v" "limit v < t1 - since v"
  shows "\<exists>s' v'. polls (poll ms) clock (ts @ [t1]) s =
      Some (replicate (length ts) osaStatus_Idle @ [osaStatus_Timeout], s') \<and>
    view s' = Some v' \<and> \<not> avail v' \<and> \<not> waiting v'"
proof -
  obtain s2 where s2: "polls (poll ms) clock ts s = Some (replicate (length ts) osaStatus_Idle, s2)" "view s2 = Some v"
    using waits [OF v(1,2) _ ms, of ts] v(3) ts(1) by auto
  have "wait_step timer t1 ms v = (osaStatus_Timeout, v\<lparr>waiting := False\<rparr>)"
    using ms ts(2) v(3) \<open>timer\<close> by (simp add: wait_step_def)
  then obtain s3 where "poll ms (clock t1 s2) = Some (osaStatus_Timeout, s3)" "view s3 = Some (v\<lparr>waiting := False\<rparr>)"
    using unserved [OF s2(2) v(2)] by blast
  then show ?thesis using s2(1) v(2) by (auto simp: polls_append)
qed

lemma times_out:
  assumes v: "view s = Some v" "\<not> avail v" "\<not> waiting v" and timer and ms: "ms \<noteq> 0" "ms \<noteq> osaWaitForever_c"
    and ts: "\<forall>t \<in> set ts. t - t0 \<le> ms" "ms < t1 - t0"
  shows "\<exists>s' v'. polls (poll ms) clock (t0 # ts @ [t1]) s =
      Some (replicate (Suc (length ts)) osaStatus_Idle @ [osaStatus_Timeout], s') \<and>
    view s' = Some v' \<and> \<not> avail v' \<and> \<not> waiting v'"
proof -
  let ?v = "v\<lparr>waiting := True, since := t0, limit := ms\<rparr>"
  have "wait_step timer t0 ms v = (osaStatus_Idle, ?v)" using v ms \<open>timer\<close> by (simp add: wait_step_def)
  then obtain s1 where s1: "poll ms (clock t0 s) = Some (osaStatus_Idle, s1)" "view s1 = Some ?v"
    using unserved [OF v(1,2)] by blast
  obtain s3 v3 where "polls (poll ms) clock (ts @ [t1]) s1 =
      Some (replicate (length ts) osaStatus_Idle @ [osaStatus_Timeout], s3)"
    "view s3 = Some v3" "\<not> avail v3" "\<not> waiting v3"
    using runs_out [OF s1(2) _ _ \<open>timer\<close> ms(1), of ts t1] v(2) ts by auto
  then show ?thesis using s1(1) by simp
qed

end

section \<open>The four kinds of wait\<close>

definition set_ticks :: "u32 \<Rightarrow> os_state \<Rightarrow> os_state" where
  "set_ticks n s = s\<lparr>gTickCounter := n\<rparr>"

definition sem_wv :: "semaphore_t \<Rightarrow> wait_view" where
  "sem_wv x = \<lparr>avail = semCount x \<noteq> 0, waiting = sem_isWaiting x, since = sem_time_start x, limit = sem_timeout x\<rparr>"

definition mutex_wv :: "mutex_t \<Rightarrow> wait_view" where
  "mutex_wv x = \<lparr>avail = (\<not> isLocked x), waiting = mtx_isWaiting x, since = mtx_time_start x, limit = mtx_timeout x\<rparr>"

definition sem_view :: "ptr \<Rightarrow> os_state \<Rightarrow> wait_view option" where
  "sem_view p s = (if objs_ok (osSemaphores s) then map_option sem_wv (live p (osSemaphores s)) else None)"

definition mutex_view :: "ptr \<Rightarrow> os_state \<Rightarrow> wait_view option" where
  "mutex_view p s = (if objs_ok (osMutexes s) then map_option mutex_wv (live p (osMutexes s)) else None)"

definition cur_ok :: "os_state \<Rightarrow> bool" where
  "cur_ok s \<longleftrightarrow> g_curTask (tasks s) \<in> dom (tcbs (tasks s))"

definition event_ready :: "u32 \<Rightarrow> bool \<Rightarrow> event_t \<Rightarrow> bool" where
  "event_ready fl all x \<longleftrightarrow> (\<not> all \<and> flags x AND fl \<noteq> 0) \<or> flags x AND fl = fl"

definition event_wv :: "u32 \<Rightarrow> bool \<Rightarrow> event_t \<Rightarrow> wait_view" where
  "event_wv fl all x = \<lparr>avail = event_ready fl all x, waiting = ev_isWaiting x, since = ev_time_start x, limit = ev_timeout x\<rparr>"

definition event_view :: "ptr \<Rightarrow> u32 \<Rightarrow> bool \<Rightarrow> ptr \<Rightarrow> os_state \<Rightarrow> wait_view option" where
  "event_view p fl all out s = (if out \<noteq> NULL \<and> objs_ok (osEvents s) \<and> cur_ok s then map_option (event_wv fl all) (live p (osEvents s)) else None)"

definition msgq_ok :: "msg_queue_t \<Rightarrow> bool" where
  "msgq_ok q \<longleftrightarrow> length (queueMem q) = osNumberOfMessages \<and> unat (mq_max q) \<le> osNumberOfMessages \<and>
     unat (mq_number q) \<le> unat (mq_max q) \<and>
     (0 < unat (mq_max q) \<longrightarrow> unat (mq_head q) < unat (mq_max q)) \<and>
     (if mq_max q = 0 then mq_tail q = 0
      else unat (mq_tail q) = (unat (mq_head q) + unat (mq_number q)) mod unat (mq_max q))"

definition msgq_wv :: "msg_queue_t \<Rightarrow> wait_view" where
  "msgq_wv q = \<lparr>avail = mq_number q \<noteq> 0, waiting = mq_isWaiting q, since = mq_time_start q, limit = mq_timeout q\<rparr>"

abbreviation (input) event_poll :: "bool \<Rightarrow> ptr \<Rightarrow> u32 \<Rightarrow> bool \<Rightarrow> ptr \<Rightarrow> u32 \<Rightarrow> os_state \<Rightarrow> (osaStatus \<times> os_state) option" where
  "event_poll timer p fl all out ms s \<equiv> map_option (\<lambda>(st, f, s). (st, s)) (OSA_EventWait timer p fl all ms out s)"

abbreviation (input) msgq_poll :: "bool \<Rightarrow> ptr \<Rightarrow> u32 \<Rightarrow> os_state \<Rightarrow> (osaStatus \<times> os_state) option" where
  "msgq_poll timer p ms s \<equiv> map_option (\<lambda>(st, m, s). (st, s)) (OSA_MsgQGet timer p ms s)"

lemma views_ticks [simp]:
  "sem_view p (set_ticks n s) = sem_view p s" "mutex_view p (set_ticks n s) = mutex_view p s"
  "event_view p fl all out (set_ticks n s) = event_view p fl all out s"
  by (simp_all add: sem_view_def mutex_view_def event_view_def set_ticks_def cur_ok_def)

lemma ticks_msec [simp]: "OSA_TimeGetMsec True (set_ticks n s) = n"
  by (simp add: OSA_TimeGetMsec_def set_ticks_def)

lemma put_sem_view:
  assumes "objs_ok (osSemaphores s)" "live p (osSemaphores s) = Some x" "sem_wv y = v"
  shows "\<exists>s'. put_sem p y st s = Some (st, s') \<and> sem_view p s' = Some v"
  using live_put [OF assms(1,2), of y] assms(3) by (auto simp: put_sem_def sem_view_def)

lemma put_mutex_view:
  assumes "objs_ok (osMutexes s)" "live p (osMutexes s) = Some x" "mutex_wv y = v"
  shows "\<exists>s'. put_mutex p y st s = Some (st, s') \<and> mutex_view p s' = Some v"
  using live_put [OF assms(1,2), of y] assms(3) by (auto simp: put_mutex_def mutex_view_def)

lemma sem_viewE:
  assumes "sem_view p s = Some v"
  obtains x where "objs_ok (osSemaphores s)" "live p (osSemaphores s) = Some x" "v = sem_wv x"
    "osObjectIsAllocated (osSemaphores s) p" "obj_get p (osSemaphores s) = Some x"
  using assms live_get [of "osSemaphores s" p] by (auto simp: sem_view_def split: if_splits)

lemma mutex_viewE:
  assumes "mutex_view p s = Some v"
  obtains x where "objs_ok (osMutexes s)" "live p (osMutexes s) = Some x" "v = mutex_wv x"
    "osObjectIsAllocated (osMutexes s) p" "obj_get p (osMutexes s) = Some x"
  using assms live_get [of "osMutexes s" p] by (auto simp: mutex_view_def split: if_splits)

lemma wait_step_cases:
  assumes "wait_step timer now ms v = (st, v')"
  obtains (now) "ms = 0" "st = osaStatus_Timeout" "v' = v"
    | (off) "ms \<noteq> 0" "\<not> timer" "st = osaStatus_Idle" "v' = v"
    | (over) "ms \<noteq> 0" "timer" "waiting v" "limit v < now - since v" "st = osaStatus_Timeout" "v' = v\<lparr>waiting := False\<rparr>"
    | (still) "ms \<noteq> 0" "timer" "waiting v" "\<not> limit v < now - since v" "st = osaStatus_Idle" "v' = v"
    | (arm) "ms \<noteq> 0" "timer" "\<not> waiting v" "ms \<noteq> osaWaitForever_c" "st = osaStatus_Idle"
        "v' = v\<lparr>waiting := True, since := now, limit := ms\<rparr>"
    | (forever) "ms \<noteq> 0" "timer" "\<not> waiting v" "ms = osaWaitForever_c" "st = osaStatus_Idle" "v' = v"
  using assms by (auto simp: wait_step_def split: if_splits)

interpretation sem: timed_wait timer "OSA_SemaphoreWait timer p" set_ticks "sem_view p" for timer p
proof (unfold_locales)
  fix s v ms now assume v: "sem_view p s = Some v" "avail v"
  then have "sem_view p (set_ticks now s) = Some v" by simp
  then show "\<exists>s' v'. OSA_SemaphoreWait timer p ms (set_ticks now s) = Some (osaStatus_Success, s') \<and> sem_view p s' = Some v' \<and> \<not> waiting v'"
  proof (cases rule: sem_viewE)
    case (1 x)
    then show ?thesis using v(2) put_sem_view [OF 1(1,2) refl, of "x\<lparr>semCount := semCount x - 1, sem_isWaiting := False\<rparr>" osaStatus_Success]
      by (auto simp: OSA_SemaphoreWait_def sem_wv_def)
  qed
next
  fix s v ms now st v' assume v: "sem_view p s = Some v" "\<not> avail v" "wait_step timer now ms v = (st, v')"
  let ?s = "set_ticks now s"
  have vs: "sem_view p ?s = Some v" using v(1) by simp
  then show "\<exists>s'. OSA_SemaphoreWait timer p ms ?s = Some (st, s') \<and> sem_view p s' = Some v'"
  proof (cases rule: sem_viewE)
    case (1 x)
    have c: "semCount x = 0" using v(2) 1(3) by (simp add: sem_wv_def)
    from v(3) show ?thesis
      by (cases rule: wait_step_cases)
        (use 1 c vs in \<open>auto simp: OSA_SemaphoreWait_def sem_wv_def OSA_TimeDiff_eq intro!: put_sem_view [OF 1(1,2)]\<close>)
  qed
qed

interpretation mutex: timed_wait timer "OSA_MutexLock timer p" set_ticks "mutex_view p" for timer p
proof (unfold_locales)
  fix s v ms now assume v: "mutex_view p s = Some v" "avail v"
  then have "mutex_view p (set_ticks now s) = Some v" by simp
  then show "\<exists>s' v'. OSA_MutexLock timer p ms (set_ticks now s) = Some (osaStatus_Success, s') \<and> mutex_view p s' = Some v' \<and> \<not> waiting v'"
  proof (cases rule: mutex_viewE)
    case (1 x)
    then show ?thesis using v(2) put_mutex_view [OF 1(1,2) refl, of "x\<lparr>isLocked := True, mtx_isWaiting := False\<rparr>" osaStatus_Success]
      by (auto simp: OSA_MutexLock_def mutex_wv_def)
  qed
next
  fix s v ms now st v' assume v: "mutex_view p s = Some v" "\<not> avail v" "wait_step timer now ms v = (st, v')"
  let ?s = "set_ticks now s"
  have vs: "mutex_view p ?s = Some v" using v(1) by simp
  then show "\<exists>s'. OSA_MutexLock timer p ms ?s = Some (st, s') \<and> mutex_view p s' = Some v'"
  proof (cases rule: mutex_viewE)
    case (1 x)
    have c: "isLocked x" using v(2) 1(3) by (simp add: mutex_wv_def)
    from v(3) show ?thesis
      by (cases rule: wait_step_cases)
        (use 1 c vs in \<open>auto simp: OSA_MutexLock_def mutex_wv_def OSA_TimeDiff_eq intro!: put_mutex_view [OF 1(1,2)]\<close>)
  qed
qed

text \<open>Marking the current task keeps the tasks.\<close>

lemma mod_cur:
  assumes "cur_ok s"
  shows "\<exists>t. mod_tcb (OSA_TaskGetId (tasks s)) f (tasks s) = Some t \<and> g_curTask t \<in> dom (tcbs t)"
  using assms by (auto simp: mod_tcb_def get_tcb_def OSA_TaskGetId_def cur_ok_def)

lemma event_viewE:
  assumes "event_view p fl all out s = Some v"
  obtains x where "out \<noteq> NULL" "objs_ok (osEvents s)" "live p (osEvents s) = Some x" "v = event_wv fl all x"
    "osObjectIsAllocated (osEvents s) p" "obj_get p (osEvents s) = Some x" "cur_ok s"
  using assms live_get [of "osEvents s" p] by (auto simp: event_view_def split: if_splits)

lemma put_event_view:
  assumes "objs_ok (osEvents s)" "live p (osEvents s) = Some x" "event_wv fl all y = v"
    and "g_curTask t \<in> dom (tcbs t)" "out \<noteq> NULL"
  shows "\<exists>h. obj_put p y (osEvents s) = Some h \<and> event_view p fl all out (s\<lparr>osEvents := h, tasks := t\<rparr>) = Some v"
  using live_put [OF assms(1,2), of y] assms(3-) by (auto simp: event_view_def cur_ok_def)

interpretation event: timed_wait timer "event_poll timer p fl all out" set_ticks "event_view p fl all out" for timer p fl all out
proof (unfold_locales)
  fix s v ms now assume v: "event_view p fl all out s = Some v" "avail v"
  let ?s = "set_ticks now s"
  have "event_view p fl all out ?s = Some v" using v(1) by simp
  then show "\<exists>s' v'. event_poll timer p fl all out ms ?s = Some (osaStatus_Success, s') \<and>
      event_view p fl all out s' = Some v' \<and> \<not> waiting v'"
  proof (cases rule: event_viewE)
    case (1 x)
    let ?x = "x\<lparr>ev_waitingTask := OSA_TaskGetId (tasks ?s)\<rparr>"
    let ?y = "if autoClear x then ?x\<lparr>ev_isWaiting := False, flags := flags x AND NOT fl\<rparr> else ?x\<lparr>ev_isWaiting := False\<rparr>"
    have cur: "g_curTask (tasks ?s) \<in> dom (tcbs (tasks ?s))" using 1(7) by (simp only: cur_ok_def)
    obtain h where "obj_put p ?y (osEvents ?s) = Some h"
      "event_view p fl all out (?s\<lparr>osEvents := h, tasks := tasks ?s\<rparr>) = Some (event_wv fl all ?y)"
      using put_event_view [OF 1(2,3) refl cur 1(1)] by blast
    moreover have "(\<not> all \<and> flags x AND fl \<noteq> 0) \<or> flags x AND fl = fl"
      using v(2) 1(4) by (simp add: event_wv_def event_ready_def)
    moreover have "\<not> waiting (event_wv fl all ?y)" by (simp add: event_wv_def)
    ultimately show ?thesis using 1 by (cases "autoClear x") (simp_all add: OSA_EventWait_def)
  qed
next
  fix s v ms now st v' assume v: "event_view p fl all out s = Some v" "\<not> avail v" "wait_step timer now ms v = (st, v')"
  let ?s = "set_ticks now s"
  have "event_view p fl all out ?s = Some v" using v(1) by simp
  then show "\<exists>s'. event_poll timer p fl all out ms ?s = Some (st, s') \<and> event_view p fl all out s' = Some v'"
  proof (cases rule: event_viewE)
    case (1 x)
    let ?x = "x\<lparr>ev_waitingTask := OSA_TaskGetId (tasks ?s)\<rparr>"
    have n: "\<not> ((\<not> all \<and> flags x AND fl \<noteq> 0) \<or> flags x AND fl = fl)"
      using v(2) 1(4) by (simp add: event_wv_def event_ready_def)
    have cur: "g_curTask (tasks ?s) \<in> dom (tcbs (tasks ?s))" using 1(7) by (simp only: cur_ok_def)
    have put: "\<exists>h. obj_put p y (osEvents ?s) = Some h \<and>
        event_view p fl all out (?s\<lparr>osEvents := h, tasks := t\<rparr>) = Some (event_wv fl all y)"
      if "g_curTask t \<in> dom (tcbs t)" for y t
      by (rule put_event_view [OF 1(2,3) refl that 1(1)])
    have fields: "event_wv fl all ?x = v" "ev_isWaiting x = waiting v" "ev_timeout x = limit v" "ev_time_start x = since v"
      using 1(4) by (simp_all add: event_wv_def event_ready_def)
    have upd: "event_wv fl all (?x\<lparr>ev_isWaiting := False\<rparr>) = v\<lparr>waiting := False\<rparr>"
      "event_wv fl all (?x\<lparr>ev_isWaiting := True, ev_time_start := now, ev_timeout := ms\<rparr>) =
        v\<lparr>waiting := True, since := now, limit := ms\<rparr>"
      using 1(4) by (simp_all add: event_wv_def event_ready_def)
    from v(3) show ?thesis
    proof (cases rule: wait_step_cases)
      case off
      obtain t where t: "mod_tcb (OSA_TaskGetId (tasks ?s)) (haveToRun_update (\<lambda>_. False)) (tasks ?s) = Some t"
        "g_curTask t \<in> dom (tcbs t)" using mod_cur [OF 1(7)] by blast
      show ?thesis using put [OF t(2), of ?x] off 1 n t(1) fields by (auto simp: OSA_EventWait_def)
    next
      case forever
      obtain t where t: "mod_tcb (OSA_TaskGetId (tasks ?s)) (haveToRun_update (\<lambda>_. False)) (tasks ?s) = Some t"
        "g_curTask t \<in> dom (tcbs t)" using mod_cur [OF 1(7)] by blast
      show ?thesis using put [OF t(2), of ?x] forever 1 n t(1) fields
        by (auto simp: OSA_EventWait_def OSA_TimeDiff_eq)
    qed (use put [OF cur, of ?x] put [OF cur, of "?x\<lparr>ev_isWaiting := False\<rparr>"] upd
        put [OF cur, of "?x\<lparr>ev_isWaiting := True, ev_time_start := now, ev_timeout := ms\<rparr>"] 1 n fields in
        \<open>auto simp: OSA_EventWait_def OSA_TimeDiff_eq\<close>)
  qed
qed

section \<open>The ring of a message queue\<close>

text \<open>The messages in a queue, from the oldest on.\<close>

definition msgq_items :: "msg_queue_t \<Rightarrow> u32 list" where
  "msgq_items q = map (\<lambda>k. queueMem q ! ((unat (mq_head q) + k) mod unat (mq_max q))) [0..<unat (mq_number q)]"

lemma length_msgq_items [simp]: "length (msgq_items q) = unat (mq_number q)"
  by (simp add: msgq_items_def)

lemma next_slot:
  fixes i n :: u16
  assumes "i < n"
  shows "unat (if i + 1 \<ge> n then 0 else i + 1) = Suc (unat i) mod unat n"
proof -
  have lt: "unat i < unat n" "unat n < 2 ^ 16" using assms unsigned_less [of n] by (simp_all add: word_less_nat_alt)
  then have i1: "unat (i + 1) = Suc (unat i)" by (simp add: unat_word_ariths)
  then show ?thesis using lt by (auto simp: word_le_nat_alt) (metis Suc_lessI le_antisym less_eq_Suc_le mod_self)
qed

lemma slot_neq:
  fixes h k n x :: nat
  assumes "h < x" "k < n" "n < x"
  shows "(h + k) mod x \<noteq> (h + n) mod x"
proof -
  have wrap: "(h + j) mod x = (if h + j < x then h + j else h + j - x)" if "j < x" for j
    using that assms(1) by (auto simp: le_mod_geq)
  show ?thesis using wrap [of k] wrap [of n] assms by (auto split: if_splits)
qed

lemma msgq_put_ring:
  assumes ok: "msgq_ok q" and room: "mq_number q < mq_max q"
  shows "\<exists>mem. upd_opt (queueMem q) (unat (mq_tail q)) m = Some mem \<and>
    (let q' = q\<lparr>queueMem := mem, mq_number := mq_number q + 1,
        mq_tail := (if mq_tail q + 1 \<ge> mq_max q then 0 else mq_tail q + 1)\<rparr> in
     msgq_ok q' \<and> msgq_items q' = msgq_items q @ [m])"
proof -
  let ?n = "unat (mq_number q)" and ?x = "unat (mq_max q)" and ?h = "unat (mq_head q)" and ?t = "unat (mq_tail q)"
  let ?mem = "(queueMem q)[?t := m]"
  have r: "?n < ?x" using room by (simp add: word_less_nat_alt)
  then have b: "?h < ?x" "?x \<le> 10" "length (queueMem q) = 10" "?t = (?h + ?n) mod ?x" "?x \<noteq> 0"
    using ok by (auto simp: msgq_ok_def unat_eq_zero split: if_splits)
  then have t: "?t < ?x" by simp
  have n1: "unat (mq_number q + 1) = Suc ?n" using r b(2) by (simp add: unat_word_ariths)
  have t1: "unat (if mq_tail q + 1 \<ge> mq_max q then 0 else mq_tail q + 1) = (?h + Suc ?n) mod ?x"
    using next_slot [of "mq_tail q" "mq_max q"] t b(4) by (simp add: word_less_nat_alt mod_Suc_eq)
  have old: "?mem ! ((?h + k) mod ?x) = queueMem q ! ((?h + k) mod ?x)" if "k < ?n" for k
    using slot_neq [OF b(1) that r] b(4) by simp
  have "?t < length (queueMem q)" using t b(2,3) by linarith
  then have "upd_opt (queueMem q) ?t m = Some ?mem" by simp
  then show ?thesis unfolding Let_def using b n1 t1 r ok old \<open>?t < length (queueMem q)\<close>
    by (intro exI [of _ ?mem]) (auto simp: msgq_ok_def msgq_items_def unat_eq_zero)
qed

lemma msgq_get_ring:
  assumes ok: "msgq_ok q" and some: "mq_number q \<noteq> 0"
  shows "nth_opt (queueMem q) (unat (mq_head q)) = Some (hd (msgq_items q)) \<and>
    (let q' = q\<lparr>mq_number := mq_number q - 1, mq_head := (if mq_head q + 1 \<ge> mq_max q then 0 else mq_head q + 1)\<rparr> in
     msgq_ok q' \<and> msgq_items q' = tl (msgq_items q))"
proof -
  let ?n = "unat (mq_number q)" and ?x = "unat (mq_max q)" and ?h = "unat (mq_head q)"
  obtain k where k: "?n = Suc k" using some by (metis unat_eq_zero not0_implies_Suc)
  then have b: "?h < ?x" "?x \<le> 10" "length (queueMem q) = 10" "unat (mq_tail q) = (?h + ?n) mod ?x" "?x \<noteq> 0"
    using ok by (auto simp: msgq_ok_def unat_eq_zero split: if_splits)
  have n1: "unat (mq_number q - 1) = k" using k some by (simp add: unat_minus_one)
  have h1: "unat (if mq_head q + 1 \<ge> mq_max q then 0 else mq_head q + 1) = Suc ?h mod ?x"
    using next_slot [of "mq_head q" "mq_max q"] b(1) by (simp add: word_less_nat_alt)
  have it: "msgq_items q = queueMem q ! ?h # map (\<lambda>k. queueMem q ! ((Suc ?h + k) mod ?x)) [0..<k]"
    using b(1) unfolding msgq_items_def k by (simp add: upt_conv_Cons map_Suc_upt [symmetric] del: upt_Suc)
  show ?thesis unfolding Let_def it
    using b n1 h1 k ok
    by (auto simp: nth_opt_def msgq_ok_def msgq_items_def unat_eq_zero mod_add_left_eq)
qed

lemma msgq_fields [simp]:
  "msgq_ok (q\<lparr>mq_isWaiting := b\<rparr>) = msgq_ok q" "msgq_ok (q\<lparr>mq_time_start := t\<rparr>) = msgq_ok q"
  "msgq_ok (q\<lparr>mq_timeout := t\<rparr>) = msgq_ok q" "msgq_ok (q\<lparr>mq_waitingTask := p\<rparr>) = msgq_ok q"
  "msgq_items (q\<lparr>mq_isWaiting := b\<rparr>) = msgq_items q" "msgq_items (q\<lparr>mq_time_start := t\<rparr>) = msgq_items q"
  "msgq_items (q\<lparr>mq_timeout := t\<rparr>) = msgq_items q" "msgq_items (q\<lparr>mq_waitingTask := p\<rparr>) = msgq_items q"
  by (simp_all add: msgq_ok_def msgq_items_def)

text \<open>A queue in use with room for \<open>n\<close> messages that holds \<open>xs\<close>.\<close>

definition msgq_holds :: "ptr \<Rightarrow> nat \<Rightarrow> u32 list \<Rightarrow> os_state \<Rightarrow> bool" where
  "msgq_holds p n xs s \<longleftrightarrow> cur_ok s \<and> objs_ok (osMsgQs s) \<and>
     (case live p (osMsgQs s) of None \<Rightarrow> False
      | Some q \<Rightarrow> msgq_ok q \<and> unat (mq_max q) = n \<and> msgq_items q = xs \<and>
          (mq_waitingTask q = NULL \<or> mq_waitingTask q \<in> dom (tcbs (tasks s))))"

lemma msgq_holdsE:
  assumes "msgq_holds p n xs s"
  obtains q where "cur_ok s" "objs_ok (osMsgQs s)" "live p (osMsgQs s) = Some q" "msgq_ok q" "unat (mq_max q) = n"
    "msgq_items q = xs" "mq_waitingTask q = NULL \<or> mq_waitingTask q \<in> dom (tcbs (tasks s))"
    "osObjectIsAllocated (osMsgQs s) p" "obj_get p (osMsgQs s) = Some q"
  using assms live_get [of "osMsgQs s" p] by (auto simp: msgq_holds_def split: option.splits)

lemma put_msgq_holds:
  assumes "objs_ok (osMsgQs s)" "live p (osMsgQs s) = Some q" "msgq_ok q'" "g_curTask t \<in> dom (tcbs t)"
    "mq_waitingTask q' = NULL \<or> mq_waitingTask q' \<in> dom (tcbs t)"
  shows "\<exists>h. obj_put p q' (osMsgQs s) = Some h \<and> live p h = Some q' \<and>
    msgq_holds p (unat (mq_max q')) (msgq_items q') (s\<lparr>osMsgQs := h, tasks := t\<rparr>)"
  using live_put [OF assms(1,2), of q'] assms(3-) by (auto simp: msgq_holds_def cur_ok_def)

lemma wake_ok:
  assumes "cur_ok s" "p = NULL \<or> p \<in> dom (tcbs (tasks s))"
  shows "\<exists>t. wake_task p (tasks s) = Some t \<and> g_curTask t \<in> dom (tcbs t) \<and> dom (tcbs t) = dom (tcbs (tasks s))"
  using assms by (auto simp: wake_task_def mod_tcb_def get_tcb_def cur_ok_def)

text \<open>What \<open>OSA_MsgQPut\<close> and \<open>OSA_MsgQGet\<close> do to such a queue.\<close>

lemma OSA_MsgQPut_room:
  assumes "msgq_holds p n xs s" "length xs < n"
  shows "\<exists>s'. OSA_MsgQPut p m s = Some (osaStatus_Success, s') \<and> msgq_holds p n (xs @ [m]) s'"
  using assms(1)
proof (cases rule: msgq_holdsE)
  case (1 q)
  have r: "mq_number q < mq_max q" using assms(2) 1(5,6) by (auto simp: word_less_nat_alt)
  obtain mem where mem: "upd_opt (queueMem q) (unat (mq_tail q)) m = Some mem" using msgq_put_ring [OF 1(4) r] by blast
  let ?q = "q\<lparr>queueMem := mem, mq_number := mq_number q + 1, mq_tail := (if mq_tail q + 1 \<ge> mq_max q then 0 else mq_tail q + 1)\<rparr>"
  have q: "msgq_ok ?q" "msgq_items ?q = xs @ [m]" using msgq_put_ring [OF 1(4) r, of m] mem 1(6) by (simp_all add: Let_def)
  obtain t where t: "wake_task (mq_waitingTask q) (tasks s) = Some t" "g_curTask t \<in> dom (tcbs t)"
    "dom (tcbs t) = dom (tcbs (tasks s))" using wake_ok [OF 1(1,7)] by blast
  have w: "mq_waitingTask ?q = NULL \<or> mq_waitingTask ?q \<in> dom (tcbs t)" using 1(7) t(3) by simp
  have x: "unat (mq_max ?q) = n" using 1(5) by simp
  obtain h where "obj_put p ?q (osMsgQs s) = Some h" "msgq_holds p n (xs @ [m]) (s\<lparr>osMsgQs := h, tasks := t\<rparr>)"
    using put_msgq_holds [OF 1(2,3) q(1) t(2) w] unfolding q(2) x by blast
  then show ?thesis using r mem t(1) 1(8,9) by (simp add: OSA_MsgQPut_def not_le Let_def)
qed

lemma OSA_MsgQPut_full:
  assumes "msgq_holds p n xs s" "n \<le> length xs"
  shows "OSA_MsgQPut p m s = Some (osaStatus_Error, s)"
  using assms(1)
proof (cases rule: msgq_holdsE)
  case (1 q)
  have "mq_number q \<ge> mq_max q" using assms(2) 1(5,6) by (auto simp: word_le_nat_alt)
  then show ?thesis using 1(8,9) by (simp add: OSA_MsgQPut_def)
qed

lemma OSA_MsgQGet_some:
  assumes "msgq_holds p n (x # xs) s"
  shows "\<exists>s' q. OSA_MsgQGet timer p ms s = Some (osaStatus_Success, Some x, s') \<and> msgq_holds p n xs s' \<and>
    live p (osMsgQs s') = Some q \<and> \<not> mq_isWaiting q"
  using assms(1)
proof (cases rule: msgq_holdsE)
  case (1 q)
  have r: "mq_number q \<noteq> 0" using 1(6) length_msgq_items [of q] by (metis length_Cons nat.distinct(1) unat_0)
  let ?p = "q\<lparr>mq_waitingTask := OSA_TaskGetId (tasks s), mq_isWaiting := False\<rparr>"
  let ?q = "?p\<lparr>mq_number := mq_number q - 1, mq_head := (if mq_head q + 1 \<ge> mq_max q then 0 else mq_head q + 1)\<rparr>"
  have "nth_opt (queueMem q) (unat (mq_head q)) = Some x \<and> msgq_ok ?q \<and> msgq_items ?q = xs"
    using msgq_get_ring [of ?p] r 1(4,6) by (cases "mq_max q \<le> mq_head q + 1") (simp_all add: Let_def)
  note ring = this [THEN conjunct1] this [THEN conjunct2, THEN conjunct1] this [THEN conjunct2, THEN conjunct2]
  have cur: "g_curTask (tasks s) \<in> dom (tcbs (tasks s))" using 1(1) by (simp add: cur_ok_def)
  then have w: "mq_waitingTask ?q = NULL \<or> mq_waitingTask ?q \<in> dom (tcbs (tasks s))" by (simp add: OSA_TaskGetId_def)
  have x: "unat (mq_max ?q) = n" using 1(5) by simp
  obtain h where "obj_put p ?q (osMsgQs s) = Some h" "live p h = Some ?q" "msgq_holds p n xs (s\<lparr>osMsgQs := h, tasks := tasks s\<rparr>)"
    using put_msgq_holds [OF 1(2,3) ring(2) cur w] unfolding ring(3) x by blast
  then show ?thesis using r ring(1) 1(8,9) by (simp add: OSA_MsgQGet_def Let_def)
qed

lemma OSA_MsgQGet_empty:
  assumes "msgq_holds p n [] s" "live p (osMsgQs s) = Some q"
  shows "\<exists>st s' q'. OSA_MsgQGet timer p ms s = Some (st, None, s') \<and> st \<noteq> osaStatus_Success \<and> msgq_holds p n [] s' \<and>
    live p (osMsgQs s') = Some q' \<and> wait_step timer (gTickCounter s) ms (msgq_wv q) = (st, msgq_wv q')"
  using assms(1)
proof (cases rule: msgq_holdsE)
  case (1 q1)
  note h = 1 [unfolded 1(3) [unfolded assms(2), THEN option.inject [THEN iffD1], symmetric]]
  let ?q = "q\<lparr>mq_waitingTask := OSA_TaskGetId (tasks s)\<rparr>"
  have z: "mq_number q = 0" using h(6) length_msgq_items [of q] by (metis list.size(3) unat_eq_zero)
  have cur: "g_curTask (tasks s) \<in> dom (tcbs (tasks s))" using h(1) by (simp add: cur_ok_def)
  have put: "\<exists>h. obj_put p q2 (osMsgQs s) = Some h \<and> live p h = Some q2 \<and> msgq_holds p n [] (s\<lparr>osMsgQs := h, tasks := t\<rparr>)"
    if "msgq_ok q2" "msgq_items q2 = []" "mq_max q2 = mq_max q" "mq_waitingTask q2 \<in> dom (tcbs t)" "g_curTask t \<in> dom (tcbs t)"
    for q2 t
    using put_msgq_holds [OF h(2,3) that(1,5)] that(2-4) h(5) by auto
  have waiting: "OSA_TaskGetId (tasks s) \<in> dom (tcbs (tasks s))" using cur by (simp add: OSA_TaskGetId_def)
  note defs = OSA_MsgQGet_def Let_def OSA_TimeGetMsec_def OSA_TimeDiff_eq wait_step_def msgq_wv_def
  consider (now) "ms = 0"
    | (over) "ms \<noteq> 0" "timer" "mq_isWaiting q" "mq_timeout q < gTickCounter s - mq_time_start q"
    | (still) "ms \<noteq> 0" "timer" "mq_isWaiting q" "\<not> mq_timeout q < gTickCounter s - mq_time_start q"
    | (arm) "ms \<noteq> 0" "timer" "\<not> mq_isWaiting q" "ms \<noteq> osaWaitForever_c"
    | (forever) "ms \<noteq> 0" "\<not> (timer \<and> mq_isWaiting q)" "\<not> (timer \<and> ms \<noteq> osaWaitForever_c)" by blast
  then show ?thesis
  proof cases
    case over
    then show ?thesis using put [of "?q\<lparr>mq_isWaiting := False\<rparr>" "tasks s"] cur waiting z h by (auto simp: defs)
  next
    case arm
    then show ?thesis using put [of "?q\<lparr>mq_isWaiting := True, mq_time_start := gTickCounter s, mq_timeout := ms\<rparr>" "tasks s"]
      cur waiting z h by (auto simp: defs)
  next
    case forever
    obtain t where t: "mod_tcb (OSA_TaskGetId (tasks s)) (haveToRun_update (\<lambda>_. False)) (tasks s) = Some t"
      "g_curTask t \<in> dom (tcbs t)" "OSA_TaskGetId (tasks s) \<in> dom (tcbs t)"
      using h(1) by (auto simp: mod_tcb_def get_tcb_def OSA_TaskGetId_def cur_ok_def)
    then show ?thesis using put [of ?q t] forever z h by (auto simp: defs)
  qed (use put [of ?q "tasks s"] cur waiting z h in \<open>auto simp: defs\<close>)
qed

lemma msgq_holds_ticks [simp]: "msgq_holds p n xs (set_ticks t s) = msgq_holds p n xs s"
  by (simp add: msgq_holds_def cur_ok_def set_ticks_def cong: option.case_cong)

lemma ticks_fields [simp]: "osMsgQs (set_ticks t s) = osMsgQs s" "gTickCounter (set_ticks t s) = t"
  by (simp_all add: set_ticks_def)

definition msgq_view :: "ptr \<Rightarrow> nat \<Rightarrow> os_state \<Rightarrow> wait_view option" where
  "msgq_view p n s = (case live p (osMsgQs s) of None \<Rightarrow> None
     | Some q \<Rightarrow> if msgq_holds p n (msgq_items q) s then Some (msgq_wv q) else None)"

lemma msgq_viewE:
  assumes "msgq_view p n s = Some v"
  obtains q where "live p (osMsgQs s) = Some q" "msgq_holds p n (msgq_items q) s" "v = msgq_wv q"
  using assms by (auto simp: msgq_view_def split: option.splits if_splits)

lemma msgq_viewI: "live p (osMsgQs s) = Some q \<Longrightarrow> msgq_holds p n xs s \<Longrightarrow> msgq_view p n s = Some (msgq_wv q)"
  by (auto simp: msgq_view_def msgq_holds_def)

lemma msgq_items_Nil [simp]: "msgq_items q = [] \<longleftrightarrow> mq_number q = 0"
  using length_msgq_items [of q] by (metis length_0_conv unat_eq_zero)

interpretation msgq: timed_wait timer "msgq_poll timer p" set_ticks "msgq_view p n" for timer p n
proof (unfold_locales)
  fix s v ms now assume v: "msgq_view p n s = Some v" "avail v"
  from v(1) show "\<exists>s' v'. msgq_poll timer p ms (set_ticks now s) = Some (osaStatus_Success, s') \<and> msgq_view p n s' = Some v' \<and> \<not> waiting v'"
  proof (cases rule: msgq_viewE)
    case (1 q)
    then obtain x xs where "msgq_items q = x # xs" using v(2) by (cases "msgq_items q") (simp_all add: msgq_wv_def)
    then obtain s' q' where "OSA_MsgQGet timer p ms (set_ticks now s) = Some (osaStatus_Success, Some x, s')" "msgq_holds p n xs s'"
      "live p (osMsgQs s') = Some q'" "\<not> mq_isWaiting q'"
      using OSA_MsgQGet_some [of p n x xs "set_ticks now s" timer ms] 1(2) by auto
    then show ?thesis using msgq_viewI [of p s' q' n xs] by (simp add: msgq_wv_def)
  qed
next
  fix s v ms now st v' assume v: "msgq_view p n s = Some v" "\<not> avail v" "wait_step timer now ms v = (st, v')"
  from v(1) show "\<exists>s'. msgq_poll timer p ms (set_ticks now s) = Some (st, s') \<and> msgq_view p n s' = Some v'"
  proof (cases rule: msgq_viewE)
    case (1 q)
    have e: "msgq_items q = []" using v(2) 1(3) by (simp add: msgq_wv_def)
    have "msgq_holds p n [] (set_ticks now s)" "live p (osMsgQs (set_ticks now s)) = Some q" using 1(1,2) unfolding e by simp_all
    from OSA_MsgQGet_empty [OF this, of timer ms] obtain st1 s' q' where
      "OSA_MsgQGet timer p ms (set_ticks now s) = Some (st1, None, s')" "msgq_holds p n [] s'" "live p (osMsgQs s') = Some q'"
      "wait_step timer now ms (msgq_wv q) = (st1, msgq_wv q')" by auto
    then show ?thesis using msgq_viewI [of p s' q' n "[]"] v(3) 1(3) by auto
  qed
qed

section \<open>Runs of a message queue\<close>

text \<open>The specification: a bounded sequence. A get answers \<open>None\<close> when there is nothing to take.\<close>

datatype mq_op = MPut u32 | MGet u32 | MTick

fun fifo_step :: "nat \<Rightarrow> mq_op \<Rightarrow> u32 list \<Rightarrow> (bool \<times> u32 option) \<times> u32 list" where
  "fifo_step n (MPut m) xs = (if length xs < n then ((True, None), xs @ [m]) else ((False, None), xs))"
| "fifo_step n (MGet ms) [] = ((False, None), [])"
| "fifo_step n (MGet ms) (x # xs) = ((True, Some x), xs)"
| "fifo_step n MTick xs = ((True, None), xs)"

fun fifo_run :: "nat \<Rightarrow> mq_op list \<Rightarrow> u32 list \<Rightarrow> (bool \<times> u32 option) list \<times> u32 list" where
  "fifo_run n [] xs = ([], xs)"
| "fifo_run n (op # ops) xs = (let (a, xs) = fifo_step n op xs; (as, xs) = fifo_run n ops xs in (a # as, xs))"

text \<open>The code: whether each call succeeds, and the message it gives out.\<close>

fun mq_step :: "bool \<Rightarrow> ptr \<Rightarrow> mq_op \<Rightarrow> os_state \<Rightarrow> ((bool \<times> u32 option) \<times> os_state) option" where
  "mq_step timer p (MPut m) s = do { (st, s) \<leftarrow> OSA_MsgQPut p m s; Some ((st = osaStatus_Success, None), s) }"
| "mq_step timer p (MGet ms) s = do { (st, m, s) \<leftarrow> OSA_MsgQGet timer p ms s; Some ((st = osaStatus_Success, m), s) }"
| "mq_step timer p MTick s = Some ((True, None), SysTick_Handler s)"

fun mq_run :: "bool \<Rightarrow> ptr \<Rightarrow> mq_op list \<Rightarrow> os_state \<Rightarrow> ((bool \<times> u32 option) list \<times> os_state) option" where
  "mq_run timer p [] s = Some ([], s)"
| "mq_run timer p (op # ops) s = do { (a, s) \<leftarrow> mq_step timer p op s; (as, s) \<leftarrow> mq_run timer p ops s; Some (a # as, s) }"

lemma mq_step_fifo:
  assumes "msgq_holds p n xs s" "fifo_step n op xs = (a, ys)"
  shows "\<exists>s'. mq_step timer p op s = Some (a, s') \<and> msgq_holds p n ys s'"
proof (cases op)
  case (MPut m)
  then show ?thesis
    using OSA_MsgQPut_room [OF assms(1), of m] OSA_MsgQPut_full [OF assms(1), of m] assms
    by (cases "length xs < n") auto
next
  case (MGet ms)
  obtain q where q: "live p (osMsgQs s) = Some q" using assms(1) by (rule msgq_holdsE)
  show ?thesis
  proof (cases xs)
    case Nil
    then show ?thesis using OSA_MsgQGet_empty [OF _ q, of n timer ms] assms MGet by auto
  next
    case (Cons x xs')
    then show ?thesis using OSA_MsgQGet_some [of p n x xs' s timer ms] assms MGet by auto
  qed
next
  case MTick
  then show ?thesis using assms msgq_holds_ticks [of p n xs "gTickCounter s + 1" s] by (simp add: SysTick_Handler_def set_ticks_def)
qed

lemma mq_run_fifo:
  "msgq_holds p n xs s \<Longrightarrow>
    \<exists>s'. mq_run timer p ops s = Some (fst (fifo_run n ops xs), s') \<and> msgq_holds p n (snd (fifo_run n ops xs)) s'"
proof (induction ops arbitrary: xs s)
  case (Cons op ops)
  obtain a ys where a: "fifo_step n op xs = (a, ys)" by (cases "fifo_step n op xs")
  then obtain s1 where "mq_step timer p op s = Some (a, s1)" "msgq_holds p n ys s1" using mq_step_fifo [OF Cons.prems] by blast
  then show ?case using Cons.IH [of ys s1] a by (auto simp: split_beta)
qed simp

end
