(* ===== verification/OSA_Handles.thy ===== *)
theory OSA_Handles
  imports OSA_Waits
begin

text \<open>
  Creating and destroying the objects of \<open>OSA_Objects\<close>. The locale \<open>object_kind\<close> is the interface of handles
  and is interpreted for the four kinds of object. Then the properties of the objects, with their witnesses.
\<close>

section \<open>Creating and destroying\<close>

text \<open>The handles in use.\<close>

definition used :: "'a osObjectInfo \<Rightarrow> ptr set" where
  "used h = {p. live p h \<noteq> None}"

lemma used_image: "objs_ok h \<Longrightarrow> used h = addr_of h ` {i. i < length (objects h) \<and> fst (objects h ! i) \<noteq> 0}"
proof -
  assume ok: "objs_ok h"
  have "live (addr_of h i) h \<noteq> None \<longleftrightarrow> fst (objects h ! i) \<noteq> 0" if "i < length (objects h)" for i
    using obj_at(1,3) [OF ok that] by (simp add: live_def)
  moreover have "\<exists>i < length (objects h). p = addr_of h i" if "live p h \<noteq> None" for p
    using that allocated_at [OF ok, of p] by (auto simp: live_def split: if_splits)
  ultimately show ?thesis unfolding used_def by (intro set_eqI) (simp only: mem_Collect_eq image_iff Bex_def, metis)
qed

lemma card_used:
  assumes "objs_ok h"
  shows "card (used h) \<le> length (objects h)"
    "card (used h) = length (objects h) \<longleftrightarrow> (\<forall>i < length (objects h). fst (objects h ! i) \<noteq> 0)"
proof -
  let ?I = "{i. i < length (objects h) \<and> fst (objects h ! i) \<noteq> 0}"
  have "inj_on (addr_of h) ?I" using addr_inj [OF assms] by (auto simp: inj_on_def)
  then have c: "card (used h) = card ?I" by (simp add: used_image [OF assms] card_image)
  have sub: "?I \<subseteq> {..< length (objects h)}" by auto
  show "card (used h) \<le> length (objects h)" using card_mono [OF _ sub] c by simp
  have "card ?I = length (objects h) \<longleftrightarrow> ?I = {..< length (objects h)}"
  proof
    assume "card ?I = length (objects h)"
    then show "?I = {..< length (objects h)}" by (intro card_subset_eq [OF _ sub]) simp_all
  qed simp
  then show "card (used h) = length (objects h) \<longleftrightarrow> (\<forall>i < length (objects h). fst (objects h ! i) \<noteq> 0)"
    unfolding c by blast
qed

text \<open>What a create and a destroy promise of an array of objects.\<close>

definition created :: "ptr \<Rightarrow> 'a osObjectInfo \<Rightarrow> 'a osObjectInfo \<Rightarrow> bool" where
  "created p h h' \<longleftrightarrow> length (objects h') = length (objects h) \<and>
     (if card (used h) = length (objects h) then p = NULL \<and> used h' = used h
      else p \<noteq> NULL \<and> p \<notin> used h \<and> used h' = insert p (used h))"

definition destroyed :: "osaStatus \<Rightarrow> ptr \<Rightarrow> 'a osObjectInfo \<Rightarrow> 'a osObjectInfo \<Rightarrow> bool" where
  "destroyed st p h h' \<longleftrightarrow> length (objects h') = length (objects h) \<and> used h' = used h - {p} \<and>
     st = (if p \<in> used h then osaStatus_Success else osaStatus_Error)"

lemma length_free [simp]: "length (objects (osObjectFree h p)) = length (objects h)"
proof -
  have "length (osObjectFree_from sz p q os) = length os" for sz q and os :: "(u32 \<times> 'a) list"
    by (induction sz p q os rule: osObjectFree_from.induct) auto
  then show ?thesis by (simp add: osObjectFree_def)
qed

lemma length_put: "obj_put p y h = Some h' \<Longrightarrow> length (objects h') = length (objects h)"
proof -
  have "obj_put_from sz p y q os = Some os' \<Longrightarrow> length os' = length os" for sz q and os os' :: "(u32 \<times> 'a) list"
    by (induction sz p y q os arbitrary: os' rule: obj_put_from.induct) (auto split: if_splits bind_splits)
  then show "obj_put p y h = Some h' \<Longrightarrow> length (objects h') = length (objects h)" by (auto simp: obj_put_def split: bind_splits)
qed

text \<open>Allocating a slot and filling it in.\<close>

lemma alloc_put:
  assumes ok: "objs_ok h" and a: "osObjectAlloc h = (p, h1)"
  shows "if p = NULL then objs_ok h1 \<and> created p h h1 \<and> h1 = h
    else \<exists>x. obj_get p h1 = Some x \<and> live p h1 = Some x \<and> (\<exists>u. (u, x) \<in> set (objects h)) \<and>
      (\<forall>y. \<exists>h2. obj_put p y h1 = Some h2 \<and> objs_ok h2 \<and> created p h h2 \<and> live p h2 = Some y \<and>
        (\<forall>q. q \<noteq> p \<longrightarrow> live q h2 = live q h))"
proof -
  note la = live_alloc [OF ok a]
  show ?thesis
  proof (cases "\<forall>i < length (objects h). fst (objects h ! i) \<noteq> 0")
    case True
    then show ?thesis using la ok card_used(2) [OF ok] by (simp add: created_def)
  next
    case False
    then have p: "p \<noteq> NULL" "live p h = None" "objs_ok h1" "\<forall>q. q \<noteq> p \<longrightarrow> live q h1 = live q h" using la by auto
    obtain x where x: "live p h1 = Some x" using la False by auto
    have mem: "(\<exists>u. (u, x) \<in> set (objects h)) \<and> length (objects h1) = length (objects h)" using a
    proof (cases rule: alloc_at)
      case (some i)
      then have "x = snd (objects h ! i)" using live_get(2) [OF p(3) x] obj_at(1) [OF p(3), of i] by simp
      then show ?thesis using some(1,5) nth_mem [OF some(1)] by (metis length_list_update osObjectInfo.select_convs(3) osObjectInfo.surjective osObjectInfo.update_convs(3) prod.collapse)
    qed (use p(1) in simp)
    have "\<exists>h2. obj_put p y h1 = Some h2 \<and> objs_ok h2 \<and> created p h h2 \<and> live p h2 = Some y \<and>
        (\<forall>q. q \<noteq> p \<longrightarrow> live q h2 = live q h)" for y
    proof -
      obtain h2 where h2: "obj_put p y h1 = Some h2" "objs_ok h2" "live p h2 = Some y" "\<forall>q. q \<noteq> p \<longrightarrow> live q h2 = live q h1"
        using live_put [OF p(3) x] by blast
      have "used h2 = insert p (used h)" using h2(3,4) p(4) by (auto simp: used_def)
      moreover have "p \<notin> used h" using p(2) by (simp add: used_def)
      ultimately have "created p h h2" using p(1) mem length_put [OF h2(1)] False card_used(2) [OF ok] by (simp add: created_def)
      then show ?thesis using h2 p(4) by simp
    qed
    then show ?thesis using p(1) x live_get(2) [OF p(3) x] mem by auto
  qed
qed

lemma free_destroyed:
  assumes "objs_ok h"
  shows "p \<in> used h \<Longrightarrow> objs_ok (osObjectFree h p) \<and> destroyed osaStatus_Success p h (osObjectFree h p)"
    "p \<notin> used h \<Longrightarrow> destroyed osaStatus_Error p h h" "osObjectIsAllocated h p \<longleftrightarrow> p \<in> used h"
proof -
  show "destroyed osaStatus_Error p h h" if "p \<notin> used h" using that by (simp add: destroyed_def)
  show "objs_ok (osObjectFree h p) \<and> destroyed osaStatus_Success p h (osObjectFree h p)" if u: "p \<in> used h"
  proof -
    obtain x where "live p h = Some x" using u by (auto simp: used_def)
    then show ?thesis using live_free [OF assms, of p x] u by (auto simp: destroyed_def used_def)
  qed
  show "osObjectIsAllocated h p \<longleftrightarrow> p \<in> used h"
    using not_live [OF assms, of p] live_get(1) [OF assms, of p] unfolding used_def by blast
qed

section \<open>Runs of creates and destroys\<close>

datatype handle_op = HCreate | HDestroy ptr
datatype handle_answer = HGot ptr | HStatus osaStatus

fun handle_run :: "('s \<Rightarrow> (ptr \<times> 's) option) \<Rightarrow> (ptr \<Rightarrow> 's \<Rightarrow> (osaStatus \<times> 's) option) \<Rightarrow> handle_op list \<Rightarrow> 's \<Rightarrow>
    (handle_answer list \<times> 's) option" where
  "handle_run cr de [] s = Some ([], s)"
| "handle_run cr de (HCreate # ops) s = do {
     (p, s) \<leftarrow> cr s; (as, s) \<leftarrow> handle_run cr de ops s; Some (HGot p # as, s) }"
| "handle_run cr de (HDestroy p # ops) s = do {
     (st, s) \<leftarrow> de p s; (as, s) \<leftarrow> handle_run cr de ops s; Some (HStatus st # as, s) }"

text \<open>
  The answers allowed when \<open>H\<close> is the set of the handles in use and there is room for \<open>n\<close>: a create gives a
  handle that is not in use, and \<open>NULL\<close> only when all are; a destroy is refused unless the handle is in use.
\<close>

fun handles_spec :: "nat \<Rightarrow> handle_op list \<Rightarrow> handle_answer list \<Rightarrow> ptr set \<Rightarrow> bool" where
  "handles_spec n [] [] H \<longleftrightarrow> card H \<le> n"
| "handles_spec n (HCreate # ops) (HGot p # as) H \<longleftrightarrow>
     (if card H = n then p = NULL \<and> handles_spec n ops as H
      else p \<noteq> NULL \<and> p \<notin> H \<and> handles_spec n ops as (insert p H))"
| "handles_spec n (HDestroy p # ops) (HStatus st # as) H \<longleftrightarrow>
     st = (if p \<in> H then osaStatus_Success else osaStatus_Error) \<and> handles_spec n ops as (H - {p})"
| "handles_spec n _ _ H \<longleftrightarrow> False"

locale object_kind =
  fixes info :: "'s \<Rightarrow> 'a osObjectInfo" and ok :: "'s \<Rightarrow> bool"
    and create :: "'s \<Rightarrow> (ptr \<times> 's) option" and destroy :: "ptr \<Rightarrow> 's \<Rightarrow> (osaStatus \<times> 's) option"
  assumes create: "ok s \<Longrightarrow> \<exists>p s'. create s = Some (p, s') \<and> ok s' \<and> created p (info s) (info s')"
    and destroy: "ok s \<Longrightarrow> \<exists>st s'. destroy p s = Some (st, s') \<and> ok s' \<and> destroyed st p (info s) (info s')"
    and room: "ok s \<Longrightarrow> card (used (info s)) \<le> length (objects (info s))"
begin

theorem runs:
  "ok s \<Longrightarrow> \<exists>as s'. handle_run create destroy ops s = Some (as, s') \<and> ok s' \<and>
     handles_spec (length (objects (info s))) ops as (used (info s))"
proof (induction ops arbitrary: s)
  case Nil
  then show ?case using room by simp
next
  case (Cons op ops)
  show ?case
  proof (cases op)
    case HCreate
    obtain p s1 where p: "create s = Some (p, s1)" "ok s1" "created p (info s) (info s1)" using create [OF Cons.prems] by blast
    obtain as s2 where "handle_run create destroy ops s1 = Some (as, s2)" "ok s2"
      "handles_spec (length (objects (info s1))) ops as (used (info s1))" using Cons.IH [OF p(2)] by blast
    then show ?thesis using p HCreate by (auto simp: created_def split: if_splits)
  next
    case (HDestroy q)
    obtain st s1 where p: "destroy q s = Some (st, s1)" "ok s1" "destroyed st q (info s) (info s1)" using destroy [OF Cons.prems] by blast
    obtain as s2 where "handle_run create destroy ops s1 = Some (as, s2)" "ok s2"
      "handles_spec (length (objects (info s1))) ops as (used (info s1))" using Cons.IH [OF p(2)] by blast
    then show ?thesis using p HDestroy by (auto simp: destroyed_def)
  qed
qed

end

lemma alloc_none: "objs_ok h \<Longrightarrow> osObjectAlloc h = (NULL, h1) \<Longrightarrow> objs_ok h1 \<and> created NULL h h1"
  using alloc_put [of h NULL h1] by auto

lemma alloc_some:
  "objs_ok h \<Longrightarrow> osObjectAlloc h = (p, h1) \<Longrightarrow> p \<noteq> NULL \<Longrightarrow>
    \<exists>h2. obj_put p y h1 = Some h2 \<and> objs_ok h2 \<and> created p h h2"
  using alloc_put [of h p h1] by auto

lemma pair_cases: obtains p h' where "osObjectAlloc h = (p, h')"
  by (cases "osObjectAlloc h")

interpretation sems: object_kind osSemaphores "\<lambda>s. objs_ok (osSemaphores s)" "OSA_SemaphoreCreate n"
  "\<lambda>p s. Some (OSA_SemaphoreDestroy p s)" for n
proof (unfold_locales)
  fix s :: os_state assume ok: "objs_ok (osSemaphores s)"
  obtain p h where a: "osObjectAlloc (osSemaphores s) = (p, h)" by (rule pair_cases)
  show "\<exists>p s'. OSA_SemaphoreCreate n s = Some (p, s') \<and> objs_ok (osSemaphores s') \<and> created p (osSemaphores s) (osSemaphores s')"
    using alloc_none [OF ok] alloc_some [OF ok a, of "\<lparr>sem_isWaiting = False, semCount = ucast n, sem_time_start = 0, sem_timeout = 0\<rparr>"] a
    by (cases "p = NULL") (auto simp: OSA_SemaphoreCreate_def)
next
  fix s :: os_state and p assume ok: "objs_ok (osSemaphores s)"
  then show "\<exists>st s'. Some (OSA_SemaphoreDestroy p s) = Some (st, s') \<and> objs_ok (osSemaphores s') \<and>
      destroyed st p (osSemaphores s) (osSemaphores s')"
    using free_destroyed [OF ok, of p] by (cases "p \<in> used (osSemaphores s)") (auto simp: OSA_SemaphoreDestroy_def)
qed (rule card_used(1))

interpretation mutexes: object_kind osMutexes "\<lambda>s. objs_ok (osMutexes s)" OSA_MutexCreate
  "\<lambda>p s. Some (OSA_MutexDestroy p s)"
proof (unfold_locales)
  fix s :: os_state assume ok: "objs_ok (osMutexes s)"
  obtain p h where a: "osObjectAlloc (osMutexes s) = (p, h)" by (rule pair_cases)
  show "\<exists>p s'. OSA_MutexCreate s = Some (p, s') \<and> objs_ok (osMutexes s') \<and> created p (osMutexes s) (osMutexes s')"
    using alloc_none [OF ok] alloc_some [OF ok a, of "\<lparr>mtx_isWaiting = False, isLocked = False, mtx_time_start = 0, mtx_timeout = 0\<rparr>"] a
    by (cases "p = NULL") (auto simp: OSA_MutexCreate_def)
next
  fix s :: os_state and p assume ok: "objs_ok (osMutexes s)"
  then show "\<exists>st s'. Some (OSA_MutexDestroy p s) = Some (st, s') \<and> objs_ok (osMutexes s') \<and>
      destroyed st p (osMutexes s) (osMutexes s')"
    using free_destroyed [OF ok, of p] by (cases "p \<in> used (osMutexes s)") (auto simp: OSA_MutexDestroy_def)
qed (rule card_used(1))

interpretation events: object_kind osEvents "\<lambda>s. objs_ok (osEvents s)" "OSA_EventCreate auto"
  "\<lambda>p s. Some (OSA_EventDestroy p s)" for auto
proof (unfold_locales)
  fix s :: os_state assume ok: "objs_ok (osEvents s)"
  obtain p h where a: "osObjectAlloc (osEvents s) = (p, h)" by (rule pair_cases)
  show "\<exists>p s'. OSA_EventCreate auto s = Some (p, s') \<and> objs_ok (osEvents s') \<and> created p (osEvents s) (osEvents s')"
    using alloc_none [OF ok] alloc_some [OF ok a, of "\<lparr>ev_isWaiting = False, ev_time_start = 0, ev_timeout = 0, flags = 0, autoClear = auto, ev_waitingTask = NULL\<rparr>"] a
    by (cases "p = NULL") (auto simp: OSA_EventCreate_def)
next
  fix s :: os_state and p assume ok: "objs_ok (osEvents s)"
  then show "\<exists>st s'. Some (OSA_EventDestroy p s) = Some (st, s') \<and> objs_ok (osEvents s') \<and>
      destroyed st p (osEvents s) (osEvents s')"
    using free_destroyed [OF ok, of p] by (cases "p \<in> used (osEvents s)") (auto simp: OSA_EventDestroy_def)
qed (rule card_used(1))

text \<open>Every queue has its memory, and the tasks that wait exist.\<close>

definition msgqs_ok :: "os_state \<Rightarrow> bool" where
  "msgqs_ok s \<longleftrightarrow> objs_ok (osMsgQs s) \<and> cur_ok s \<and>
     (\<forall>(u, q) \<in> set (objects (osMsgQs s)). length (queueMem q) = osNumberOfMessages \<and>
        (mq_waitingTask q = NULL \<or> mq_waitingTask q \<in> dom (tcbs (tasks s))))"

lemma obj_put_set:
  assumes "obj_put p y h = Some h'"
  shows "\<forall>(u, x) \<in> set (objects h'). x = y \<or> (\<exists>u. (u, x) \<in> set (objects h))"
proof -
  have "obj_put_from sz p y q os = Some os' \<Longrightarrow> \<forall>(u, x) \<in> set os'. x = y \<or> (\<exists>u. (u, x) \<in> set os)" for sz q os os'
    by (induction sz p y q os arbitrary: os' rule: obj_put_from.induct) (fastforce split: if_splits bind_splits)+
  then show ?thesis using assms by (auto simp: obj_put_def split: bind_splits) blast
qed

lemma osObjectFree_set: "\<forall>(u, x) \<in> set (objects (osObjectFree h p)). \<exists>u. (u, x) \<in> set (objects h)"
proof -
  have "\<forall>(u, x) \<in> set (osObjectFree_from sz p q os). \<exists>u. (u, x) \<in> set os" for sz q and os :: "(u32 \<times> 'a) list"
    by (induction sz p q os rule: osObjectFree_from.induct) auto
  then show ?thesis by (simp add: osObjectFree_def)
qed

lemma osObjectAlloc_set: "osObjectAlloc h = (p, h1) \<Longrightarrow> \<forall>(u, x) \<in> set (objects h1). \<exists>u. (u, x) \<in> set (objects h)"
proof -
  have "osObjectAlloc_from sz q os = (p, os') \<Longrightarrow> \<forall>(u, x) \<in> set os'. \<exists>u. (u, x) \<in> set os" for sz q and os os' :: "(u32 \<times> 'a) list"
    by (induction sz q os arbitrary: p os' rule: osObjectAlloc_from.induct) (fastforce split: if_splits prod.splits)+
  then show "osObjectAlloc h = (p, h1) \<Longrightarrow> \<forall>(u, x) \<in> set (objects h1). \<exists>u. (u, x) \<in> set (objects h)"
    by (fastforce simp: osObjectAlloc_def split: prod.splits)
qed

lemma msgqs_ok_obj: "msgqs_ok s \<Longrightarrow> (u, q) \<in> set (objects (osMsgQs s)) \<Longrightarrow>
    length (queueMem q) = osNumberOfMessages \<and> (mq_waitingTask q = NULL \<or> mq_waitingTask q \<in> dom (tcbs (tasks s)))"
  by (auto simp: msgqs_ok_def)

lemma live_set:
  assumes "objs_ok h" "live p h = Some x"
  shows "\<exists>u. (u, x) \<in> set (objects h)"
proof -
  obtain i where "i < length (objects h)" "p = addr_of h i" using allocated_at [OF assms(1) live_get(1) [OF assms]] by blast
  then have "x = snd (objects h ! i)" using live_get(2) [OF assms] obj_at(1) [OF assms(1)] by simp
  then show ?thesis using nth_mem [OF \<open>i < length (objects h)\<close>] by (metis prod.collapse)
qed

lemma OSA_MsgQCreate_ok:
  assumes ok: "msgqs_ok s" and n: "n \<le> of_nat osNumberOfMessages"
  shows "\<exists>p s'. OSA_MsgQCreate n s = Some (p, s') \<and> msgqs_ok s' \<and> created p (osMsgQs s) (osMsgQs s') \<and>
    (p \<noteq> NULL \<longrightarrow> msgq_holds p (unat n) [] s')"
proof -
  have objs: "objs_ok (osMsgQs s)" "cur_ok s" using ok by (simp_all add: msgqs_ok_def)
  obtain p h where a: "osObjectAlloc (osMsgQs s) = (p, h)" by (rule pair_cases)
  show ?thesis
  proof (cases "p = NULL")
    case True
    then have h: "h = osMsgQs s" "created p (osMsgQs s) h" using alloc_put [OF objs(1) a] by auto
    then show ?thesis using a n True ok by (simp add: OSA_MsgQCreate_def)
  next
    case False
    then obtain x u where x: "obj_get p h = Some x" "(u, x) \<in> set (objects (osMsgQs s))" using alloc_put [OF objs(1) a] by auto
    let ?q = "x\<lparr>mq_max := ucast n, mq_number := 0, mq_head := 0, mq_tail := 0\<rparr>"
    obtain h2 where h2: "obj_put p ?q h = Some h2" "objs_ok h2" "created p (osMsgQs s) h2" "live p h2 = Some ?q"
      using alloc_put [OF objs(1) a] False by auto
    let ?s = "s\<lparr>osMsgQs := h2\<rparr>"
    have q: "length (queueMem ?q) = 10" "mq_waitingTask ?q = NULL \<or> mq_waitingTask ?q \<in> dom (tcbs (tasks s))"
      using msgqs_ok_obj [OF ok x(2)] by simp_all
    have set: "\<forall>(u, y) \<in> set (objects h2). y = ?q \<or> (\<exists>u. (u, y) \<in> set (objects (osMsgQs s)))"
      using obj_put_set [OF h2(1)] osObjectAlloc_set [OF a] by fastforce
    have "length (queueMem y) = 10 \<and> (mq_waitingTask y = NULL \<or> mq_waitingTask y \<in> dom (tcbs (tasks s)))"
      if "(u, y) \<in> set (objects h2)" for u y
      using set that q msgqs_ok_obj [OF ok] by fastforce
    then have ok2: "msgqs_ok ?s" using h2(2) objs(2) by (auto simp: msgqs_ok_def cur_ok_def)
    have "unat n \<le> 10" using n by (simp add: word_le_nat_alt)
    moreover have m: "unat (ucast n :: u16) = unat n" using \<open>unat n \<le> 10\<close> by (simp add: unat_ucast_mod)
    ultimately have "msgq_ok ?q" "msgq_items ?q = []" using q(1) by (auto simp: msgq_ok_def unat_eq_zero)
    then have "msgq_holds p (unat n) [] ?s" using h2(2,4) objs(2) q(2) m by (auto simp: msgq_holds_def cur_ok_def)
    then show ?thesis using a n False x(1) h2(1,3) ok2 by (simp add: OSA_MsgQCreate_def)
  qed
qed

lemma OSA_MsgQDestroy_ok:
  assumes ok: "msgqs_ok s"
  shows "\<exists>st s'. OSA_MsgQDestroy p s = Some (st, s') \<and> msgqs_ok s' \<and> destroyed st p (osMsgQs s) (osMsgQs s')"
proof -
  have objs: "objs_ok (osMsgQs s)" "cur_ok s" using ok by (simp_all add: msgqs_ok_def)
  note fd = free_destroyed [OF objs(1), of p]
  show ?thesis
  proof (cases "p \<in> used (osMsgQs s)")
    case False
    then show ?thesis using fd ok by (simp add: OSA_MsgQDestroy_def)
  next
    case True
    then obtain q where q: "live p (osMsgQs s) = Some q" by (auto simp: used_def)
    obtain u where u: "(u, q) \<in> set (objects (osMsgQs s))" using live_set [OF objs(1) q] by blast
    let ?q = "if mq_waitingTask q \<noteq> NULL then q\<lparr>mq_waitingTask := NULL\<rparr> else q"
    obtain t where t: "wake_task (mq_waitingTask q) (tasks s) = Some t" "g_curTask t \<in> dom (tcbs t)"
      "dom (tcbs t) = dom (tcbs (tasks s))" using wake_ok [OF objs(2)] msgqs_ok_obj [OF ok u] by blast
    obtain h where h: "obj_put p ?q (osMsgQs s) = Some h" "objs_ok h" "live p h = Some ?q"
      "\<forall>r. r \<noteq> p \<longrightarrow> live r h = live r (osMsgQs s)" using live_put [OF objs(1) q, of ?q] by blast
    have same: "used h = used (osMsgQs s)" using h(3,4) q unfolding used_def by (metis option.distinct(1))
    have free: "objs_ok (osObjectFree h p)" "destroyed osaStatus_Success p (osMsgQs s) (osObjectFree h p)"
      using free_destroyed(1) [OF h(2), of p] True length_put [OF h(1)] unfolding same by (auto simp: destroyed_def same)
    let ?s = "s\<lparr>osMsgQs := osObjectFree h p, tasks := t\<rparr>"
    have set: "\<forall>(u, y) \<in> set (objects (osObjectFree h p)). y = ?q \<or> (\<exists>u. (u, y) \<in> set (objects (osMsgQs s)))"
      using obj_put_set [OF h(1)] osObjectFree_set [of h p] by fastforce
    have "length (queueMem y) = 10 \<and> (mq_waitingTask y = NULL \<or> mq_waitingTask y \<in> dom (tcbs t))"
      if y: "(u, y) \<in> set (objects (osObjectFree h p))" for u y
    proof -
      consider "y = ?q" | u' where "(u', y) \<in> set (objects (osMsgQs s))" using set y by blast
      then show ?thesis using msgqs_ok_obj [OF ok] u t(3) by cases auto
    qed
    then have "msgqs_ok ?s" using free(1) t(2) by (auto simp: msgqs_ok_def cur_ok_def)
    then show ?thesis using True fd(3) live_get(2) [OF objs(1) q] t(1) h(1) free(2) by (simp add: OSA_MsgQDestroy_def)
  qed
qed

interpretation msgqs: object_kind osMsgQs "\<lambda>s. msgqs_ok s \<and> n \<le> of_nat osNumberOfMessages" "OSA_MsgQCreate n" OSA_MsgQDestroy
  for n
proof (unfold_locales)
  fix s p assume ok: "msgqs_ok s \<and> n \<le> of_nat osNumberOfMessages"
  show "\<exists>p s'. OSA_MsgQCreate n s = Some (p, s') \<and> (msgqs_ok s' \<and> n \<le> of_nat osNumberOfMessages) \<and>
      created p (osMsgQs s) (osMsgQs s')"
    using OSA_MsgQCreate_ok [of s n] ok by blast
  show "\<exists>st s'. OSA_MsgQDestroy p s = Some (st, s') \<and> (msgqs_ok s' \<and> n \<le> of_nat osNumberOfMessages) \<and>
      destroyed st p (osMsgQs s) (osMsgQs s')"
    using OSA_MsgQDestroy_ok [of s p] ok by blast
  show "card (used (osMsgQs s)) \<le> length (objects (osMsgQs s))" using card_used(1) ok by (auto simp: msgqs_ok_def)
qed

section \<open>Properties\<close>

text \<open>An operation on a handle that is not in use.\<close>

lemma dead_handle:
  assumes "objs_ok (osSemaphores s)" "objs_ok (osMutexes s)" "objs_ok (osEvents s)" "objs_ok (osMsgQs s)"
  shows "p \<notin> used (osSemaphores s) \<Longrightarrow> OSA_SemaphoreWait timer p ms s = Some (osaStatus_Error, s) \<and>
        OSA_SemaphorePost p s = Some (osaStatus_Error, s)"
    "p \<notin> used (osMutexes s) \<Longrightarrow> OSA_MutexLock timer p ms s = Some (osaStatus_Error, s) \<and>
        OSA_MutexUnlock p s = Some (osaStatus_Error, s)"
    "p \<notin> used (osEvents s) \<Longrightarrow> OSA_EventSet p f s = Some (osaStatus_Error, s) \<and>
        OSA_EventClear p f s = Some (osaStatus_Error, s) \<and> OSA_EventWait timer p f all ms out s = Some (osaStatus_Error, None, s)"
    "p \<notin> used (osMsgQs s) \<Longrightarrow> OSA_MsgQPut p f s = Some (osaStatus_Error, s) \<and>
        OSA_MsgQGet timer p ms s = Some (osaStatus_Error, None, s)"
  using free_destroyed(3) assms
  by (auto simp: OSA_SemaphoreWait_def OSA_SemaphorePost_def OSA_MutexLock_def OSA_MutexUnlock_def
    OSA_EventSet_def OSA_EventClear_def OSA_EventWait_def OSA_MsgQPut_def OSA_MsgQGet_def)

text \<open>C18: in every run of creates and destroys of any kind of object a create gives a handle that is not in
  use, and \<open>NULL\<close> exactly when all objects are in use; a destroy succeeds exactly for a handle in use. Every
  other operation refuses a handle that is not in use, without effect.\<close>

theorem osa_handles:
  assumes ok: "objs_ok (osSemaphores s)" "objs_ok (osMutexes s)" "objs_ok (osEvents s)" "msgqs_ok s"
    and n: "n \<le> of_nat osNumberOfMessages"
  shows "(\<exists>as s'. handle_run (OSA_SemaphoreCreate i) (\<lambda>p s. Some (OSA_SemaphoreDestroy p s)) ops s = Some (as, s') \<and>
        handles_spec (length (objects (osSemaphores s))) ops as (used (osSemaphores s))) \<and>
    (\<exists>as s'. handle_run OSA_MutexCreate (\<lambda>p s. Some (OSA_MutexDestroy p s)) ops s = Some (as, s') \<and>
        handles_spec (length (objects (osMutexes s))) ops as (used (osMutexes s))) \<and>
    (\<exists>as s'. handle_run (OSA_EventCreate auto) (\<lambda>p s. Some (OSA_EventDestroy p s)) ops s = Some (as, s') \<and>
        handles_spec (length (objects (osEvents s))) ops as (used (osEvents s))) \<and>
    (\<exists>as s'. handle_run (OSA_MsgQCreate n) OSA_MsgQDestroy ops s = Some (as, s') \<and>
        handles_spec (length (objects (osMsgQs s))) ops as (used (osMsgQs s))) \<and>
    (p \<notin> used (osSemaphores s) \<longrightarrow> OSA_SemaphoreWait timer p ms s = Some (osaStatus_Error, s) \<and>
        OSA_SemaphorePost p s = Some (osaStatus_Error, s)) \<and>
    (p \<notin> used (osMutexes s) \<longrightarrow> OSA_MutexLock timer p ms s = Some (osaStatus_Error, s) \<and>
        OSA_MutexUnlock p s = Some (osaStatus_Error, s)) \<and>
    (p \<notin> used (osEvents s) \<longrightarrow> OSA_EventSet p f s = Some (osaStatus_Error, s) \<and>
        OSA_EventClear p f s = Some (osaStatus_Error, s) \<and> OSA_EventWait timer p f all ms out s = Some (osaStatus_Error, None, s)) \<and>
    (p \<notin> used (osMsgQs s) \<longrightarrow> OSA_MsgQPut p f s = Some (osaStatus_Error, s) \<and>
        OSA_MsgQGet timer p ms s = Some (osaStatus_Error, None, s))"
proof -
  have q: "objs_ok (osMsgQs s)" using ok(4) by (simp add: msgqs_ok_def)
  note runs = sems.runs [of s i ops] mutexes.runs [of s ops] events.runs [of s auto ops] msgqs.runs [of s n ops]
  show ?thesis using runs ok n dead_handle [OF ok(1-3) q] by blast
qed

text \<open>C15: a message queue that was created for \<open>n\<close> messages is a bounded queue: in every run of puts, gets and
  ticks a put succeeds exactly when fewer than \<open>n\<close> messages are in the queue, a get gives the oldest message, and
  succeeds exactly when there is one.\<close>

theorem osa_msgq_fifo:
  assumes ok: "msgqs_ok s" and create: "OSA_MsgQCreate n s = Some (p, s1)" "p \<noteq> NULL"
  shows "\<exists>s2. mq_run timer p ops s1 = Some (fst (fifo_run (unat n) ops []), s2) \<and>
    msgq_holds p (unat n) (snd (fifo_run (unat n) ops [])) s2"
proof -
  have "n \<le> of_nat osNumberOfMessages" using create by (auto simp: OSA_MsgQCreate_def split: if_splits)
  then have "msgq_holds p (unat n) [] s1" using OSA_MsgQCreate_ok [OF ok] create by fastforce
  then show ?thesis by (rule mq_run_fifo)
qed

text \<open>Polls of any semaphore, mutex, event or message queue that stands at \<open>v\<close>, at the times \<open>ts\<close>, answer \<open>as\<close>.\<close>

definition wait_answers :: "bool \<Rightarrow> u32 \<Rightarrow> os_state \<Rightarrow> wait_view \<Rightarrow> u32 list \<Rightarrow> osaStatus list \<Rightarrow> bool" where
  "wait_answers timer ms s v ts as \<longleftrightarrow>
     (\<forall>p. sem_view p s = Some v \<longrightarrow> map_option fst (polls (OSA_SemaphoreWait timer p ms) set_ticks ts s) = Some as) \<and>
     (\<forall>p. mutex_view p s = Some v \<longrightarrow> map_option fst (polls (OSA_MutexLock timer p ms) set_ticks ts s) = Some as) \<and>
     (\<forall>p fl all out. event_view p fl all out s = Some v \<longrightarrow>
        map_option fst (polls (event_poll timer p fl all out ms) set_ticks ts s) = Some as) \<and>
     (\<forall>p n. msgq_view p n s = Some v \<longrightarrow> map_option fst (polls (msgq_poll timer p ms) set_ticks ts s) = Some as)"

lemma wait_answersD:
  assumes "wait_answers timer ms s v ts as"
  shows "sem_view p s = Some v \<Longrightarrow> map_option fst (polls (OSA_SemaphoreWait timer p ms) set_ticks ts s) = Some as"
    and "mutex_view p s = Some v \<Longrightarrow> map_option fst (polls (OSA_MutexLock timer p ms) set_ticks ts s) = Some as"
    and "event_view p fl all out s = Some v \<Longrightarrow> map_option fst (polls (event_poll timer p fl all out ms) set_ticks ts s) = Some as"
    and "msgq_view p n s = Some v \<Longrightarrow> map_option fst (polls (msgq_poll timer p ms) set_ticks ts s) = Some as"
  using assms unfolding wait_answers_def by metis+

text \<open>C16: polls of a semaphore, a mutex, an event or a message queue that cannot be served, with a timeout other
  than 0 and \<open>osaWaitForever_c\<close>. In the build with the tick timer: when no timeout runs on the object, every call
  answers Idle as long as no more than the timeout has passed since the first call, across the wrap of the tick
  counter, and Timeout at the first call after that; when a timeout already runs on it (of an earlier call, or of
  an earlier life of a message queue, whose creation keeps \<open>isWaiting\<close>), it is that one that counts, whatever the
  timeout of the call. In the build without the tick timer, which is the default (\<open>FSL_OSA_BM_TIMER_NONE\<close>), every
  call answers Idle, however long it takes: there is no timeout.\<close>

theorem osa_wait_times_out:
  assumes ms: "ms \<noteq> 0" "ms \<noteq> osaWaitForever_c"
    and wait: "\<not> avail v"
  shows "(\<not> waiting v \<and> (\<forall>t \<in> set ts. t - t0 \<le> ms) \<and> ms < t1 - t0 \<longrightarrow>
      wait_answers True ms s v (t0 # ts @ [t1]) (replicate (Suc (length ts)) osaStatus_Idle @ [osaStatus_Timeout])) \<and>
    (waiting v \<and> (\<forall>t \<in> set ts. t - since v \<le> limit v) \<and> limit v < t1 - since v \<longrightarrow>
      wait_answers True ms s v (ts @ [t1]) (replicate (length ts) osaStatus_Idle @ [osaStatus_Timeout])) \<and>
    wait_answers False ms s v ts (replicate (length ts) osaStatus_Idle)"
proof (intro conjI impI)
  assume a: "\<not> waiting v \<and> (\<forall>t \<in> set ts. t - t0 \<le> ms) \<and> ms < t1 - t0"
  note h = wait a [THEN conjunct1] TrueI ms a [THEN conjunct2, THEN conjunct1] a [THEN conjunct2, THEN conjunct2]
  show "wait_answers True ms s v (t0 # ts @ [t1]) (replicate (Suc (length ts)) osaStatus_Idle @ [osaStatus_Timeout])"
    unfolding wait_answers_def
    using sem.times_out [OF _ h] mutex.times_out [OF _ h] event.times_out [OF _ h] msgq.times_out [OF _ h]
    by fastforce
next
  assume a: "waiting v \<and> (\<forall>t \<in> set ts. t - since v \<le> limit v) \<and> limit v < t1 - since v"
  note h = wait a [THEN conjunct1] TrueI ms(1) a [THEN conjunct2, THEN conjunct1] a [THEN conjunct2, THEN conjunct2]
  show "wait_answers True ms s v (ts @ [t1]) (replicate (length ts) osaStatus_Idle @ [osaStatus_Timeout])"
    unfolding wait_answers_def
    using sem.runs_out [OF _ h] mutex.runs_out [OF _ h] event.runs_out [OF _ h] msgq.runs_out [OF _ h]
    by fastforce
next
  have h: "False \<longrightarrow> waiting v" "False \<longrightarrow> (\<forall>t \<in> set ts. t - since v \<le> limit v)" by simp_all
  show "wait_answers False ms s v ts (replicate (length ts) osaStatus_Idle)"
    unfolding wait_answers_def
    using sem.waits [OF _ wait h(1) ms(1) h(2)] mutex.waits [OF _ wait h(1) ms(1) h(2)]
      event.waits [OF _ wait h(1) ms(1) h(2)] msgq.waits [OF _ wait h(1) ms(1) h(2)]
    by fastforce
qed

section \<open>Witnesses\<close>

text \<open>Two objects of each kind, the second free, and one task; a timeout of 5 ticks across the wrap of the counter.\<close>

definition demo_queue :: msg_queue_t where
  "demo_queue = \<lparr>mq_isWaiting = False, mq_number = 0, mq_max = 3, mq_head = 2, mq_tail = 2,
     queueMem = replicate 10 0, mq_time_start = 0, mq_timeout = 0, mq_waitingTask = NULL\<rparr>"

definition demo_event :: event_t where
  "demo_event = \<lparr>ev_isWaiting = False, ev_time_start = 0, ev_timeout = 0, flags = 4, autoClear = True, ev_waitingTask = NULL\<rparr>"

definition os_demo :: os_state where
  "os_demo = \<lparr>
     osSemaphores = \<lparr>pHeap = 0x1000, objectStructSize = 16, objects =
       [(1, \<lparr>sem_isWaiting = False, semCount = 0, sem_time_start = 0, sem_timeout = 0\<rparr>),
        (0, \<lparr>sem_isWaiting = False, semCount = 0, sem_time_start = 0, sem_timeout = 0\<rparr>)]\<rparr>,
     osMutexes = \<lparr>pHeap = 0x2000, objectStructSize = 16, objects =
       [(1, \<lparr>mtx_isWaiting = False, isLocked = True, mtx_time_start = 0, mtx_timeout = 0\<rparr>),
        (0, \<lparr>mtx_isWaiting = False, isLocked = False, mtx_time_start = 0, mtx_timeout = 0\<rparr>)]\<rparr>,
     osEvents = \<lparr>pHeap = 0x3000, objectStructSize = 32, objects = [(1, demo_event), (0, demo_event)]\<rparr>,
     osMsgQs = \<lparr>pHeap = 0x4000, objectStructSize = 64, objects = [(1, demo_queue), (0, demo_queue)]\<rparr>,
     tasks = \<lparr>tcbs = [0x100 \<mapsto> \<lparr>p_func = 0x8000, haveToRun = True, priority = 3, task_param = NULL, tcb_next = 0x100, tcb_prev = 0x100\<rparr>],
       p_taskListHead = 0x100, g_curTask = 0x100, g_freeTaskControlBlock = NULL\<rparr>,
     gTickCounter = 0\<rparr>"

lemma os_demo_ok: "objs_ok (osSemaphores os_demo)" "objs_ok (osMutexes os_demo)" "objs_ok (osEvents os_demo)"
    "msgqs_ok os_demo" "cur_ok os_demo"
  by (simp_all add: os_demo_def objs_ok_def msgqs_ok_def cur_ok_def demo_queue_def)

lemma os_demo_live:
  "live 0x1000 (osSemaphores os_demo) = Some \<lparr>sem_isWaiting = False, semCount = 0, sem_time_start = 0, sem_timeout = 0\<rparr>"
  "live 0x2000 (osMutexes os_demo) = Some \<lparr>mtx_isWaiting = False, isLocked = True, mtx_time_start = 0, mtx_timeout = 0\<rparr>"
  "live 0x3000 (osEvents os_demo) = Some demo_event" "live 0x4000 (osMsgQs os_demo) = Some demo_queue"
  by (simp_all add: live_def os_demo_def osObjectIsAllocated_def obj_get_def)

lemma demo_queue_ok: "msgq_ok demo_queue" "unat (mq_max demo_queue) = 3" "mq_waitingTask demo_queue = NULL"
  by (simp_all add: msgq_ok_def demo_queue_def)

lemma osa_handles_witness:
  "(\<exists>as s'. handle_run (OSA_MsgQCreate 3) OSA_MsgQDestroy [HCreate, HCreate, HDestroy 0x4000, HDestroy 0x4000, HCreate] os_demo = Some (as, s') \<and>
      handles_spec 2 [HCreate, HCreate, HDestroy 0x4000, HDestroy 0x4000, HCreate] as {0x4000}) \<and>
    OSA_SemaphorePost 0x1010 os_demo = Some (osaStatus_Error, os_demo)"
proof -
  let ?ops = "[HCreate, HCreate, HDestroy 0x4000, HDestroy 0x4000, HCreate]"
  have u: "used (osMsgQs os_demo) = {0x4000}" "0x1010 \<notin> used (osSemaphores os_demo)"
    by (auto simp: used_def os_demo_def live_def osObjectIsAllocated_def obj_get_def split: if_splits)
  have "length (objects (osMsgQs os_demo)) = 2" by (simp add: os_demo_def)
  then show ?thesis
    using osa_handles [OF os_demo_ok(1-4), where n = 3 and ops = ?ops and p = "0x1010"] u by simp
qed

lemma osa_msgq_fifo_witness:
  "\<exists>s1 s2. OSA_MsgQCreate 2 os_demo = Some (0x4040, s1) \<and>
    mq_run True 0x4040 [MPut 7, MPut 8, MPut 9, MTick, MGet 0, MPut 6, MGet 3, MGet 3, MGet 3] s1 =
      Some ([(True, None), (True, None), (False, None), (True, None), (True, Some 7), (True, None), (True, Some 8),
        (True, Some 6), (False, None)], s2)"
proof -
  obtain s1 where s1: "OSA_MsgQCreate 2 os_demo = Some (0x4040, s1)"
    by (simp add: OSA_MsgQCreate_def osObjectAlloc_def os_demo_def obj_get_def obj_put_def)
  show ?thesis
    using osa_msgq_fifo [OF os_demo_ok(4) s1, of True
      "[MPut 7, MPut 8, MPut 9, MTick, MGet 0, MPut 6, MGet 3, MGet 3, MGet 3]"] s1 by auto
qed

text \<open>The first semaphore waits with a timeout of 5 ticks that runs since the tick \<open>0xFFFFFFFE\<close>.\<close>

definition armed_demo :: os_state where
  "armed_demo = os_demo\<lparr>osSemaphores := \<lparr>pHeap = 0x1000, objectStructSize = 16, objects =
     [(1, \<lparr>sem_isWaiting = True, semCount = 0, sem_time_start = 0xFFFFFFFE, sem_timeout = 5\<rparr>),
      (0, \<lparr>sem_isWaiting = False, semCount = 0, sem_time_start = 0, sem_timeout = 0\<rparr>)]\<rparr>\<rparr>"

lemma osa_wait_times_out_witness:
  "map_option fst (polls (OSA_SemaphoreWait True 0x1000 5) set_ticks [0xFFFFFFFE, 0, 3, 4] os_demo) =
      Some [osaStatus_Idle, osaStatus_Idle, osaStatus_Idle, osaStatus_Timeout] \<and>
    map_option fst (polls (OSA_MutexLock True 0x2000 5) set_ticks [0xFFFFFFFE, 0, 3, 4] os_demo) =
      Some [osaStatus_Idle, osaStatus_Idle, osaStatus_Idle, osaStatus_Timeout] \<and>
    map_option fst (polls (event_poll True 0x3000 3 False 0x500 5) set_ticks [0xFFFFFFFE, 0, 3, 4] os_demo) =
      Some [osaStatus_Idle, osaStatus_Idle, osaStatus_Idle, osaStatus_Timeout] \<and>
    map_option fst (polls (msgq_poll True 0x4000 5) set_ticks [0xFFFFFFFE, 0, 3, 4] os_demo) =
      Some [osaStatus_Idle, osaStatus_Idle, osaStatus_Idle, osaStatus_Timeout] \<and>
    map_option fst (polls (OSA_SemaphoreWait True 0x1000 9) set_ticks [3, 4] armed_demo) = Some [osaStatus_Idle, osaStatus_Timeout] \<and>
    map_option fst (polls (msgq_poll False 0x4000 5) set_ticks [0, 3, 400] os_demo) =
      Some [osaStatus_Idle, osaStatus_Idle, osaStatus_Idle]"
proof -
  let ?v = "\<lparr>avail = False, waiting = False, since = 0, limit = 0\<rparr>"
  have "sem_view 0x1000 os_demo = Some ?v" using os_demo_ok(1) by (simp add: sem_view_def os_demo_live sem_wv_def)
  moreover have "mutex_view 0x2000 os_demo = Some ?v" using os_demo_ok(2) by (simp add: mutex_view_def os_demo_live mutex_wv_def)
  moreover have "event_view 0x3000 3 False 0x500 os_demo = Some ?v"
    using os_demo_ok(3,5) by (simp add: event_view_def os_demo_live event_wv_def event_ready_def demo_event_def)
  moreover have "msgq_view 0x4000 3 os_demo = Some ?v"
    using os_demo_ok(4,5) demo_queue_ok by (simp add: msgq_view_def os_demo_live msgq_holds_def msgqs_ok_def)
      (simp add: msgq_wv_def demo_queue_def)
  ultimately have v: "sem_view 0x1000 os_demo = Some ?v" "mutex_view 0x2000 os_demo = Some ?v"
    "event_view 0x3000 3 False 0x500 os_demo = Some ?v" "msgq_view 0x4000 3 os_demo = Some ?v" by blast+
  let ?w = "\<lparr>avail = False, waiting = True, since = 0xFFFFFFFE, limit = 5\<rparr>"
  have a: "sem_view 0x1000 armed_demo = Some ?w"
    by (simp add: sem_view_def armed_demo_def os_demo_def objs_ok_def live_def osObjectIsAllocated_def obj_get_def sem_wv_def)
  have n: "wait_answers True 5 os_demo ?v [0xFFFFFFFE, 0, 3, 4] [osaStatus_Idle, osaStatus_Idle, osaStatus_Idle, osaStatus_Timeout]"
    using osa_wait_times_out [of 5 ?v "[0, 3]" "0xFFFFFFFE" 4 os_demo] by simp
  have r: "wait_answers True 9 armed_demo ?w [3, 4] [osaStatus_Idle, osaStatus_Timeout]"
    using osa_wait_times_out [of 9 ?w "[3]" 0 4 armed_demo] by simp
  have f: "wait_answers False 5 os_demo ?v [0, 3, 400] [osaStatus_Idle, osaStatus_Idle, osaStatus_Idle]"
    using osa_wait_times_out [of 5 ?v "[0, 3, 400]" 0 0 os_demo] by simp
  show ?thesis
    by (intro conjI wait_answersD(1) [OF n v(1)] wait_answersD(2) [OF n v(2)] wait_answersD(3) [OF n v(3)]
      wait_answersD(4) [OF n v(4)] wait_answersD(1) [OF r a] wait_answersD(4) [OF f v(4)])
qed

text \<open>\<open>OSA_MsgQCreate\<close> keeps \<open>isWaiting\<close>: a queue whose waiter was cut off by its destruction starts its next life
  with the old timeout running, so that the first wait of 50 ticks on it ends at once.\<close>

theorem osa_msgq_stale_wait:
  "do { (st1, _, s) \<leftarrow> OSA_MsgQGet True 0x4000 5 os_demo;
        (st2, s) \<leftarrow> OSA_MsgQDestroy 0x4000 s;
        (p, s) \<leftarrow> OSA_MsgQCreate 2 s;
        (st3, _, s) \<leftarrow> OSA_MsgQGet True p 50 (set_ticks 100 s);
        Some (st1, st2, p, st3) } = Some (osaStatus_Idle, osaStatus_Success, 0x4000, osaStatus_Timeout)"
  by (simp add: OSA_MsgQGet_def OSA_MsgQDestroy_def OSA_MsgQCreate_def osObjectAlloc_def os_demo_def obj_get_def obj_put_def
    osObjectIsAllocated_def osObjectFree_def demo_queue_def OSA_TimeGetMsec_def OSA_TimeDiff_def set_ticks_def
    wake_task_def mod_tcb_def get_tcb_def OSA_TaskGetId_def)

text \<open>\<open>OSA_SemaphoreCreate\<close> keeps the low byte of the initial count.\<close>

theorem osa_sem_truncates:
  "do { (p, s) \<leftarrow> OSA_SemaphoreCreate 256 os_demo; x \<leftarrow> obj_get p (osSemaphores s); Some (p, semCount x) } = Some (0x1010, 0)"
  by (simp add: OSA_SemaphoreCreate_def osObjectAlloc_def os_demo_def obj_get_def obj_put_def)

end
