(* ===== verification/Mcmgr.thy ===== *)
theory Mcmgr
  imports Prelude
begin

text \<open>
  The multicore manager (\<open>multicore_2.3.1/mcmgr/src\<close>: \<open>mcmgr.c\<close>, \<open>mcmgr_internal_core_api_rv32m1.c\<close>,
  \<open>mcmgr_mu_internal.c\<close>) and channel 3 of the messaging unit, over which the two cores exchange events. A
  function is given by what is left to do after it returns, so that the points at which it waits for the
  channel, or at which an interrupt can come, are visible: \<open>prog\<close> is the rest of a program up to such a point.
  Each core has its own memory; a step relation interleaves the main programs and the interrupt handlers of both.
  Enumerations are as wide as \<open>int\<close>.
\<close>

section \<open>Data\<close>

datatype mcmgr_status =
  kStatus_MCMGR_Success | kStatus_MCMGR_Error | kStatus_MCMGR_NotImplemented | kStatus_MCMGR_NotReady

datatype mcmgr_core = kMCMGR_Core0 | kMCMGR_Core1

datatype mcmgr_start_mode = kMCMGR_Start_Synchronous | kMCMGR_Start_Asynchronous

abbreviation (input) kMCMGR_RemoteCoreUpEvent :: u32 where "kMCMGR_RemoteCoreUpEvent \<equiv> 0"
abbreviation (input) kMCMGR_RemoteCoreDownEvent :: u32 where "kMCMGR_RemoteCoreDownEvent \<equiv> 1"
abbreviation (input) kMCMGR_StartupDataEvent :: u32 where "kMCMGR_StartupDataEvent \<equiv> 3"
abbreviation (input) kMCMGR_FeedStartupDataEvent :: u32 where "kMCMGR_FeedStartupDataEvent \<equiv> 4"
abbreviation (input) kMCMGR_RemoteRPMsgEvent :: u32 where "kMCMGR_RemoteRPMsgEvent \<equiv> 5"
abbreviation (input) kMCMGR_RemoteApplicationEvent :: u32 where "kMCMGR_RemoteApplicationEvent \<equiv> 6"
abbreviation (input) kMCMGR_EventTableLength :: u32 where "kMCMGR_EventTableLength \<equiv> 7"

abbreviation (input) kMCMGR_ResetCoreState :: u32 where "kMCMGR_ResetCoreState \<equiv> 0"
abbreviation (input) kMCMGR_StartupGettingLowCoreState :: u32 where "kMCMGR_StartupGettingLowCoreState \<equiv> 1"
abbreviation (input) kMCMGR_StartupGettingHighCoreState :: u32 where "kMCMGR_StartupGettingHighCoreState \<equiv> 2"
abbreviation (input) kMCMGR_RunningCoreState :: u32 where "kMCMGR_RunningCoreState \<equiv> 3"

abbreviation (input) MCMGR_BOOT_ADDRESS_RAM :: u32 where "MCMGR_BOOT_ADDRESS_RAM \<equiv> 0x09000000"
abbreviation (input) MCMGR_BOOT_ADDRESS_FLASH :: u32 where "MCMGR_BOOT_ADDRESS_FLASH \<equiv> 0x01000000"

record mcmgr_core_context =
  state :: u32
  startupData :: u32

text \<open>Callbacks: the two of the manager itself, and those of the application.\<close>

datatype mcmgr_callback = StartupDataEventHandler | FeedStartupDataEventHandler | UserHandler ptr
datatype mcmgr_data = ContextOf mcmgr_core | UserData ptr

record mcmgr_event =
  callback :: "mcmgr_callback option"
  callbackData :: mcmgr_data

text \<open>The memory and registers of one core. \<open>calls\<close> lists the calls of application callbacks.\<close>

record core =
  coreNum :: mcmgr_core
  eventTable :: "mcmgr_event list"
  coresContext :: "mcmgr_core_context \<times> mcmgr_core_context"
  irq_enabled :: bool
  rdip :: bool
  raip :: bool
  calls :: "(ptr \<times> u16 \<times> mcmgr_data) list"

fun sel :: "mcmgr_core \<Rightarrow> 'a \<times> 'a \<Rightarrow> 'a" where
  "sel kMCMGR_Core0 (a, b) = a" | "sel kMCMGR_Core1 (a, b) = b"

fun upd :: "mcmgr_core \<Rightarrow> 'a \<Rightarrow> 'a \<times> 'a \<Rightarrow> 'a \<times> 'a" where
  "upd kMCMGR_Core0 x (a, b) = (x, b)" | "upd kMCMGR_Core1 x (a, b) = (a, x)"

fun other :: "mcmgr_core \<Rightarrow> mcmgr_core" where
  "other kMCMGR_Core0 = kMCMGR_Core1" | "other kMCMGR_Core1 = kMCMGR_Core0"

text \<open>A core number that is an argument may be out of range.\<close>

definition core_of :: "u32 \<Rightarrow> mcmgr_core option" where
  "core_of n = (if n = 0 then Some kMCMGR_Core0 else if n = 1 then Some kMCMGR_Core1 else None)"

definition context_of :: "mcmgr_core \<Rightarrow> core \<Rightarrow> mcmgr_core_context" where
  "context_of n c = sel n (coresContext c)"

definition set_context :: "mcmgr_core \<Rightarrow> mcmgr_core_context \<Rightarrow> core \<Rightarrow> core" where
  "set_context n x c = c\<lparr>coresContext := upd n x (coresContext c)\<rparr>"

section \<open>Programs\<close>

datatype mcmgr_result = RStatus mcmgr_status | RData mcmgr_status u32

text \<open>
  \<open>WaitTx\<close> waits for the transmit register to be empty and \<open>PutTx\<close> writes it; \<open>GetRx\<close> reads the receive
  register; \<open>Tau\<close> is a point at which an interrupt can come; \<open>Spin\<close> waits for the memory of the core;
  \<open>BootB\<close> and \<open>ResetB\<close> release the other core from reset and reset it; \<open>Fault\<close> is an access to memory that is
  not a context.
\<close>

datatype prog =
    Ret mcmgr_result
  | WaitTx u32 "core \<Rightarrow> core \<times> prog"
  | PutTx u32 "core \<Rightarrow> core \<times> prog"
  | GetRx "u32 \<Rightarrow> core \<Rightarrow> core \<times> prog"
  | Tau "core \<Rightarrow> core \<times> prog"
  | Spin "core \<Rightarrow> bool" "core \<Rightarrow> core \<times> prog"
  | BootB "core \<Rightarrow> core \<times> prog"
  | ResetB "core \<Rightarrow> core \<times> prog"
  | Fault

type_synonym cont = "core \<Rightarrow> core \<times> prog"

definition MU_SendMsg :: "u32 \<Rightarrow> cont \<Rightarrow> cont" where
  "MU_SendMsg msg k c = (c, WaitTx msg k)"

definition MU_SendMsgNonBlocking :: "u32 \<Rightarrow> cont \<Rightarrow> cont" where
  "MU_SendMsgNonBlocking msg k c = (c, PutTx msg k)"

definition MU_ReceiveMsgNonBlocking :: "(u32 \<Rightarrow> cont) \<Rightarrow> cont" where
  "MU_ReceiveMsgNonBlocking k c = (c, GetRx k)"

section \<open>Events\<close>

text \<open>The callback is cleared before its data is replaced, as an interrupt may come in between.\<close>

definition put_event :: "nat \<Rightarrow> (mcmgr_event \<Rightarrow> mcmgr_event) \<Rightarrow> core \<Rightarrow> core" where
  "put_event i f c = c\<lparr>eventTable := (eventTable c)[i := f (eventTable c ! i)]\<rparr>"

definition MCMGR_RegisterEvent :: "u32 \<Rightarrow> mcmgr_callback option \<Rightarrow> mcmgr_data \<Rightarrow> (mcmgr_status \<Rightarrow> cont) \<Rightarrow> cont" where
  "MCMGR_RegisterEvent type cb data k c =
     (if type \<ge> kMCMGR_EventTableLength then k kStatus_MCMGR_Error c
      else (put_event (unat type) (callback_update (\<lambda>_. None)) c, Tau (\<lambda>c.
        (put_event (unat type) (callbackData_update (\<lambda>_. data)) c, Tau (\<lambda>c.
        k kStatus_MCMGR_Success (put_event (unat type) (callback_update (\<lambda>_. cb)) c))))))"

definition mcmgr_trigger_event_internal :: "u32 \<Rightarrow> bool \<Rightarrow> (mcmgr_status \<Rightarrow> cont) \<Rightarrow> cont" where
  "mcmgr_trigger_event_internal remoteData forcedWrite k =
     (if \<not> forcedWrite then MU_SendMsg remoteData (k kStatus_MCMGR_Success)
      else MU_SendMsgNonBlocking remoteData (k kStatus_MCMGR_Success))"

definition event_word :: "u32 \<Rightarrow> u16 \<Rightarrow> u32" where
  "event_word type eventData = push_bit 16 type OR ucast eventData"

definition MCMGR_TriggerEventCommon :: "u32 \<Rightarrow> u16 \<Rightarrow> bool \<Rightarrow> (mcmgr_status \<Rightarrow> cont) \<Rightarrow> cont" where
  "MCMGR_TriggerEventCommon type eventData forcedWrite k =
     (if type \<ge> kMCMGR_EventTableLength then k kStatus_MCMGR_Error
      else mcmgr_trigger_event_internal (event_word type eventData) forcedWrite k)"

definition MCMGR_TriggerEvent :: "u32 \<Rightarrow> u16 \<Rightarrow> (mcmgr_status \<Rightarrow> cont) \<Rightarrow> cont" where
  "MCMGR_TriggerEvent type eventData = MCMGR_TriggerEventCommon type eventData False"

definition MCMGR_TriggerEventForce :: "u32 \<Rightarrow> u16 \<Rightarrow> (mcmgr_status \<Rightarrow> cont) \<Rightarrow> cont" where
  "MCMGR_TriggerEventForce type eventData = MCMGR_TriggerEventCommon type eventData True"

section \<open>The exchange of the startup data\<close>

definition MCMGR_StartupDataEventHandler :: "u16 \<Rightarrow> mcmgr_core \<Rightarrow> cont \<Rightarrow> cont" where
  "MCMGR_StartupDataEventHandler chunk n k c =
     (let x = context_of n c in
      if state x = kMCMGR_StartupGettingHighCoreState then
        MCMGR_TriggerEvent kMCMGR_FeedStartupDataEvent 3 (\<lambda>_. k)
          (set_context n \<lparr>state = kMCMGR_RunningCoreState, startupData = startupData x OR push_bit 16 (ucast chunk)\<rparr> c)
      else
        MCMGR_TriggerEvent kMCMGR_FeedStartupDataEvent 2 (\<lambda>_. k)
          (set_context n \<lparr>state = kMCMGR_StartupGettingHighCoreState, startupData = ucast chunk\<rparr> c))"

definition MCMGR_FeedStartupDataEventHandler :: "u16 \<Rightarrow> mcmgr_core \<Rightarrow> cont \<Rightarrow> cont" where
  "MCMGR_FeedStartupDataEventHandler chunk n k c =
     (let x = context_of n c; settle = (\<lambda>c. k (set_context n (context_of n c\<lparr>state := ucast chunk\<rparr>) c)) in
      if (ucast chunk :: u32) = kMCMGR_StartupGettingHighCoreState then
        MCMGR_TriggerEvent kMCMGR_StartupDataEvent (ucast (drop_bit 16 (startupData x))) (\<lambda>_. settle) c
      else if (ucast chunk :: u32) = kMCMGR_RunningCoreState then settle c
      else MCMGR_TriggerEvent kMCMGR_StartupDataEvent (ucast (startupData x AND 0xFFFF)) (\<lambda>_. settle) c)"

text \<open>Calling what the table has for an event.\<close>

definition call_event :: "nat \<Rightarrow> u16 \<Rightarrow> cont \<Rightarrow> cont" where
  "call_event type eventData k c =
     (let e = eventTable c ! type in
      case callback e of
        None \<Rightarrow> k c
      | Some (UserHandler f) \<Rightarrow> k (c\<lparr>calls := calls c @ [(f, eventData, callbackData e)]\<rparr>)
      | Some StartupDataEventHandler \<Rightarrow>
          (case callbackData e of ContextOf n \<Rightarrow> MCMGR_StartupDataEventHandler eventData n k c | UserData _ \<Rightarrow> (c, Fault))
      | Some FeedStartupDataEventHandler \<Rightarrow>
          (case callbackData e of ContextOf n \<Rightarrow> MCMGR_FeedStartupDataEventHandler eventData n k c | UserData _ \<Rightarrow> (c, Fault)))"

definition channel_event :: "cont \<Rightarrow> u32 \<Rightarrow> cont" where
  "channel_event k data =
     (let eventType = (ucast (drop_bit 16 data) :: u16); eventData = (ucast (data AND 0xFFFF) :: u16) in
      if (ucast eventType :: u32) < kMCMGR_EventTableLength then call_event (unat eventType) eventData k else k)"

definition mcmgr_mu_channel_handler :: "cont \<Rightarrow> cont" where
  "mcmgr_mu_channel_handler k = MU_ReceiveMsgNonBlocking (channel_event k)"

text \<open>The interrupt of the messaging unit. Of its twelve handlers only that of channel 3 is not empty.\<close>

abbreviation (input) MU_ISR_FLAG_BASE :: nat where "MU_ISR_FLAG_BASE \<equiv> 20"
abbreviation (input) MU_ISR_COUNT :: nat where "MU_ISR_COUNT \<equiv> 12"

definition MU_interrupts :: "nat \<Rightarrow> cont \<Rightarrow> cont" where
  "MU_interrupts i k = (if i = 4 then mcmgr_mu_channel_handler k else k)"

fun mu_isr_loop :: "u32 \<Rightarrow> nat list \<Rightarrow> cont \<Rightarrow> cont" where
  "mu_isr_loop fl [] k = k"
| "mu_isr_loop fl (i # is) k =
     (if bit fl i then MU_interrupts (i - MU_ISR_FLAG_BASE) (mu_isr_loop fl is k) else mu_isr_loop fl is k)"

definition mu_isr :: "u32 \<Rightarrow> cont \<Rightarrow> cont" where
  "mu_isr fl k c =
     (if bit fl 10 then call_event (unat kMCMGR_RemoteCoreDownEvent) 0 k (c\<lparr>raip := False\<rparr>)
      else mu_isr_loop fl [MU_ISR_FLAG_BASE..<MU_ISR_FLAG_BASE + MU_ISR_COUNT] k c)"

section \<open>The interface\<close>

definition mcmgr_early_init_internal :: "(mcmgr_status \<Rightarrow> cont) \<Rightarrow> cont" where
  "mcmgr_early_init_internal k = MCMGR_TriggerEvent kMCMGR_RemoteCoreUpEvent 0 (\<lambda>_. k kStatus_MCMGR_Success)"

definition MCMGR_EarlyInit :: "(mcmgr_status \<Rightarrow> cont) \<Rightarrow> cont" where
  "MCMGR_EarlyInit k = mcmgr_early_init_internal k"

definition mcmgr_late_init_internal :: "(mcmgr_status \<Rightarrow> cont) \<Rightarrow> cont" where
  "mcmgr_late_init_internal k c = k kStatus_MCMGR_Success (c\<lparr>irq_enabled := True\<rparr>)"

definition MCMGR_Init :: "(mcmgr_status \<Rightarrow> cont) \<Rightarrow> cont" where
  "MCMGR_Init k c =
     (let n = coreNum c in
      MCMGR_RegisterEvent kMCMGR_StartupDataEvent (Some StartupDataEventHandler) (ContextOf n) (\<lambda>_.
      MCMGR_RegisterEvent kMCMGR_FeedStartupDataEvent (Some FeedStartupDataEventHandler) (ContextOf (other n)) (\<lambda>_.
      mcmgr_late_init_internal k)) c)"

text \<open>The side of the messaging unit decides at compile time what is done; only core 0 has side A.\<close>

definition mcmgr_start_core_internal :: "mcmgr_core \<Rightarrow> u32 \<Rightarrow> (mcmgr_status \<Rightarrow> cont) \<Rightarrow> cont" where
  "mcmgr_start_core_internal n bootAddress k c =
     (if n \<noteq> kMCMGR_Core1 then k kStatus_MCMGR_Error c
      else if coreNum c = kMCMGR_Core0 then
        (if rdip c then k kStatus_MCMGR_Error c
         else if bootAddress = MCMGR_BOOT_ADDRESS_RAM \<or> bootAddress = MCMGR_BOOT_ADDRESS_FLASH then
           (c, BootB (k kStatus_MCMGR_Success))
         else k kStatus_MCMGR_Error c)
      else k kStatus_MCMGR_Success c)"

definition MCMGR_StartCore :: "u32 \<Rightarrow> u32 \<Rightarrow> u32 \<Rightarrow> mcmgr_start_mode \<Rightarrow> (mcmgr_status \<Rightarrow> cont) \<Rightarrow> cont" where
  "MCMGR_StartCore coreNumber bootAddress data mode k c =
     (case core_of coreNumber of None \<Rightarrow> k kStatus_MCMGR_Error c
      | Some n \<Rightarrow>
        mcmgr_start_core_internal n bootAddress (\<lambda>ret.
          if ret = kStatus_MCMGR_Success then
            (if mode = kMCMGR_Start_Synchronous then
               (\<lambda>c. (c, Spin (\<lambda>c. state (context_of n c) = kMCMGR_RunningCoreState) (k kStatus_MCMGR_Success)))
             else k kStatus_MCMGR_Success)
          else k kStatus_MCMGR_Error)
        (set_context n (context_of n c\<lparr>startupData := data\<rparr>) c))"

definition mcmgr_get_startup_data_internal :: "mcmgr_core \<Rightarrow> ptr \<Rightarrow> (mcmgr_status \<Rightarrow> u32 \<Rightarrow> cont) \<Rightarrow> cont" where
  "mcmgr_get_startup_data_internal n out k c =
     (if n \<noteq> kMCMGR_Core1 then k kStatus_MCMGR_Error 0 c
      else if out = NULL then k kStatus_MCMGR_Error 0 c
      else if state (context_of n c) \<ge> kMCMGR_RunningCoreState then k kStatus_MCMGR_Success (startupData (context_of n c)) c
      else k kStatus_MCMGR_NotReady 0 c)"

text \<open>What is written through the pointer is part of the answer.\<close>

definition MCMGR_GetStartupData :: "ptr \<Rightarrow> (mcmgr_status \<Rightarrow> u32 \<Rightarrow> cont) \<Rightarrow> cont" where
  "MCMGR_GetStartupData out k c =
     (let n = coreNum c; get = (\<lambda>c. (c, Tau (mcmgr_get_startup_data_internal n out k))) in
      if state (context_of n c) = kMCMGR_ResetCoreState then
        MCMGR_TriggerEvent kMCMGR_FeedStartupDataEvent 1 (\<lambda>_. get)
          (set_context n (context_of n c\<lparr>state := kMCMGR_StartupGettingLowCoreState\<rparr>) c)
      else get c)"

definition mcmgr_stop_core_internal :: "mcmgr_core \<Rightarrow> (mcmgr_status \<Rightarrow> cont) \<Rightarrow> cont" where
  "mcmgr_stop_core_internal n k c =
     (if n \<noteq> kMCMGR_Core1 then k kStatus_MCMGR_Error c
      else if coreNum c = kMCMGR_Core0 then
        (if \<not> rdip c then k kStatus_MCMGR_Error c else (c, ResetB (k kStatus_MCMGR_Success)))
      else k kStatus_MCMGR_Success c)"

definition MCMGR_StopCore :: "u32 \<Rightarrow> (mcmgr_status \<Rightarrow> cont) \<Rightarrow> cont" where
  "MCMGR_StopCore coreNumber k =
     (case core_of coreNumber of None \<Rightarrow> k kStatus_MCMGR_Error | Some n \<Rightarrow> mcmgr_stop_core_internal n k)"

section \<open>Both cores\<close>

text \<open>Calls that a main program makes.\<close>

datatype mcmgr_call =
    EarlyInit | Init | StartCore u32 u32 u32 mcmgr_start_mode | GetStartupData ptr | StopCore u32
  | TriggerEvent u32 u16 bool | RegisterEvent u32 "mcmgr_callback option" mcmgr_data

definition ret :: "mcmgr_status \<Rightarrow> cont" where
  "ret st c = (c, Ret (RStatus st))"

definition ret_data :: "mcmgr_status \<Rightarrow> u32 \<Rightarrow> cont" where
  "ret_data st d c = (c, Ret (RData st d))"

fun call :: "mcmgr_call \<Rightarrow> cont" where
  "call EarlyInit = MCMGR_EarlyInit ret"
| "call Init = MCMGR_Init ret"
| "call (StartCore n addr data mode) = MCMGR_StartCore n addr data mode ret"
| "call (GetStartupData out) = MCMGR_GetStartupData out ret_data"
| "call (StopCore n) = MCMGR_StopCore n ret"
| "call (TriggerEvent type eventData forced) =
     (if forced then MCMGR_TriggerEventForce type eventData ret else MCMGR_TriggerEvent type eventData ret)"
| "call (RegisterEvent type cb data) = MCMGR_RegisterEvent type cb data ret"

text \<open>
  The state of both: what each has in memory, the rest of its main program and of its interrupt handler, the word
  it has put into the channel for the other, what its main program has still to call, and the answers it got.
\<close>

record system =
  cpu :: "core \<times> core"
  main :: "prog option \<times> prog option"
  isr :: "prog option \<times> prog option"
  tx :: "u32 option \<times> u32 option"
  booted :: bool
  script :: "mcmgr_call list \<times> mcmgr_call list"
  results :: "mcmgr_result list \<times> mcmgr_result list"

definition resume :: "mcmgr_core \<Rightarrow> cont \<Rightarrow> system \<Rightarrow> system \<times> prog" where
  "resume n k s = (let (c, p) = k (sel n (cpu s)) in (s\<lparr>cpu := upd n c (cpu s)\<rparr>, p))"

text \<open>One step of a program on core \<open>n\<close>, unless it has to wait.\<close>

fun exec :: "mcmgr_core \<Rightarrow> prog \<Rightarrow> system \<Rightarrow> (system \<times> prog) option" where
  "exec n (Ret r) s = None"
| "exec n Fault s = None"
| "exec n (WaitTx w k) s = (if sel n (tx s) = None then Some (s, PutTx w k) else None)"
| "exec n (PutTx w k) s = Some (resume n k (s\<lparr>tx := upd n (Some w) (tx s)\<rparr>))"
| "exec n (GetRx k) s =
     (case sel (other n) (tx s) of
        Some w \<Rightarrow> Some (resume n (k w) (s\<lparr>tx := upd (other n) None (tx s)\<rparr>))
      | None \<Rightarrow> Some (s, Fault))"
| "exec n (Tau k) s = Some (resume n k s)"
| "exec n (Spin b k) s = (if b (sel n (cpu s)) then Some (resume n k s) else None)"
| "exec n (BootB k) s = Some (resume n k (s\<lparr>booted := True, cpu := upd n (sel n (cpu s)\<lparr>rdip := True\<rparr>) (cpu s)\<rparr>))"
| "exec n (ResetB k) s =
     Some (resume n k (s\<lparr>booted := False, cpu := upd n (sel n (cpu s)\<lparr>rdip := False, raip := True\<rparr>) (cpu s),
       main := upd (other n) None (main s), isr := upd (other n) None (isr s)\<rparr>))"

text \<open>The flags of the messaging unit on the side of core \<open>n\<close>: the register of channel 3 is bit 24.\<close>

definition mu_flags :: "mcmgr_core \<Rightarrow> system \<Rightarrow> u32" where
  "mu_flags n s =
     (if sel (other n) (tx s) \<noteq> None then 0x01000000 else 0) OR (if raip (sel n (cpu s)) then 0x400 else 0)"

definition running :: "mcmgr_core \<Rightarrow> system \<Rightarrow> bool" where
  "running n s \<longleftrightarrow> n = kMCMGR_Core0 \<or> booted s"

text \<open>
  What core \<open>n\<close> does next: its main program calls the next function, goes on, or takes the answer, as long as no
  interrupt is handled; its interrupt handler is entered, goes on, or is left.
\<close>

fun main_step :: "mcmgr_core \<Rightarrow> system \<Rightarrow> system option" where
  "main_step n s =
     (if \<not> running n s \<or> sel n (isr s) \<noteq> None then None
      else case sel n (main s) of
        None \<Rightarrow> (case sel n (script s) of
            [] \<Rightarrow> None
          | a # as \<Rightarrow> (let (s', p) = resume n (call a) (s\<lparr>script := upd n as (script s)\<rparr>) in
              Some (s'\<lparr>main := upd n (Some p) (main s')\<rparr>)))
      | Some (Ret r) \<Rightarrow> Some (s\<lparr>main := upd n None (main s), results := upd n (sel n (results s) @ [r]) (results s)\<rparr>)
      | Some p \<Rightarrow> do { (s', p') \<leftarrow> exec n p s; Some (s'\<lparr>main := upd n (Some p') (main s')\<rparr>) })"

fun isr_step :: "mcmgr_core \<Rightarrow> system \<Rightarrow> system option" where
  "isr_step n s =
     (if \<not> running n s then None
      else case sel n (isr s) of
        None \<Rightarrow>
          (if irq_enabled (sel n (cpu s)) \<and> mu_flags n s \<noteq> 0 then
             (let (s', p) = resume n (mu_isr (mu_flags n s) (ret kStatus_MCMGR_Success)) s in
              Some (s'\<lparr>isr := upd n (Some p) (isr s')\<rparr>))
           else None)
      | Some (Ret r) \<Rightarrow> Some (s\<lparr>isr := upd n None (isr s)\<rparr>)
      | Some p \<Rightarrow> do { (s', p') \<leftarrow> exec n p s; Some (s'\<lparr>isr := upd n (Some p') (isr s')\<rparr>) })"

inductive step :: "system \<Rightarrow> system \<Rightarrow> bool" where
  main: "main_step n s = Some s' \<Longrightarrow> step s s'"
| isr: "isr_step n s = Some s' \<Longrightarrow> step s s'"

section \<open>Starting the second core\<close>

text \<open>Out of reset, nothing is registered; the second core is held in reset.\<close>

definition core_reset :: "mcmgr_core \<Rightarrow> core" where
  "core_reset n = \<lparr>coreNum = n, eventTable = replicate 7 \<lparr>callback = None, callbackData = UserData NULL\<rparr>,
     coresContext = (\<lparr>state = 0, startupData = 0\<rparr>, \<lparr>state = 0, startupData = 0\<rparr>), irq_enabled = False,
     rdip = False, raip = False, calls = []\<rparr>"

definition system_reset :: "mcmgr_call list \<Rightarrow> mcmgr_call list \<Rightarrow> system" where
  "system_reset as bs = \<lparr>cpu = (core_reset kMCMGR_Core0, core_reset kMCMGR_Core1), main = (None, None), isr = (None, None),
     tx = (None, None), booted = False, script = (as, bs), results = ([], [])\<rparr>"

text \<open>Core 0 starts core 1 with \<open>d\<close> and waits for it; core 1 asks for its startup data \<open>n\<close> times.\<close>

definition boot :: "u32 \<Rightarrow> nat \<Rightarrow> system" where
  "boot d n = system_reset
     [EarlyInit, Init, StartCore 1 MCMGR_BOOT_ADDRESS_RAM d kMCMGR_Start_Synchronous]
     ([EarlyInit, Init] @ replicate n (GetStartupData 1))"

section \<open>The boot protocol as a small state machine\<close>

text \<open>Where the main program of a core is.\<close>

datatype boot_pc =
    Idle0 | UpWait | UpPut | UpRet | Idle1 | Init1 | Init2 | Init3 | Init4 | InitRet | Idle2
  | Boot | Spinning | StartRet | Idle3
  | FeedWait | FeedPut | GetTau | GetRet mcmgr_result

text \<open>Where an interrupt handler is, other than in the middle of an answer.\<close>

datatype boot_isr = HNone | HGet | HRet

text \<open>
  The phase counts how far the exchange of the data has come: 0 before it; 1 to 6 the first request (waiting for
  the channel, writing it, on the way) and the low half (the same); 7 to 12 the second request and the high half;
  13 to 15 the last request; 16 is the end. \<open>up0\<close> and \<open>up1\<close>: the core-up event is in the channel.
\<close>

record boot_state =
  pc0 :: boot_pc
  pc1 :: boot_pc
  phase :: nat
  up0 :: bool
  up1 :: bool
  h0 :: boot_isr
  h1 :: boot_isr
  polls :: nat
  answers :: "mcmgr_result list"

abbreviation (input) "Success \<equiv> RStatus kStatus_MCMGR_Success"
abbreviation (input) "Feed i \<equiv> event_word kMCMGR_FeedStartupDataEvent i"
abbreviation (input) "Data w \<equiv> event_word kMCMGR_StartupDataEvent w"

definition low :: "u32 \<Rightarrow> u16" where "low d = ucast (d AND 0xFFFF)"
definition high :: "u32 \<Rightarrow> u16" where "high d = ucast (drop_bit 16 d)"

text \<open>The rest of \<open>MCMGR_Init\<close> at its four interruption points.\<close>

definition init4 :: cont where
  "init4 c = ret kStatus_MCMGR_Success (put_event 4 (callback_update (\<lambda>_. Some FeedStartupDataEventHandler)) c\<lparr>irq_enabled := True\<rparr>)"

definition init3 :: "mcmgr_core \<Rightarrow> cont" where
  "init3 n c = (put_event 4 (callbackData_update (\<lambda>_. ContextOf (other n))) c, Tau init4)"

definition init2 :: "mcmgr_core \<Rightarrow> cont" where
  "init2 n c = (put_event 4 (callback_update (\<lambda>_. None)) (put_event 3 (callback_update (\<lambda>_. Some StartupDataEventHandler)) c),
     Tau (init3 n))"

definition init1 :: "mcmgr_core \<Rightarrow> cont" where
  "init1 n c = (put_event 3 (callbackData_update (\<lambda>_. ContextOf n)) c, Tau (init2 n))"

lemma call_Init: "call Init c = (put_event 3 (callback_update (\<lambda>_. None)) c, Tau (init1 (coreNum c)))"
  by (simp add: MCMGR_Init_def Let_def MCMGR_RegisterEvent_def mcmgr_late_init_internal_def init1_def [abs_def] init2_def [abs_def]
    init3_def [abs_def] init4_def [abs_def])

text \<open>The answers of the handlers, after they have the channel.\<close>

definition settle0 :: "u16 \<Rightarrow> cont" where
  "settle0 i c = ret kStatus_MCMGR_Success
     (set_context kMCMGR_Core1 (context_of kMCMGR_Core1 c\<lparr>state := ucast i\<rparr>) c)"

abbreviation (input) "OK \<equiv> ret kStatus_MCMGR_Success"

text \<open>What the main program of a core runs at each place.\<close>

definition get_data :: cont where
  "get_data = mcmgr_get_startup_data_internal kMCMGR_Core1 1 ret_data"

definition spin_end :: "core \<Rightarrow> bool" where
  "spin_end c \<longleftrightarrow> state (context_of kMCMGR_Core1 c) = kMCMGR_RunningCoreState"

fun pc_prog :: "mcmgr_core \<Rightarrow> boot_pc \<Rightarrow> prog option" where
  "pc_prog n UpWait = Some (WaitTx (event_word kMCMGR_RemoteCoreUpEvent 0) OK)"
| "pc_prog n UpPut = Some (PutTx (event_word kMCMGR_RemoteCoreUpEvent 0) OK)"
| "pc_prog n UpRet = Some (Ret Success)"
| "pc_prog n Init1 = Some (Tau (init1 n))"
| "pc_prog n Init2 = Some (Tau (init2 n))"
| "pc_prog n Init3 = Some (Tau (init3 n))"
| "pc_prog n Init4 = Some (Tau init4)"
| "pc_prog n InitRet = Some (Ret Success)"
| "pc_prog n Boot = Some (BootB (\<lambda>c. (c, Spin spin_end OK)))"
| "pc_prog n Spinning = Some (Spin spin_end OK)"
| "pc_prog n StartRet = Some (Ret Success)"
| "pc_prog n FeedWait = Some (WaitTx (Feed 1) (\<lambda>c. (c, Tau get_data)))"
| "pc_prog n FeedPut = Some (PutTx (Feed 1) (\<lambda>c. (c, Tau get_data)))"
| "pc_prog n GetTau = Some (Tau get_data)"
| "pc_prog n (GetRet r) = Some (Ret r)"
| "pc_prog n Idle0 = None" | "pc_prog n Idle1 = None" | "pc_prog n Idle2 = None" | "pc_prog n Idle3 = None"

lemma calls_boot:
  "call EarlyInit c = (c, WaitTx (event_word kMCMGR_RemoteCoreUpEvent 0) OK)"
  "coreNum c = kMCMGR_Core0 \<Longrightarrow> \<not> rdip c \<Longrightarrow>
    call (StartCore 1 MCMGR_BOOT_ADDRESS_RAM d kMCMGR_Start_Synchronous) c =
      (set_context kMCMGR_Core1 (context_of kMCMGR_Core1 c\<lparr>startupData := d\<rparr>) c, BootB (\<lambda>c. (c, Spin spin_end OK)))"
  "coreNum c = kMCMGR_Core1 \<Longrightarrow> state (context_of kMCMGR_Core1 c) = 0 \<Longrightarrow>
    call (GetStartupData 1) c = (set_context kMCMGR_Core1 (context_of kMCMGR_Core1 c\<lparr>state := 1\<rparr>) c,
      WaitTx (Feed 1) (\<lambda>c. (c, Tau get_data)))"
  "coreNum c = kMCMGR_Core1 \<Longrightarrow> state (context_of kMCMGR_Core1 c) \<noteq> 0 \<Longrightarrow>
    call (GetStartupData 1) c = (c, Tau get_data)"
  by (simp_all add: MCMGR_EarlyInit_def mcmgr_early_init_internal_def MCMGR_TriggerEvent_def MCMGR_TriggerEventCommon_def
    mcmgr_trigger_event_internal_def MU_SendMsg_def [abs_def] MCMGR_StartCore_def core_of_def mcmgr_start_core_internal_def
    spin_end_def [abs_def] MCMGR_GetStartupData_def get_data_def Let_def set_context_def)

fun level :: "boot_pc \<Rightarrow> nat" where
  "level Idle0 = 0" | "level UpWait = 1" | "level UpPut = 2" | "level UpRet = 3" | "level Idle1 = 4"
| "level Init1 = 5" | "level Init2 = 6" | "level Init3 = 7" | "level Init4 = 8" | "level InitRet = 9" | "level Idle2 = 10"
| "level Boot = 11" | "level Spinning = 12" | "level StartRet = 13" | "level Idle3 = 14"
| "level FeedWait = 11" | "level FeedPut = 12" | "level GetTau = 13" | "level (GetRet r) = 14"

abbreviation (input) "no_event \<equiv> \<lparr>callback = None, callbackData = UserData NULL\<rparr>"

definition events_at :: "mcmgr_core \<Rightarrow> nat \<Rightarrow> mcmgr_event list" where
  "events_at n l = [no_event, no_event, no_event,
     (if l < 6 then no_event else \<lparr>callback = if l < 7 then None else Some StartupDataEventHandler, callbackData = ContextOf n\<rparr>),
     (if l < 8 then no_event else \<lparr>callback = if l < 9 then None else Some FeedStartupDataEventHandler, callbackData = ContextOf (other n)\<rparr>),
     no_event, no_event]"

definition core0_at :: "u32 \<Rightarrow> boot_pc \<Rightarrow> nat \<Rightarrow> core" where
  "core0_at d p ph = \<lparr>coreNum = kMCMGR_Core0, eventTable = events_at kMCMGR_Core0 (level p),
     coresContext = (\<lparr>state = 0, startupData = 0\<rparr>,
       \<lparr>state = (if ph < 6 then 0 else if ph < 12 then 1 else if ph < 16 then 2 else 3),
        startupData = (if level p < 11 then 0 else d)\<rparr>),
     irq_enabled = (9 \<le> level p), rdip = (12 \<le> level p), raip = False, calls = []\<rparr>"

definition core1_at :: "u32 \<Rightarrow> boot_pc \<Rightarrow> nat \<Rightarrow> core" where
  "core1_at d p ph = \<lparr>coreNum = kMCMGR_Core1, eventTable = events_at kMCMGR_Core1 (level p),
     coresContext = (\<lparr>state = 0, startupData = 0\<rparr>,
       \<lparr>state = (if ph = 0 then 0 else if ph < 7 then 1 else if ph < 13 then 2 else 3),
        startupData = (if ph < 7 then 0 else if ph < 13 then ucast (low d) else d)\<rparr>),
     irq_enabled = (9 \<le> level p), rdip = False, raip = False, calls = []\<rparr>"

abbreviation (input) "Up \<equiv> event_word kMCMGR_RemoteCoreUpEvent 0"

definition tx0_at :: "u32 \<Rightarrow> nat \<Rightarrow> bool \<Rightarrow> u32 option" where
  "tx0_at d ph up = (if ph = 6 then Some (Data (low d)) else if ph = 12 then Some (Data (high d))
     else if up then Some Up else None)"

definition tx1_at :: "nat \<Rightarrow> bool \<Rightarrow> u32 option" where
  "tx1_at ph up = (if ph = 3 then Some (Feed 1) else if ph = 9 then Some (Feed 2) else if ph = 15 then Some (Feed 3)
     else if up then Some Up else None)"

fun isr_prog :: "boot_isr \<Rightarrow> prog option" where
  "isr_prog HNone = None"
| "isr_prog HGet = Some (GetRx (channel_event OK))"
| "isr_prog HRet = Some (Ret Success)"

definition isr0_at :: "u32 \<Rightarrow> nat \<Rightarrow> boot_isr \<Rightarrow> prog option" where
  "isr0_at d ph h =
     (if ph = 4 then Some (WaitTx (Data (low d)) (settle0 1)) else if ph = 5 then Some (PutTx (Data (low d)) (settle0 1))
      else if ph = 10 then Some (WaitTx (Data (high d)) (settle0 2)) else if ph = 11 then Some (PutTx (Data (high d)) (settle0 2))
      else isr_prog h)"

definition isr1_at :: "nat \<Rightarrow> boot_isr \<Rightarrow> prog option" where
  "isr1_at ph h =
     (if ph = 7 then Some (WaitTx (Feed 2) OK) else if ph = 8 then Some (PutTx (Feed 2) OK)
      else if ph = 13 then Some (WaitTx (Feed 3) OK) else if ph = 14 then Some (PutTx (Feed 3) OK)
      else isr_prog h)"

definition script_at :: "mcmgr_call list \<Rightarrow> nat \<Rightarrow> mcmgr_call list" where
  "script_at as l = (if l = 0 then EarlyInit # Init # as else if l < 5 then Init # as else as)"

definition results_at :: "mcmgr_result list \<Rightarrow> nat \<Rightarrow> mcmgr_result list" where
  "results_at rs l = (if l < 4 then [] else if l < 10 then [Success] else Success # Success # rs)"

definition boot_at :: "u32 \<Rightarrow> boot_state \<Rightarrow> system" where
  "boot_at d t = \<lparr>cpu = (core0_at d (pc0 t) (phase t), core1_at d (pc1 t) (phase t)),
     main = (pc_prog kMCMGR_Core0 (pc0 t), pc_prog kMCMGR_Core1 (pc1 t)),
     isr = (isr0_at d (phase t) (h0 t), isr1_at (phase t) (h1 t)), tx = (tx0_at d (phase t) (up0 t), tx1_at (phase t) (up1 t)), booted = (12 \<le> level (pc0 t)),
     script = (script_at (if level (pc0 t) < 11 then [StartCore 1 MCMGR_BOOT_ADDRESS_RAM d kMCMGR_Start_Synchronous] else []) (level (pc0 t)),
       script_at (replicate (polls t) (GetStartupData 1)) (level (pc1 t))),
     results = (results_at (if level (pc0 t) < 14 then [] else [Success]) (level (pc0 t)), results_at (answers t) (level (pc1 t)))\<rparr>"

definition boot_start :: "nat \<Rightarrow> boot_state" where
  "boot_start n = \<lparr>pc0 = Idle0, pc1 = Idle0, phase = 0, up0 = False, up1 = False, h0 = HNone, h1 = HNone, polls = n, answers = []\<rparr>"

lemma boot_at_start: "boot d n = boot_at d (boot_start n)"
  by (simp add: boot_def system_reset_def boot_at_def boot_start_def core0_at_def core1_at_def core_reset_def events_at_def
    tx0_at_def tx1_at_def isr0_at_def isr1_at_def script_at_def results_at_def numeral_eq_Suc)

text \<open>Its steps.\<close>

fun init_next :: "bool \<Rightarrow> boot_pc \<Rightarrow> (boot_pc \<times> bool) option" where
  "init_next up Idle0 = Some (UpWait, up)"
| "init_next up UpWait = (if up then None else Some (UpPut, up))"
| "init_next up UpPut = Some (UpRet, True)"
| "init_next up UpRet = Some (Idle1, up)"
| "init_next up Idle1 = Some (Init1, up)"
| "init_next up Init1 = Some (Init2, up)"
| "init_next up Init2 = Some (Init3, up)"
| "init_next up Init3 = Some (Init4, up)"
| "init_next up Init4 = Some (InitRet, up)"
| "init_next up InitRet = Some (Idle2, up)"
| "init_next up _ = None"

definition main0 :: "boot_state \<Rightarrow> boot_state option" where
  "main0 t =
     (if h0 t \<noteq> HNone \<or> phase t \<in> {4, 5, 10, 11} then None
      else if level (pc0 t) < 10 then map_option (\<lambda>(p, up). t\<lparr>pc0 := p, up0 := up\<rparr>) (init_next (up0 t) (pc0 t))
      else case pc0 t of
        Idle2 \<Rightarrow> Some (t\<lparr>pc0 := Boot\<rparr>)
      | Boot \<Rightarrow> Some (t\<lparr>pc0 := Spinning\<rparr>)
      | Spinning \<Rightarrow> (if phase t = 16 then Some (t\<lparr>pc0 := StartRet\<rparr>) else None)
      | StartRet \<Rightarrow> Some (t\<lparr>pc0 := Idle3\<rparr>)
      | _ \<Rightarrow> None)"

definition poll_answer :: "u32 \<Rightarrow> boot_state \<Rightarrow> mcmgr_result" where
  "poll_answer d t = (if phase t < 13 then RData kStatus_MCMGR_NotReady 0 else RData kStatus_MCMGR_Success d)"

definition main1 :: "u32 \<Rightarrow> boot_state \<Rightarrow> boot_state option" where
  "main1 d t =
     (if level (pc0 t) < 12 \<or> h1 t \<noteq> HNone \<or> phase t \<in> {7, 8, 13, 14} then None
      else if level (pc1 t) < 10 then map_option (\<lambda>(p, up). t\<lparr>pc1 := p, up1 := up\<rparr>) (init_next (up1 t) (pc1 t))
      else case pc1 t of
        Idle2 \<Rightarrow> (case polls t of 0 \<Rightarrow> None
          | Suc m \<Rightarrow> (if phase t = 0 then Some (t\<lparr>pc1 := FeedWait, phase := 1, polls := m\<rparr>) else Some (t\<lparr>pc1 := GetTau, polls := m\<rparr>)))
      | FeedWait \<Rightarrow> (if up1 t then None else Some (t\<lparr>pc1 := FeedPut, phase := 2\<rparr>))
      | FeedPut \<Rightarrow> Some (t\<lparr>pc1 := GetTau, phase := 3\<rparr>)
      | GetTau \<Rightarrow> Some (t\<lparr>pc1 := GetRet (poll_answer d t)\<rparr>)
      | GetRet r \<Rightarrow> Some (t\<lparr>pc1 := Idle2, answers := answers t @ [r]\<rparr>)
      | _ \<Rightarrow> None)"

definition isr0 :: "boot_state \<Rightarrow> boot_state option" where
  "isr0 t =
     (if phase t = 4 then (if up0 t then None else Some (t\<lparr>phase := 5\<rparr>))
      else if phase t = 10 then Some (t\<lparr>phase := 11\<rparr>)
      else if phase t = 5 \<or> phase t = 11 then Some (t\<lparr>phase := phase t + 1, h0 := HRet\<rparr>)
      else case h0 t of
        HNone \<Rightarrow> (if 9 \<le> level (pc0 t) \<and> tx1_at (phase t) (up1 t) \<noteq> None then Some (t\<lparr>h0 := HGet\<rparr>) else None)
      | HGet \<Rightarrow> (if phase t = 3 \<or> phase t = 9 then Some (t\<lparr>phase := phase t + 1, h0 := HNone\<rparr>)
          else if phase t = 15 then Some (t\<lparr>phase := 16, h0 := HRet\<rparr>) else Some (t\<lparr>up1 := False, h0 := HRet\<rparr>))
      | HRet \<Rightarrow> Some (t\<lparr>h0 := HNone\<rparr>))"

definition isr1 :: "u32 \<Rightarrow> boot_state \<Rightarrow> boot_state option" where
  "isr1 d t =
     (if level (pc0 t) < 12 then None
      else if phase t = 7 \<or> phase t = 13 then Some (t\<lparr>phase := phase t + 1\<rparr>)
      else if phase t = 8 \<or> phase t = 14 then Some (t\<lparr>phase := phase t + 1, h1 := HRet\<rparr>)
      else case h1 t of
        HNone \<Rightarrow> (if 9 \<le> level (pc1 t) \<and> tx0_at d (phase t) (up0 t) \<noteq> None then Some (t\<lparr>h1 := HGet\<rparr>) else None)
      | HGet \<Rightarrow> (if phase t = 6 \<or> phase t = 12 then Some (t\<lparr>phase := phase t + 1, h1 := HNone\<rparr>)
          else Some (t\<lparr>up0 := False, h1 := HRet\<rparr>))
      | HRet \<Rightarrow> Some (t\<lparr>h1 := HNone\<rparr>))"

definition boot_ok :: "u32 \<Rightarrow> boot_state \<Rightarrow> bool" where
  "boot_ok d t \<longleftrightarrow>
     phase t \<le> 16 \<and> pc0 t \<notin> {FeedWait, FeedPut, GetTau} \<and> (\<forall>r. pc0 t \<noteq> GetRet r) \<and>
     pc1 t \<notin> {Boot, Spinning, StartRet, Idle3} \<and>
     (level (pc0 t) < 12 \<longrightarrow> pc1 t = Idle0 \<and> phase t = 0 \<and> \<not> up1 t \<and> h1 t = HNone) \<and>
     (phase t = 0 \<longrightarrow> level (pc1 t) \<le> 10) \<and> (1 \<le> phase t \<longrightarrow> 10 \<le> level (pc1 t)) \<and>
     (phase t = 1 \<longleftrightarrow> pc1 t = FeedWait) \<and> (phase t = 2 \<longleftrightarrow> pc1 t = FeedPut) \<and>
     (up0 t \<longrightarrow> phase t \<le> 4 \<and> 3 \<le> level (pc0 t)) \<and> (up1 t \<longrightarrow> phase t \<le> 1 \<and> 3 \<le> level (pc1 t)) \<and>
     (h0 t \<noteq> HNone \<longrightarrow> 9 \<le> level (pc0 t) \<and> phase t \<notin> {4, 5, 10, 11}) \<and> (h0 t = HGet \<longrightarrow> tx1_at (phase t) (up1 t) \<noteq> None) \<and>
     (h1 t \<noteq> HNone \<longrightarrow> 9 \<le> level (pc1 t) \<and> phase t \<notin> {7, 8, 13, 14}) \<and> (h1 t = HGet \<longrightarrow> tx0_at d (phase t) (up0 t) \<noteq> None) \<and>
     (13 \<le> level (pc0 t) \<longrightarrow> phase t = 16) \<and> (level (pc1 t) < 10 \<longrightarrow> answers t = [])"

lemma boot_at_simps [simp]:
  "cpu (boot_at d t) = (core0_at d (pc0 t) (phase t), core1_at d (pc1 t) (phase t))"
  "main (boot_at d t) = (pc_prog kMCMGR_Core0 (pc0 t), pc_prog kMCMGR_Core1 (pc1 t))"
  "isr (boot_at d t) = (isr0_at d (phase t) (h0 t), isr1_at (phase t) (h1 t))" "tx (boot_at d t) = (tx0_at d (phase t) (up0 t), tx1_at (phase t) (up1 t))"
  "booted (boot_at d t) = (12 \<le> level (pc0 t))"
  "results (boot_at d t) = (results_at (if level (pc0 t) < 14 then [] else [Success]) (level (pc0 t)), results_at (answers t) (level (pc1 t)))"
  by (simp_all add: boot_at_def)

lemma core_at_simps [simp]:
  "coreNum (core0_at d p ph) = kMCMGR_Core0" "coreNum (core1_at d p ph) = kMCMGR_Core1"
  "raip (core0_at d p ph) = False" "raip (core1_at d p ph) = False"
  "irq_enabled (core0_at d p ph) = (9 \<le> level p)" "irq_enabled (core1_at d p ph) = (9 \<le> level p)"
  "rdip (core0_at d p ph) = (12 \<le> level p)"
  by (simp_all add: core0_at_def core1_at_def)

lemma isr0_None: "isr0_at d ph h = None \<longleftrightarrow> h = HNone \<and> ph \<notin> {4, 5, 10, 11}"
  by (cases h) (auto simp: isr0_at_def)

lemma isr1_None: "isr1_at ph h = None \<longleftrightarrow> h = HNone \<and> ph \<notin> {7, 8, 13, 14}"
  by (cases h) (auto simp: isr1_at_def)

declare call.simps [simp del]

text \<open>The steps of the main program of core 0.\<close>

lemmas at_defs = core0_at_def core1_at_def tx0_at_def tx1_at_def isr0_at_def isr1_at_def script_at_def results_at_def events_at_def

lemma spin_end_at: "ph \<le> 16 \<Longrightarrow> spin_end (core0_at d p ph) \<longleftrightarrow> ph = 16"
  by (simp add: spin_end_def context_of_def core0_at_def)

lemma main0_sim:
  assumes "boot_ok d t"
  shows "main_step kMCMGR_Core0 (boot_at d t) = map_option (boot_at d) (main0 t)"
proof (cases "isr0_at d (phase t) (h0 t) = None")
  case False
  then show ?thesis by (auto simp: main0_def isr0_None)
next
  case True
  then have h: "h0 t = HNone" "phase t \<noteq> 4" "phase t \<noteq> 5" "phase t \<noteq> 10" "phase t \<noteq> 11" by (simp_all add: isr0_None)
  note ok = assms [unfolded boot_ok_def]
  show ?thesis
  proof (cases "pc0 t")
    case Idle0
    then show ?thesis using h True by (simp add: main0_def running_def calls_boot resume_def boot_at_def events_at_def script_at_def results_at_def core0_at_def split del: if_split)
  next
    case UpWait
    then have "phase t = 0" using ok by simp
    then show ?thesis using UpWait h True by (cases "up0 t") (simp_all add: tx0_at_def main0_def running_def boot_at_def events_at_def script_at_def results_at_def core0_at_def split del: if_split)
  next
    case UpPut
    then have "phase t = 0" using ok by simp
    then show ?thesis using UpPut h True by (simp add: tx0_at_def main0_def running_def boot_at_def events_at_def script_at_def results_at_def core0_at_def resume_def ret_def split del: if_split)
  next
    case Idle1
    then show ?thesis using h True by (simp add: main0_def running_def call_Init resume_def boot_at_def events_at_def script_at_def results_at_def core0_at_def put_event_def split del: if_split)
  next
    case Idle2
    then show ?thesis using h True by (simp add: main0_def running_def calls_boot resume_def boot_at_def events_at_def script_at_def results_at_def core0_at_def context_of_def set_context_def split del: if_split)
  next
    case Spinning
    have "phase t \<le> 16" using ok by (rule conjunct1)
    then show ?thesis using Spinning h True
      by (cases "phase t = 16")
        (simp_all add: main0_def running_def spin_end_at, simp_all add: boot_at_def resume_def ret_def at_defs)
  qed (use h True ok in \<open>simp_all add: main0_def running_def boot_at_def events_at_def script_at_def results_at_def core0_at_def resume_def ret_def init1_def init2_def init3_def init4_def put_event_def split del: if_split\<close>)
qed

text \<open>The steps of the main program of core 1.\<close>

lemma core1_state:
  "state (context_of kMCMGR_Core1 (core1_at d p ph)) = (if ph = 0 then 0 else if ph < 7 then 1 else if ph < 13 then 2 else 3)"
  "startupData (context_of kMCMGR_Core1 (core1_at d p ph)) = (if ph < 7 then 0 else if ph < 13 then ucast (low d) else d)"
  by (simp_all add: context_of_def core1_at_def)

lemma get_data_at:
  "get_data (core1_at d GetTau (phase t)) = (core1_at d (GetRet (poll_answer d t)) (phase t), Ret (poll_answer d t))"
  by (simp add: get_data_def mcmgr_get_startup_data_internal_def core1_state poll_answer_def ret_data_def word_le_nat_alt)
    (simp add: core1_at_def events_at_def)

lemma poll_call:
  "0 < ph \<Longrightarrow> call (GetStartupData 1) (core1_at d Idle2 ph) = (core1_at d GetTau ph, Tau get_data)"
  "call (GetStartupData 1) (core1_at d Idle2 0) = (core1_at d FeedWait 1, WaitTx (Feed 1) (\<lambda>c. (c, Tau get_data)))"
proof -
  assume "0 < ph"
  then have "state (context_of kMCMGR_Core1 (core1_at d Idle2 ph)) \<noteq> 0" by (simp add: core1_state)
  then have "call (GetStartupData 1) (core1_at d Idle2 ph) = (core1_at d Idle2 ph, Tau get_data)" by (intro calls_boot(4)) simp_all
  then show "call (GetStartupData 1) (core1_at d Idle2 ph) = (core1_at d GetTau ph, Tau get_data)"
    by (simp add: core1_at_def events_at_def)
next
  show "call (GetStartupData 1) (core1_at d Idle2 0) = (core1_at d FeedWait 1, WaitTx (Feed 1) (\<lambda>c. (c, Tau get_data)))"
    by (subst calls_boot(3)) (simp_all add: core1_state, simp add: core1_at_def events_at_def set_context_def context_of_def)
qed

lemma isr1_idle: "ph \<noteq> 7 \<Longrightarrow> ph \<noteq> 8 \<Longrightarrow> ph \<noteq> 13 \<Longrightarrow> ph \<noteq> 14 \<Longrightarrow> isr1_at ph HNone = None"
  by (simp add: isr1_None)

lemma main1_sim:
  assumes "boot_ok d t"
  shows "main_step kMCMGR_Core1 (boot_at d t) = map_option (boot_at d) (main1 d t)"
proof (cases "12 \<le> level (pc0 t) \<and> isr1_at (phase t) (h1 t) = None")
  case False
  then show ?thesis by (auto simp: main1_def isr1_None running_def)
next
  case True
  then have h: "h1 t = HNone" "phase t \<noteq> 7" "phase t \<noteq> 8" "phase t \<noteq> 13" "phase t \<noteq> 14"
    and b: "12 \<le> level (pc0 t)" "\<not> level (pc0 t) < 12" by (auto simp: isr1_None)
  note on = h b isr1_idle main1_def running_def
  note ok = assms [unfolded boot_ok_def]
  note defs = resume_def boot_at_def events_at_def script_at_def results_at_def core1_at_def
  show ?thesis
  proof (cases "pc1 t")
    case Idle0
    then show ?thesis using ok by (simp add: on calls_boot defs split del: if_split)
  next
    case UpWait
    then have "phase t = 0" using ok by simp
    then show ?thesis using UpWait by (cases "up1 t") (simp_all add: on tx1_at_def defs split del: if_split)
  next
    case UpPut
    then have "phase t = 0" using ok by simp
    then show ?thesis using UpPut by (simp add: on tx1_at_def ret_def defs split del: if_split)
  next
    case Idle1
    then show ?thesis using ok by (simp add: on call_Init put_event_def defs split del: if_split)
  next
    case Idle2
    show ?thesis
    proof (cases "polls t")
      case 0
      then show ?thesis using Idle2 by (simp add: on boot_at_def script_at_def)
    next
      case (Suc m)
      then show ?thesis using Idle2
        by (cases "phase t = 0")
          (simp_all add: on poll_call boot_at_def script_at_def resume_def results_at_def isr1_at_def isr0_at_def
             tx0_at_def tx1_at_def core0_at_def split del: if_split)
    qed
  next
    case FeedWait
    then have "phase t = 1" using ok by simp
    then show ?thesis using FeedWait
      by (cases "up1 t") (simp_all add: on tx1_at_def tx0_at_def isr0_at_def isr1_at_def core0_at_def defs split del: if_split)
  next
    case FeedPut
    then have "phase t = 2" "\<not> up1 t" using ok by auto
    then show ?thesis using FeedPut
      by (simp add: on tx1_at_def tx0_at_def isr0_at_def isr1_at_def core0_at_def defs split del: if_split)
  next
    case GetTau
    then show ?thesis by (simp add: on resume_def get_data_at) (simp add: boot_at_def script_at_def results_at_def)
  qed (use ok in \<open>simp_all add: on ret_def init1_def init2_def init3_def init4_def put_event_def defs split del: if_split\<close>)
qed

text \<open>Words on the channel.\<close>

lemma event_type: "type < 0x10000 \<Longrightarrow> (ucast (drop_bit 16 (event_word type x)) :: u16) = ucast type"
  by (intro bit_word_eqI) (auto simp: event_word_def bit_simps dest: bit_imp_le_length)

lemma event_data: "(ucast (event_word type x AND 0xFFFF) :: u16) = x"
proof -
  have m: "(0xFFFF :: u32) = mask 16" by (simp add: mask_eq_exp_minus_1)
  show ?thesis unfolding m by (intro bit_word_eqI) (auto simp: event_word_def bit_simps)
qed

lemma halves: "ucast (low d) OR push_bit 16 (ucast (high d)) = d"
proof -
  have m: "(0xFFFF :: u32) = mask 16" by (simp add: mask_eq_exp_minus_1)
  show ?thesis unfolding low_def high_def m by (intro bit_word_eqI) (auto simp: bit_simps)
qed

lemma channel_event_word:
  assumes "type < kMCMGR_EventTableLength"
  shows "channel_event k (event_word type x) = call_event (unat type) x k"
proof -
  have t: "type < 0x10000" "unat type < 0x10000" using assms by (simp_all add: word_less_nat_alt)
  have v: "unat (ucast type :: u16) = unat type" using t(2) by (simp add: unat_ucast_mod)
  have u: "(ucast (ucast type :: u16) :: u32) = type" 
    using v unat_ucast_up [of "ucast type :: u16", where ?'b = 32] by (simp add: word_unat_eq_iff)
  show ?thesis using assms u v by (simp add: channel_event_def event_type [OF t(1)] event_data fun_eq_iff)
qed

lemma mu_isr_rx: "mu_isr 0x01000000 (ret kStatus_MCMGR_Success) c = (c, GetRx (channel_event OK))"
proof -
  have "[MU_ISR_FLAG_BASE..<MU_ISR_FLAG_BASE + MU_ISR_COUNT] = [20, 21, 22, 23, 24, 25, 26, 27, 28, 29, 30, 31]"
    by (simp add: upt_rec)
  then show ?thesis
    by (simp add: mu_isr_def MU_interrupts_def mcmgr_mu_channel_handler_def MU_ReceiveMsgNonBlocking_def)
qed

lemma mu_flags_at:
  "mu_flags kMCMGR_Core0 (boot_at d t) = (if tx1_at (phase t) (up1 t) \<noteq> None then 0x01000000 else 0)"
  "mu_flags kMCMGR_Core1 (boot_at d t) = (if tx0_at d (phase t) (up0 t) \<noteq> None then 0x01000000 else 0)"
  by (simp_all add: mu_flags_def)

text \<open>What the handlers do.\<close>

lemmas handler_defs = call_event_def MCMGR_FeedStartupDataEventHandler_def MCMGR_StartupDataEventHandler_def
  MCMGR_TriggerEvent_def MCMGR_TriggerEventCommon_def mcmgr_trigger_event_internal_def MU_SendMsg_def events_at_def Let_def
  context_of_def set_context_def

lemma on_up: "channel_event OK Up (core0_at d p ph) = (core0_at d p ph, Ret Success)"
  "channel_event OK Up (core1_at d p ph) = (core1_at d p ph, Ret Success)"
  by (simp_all add: channel_event_word call_event_def core0_at_def core1_at_def events_at_def ret_def Let_def)

lemma on_feed:
  assumes "12 \<le> level p"
  shows "channel_event OK (Feed 1) (core0_at d p 3) = (core0_at d p 4, WaitTx (Data (low d)) (settle0 1))"
    "channel_event OK (Feed 2) (core0_at d p 9) = (core0_at d p 10, WaitTx (Data (high d)) (settle0 2))"
    "channel_event OK (Feed 3) (core0_at d p 15) = (core0_at d p 16, Ret Success)"
    "settle0 1 (core0_at d p 5) = (core0_at d p 6, Ret Success)" "settle0 2 (core0_at d p 11) = (core0_at d p 12, Ret Success)"
  using assms
  by (simp_all add: channel_event_word handler_defs core0_at_def low_def high_def settle0_def [abs_def] ret_def)

lemma on_data:
  assumes "9 \<le> level p"
  shows "channel_event OK (Data (low d)) (core1_at d p 6) = (core1_at d p 7, WaitTx (Feed 2) OK)"
    "channel_event OK (Data (high d)) (core1_at d p 12) = (core1_at d p 13, WaitTx (Feed 3) OK)"
  using assms by (simp_all add: channel_event_word handler_defs core1_at_def halves)

text \<open>The steps of the interrupt handlers.\<close>

lemma isr0_idle: "ph \<noteq> 4 \<Longrightarrow> ph \<noteq> 5 \<Longrightarrow> ph \<noteq> 10 \<Longrightarrow> ph \<noteq> 11 \<Longrightarrow> isr0_at d ph h = isr_prog h"
  by (simp add: isr0_at_def)

lemma isr1_idle': "ph \<noteq> 7 \<Longrightarrow> ph \<noteq> 8 \<Longrightarrow> ph \<noteq> 13 \<Longrightarrow> ph \<noteq> 14 \<Longrightarrow> isr1_at ph h = isr_prog h"
  by (simp add: isr1_at_def)

lemma boot_okD:
  assumes "boot_ok d t"
  shows "0 < phase t \<Longrightarrow> 12 \<le> level (pc0 t)"
    "phase t = 4 \<or> phase t = 5 \<or> phase t = 10 \<or> phase t = 11 \<Longrightarrow> h0 t = HNone"
    "phase t = 7 \<or> phase t = 8 \<or> phase t = 13 \<or> phase t = 14 \<Longrightarrow> h1 t = HNone"
    "4 < phase t \<Longrightarrow> \<not> up0 t" "1 < phase t \<Longrightarrow> \<not> up1 t"
    "h0 t \<noteq> HNone \<Longrightarrow> 9 \<le> level (pc0 t)" "h0 t = HGet \<Longrightarrow> tx1_at (phase t) (up1 t) \<noteq> None"
    "h1 t \<noteq> HNone \<Longrightarrow> 9 \<le> level (pc1 t)" "h1 t = HGet \<Longrightarrow> tx0_at d (phase t) (up0 t) \<noteq> None"
    "0 < phase t \<Longrightarrow> 10 \<le> level (pc1 t)" "phase t \<le> 16"
proof -
  note ok = assms [unfolded boot_ok_def]
  show "12 \<le> level (pc0 t)" if "0 < phase t" using ok that by (metis not_less gr_implies_not0)
  show "h0 t = HNone" if "phase t = 4 \<or> phase t = 5 \<or> phase t = 10 \<or> phase t = 11" using ok that by blast
  show "h1 t = HNone" if "phase t = 7 \<or> phase t = 8 \<or> phase t = 13 \<or> phase t = 14" using ok that by blast
  show "\<not> up0 t" if "4 < phase t" using ok that by (metis not_less)
  show "\<not> up1 t" if "1 < phase t" using ok that by (metis not_less)
  show "9 \<le> level (pc0 t)" if "h0 t \<noteq> HNone" using ok that by blast
  show "tx1_at (phase t) (up1 t) \<noteq> None" if "h0 t = HGet" using ok that by blast
  show "9 \<le> level (pc1 t)" if "h1 t \<noteq> HNone" using ok that by blast
  show "tx0_at d (phase t) (up0 t) \<noteq> None" if "h1 t = HGet" using ok that by blast
  show "10 \<le> level (pc1 t)" if "0 < phase t" using ok that by (simp add: Suc_le_eq)
  show "phase t \<le> 16" using ok by blast
qed

lemma isr0_sim:
  assumes "boot_ok d t"
  shows "isr_step kMCMGR_Core0 (boot_at d t) = map_option (boot_at d) (isr0 t)"
proof -
  note ok = boot_okD [OF assms]
  note defs = isr0_def running_def isr0_at_def tx0_at_def resume_def boot_at_def isr1_at_def tx1_at_def core1_at_def
  consider (wait) "phase t = 4 \<or> phase t = 10" | (put) "phase t = 5 \<or> phase t = 11" | (free) "phase t \<notin> {4, 5, 10, 11}" by blast
  then show ?thesis
  proof cases
    case wait
    then have b: "12 \<le> level (pc0 t)" "h0 t = HNone" "phase t = 10 \<Longrightarrow> \<not> up0 t" using ok(1,2,4) by auto
    from wait show ?thesis
    proof
      assume "phase t = 4"
      then show ?thesis using b by (cases "up0 t") (simp_all add: defs core0_at_def split del: if_split)
    next
      assume "phase t = 10"
      then show ?thesis using b by (simp add: defs core0_at_def split del: if_split)
    qed
  next
    case put
    then have b: "12 \<le> level (pc0 t)" "h0 t = HNone" "\<not> up0 t" using ok(1,2,4) by auto
    from put show ?thesis using b by (elim disjE) (simp_all add: on_feed defs split del: if_split)
  next
    case free
    then have q: "isr0_at d (phase t) h = isr_prog h" for h by (simp add: isr0_idle)
    show ?thesis
    proof (cases "h0 t")
      case HNone
      then show ?thesis using free
        by (cases "9 \<le> level (pc0 t)"; cases "tx1_at (phase t) (up1 t)")
          (simp_all add: isr0_def running_def q mu_flags_at resume_def mu_isr_rx split del: if_split,
           simp_all add: boot_at_def q split del: if_split)
    next
      case HRet
      then show ?thesis using free by (simp add: isr0_def running_def q) (simp add: boot_at_def q)
    next
      case HGet
      then have b: "9 \<le> level (pc0 t)" "tx1_at (phase t) (up1 t) \<noteq> None" using ok(6,7) by auto
      consider (up) "phase t \<notin> {3, 9, 15}" "up1 t" | (feed) "phase t = 3 \<or> phase t = 9 \<or> phase t = 15" "\<not> up1 t" "12 \<le> level (pc0 t)"
        using b(2) ok(1,5) by (cases "up1 t") (auto simp: tx1_at_def split: if_splits)
      then show ?thesis
      proof cases
        case up
        then show ?thesis using HGet free q
          by (simp add: isr0_def running_def tx1_at_def resume_def on_up) (simp add: boot_at_def q tx1_at_def)
      next
        case feed
        from feed(1) show ?thesis using HGet feed(2,3)
          by (elim disjE) (simp_all add: on_feed defs split del: if_split)
      qed
    qed
  qed
qed

lemma isr1_sim:
  assumes "boot_ok d t"
  shows "isr_step kMCMGR_Core1 (boot_at d t) = map_option (boot_at d) (isr1 d t)"
proof (cases "12 \<le> level (pc0 t)")
  case False
  then show ?thesis by (simp add: isr1_def running_def)
next
  case True
  then have run: "\<not> level (pc0 t) < 12" by simp
  note ok = boot_okD [OF assms]
  note defs = isr1_def running_def isr0_at_def tx0_at_def resume_def boot_at_def isr1_at_def tx1_at_def core0_at_def
  consider (wait) "phase t = 7 \<or> phase t = 13" | (put) "phase t = 8 \<or> phase t = 14" | (free) "phase t \<notin> {7, 8, 13, 14}" by blast
  then show ?thesis
  proof cases
    case wait
    then have b: "h1 t = HNone" "\<not> up1 t" using ok(3,5) by auto
    from wait show ?thesis using b True run by (elim disjE) (simp_all add: defs core1_at_def split del: if_split)
  next
    case put
    then have b: "h1 t = HNone" "\<not> up1 t" using ok(3,5) by auto
    from put show ?thesis using b True run by (elim disjE) (simp_all add: defs core1_at_def ret_def split del: if_split)
  next
    case free
    then have q: "isr1_at (phase t) h = isr_prog h" for h by (simp add: isr1_idle')
    show ?thesis
    proof (cases "h1 t")
      case HNone
      have i: "isr1 d t = (if 9 \<le> level (pc1 t) \<and> tx0_at d (phase t) (up0 t) \<noteq> None then Some (t\<lparr>h1 := HGet\<rparr>) else None)"
        using free run HNone by (simp add: isr1_def)
      have "isr_step kMCMGR_Core1 (boot_at d t) =
        (if 9 \<le> level (pc1 t) \<and> tx0_at d (phase t) (up0 t) \<noteq> None then Some (boot_at d (t\<lparr>h1 := HGet\<rparr>)) else None)"
        using True HNone
        by (cases "9 \<le> level (pc1 t)"; cases "tx0_at d (phase t) (up0 t)")
          (simp_all add: running_def q mu_flags_at resume_def mu_isr_rx split del: if_split,
           simp_all add: boot_at_def q split del: if_split)
      then show ?thesis unfolding i by simp
    next
      case HRet
      then show ?thesis using free True run by (simp add: isr1_def running_def q) (simp add: boot_at_def q)
    next
      case HGet
      then have b: "9 \<le> level (pc1 t)" "tx0_at d (phase t) (up0 t) \<noteq> None" using ok(8,9) by auto
      consider (up) "phase t \<notin> {6, 12}" "up0 t" | (data) "phase t = 6 \<or> phase t = 12" "\<not> up0 t"
        using b(2) ok(4) by (cases "up0 t") (auto simp: tx0_at_def split: if_splits)
      then show ?thesis
      proof cases
        case up
        then show ?thesis using HGet free q True run
          by (simp add: isr1_def running_def tx0_at_def resume_def on_up) (simp add: boot_at_def q tx0_at_def)
      next
        case data
        from data(1) show ?thesis using HGet data(2) True run b(1)
          by (elim disjE) (simp_all add: on_data defs split del: if_split)
      qed
    qed
  qed
qed

text \<open>So the whole system steps as the small machine does.\<close>

definition boot_next :: "u32 \<Rightarrow> boot_state \<Rightarrow> boot_state set" where
  "boot_next d t = {t'. main0 t = Some t' \<or> main1 d t = Some t' \<or> isr0 t = Some t' \<or> isr1 d t = Some t'}"

lemma step_at:
  assumes "boot_ok d t"
  shows "step (boot_at d t) s \<longleftrightarrow> (\<exists>t' \<in> boot_next d t. s = boot_at d t')"
proof -
  have "step (boot_at d t) s \<longleftrightarrow> (\<exists>n. main_step n (boot_at d t) = Some s \<or> isr_step n (boot_at d t) = Some s)"
    by (blast elim: step.cases intro: step.intros)
  also have "\<dots> \<longleftrightarrow> main_step kMCMGR_Core0 (boot_at d t) = Some s \<or> main_step kMCMGR_Core1 (boot_at d t) = Some s \<or>
      isr_step kMCMGR_Core0 (boot_at d t) = Some s \<or> isr_step kMCMGR_Core1 (boot_at d t) = Some s"
    by (metis mcmgr_core.exhaust)
  finally show ?thesis unfolding main0_sim [OF assms] main1_sim [OF assms] isr0_sim [OF assms] isr1_sim [OF assms]
    unfolding boot_next_def map_option_eq_Some by blast
qed

text \<open>The machine keeps its invariant, and every step brings it closer to its end.\<close>

fun isr_weight :: "boot_isr \<Rightarrow> nat" where
  "isr_weight HGet = 0" | "isr_weight HNone = 1" | "isr_weight HRet = 2"

definition rest1 :: "boot_pc \<Rightarrow> nat" where
  "rest1 p = (if level p < 10 then 14 - level p else if level p = 10 then 0 else 15 - level p)"

definition weight :: "boot_state \<Rightarrow> nat" where
  "weight t = 5 * (16 - phase t) + (if up0 t then 3 else 0) + (if up1 t then 3 else 0) + isr_weight (h0 t) + isr_weight (h1 t) +
     5 * (14 - level (pc0 t)) + 5 * rest1 (pc1 t) + 25 * polls t"

definition answer_ok :: "u32 \<Rightarrow> mcmgr_result \<Rightarrow> bool" where
  "answer_ok d r \<longleftrightarrow> r = RData kStatus_MCMGR_NotReady 0 \<or> r = RData kStatus_MCMGR_Success d"

definition answers_ok :: "u32 \<Rightarrow> boot_state \<Rightarrow> bool" where
  "answers_ok d t \<longleftrightarrow> (\<forall>r \<in> set (answers t). answer_ok d r) \<and> (\<forall>r. pc1 t = GetRet r \<longrightarrow> answer_ok d r)"

lemma init_next_level:
  "init_next up p = Some (q, v) \<Longrightarrow> level q = Suc (level p) \<and> level q \<le> 10 \<and> q \<notin> {Boot, Spinning, StartRet, Idle3, FeedWait, FeedPut, GetTau} \<and>
     (\<forall>r. q \<noteq> GetRet r) \<and> (v \<longrightarrow> up \<or> level q = 3)"
  by (cases p) (auto split: if_splits)

lemma main0_ok:
  assumes ok: "boot_ok d t" and step: "main0 t = Some t'"
  shows "boot_ok d t' \<and> weight t' < weight t"
proof (cases "level (pc0 t) < 10")
  case True
  then have e: "pc1 t = Idle0" "phase t = 0" "\<not> up1 t" "h1 t = HNone" "answers t = []" "up0 t \<Longrightarrow> 3 \<le> level (pc0 t)"
    using ok by (simp_all add: boot_ok_def)
  have h: "h0 t = HNone" using step by (simp add: main0_def split: if_splits)
  obtain q v where q: "init_next (up0 t) (pc0 t) = Some (q, v)" "t' = t\<lparr>pc0 := q, up0 := v\<rparr>"
    using step True h e(2) by (auto simp: main0_def)
  note l = init_next_level [OF q(1)]
  have "boot_ok d t'" using e h l unfolding q(2) boot_ok_def by auto
  moreover have "weight t' < weight t" using e(2,6) h l True unfolding q(2) weight_def by auto
  ultimately show ?thesis by blast
next
  case False
  have p: "pc0 t \<notin> {FeedWait, FeedPut, GetTau}" "\<forall>r. pc0 t \<noteq> GetRet r" using ok by (simp_all add: boot_ok_def)
  show ?thesis
  proof (cases "pc0 t")
    case Idle2
    then have "t' = t\<lparr>pc0 := Boot\<rparr>" using step by (simp add: main0_def split: if_splits)
    then show ?thesis using ok Idle2 unfolding boot_ok_def weight_def by (elim conjE) simp
  next
    case Boot
    then have "t' = t\<lparr>pc0 := Spinning\<rparr>" using step by (simp add: main0_def split: if_splits)
    then show ?thesis using ok Boot unfolding boot_ok_def weight_def by (elim conjE) simp
  next
    case Spinning
    then have "t' = t\<lparr>pc0 := StartRet\<rparr>" "phase t = 16" using step by (simp_all add: main0_def split: if_splits)
    then show ?thesis using ok Spinning unfolding boot_ok_def weight_def by (elim conjE) simp
  next
    case StartRet
    then have "t' = t\<lparr>pc0 := Idle3\<rparr>" using step by (simp add: main0_def split: if_splits)
    then show ?thesis using ok StartRet unfolding boot_ok_def weight_def by (elim conjE) simp
  qed (use False step p in \<open>auto simp: main0_def split: if_splits\<close>)
qed

lemma main1_ok:
  assumes ok: "boot_ok d t" and step: "main1 d t = Some t'" and ans: "answers_ok d t"
  shows "boot_ok d t' \<and> weight t' < weight t \<and> answers_ok d t'"
proof (cases "level (pc1 t) < 10")
  case True
  then have e: "phase t = 0" using ok by (simp add: boot_ok_def)
  have h: "h1 t = HNone" "12 \<le> level (pc0 t)" using step by (simp_all add: main1_def split: if_splits)
  obtain q v where q: "init_next (up1 t) (pc1 t) = Some (q, v)" "t' = t\<lparr>pc1 := q, up1 := v\<rparr>"
    using step True h e by (auto simp: main1_def)
  note l = init_next_level [OF q(1)]
  have c: "pc1 t \<noteq> FeedWait" "pc1 t \<noteq> FeedPut" "up1 t \<Longrightarrow> 3 \<le> level (pc1 t)" "answers t = []"
    "h0 t = HGet \<Longrightarrow> up1 t" "level q \<noteq> 3 \<Longrightarrow> v \<Longrightarrow> up1 t" "up1 t \<Longrightarrow> v"
    using ok True e q(1) l by (auto simp: boot_ok_def tx1_at_def split: if_splits elim: init_next.elims)
  have "boot_ok d t'" using ok e h l c True unfolding q(2) boot_ok_def tx1_at_def by (elim conjE) auto
  moreover have "weight t' < weight t" using e h l c True unfolding q(2) weight_def rest1_def by auto
  moreover have "answers_ok d t'" using ans l unfolding q(2) answers_ok_def by simp
  ultimately show ?thesis by blast
next
  case False
  have p: "pc1 t \<notin> {Boot, Spinning, StartRet, Idle3}" using ok by (simp add: boot_ok_def)
  have run: "12 \<le> level (pc0 t)" "h1 t = HNone" "phase t \<notin> {7, 8, 13, 14}" using step by (simp_all add: main1_def split: if_splits)
  show ?thesis
  proof (cases "pc1 t")
    case Idle2
    then obtain m where m: "polls t = Suc m" using step run by (cases "polls t") (simp_all add: main1_def)
    show ?thesis
    proof (cases "phase t = 0")
      case True
      then have "t' = t\<lparr>pc1 := FeedWait, phase := 1, polls := m\<rparr>" using step run m Idle2 by (simp add: main1_def)
      then show ?thesis using ok ans Idle2 True m run unfolding boot_ok_def weight_def answers_ok_def rest1_def tx1_at_def
        by (elim conjE) simp
    next
      case False
      then have "t' = t\<lparr>pc1 := GetTau, polls := m\<rparr>" using step run m Idle2 by (simp add: main1_def)
      then show ?thesis using ok ans Idle2 False m run unfolding boot_ok_def weight_def answers_ok_def rest1_def
        by (elim conjE) simp
    qed
  next
    case FeedWait
    then have "t' = t\<lparr>pc1 := FeedPut, phase := 2\<rparr>" "\<not> up1 t" "phase t = 1" using step run ok
      by (simp_all add: main1_def boot_ok_def split: if_splits)
    then show ?thesis using ok ans FeedWait run unfolding boot_ok_def weight_def answers_ok_def rest1_def tx1_at_def
      by (elim conjE) simp
  next
    case FeedPut
    then have "t' = t\<lparr>pc1 := GetTau, phase := 3\<rparr>" "phase t = 2" using step run ok
      by (simp_all add: main1_def boot_ok_def split: if_splits)
    then show ?thesis using ok ans FeedPut run unfolding boot_ok_def weight_def answers_ok_def rest1_def tx1_at_def
      by (elim conjE) simp
  next
    case GetTau
    then have "t' = t\<lparr>pc1 := GetRet (poll_answer d t)\<rparr>" using step run by (simp add: main1_def)
    then show ?thesis using ok ans GetTau run unfolding boot_ok_def weight_def answers_ok_def rest1_def
      by (elim conjE) (simp add: poll_answer_def answer_ok_def)
  next
    case (GetRet r)
    then have "t' = t\<lparr>pc1 := Idle2, answers := answers t @ [r]\<rparr>" using step run by (simp add: main1_def)
    then show ?thesis using ok ans GetRet run unfolding boot_ok_def weight_def answers_ok_def rest1_def
      by (elim conjE) simp
  qed (use False p in simp_all)
qed

lemma isr0_ok:
  assumes ok: "boot_ok d t" and step: "isr0 t = Some t'"
  shows "boot_ok d t' \<and> weight t' < weight t"
proof -
  note d = boot_okD [OF ok]
  consider (four) "phase t = 4" "\<not> up0 t" "t' = t\<lparr>phase := 5\<rparr>" | (ten) "phase t = 10" "t' = t\<lparr>phase := 11\<rparr>"
    | (put) "phase t = 5 \<or> phase t = 11" "t' = t\<lparr>phase := phase t + 1, h0 := HRet\<rparr>"
    | (enter) "phase t \<notin> {4, 5, 10, 11}" "h0 t = HNone" "9 \<le> level (pc0 t)" "tx1_at (phase t) (up1 t) \<noteq> None" "t' = t\<lparr>h0 := HGet\<rparr>"
    | (feed) "phase t = 3 \<or> phase t = 9" "h0 t = HGet" "t' = t\<lparr>phase := phase t + 1, h0 := HNone\<rparr>"
    | (last) "phase t = 15" "h0 t = HGet" "t' = t\<lparr>phase := 16, h0 := HRet\<rparr>"
    | (up) "phase t \<notin> {4, 5, 10, 11}" "phase t \<notin> {3, 9, 15}" "h0 t = HGet" "t' = t\<lparr>up1 := False, h0 := HRet\<rparr>"
    | (leave) "h0 t = HRet" "t' = t\<lparr>h0 := HNone\<rparr>"
    using step by (cases "h0 t") (auto simp: isr0_def split: if_splits)
  then show ?thesis
  proof cases
    case up
    then have u: "up1 t" "phase t \<le> 1" using d(5,7) by (auto simp: tx1_at_def not_less [symmetric] split: if_splits)
    show ?thesis using ok up u unfolding boot_ok_def weight_def tx1_at_def by (elim conjE) simp
  next
    case four
    then show ?thesis using ok d(1-11) unfolding boot_ok_def weight_def tx1_at_def tx0_at_def by (elim conjE) simp
  next
    case put
    from put(1) show ?thesis
    proof
      assume "phase t = 5"
      then show ?thesis using ok d(1-5) put(2) unfolding boot_ok_def weight_def tx1_at_def tx0_at_def by (elim conjE) auto
    next
      assume "phase t = 11"
      then show ?thesis using ok d(1-5) put(2) unfolding boot_ok_def weight_def tx1_at_def tx0_at_def by (elim conjE) auto
    qed
  next
    case ten
    then show ?thesis using ok d(1-5) unfolding boot_ok_def weight_def tx1_at_def tx0_at_def by (elim conjE) simp
  next
    case enter
    then show ?thesis using ok unfolding boot_ok_def weight_def by (elim conjE) simp
  next
    case feed
    from feed(1) show ?thesis
    proof
      assume "phase t = 3"
      then show ?thesis using ok d(1-5) feed(2,3) unfolding boot_ok_def weight_def tx1_at_def tx0_at_def by (elim conjE) auto
    next
      assume "phase t = 9"
      then show ?thesis using ok d(1-5) feed(2,3) unfolding boot_ok_def weight_def tx1_at_def tx0_at_def by (elim conjE) auto
    qed
  next
    case last
    then show ?thesis using ok d(1-6) unfolding boot_ok_def weight_def tx1_at_def tx0_at_def by (elim conjE) auto
  next
    case leave
    then show ?thesis using ok unfolding boot_ok_def weight_def by (elim conjE) simp
  qed
qed

lemma isr1_ok:
  assumes ok: "boot_ok d t" and step: "isr1 d t = Some t'"
  shows "boot_ok d t' \<and> weight t' < weight t"
proof -
  note d = boot_okD [OF ok]
  have run: "12 \<le> level (pc0 t)" using step by (simp add: isr1_def split: if_splits)
  consider (wait) "phase t = 7 \<or> phase t = 13" "t' = t\<lparr>phase := phase t + 1\<rparr>"
    | (put) "phase t = 8 \<or> phase t = 14" "t' = t\<lparr>phase := phase t + 1, h1 := HRet\<rparr>"
    | (enter) "phase t \<notin> {7, 8, 13, 14}" "h1 t = HNone" "9 \<le> level (pc1 t)" "tx0_at d (phase t) (up0 t) \<noteq> None" "t' = t\<lparr>h1 := HGet\<rparr>"
    | (data) "phase t = 6 \<or> phase t = 12" "h1 t = HGet" "t' = t\<lparr>phase := phase t + 1, h1 := HNone\<rparr>"
    | (up) "phase t \<notin> {7, 8, 13, 14}" "phase t \<notin> {6, 12}" "h1 t = HGet" "t' = t\<lparr>up0 := False, h1 := HRet\<rparr>"
    | (leave) "h1 t = HRet" "t' = t\<lparr>h1 := HNone\<rparr>"
    using step by (cases "h1 t") (auto simp: isr1_def split: if_splits)
  then show ?thesis
  proof cases
    case up
    then have u: "up0 t" "phase t \<le> 4" using d(4,9) by (auto simp: tx0_at_def not_less [symmetric] split: if_splits)
    show ?thesis using ok up u unfolding boot_ok_def weight_def tx0_at_def by (elim conjE) simp
  next
    case wait
    from wait(1) show ?thesis
    proof
      assume "phase t = 7"
      then show ?thesis using ok d(1-5) wait(2) run unfolding boot_ok_def weight_def tx1_at_def tx0_at_def by (elim conjE) auto
    next
      assume "phase t = 13"
      then show ?thesis using ok d(1-5) wait(2) run unfolding boot_ok_def weight_def tx1_at_def tx0_at_def by (elim conjE) auto
    qed
  next
    case put
    from put(1) show ?thesis
    proof
      assume "phase t = 8"
      then show ?thesis using ok d(1-5,10) put(2) run unfolding boot_ok_def weight_def tx1_at_def tx0_at_def by (elim conjE) auto
    next
      assume "phase t = 14"
      then show ?thesis using ok d(1-5,10) put(2) run unfolding boot_ok_def weight_def tx1_at_def tx0_at_def by (elim conjE) auto
    qed
  next
    case enter
    then show ?thesis using ok run unfolding boot_ok_def weight_def by (elim conjE) simp
  next
    case data
    from data(1) show ?thesis
    proof
      assume "phase t = 6"
      then show ?thesis using ok d(1-5) data(2,3) run unfolding boot_ok_def weight_def tx1_at_def tx0_at_def by (elim conjE) auto
    next
      assume "phase t = 12"
      then show ?thesis using ok d(1-5) data(2,3) run unfolding boot_ok_def weight_def tx1_at_def tx0_at_def by (elim conjE) auto
    qed
  next
    case leave
    then show ?thesis using ok run unfolding boot_ok_def weight_def by (elim conjE) simp
  qed
qed

section \<open>What starting the second core guarantees\<close>

definition polls_ok :: "boot_state \<Rightarrow> bool" where
  "polls_ok t \<longleftrightarrow> 0 < polls t \<or> 0 < phase t"

lemma boot_next_ok:
  assumes "boot_ok d t" "answers_ok d t" "t' \<in> boot_next d t"
  shows "boot_ok d t' \<and> weight t' < weight t \<and> answers_ok d t'"
proof -
  consider "main0 t = Some t'" | "main1 d t = Some t'" | "isr0 t = Some t'" | "isr1 d t = Some t'"
    using assms(3) by (auto simp: boot_next_def)
  then show ?thesis
  proof cases
    case 1
    then have "answers_ok d t'" using assms(2)
      by (auto simp: main0_def answers_ok_def split: if_splits boot_pc.splits)
    then show ?thesis using main0_ok [OF assms(1) 1] by blast
  next
    case 2
    then show ?thesis using main1_ok [OF assms(1) 2 assms(2)] by blast
  next
    case 3
    then have "answers t' = answers t \<and> pc1 t' = pc1 t" by (cases "h0 t") (auto simp: isr0_def split: if_splits)
    then show ?thesis using isr0_ok [OF assms(1) 3] assms(2) by (simp add: answers_ok_def)
  next
    case 4
    then have "answers t' = answers t \<and> pc1 t' = pc1 t" by (cases "h1 t") (auto simp: isr1_def split: if_splits)
    then show ?thesis using isr1_ok [OF assms(1) 4] assms(2) by (simp add: answers_ok_def)
  qed
qed

lemma polls_next: "polls_ok t \<Longrightarrow> t' \<in> boot_next d t \<Longrightarrow> polls_ok t'"
proof -
  assume p: "polls_ok t" and "t' \<in> boot_next d t"
  then consider "main0 t = Some t'" | "main1 d t = Some t'" | "isr0 t = Some t'" | "isr1 d t = Some t'"
    by (auto simp: boot_next_def)
  then show "polls_ok t'"
  proof cases
    case 1
    then show ?thesis using p by (auto simp: main0_def polls_ok_def split: if_splits boot_pc.splits)
  next
    case 2
    then show ?thesis using p by (auto simp: main1_def polls_ok_def split: if_splits boot_pc.splits nat.splits)
  next
    case 3
    then show ?thesis using p by (cases "h0 t") (auto simp: isr0_def polls_ok_def split: if_splits)
  next
    case 4
    then show ?thesis using p by (cases "h1 t") (auto simp: isr1_def polls_ok_def split: if_splits)
  qed
qed

lemma boot_start_ok: "boot_ok d (boot_start n)" "answers_ok d (boot_start n)" "weight (boot_start n) = 222 + 25 * n"
  by (simp_all add: boot_start_def boot_ok_def answers_ok_def weight_def rest1_def)

lemma boot_runs:
  "(step ^^ j) (boot d n) s \<Longrightarrow> \<exists>t. s = boot_at d t \<and> boot_ok d t \<and> answers_ok d t \<and> (0 < n \<longrightarrow> polls_ok t) \<and> weight t + j \<le> 222 + 25 * n"
proof (induction j arbitrary: s)
  case 0
  then show ?case using boot_at_start [of d n] boot_start_ok(1,2) [of d n] boot_start_ok(3) [of n]
    by (intro exI [of _ "boot_start n"]) (simp add: polls_ok_def boot_start_def)
next
  case (Suc j)
  then obtain s1 where s1: "(step ^^ j) (boot d n) s1" "step s1 s" by auto
  then obtain t where t: "s1 = boot_at d t" "boot_ok d t" "answers_ok d t" "0 < n \<longrightarrow> polls_ok t" "weight t + j \<le> 222 + 25 * n"
    using Suc.IH by blast
  obtain t' where t': "t' \<in> boot_next d t" "s = boot_at d t'" using s1(2) step_at [OF t(2)] unfolding t(1) by blast
  show ?case using boot_next_ok [OF t(2,3) t'(1)] polls_next [OF _ t'(1)] t' t(4,5)
    by (intro exI [of _ t']) simp
qed

text \<open>A core 1 that never asks: nothing moves the exchange.\<close>

lemma silent_next:
  assumes ok: "boot_ok d t" and s: "polls t = 0" "phase t = 0" and "t' \<in> boot_next d t"
  shows "polls t' = 0 \<and> phase t' = 0"
proof -
  have pc: "pc1 t \<noteq> FeedWait" "pc1 t \<noteq> FeedPut" using ok s(2) by (simp_all add: boot_ok_def)
  consider "main0 t = Some t'" | "main1 d t = Some t'" | "isr0 t = Some t'" | "isr1 d t = Some t'"
    using assms(4) by (auto simp: boot_next_def)
  then show ?thesis
  proof cases
    case 1
    then show ?thesis using s by (auto simp: main0_def split: if_splits boot_pc.splits)
  next
    case 2
    then show ?thesis using s pc by (auto simp: main1_def split: if_splits boot_pc.splits)
  next
    case 3
    then show ?thesis using s by (cases "h0 t") (auto simp: isr0_def split: if_splits)
  next
    case 4
    then show ?thesis using s by (cases "h1 t") (auto simp: isr1_def split: if_splits)
  qed
qed

lemma silent_runs:
  "step\<^sup>*\<^sup>* (boot d 0) s \<Longrightarrow> \<exists>t. s = boot_at d t \<and> boot_ok d t \<and> answers_ok d t \<and> polls t = 0 \<and> phase t = 0"
proof (induction rule: rtranclp_induct)
  case base
  then show ?case using boot_at_start [of d 0] boot_start_ok(1,2) [of d 0]
    by (intro exI [of _ "boot_start 0"]) (simp add: boot_start_def)
next
  case (step s1 s)
  then obtain t where t: "s1 = boot_at d t" "boot_ok d t" "answers_ok d t" "polls t = 0" "phase t = 0" by blast
  obtain t' where "t' \<in> boot_next d t" "s = boot_at d t'" using step.hyps(2) step_at [OF t(2)] unfolding t(1) by blast
  then show ?case using boot_next_ok [OF t(2,3)] silent_next [OF t(2,4,5)] by blast
qed

text \<open>Where the machine stops.\<close>

lemma boot_stops:
  assumes ok: "boot_ok d t" and polls: "polls_ok t" and stop: "boot_next d t = {}"
  shows "phase t = 16 \<and> pc0 t = Idle3 \<and> pc1 t = Idle2 \<and> polls t = 0 \<and> h0 t = HNone \<and> h1 t = HNone"
proof -
  note d = boot_okD [OF ok]
  have no: "t' \<notin> boot_next d t" for t' using stop by blast
  have none: "main0 t = None" "main1 d t = None" "isr0 t = None" "isr1 d t = None"
    by (rule ccontr, use no in \<open>auto simp: boot_next_def\<close>)+
  have h0: "h0 t = HNone" using none(3) d(2) by (cases "h0 t") (auto simp: isr0_def split: if_splits)
  have p0: "pc0 t \<notin> {FeedWait, FeedPut, GetTau}" "\<forall>r. pc0 t \<noteq> GetRet r" "up0 t \<Longrightarrow> 3 \<le> level (pc0 t)" "pc1 t \<notin> {Boot, Spinning, StartRet, Idle3}"
    "up1 t \<Longrightarrow> 3 \<le> level (pc1 t)" "phase t = 1 \<longleftrightarrow> pc1 t = FeedWait" "phase t = 0 \<Longrightarrow> level (pc1 t) \<le> 10"
    using ok by (simp_all add: boot_ok_def)
  have run: "12 \<le> level (pc0 t)"
  proof (rule ccontr)
    assume "\<not> 12 \<le> level (pc0 t)"
    moreover from this have "phase t = 0" using ok by (simp add: boot_ok_def)
    ultimately show False using none(1) h0 p0(1-3) by (cases "pc0 t") (auto simp: main0_def split: if_splits)
  qed
  then have run': "\<not> level (pc0 t) < 12" "9 \<le> level (pc0 t)" by simp_all
  have h1: "h1 t = HNone" using none(4) d(3) run by (cases "h1 t") (auto simp: isr1_def split: if_splits)
  have tx1: "phase t \<notin> {4, 5, 10, 11} \<Longrightarrow> tx1_at (phase t) (up1 t) = None" using none(3) h0 run' by (auto simp: isr0_def split: if_splits)
  have tx0: "phase t \<notin> {7, 8, 13, 14} \<Longrightarrow> 9 \<le> level (pc1 t) \<Longrightarrow> tx0_at d (phase t) (up0 t) = None"
    using none(4) h1 run by (auto simp: isr1_def split: if_splits)
  have "phase t \<notin> {5, 7, 8, 10, 11, 13, 14}" using none(3,4) run' by (auto simp: isr0_def isr1_def split: if_splits)
  moreover have "phase t \<noteq> 4"
    using none(3) tx0 d(10) by (auto simp: isr0_def tx0_at_def split: if_splits)
  moreover have "phase t \<notin> {3, 9, 15}" using tx1 by (auto simp: tx1_at_def)
  moreover have "phase t \<notin> {6, 12}" using tx0 d(10) by (auto simp: tx0_at_def)
  moreover have "phase t \<noteq> 1"
  proof
    assume o: "phase t = 1"
    then have "pc1 t = FeedWait" using p0(6) by blast
    then have "up1 t" using none(2) o run' h1 by (simp add: main1_def split: if_splits)
    then show False using tx1 o by (simp add: tx1_at_def)
  qed
  moreover have "phase t \<noteq> 2"
  proof
    assume o: "phase t = 2"
    then have "pc1 t = FeedPut" using ok by (simp add: boot_ok_def)
    then show False using none(2) o run' h1 by (simp add: main1_def)
  qed
  moreover have "phase t \<noteq> 0"
  proof
    assume z: "phase t = 0"
    then have "0 < polls t" using polls by (simp add: polls_ok_def)
    then show False using none(2) run' h1 z p0(4,5) p0(7) [OF z]
      by (cases "pc1 t") (auto simp: main1_def split: if_splits nat.splits)
  qed
  ultimately have ph: "phase t = 16" using d(11) by (auto simp: le_Suc_eq numeral_eq_Suc)
  have "pc0 t = Idle3" using none(1) h0 ph run' p0(1,2) by (cases "pc0 t") (auto simp: main0_def split: if_splits)
  moreover have "10 \<le> level (pc1 t)" using d(10) ph by simp
  then have "pc1 t = Idle2 \<and> polls t = 0" using none(2) run' h1 ph p0(4,6)
    by (cases "pc1 t") (auto simp: main1_def split: if_splits nat.splits)
  ultimately show ?thesis using ph h0 h1 by blast
qed

text \<open>Runs along a schedule: which core moves, and whether its interrupt handler or its main program does.\<close>

fun acts :: "(mcmgr_core \<times> bool) list \<Rightarrow> system \<Rightarrow> system option" where
  "acts [] s = Some s"
| "acts ((n, handler) # as) s = do { s \<leftarrow> (if handler then isr_step n s else main_step n s); acts as s }"

lemma acts_run: "acts as s = Some s' \<Longrightarrow> step\<^sup>*\<^sup>* s s'"
proof (induction as s rule: acts.induct)
  case (2 n handler as s)
  then obtain s1 where s1: "(if handler then isr_step n s else main_step n s) = Some s1" "acts as s1 = Some s'"
    by (auto split: bind_splits)
  then have "step s s1" by (cases handler) (auto intro: step.intros)
  then show ?case using 2(1) [OF s1(1)] s1(2) by simp
qed simp

definition schedule :: "(nat \<times> mcmgr_core \<times> bool) list \<Rightarrow> (mcmgr_core \<times> bool) list" where
  "schedule xs = concat (map (\<lambda>(n, a). replicate n a) xs)"

text \<open>One in which the second core gets its data twice.\<close>

definition boot_schedule :: "(mcmgr_core \<times> bool) list" where
  "boot_schedule = schedule [(12, (kMCMGR_Core0, False)), (3, (kMCMGR_Core1, False)), (3, (kMCMGR_Core0, True)), (6, (kMCMGR_Core1, False)), (3, (kMCMGR_Core1, True)), (4, (kMCMGR_Core1, False)), (5, (kMCMGR_Core0, True)), (4, (kMCMGR_Core1, True)), (5, (kMCMGR_Core0, True)), (5, (kMCMGR_Core1, True)), (3, (kMCMGR_Core0, True)), (1, (kMCMGR_Core1, True)), (2, (kMCMGR_Core0, False)), (5, (kMCMGR_Core1, False))]"

lemma boot_schedule_run:
  "case acts boot_schedule (boot 0x12345678 2) of None \<Rightarrow> False
   | Some s \<Rightarrow> results s = ([Success, Success, Success],
       [Success, Success, RData kStatus_MCMGR_Success 0x12345678, RData kStatus_MCMGR_Success 0x12345678]) \<and>
       (\<forall>n \<in> {kMCMGR_Core0, kMCMGR_Core1}. Option.is_none (main_step n s) \<and> Option.is_none (isr_step n s))"
  by code_simp

text \<open>
  Without synchronous start the application of core 0 may send events while core 1 still asks for its data. Its
  main program finds the channel empty, the interrupt handler puts the low half of the data there, and the main
  program overwrites it: core 1 never gets its data.
\<close>

definition race_schedule :: "(mcmgr_core \<times> bool) list" where
  "race_schedule = schedule [(14, (kMCMGR_Core0, False)), (9, (kMCMGR_Core1, False)), (3, (kMCMGR_Core1, True)), (1, (kMCMGR_Core0, False)), (2, (kMCMGR_Core1, False)), (3, (kMCMGR_Core0, True)), (2, (kMCMGR_Core1, False)), (5, (kMCMGR_Core0, True)), (2, (kMCMGR_Core0, False)), (3, (kMCMGR_Core1, True)), (5, (kMCMGR_Core1, False))]"

theorem mcmgr_lost_chunk:
  "case acts race_schedule (system_reset
      [EarlyInit, Init, StartCore 1 MCMGR_BOOT_ADDRESS_RAM 0x12345678 kMCMGR_Start_Asynchronous,
        TriggerEvent kMCMGR_RemoteApplicationEvent 7 False]
      [EarlyInit, Init, GetStartupData 1, GetStartupData 1]) of None \<Rightarrow> False
   | Some s \<Rightarrow> state (context_of kMCMGR_Core1 (snd (cpu s))) = kMCMGR_StartupGettingLowCoreState \<and> tx s = (None, None) \<and>
       results s = ([Success, Success, Success, Success],
         [Success, Success, RData kStatus_MCMGR_NotReady 0, RData kStatus_MCMGR_NotReady 0]) \<and>
       (\<forall>n \<in> {kMCMGR_Core0, kMCMGR_Core1}. Option.is_none (main_step n s) \<and> Option.is_none (isr_step n s))"
  by code_simp

section \<open>Properties\<close>

lemma no_fault: "main (boot_at d t) = (p, q) \<Longrightarrow> p \<noteq> Some Fault \<and> q \<noteq> Some Fault"
    "isr (boot_at d t) = (p, q) \<Longrightarrow> p \<noteq> Some Fault \<and> q \<noteq> Some Fault"
proof -
  have "pc_prog n pc \<noteq> Some Fault" for n pc by (cases pc) auto
  then show "main (boot_at d t) = (p, q) \<Longrightarrow> p \<noteq> Some Fault \<and> q \<noteq> Some Fault" by auto
  have "isr_prog h \<noteq> Some Fault" for h by (cases h) auto
  then show "isr (boot_at d t) = (p, q) \<Longrightarrow> p \<noteq> Some Fault \<and> q \<noteq> Some Fault" by (auto simp: isr0_at_def isr1_at_def split: if_splits)
qed

lemma results_core1: "snd (results (boot_at d t)) = results_at (answers t) (level (pc1 t))"
  by simp

lemma started:
  assumes "boot_ok d t" "fst (results (boot_at d t)) = [Success, Success, Success]"
  shows "state (context_of kMCMGR_Core1 (snd (cpu (boot_at d t)))) = kMCMGR_RunningCoreState \<and>
    startupData (context_of kMCMGR_Core1 (snd (cpu (boot_at d t)))) = d"
proof -
  have "14 \<le> level (pc0 t)" using assms(2) by (simp add: results_at_def split: if_splits)
  then have "phase t = 16" using assms(1) unfolding boot_ok_def by (elim conjE) simp
  then show ?thesis by (simp add: core1_state)
qed

text \<open>C7: however the main programs and the interrupt handlers of the two cores interleave while core 0 starts core 1
  and core 1 asks for its data, an answer of core 1 is either not ready or exactly the data that core 0 gave, no
  access faults, and when the synchronous start has returned the core is running with its data.\<close>

theorem mcmgr_startup_data:
  assumes "step\<^sup>*\<^sup>* (boot d n) s"
  shows "(\<forall>st v. RData st v \<in> set (snd (results s)) \<longrightarrow> st = kStatus_MCMGR_NotReady \<or> st = kStatus_MCMGR_Success \<and> v = d) \<and>
    Some Fault \<notin> {fst (main s), snd (main s), fst (isr s), snd (isr s)} \<and>
    (fst (results s) = [Success, Success, Success] \<longrightarrow>
       state (context_of kMCMGR_Core1 (snd (cpu s))) = kMCMGR_RunningCoreState \<and>
       startupData (context_of kMCMGR_Core1 (snd (cpu s))) = d)"
proof -
  obtain j where "(step ^^ j) (boot d n) s" using assms by (auto simp: rtranclp_power)
  then obtain t where t: "s = boot_at d t" "boot_ok d t" "answers_ok d t" using boot_runs by blast
  have "RData st v \<in> set (results_at (answers t) l) \<Longrightarrow> RData st v \<in> set (answers t)" for st v l
    by (auto simp: results_at_def split: if_splits)
  then have "\<forall>st v. RData st v \<in> set (snd (results s)) \<longrightarrow> st = kStatus_MCMGR_NotReady \<or> st = kStatus_MCMGR_Success \<and> v = d"
    using t(3) unfolding t(1) results_core1 answers_ok_def answer_ok_def by blast
  moreover have "Some Fault \<notin> {fst (main s), snd (main s), fst (isr s), snd (isr s)}"
    using no_fault [of d t] unfolding t(1) by (metis insertE prod.collapse singletonD)
  ultimately show ?thesis using started [OF t(2)] unfolding t(1) by blast
qed

text \<open>C6: the synchronous start, in the scenario \<open>boot d n\<close>: core 0 initialises, starts core 1 with \<open>d\<close> and waits for
  it; core 1 initialises and asks for its startup data \<open>n\<close> times; neither application sends events. When core 1 asks
  at least once the start completes, whatever the interleaving: no run of the two cores is longer than a bound,
  and where a run cannot go on the start has returned success, core 1 has made all its calls and is running with its
  data, and the channel is empty. When core 1 never asks, the start never returns. (With application events beside
  an asynchronous start the data can be lost, see \<open>mcmgr_lost_chunk\<close>.)\<close>

theorem mcmgr_boot_completes:
  assumes "0 < n"
  shows "(\<forall>j s. (step ^^ j) (boot d n) s \<longrightarrow> j \<le> 222 + 25 * n) \<and>
    (\<forall>s. step\<^sup>*\<^sup>* (boot d n) s \<and> (\<nexists>s'. step s s') \<longrightarrow>
      fst (results s) = [Success, Success, Success] \<and> script s = ([], []) \<and> main s = (None, None) \<and>
      tx s = (None, None) \<and> context_of kMCMGR_Core1 (snd (cpu s)) = \<lparr>state = kMCMGR_RunningCoreState, startupData = d\<rparr>) \<and>
    (\<forall>s. step\<^sup>*\<^sup>* (boot d 0) s \<longrightarrow> length (fst (results s)) < 3)"
proof (intro conjI allI impI)
  fix s assume "step\<^sup>*\<^sup>* (boot d 0) s"
  then obtain t where t: "s = boot_at d t" "boot_ok d t" "phase t = 0" using silent_runs by blast
  then have "level (pc0 t) < 13" by (simp add: boot_ok_def)
  then show "length (fst (results s)) < 3" unfolding t(1) by (simp add: results_at_def)
next
  show "j \<le> 222 + 25 * n" if "(step ^^ j) (boot d n) s" for j s using boot_runs [OF that] by auto
next
  fix s assume run: "step\<^sup>*\<^sup>* (boot d n) s \<and> (\<nexists>s'. step s s')"
  then obtain j where "(step ^^ j) (boot d n) s" by (auto simp: rtranclp_power)
  then obtain t where t: "s = boot_at d t" "boot_ok d t" "polls_ok t" using boot_runs assms by blast
  then have "boot_next d t = {}" using run step_at [OF t(2)] by blast
  note f = boot_stops [OF t(2,3) this]
  then have u: "\<not> up0 t" "\<not> up1 t" using boot_okD(4,5) [OF t(2)] by simp_all
  show "fst (results s) = [Success, Success, Success]" using f unfolding t(1) by (simp add: results_at_def)
  show "script s = ([], [])" using f unfolding t(1) by (simp add: boot_at_def script_at_def)
  show "main s = (None, None)" using f unfolding t(1) by simp
  show "tx s = (None, None)" using f u unfolding t(1) by (simp add: tx0_at_def tx1_at_def)
  show "context_of kMCMGR_Core1 (snd (cpu s)) = \<lparr>state = kMCMGR_RunningCoreState, startupData = d\<rparr>"
    using f unfolding t(1) by (simp add: context_of_def core1_at_def)
qed

theorem mcmgr_startup_data_witness:
  "\<exists>s. step\<^sup>*\<^sup>* (boot 0x12345678 2) s \<and> fst (results s) = [Success, Success, Success] \<and>
    snd (results s) = [Success, Success, RData kStatus_MCMGR_Success 0x12345678, RData kStatus_MCMGR_Success 0x12345678] \<and>
    startupData (context_of kMCMGR_Core1 (snd (cpu s))) = 0x12345678"
proof -
  obtain s where s: "acts boot_schedule (boot 0x12345678 2) = Some s" "results s = ([Success, Success, Success],
       [Success, Success, RData kStatus_MCMGR_Success 0x12345678, RData kStatus_MCMGR_Success 0x12345678])"
    using boot_schedule_run by (auto simp del: main_step.simps isr_step.simps split: option.splits)
  have "step\<^sup>*\<^sup>* (boot 0x12345678 2) s" using acts_run [OF s(1)] .
  then show ?thesis using mcmgr_startup_data [of "0x12345678" 2 s] s(2) by auto
qed

theorem mcmgr_boot_completes_witness:
  "\<exists>s. step\<^sup>*\<^sup>* (boot 0x12345678 2) s \<and> (\<nexists>s'. step s s') \<and> script s = ([], []) \<and>
    context_of kMCMGR_Core1 (snd (cpu s)) = \<lparr>state = kMCMGR_RunningCoreState, startupData = 0x12345678\<rparr>"
proof -
  obtain s where s: "acts boot_schedule (boot 0x12345678 2) = Some s"
      "\<forall>n \<in> {kMCMGR_Core0, kMCMGR_Core1}. Option.is_none (main_step n s) \<and> Option.is_none (isr_step n s)"
    using boot_schedule_run by (auto simp del: main_step.simps isr_step.simps split: option.splits)
  have "main_step n s = None \<and> isr_step n s = None" for n
    using s(2) by (cases n) (simp_all add: Option.is_none_def del: main_step.simps isr_step.simps)
  then have stop: "\<nexists>s'. step s s'" by (metis option.distinct(1) step.cases)
  have "(0 :: nat) < 2" by simp
  then show ?thesis using mcmgr_boot_completes [of 2 "0x12345678"] acts_run [OF s(1)] stop by blast
qed

end
