(* ===== verification/Uart_Adapter.thy ===== *)
theory Uart_Adapter
  imports Function_Lib
begin

text \<open>
  The LPUART functions of the UART adapter (\<open>SerialManager/Source/UART_Adapter.c\<close>) in a build
  with LPUART instances only, as the chip has, and the peripheral they drive. A peripheral has a
  data register of one byte in each direction, a transmit shifter and the interrupt enables; what
  goes over the line is kept as a history. The interrupt handler calls back through function
  pointers; what they point at is an argument. The driver state of the caller is a record of an
  array, and pointers to such records are positions in it.

  \<open>LPUART_Init\<close> enables the 8-byte FIFOs of the peripheral with both watermarks 0. The transmit flag is then
  set only when the transmit FIFO is empty, and as the adapter writes only then, the FIFO never holds more than the
  byte that \<open>tx_data\<close> stands for. The receive flag is set as soon as there is a byte; the FIFO holds seven more
  than \<open>rx_data\<close>, so that an overrun comes earlier here than on the chip.
\<close>

section \<open>The peripheral\<close>

text \<open>The register \<open>tx_data\<close> is empty when the flag \<open>TxDataRegEmpty\<close> is set, \<open>rx_data\<close> is full
  when \<open>RxDataRegFull\<close> is. \<open>line_out\<close> and \<open>line_in\<close> are the bytes sent and received so far.\<close>

record lpuart =
  tx_data :: "u8 option"
  tx_shift :: "u8 option"
  rx_data :: "u8 option"
  overrun :: bool
  rx_edge :: bool
  TIE :: bool
  RIE :: bool
  RXEDGIE :: bool
  baud :: u32
  line_out :: "u8 list"
  line_in :: "u8 list"

text \<open>The shifter has sent its byte and takes the next one.\<close>

definition lpuart_tick :: "lpuart \<Rightarrow> lpuart" where
  "lpuart_tick u = u\<lparr>line_out := line_out u @ (case tx_shift u of None \<Rightarrow> [] | Some b \<Rightarrow> [b]),
     tx_shift := tx_data u, tx_data := None\<rparr>"

definition lpuart_receive :: "u8 \<Rightarrow> lpuart \<Rightarrow> lpuart" where
  "lpuart_receive b u = (case rx_data u of
     None \<Rightarrow> u\<lparr>rx_data := Some b, rx_edge := True, line_in := line_in u @ [b]\<rparr>
   | Some _ \<Rightarrow> u\<lparr>overrun := True, rx_edge := True\<rparr>)"

definition lpuart_pending :: "lpuart \<Rightarrow> bool" where
  "lpuart_pending u \<longleftrightarrow> (rx_data u \<noteq> None \<and> RIE u) \<or> (tx_data u = None \<and> TIE u)"

text \<open>Polling for an empty data register ends after the tick that empties it.\<close>

definition wait_tdre :: "lpuart \<Rightarrow> lpuart" where
  "wait_tdre u = (if tx_data u = None then u else lpuart_tick u)"

section \<open>Data\<close>

abbreviation (input) FSL_FEATURE_SOC_LPUART_COUNT :: u32 where "FSL_FEATURE_SOC_LPUART_COUNT \<equiv> 4"

abbreviation (input) gUartSuccess_c :: u32 where "gUartSuccess_c \<equiv> 0"
abbreviation (input) gUartInvalidParameter_c :: u32 where "gUartInvalidParameter_c \<equiv> 1"
abbreviation (input) gUartBusy_c :: u32 where "gUartBusy_c \<equiv> 2"

record uart_state =
  txCb :: ptr
  rxCb :: ptr
  txCbParam :: u32
  rxCbParam :: u32
  pTxData :: ptr
  pRxData :: ptr
  txSize :: u32
  rxSize :: u32

text \<open>The memory, the driver states of the caller, and per instance the driver state it uses and
  its peripheral.\<close>

record uart_io =
  mem :: bytes
  mDrvData :: "uart_state list"
  pLpuartStates :: "nat option list"
  lpuarts :: "lpuart list"

definition uart_index :: "u32 \<Rightarrow> 'a uart_io_scheme \<Rightarrow> nat option" where
  "uart_index n s = do { d \<leftarrow> nth_opt (pLpuartStates s) (unat n); d }"

definition get_uart :: "u32 \<Rightarrow> 'a uart_io_scheme \<Rightarrow> uart_state option" where
  "get_uart n s = do { d \<leftarrow> uart_index n s; nth_opt (mDrvData s) d }"

definition put_uart :: "u32 \<Rightarrow> uart_state \<Rightarrow> 'a uart_io_scheme \<Rightarrow> 'a uart_io_scheme option" where
  "put_uart n x s = do { d \<leftarrow> uart_index n s; xs \<leftarrow> upd_opt (mDrvData s) d x; Some (s\<lparr>mDrvData := xs\<rparr>) }"

definition get_lpuart :: "u32 \<Rightarrow> 'a uart_io_scheme \<Rightarrow> lpuart option" where
  "get_lpuart n s = nth_opt (lpuarts s) (unat n)"

definition put_lpuart :: "u32 \<Rightarrow> lpuart \<Rightarrow> 'a uart_io_scheme \<Rightarrow> 'a uart_io_scheme option" where
  "put_lpuart n u s = do { us \<leftarrow> upd_opt (lpuarts s) (unat n) u; Some (s\<lparr>lpuarts := us\<rparr>) }"

section \<open>Operations\<close>

text \<open>The peripheral is reset by its driver: nothing pending, only the receive interrupt enabled.\<close>

definition LPUART_Initialize :: "u32 \<Rightarrow> nat option \<Rightarrow> 'a uart_io_scheme \<Rightarrow> (u32 \<times> 'a uart_io_scheme) option" where
  "LPUART_Initialize n pState s =
     (if n \<ge> FSL_FEATURE_SOC_LPUART_COUNT \<or> pState = None then Some (gUartInvalidParameter_c, s)
      else do {
        ps \<leftarrow> upd_opt (pLpuartStates s) (unat n) pState;
        let s = s\<lparr>pLpuartStates := ps\<rparr>;
        x \<leftarrow> get_uart n s;
        s \<leftarrow> put_uart n (x\<lparr>rxCbParam := 0, txCbParam := 0, pRxData := NULL, pTxData := NULL, rxSize := 0, txSize := 0\<rparr>) s;
        u \<leftarrow> get_lpuart n s;
        s \<leftarrow> put_lpuart n (u\<lparr>tx_data := None, tx_shift := None, rx_data := None, overrun := False, rx_edge := False,
          TIE := False, RIE := True, RXEDGIE := False\<rparr>) s;
        Some (gUartSuccess_c, s) })"

definition LPUART_SetBaudrate :: "u32 \<Rightarrow> u32 \<Rightarrow> 'a uart_io_scheme \<Rightarrow> (u32 \<times> 'a uart_io_scheme) option" where
  "LPUART_SetBaudrate n baudrate s =
     (if n \<ge> FSL_FEATURE_SOC_LPUART_COUNT then Some (gUartInvalidParameter_c, s)
      else do {
        u \<leftarrow> get_lpuart n s;
        s \<leftarrow> put_lpuart n (u\<lparr>baud := baudrate\<rparr>) s;
        Some (gUartSuccess_c, s) })"

definition LPUART_SendData :: "u32 \<Rightarrow> ptr \<Rightarrow> u32 \<Rightarrow> 'a uart_io_scheme \<Rightarrow> (u32 \<times> 'a uart_io_scheme) option" where
  "LPUART_SendData n pData sz s =
     (if n \<ge> FSL_FEATURE_SOC_LPUART_COUNT \<or> sz = 0 \<or> pData = NULL then Some (gUartInvalidParameter_c, s)
      else do {
        x \<leftarrow> get_uart n s;
        if txSize x \<noteq> 0 then Some (gUartBusy_c, s)
        else do {
          u \<leftarrow> get_lpuart n s;
          b \<leftarrow> load8 pData (mem s);
          s \<leftarrow> put_lpuart n ((wait_tdre u)\<lparr>tx_data := Some b, TIE := True\<rparr>) s;
          s \<leftarrow> put_uart n (x\<lparr>pTxData := pData + 1, txSize := sz - 1\<rparr>) s;
          Some (gUartSuccess_c, s) } })"

definition LPUART_ReceiveData :: "u32 \<Rightarrow> ptr \<Rightarrow> u32 \<Rightarrow> 'a uart_io_scheme \<Rightarrow> (u32 \<times> 'a uart_io_scheme) option" where
  "LPUART_ReceiveData n pData sz s =
     (if n \<ge> FSL_FEATURE_SOC_LPUART_COUNT \<or> sz = 0 \<or> pData = NULL then Some (gUartInvalidParameter_c, s)
      else do {
        x \<leftarrow> get_uart n s;
        if rxSize x \<noteq> 0 then Some (gUartBusy_c, s)
        else do {
          s \<leftarrow> put_uart n (x\<lparr>rxSize := sz, pRxData := pData\<rparr>) s;
          Some (gUartSuccess_c, s) } })"

definition LPUART_InstallRxCalback :: "u32 \<Rightarrow> ptr \<Rightarrow> u32 \<Rightarrow> 'a uart_io_scheme \<Rightarrow> (u32 \<times> 'a uart_io_scheme) option" where
  "LPUART_InstallRxCalback n cb cbParam s =
     (if n \<ge> FSL_FEATURE_SOC_LPUART_COUNT then Some (gUartInvalidParameter_c, s)
      else do {
        x \<leftarrow> get_uart n s;
        s \<leftarrow> put_uart n (x\<lparr>rxCb := cb, rxCbParam := cbParam\<rparr>) s;
        Some (gUartSuccess_c, s) })"

definition LPUART_InstallTxCalback :: "u32 \<Rightarrow> ptr \<Rightarrow> u32 \<Rightarrow> 'a uart_io_scheme \<Rightarrow> (u32 \<times> 'a uart_io_scheme) option" where
  "LPUART_InstallTxCalback n cb cbParam s =
     (if n \<ge> FSL_FEATURE_SOC_LPUART_COUNT then Some (gUartInvalidParameter_c, s)
      else do {
        x \<leftarrow> get_uart n s;
        s \<leftarrow> put_uart n (x\<lparr>txCb := cb, txCbParam := cbParam\<rparr>) s;
        Some (gUartSuccess_c, s) })"

text \<open>The flag \<open>TransmissionComplete\<close> is set when the shifter and the data register are empty.\<close>

definition LPUART_IsTxActive :: "u32 \<Rightarrow> 'a uart_io_scheme \<Rightarrow> bool option" where
  "LPUART_IsTxActive n s =
     (if n < FSL_FEATURE_SOC_LPUART_COUNT then do {
        x \<leftarrow> get_uart n s;
        if txSize x \<noteq> 0 then Some True
        else do { u \<leftarrow> get_lpuart n s; Some (\<not> (tx_shift u = None \<and> tx_data u = None)) } }
      else Some False)"

definition LPUART_DisableLowPowerWakeup :: "u32 \<Rightarrow> 'a uart_io_scheme \<Rightarrow> (u32 \<times> 'a uart_io_scheme) option" where
  "LPUART_DisableLowPowerWakeup n s =
     (if n \<ge> FSL_FEATURE_SOC_LPUART_COUNT then Some (gUartInvalidParameter_c, s)
      else do {
        u \<leftarrow> get_lpuart n s;
        s \<leftarrow> put_lpuart n (u\<lparr>RXEDGIE := False, rx_edge := False\<rparr>) s;
        Some (gUartSuccess_c, s) })"

definition LPUART_EnableLowPowerWakeup :: "u32 \<Rightarrow> 'a uart_io_scheme \<Rightarrow> (u32 \<times> 'a uart_io_scheme) option" where
  "LPUART_EnableLowPowerWakeup n s = do {
     (status, s) \<leftarrow> LPUART_DisableLowPowerWakeup n s;
     if status = gUartSuccess_c then do {
       u \<leftarrow> get_lpuart n s;
       s \<leftarrow> put_lpuart n (u\<lparr>RXEDGIE := True\<rparr>) s;
       Some (status, s) }
     else Some (status, s) }"

definition LPUART_IsWakeupSource :: "u32 \<Rightarrow> 'a uart_io_scheme \<Rightarrow> bool option" where
  "LPUART_IsWakeupSource n s =
     (if n < FSL_FEATURE_SOC_LPUART_COUNT then do { u \<leftarrow> get_lpuart n s; Some (rx_edge u) } else Some False)"

section \<open>The interrupt handler\<close>

text \<open>\<open>call cb d\<close> is what the function at \<open>cb\<close> does when it is given driver state \<open>d\<close>.\<close>

type_synonym 'a uart_call = "ptr \<Rightarrow> nat \<Rightarrow> 'a uart_io_scheme \<Rightarrow> 'a uart_io_scheme option"

definition ISR_receive :: "'a uart_call \<Rightarrow> u32 \<Rightarrow> 'a uart_io_scheme \<Rightarrow> 'a uart_io_scheme option" where
  "ISR_receive call n s = do {
     u \<leftarrow> get_lpuart n s;
     case rx_data u of
       None \<Rightarrow> Some s
     | Some b \<Rightarrow> do {
         s \<leftarrow> put_lpuart n (u\<lparr>rx_data := None\<rparr>) s;
         x \<leftarrow> get_uart n s;
         let x = (if rxSize x \<noteq> 0 then x\<lparr>rxSize := rxSize x - 1\<rparr> else x);
         (x, m) \<leftarrow> (if pRxData x \<noteq> NULL then do {
             m \<leftarrow> store8 (pRxData x) b (mem s);
             Some (x\<lparr>pRxData := pRxData x + 1\<rparr>, m) }
           else Some (x, mem s));
         s \<leftarrow> put_uart n x (s\<lparr>mem := m\<rparr>);
         if rxSize x = 0 \<and> rxCb x \<noteq> NULL then do { d \<leftarrow> uart_index n s; call (rxCb x) d s } else Some s } }"

definition ISR_transmit :: "'a uart_call \<Rightarrow> bool \<Rightarrow> u32 \<Rightarrow> 'a uart_io_scheme \<Rightarrow> 'a uart_io_scheme option" where
  "ISR_transmit call enabled n s = do {
     x \<leftarrow> get_uart n s;
     u \<leftarrow> get_lpuart n s;
     if tx_data u = None \<and> enabled then
       (if txSize x \<noteq> 0 then do {
          b \<leftarrow> load8 (pTxData x) (mem s);
          s \<leftarrow> put_uart n (x\<lparr>txSize := txSize x - 1, pTxData := pTxData x + 1\<rparr>) s;
          put_lpuart n (u\<lparr>tx_data := Some b, TIE := True\<rparr>) s }
        else do {
          s \<leftarrow> put_lpuart n (u\<lparr>TIE := False\<rparr>) s;
          if txCb x \<noteq> NULL then do { d \<leftarrow> uart_index n s; call (txCb x) d s } else Some s })
     else if txSize x \<noteq> 0 then put_lpuart n (u\<lparr>TIE := True\<rparr>) s
     else Some s }"

definition LPUART_Common_ISR :: "'a uart_call \<Rightarrow> u32 \<Rightarrow> 'a uart_io_scheme \<Rightarrow> 'a uart_io_scheme option" where
  "LPUART_Common_ISR call n s = do {
     u \<leftarrow> get_lpuart n s;
     let interrupts = TIE u;
     s \<leftarrow> ISR_receive call n s;
     s \<leftarrow> ISR_transmit call interrupts n s;
     u \<leftarrow> get_lpuart n s;
     put_lpuart n (if overrun u then u\<lparr>overrun := False\<rparr> else u) s }"

end
