(* ===== verification/Serial_Manager.thy ===== *)
theory Serial_Manager
  imports Uart_Adapter OSA_Waits
begin

text \<open>
  The serial manager (\<open>SerialManager/Source/SerialManager.c\<close>) in the bare-metal build with UART
  interfaces: per interface a ring of received bytes and a ring of requests to send, the interrupt
  callbacks of the UART adapter, and the task that completes requests. The interrupts that arrive
  are part of the state: \<open>irqs\<close> has one list of hardware events per point at which the program
  can be interrupted, that is between its critical sections, and \<open>window\<close> takes the next one.
  Loops that wait for something are given a number of rounds; an operation that is still waiting
  after them has no result. Callbacks of the application are an argument; the calls made to them
  and the requests accepted are kept as histories.
\<close>

section \<open>Data\<close>

abbreviation (input) gSMRxBufSize_c :: u8 where "gSMRxBufSize_c \<equiv> 33"
abbreviation (input) gSerialMgrTxQueueSize_c :: u8 where "gSerialMgrTxQueueSize_c \<equiv> 5"
abbreviation (input) gSerialMgrInvalidIdx_c :: u8 where "gSerialMgrInvalidIdx_c \<equiv> 0xFF"

abbreviation (input) gSMGR_Rx_c :: u8 where "gSMGR_Rx_c \<equiv> 1"
abbreviation (input) gSMGR_TxDone_c :: u8 where "gSMGR_TxDone_c \<equiv> 2"
abbreviation (input) gSMGR_TxNew_c :: u8 where "gSMGR_TxNew_c \<equiv> 4"

datatype serialInterfaceType = gSerialMgrNone_c | gSerialMgrUart_c | gSerialMgrUSB_c | gSerialMgrUSB_VNIC_c
  | gSerialMgrIICMaster_c | gSerialMgrIICSlave_c | gSerialMgrSPIMaster_c | gSerialMgrSPISlave_c
  | gSerialMgrLpuart_c | gSerialMgrLpsci_c | gSerialMgrCustom_c | gSerialMgrUsart_c

datatype serialStatus = gSerial_Success_c | gSerial_InvalidParameter_c | gSerial_InvalidInterface_c
  | gSerial_MaxInterfacesReached_c | gSerial_InterfaceNotReady_c | gSerial_InterfaceInUse_c
  | gSerial_InternalError_c | gSerial_SemCreateError_c | gSerial_OutOfMemory_c | gSerial_OsError_c

record SerialMsg =
  txCallback :: ptr
  pTxParam :: ptr
  pData :: ptr
  dataSize :: u16

text \<open>\<open>self\<close> and \<open>rxBuffer\<close> are the addresses of the structure and of its receive buffer.\<close>

record serial =
  self :: ptr
  rxBuffer :: ptr
  serialType :: serialInterfaceType
  serialChannel :: u8
  rxIn :: u8
  rxOut :: u8
  rxCallback :: ptr
  pRxParam :: ptr
  txQueue :: "SerialMsg list"
  txIn :: u8
  txOut :: u8
  txCurrent :: u8
  txNo :: u8
  events :: u8
  state :: u8

text \<open>A hardware event: the transmitter of an instance moves on, or a byte arrives at it.\<close>

datatype irq = Tick u32 | RxByte u32 u8

record sm = uart_io +
  mSerials :: "serial list"
  initialized :: bool
  mSMTaskEventId :: ptr
  gSerialManagerTaskId :: ptr
  txMntOngoing :: bool
  os :: os_state
  irqs :: "irq list list"
  calls :: "(ptr \<times> ptr) list"
  taken :: "(nat \<times> SerialMsg) list"

definition get_ser :: "nat \<Rightarrow> sm \<Rightarrow> serial option" where
  "get_ser i s = nth_opt (mSerials s) i"

definition put_ser :: "nat \<Rightarrow> serial \<Rightarrow> sm \<Rightarrow> sm option" where
  "put_ser i x s = do { xs \<leftarrow> upd_opt (mSerials s) i x; Some (s\<lparr>mSerials := xs\<rparr>) }"

definition mod_ser :: "nat \<Rightarrow> (serial \<Rightarrow> serial) \<Rightarrow> sm \<Rightarrow> sm option" where
  "mod_ser i f s = do { x \<leftarrow> get_ser i s; put_ser i (f x) s }"

definition inc_idx :: "u8 \<Rightarrow> u8 \<Rightarrow> u8" where
  "inc_idx idx mx = (if idx + 1 \<ge> mx then 0 else idx + 1)"

text \<open>The flags of the event of the serial task; the answer is ignored.\<close>

definition set_event :: "u8 \<Rightarrow> sm \<Rightarrow> sm option" where
  "set_event f s = do { (st, o') \<leftarrow> OSA_EventSet (mSMTaskEventId s) (ucast f) (os s); Some (s\<lparr>os := o'\<rparr>) }"

section \<open>Sending\<close>

text \<open>\<open>win\<close> is what can happen at the points where the operation can be interrupted: nothing when
  it is called from an interrupt handler.\<close>

definition Serial_WriteInternal :: "(sm \<Rightarrow> sm option) \<Rightarrow> nat \<Rightarrow> sm \<Rightarrow> (serialStatus \<times> sm) option" where
  "Serial_WriteInternal win i s = do {
     x \<leftarrow> get_ser i s;
     if state x \<noteq> 0 then Some (gSerial_Success_c, s)
     else do {
       s \<leftarrow> put_ser i (x\<lparr>state := 1\<rparr>) s;
       s \<leftarrow> win s;
       x \<leftarrow> get_ser i s;
       m \<leftarrow> nth_opt (txQueue x) (unat (txCurrent x));
       if dataSize m = 0 then do {
         s \<leftarrow> put_ser i (x\<lparr>state := 0\<rparr>) s;
         Some (gSerial_Success_c, s) }
       else do {
         (failed, s) \<leftarrow> (case serialType x of
             gSerialMgrLpuart_c \<Rightarrow> do {
               (r, s) \<leftarrow> LPUART_SendData (ucast (serialChannel x)) (pData m) (ucast (dataSize m)) s;
               Some (r \<noteq> gUartSuccess_c, s) }
           | _ \<Rightarrow> Some (True, s));
         if failed then do {
           s \<leftarrow> mod_ser i (state_update (\<lambda>_. 0)) s;
           s \<leftarrow> set_event gSMGR_TxNew_c s;
           Some (gSerial_InternalError_c, s) }
         else Some (gSerial_Success_c, s) } } }"

section \<open>Interrupts\<close>

definition SerialManager_RxNotify :: "nat \<Rightarrow> sm \<Rightarrow> sm option" where
  "SerialManager_RxNotify i s = do {
     x \<leftarrow> get_ser i s;
     let x = x\<lparr>rxIn := inc_idx (rxIn x) gSMRxBufSize_c\<rparr>;
     let x = (if rxIn x = rxOut x then x\<lparr>rxOut := inc_idx (rxOut x) gSMRxBufSize_c\<rparr> else x);
     s \<leftarrow> put_ser i (x\<lparr>events := events x OR gSMGR_Rx_c\<rparr>) s;
     if events x = 0 then set_event gSMGR_Rx_c s else Some s }"

definition SerialManager_TxNotify :: "nat \<Rightarrow> sm \<Rightarrow> sm option" where
  "SerialManager_TxNotify i s = do {
     x \<leftarrow> get_ser i s;
     m \<leftarrow> nth_opt (txQueue x) (unat (txCurrent x));
     let x = x\<lparr>txQueue := (txQueue x)[unat (txCurrent x) := m\<lparr>dataSize := 0\<rparr>],
       txCurrent := inc_idx (txCurrent x) gSerialMgrTxQueueSize_c, state := 0\<rparr>;
     s \<leftarrow> put_ser i x s;
     m \<leftarrow> nth_opt (txQueue x) (unat (txCurrent x));
     s \<leftarrow> (if dataSize m \<noteq> 0 \<and> serialType x \<noteq> gSerialMgrIICMaster_c \<and> serialType x \<noteq> gSerialMgrIICSlave_c
           then do { (st, s) \<leftarrow> Serial_WriteInternal Some i s; Some s } else Some s);
     x \<leftarrow> get_ser i s;
     if events x AND gSMGR_TxDone_c = 0 then do {
       s \<leftarrow> put_ser i (x\<lparr>events := events x OR gSMGR_TxDone_c\<rparr>) s;
       set_event gSMGR_TxDone_c s }
     else Some s }"

text \<open>The callbacks of the UART adapter. The functions are known by their addresses.\<close>

abbreviation (input) Serial_UartRxCb_fn :: ptr where "Serial_UartRxCb_fn \<equiv> 1"
abbreviation (input) Serial_UartTxCb_fn :: ptr where "Serial_UartTxCb_fn \<equiv> 2"

definition Serial_UartRxCb :: "nat \<Rightarrow> sm \<Rightarrow> sm option" where
  "Serial_UartRxCb d s = do {
     x \<leftarrow> nth_opt (mDrvData s) d;
     let i = unat (rxCbParam x);
     s \<leftarrow> SerialManager_RxNotify i s;
     p \<leftarrow> get_ser i s;
     x \<leftarrow> nth_opt (mDrvData s) d;
     xs \<leftarrow> upd_opt (mDrvData s) d (x\<lparr>pRxData := rxBuffer p + ucast (rxIn p)\<rparr>);
     Some (s\<lparr>mDrvData := xs\<rparr>) }"

definition Serial_UartTxCb :: "nat \<Rightarrow> sm \<Rightarrow> sm option" where
  "Serial_UartTxCb d s = do { x \<leftarrow> nth_opt (mDrvData s) d; SerialManager_TxNotify (unat (txCbParam x)) s }"

definition uart_callback :: "ptr \<Rightarrow> nat \<Rightarrow> sm \<Rightarrow> sm option" where
  "uart_callback cb d s =
     (if cb = Serial_UartRxCb_fn then Serial_UartRxCb d s
      else if cb = Serial_UartTxCb_fn then Serial_UartTxCb d s
      else None)"

text \<open>A hardware event, and the interrupt that it raises.\<close>

definition hardware :: "u32 \<Rightarrow> (lpuart \<Rightarrow> lpuart) \<Rightarrow> sm \<Rightarrow> sm option" where
  "hardware n f s =
     (if unat n < length (lpuarts s) then do {
        u \<leftarrow> get_lpuart n s;
        s \<leftarrow> put_lpuart n (f u) s;
        if lpuart_pending (f u) then LPUART_Common_ISR uart_callback n s else Some s }
      else Some s)"

fun interrupt :: "irq \<Rightarrow> sm \<Rightarrow> sm option" where
  "interrupt (Tick n) s = hardware n lpuart_tick s"
| "interrupt (RxByte n b) s = hardware n (lpuart_receive b) s"

fun interrupts :: "irq list \<Rightarrow> sm \<Rightarrow> sm option" where
  "interrupts [] s = Some s"
| "interrupts (e # es) s = do { s \<leftarrow> interrupt e s; interrupts es s }"

definition window :: "sm \<Rightarrow> sm option" where
  "window s = (case irqs s of [] \<Rightarrow> Some s | es # ess \<Rightarrow> interrupts es (s\<lparr>irqs := ess\<rparr>))"

section \<open>The queue of requests\<close>

text \<open>What the callbacks of the application do; the flag says whether the callback returned.\<close>

type_synonym user = "ptr \<Rightarrow> ptr \<Rightarrow> sm \<Rightarrow> (bool \<times> sm) option"

definition call_user :: "user \<Rightarrow> ptr \<Rightarrow> ptr \<Rightarrow> sm \<Rightarrow> (bool \<times> sm) option" where
  "call_user user cb prm s = user cb prm (s\<lparr>calls := calls s @ [(cb, prm)]\<rparr>)"

fun maintenance_loop :: "user \<Rightarrow> nat \<Rightarrow> nat \<Rightarrow> sm \<Rightarrow> (bool \<times> sm) option" where
  "maintenance_loop user i 0 s = Some (False, s)"
| "maintenance_loop user i (Suc k) s = do {
     s \<leftarrow> window s;
     x \<leftarrow> get_ser i s;
     m \<leftarrow> nth_opt (txQueue x) (unat (txOut x));
     if dataSize m \<noteq> 0 \<or> txNo x = 0 then Some (True, s)
     else do {
       let slot = unat (txOut x);
       s \<leftarrow> put_ser i (x\<lparr>txNo := txNo x - 1, txOut := inc_idx (txOut x) gSerialMgrTxQueueSize_c\<rparr>) s;
       (returned, s) \<leftarrow> (if txCallback m \<noteq> NULL then do {
           (returned, s) \<leftarrow> call_user user (txCallback m) (pTxParam m) s;
           s \<leftarrow> mod_ser i (\<lambda>x. if returned then x\<lparr>txQueue := (txQueue x)[slot := (txQueue x ! slot)\<lparr>txCallback := NULL\<rparr>]\<rparr>
             else x) s;
           Some (returned, s) }
         else Some (True, s));
       x \<leftarrow> get_ser i s;
       if \<not> returned then Some (False, s)
       else if txOut x = txIn x then Some (True, s)
       else maintenance_loop user i k s } }"

definition Serial_TxQueueMaintenance :: "user \<Rightarrow> nat \<Rightarrow> nat \<Rightarrow> sm \<Rightarrow> (bool \<times> sm) option" where
  "Serial_TxQueueMaintenance user k i s = do {
     s \<leftarrow> window s;
     if txMntOngoing s then Some (True, s)
     else do {
       (done, s) \<leftarrow> maintenance_loop user i k (s\<lparr>txMntOngoing := True\<rparr>);
       Some (done, if done then s\<lparr>txMntOngoing := False\<rparr> else s) } }"

fun write_loop :: "user \<Rightarrow> nat \<Rightarrow> nat \<Rightarrow> SerialMsg \<Rightarrow> nat \<Rightarrow> sm \<Rightarrow> (serialStatus option \<times> sm) option" where
  "write_loop user fuel i msg 0 s = Some (None, s)"
| "write_loop user fuel i msg (Suc k) s = do {
     s \<leftarrow> window s;
     x \<leftarrow> get_ser i s;
     m \<leftarrow> nth_opt (txQueue x) (unat (txIn x));
     if dataSize m = 0 \<and> txCallback m = NULL \<and> txNo x < gSerialMgrTxQueueSize_c then do {
       s \<leftarrow> put_ser i (x\<lparr>txQueue := (txQueue x)[unat (txIn x) := msg],
         txIn := inc_idx (txIn x) gSerialMgrTxQueueSize_c, txNo := txNo x + 1\<rparr>) (s\<lparr>taken := taken s @ [(i, msg)]\<rparr>);
       s \<leftarrow> window s;
       (status, s) \<leftarrow> Serial_WriteInternal window i s;
       Some (Some status, s) }
     else do {
       (done, s) \<leftarrow> Serial_TxQueueMaintenance user fuel i s;
       if done then write_loop user fuel i msg k s else Some (None, s) } }"

definition Serial_AsyncWrite ::
  "user \<Rightarrow> nat \<Rightarrow> u8 \<Rightarrow> ptr \<Rightarrow> u16 \<Rightarrow> ptr \<Rightarrow> ptr \<Rightarrow> sm \<Rightarrow> (serialStatus option \<times> sm) option" where
  "Serial_AsyncWrite user fuel InterfaceId pBuf bufLen cb prm s =
     (if pBuf = NULL \<or> bufLen = 0 \<or> unat InterfaceId \<ge> length (mSerials s)
       \<or> serialType (mSerials s ! unat InterfaceId) = gSerialMgrNone_c
      then Some (Some gSerial_InvalidParameter_c, s)
      else write_loop user fuel (unat InterfaceId)
        \<lparr>txCallback = cb, pTxParam = prm, pData = pBuf, dataSize = bufLen\<rparr> fuel s)"

text \<open>The two polling loops of \<open>Serial_SyncWrite\<close>.\<close>

fun wait_idle :: "nat \<Rightarrow> nat \<Rightarrow> sm \<Rightarrow> (bool \<times> sm) option" where
  "wait_idle i 0 s = Some (False, s)"
| "wait_idle i (Suc k) s = do {
     s \<leftarrow> window s;
     x \<leftarrow> get_ser i s;
     if state x = 0 then Some (True, s) else wait_idle i k s }"

fun wait_sent :: "u32 \<Rightarrow> nat \<Rightarrow> sm \<Rightarrow> (bool \<times> sm) option" where
  "wait_sent n 0 s = Some (False, s)"
| "wait_sent n (Suc k) s = do {
     s \<leftarrow> window s;
     active \<leftarrow> LPUART_IsTxActive n s;
     if \<not> active then Some (True, s) else wait_sent n k s }"

definition Serial_SyncWrite :: "user \<Rightarrow> nat \<Rightarrow> u8 \<Rightarrow> ptr \<Rightarrow> u16 \<Rightarrow> sm \<Rightarrow> (serialStatus option \<times> sm) option" where
  "Serial_SyncWrite user fuel InterfaceId pBuf bufLen s = do {
     let pSer = (if unat InterfaceId < length (mSerials s) then self (mSerials s ! unat InterfaceId) else NULL);
     (status, s) \<leftarrow> Serial_AsyncWrite user fuel InterfaceId pBuf bufLen NULL pSer s;
     if status = None \<or> status = Some gSerial_InvalidParameter_c \<or> status = Some gSerial_OutOfMemory_c
     then Some (status, s)
     else do {
       (idle, s) \<leftarrow> wait_idle (unat InterfaceId) fuel s;
       x \<leftarrow> get_ser (unat InterfaceId) s;
       (sent, s) \<leftarrow> (if idle \<and> serialType x = gSerialMgrLpuart_c then wait_sent (ucast (serialChannel x)) fuel s
                     else Some (idle, s));
       Some (if sent then status else None, s) } }"

section \<open>Receiving\<close>

definition rx_count :: "serial \<Rightarrow> u16" where
  "rx_count x = (if rxIn x \<ge> rxOut x then ucast (rxIn x) - ucast (rxOut x)
     else ucast gSMRxBufSize_c - ucast (rxOut x) + ucast (rxIn x))"

definition Serial_RxBufferByteCount :: "u8 \<Rightarrow> ptr \<Rightarrow> sm \<Rightarrow> (serialStatus \<times> u16 option \<times> sm) option" where
  "Serial_RxBufferByteCount InterfaceId bytesCount s =
     (if unat InterfaceId \<ge> length (mSerials s) \<or> bytesCount = NULL then Some (gSerial_InvalidParameter_c, None, s)
      else do {
        s \<leftarrow> window s;
        x \<leftarrow> get_ser (unat InterfaceId) s;
        Some (gSerial_Success_c, Some (rx_count x), s) })"

fun read_loop :: "nat \<Rightarrow> ptr \<Rightarrow> nat \<Rightarrow> sm \<Rightarrow> sm option" where
  "read_loop i pDst 0 s = Some s"
| "read_loop i pDst (Suc n) s = do {
     s \<leftarrow> window s;
     x \<leftarrow> get_ser i s;
     b \<leftarrow> load8 (rxBuffer x + ucast (rxOut x)) (mem s);
     m \<leftarrow> store8 pDst b (mem s);
     s \<leftarrow> put_ser i (x\<lparr>rxOut := inc_idx (rxOut x) gSMRxBufSize_c\<rparr>) (s\<lparr>mem := m\<rparr>);
     read_loop i (pDst + 1) n s }"

text \<open>The count that is written through \<open>bytesRead\<close> is part of the answer; the call for the
  count inside gets the address of a local variable.\<close>

definition Serial_Read :: "u8 \<Rightarrow> ptr \<Rightarrow> u16 \<Rightarrow> sm \<Rightarrow> (serialStatus \<times> u16 option \<times> sm) option" where
  "Serial_Read InterfaceId pDst sz s =
     (if unat InterfaceId \<ge> length (mSerials s) \<or> pDst = NULL \<or> sz = 0 then Some (gSerial_InvalidParameter_c, None, s)
      else do {
        s \<leftarrow> window s;
        x \<leftarrow> get_ser (unat InterfaceId) s;
        let count = min (rx_count x) sz;
        s \<leftarrow> read_loop (unat InterfaceId) pDst (unat count) s;
        Some (gSerial_Success_c, Some count, s) })"

definition Serial_SetRxCallBack :: "u8 \<Rightarrow> ptr \<Rightarrow> ptr \<Rightarrow> sm \<Rightarrow> (serialStatus \<times> sm) option" where
  "Serial_SetRxCallBack InterfaceId cb prm s =
     (if unat InterfaceId \<ge> length (mSerials s) then Some (gSerial_InvalidParameter_c, s)
      else do {
        s \<leftarrow> mod_ser (unat InterfaceId) (\<lambda>x. x\<lparr>rxCallback := cb, pRxParam := prm\<rparr>) s;
        Some (gSerial_Success_c, s) })"

section \<open>Initialisation and the task\<close>

text \<open>The structures are cleared, the receive buffers in them included. Without an event or a task
  the program panics.\<close>

fun clear_buffers :: "serial list \<Rightarrow> bytes \<Rightarrow> bytes option" where
  "clear_buffers [] m = Some m"
| "clear_buffers (x # xs) m = do { m \<leftarrow> FLib_MemSet (rxBuffer x) 0 33 m; clear_buffers xs m }"

definition clear_serial :: "serial \<Rightarrow> serial" where
  "clear_serial x = x\<lparr>serialType := gSerialMgrNone_c, serialChannel := 0, rxIn := 0, rxOut := 0,
     rxCallback := NULL, pRxParam := NULL,
     txQueue := replicate 5 \<lparr>txCallback = NULL, pTxParam = NULL, pData = NULL, dataSize = 0\<rparr>,
     txIn := 0, txOut := 0, txCurrent := 0, txNo := 0, events := 0, state := 0\<rparr>"

abbreviation (input) gSerialTaskPriority_c :: u32 where "gSerialTaskPriority_c \<equiv> 3"
abbreviation (input) SerialManagerTask_fn :: ptr where "SerialManagerTask_fn \<equiv> 3"

definition SerialManager_Init :: "sm \<Rightarrow> sm option" where
  "SerialManager_Init s =
     (if initialized s then Some s
      else do {
        m \<leftarrow> clear_buffers (mSerials s) (mem s);
        let s = s\<lparr>initialized := True, mem := m, mSerials := map clear_serial (mSerials s)\<rparr>;
        (ev, o') \<leftarrow> OSA_EventCreate True (os s);
        let s = s\<lparr>mSMTaskEventId := ev, os := o'\<rparr>;
        if ev = NULL then None
        else do {
          (task, t) \<leftarrow> OSA_TaskCreate \<lparr>pthread = SerialManagerTask_fn, tpriority = gSerialTaskPriority_c\<rparr> NULL (tasks (os s));
          if task = NULL then None
          else Some (s\<lparr>gSerialManagerTaskId := task, os := (os s)\<lparr>tasks := t\<rparr>\<rparr>) } })"

text \<open>The answers of the adapter are ignored.\<close>

definition open_lpuart :: "u8 \<Rightarrow> nat \<Rightarrow> serial \<Rightarrow> sm \<Rightarrow> sm option" where
  "open_lpuart instance i x s = do {
     (r, s) \<leftarrow> LPUART_Initialize (ucast instance) (Some i) s;
     d \<leftarrow> nth_opt (mDrvData s) i;
     ds \<leftarrow> upd_opt (mDrvData s) i (d\<lparr>pRxData := rxBuffer x\<rparr>);
     (r, s) \<leftarrow> LPUART_InstallRxCalback (ucast instance) Serial_UartRxCb_fn (of_nat i) (s\<lparr>mDrvData := ds\<rparr>);
     (r, s) \<leftarrow> LPUART_InstallTxCalback (ucast instance) Serial_UartTxCb_fn (of_nat i) s;
     Some s }"

fun init_from :: "serialInterfaceType \<Rightarrow> u8 \<Rightarrow> nat \<Rightarrow> nat \<Rightarrow> sm \<Rightarrow> (serialStatus \<times> u8 \<times> sm) option" where
  "init_from ty instance i 0 s = Some (gSerial_MaxInterfacesReached_c, gSerialMgrInvalidIdx_c, s)"
| "init_from ty instance i (Suc n) s = do {
     x \<leftarrow> get_ser i s;
     if serialType x = ty \<and> serialChannel x = instance then Some (gSerial_InterfaceInUse_c, gSerialMgrInvalidIdx_c, s)
     else if serialType x = gSerialMgrNone_c then do {
       let x = x\<lparr>serialChannel := instance\<rparr>;
       s \<leftarrow> put_ser i x s;
       if ty = gSerialMgrNone_c then Some (gSerial_InvalidInterface_c, gSerialMgrInvalidIdx_c, s)
       else do {
         s \<leftarrow> (if ty = gSerialMgrLpuart_c then open_lpuart instance i x s else Some s);
         s \<leftarrow> mod_ser i (serialType_update (\<lambda>_. ty)) s;
         Some (gSerial_Success_c, of_nat i, s) } }
     else init_from ty instance (Suc i) n s }"

definition Serial_InitInterface :: "serialInterfaceType \<Rightarrow> u8 \<Rightarrow> sm \<Rightarrow> (serialStatus \<times> u8 \<times> sm) option" where
  "Serial_InitInterface ty instance s = init_from ty instance 0 (length (mSerials s)) s"

text \<open>The task makes one pass over the interfaces per run.\<close>

definition task_interface :: "user \<Rightarrow> nat \<Rightarrow> nat \<Rightarrow> sm \<Rightarrow> (bool \<times> sm) option" where
  "task_interface user fuel i s = do {
     s \<leftarrow> window s;
     x \<leftarrow> get_ser i s;
     let ev = events x;
     s \<leftarrow> put_ser i (x\<lparr>events := 0\<rparr>) s;
     s \<leftarrow> window s;
     x \<leftarrow> get_ser i s;
     (returned, s) \<leftarrow> (if ev AND gSMGR_Rx_c \<noteq> 0 \<and> rxCallback x \<noteq> NULL
       then call_user user (rxCallback x) (pRxParam x) s else Some (True, s));
     if \<not> returned then Some (False, s)
     else do {
       (done, s) \<leftarrow> (if ev AND gSMGR_TxDone_c \<noteq> 0 then Serial_TxQueueMaintenance user fuel i s else Some (True, s));
       if \<not> done then Some (False, s)
       else do {
         s \<leftarrow> window s;
         x \<leftarrow> get_ser i s;
         m \<leftarrow> nth_opt (txQueue x) (unat (txCurrent x));
         s \<leftarrow> (if state x = 0 \<and> 0 < dataSize m then do { (st, s) \<leftarrow> Serial_WriteInternal window i s; Some s } else Some s);
         Some (True, s) } } }"

fun task_interfaces :: "user \<Rightarrow> nat \<Rightarrow> nat \<Rightarrow> nat \<Rightarrow> sm \<Rightarrow> (bool \<times> sm) option" where
  "task_interfaces user fuel i 0 s = Some (True, s)"
| "task_interfaces user fuel i (Suc n) s = do {
     (done, s) \<leftarrow> task_interface user fuel i s;
     if done then task_interfaces user fuel (Suc i) n s else Some (False, s) }"

abbreviation (input) osaEventFlagsAll_c :: u32 where "osaEventFlagsAll_c \<equiv> 0x00FFFFFF"

text \<open>The local variable whose address is passed for the flags has some address that is not \<open>NULL\<close>.\<close>

definition SerialManagerTask :: "bool \<Rightarrow> user \<Rightarrow> nat \<Rightarrow> sm \<Rightarrow> (bool \<times> sm) option" where
  "SerialManagerTask timer user fuel s = do {
     s \<leftarrow> window s;
     (st, fl, o') \<leftarrow> OSA_EventWait timer (mSMTaskEventId s) osaEventFlagsAll_c False osaWaitForever_c 4 (os s);
     task_interfaces user fuel 0 (length (mSerials s)) (s\<lparr>os := o'\<rparr>) }"

section \<open>The other services\<close>

definition Serial_SetBaudRate :: "u8 \<Rightarrow> u32 \<Rightarrow> sm \<Rightarrow> (serialStatus \<times> sm) option" where
  "Serial_SetBaudRate InterfaceId baudRate s =
     (if unat InterfaceId \<ge> length (mSerials s) \<or> baudRate = 0 then Some (gSerial_InvalidParameter_c, s)
      else do {
        x \<leftarrow> get_ser (unat InterfaceId) s;
        case serialType x of
          gSerialMgrLpuart_c \<Rightarrow> do { (r, s) \<leftarrow> LPUART_SetBaudrate (ucast (serialChannel x)) baudRate s; Some (gSerial_Success_c, s) }
        | gSerialMgrCustom_c \<Rightarrow> Some (gSerial_Success_c, s)
        | _ \<Rightarrow> Some (gSerial_InvalidInterface_c, s) })"

fun interface_id_from :: "serialInterfaceType \<Rightarrow> u32 \<Rightarrow> nat \<Rightarrow> serial list \<Rightarrow> u32" where
  "interface_id_from ty channel i [] = ucast gSerialMgrInvalidIdx_c"
| "interface_id_from ty channel i (x # xs) =
     (if serialType x = ty \<and> ucast (serialChannel x) = channel then of_nat i else interface_id_from ty channel (Suc i) xs)"

definition Serial_GetInterfaceId :: "serialInterfaceType \<Rightarrow> u32 \<Rightarrow> sm \<Rightarrow> u32" where
  "Serial_GetInterfaceId ty channel s = interface_id_from ty channel 0 (mSerials s)"

text \<open>The low-power services go through the interfaces of a type; \<open>f\<close> is the service of the adapter.\<close>

fun wakeup_from :: "(u32 \<Rightarrow> sm \<Rightarrow> (u32 \<times> sm) option) \<Rightarrow> serialInterfaceType \<Rightarrow> serial list \<Rightarrow> serialStatus \<Rightarrow> sm
    \<Rightarrow> (serialStatus \<times> sm) option" where
  "wakeup_from f ty [] st s = Some (st, s)"
| "wakeup_from f ty (x # xs) st s =
     (if serialType x = ty then
        (if ty = gSerialMgrLpuart_c then do { (r, s) \<leftarrow> f (ucast (serialChannel x)) s; wakeup_from f ty xs st s }
         else wakeup_from f ty xs gSerial_InvalidInterface_c s)
      else wakeup_from f ty xs st s)"

definition Serial_EnableLowPowerWakeup :: "serialInterfaceType \<Rightarrow> sm \<Rightarrow> (serialStatus \<times> sm) option" where
  "Serial_EnableLowPowerWakeup ty s = wakeup_from LPUART_EnableLowPowerWakeup ty (mSerials s) gSerial_Success_c s"

definition Serial_DisableLowPowerWakeup :: "serialInterfaceType \<Rightarrow> sm \<Rightarrow> (serialStatus \<times> sm) option" where
  "Serial_DisableLowPowerWakeup ty s = wakeup_from LPUART_DisableLowPowerWakeup ty (mSerials s) gSerial_Success_c s"

fun wakeup_source_from :: "serialInterfaceType \<Rightarrow> serial list \<Rightarrow> sm \<Rightarrow> bool option" where
  "wakeup_source_from ty [] s = Some False"
| "wakeup_source_from ty (x # xs) s = do {
     a \<leftarrow> (if serialType x = ty \<and> ty = gSerialMgrLpuart_c then LPUART_IsWakeupSource (ucast (serialChannel x)) s
           else Some False);
     b \<leftarrow> wakeup_source_from ty xs s;
     Some (a \<or> b) }"

definition Serial_IsWakeUpSource :: "serialInterfaceType \<Rightarrow> sm \<Rightarrow> bool option" where
  "Serial_IsWakeUpSource ty s = wakeup_source_from ty (mSerials s) s"

section \<open>Printing\<close>

text \<open>Local arrays lie at the address \<open>sp\<close>.\<close>

definition Serial_Print :: "user \<Rightarrow> nat \<Rightarrow> u8 \<Rightarrow> ptr \<Rightarrow> bool \<Rightarrow> sm \<Rightarrow> (serialStatus option \<times> sm) option" where
  "Serial_Print user fuel InterfaceId pString allowToBlock s = do {
     len \<leftarrow> FLib_StrLen pString (mem s);
     if allowToBlock then Serial_SyncWrite user fuel InterfaceId pString (ucast len) s
     else Serial_AsyncWrite user fuel InterfaceId pString (ucast len) NULL NULL s }"

abbreviation (input) gPrtHexBigEndian_c :: u8 where "gPrtHexBigEndian_c \<equiv> 1"
abbreviation (input) gPrtHexNewLine_c :: u8 where "gPrtHexNewLine_c \<equiv> 2"
abbreviation (input) gPrtHexCommas_c :: u8 where "gPrtHexCommas_c \<equiv> 4"
abbreviation (input) gPrtHexSpaces_c :: u8 where "gPrtHexSpaces_c \<equiv> 8"

definition HexToAscii :: "u8 \<Rightarrow> u8" where
  "HexToAscii hex = (hex AND 0x0F) + (if hex AND 0x0F \<le> 9 then 0x30 else 0x41 - 10)"

fun store_bytes :: "ptr \<Rightarrow> u8 list \<Rightarrow> bytes \<Rightarrow> bytes option" where
  "store_bytes p [] m = Some m"
| "store_bytes p (b # bs) m = do { m \<leftarrow> store8 p b m; store_bytes (p + 1) bs m }"

definition hex_chars :: "u8 \<Rightarrow> bool \<Rightarrow> u8 \<Rightarrow> u8 list" where
  "hex_chars fmt is_last b = [HexToAscii (drop_bit 4 b), HexToAscii b]
     @ (if fmt AND gPrtHexCommas_c \<noteq> 0 then [0x2C] else [])
     @ (if fmt AND gPrtHexSpaces_c \<noteq> 0 then [0x20] else [])
     @ (if is_last \<and> fmt AND gPrtHexNewLine_c \<noteq> 0 then [0x0A, 0x0D] else [])"

fun hex_loop :: "user \<Rightarrow> nat \<Rightarrow> u8 \<Rightarrow> ptr \<Rightarrow> u8 \<Rightarrow> ptr \<Rightarrow> nat \<Rightarrow> sm \<Rightarrow> (serialStatus option \<times> sm) option" where
  "hex_loop user fuel InterfaceId sp fmt hex 0 s = Some (Some gSerial_Success_c, s)"
| "hex_loop user fuel InterfaceId sp fmt hex (Suc len) s = do {
     b \<leftarrow> load8 hex (mem s);
     let cs = hex_chars fmt (len = 0) b;
     m \<leftarrow> store_bytes sp cs (mem s);
     (status, s) \<leftarrow> Serial_SyncWrite user fuel InterfaceId sp (of_nat (length cs)) (s\<lparr>mem := m\<rparr>);
     if status = Some gSerial_Success_c then
       hex_loop user fuel InterfaceId sp fmt (if fmt AND gPrtHexBigEndian_c \<noteq> 0 then hex + 1 else hex - 1) len s
     else Some (status, s) }"

definition Serial_PrintHex :: "user \<Rightarrow> nat \<Rightarrow> ptr \<Rightarrow> u8 \<Rightarrow> ptr \<Rightarrow> u8 \<Rightarrow> u8 \<Rightarrow> sm \<Rightarrow> (serialStatus option \<times> sm) option" where
  "Serial_PrintHex user fuel sp InterfaceId hex len fmt s =
     hex_loop user fuel InterfaceId sp fmt (if fmt AND gPrtHexBigEndian_c = 0 then hex + (ucast len - 1) else hex) (unat len) s"

function dec_loop :: "ptr \<Rightarrow> u8 \<Rightarrow> u32 \<Rightarrow> bytes \<Rightarrow> (u8 \<times> bytes) option" where
  "dec_loop decString i nr m =
     (if nr = 0 then Some (i, m)
      else do {
        m \<leftarrow> store8 (decString + ucast i) (0x30 + ucast (nr mod 10)) m;
        dec_loop decString (i - 1) (nr div 10) m })"
  by pat_completeness auto
termination
  by (relation "measure (\<lambda>(_, _, nr, _). unat nr)") (auto simp: word_less_nat_alt [symmetric] unat_div_distrib unat_gt_0)

declare dec_loop.simps [simp del]

definition Serial_PrintDec :: "user \<Rightarrow> nat \<Rightarrow> ptr \<Rightarrow> u8 \<Rightarrow> u32 \<Rightarrow> sm \<Rightarrow> (serialStatus option \<times> sm) option" where
  "Serial_PrintDec user fuel sp InterfaceId nr s = do {
     (i, m) \<leftarrow> (if nr = 0 then do { m \<leftarrow> store8 (sp + 11) 0x30 (mem s); Some (11, m) }
               else do { (i, m) \<leftarrow> dec_loop sp 11 nr (mem s); Some (i + 1, m) });
     Serial_SyncWrite user fuel InterfaceId (sp + ucast i) (12 - ucast i) (s\<lparr>mem := m\<rparr>) }"

end
