(* ===== verification/Serial_Interfaces.thy ===== *)
theory Serial_Interfaces
  imports Serial_Manager
begin

text \<open>
  The table of interfaces of the serial manager: which interface \<open>Serial_InitInterface\<close> gives to a
  type and a channel, and that \<open>Serial_GetInterfaceId\<close> finds it again.
\<close>

section \<open>Opening interfaces\<close>

text \<open>The interfaces that are open are the first ones.\<close>

definition interface_of :: "serial \<Rightarrow> serialInterfaceType \<times> u8" where
  "interface_of x = (serialType x, serialChannel x)"

definition table :: "sm \<Rightarrow> (serialInterfaceType \<times> u8) list \<Rightarrow> bool" where
  "table s opened \<longleftrightarrow> length opened \<le> length (mSerials s) \<and> map interface_of (take (length opened) (mSerials s)) = opened \<and>
     (\<forall>x \<in> set (drop (length opened) (mSerials s)). serialType x = gSerialMgrNone_c) \<and>
     (\<forall>(ty, ch) \<in> set opened. ty \<noteq> gSerialMgrNone_c) \<and> distinct opened \<and>
     length (mSerials s) \<le> length (mDrvData s) \<and> length (pLpuartStates s) = 4 \<and> length (lpuarts s) = 4"

text \<open>The answer for one more: the status and the number of the interface.\<close>

definition next_interface :: "nat \<Rightarrow> (serialInterfaceType \<times> u8) list \<Rightarrow> serialInterfaceType \<times> u8 \<Rightarrow>
    (serialStatus \<times> u8) \<times> (serialInterfaceType \<times> u8) list" where
  "next_interface mx opened r = (if r \<in> set opened then ((gSerial_InterfaceInUse_c, gSerialMgrInvalidIdx_c), opened)
     else if length opened = mx then ((gSerial_MaxInterfacesReached_c, gSerialMgrInvalidIdx_c), opened)
     else ((gSerial_Success_c, of_nat (length opened)), opened @ [r]))"

lemma open_lpuart_ok:
  assumes "i < length (mDrvData s)" "length (pLpuartStates s) = 4" "length (lpuarts s) = 4"
  shows "\<exists>s'. open_lpuart instance i x s = Some s' \<and> mSerials s' = mSerials s \<and> length (mDrvData s') = length (mDrvData s) \<and>
    length (pLpuartStates s') = 4 \<and> length (lpuarts s') = 4"
proof (cases "(ucast instance :: u32) < 4")
  case True
  then have n: "unat (ucast instance :: u32) < 4" "\<not> (4 :: u32) \<le> ucast instance" by (simp_all add: word_less_nat_alt not_le)
  then show ?thesis using assms
    by (simp add: open_lpuart_def LPUART_Initialize_def LPUART_InstallRxCalback_def LPUART_InstallTxCalback_def get_uart_def put_uart_def
        uart_index_def get_lpuart_def put_lpuart_def)
next
  case False
  then have "(4 :: u32) \<le> ucast instance" by simp
  then show ?thesis using assms
    by (simp add: open_lpuart_def LPUART_Initialize_def LPUART_InstallRxCalback_def LPUART_InstallTxCalback_def)
qed

lemma table_nth:
  assumes "table s opened" "i < length opened"
  shows "i < length (mSerials s)" "interface_of (mSerials s ! i) = opened ! i"
proof -
  show "i < length (mSerials s)" using assms by (simp add: table_def)
  have "map interface_of (take (length opened) (mSerials s)) ! i = opened ! i" using assms(1) unfolding table_def by metis
  then show "interface_of (mSerials s ! i) = opened ! i" using assms(2) \<open>i < length (mSerials s)\<close> by simp
qed

lemma table_free:
  assumes "table s opened" "length opened \<le> i" "i < length (mSerials s)"
  shows "serialType (mSerials s ! i) = gSerialMgrNone_c"
proof -
  have "mSerials s ! i = drop (length opened) (mSerials s) ! (i - length opened)" using assms by (simp add: table_def)
  also have "\<dots> \<in> set (drop (length opened) (mSerials s))" using assms by (intro nth_mem) simp
  finally show ?thesis using assms(1) unfolding table_def by blast
qed

lemma init_at_free:
  assumes t: "table s opened" and r: "ty \<noteq> gSerialMgrNone_c" "(ty, ch) \<notin> set opened" and k: "length opened < length (mSerials s)"
  shows "\<exists>s'. init_from ty ch (length opened) (Suc n) s = Some (gSerial_Success_c, of_nat (length opened), s') \<and>
    table s' (opened @ [(ty, ch)]) \<and> length (mSerials s') = length (mSerials s)"
proof -
  let ?k = "length opened"
  let ?x = "(mSerials s ! ?k)\<lparr>serialChannel := ch\<rparr>"
  let ?s = "s\<lparr>mSerials := (mSerials s)[?k := ?x]\<rparr>"
  have free: "serialType (mSerials s ! ?k) = gSerialMgrNone_c" by (rule table_free [OF t order_refl k])
  have l: "?k < length (mDrvData s)" "length (pLpuartStates s) = 4" "length (lpuarts s) = 4" using t k by (auto simp: table_def)
  obtain s1 where s1: "(if ty = gSerialMgrLpuart_c then open_lpuart ch ?k ?x ?s else Some ?s) = Some s1" "mSerials s1 = mSerials ?s"
    "length (mDrvData s1) = length (mDrvData s)" "length (pLpuartStates s1) = 4" "length (lpuarts s1) = 4"
    using open_lpuart_ok [of ?k ?s ch ?x] l by (cases "ty = gSerialMgrLpuart_c") auto
  let ?y = "?x\<lparr>serialType := ty\<rparr>"
  let ?t = "s1\<lparr>mSerials := (mSerials s)[?k := ?y]\<rparr>"
  have run: "init_from ty ch ?k (Suc n) s = Some (gSerial_Success_c, of_nat ?k, ?t)"
    using free r(1) k s1(1,2) by (auto simp: get_ser_def put_ser_def mod_ser_def Let_def)
  have "take (Suc ?k) ((mSerials s)[?k := ?y]) = take ?k (mSerials s) @ [?y]" using k by (simp add: take_Suc_conv_app_nth)
  moreover have "interface_of ?y = (ty, ch)" by (simp add: interface_of_def)
  moreover have "drop (Suc ?k) ((mSerials s)[?k := ?y]) = drop (Suc ?k) (mSerials s)" by simp
  moreover have "set (drop (Suc ?k) (mSerials s)) \<subseteq> set (drop ?k (mSerials s))" by (rule set_drop_subset_set_drop) simp
  ultimately have "table ?t (opened @ [(ty, ch)])" using t r k s1(3-5) unfolding table_def by auto
  then show ?thesis using run by (intro exI [of _ ?t]) simp
qed

lemma init_from_ok:
  assumes t: "table s opened" and ty: "ty \<noteq> gSerialMgrNone_c" and i: "i \<le> length opened" "(ty, ch) \<notin> set (take i opened)"
    and n: "i + n = length (mSerials s)"
  shows "\<exists>s'. init_from ty ch i n s = Some (fst (fst (next_interface (length (mSerials s)) opened (ty, ch))),
      snd (fst (next_interface (length (mSerials s)) opened (ty, ch))), s') \<and>
    table s' (snd (next_interface (length (mSerials s)) opened (ty, ch))) \<and> length (mSerials s') = length (mSerials s)"
  using i n
proof (induction n arbitrary: i)
  case 0
  then have "length opened = length (mSerials s)" "i = length opened" using t by (auto simp: table_def)
  then show ?case using 0 t by (simp add: next_interface_def)
next
  case (Suc n)
  show ?case
  proof (cases "i < length opened")
    case False
    then have "i = length opened" "length opened < length (mSerials s)" "(ty, ch) \<notin> set opened" using Suc.prems by auto
    then show ?thesis using init_at_free [OF t ty, of ch n] by (simp add: next_interface_def del: init_from.simps)
  next
    case True
    note x = table_nth [OF t True]
    have get: "get_ser i s = Some (mSerials s ! i)" using x(1) by (simp add: get_ser_def)
    have tyi: "serialType (mSerials s ! i) = fst (opened ! i)" "serialChannel (mSerials s ! i) = snd (opened ! i)"
      using x(2) by (simp_all add: interface_of_def prod_eq_iff)
    have "opened ! i \<in> set opened" using True by simp
    then have some: "serialType (mSerials s ! i) \<noteq> gSerialMgrNone_c" using t tyi(1) unfolding table_def by (metis (mono_tags, lifting) case_prod_beta)
    show ?thesis
    proof (cases "opened ! i = (ty, ch)")
      case eq: True
      then have "(ty, ch) \<in> set opened" using \<open>opened ! i \<in> set opened\<close> by simp
      then show ?thesis using get tyi eq t by (simp add: next_interface_def)
    next
      case False
      then have "\<not> (serialType (mSerials s ! i) = ty \<and> serialChannel (mSerials s ! i) = ch)" using tyi by (auto simp: prod_eq_iff)
      then have "init_from ty ch i (Suc n) s = init_from ty ch (Suc i) n s" using get some by auto
      moreover have "(ty, ch) \<notin> set (take (Suc i) opened)" using Suc.prems(2) False True by (auto simp: take_Suc_conv_app_nth)
      ultimately show ?thesis using Suc.IH [of "Suc i"] True Suc.prems(3) by simp
    qed
  qed
qed

lemma next_interface_length: "length opened \<le> mx \<Longrightarrow> length (snd (next_interface mx opened r)) \<le> mx"
  by (auto simp: next_interface_def)

fun init_all :: "(serialInterfaceType \<times> u8) list \<Rightarrow> sm \<Rightarrow> ((serialStatus \<times> u8) list \<times> sm) option" where
  "init_all [] s = Some ([], s)"
| "init_all ((ty, ch) # rs) s = do {
     (st, i, s) \<leftarrow> Serial_InitInterface ty ch s;
     (as, s) \<leftarrow> init_all rs s;
     Some ((st, i) # as, s) }"

fun next_all :: "nat \<Rightarrow> (serialInterfaceType \<times> u8) list \<Rightarrow> (serialInterfaceType \<times> u8) list \<Rightarrow>
    (serialStatus \<times> u8) list \<times> (serialInterfaceType \<times> u8) list" where
  "next_all mx opened [] = ([], opened)"
| "next_all mx opened (r # rs) = (let (a, opened') = next_interface mx opened r; (as, opened'') = next_all mx opened' rs in
     (a # as, opened''))"

lemma init_all_ok:
  assumes "table s opened" "\<forall>(ty, ch) \<in> set rs. ty \<noteq> gSerialMgrNone_c"
  shows "\<exists>s'. init_all rs s = Some (fst (next_all (length (mSerials s)) opened rs), s') \<and>
    table s' (snd (next_all (length (mSerials s)) opened rs)) \<and> length (mSerials s') = length (mSerials s)"
  using assms
proof (induction rs arbitrary: opened s)
  case Nil
  then show ?case by simp
next
  case (Cons r rs)
  obtain ty ch where r: "r = (ty, ch)" by (rule prod.exhaust)
  let ?mx = "length (mSerials s)"
  obtain a opened' where a: "next_interface ?mx opened r = (a, opened')" by (rule prod.exhaust)
  obtain s1 where 1: "Serial_InitInterface ty ch s = Some (fst a, snd a, s1)" "table s1 opened'" "length (mSerials s1) = ?mx"
    using init_from_ok [OF Cons.prems(1), of ty 0 ch ?mx] Cons.prems(2) a r by (auto simp: Serial_InitInterface_def)
  obtain s2 where "init_all rs s1 = Some (fst (next_all ?mx opened' rs), s2)" "table s2 (snd (next_all ?mx opened' rs))"
    "length (mSerials s2) = ?mx" using Cons.IH [OF 1(2)] Cons.prems(2) 1(3) by auto
  then show ?case using 1(1) a r by (simp add: case_prod_beta)
qed

text \<open>The number of an open interface is found again.\<close>

lemma interface_id_from_found:
  assumes "j < length xs" "interface_of (xs ! j) = (ty, ch)" "\<forall>k < j. interface_of (xs ! k) \<noteq> (ty, ch)"
  shows "interface_id_from ty (ucast ch) i xs = of_nat (i + j)"
  using assms
proof (induction xs arbitrary: i j)
  case (Cons x xs)
  have eq: "serialType x = ty \<and> (ucast (serialChannel x) :: u32) = ucast ch \<longleftrightarrow> interface_of x = (ty, ch)"
  proof -
    have "unat (ucast a :: u32) = unat a" for a :: u8 by (rule unat_ucast_up) simp
    then have "(ucast (serialChannel x) :: u32) = ucast ch \<longleftrightarrow> serialChannel x = ch" by (metis word_unat_eq_iff)
    then show ?thesis by (simp add: interface_of_def)
  qed
  show ?case
  proof (cases j)
    case 0
    then show ?thesis using Cons.prems eq by simp
  next
    case (Suc l)
    have "interface_of x \<noteq> (ty, ch)" using Cons.prems(3) Suc by (metis nth_Cons_0 zero_less_Suc)
    moreover have "\<forall>k < l. interface_of (xs ! k) \<noteq> (ty, ch)" using Cons.prems(3) Suc by (metis Suc_mono nth_Cons_Suc)
    ultimately show ?thesis using Cons.IH [of l "Suc i"] Cons.prems(1,2) Suc eq by auto
  qed
qed simp

lemma table_id:
  assumes t: "table s opened" and j: "j < length opened"
  shows "Serial_GetInterfaceId (fst (opened ! j)) (ucast (snd (opened ! j))) s = of_nat j"
proof -
  have "interface_of (mSerials s ! k) \<noteq> opened ! j" if "k < j" for k
    using table_nth(2) [OF t, of k] that j t nth_eq_iff_index_eq [of opened k j] by (auto simp: table_def)
  then show ?thesis using interface_id_from_found [of j "mSerials s" "fst (opened ! j)" "snd (opened ! j)" 0] table_nth [OF t j]
    by (simp add: Serial_GetInterfaceId_def)
qed


text \<open>C12: a sequence of \<open>Serial_InitInterface\<close> calls answers as a table of pairs of a type and a
  channel would: a pair that is open is in use, a new one gets the next number until all interfaces
  are open; no two interfaces are the same pair, and \<open>Serial_GetInterfaceId\<close> finds each one.\<close>

theorem serial_interfaces:
  assumes "\<forall>x \<in> set (mSerials s). serialType x = gSerialMgrNone_c" "length (mSerials s) \<le> length (mDrvData s)"
    "length (pLpuartStates s) = 4" "length (lpuarts s) = 4" "\<forall>(ty, ch) \<in> set rs. ty \<noteq> gSerialMgrNone_c"
  shows "\<exists>s' opened. init_all rs s = Some (fst (next_all (length (mSerials s)) [] rs), s') \<and>
    opened = snd (next_all (length (mSerials s)) [] rs) \<and> distinct opened \<and>
    (\<forall>j < length opened. Serial_GetInterfaceId (fst (opened ! j)) (ucast (snd (opened ! j))) s' = of_nat j)"
proof -
  have "table s []" using assms(1-4) by (simp add: table_def)
  then obtain s' where s': "init_all rs s = Some (fst (next_all (length (mSerials s)) [] rs), s')"
    "table s' (snd (next_all (length (mSerials s)) [] rs))" using init_all_ok [OF _ assms(5)] by blast
  then show ?thesis using table_id [OF s'(2)] by (auto simp: table_def)
qed

definition blank :: serial where
  "blank = \<lparr>self = 0x100, rxBuffer = 0x110, serialType = gSerialMgrNone_c, serialChannel = 0, rxIn = 0, rxOut = 0,
     rxCallback = NULL, pRxParam = NULL, txQueue = [], txIn = 0, txOut = 0, txCurrent = 0, txNo = 0, events = 0, state = 0\<rparr>"

definition two_interfaces :: sm where
  "two_interfaces = \<lparr>mem = (\<lambda>a. None),
     mDrvData = replicate 2 \<lparr>txCb = NULL, rxCb = NULL, txCbParam = 0, rxCbParam = 0, pTxData = NULL, pRxData = NULL, txSize = 0, rxSize = 0\<rparr>,
     pLpuartStates = replicate 4 None,
     lpuarts = replicate 4 \<lparr>tx_data = None, tx_shift = None, rx_data = None, overrun = False, rx_edge = False, TIE = False,
       RIE = False, RXEDGIE = False, baud = 0, line_out = [], line_in = []\<rparr>,
     mSerials = [blank, blank], initialized = True, mSMTaskEventId = 5, gSerialManagerTaskId = 6, txMntOngoing = False,
     os = \<lparr>osSemaphores = \<lparr>pHeap = 1, objectStructSize = 1, objects = []\<rparr>, osMutexes = \<lparr>pHeap = 1, objectStructSize = 1, objects = []\<rparr>,
       osEvents = \<lparr>pHeap = 1, objectStructSize = 1, objects = []\<rparr>, osMsgQs = \<lparr>pHeap = 1, objectStructSize = 1, objects = []\<rparr>,
       tasks = \<lparr>tcbs = (\<lambda>a. None), p_taskListHead = NULL, g_curTask = NULL, g_freeTaskControlBlock = NULL\<rparr>, gTickCounter = 0\<rparr>,
     irqs = [], calls = [], taken = []\<rparr>"

lemma serial_interfaces_witness:
  "\<exists>s. init_all [(gSerialMgrLpuart_c, 1), (gSerialMgrLpuart_c, 1), (gSerialMgrLpuart_c, 0), (gSerialMgrUSB_c, 0)] two_interfaces =
      Some ([(gSerial_Success_c, 0), (gSerial_InterfaceInUse_c, 255), (gSerial_Success_c, 1), (gSerial_MaxInterfacesReached_c, 255)], s) \<and>
    Serial_GetInterfaceId gSerialMgrLpuart_c 0 s = 1"
proof -
  let ?rs = "[(gSerialMgrLpuart_c, 1), (gSerialMgrLpuart_c, 1), (gSerialMgrLpuart_c, 0), (gSerialMgrUSB_c, 0)]"
  have len: "length (mSerials two_interfaces) = Suc (Suc 0)" by (simp add: two_interfaces_def)
  have n: "next_all (Suc (Suc 0)) [] ?rs = ([(gSerial_Success_c, 0), (gSerial_InterfaceInUse_c, 255), (gSerial_Success_c, 1),
    (gSerial_MaxInterfacesReached_c, 255)], [(gSerialMgrLpuart_c, 1), (gSerialMgrLpuart_c, 0)])" by (simp add: next_interface_def)
  have "\<forall>x \<in> set (mSerials two_interfaces). serialType x = gSerialMgrNone_c" "length (mSerials two_interfaces) \<le> length (mDrvData two_interfaces)"
    "length (pLpuartStates two_interfaces) = 4" "length (lpuarts two_interfaces) = 4" "\<forall>(ty, ch) \<in> set ?rs. ty \<noteq> gSerialMgrNone_c"
    by (simp_all add: two_interfaces_def blank_def)
  from serial_interfaces [OF this] obtain s opened where s: "init_all ?rs two_interfaces = Some (fst (next_all (Suc (Suc 0)) [] ?rs), s)"
    "opened = snd (next_all (Suc (Suc 0)) [] ?rs)"
    "\<forall>j < length opened. Serial_GetInterfaceId (fst (opened ! j)) (ucast (snd (opened ! j))) s = of_nat j"
    unfolding len by blast
  have o1: "opened = [(gSerialMgrLpuart_c, 1), (gSerialMgrLpuart_c, 0)]" using s(2) n by simp
  have "Serial_GetInterfaceId gSerialMgrLpuart_c 0 s = 1" using s(3) [rule_format, of 1] by (simp add: o1)
  then show ?thesis using s(1) n by (intro exI [of _ s]) (simp del: init_all.simps)
qed

end
