(* ===== verification/Serial_Stream.thy ===== *)
theory Serial_Stream
  imports Serial_Manager "HOL-Library.Sublist"
begin

text \<open>
  What goes through an interface of the serial manager: the requests that are accepted go over the
  line in their order, byte by byte, whatever interrupts arrive; the callbacks are called in the
  same order; and what is received is read in the order in which it came. The configuration is the
  default one with one interface, on an LPUART.
\<close>

section \<open>Access\<close>

text \<open>The one interface, its driver state and its peripheral.\<close>

definition wired :: "u32 \<Rightarrow> serial \<Rightarrow> uart_state \<Rightarrow> lpuart \<Rightarrow> sm \<Rightarrow> bool" where
  "wired n x d u s \<longleftrightarrow> mSerials s = [x] \<and> mDrvData s = [d] \<and> n < 4 \<and>
     unat n < length (pLpuartStates s) \<and> pLpuartStates s ! unat n = Some 0 \<and>
     unat n < length (lpuarts s) \<and> lpuarts s ! unat n = u \<and>
     (\<forall>k < length (lpuarts s). k \<noteq> unat n \<longrightarrow> \<not> TIE (lpuarts s ! k) \<and> \<not> RIE (lpuarts s ! k)) \<and>
     serialType x = gSerialMgrLpuart_c \<and> ucast (serialChannel x) = n \<and> rxCallback x = NULL \<and>
     txCb d = 2 \<and> txCbParam d = 0 \<and> rxCb d = 1 \<and> rxCbParam d = 0"

lemma wired_get:
  assumes "wired n x d u s"
  shows "get_ser 0 s = Some x" "get_uart n s = Some d" "get_lpuart n s = Some u" "uart_index n s = Some 0"
    "nth_opt (mDrvData s) 0 = Some d" "unat n < length (lpuarts s)"
  using assms by (simp_all add: wired_def get_ser_def get_uart_def get_lpuart_def uart_index_def)

lemma wired_put:
  assumes "wired n x d u s"
  shows "put_ser 0 y s = Some (s\<lparr>mSerials := [y]\<rparr>)" "put_uart n e s = Some (s\<lparr>mDrvData := [e]\<rparr>)"
    "put_lpuart n v s = Some (s\<lparr>lpuarts := (lpuarts s)[unat n := v]\<rparr>)"
    "upd_opt (mDrvData s) 0 e = Some [e]" "mod_ser 0 f s = Some (s\<lparr>mSerials := [f x]\<rparr>)"
  using assms by (simp_all add: wired_def put_ser_def put_uart_def put_lpuart_def uart_index_def mod_ser_def get_ser_def)

lemma wired_upd:
  assumes "wired n x d u s"
  shows "serialType y = serialType x \<Longrightarrow> serialChannel y = serialChannel x \<Longrightarrow> rxCallback y = rxCallback x \<Longrightarrow>
      wired n y d u (s\<lparr>mSerials := [y]\<rparr>)"
    "txCb e = txCb d \<Longrightarrow> txCbParam e = txCbParam d \<Longrightarrow> rxCb e = rxCb d \<Longrightarrow> rxCbParam e = rxCbParam d \<Longrightarrow>
      wired n x e u (s\<lparr>mDrvData := [e]\<rparr>)"
    "wired n x d v (s\<lparr>lpuarts := (lpuarts s)[unat n := v]\<rparr>)"
    "wired n x d u (s\<lparr>os := o'\<rparr>)" "wired n x d u (s\<lparr>mem := m\<rparr>)" "wired n x d u (s\<lparr>irqs := q\<rparr>)"
    "wired n x d u (s\<lparr>calls := cs\<rparr>)" "wired n x d u (s\<lparr>taken := ts\<rparr>)" "wired n x d u (s\<lparr>txMntOngoing := b\<rparr>)"
  using assms by (simp_all add: wired_def)

section \<open>The ring of requests\<close>

lemma unat_inc_idx:
  assumes "unat i < unat m" "m \<noteq> 0"
  shows "unat (inc_idx i m) = Suc (unat i) mod unat m"
proof -
  have "unat (i + 1) = Suc (unat i)"
    using assms(1) word_nat_less_len [of m] by (simp add: unat_word_ariths)
  then show ?thesis using assms by (cases "unat m = Suc (unat i)") (auto simp: inc_idx_def word_le_nat_alt)
qed

lemma mod_shift_eq:
  assumes "k < l" "j < l" "(n + k) mod l = (n + j) mod (l :: nat)"
  shows "k = j"
proof -
  have "b = a" if "a \<le> b" "b < l" "(n + b) mod l = (n + a) mod l" for a b
    using that mod_eq_dvd_iff_nat [of "n + a" "n + b" l] by (auto dest: dvd_imp_le)
  then show ?thesis using assms by (metis nat_le_linear)
qed

lemma rotate_update:
  "k < length xs \<Longrightarrow> rotate n (xs[(n + k) mod length xs := y]) = (rotate n xs)[k := y]"
proof (rule nth_equalityI)
  fix j assume k: "k < length xs" and j: "j < length (rotate n (xs[(n + k) mod length xs := y]))"
  have "(n + k) mod length xs = (n + j) mod length xs \<longleftrightarrow> k = j"
    using k j mod_shift_eq [of k "length xs" j n] by auto
  moreover have "(n + j) mod length xs < length xs" using k by (intro mod_less_divisor) linarith
  ultimately show "rotate n (xs[(n + k) mod length xs := y]) ! j = (rotate n xs)[k := y] ! j"
    using k j by (auto simp: nth_rotate nth_list_update)
qed simp


text \<open>The requests \<open>Q\<close> that are not yet taken out of the ring, the first \<open>c\<close> of them sent. Sent
  requests keep their callbacks until they are taken out, and free slots have none.\<close>

definition sent_mark :: "SerialMsg \<Rightarrow> SerialMsg" where
  "sent_mark r = r\<lparr>dataSize := 0\<rparr>"

definition free_slots :: "SerialMsg list \<Rightarrow> bool" where
  "free_slots E \<longleftrightarrow> (\<forall>e \<in> set E. dataSize e = 0 \<and> txCallback e = NULL)"

definition ring_ok :: "serial \<Rightarrow> SerialMsg list \<Rightarrow> nat \<Rightarrow> bool" where
  "ring_ok x Q c \<longleftrightarrow> length (txQueue x) = 5 \<and> c \<le> length Q \<and> unat (txNo x) = length Q \<and>
     unat (txOut x) < 5 \<and> unat (txIn x) = (unat (txOut x) + length Q) mod 5 \<and>
     unat (txCurrent x) = (unat (txOut x) + c) mod 5 \<and> (\<forall>r \<in> set Q. dataSize r \<noteq> 0) \<and>
     (\<exists>E. rotate (unat (txOut x)) (txQueue x) = map sent_mark (take c Q) @ drop c Q @ E \<and> free_slots E)"

lemma ring_ok_slot:
  assumes "ring_ok x Q c" "k < 5"
  shows "txQueue x ! ((unat (txOut x) + k) mod 5) = rotate (unat (txOut x)) (txQueue x) ! k"
  using assms by (simp add: ring_ok_def nth_rotate)

lemma ring_ok_length: "ring_ok x Q c \<Longrightarrow> length Q \<le> 5"
proof -
  assume "ring_ok x Q c"
  then obtain E where "rotate (unat (txOut x)) (txQueue x) = map sent_mark (take c Q) @ drop c Q @ E"
    "length (txQueue x) = 5" "c \<le> length Q" by (auto simp: ring_ok_def)
  then have "5 = length (map sent_mark (take c Q) @ drop c Q @ E)" by (metis length_rotate)
  then show ?thesis using \<open>c \<le> length Q\<close> by simp
qed

text \<open>The request that is sent now, and the slots where the queue starts and ends.\<close>

lemma ring_current:
  assumes "ring_ok x Q c"
  shows "nth_opt (txQueue x) (unat (txCurrent x)) = Some (txQueue x ! unat (txCurrent x))"
    "unat (txCurrent x) < length (txQueue x)"
    "c < length Q \<Longrightarrow> txQueue x ! unat (txCurrent x) = Q ! c"
    "c = length Q \<Longrightarrow> dataSize (txQueue x ! unat (txCurrent x)) = 0"
proof -
  have l: "length (txQueue x) = 5" and cl: "c \<le> length Q" and cur: "unat (txCurrent x) = (unat (txOut x) + c) mod 5"
    using assms by (simp_all add: ring_ok_def)
  show "unat (txCurrent x) < length (txQueue x)" unfolding cur l by simp
  then show "nth_opt (txQueue x) (unat (txCurrent x)) = Some (txQueue x ! unat (txCurrent x))" by simp
  obtain E where E: "rotate (unat (txOut x)) (txQueue x) = map sent_mark (take c Q) @ drop c Q @ E" "free_slots E"
    using assms by (auto simp: ring_ok_def)
  have len: "length Q \<le> 5" using ring_ok_length [OF assms] .
  { assume "c < length Q"
    then show "txQueue x ! unat (txCurrent x) = Q ! c"
      using ring_ok_slot [OF assms, of c] len E(1) cl unfolding cur by (simp add: nth_append min_def) }
  { assume c: "c = length Q"
    have r: "ring_ok x Q (length Q)" using assms c by simp
    have tot: "length Q + length E = 5" using arg_cong [OF E(1), of length] c l by simp
    show "dataSize (txQueue x ! unat (txCurrent x)) = 0"
    proof (cases "length Q < 5")
      case True
      then have "0 < length E" using tot by linarith
      moreover have "txQueue x ! unat (txCurrent x) = E ! 0"
        using ring_ok_slot [OF assms, of c] True E(1) c unfolding cur by (simp add: nth_append)
      ultimately show ?thesis using E(2) by (simp add: free_slots_def)
    next
      case False
      then have "c = 5" "length Q = 5" using len c by simp_all
      moreover have "txQueue x ! ((unat (txOut x) + 5) mod 5) = rotate (unat (txOut x)) (txQueue x) ! 0"
        using ring_ok_slot [OF assms, of 0] by simp
      ultimately show ?thesis using E(1) cur by (simp add: nth_append sent_mark_def)
    qed }
qed


text \<open>A request has been sent; a request is put in; a request is taken out.\<close>

lemma ring_sent:
  assumes ok: "ring_ok x Q c" and c: "c < length Q"
  shows "ring_ok (x\<lparr>txQueue := (txQueue x)[unat (txCurrent x) := sent_mark (Q ! c)],
    txCurrent := inc_idx (txCurrent x) 5, state := v\<rparr>) Q (Suc c)"
proof -
  have l: "length (txQueue x) = 5" and cur: "unat (txCurrent x) = (unat (txOut x) + c) mod 5"
    using ok by (simp_all add: ring_ok_def)
  obtain E where E: "rotate (unat (txOut x)) (txQueue x) = map sent_mark (take c Q) @ drop c Q @ E" "free_slots E"
    using ok by (auto simp: ring_ok_def)
  have "c < 5" using c ring_ok_length [OF ok] by linarith
  then have "rotate (unat (txOut x)) ((txQueue x)[unat (txCurrent x) := sent_mark (Q ! c)]) =
      (map sent_mark (take c Q) @ drop c Q @ E)[c := sent_mark (Q ! c)]"
    using rotate_update [of c "txQueue x" "unat (txOut x)"] l cur E(1) by simp
  also have "\<dots> = map sent_mark (take (Suc c) Q) @ drop (Suc c) Q @ E"
    using c by (simp add: list_update_append take_Suc_conv_app_nth Cons_nth_drop_Suc [symmetric])
  finally have r: "rotate (unat (txOut x)) ((txQueue x)[unat (txCurrent x) := sent_mark (Q ! c)]) =
      map sent_mark (take (Suc c) Q) @ drop (Suc c) Q @ E" .
  have "unat (inc_idx (txCurrent x) 5) = Suc (unat (txCurrent x)) mod 5"
    using unat_inc_idx [of "txCurrent x" 5] cur by simp
  then have "unat (inc_idx (txCurrent x) 5) = (unat (txOut x) + Suc c) mod 5" using cur by (simp add: mod_Suc_eq)
  then show ?thesis using ok r E(2) c by (auto simp: ring_ok_def)
qed

lemma ring_in_slot:
  assumes ok: "ring_ok x Q c"
  shows "nth_opt (txQueue x) (unat (txIn x)) = Some (txQueue x ! unat (txIn x))"
    "dataSize (txQueue x ! unat (txIn x)) = 0 \<and> txCallback (txQueue x ! unat (txIn x)) = NULL \<and> txNo x < 5 \<longleftrightarrow> length Q < 5"
proof -
  have l: "length (txQueue x) = 5" and i: "unat (txIn x) = (unat (txOut x) + length Q) mod 5"
    and no: "unat (txNo x) = length Q" using ok by (simp_all add: ring_ok_def)
  show "nth_opt (txQueue x) (unat (txIn x)) = Some (txQueue x ! unat (txIn x))" unfolding i by (rule nth_opt_Some) (simp add: l)
  have n: "txNo x < 5 \<longleftrightarrow> length Q < 5" using no by (simp add: word_less_nat_alt)
  obtain E where E: "rotate (unat (txOut x)) (txQueue x) = map sent_mark (take c Q) @ drop c Q @ E" "free_slots E"
    using ok by (auto simp: ring_ok_def)
  have cl: "c \<le> length Q" using ok by (simp add: ring_ok_def)
  have tot: "length Q + length E = 5" using arg_cong [OF E(1), of length] cl l by simp
  have "dataSize (txQueue x ! unat (txIn x)) = 0 \<and> txCallback (txQueue x ! unat (txIn x)) = NULL" if q: "length Q < 5"
  proof -
    have "0 < length E" using tot q by linarith
    moreover have "txQueue x ! unat (txIn x) = E ! 0"
      using ring_ok_slot [OF ok, of "length Q"] q E(1) cl unfolding i by (simp add: nth_append)
    ultimately show ?thesis using E(2) by (simp add: free_slots_def)
  qed
  then show "dataSize (txQueue x ! unat (txIn x)) = 0 \<and> txCallback (txQueue x ! unat (txIn x)) = NULL \<and> txNo x < 5 \<longleftrightarrow> length Q < 5"
    using n by blast
qed

lemma ring_put:
  assumes ok: "ring_ok x Q c" and q: "length Q < 5" and r: "dataSize r \<noteq> 0"
  shows "ring_ok (x\<lparr>txQueue := (txQueue x)[unat (txIn x) := r], txIn := inc_idx (txIn x) 5, txNo := txNo x + 1\<rparr>) (Q @ [r]) c"
proof -
  have l: "length (txQueue x) = 5" and i: "unat (txIn x) = (unat (txOut x) + length Q) mod 5"
    and no: "unat (txNo x) = length Q" and cl: "c \<le> length Q" using ok by (simp_all add: ring_ok_def)
  obtain E where E: "rotate (unat (txOut x)) (txQueue x) = map sent_mark (take c Q) @ drop c Q @ E" "free_slots E"
    using ok by (auto simp: ring_ok_def)
  have "length Q + length E = 5" using arg_cong [OF E(1), of length] cl l by simp
  then obtain e E' where E': "E = e # E'" using q by (cases E) auto
  have "rotate (unat (txOut x)) ((txQueue x)[unat (txIn x) := r]) =
      (map sent_mark (take c Q) @ drop c Q @ E)[length Q := r]"
    using rotate_update [of "length Q" "txQueue x" "unat (txOut x)"] l i q E(1) by simp
  also have "\<dots> = map sent_mark (take c (Q @ [r])) @ drop c (Q @ [r]) @ E'"
    using cl by (simp add: list_update_append E')
  finally have rot: "rotate (unat (txOut x)) ((txQueue x)[unat (txIn x) := r]) =
      map sent_mark (take c (Q @ [r])) @ drop c (Q @ [r]) @ E'" .
  have "unat (inc_idx (txIn x) 5) = (unat (txOut x) + length (Q @ [r])) mod 5"
    using unat_inc_idx [of "txIn x" 5] i by (simp add: mod_Suc_eq)
  moreover have "unat (txNo x + 1) = length (Q @ [r])" using no q by (simp add: unat_word_ariths)
  moreover have "free_slots E'" using E(2) E' by (simp add: free_slots_def)
  ultimately show ?thesis using ok rot r by (auto simp: ring_ok_def)
qed

lemma ring_out_slot:
  assumes ok: "ring_ok x Q c"
  shows "nth_opt (txQueue x) (unat (txOut x)) = Some (txQueue x ! unat (txOut x))"
    "Q = [] \<longleftrightarrow> txNo x = 0" "dataSize (txQueue x ! unat (txOut x)) \<noteq> 0 \<longleftrightarrow> c = 0 \<and> Q \<noteq> []"
    "0 < c \<Longrightarrow> txQueue x ! unat (txOut x) = sent_mark (hd Q)"
proof -
  have l: "length (txQueue x) = 5" and o5: "unat (txOut x) < 5" and cl: "c \<le> length Q"
    using ok by (simp_all add: ring_ok_def)
  then show "nth_opt (txQueue x) (unat (txOut x)) = Some (txQueue x ! unat (txOut x))" by simp
  show "Q = [] \<longleftrightarrow> txNo x = 0" using ok by (simp add: ring_ok_def flip: length_0_conv unat_eq_0)
  obtain E where E: "rotate (unat (txOut x)) (txQueue x) = map sent_mark (take c Q) @ drop c Q @ E" "free_slots E"
    using ok by (auto simp: ring_ok_def)
  have s: "txQueue x ! unat (txOut x) = (map sent_mark (take c Q) @ drop c Q @ E) ! 0"
    using ring_ok_slot [OF ok, of 0] o5 E(1) by simp
  show a: "0 < c \<Longrightarrow> txQueue x ! unat (txOut x) = sent_mark (hd Q)"
    using s cl by (cases Q; cases c) simp_all
  have e: "dataSize (E ! 0) = 0" if "Q = []"
  proof -
    have "length E = 5" using arg_cong [OF E(1), of length] that l by simp
    then show ?thesis using E(2) by (cases E) (simp_all add: free_slots_def)
  qed
  have q: "\<forall>r \<in> set Q. dataSize r \<noteq> 0" using ok by (simp add: ring_ok_def)
  show "dataSize (txQueue x ! unat (txOut x)) \<noteq> 0 \<longleftrightarrow> c = 0 \<and> Q \<noteq> []"
  proof (cases "c = 0")
    case True
    then show ?thesis using s e q by (cases Q) simp_all
  next
    case False
    then show ?thesis using a by (simp add: sent_mark_def)
  qed
qed

lemma ring_take:
  assumes ok: "ring_ok x Q c" and c: "0 < c"
  shows "ring_ok (x\<lparr>txNo := txNo x - 1, txOut := inc_idx (txOut x) 5,
    txQueue := (txQueue x)[unat (txOut x) := (txQueue x ! unat (txOut x))\<lparr>txCallback := NULL\<rparr>]\<rparr>) (tl Q) (c - 1)"
proof -
  have l: "length (txQueue x) = 5" and o5: "unat (txOut x) < 5" and cl: "c \<le> length Q"
    and no: "unat (txNo x) = length Q" using ok by (simp_all add: ring_ok_def)
  obtain r Q' where Q: "Q = r # Q'" using c cl by (cases Q) simp_all
  obtain k where k: "c = Suc k" using c by (cases c) simp_all
  obtain E where E: "rotate (unat (txOut x)) (txQueue x) = map sent_mark (take c Q) @ drop c Q @ E" "free_slots E"
    using ok by (auto simp: ring_ok_def)
  let ?m = "(sent_mark r)\<lparr>txCallback := NULL\<rparr>"
  have "rotate (unat (txOut x)) ((txQueue x)[unat (txOut x) := ?m]) = ?m # map sent_mark (take k Q') @ drop k Q' @ E"
    using rotate_update [of 0 "txQueue x" "unat (txOut x)" ?m] l o5 E(1) Q k by simp
  then have rot: "rotate (Suc (unat (txOut x))) ((txQueue x)[unat (txOut x) := ?m]) =
      map sent_mark (take k Q') @ drop k Q' @ E @ [?m]"
    by (simp only: rotate_Suc rotate1.simps append_Cons append_assoc)
  have inc: "unat (inc_idx (txOut x) 5) = Suc (unat (txOut x)) mod 5"
    using unat_inc_idx [of "txOut x" 5] o5 by simp
  have "rotate (unat (inc_idx (txOut x) 5)) ((txQueue x)[unat (txOut x) := ?m]) =
      map sent_mark (take k Q') @ drop k Q' @ E @ [?m]"
    unfolding inc using rot rotate_conv_mod [of "Suc (unat (txOut x))" "(txQueue x)[unat (txOut x) := ?m]"] l by simp
  moreover have "free_slots (E @ [?m])" using E(2) by (auto simp: free_slots_def sent_mark_def)
  moreover have "txQueue x ! unat (txOut x) = sent_mark r" using ring_out_slot(4) [OF ok c] Q by simp
  moreover have "unat (txNo x - 1) = length Q'" using no Q by (simp add: unat_sub_if_size word_size)
  moreover have "(Suc (unat (txOut x)) mod 5 + j) mod 5 = (unat (txOut x) + Suc j) mod 5" for j by (simp add: mod_simps)
  ultimately show ?thesis using ok Q k by (auto simp: ring_ok_def inc)
qed


section \<open>The ring of received bytes\<close>

text \<open>\<open>f\<close> bytes of a ring of 33 from position \<open>p\<close> on.\<close>

definition ring_read :: "bytes \<Rightarrow> ptr \<Rightarrow> nat \<Rightarrow> nat \<Rightarrow> u8 list" where
  "ring_read m base p f = map (\<lambda>k. the (m (base + of_nat ((p + k) mod 33)))) [0..<f]"

lemma length_ring_read [simp]: "length (ring_read m base p f) = f"
  by (simp add: ring_read_def)

lemma ring_addr_eq: "a < 33 \<Longrightarrow> b < 33 \<Longrightarrow> (base :: ptr) + of_nat a = base + of_nat b \<longleftrightarrow> a = b"
  by (simp add: of_nat_eq_iff_small)

lemma ring_read_push:
  assumes "f < 33"
  shows "ring_read (m(base + of_nat ((p + f) mod 33) \<mapsto> b)) base p (Suc f) = ring_read m base p f @ [b]"
proof -
  have "(p + k) mod 33 \<noteq> (p + f) mod 33" if "k < f" for k
    using mod_shift_eq [of k 33 f p] that assms by auto
  then have "base + of_nat ((p + k) mod 33) \<noteq> base + of_nat ((p + f) mod 33)" if "k < f" for k
    using ring_addr_eq [of "(p + k) mod 33" "(p + f) mod 33" base] that by simp
  then show ?thesis by (simp add: ring_read_def)
qed

lemma ring_read_pop: "ring_read m base (Suc p mod 33) f = tl (ring_read m base p (Suc f))"
proof -
  have "tl (ring_read m base p (Suc f)) = map (\<lambda>k. the (m (base + of_nat ((p + Suc k) mod 33)))) [0..<f]"
    by (simp add: ring_read_def map_upt_Suc del: upt_Suc)
  then show ?thesis by (simp add: ring_read_def mod_simps)
qed

lemma ring_read_hd: "p < 33 \<Longrightarrow> ring_read m base p (Suc f) = the (m (base + of_nat p)) # ring_read m base (Suc p mod 33) f"
  unfolding ring_read_pop by (simp add: ring_read_def map_upt_Suc del: upt_Suc)

lemma ring_read_cong: "(\<And>k. k < 33 \<Longrightarrow> m (base + of_nat k) = m' (base + of_nat k)) \<Longrightarrow> ring_read m base p f = ring_read m' base p f"
  by (simp add: ring_read_def)

text \<open>The bytes that wait to be read are the newest of the received ones \<open>H\<close>; with the bytes \<open>R\<close>
  that were read they are a part of what was received, in the same order, and all of it as long as
  no more bytes have come than a limit, the first parameter. The second one is a number of bytes
  that have been read or can be.\<close>

type_synonym rx_par = "nat \<times> nat"

definition rx_fill :: "serial \<Rightarrow> nat" where
  "rx_fill x = (unat (rxIn x) + 33 - unat (rxOut x)) mod 33"

definition rx_items :: "serial \<Rightarrow> bytes \<Rightarrow> u8 list" where
  "rx_items x m = ring_read m (rxBuffer x) (unat (rxOut x)) (rx_fill x)"

definition rx_ok :: "rx_par \<Rightarrow> u8 list \<Rightarrow> serial \<Rightarrow> uart_state \<Rightarrow> u8 list \<Rightarrow> bytes \<Rightarrow> bool" where
  "rx_ok K R x d H m \<longleftrightarrow> unat (rxIn x) < 33 \<and> unat (rxOut x) < 33 \<and>
     pRxData d = rxBuffer x + of_nat (unat (rxIn x)) \<and> rxSize d = 0 \<and>
     (\<exists>H'. H = H' @ rx_items x m) \<and> subseq (R @ rx_items x m) H \<and> fst K \<le> length R + 32 \<and>
     (length H \<le> fst K \<longrightarrow> R @ rx_items x m = H) \<and> snd K \<le> length R + rx_fill x"

lemma rx_fill_less [simp]: "rx_fill x < 33"
  by (simp add: rx_fill_def)

lemma rx_fill_in: "unat (rxIn x) < 33 \<Longrightarrow> unat (rxOut x) < 33 \<Longrightarrow> unat (rxIn x) = (unat (rxOut x) + rx_fill x) mod 33"
  by (auto simp: rx_fill_def mod_simps)

lemma rx_fillI:
  assumes "unat (rxOut x) < 33" "f < 33" "unat (rxIn x) = (unat (rxOut x) + f) mod 33"
  shows "rx_fill x = f"
  using assms mod_shift_eq [of "rx_fill x" 33 f "unat (rxOut x)"] rx_fill_in [of x] by auto

lemma rx_count_fill:
  assumes "unat (rxIn x) < 33" "unat (rxOut x) < 33"
  shows "unat (rx_count x) = rx_fill x"
proof -
  have u: "unat (ucast (w :: u8) :: u16) = unat w" for w by (rule unat_ucast_up) simp
  show ?thesis
  proof (cases "rxOut x \<le> rxIn x")
    case True
    then have le: "unat (rxOut x) \<le> unat (rxIn x)" by (simp add: word_le_nat_alt)
    then have "unat (ucast (rxIn x) - ucast (rxOut x) :: u16) = unat (rxIn x) - unat (rxOut x)"
      by (simp add: unat_sub_if_size u)
    moreover have "(unat (rxIn x) + 33 - unat (rxOut x)) mod 33 = unat (rxIn x) - unat (rxOut x)"
      using le assms by (simp add: mod_if)
    ultimately show ?thesis using True by (simp add: rx_count_def rx_fill_def)
  next
    case False
    then have lt: "unat (rxIn x) < unat (rxOut x)" by (simp add: word_le_nat_alt)
    have "unat (33 - ucast (rxOut x) :: u16) = 33 - unat (rxOut x)" using assms by (simp add: unat_sub_if_size u)
    then have "unat (33 - ucast (rxOut x) + ucast (rxIn x) :: u16) = 33 - unat (rxOut x) + unat (rxIn x)"
      using assms by (simp add: unat_word_ariths u)
    moreover have "(unat (rxIn x) + 33 - unat (rxOut x)) mod 33 = 33 - unat (rxOut x) + unat (rxIn x)" using lt assms by simp
    ultimately show ?thesis using False by (simp add: rx_count_def rx_fill_def)
  qed
qed


text \<open>A byte arrives: if the ring is full the oldest byte is dropped.\<close>

definition rx_advance :: "serial \<Rightarrow> serial" where
  "rx_advance x = (let x = x\<lparr>rxIn := inc_idx (rxIn x) gSMRxBufSize_c\<rparr> in
     if rxIn x = rxOut x then x\<lparr>rxOut := inc_idx (rxOut x) gSMRxBufSize_c\<rparr> else x)"

lemma rx_advance_frame [simp]:
  "rxBuffer (rx_advance x) = rxBuffer x" "serialType (rx_advance x) = serialType x"
  "serialChannel (rx_advance x) = serialChannel x" "rxCallback (rx_advance x) = rxCallback x"
  "txQueue (rx_advance x) = txQueue x" "txIn (rx_advance x) = txIn x" "txOut (rx_advance x) = txOut x"
  "txCurrent (rx_advance x) = txCurrent x" "txNo (rx_advance x) = txNo x" "state (rx_advance x) = state x"
  "events (rx_advance x) = events x"
  by (simp_all add: rx_advance_def Let_def)

lemma rx_advance_items:
  assumes "unat (rxIn x) < 33" "unat (rxOut x) < 33"
  shows "unat (rxIn (rx_advance x)) < 33" "unat (rxOut (rx_advance x)) < 33"
    "rx_items (rx_advance x) (m(rxBuffer x + of_nat (unat (rxIn x)) \<mapsto> b)) =
      (if rx_fill x = 32 then tl (rx_items x m) else rx_items x m) @ [b]"
proof -
  let ?f = "rx_fill x" and ?o = "unat (rxOut x)" and ?i = "unat (rxIn x)"
  let ?m = "m(rxBuffer x + of_nat (unat (rxIn x)) \<mapsto> b)" and ?x = "x\<lparr>rxIn := inc_idx (rxIn x) 33\<rparr>"
  have i: "?i = (?o + ?f) mod 33" using rx_fill_in assms by blast
  have ii: "unat (inc_idx (rxIn x) 33) = Suc ?i mod 33" using unat_inc_idx [of "rxIn x" 33] assms by simp
  have oi: "unat (inc_idx (rxOut x) 33) = Suc ?o mod 33" using unat_inc_idx [of "rxOut x" 33] assms by simp
  have push: "ring_read ?m (rxBuffer x) ?o (Suc ?f) = rx_items x m @ [b]"
    using ring_read_push [of ?f m "rxBuffer x" ?o b] unfolding rx_items_def i by simp
  have adv: "unat (inc_idx (rxIn x) 33) = (?o + Suc ?f) mod 33" unfolding ii i by (simp add: mod_Suc_eq)
  have full: "inc_idx (rxIn x) 33 = rxOut x \<longleftrightarrow> ?f = 32"
  proof -
    have "(?o + Suc ?f) mod 33 = ?o \<longleftrightarrow> (?o + Suc ?f) mod 33 = (?o + 33) mod 33" using assms(2) by simp
    also have "\<dots> \<longleftrightarrow> (?o + (Suc ?f mod 33)) mod 33 = (?o + 0) mod 33" by (simp add: mod_simps)
    also have "\<dots> \<longleftrightarrow> Suc ?f mod 33 = 0" using mod_shift_eq [of "Suc ?f mod 33" 33 0 ?o] by auto
    also have "\<dots> \<longleftrightarrow> ?f = 32" using rx_fill_less [of x] by (auto simp: mod_Suc)
    finally show ?thesis using adv by (simp add: word_unat_eq_iff)
  qed
  show "unat (rxIn (rx_advance x)) < 33" using assms(2) by (simp add: rx_advance_def Let_def ii)
  show "unat (rxOut (rx_advance x)) < 33" unfolding rx_advance_def Let_def using assms(2) by (auto simp: oi)
  show "rx_items (rx_advance x) ?m = (if ?f = 32 then tl (rx_items x m) else rx_items x m) @ [b]"
  proof (cases "?f = 32")
    case True
    let ?y = "?x\<lparr>rxOut := inc_idx (rxOut x) 33\<rparr>"
    have y: "rx_advance x = ?y" using True full by (simp add: rx_advance_def Let_def)
    have "rx_fill ?y = 32"
      by (rule rx_fillI) (simp_all add: oi adv True mod_simps)
    then have "rx_items ?y ?m = ring_read ?m (rxBuffer x) (Suc ?o mod 33) ?f" using True by (simp add: rx_items_def oi)
    also have "\<dots> = tl (rx_items x m @ [b])" using push by (simp add: ring_read_pop)
    finally show ?thesis using True y by (simp add: rx_items_def) (metis length_0_conv length_ring_read tl_append2 zero_neq_numeral)
  next
    case False
    have y: "rx_advance x = ?x" using False full by (simp add: rx_advance_def Let_def)
    have "Suc ?f < 33" using False rx_fill_less [of x] by linarith
    then have "rx_fill ?x = Suc ?f" using assms by (intro rx_fillI) (simp_all add: adv)
    then show ?thesis using False y push by (simp add: rx_items_def)
  qed
qed

lemma rx_ok_push:
  assumes ok: "rx_ok K R x d H m" and d: "pRxData d' = rxBuffer x + of_nat (unat (rxIn (rx_advance x)))" "rxSize d' = 0"
  shows "rx_ok K R (rx_advance x) d' (H @ [b]) (m(pRxData d \<mapsto> b))"
proof -
  have b: "unat (rxIn x) < 33" "unat (rxOut x) < 33" and p: "pRxData d = rxBuffer x + of_nat (unat (rxIn x))"
    and sub: "subseq (R @ rx_items x m) H" and K: "fst K \<le> length R + 32" "length H \<le> fst K \<longrightarrow> R @ rx_items x m = H"
      "snd K \<le> length R + rx_fill x"
    using ok by (simp_all add: rx_ok_def)
  obtain H' where H': "H = H' @ rx_items x m" using ok by (auto simp: rx_ok_def)
  note it = rx_advance_items(1,2) [OF b] rx_advance_items(3) [OF b, of m b]
  have len: "length (rx_items x m) = rx_fill x" by (simp add: rx_items_def)
  have "rx_fill (rx_advance x) = length (rx_items (rx_advance x) (m(rxBuffer x + of_nat (unat (rxIn x)) \<mapsto> b)))"
    by (simp add: rx_items_def)
  then have low: "snd K \<le> length R + rx_fill (rx_advance x)" unfolding it(3) using len K(3) by auto
  show ?thesis
  proof (cases "rx_fill x = 32")
    case True
    then obtain a xs where xs: "rx_items x m = a # xs" using len by (cases "rx_items x m") auto
    have "subseq (R @ xs) (R @ rx_items x m)" unfolding xs by (rule list_emb_append_mono) (auto intro: list_emb_Cons)
    then have "subseq (R @ xs) H" using sub by (rule subseq_order.trans)
    then have "subseq ((R @ xs) @ [b]) (H @ [b])" by (rule list_emb_append_mono) simp
    moreover have "\<not> length (H @ [b]) \<le> fst K"
    proof
      assume l: "length (H @ [b]) \<le> fst K"
      then have "length H = length R + 32" using K(2) len True by (metis Suc_leD length_append length_append_singleton)
      then show False using l K(1) by simp
    qed
    ultimately show ?thesis using it d K(1) low True H' xs by (simp add: rx_ok_def p)
  next
    case False
    have "subseq ((R @ rx_items x m) @ [b]) (H @ [b])" using sub by (rule list_emb_append_mono) simp
    then show ?thesis using it d K(1,2) low False H' by (simp add: rx_ok_def p)
  qed
qed

text \<open>A byte is read.\<close>

lemma rx_ok_pop:
  assumes ok: "rx_ok K R x d H m" and f: "rx_fill x \<noteq> 0"
  shows "rx_items x m = the (m (rxBuffer x + of_nat (unat (rxOut x)))) # rx_items (x\<lparr>rxOut := inc_idx (rxOut x) gSMRxBufSize_c\<rparr>) m"
    "rx_ok K (R @ [the (m (rxBuffer x + of_nat (unat (rxOut x))))]) (x\<lparr>rxOut := inc_idx (rxOut x) gSMRxBufSize_c\<rparr>) d H m"
    "Suc (rx_fill (x\<lparr>rxOut := inc_idx (rxOut x) gSMRxBufSize_c\<rparr>)) = rx_fill x"
proof -
  let ?y = "x\<lparr>rxOut := inc_idx (rxOut x) 33\<rparr>" and ?o = "unat (rxOut x)"
  have b: "unat (rxIn x) < 33" "?o < 33" using ok by (simp_all add: rx_ok_def)
  obtain k where k: "rx_fill x = Suc k" using f by (cases "rx_fill x") auto
  have k33: "k < 33" using k rx_fill_less [of x] by linarith
  have oi: "unat (inc_idx (rxOut x) 33) = Suc ?o mod 33" using unat_inc_idx [of "rxOut x" 33] b by simp
  have "unat (rxIn x) = (?o + Suc k) mod 33" using rx_fill_in [OF b] k by simp
  then have "rx_fill ?y = k" using k33 by (intro rx_fillI) (simp_all add: oi mod_simps)
  then show fill: "Suc (rx_fill ?y) = rx_fill x" using k by simp
  show items: "rx_items x m = the (m (rxBuffer x + of_nat ?o)) # rx_items ?y m"
    using ring_read_hd [OF b(2), of m "rxBuffer x" k] k \<open>rx_fill ?y = k\<close> by (simp add: rx_items_def oi)
  have "length R \<le> Suc (length R)" by simp
  then show "rx_ok K (R @ [the (m (rxBuffer x + of_nat ?o))]) ?y d H m"
    using ok items fill by (auto simp: rx_ok_def oi)
qed

lemma rx_ok_frame:
  assumes "rx_ok K R x d H m" "\<And>k. k < 33 \<Longrightarrow> m' (rxBuffer x + of_nat k) = m (rxBuffer x + of_nat k)"
    "rxBuffer y = rxBuffer x" "rxIn y = rxIn x" "rxOut y = rxOut x" "pRxData e = pRxData d" "rxSize e = rxSize d"
  shows "rx_ok K R y e H m'"
proof -
  have "rx_fill y = rx_fill x" using assms by (simp add: rx_fill_def)
  then have "rx_items y m' = rx_items x m" using ring_read_cong [of m' "rxBuffer x" m] assms by (simp add: rx_items_def)
  then show ?thesis using assms \<open>rx_fill y = rx_fill x\<close> by (simp add: rx_ok_def)
qed


section \<open>The event of the task\<close>

definition ev_ok :: "sm \<Rightarrow> bool" where
  "ev_ok s \<longleftrightarrow> objs_ok (osEvents (os s)) \<and> cur_ok (os s) \<and>
     (\<exists>e. live (mSMTaskEventId s) (osEvents (os s)) = Some e \<and>
       (ev_waitingTask e = NULL \<or> ev_waitingTask e \<in> dom (tcbs (tasks (os s)))))"

lemma set_event_ok:
  assumes "ev_ok s"
  shows "\<exists>o'. set_event f s = Some (s\<lparr>os := o'\<rparr>) \<and> ev_ok (s\<lparr>os := o'\<rparr>)"
proof -
  let ?id = "mSMTaskEventId s" and ?h = "osEvents (os s)"
  obtain e where ok: "objs_ok ?h" "cur_ok (os s)" and e: "live ?id ?h = Some e"
    "ev_waitingTask e = NULL \<or> ev_waitingTask e \<in> dom (tcbs (tasks (os s)))" using assms by (auto simp: ev_ok_def)
  let ?e = "e\<lparr>flags := flags e OR ucast f\<rparr>"
  obtain h where h: "obj_put ?id ?e ?h = Some h" "objs_ok h" "live ?id h = Some ?e"
    using live_put [OF ok(1) e(1), of ?e] by blast
  obtain t where t: "wake_task (ev_waitingTask e) (tasks (os s)) = Some t" "g_curTask t \<in> dom (tcbs t)"
    "dom (tcbs t) = dom (tcbs (tasks (os s)))" using wake_ok [OF ok(2) e(2)] by blast
  have "OSA_EventSet ?id (ucast f) (os s) = Some (osaStatus_Success, (os s)\<lparr>osEvents := h, tasks := t\<rparr>)"
    using live_get [OF ok(1) e(1)] h(1) t(1) by (simp add: OSA_EventSet_def)
  then show ?thesis using h(2,3) t e(2) ok(2)
    by (intro exI [of _ "(os s)\<lparr>osEvents := h, tasks := t\<rparr>"]) (simp add: set_event_def ev_ok_def cur_ok_def)
qed

lemma ev_ok_frame [simp]:
  "ev_ok (s\<lparr>mem := m\<rparr>) = ev_ok s" "ev_ok (s\<lparr>mSerials := xs\<rparr>) = ev_ok s" "ev_ok (s\<lparr>mDrvData := ds\<rparr>) = ev_ok s"
  "ev_ok (s\<lparr>lpuarts := us\<rparr>) = ev_ok s" "ev_ok (s\<lparr>irqs := q\<rparr>) = ev_ok s" "ev_ok (s\<lparr>calls := cs\<rparr>) = ev_ok s"
  "ev_ok (s\<lparr>taken := ts\<rparr>) = ev_ok s" "ev_ok (s\<lparr>txMntOngoing := b\<rparr>) = ev_ok s"
  by (simp_all add: ev_ok_def)

section \<open>The bytes on the line\<close>

text \<open>The bytes of a request, read from the memory as it was when the client made it; the buffers
  of the client lie at the addresses \<open>B\<close>, apart from the receive buffer.\<close>

definition msg_bytes :: "bytes \<Rightarrow> SerialMsg \<Rightarrow> u8 list" where
  "msg_bytes m0 r = map (\<lambda>k. the (m0 (pData r + of_nat k))) [0..<unat (dataSize r)]"

definition msg_ok :: "ptr set \<Rightarrow> SerialMsg \<Rightarrow> bool" where
  "msg_ok B r \<longleftrightarrow> pData r \<noteq> NULL \<and> dataSize r \<noteq> 0 \<and> (\<forall>k < unat (dataSize r). pData r + of_nat k \<in> B)"

definition mem_ok :: "bytes \<Rightarrow> ptr set \<Rightarrow> serial \<Rightarrow> bytes \<Rightarrow> bool" where
  "mem_ok m0 B x m \<longleftrightarrow> (\<forall>a \<in> B. m a = m0 a \<and> m a \<noteq> None) \<and>
     (\<forall>k < 33. rxBuffer x + of_nat k \<notin> B \<and> rxBuffer x + of_nat k \<in> dom m \<and> rxBuffer x + of_nat k \<noteq> NULL)"

lemma mem_ok_cong: "rxBuffer y = rxBuffer x \<Longrightarrow> mem_ok m0 B y m = mem_ok m0 B x m"
  by (simp add: mem_ok_def)

lemma mem_ok_upd:
  assumes "mem_ok m0 B x m" "p \<notin> B"
  shows "mem_ok m0 B x (m(p \<mapsto> b))"
proof -
  have "(m(p \<mapsto> b)) a = m0 a \<and> (m(p \<mapsto> b)) a \<noteq> None" if "a \<in> B" for a
  proof -
    have "a \<noteq> p" using assms(2) that by blast
    moreover have "m a = m0 a" "m a \<noteq> None" using assms(1) that unfolding mem_ok_def by blast+
    ultimately show ?thesis by simp
  qed
  then show ?thesis using assms(1) unfolding mem_ok_def by (metis domIff fun_upd_apply option.distinct(1))
qed

definition opt_list :: "'a option \<Rightarrow> 'a list" where
  "opt_list o' = (case o' of None \<Rightarrow> [] | Some b \<Rightarrow> [b])"

lemma opt_list_simps [simp]: "opt_list None = []" "opt_list (Some b) = [b]"
  by (simp_all add: opt_list_def)

abbreviation (input) sent_of :: "SerialMsg \<Rightarrow> uart_state \<Rightarrow> nat" where
  "sent_of r d \<equiv> unat (dataSize r) - unat (txSize d)"

text \<open>What is still to be handed to the peripheral, of the current request and of those after it.\<close>

definition rest_bytes :: "bytes \<Rightarrow> SerialMsg list \<Rightarrow> nat \<Rightarrow> uart_state \<Rightarrow> lpuart \<Rightarrow> u8 list" where
  "rest_bytes m0 Q c d u = (if TIE u then drop (sent_of (Q ! c) d) (msg_bytes m0 (Q ! c)) @
       concat (map (msg_bytes m0) (drop (Suc c) Q))
     else concat (map (msg_bytes m0) (drop c Q)))"

definition line_bytes :: "lpuart \<Rightarrow> u8 list" where
  "line_bytes u = line_out u @ opt_list (tx_shift u) @ opt_list (tx_data u)"

text \<open>How far the transmitter has to go, in ticks at most.\<close>

definition todo :: "bytes \<Rightarrow> SerialMsg list \<Rightarrow> nat \<Rightarrow> uart_state \<Rightarrow> lpuart \<Rightarrow> nat" where
  "todo m0 Q c d u = length (opt_list (tx_shift u)) + 2 * length (opt_list (tx_data u)) + 3 * length (rest_bytes m0 Q c d u)"

text \<open>The transmitter is busy with request \<open>c\<close> when its interrupt is enabled; otherwise the
  interface is idle, or claimed (\<open>cl\<close>) by a writer that is about to start it.\<close>

definition sender_ok :: "bool \<Rightarrow> serial \<Rightarrow> uart_state \<Rightarrow> lpuart \<Rightarrow> SerialMsg list \<Rightarrow> nat \<Rightarrow> bool" where
  "sender_ok cl x d u Q c \<longleftrightarrow> (if TIE u then c < length Q \<and> state x = 1 \<and> unat (txSize d) < unat (dataSize (Q ! c)) \<and>
       pTxData d = pData (Q ! c) + of_nat (sent_of (Q ! c) d)
     else txSize d = 0 \<and> state x = (if cl then 1 else 0))"

lemma line_bytes_tick [simp]: "line_bytes (lpuart_tick u) = line_bytes u"
  by (simp add: line_bytes_def lpuart_tick_def opt_list_def split: option.split)

lemma line_bytes_wait [simp]: "line_bytes (wait_tdre u) = line_bytes u" "tx_data (wait_tdre u) = None"
  "length (opt_list (tx_shift (wait_tdre u))) \<le> 1" "TIE (wait_tdre u) = TIE u" "RIE (wait_tdre u) = RIE u" "rx_data (wait_tdre u) = rx_data u" "line_in (wait_tdre u) = line_in u"
  by (simp_all add: wait_tdre_def) (simp_all add: lpuart_tick_def opt_list_def split: option.split)

lemma length_msg_bytes [simp]: "length (msg_bytes m0 r) = unat (dataSize r)"
  by (simp add: msg_bytes_def)

lemma load_msg:
  assumes "msg_ok B r" "mem_ok m0 B x m" "k < unat (dataSize r)"
  shows "load8 (pData r + of_nat k) m = Some (msg_bytes m0 r ! k)"
proof -
  have "pData r + of_nat k \<in> B" using assms(1,3) by (simp add: msg_ok_def)
  moreover have "\<forall>a \<in> B. m a = m0 a \<and> m a \<noteq> None" using assms(2) unfolding mem_ok_def by blast
  ultimately obtain b where "m (pData r + of_nat k) = Some b" "m0 (pData r + of_nat k) = Some b" by fastforce
  then show ?thesis using assms(3) by (simp add: load8_def msg_bytes_def)
qed


definition tx_ok :: "bytes \<Rightarrow> bool \<Rightarrow> serial \<Rightarrow> uart_state \<Rightarrow> lpuart \<Rightarrow> SerialMsg list \<Rightarrow> nat \<Rightarrow> u8 list \<Rightarrow> bool" where
  "tx_ok m0 cl x d u Q c out \<longleftrightarrow> ring_ok x Q c \<and> sender_ok cl x d u Q c \<and> line_bytes u @ rest_bytes m0 Q c d u = out"

lemma ring_ok_cong:
  "txQueue y = txQueue x \<Longrightarrow> txNo y = txNo x \<Longrightarrow> txOut y = txOut x \<Longrightarrow> txIn y = txIn x \<Longrightarrow> txCurrent y = txCurrent x \<Longrightarrow>
   ring_ok y Q c = ring_ok x Q c"
  by (simp add: ring_ok_def)

lemma tx_ok_frame:
  assumes "tx_ok m0 cl x d u Q c out" "txQueue y = txQueue x" "txNo y = txNo x" "txOut y = txOut x" "txIn y = txIn x"
    "txCurrent y = txCurrent x" "state y = state x" "txSize e = txSize d" "pTxData e = pTxData d"
    "TIE v = TIE u" "line_bytes v = line_bytes u"
  shows "tx_ok m0 cl y e v Q c out"
proof -
  have "ring_ok y Q c = ring_ok x Q c" by (rule ring_ok_cong) fact+
  moreover have "sender_ok cl y e v Q c = sender_ok cl x d u Q c" using assms(7-10) by (simp add: sender_ok_def)
  moreover have "rest_bytes m0 Q c e v = rest_bytes m0 Q c d u" using assms(7-10) by (simp add: rest_bytes_def)
  ultimately show ?thesis using assms(1,11) by (simp add: tx_ok_def)
qed

text \<open>The current request is started; its next byte is handed over; it is complete.\<close>

lemma tx_start:
  assumes ok: "tx_ok m0 cl x d u Q c out" and c: "c < length Q" and idle: "\<not> TIE u" and st: "state x = 1"
    and nz: "dataSize (Q ! c) \<noteq> 0"
    and v: "TIE v" "line_bytes v = line_bytes u @ [msg_bytes m0 (Q ! c) ! 0]"
    and e: "txSize e = ucast (dataSize (Q ! c)) - 1" "pTxData e = pData (Q ! c) + 1"
  shows "tx_ok m0 cl' x e v Q c out" "Suc (length (rest_bytes m0 Q c e v)) = length (rest_bytes m0 Q c d u)"
proof -
  let ?r = "Q ! c"
  have pos: "0 < unat (dataSize ?r)" using nz by (rule unat_pos)
  have "unat (ucast (dataSize ?r) :: u32) = unat (dataSize ?r)" by (rule unat_ucast_up) simp
  then have sz: "unat (txSize e) = unat (dataSize ?r) - 1" using pos e(1) by (simp add: unat_sub_if_size)
  have "msg_bytes m0 ?r = msg_bytes m0 ?r ! 0 # drop 1 (msg_bytes m0 ?r)"
    using pos Cons_nth_drop_Suc [of 0 "msg_bytes m0 ?r"] by simp
  then have rest: "[msg_bytes m0 ?r ! 0] @ rest_bytes m0 Q c e v = rest_bytes m0 Q c d u"
    using idle v(1) c pos sz by (simp add: rest_bytes_def Cons_nth_drop_Suc [symmetric])
  then show "tx_ok m0 cl' x e v Q c out" using ok v c st e(2) sz pos by (simp add: tx_ok_def sender_ok_def)
  show "Suc (length (rest_bytes m0 Q c e v)) = length (rest_bytes m0 Q c d u)" using arg_cong [OF rest, of length] by simp
qed

lemma tx_next:
  assumes ok: "tx_ok m0 cl x d u Q c out" and on: "TIE u" and sz: "txSize d \<noteq> 0"
    and v: "TIE v" "line_bytes v = line_bytes u @ [msg_bytes m0 (Q ! c) ! sent_of (Q ! c) d]"
    and e: "txSize e = txSize d - 1" "pTxData e = pTxData d + 1"
  shows "tx_ok m0 cl' x e v Q c out" "Suc (length (rest_bytes m0 Q c e v)) = length (rest_bytes m0 Q c d u)"
proof -
  let ?r = "Q ! c"
  have s: "unat (txSize d) < unat (dataSize ?r)" using ok on by (simp add: tx_ok_def sender_ok_def)
  have pos: "0 < unat (txSize d)" using sz by (rule unat_pos)
  then have e1: "unat (txSize e) = unat (txSize d) - 1" using e(1) by (simp add: unat_sub_if_size)
  then have se: "sent_of ?r e = Suc (sent_of ?r d)" using s pos by simp
  have "drop (sent_of ?r d) (msg_bytes m0 ?r) = msg_bytes m0 ?r ! sent_of ?r d # drop (sent_of ?r e) (msg_bytes m0 ?r)"
    unfolding se using s pos by (intro Cons_nth_drop_Suc [symmetric]) simp
  then have rest: "[msg_bytes m0 ?r ! sent_of ?r d] @ rest_bytes m0 Q c e v = rest_bytes m0 Q c d u"
    using on v(1) by (simp add: rest_bytes_def)
  moreover have "pTxData e = pData ?r + of_nat (sent_of ?r e)"
    unfolding se using ok on e(2) by (simp add: tx_ok_def sender_ok_def)
  ultimately show "tx_ok m0 cl' x e v Q c out" using ok on v s e1 by (simp add: tx_ok_def sender_ok_def)
  show "Suc (length (rest_bytes m0 Q c e v)) = length (rest_bytes m0 Q c d u)" using arg_cong [OF rest, of length] by simp
qed

lemma tx_done:
  assumes ok: "tx_ok m0 cl x d u Q c out" and on: "TIE u" and sz: "txSize d = 0"
    and v: "\<not> TIE v" "line_bytes v = line_bytes u"
  shows "tx_ok m0 False (x\<lparr>txQueue := (txQueue x)[unat (txCurrent x) := sent_mark (Q ! c)],
    txCurrent := inc_idx (txCurrent x) gSerialMgrTxQueueSize_c, state := 0\<rparr>) d v Q (Suc c) out"
    "rest_bytes m0 Q (Suc c) d v = rest_bytes m0 Q c d u"
proof -
  have c: "c < length Q" using ok on by (simp add: tx_ok_def sender_ok_def)
  then show rest: "rest_bytes m0 Q (Suc c) d v = rest_bytes m0 Q c d u" using on v(1) sz by (simp add: rest_bytes_def)
  then show "tx_ok m0 False (x\<lparr>txQueue := (txQueue x)[unat (txCurrent x) := sent_mark (Q ! c)],
    txCurrent := inc_idx (txCurrent x) gSerialMgrTxQueueSize_c, state := 0\<rparr>) d v Q (Suc c) out" using ok ring_sent [of x Q c 0] c v sz by (simp add: tx_ok_def sender_ok_def)
qed


section \<open>An interface at work\<close>

text \<open>The requests \<open>D\<close> were taken out of the ring and their callbacks called, the requests \<open>Q\<close> are
  in it. \<open>H\<close> is what was received and stored, \<open>R\<close> what the client read.\<close>

definition calls_of :: "SerialMsg list \<Rightarrow> (ptr \<times> ptr) list" where
  "calls_of D = map (\<lambda>r. (txCallback r, pTxParam r)) (filter (\<lambda>r. txCallback r \<noteq> NULL) D)"

definition log_ok :: "ptr set \<Rightarrow> SerialMsg list \<Rightarrow> SerialMsg list \<Rightarrow> sm \<Rightarrow> bool" where
  "log_ok B D Q s \<longleftrightarrow> taken s = map (Pair 0) (D @ Q) \<and> calls s = calls_of D \<and> (\<forall>r \<in> set (D @ Q). msg_ok B r)"

definition port_ok :: "u32 \<Rightarrow> bytes \<Rightarrow> ptr set \<Rightarrow> rx_par \<Rightarrow> u8 list \<Rightarrow> u8 list \<Rightarrow> bool \<Rightarrow> SerialMsg list \<Rightarrow> SerialMsg list \<Rightarrow> nat \<Rightarrow>
    serial \<Rightarrow> uart_state \<Rightarrow> lpuart \<Rightarrow> sm \<Rightarrow> bool" where
  "port_ok n m0 B K R H cl D Q c x d u s \<longleftrightarrow> wired n x d u s \<and> RIE u \<and>
     tx_ok m0 cl x d u Q c (concat (map (msg_bytes m0) (D @ Q))) \<and>
     rx_ok K R x d H (mem s) \<and> mem_ok m0 B x (mem s) \<and> ev_ok s \<and> log_ok B D Q s"

lemma port_okD:
  assumes "port_ok n m0 B K R H cl D Q c x d u s"
  shows "wired n x d u s" "RIE u" "tx_ok m0 cl x d u Q c (concat (map (msg_bytes m0) (D @ Q)))"
    "rx_ok K R x d H (mem s)" "mem_ok m0 B x (mem s)" "ev_ok s" "log_ok B D Q s" "ring_ok x Q c" "sender_ok cl x d u Q c"
  using assms by (simp_all add: port_ok_def tx_ok_def)

text \<open>What the program sees of itself is left alone by interrupts.\<close>

definition same_prog :: "sm \<Rightarrow> sm \<Rightarrow> bool" where
  "same_prog s s' \<longleftrightarrow> taken s' = taken s \<and> calls s' = calls s \<and> txMntOngoing s' = txMntOngoing s \<and> irqs s' = irqs s \<and>
     mSMTaskEventId s' = mSMTaskEventId s \<and> length (lpuarts s') = length (lpuarts s)"

lemma same_prog_refl [simp]: "same_prog s s"
  by (simp add: same_prog_def)

lemma same_prog_trans: "same_prog s t \<Longrightarrow> same_prog t w \<Longrightarrow> same_prog s w"
  by (simp add: same_prog_def)

lemma same_prog_upd [simp]:
  "same_prog s (t\<lparr>mSerials := xs\<rparr>) = same_prog s t" "same_prog s (t\<lparr>mDrvData := ds\<rparr>) = same_prog s t"
  "same_prog s (t\<lparr>os := o'\<rparr>) = same_prog s t" "same_prog s (t\<lparr>mem := m\<rparr>) = same_prog s t"
  "same_prog s (t\<lparr>lpuarts := (lpuarts t)[k := v]\<rparr>) = same_prog s t"
  "same_prog (t\<lparr>mSerials := xs\<rparr>) s = same_prog t s" "same_prog (t\<lparr>mDrvData := ds\<rparr>) s = same_prog t s"
  "same_prog (t\<lparr>os := o'\<rparr>) s = same_prog t s" "same_prog (t\<lparr>mem := m\<rparr>) s = same_prog t s"
  "same_prog (t\<lparr>lpuarts := (lpuarts t)[k := v]\<rparr>) s = same_prog t s"
  by (simp_all add: same_prog_def)

lemma log_ok_frame [simp]:
  "log_ok B D Q (s\<lparr>mSerials := xs\<rparr>) = log_ok B D Q s" "log_ok B D Q (s\<lparr>mDrvData := ds\<rparr>) = log_ok B D Q s"
  "log_ok B D Q (s\<lparr>os := o'\<rparr>) = log_ok B D Q s" "log_ok B D Q (s\<lparr>mem := m\<rparr>) = log_ok B D Q s"
  "log_ok B D Q (s\<lparr>lpuarts := us\<rparr>) = log_ok B D Q s" "log_ok B D Q (s\<lparr>irqs := q\<rparr>) = log_ok B D Q s"
  "log_ok B D Q (s\<lparr>txMntOngoing := b\<rparr>) = log_ok B D Q s"
  by (simp_all add: log_ok_def)

text \<open>The events do not matter.\<close>

lemma port_events:
  assumes "port_ok n m0 B K R H cl D Q c x d u s"
  shows "port_ok n m0 B K R H cl D Q c (x\<lparr>events := ev\<rparr>) d u (s\<lparr>mSerials := [x\<lparr>events := ev\<rparr>]\<rparr>)"
proof -
  note p = port_okD [OF assms]
  have "tx_ok m0 cl (x\<lparr>events := ev\<rparr>) d u Q c (concat (map (msg_bytes m0) (D @ Q)))"
    by (rule tx_ok_frame [OF p(3)]) simp_all
  moreover have "rx_ok K R (x\<lparr>events := ev\<rparr>) d H (mem s)" by (rule rx_ok_frame [OF p(4)]) simp_all
  moreover have "mem_ok m0 B (x\<lparr>events := ev\<rparr>) (mem s)" using mem_ok_cong [of "x\<lparr>events := ev\<rparr>" x] p(5) by simp
  ultimately show ?thesis using p wired_upd(1) [OF p(1), of "x\<lparr>events := ev\<rparr>"] by (simp add: port_ok_def)
qed

lemma port_set_event:
  assumes "port_ok n m0 B K R H cl D Q c x d u s"
  shows "\<exists>s'. set_event f s = Some s' \<and> port_ok n m0 B K R H cl D Q c x d u s' \<and> same_prog s s'"
proof -
  note p = port_okD [OF assms]
  obtain o' where "set_event f s = Some (s\<lparr>os := o'\<rparr>)" "ev_ok (s\<lparr>os := o'\<rparr>)" using set_event_ok [OF p(6)] by blast
  then show ?thesis using p wired_upd(4) [OF p(1), of o'] by (intro exI [of _ "s\<lparr>os := o'\<rparr>"]) (simp add: port_ok_def)
qed

text \<open>Starting the current request.\<close>

lemma send_start:
  assumes ok: "port_ok n m0 B K R H cl D Q c x d u s" and idle: "\<not> TIE u" and c: "c < length Q" and st: "state x = 1"
  shows "\<exists>e v s'. LPUART_SendData n (pData (Q ! c)) (ucast (dataSize (Q ! c))) s = Some (0, s') \<and>
    port_ok n m0 B K R H False D Q c x e v s' \<and> TIE v \<and> tx_data v \<noteq> None \<and> rx_data v = rx_data u \<and>
    line_in v = line_in u \<and> same_prog s s' \<and> todo m0 Q c e v \<le> todo m0 Q c d u"
proof -
  note p = port_okD [OF ok]
  let ?r = "Q ! c" and ?b = "msg_bytes m0 (Q ! c) ! 0"
  have r: "msg_ok B ?r" using p(7) c by (simp add: log_ok_def)
  then have nz: "pData ?r \<noteq> NULL" "dataSize ?r \<noteq> 0" by (simp_all add: msg_ok_def)
  have "load8 (pData ?r + of_nat 0) (mem s) = Some ?b" using load_msg [OF r p(5)] unat_pos [OF nz(2)] by blast
  then have b: "load8 (pData ?r) (mem s) = Some ?b" by simp
  have "unat (ucast (dataSize ?r) :: u32) = unat (dataSize ?r)" by (rule unat_ucast_up) simp
  then have sz: "(ucast (dataSize ?r) :: u32) \<noteq> 0" using unat_pos [OF nz(2)] by (metis less_irrefl unat_0)
  have txs: "txSize d = 0" using p(9) idle by (simp add: sender_ok_def)
  have n: "\<not> 4 \<le> n" using p(1) unfolding wired_def not_le by blast
  let ?v = "(wait_tdre u)\<lparr>tx_data := Some ?b, TIE := True\<rparr>"
  let ?e = "d\<lparr>pTxData := pData ?r + 1, txSize := ucast (dataSize ?r) - 1\<rparr>"
  let ?s = "s\<lparr>lpuarts := (lpuarts s)[unat n := ?v]\<rparr>"
  have w1: "wired n x d ?v ?s" using wired_upd(3) [OF p(1)] .
  have w2: "wired n x ?e ?v (?s\<lparr>mDrvData := [?e]\<rparr>)" by (rule wired_upd(2) [OF w1]) simp_all
  have run: "LPUART_SendData n (pData ?r) (ucast (dataSize ?r)) s = Some (0, ?s\<lparr>mDrvData := [?e]\<rparr>)"
    using n nz sz txs b wired_get [OF p(1)] wired_put(3) [OF p(1)] wired_put(2) [OF w1] by (simp add: LPUART_SendData_def)
  have "line_bytes ?v = line_bytes (wait_tdre u) @ [?b]" using line_bytes_wait(2) [of u] by (simp add: line_bytes_def)
  then have lb: "line_bytes ?v = line_bytes u @ [?b]" by simp
  have tx: "tx_ok m0 False x ?e ?v Q c (concat (map (msg_bytes m0) (D @ Q)))"
    "Suc (length (rest_bytes m0 Q c ?e ?v)) = length (rest_bytes m0 Q c d u)"
    by (rule tx_start [OF p(3) c idle st nz(2)], simp_all add: lb)+
  moreover have "rx_ok K R x ?e H (mem s)" by (rule rx_ok_frame [OF p(4)]) simp_all
  ultimately have "port_ok n m0 B K R H False D Q c x ?e ?v (?s\<lparr>mDrvData := [?e]\<rparr>)"
    using p w2 tx(1) by (simp add: port_ok_def)
  moreover have "todo m0 Q c ?e ?v \<le> todo m0 Q c d u" using tx(2) line_bytes_wait(3) [of u] by (simp add: todo_def)
  ultimately show ?thesis using run by (intro exI [of _ ?e] exI [of _ ?v] exI [of _ "?s\<lparr>mDrvData := [?e]\<rparr>"]) simp
qed


text \<open>A claimed interface with a request that waits starts it; without one it is let go. \<open>win\<close> is
  what may happen after the claim.\<close>

definition later :: "nat \<Rightarrow> sm \<Rightarrow> sm \<Rightarrow> bool" where
  "later k s s' \<longleftrightarrow> (\<exists>j \<le> k. irqs s' = drop j (irqs s))"

definition holds_claim :: "(sm \<Rightarrow> sm option) \<Rightarrow> nat \<Rightarrow> u32 \<Rightarrow> bytes \<Rightarrow> ptr set \<Rightarrow> rx_par \<Rightarrow> u8 list \<Rightarrow> SerialMsg list \<Rightarrow> SerialMsg list \<Rightarrow> nat \<Rightarrow> bool" where
  "holds_claim win k n m0 B K R D Q c \<longleftrightarrow> (\<forall>H x d u s. port_ok n m0 B K R H True D Q c x d u s \<and> \<not> TIE u \<and> rx_data u = None \<and> line_in u = H \<longrightarrow>
     (\<exists>H' x' d' u' s'. win s = Some s' \<and> port_ok n m0 B K R H' True D Q c x' d' u' s' \<and> \<not> TIE u' \<and> rx_data u' = None \<and>
       line_in u' = H' \<and> txMntOngoing s' = txMntOngoing s \<and> todo m0 Q c d' u' \<le> todo m0 Q c d u \<and> later k s s'))"

lemma holds_claimE:
  assumes "holds_claim win k n m0 B K R D Q c" "port_ok n m0 B K R H True D Q c x d u s" "\<not> TIE u" "rx_data u = None" "line_in u = H"
  obtains H' x' d' u' s' where "win s = Some s'" "port_ok n m0 B K R H' True D Q c x' d' u' s'" "\<not> TIE u'" "rx_data u' = None"
    "line_in u' = H'" "txMntOngoing s' = txMntOngoing s" "todo m0 Q c d' u' \<le> todo m0 Q c d u" "later k s s'"
  using assms unfolding holds_claim_def by blast

lemma holds_claim_Some: "holds_claim Some 0 n m0 B K R D Q c"
  unfolding holds_claim_def later_def by fastforce

lemma port_state:
  assumes ok: "port_ok n m0 B K R H cl D Q c x d u s" and idle: "\<not> TIE u"
  shows "port_ok n m0 B K R H cl' D Q c (x\<lparr>state := if cl' then 1 else 0\<rparr>) d u (s\<lparr>mSerials := [x\<lparr>state := if cl' then 1 else 0\<rparr>]\<rparr>)"
proof -
  note p = port_okD [OF ok]
  let ?x = "x\<lparr>state := if cl' then 1 else 0\<rparr>"
  have "ring_ok ?x Q c = ring_ok x Q c" by (rule ring_ok_cong) simp_all
  then have "tx_ok m0 cl' ?x d u Q c (concat (map (msg_bytes m0) (D @ Q)))"
    using p(3) idle by (simp add: tx_ok_def sender_ok_def)
  moreover have "rx_ok K R ?x d H (mem s)" by (rule rx_ok_frame [OF p(4)]) simp_all
  moreover have "mem_ok m0 B ?x (mem s)" using mem_ok_cong [of ?x x] p(5) by simp
  ultimately show ?thesis using p wired_upd(1) [OF p(1), of ?x] by (simp add: port_ok_def)
qed

lemma write_idle:
  assumes ok: "port_ok n m0 B K R H False D Q c x d u s" and idle: "\<not> TIE u" "rx_data u = None" "line_in u = H"
    and win: "holds_claim win k n m0 B K R D Q c"
  shows "\<exists>H' x' d' u' s'. Serial_WriteInternal win 0 s = Some (gSerial_Success_c, s') \<and>
    port_ok n m0 B K R H' False D Q c x' d' u' s' \<and> rx_data u' = None \<and> line_in u' = H' \<and>
    TIE u' = (c < length Q) \<and> (TIE u' \<longrightarrow> tx_data u' \<noteq> None) \<and> txMntOngoing s' = txMntOngoing s \<and>
    todo m0 Q c d' u' \<le> todo m0 Q c d u \<and> later k s s'"
proof -
  note p = port_okD [OF ok]
  have st: "state x = 0" using p(9) idle by (simp add: sender_ok_def)
  let ?s = "s\<lparr>mSerials := [x\<lparr>state := 1\<rparr>]\<rparr>"
  have "port_ok n m0 B K R H True D Q c (x\<lparr>state := 1\<rparr>) d u ?s" using port_state [OF ok idle(1), of True] by simp
  then obtain H1 x1 d1 u1 s1 where 1: "win ?s = Some s1" "port_ok n m0 B K R H1 True D Q c x1 d1 u1 s1" "\<not> TIE u1"
    "rx_data u1 = None" "line_in u1 = H1" "txMntOngoing s1 = txMntOngoing ?s" "todo m0 Q c d1 u1 \<le> todo m0 Q c d u" "later k ?s s1" using idle by (rule holds_claimE [OF win])
  note q = port_okD [OF 1(2)]
  have st1: "state x1 = 1" using q(9) 1(3) by (simp add: sender_ok_def)
  let ?m = "txQueue x1 ! unat (txCurrent x1)"
  have ty: "serialType x1 = gSerialMgrLpuart_c" "ucast (serialChannel x1) = n" using q(1) unfolding wired_def by blast+
  have m: "nth_opt (txQueue x1) (unat (txCurrent x1)) = Some ?m" by (rule ring_current(1) [OF q(8)])
  note run = Serial_WriteInternal_def wired_get(1) [OF p(1)] wired_get(1) [OF q(1)] wired_put(1) [OF p(1)] st 1(1) m ty
  show ?thesis
  proof (cases "c < length Q")
    case True
    have mq: "?m = Q ! c" by (rule ring_current(3) [OF q(8) True])
    have nz: "dataSize ?m \<noteq> 0" using q(7) True unfolding mq by (simp add: log_ok_def msg_ok_def)
    obtain e v s2 where 2: "LPUART_SendData n (pData ?m) (ucast (dataSize ?m)) s1 = Some (0, s2)"
      "port_ok n m0 B K R H1 False D Q c x1 e v s2" "TIE v" "tx_data v \<noteq> None" "rx_data v = rx_data u1" "line_in v = line_in u1"
      "same_prog s1 s2" "todo m0 Q c e v \<le> todo m0 Q c d1 u1" using send_start [OF 1(2,3) True st1] unfolding mq by blast
    have "Serial_WriteInternal win 0 s = Some (gSerial_Success_c, s2)" using nz 2(1) by (simp add: run)
    moreover have "txMntOngoing s2 = txMntOngoing s" "later k s s2" using 1(6,8) 2(7) by (simp_all add: same_prog_def later_def)
    ultimately show ?thesis using 2 1(4,5,7) True by (intro exI [of _ H1] exI [of _ x1] exI [of _ e] exI [of _ v] exI [of _ s2]) simp
  next
    case False
    have "c = length Q" using False q(8) by (simp add: ring_ok_def)
    then have z: "dataSize ?m = 0" by (rule ring_current(4) [OF q(8)])
    let ?s2 = "s1\<lparr>mSerials := [x1\<lparr>state := 0\<rparr>]\<rparr>"
    have "Serial_WriteInternal win 0 s = Some (gSerial_Success_c, ?s2)" using z wired_put(1) [OF q(1)] by (simp add: run)
    moreover have "port_ok n m0 B K R H1 False D Q c (x1\<lparr>state := 0\<rparr>) d1 u1 ?s2" using port_state [OF 1(2,3), of False] by simp
    moreover have "later k s ?s2" using 1(8) by (simp add: later_def)
    ultimately show ?thesis using 1(3-7) False
      by (intro exI [of _ H1] exI [of _ "x1\<lparr>state := 0\<rparr>"] exI [of _ d1] exI [of _ u1] exI [of _ ?s2]) simp
  qed
qed

text \<open>A busy interface is left to its interrupts.\<close>

lemma write_busy:
  assumes ok: "port_ok n m0 B K R H False D Q c x d u s" and busy: "TIE u"
  shows "Serial_WriteInternal win 0 s = Some (gSerial_Success_c, s)"
proof -
  note p = port_okD [OF ok]
  have "state x = 1" using p(9) busy by (simp add: sender_ok_def)
  then show ?thesis using wired_get(1) [OF p(1)] by (simp add: Serial_WriteInternal_def)
qed


section \<open>Interrupts\<close>

definition settled :: "lpuart \<Rightarrow> bool" where
  "settled u \<longleftrightarrow> rx_data u = None \<and> (TIE u \<longrightarrow> tx_data u \<noteq> None)"

lemma ucast_of_nat: "(ucast (w :: u8) :: ptr) = of_nat (unat w)"
  by simp

lemma rx_notify:
  assumes w: "wired n x d u s" and ev: "ev_ok s"
  shows "\<exists>ev o'. SerialManager_RxNotify 0 s = Some (s\<lparr>mSerials := [(rx_advance x)\<lparr>events := ev\<rparr>], os := o'\<rparr>) \<and> ev_ok (s\<lparr>os := o'\<rparr>)"
proof -
  let ?ev = "events x OR gSMGR_Rx_c"
  let ?s = "s\<lparr>mSerials := [(rx_advance x)\<lparr>events := ?ev\<rparr>]\<rparr>"
  have run: "SerialManager_RxNotify 0 s = (if events x = 0 then set_event gSMGR_Rx_c ?s else Some ?s)"
    using wired_get(1) [OF w] wired_put(1) [OF w] by (simp add: SerialManager_RxNotify_def rx_advance_def Let_def)
  have "ev_ok ?s" using ev by simp
  from set_event_ok [OF this, of gSMGR_Rx_c] obtain o' where "set_event gSMGR_Rx_c ?s = Some (?s\<lparr>os := o'\<rparr>)" "ev_ok (s\<lparr>os := o'\<rparr>)"
    by (auto simp: ev_ok_def)
  then show ?thesis
  proof (cases "events x = 0")
    case True
    then show ?thesis using run \<open>set_event gSMGR_Rx_c ?s = Some (?s\<lparr>os := o'\<rparr>)\<close> \<open>ev_ok (s\<lparr>os := o'\<rparr>)\<close>
      by (intro exI [of _ ?ev] exI [of _ o']) simp
  next
    case False
    then show ?thesis using run ev by (intro exI [of _ ?ev] exI [of _ "os s"]) simp
  qed
qed

lemma isr_receive:
  assumes ok: "port_ok n m0 B K R H cl D Q c x d u s" and b: "rx_data u = Some b"
  shows "\<exists>x' d' s'. ISR_receive uart_callback n s = Some s' \<and>
    port_ok n m0 B K R (H @ [b]) cl D Q c x' d' (u\<lparr>rx_data := None\<rparr>) s' \<and> same_prog s s' \<and> txSize d' = txSize d"
proof -
  note p = port_okD [OF ok]
  let ?u = "u\<lparr>rx_data := None\<rparr>" and ?i = "unat (rxIn x)"
  let ?s1 = "s\<lparr>lpuarts := (lpuarts s)[unat n := ?u]\<rparr>"
  have rx: "?i < 33" "pRxData d = rxBuffer x + of_nat ?i" "rxSize d = 0" using p(4) by (simp_all add: rx_ok_def)
  have slot: "rxBuffer x + of_nat ?i \<notin> B" "rxBuffer x + of_nat ?i \<in> dom (mem s)" "pRxData d \<noteq> NULL"
    using p(5) rx unfolding mem_ok_def by auto
  let ?m = "(mem s)(pRxData d \<mapsto> b)" and ?d1 = "d\<lparr>pRxData := pRxData d + 1\<rparr>"
  have st: "store8 (pRxData d) b (mem s) = Some ?m" using slot rx by (simp add: store8_def)
  let ?s2 = "?s1\<lparr>mem := ?m\<rparr>"
  let ?s3 = "?s2\<lparr>mDrvData := [?d1]\<rparr>"
  have w1: "wired n x d ?u ?s1" using wired_upd(3) [OF p(1)] .
  have w2: "wired n x d ?u ?s2" using wired_upd(5) [OF w1] .
  have w3: "wired n x ?d1 ?u ?s3" by (rule wired_upd(2) [OF w2]) simp_all
  have "ev_ok ?s3" using p(6) by simp
  from rx_notify [OF w3 this] obtain ev o' where
    n: "SerialManager_RxNotify 0 ?s3 = Some (?s3\<lparr>mSerials := [(rx_advance x)\<lparr>events := ev\<rparr>], os := o'\<rparr>)" "ev_ok (?s3\<lparr>os := o'\<rparr>)"
    by blast
  let ?x = "(rx_advance x)\<lparr>events := ev\<rparr>"
  let ?s4 = "?s3\<lparr>mSerials := [?x], os := o'\<rparr>"
  let ?d = "?d1\<lparr>pRxData := rxBuffer x + ucast (rxIn (rx_advance x))\<rparr>"
  have w4: "wired n ?x ?d1 ?u ?s4" using wired_upd(4) [OF wired_upd(1) [OF w3, of ?x]] by simp
  have w5: "wired n ?x ?d ?u (?s4\<lparr>mDrvData := [?d]\<rparr>)" by (rule wired_upd(2) [OF w4]) simp_all
  have cb: "rxCb d = 1" "rxCbParam d = 0" using p(1) unfolding wired_def by blast+
  have "uart_callback 1 0 ?s3 = Some (?s4\<lparr>mDrvData := [?d]\<rparr>)"
    using wired_get(5) [OF w3] wired_get(1,5) [OF w4] wired_put(4) [OF w4] n(1) cb by (simp add: uart_callback_def Serial_UartRxCb_def)
  then have run: "ISR_receive uart_callback n s = Some (?s4\<lparr>mDrvData := [?d]\<rparr>)"
    using b wired_get [OF p(1)] wired_put(3) [OF p(1)] wired_get [OF w1] wired_put(2) [OF w2] wired_get(4) [OF w3] rx(3) slot(3) st cb
    by (simp add: ISR_receive_def)
  have "rx_ok K R (rx_advance x) ?d (H @ [b]) ?m"
    by (rule rx_ok_push [OF p(4)]) (simp_all add: rx(3))
  then have "rx_ok K R ?x ?d (H @ [b]) ?m" by (rule rx_ok_frame) simp_all
  moreover have "mem_ok m0 B ?x ?m" using mem_ok_upd [OF p(5), of "pRxData d" b] mem_ok_cong [of ?x x] slot(1) rx(2) by simp
  moreover have "tx_ok m0 cl ?x ?d ?u Q c (concat (map (msg_bytes m0) (D @ Q)))"
    by (rule tx_ok_frame [OF p(3)]) (simp_all add: line_bytes_def)
  moreover have "ev_ok (?s4\<lparr>mDrvData := [?d]\<rparr>)" using n(2) by (simp add: ev_ok_def)
  ultimately have "port_ok n m0 B K R (H @ [b]) cl D Q c ?x ?d ?u (?s4\<lparr>mDrvData := [?d]\<rparr>)"
    using p(2,7) w5 by (simp add: port_ok_def)
  then show ?thesis using run by (intro exI [of _ ?x] exI [of _ ?d] exI [of _ "?s4\<lparr>mDrvData := [?d]\<rparr>"]) simp
qed


text \<open>The end of a request: the next one is started, if there is one.\<close>

lemma tx_notify:
  assumes ok: "port_ok n m0 B K R H cl D Q c x d u s" and on: "TIE u" and sz: "txSize d = 0"
    and rx: "rx_data u = None" "line_in u = H"
  defines "v \<equiv> u\<lparr>TIE := False\<rparr>"
  shows "\<exists>H' x' d' u' s'. SerialManager_TxNotify 0 (s\<lparr>lpuarts := (lpuarts s)[unat n := v]\<rparr>) = Some s' \<and>
    port_ok n m0 B K R H' False D Q (Suc c) x' d' u' s' \<and> settled u' \<and> line_in u' = H' \<and> TIE u' = (Suc c < length Q) \<and>
    txMntOngoing s' = txMntOngoing s \<and> todo m0 Q (Suc c) d' u' \<le> todo m0 Q c d u \<and> later 0 s s'"
proof -
  note p = port_okD [OF ok]
  have c: "c < length Q" using p(9) on by (simp add: sender_ok_def)
  let ?x = "x\<lparr>txQueue := (txQueue x)[unat (txCurrent x) := sent_mark (Q ! c)],
    txCurrent := inc_idx (txCurrent x) gSerialMgrTxQueueSize_c, state := 0\<rparr>"
  let ?s1 = "s\<lparr>lpuarts := (lpuarts s)[unat n := v]\<rparr>"
  let ?s2 = "?s1\<lparr>mSerials := [?x]\<rparr>"
  have w1: "wired n x d v ?s1" using wired_upd(3) [OF p(1)] .
  have w2: "wired n ?x d v ?s2" by (rule wired_upd(1) [OF w1]) simp_all
  note dn = tx_done [OF p(3) on sz, of v]
  have vb: "\<not> TIE v" "line_bytes v = line_bytes u" by (simp_all add: v_def line_bytes_def)
  have "rx_ok K R ?x d H (mem s)" by (rule rx_ok_frame [OF p(4)]) simp_all
  moreover have "mem_ok m0 B ?x (mem s)" using mem_ok_cong [of ?x x] p(5) by simp
  ultimately have ok2: "port_ok n m0 B K R H False D Q (Suc c) ?x d v ?s2"
    using w2 dn(1) [OF vb] p(2,6,7) by (simp add: port_ok_def v_def)
  have rest: "rest_bytes m0 Q (Suc c) d v = rest_bytes m0 Q c d u" by (rule dn(2) [OF vb])
  then have todo: "todo m0 Q (Suc c) d v = todo m0 Q c d u" by (simp add: todo_def v_def)
  have vrx: "rx_data v = None" "line_in v = H" using rx by (simp_all add: v_def)
  obtain H' x' d' u' s3 where 3: "Serial_WriteInternal Some 0 ?s2 = Some (gSerial_Success_c, s3)"
    "port_ok n m0 B K R H' False D Q (Suc c) x' d' u' s3" "rx_data u' = None" "line_in u' = H'"
    "TIE u' = (Suc c < length Q)" "TIE u' \<longrightarrow> tx_data u' \<noteq> None" "txMntOngoing s3 = txMntOngoing ?s2"
    "todo m0 Q (Suc c) d' u' \<le> todo m0 Q (Suc c) d v" "later 0 ?s2 s3"
    using write_idle [OF ok2 vb(1) vrx holds_claim_Some] by blast
  note q2 = port_okD [OF ok2]
  let ?m = "txQueue ?x ! unat (txCurrent ?x)"
  have m: "nth_opt (txQueue ?x) (unat (txCurrent ?x)) = Some ?m" by (rule ring_current(1) [OF q2(8)])
  have mx: "nth_opt (txQueue x) (unat (txCurrent x)) = Some (Q ! c)"
    using ring_current(1,3) [OF p(8)] c by simp
  have more: "dataSize ?m \<noteq> 0 \<longleftrightarrow> Suc c < length Q"
  proof (cases "Suc c < length Q")
    case True
    then have "msg_ok B (Q ! Suc c)" using p(7) by (simp add: log_ok_def)
    then show ?thesis using True ring_current(3) [OF q2(8) True] by (simp add: msg_ok_def)
  next
    case False
    then have "Suc c = length Q" using c by simp
    then show ?thesis using ring_current(4) [OF q2(8)] by simp
  qed
  have ty: "serialType x = gSerialMgrLpuart_c" using p(1) unfolding wired_def by blast
  \<comment> \<open>the state after the possible start of the next request\<close>
  obtain H4 x4 d4 u4 s4 where 4: "(if dataSize ?m \<noteq> 0 then do { (st, s) \<leftarrow> Serial_WriteInternal Some 0 ?s2; Some s } else Some ?s2) = Some s4"
    "port_ok n m0 B K R H4 False D Q (Suc c) x4 d4 u4 s4" "settled u4" "line_in u4 = H4" "TIE u4 = (Suc c < length Q)"
    "txMntOngoing s4 = txMntOngoing s" "todo m0 Q (Suc c) d4 u4 \<le> todo m0 Q c d u" "later 0 s s4"
  proof (cases "dataSize ?m \<noteq> 0")
    case True
    have "settled u'" using 3(3,6) by (simp add: settled_def)
    moreover have "later 0 s s3" "txMntOngoing s3 = txMntOngoing s" using 3(7,9) by (simp_all add: later_def)
    ultimately show thesis using that [of s3 H' x' d' u'] 3 True todo by simp
  next
    case False
    have "settled v" using vrx vb(1) by (simp add: settled_def)
    then show thesis using that [of ?s2 H ?x d v] False ok2 vrx todo more vb(1) by (simp add: later_def)
  qed
  note q4 = port_okD [OF 4(2)]
  let ?x5 = "x4\<lparr>events := events x4 OR gSMGR_TxDone_c\<rparr>"
  let ?s5 = "s4\<lparr>mSerials := [?x5]\<rparr>"
  have sm: "(Q ! c)\<lparr>dataSize := 0\<rparr> = sent_mark (Q ! c)" by (simp add: sent_mark_def)
  have "SerialManager_TxNotify 0 ?s1 = (if events x4 AND gSMGR_TxDone_c = 0 then set_event gSMGR_TxDone_c ?s5 else Some s4)"
    using wired_get(1) [OF w1] wired_put(1) [OF w1] mx m ty 4(1) wired_get(1) [OF q4(1)] wired_put(1) [OF q4(1)]
    unfolding SerialManager_TxNotify_def by (simp add: Let_def sm cong: if_cong split del: if_split)
  moreover have "port_ok n m0 B K R H4 False D Q (Suc c) ?x5 d4 u4 ?s5" by (rule port_events [OF 4(2)])
  then obtain s6 where "set_event gSMGR_TxDone_c ?s5 = Some s6" "port_ok n m0 B K R H4 False D Q (Suc c) ?x5 d4 u4 s6" "same_prog ?s5 s6"
    using port_set_event by blast
  ultimately show ?thesis
  proof (cases "events x4 AND gSMGR_TxDone_c = 0")
    case True
    have "later 0 s s6" "txMntOngoing s6 = txMntOngoing s"
      using \<open>same_prog ?s5 s6\<close> 4(6,8) by (simp_all add: same_prog_def later_def)
    then show ?thesis using \<open>set_event gSMGR_TxDone_c ?s5 = Some s6\<close> \<open>port_ok n m0 B K R H4 False D Q (Suc c) ?x5 d4 u4 s6\<close>
        \<open>SerialManager_TxNotify 0 ?s1 = _\<close> True 4(3-5,7) by (intro exI [of _ H4] exI [of _ ?x5] exI [of _ d4] exI [of _ u4] exI [of _ s6]) simp
  next
    case False
    then show ?thesis using \<open>SerialManager_TxNotify 0 ?s1 = _\<close> 4
      by (intro exI [of _ H4] exI [of _ x4] exI [of _ d4] exI [of _ u4] exI [of _ s4]) simp
  qed
qed


text \<open>An interface is sending while there are bytes in its peripheral.\<close>

definition line_busy :: "lpuart \<Rightarrow> bool" where
  "line_busy u \<longleftrightarrow> tx_shift u \<noteq> None \<or> tx_data u \<noteq> None"

text \<open>What an interrupt leaves behind.\<close>

definition after_irq :: "u32 \<Rightarrow> bytes \<Rightarrow> ptr set \<Rightarrow> rx_par \<Rightarrow> u8 list \<Rightarrow> bool \<Rightarrow> SerialMsg list \<Rightarrow> SerialMsg list \<Rightarrow> nat \<Rightarrow> nat \<Rightarrow>
    bool \<Rightarrow> bool \<Rightarrow> sm \<Rightarrow> sm \<Rightarrow> bool" where
  "after_irq n m0 B K R cl D Q c bound busy keep s s' \<longleftrightarrow> (\<exists>H c' x d u. port_ok n m0 B K R H cl D Q c' x d u s' \<and> settled u \<and> line_in u = H \<and>
     (\<not> busy \<longrightarrow> \<not> TIE u \<and> c' = c) \<and> (busy \<longrightarrow> TIE u \<or> c' = length Q) \<and> (keep \<longrightarrow> line_busy u) \<and> todo m0 Q c' d u \<le> bound \<and> txMntOngoing s' = txMntOngoing s \<and> later 0 s s')"

lemma after_irqI:
  "port_ok n m0 B K R H cl D Q c' x d u s' \<Longrightarrow> settled u \<Longrightarrow> line_in u = H \<Longrightarrow> (\<not> busy \<Longrightarrow> \<not> TIE u \<and> c' = c) \<Longrightarrow>
   (busy \<Longrightarrow> TIE u \<or> c' = length Q) \<Longrightarrow>
   (keep \<Longrightarrow> line_busy u) \<Longrightarrow>
   todo m0 Q c' d u \<le> bound \<Longrightarrow> txMntOngoing s' = txMntOngoing s \<Longrightarrow> later 0 s s' \<Longrightarrow>
   after_irq n m0 B K R cl D Q c bound busy keep s s'"
  unfolding after_irq_def by blast

lemma after_irq_weaken:
  assumes a: "after_irq n m0 B K R cl D Q c b busy keep s s'" and "b \<le> b'" "busy' = busy" "keep' \<longrightarrow> keep"
    "irqs t = irqs s" "txMntOngoing t = txMntOngoing s"
  shows "after_irq n m0 B K R cl D Q c b' busy' keep' t s'"
proof -
  obtain H c' x d u where "port_ok n m0 B K R H cl D Q c' x d u s'" "settled u" "line_in u = H"
    "\<not> busy \<longrightarrow> \<not> TIE u \<and> c' = c" "busy \<longrightarrow> TIE u \<or> c' = length Q" "keep \<longrightarrow> line_busy u" "todo m0 Q c' d u \<le> b" "txMntOngoing s' = txMntOngoing s" "later 0 s s'"
    using a unfolding after_irq_def by blast
  then show ?thesis using assms(2-) by (intro after_irqI [of n m0 B K R H cl D Q c' x d u]) (auto simp: later_def)
qed

lemma port_lpuart:
  assumes ok: "port_ok n m0 B K R H cl D Q c x d u s" and v: "RIE v = RIE u" "TIE v = TIE u" "line_bytes v = line_bytes u"
  shows "port_ok n m0 B K R H cl D Q c x d v (s\<lparr>lpuarts := (lpuarts s)[unat n := v]\<rparr>)"
proof -
  note p = port_okD [OF ok]
  have "tx_ok m0 cl x d v Q c (concat (map (msg_bytes m0) (D @ Q)))" by (rule tx_ok_frame [OF p(3)]) (simp_all add: v)
  then show ?thesis using p wired_upd(3) [OF p(1), of v] v by (simp add: port_ok_def)
qed

lemma isr_transmit:
  assumes ok: "port_ok n m0 B K R H cl D Q c x d u s" and rx: "rx_data u = None" "line_in u = H" and cl: "cl \<longrightarrow> \<not> TIE u"
  shows "\<exists>s'. ISR_transmit uart_callback (TIE u) n s = Some s' \<and>
    after_irq n m0 B K R cl D Q c (todo m0 Q c d u) (TIE u) ((TIE u \<longrightarrow> tx_data u \<noteq> None) \<and> line_busy u) s s'"
proof -
  note p = port_okD [OF ok]
  note get = wired_get(2,3,4) [OF p(1)]
  show ?thesis
  proof (cases "TIE u")
    case False
    have "txSize d = 0" using p(9) False by (simp add: sender_ok_def)
    then have "ISR_transmit uart_callback (TIE u) n s = Some s" using False get by (simp add: ISR_transmit_def)
    moreover have "after_irq n m0 B K R cl D Q c (todo m0 Q c d u) (TIE u) ((TIE u \<longrightarrow> tx_data u \<noteq> None) \<and> line_busy u) s s"
      by (rule after_irqI [OF ok]) (simp_all add: rx False settled_def later_def)
    ultimately show ?thesis by blast
  next
    case True
    have cl: "\<not> cl" using cl True by blast
    have c: "c < length Q" using p(9) True by (simp add: sender_ok_def)
    show ?thesis
    proof (cases "tx_data u")
      case (Some a)
      have "u\<lparr>TIE := True\<rparr> = u" using True by simp
      then have same: "s\<lparr>lpuarts := (lpuarts s)[unat n := u\<lparr>TIE := True\<rparr>]\<rparr> = s"
        using p(1) unfolding wired_def by (metis (no_types, lifting) list_update_id sm.surjective uart_io.surjective uart_io.update_convs(4))
      have "ISR_transmit uart_callback (TIE u) n s = Some s"
        using Some get wired_put(3) [OF p(1)] same by (simp add: ISR_transmit_def)
      moreover have "after_irq n m0 B K R cl D Q c (todo m0 Q c d u) (TIE u) ((TIE u \<longrightarrow> tx_data u \<noteq> None) \<and> line_busy u) s s"
        by (rule after_irqI [OF ok]) (simp_all add: rx True Some settled_def later_def)
      ultimately show ?thesis by blast
    next
      case None
      show ?thesis
      proof (cases "txSize d = 0")
        case True
        have cb: "txCb d = 2" "txCbParam d = 0" using p(1) unfolding wired_def by blast+
        let ?s1 = "s\<lparr>lpuarts := (lpuarts s)[unat n := u\<lparr>TIE := False\<rparr>]\<rparr>"
        have w1: "wired n x d (u\<lparr>TIE := False\<rparr>) ?s1" using wired_upd(3) [OF p(1)] .
        obtain H' x' d' u' s' where n: "SerialManager_TxNotify 0 ?s1 = Some s'"
          "port_ok n m0 B K R H' False D Q (Suc c) x' d' u' s'" "settled u'" "line_in u' = H'"
          "txMntOngoing s' = txMntOngoing s" "todo m0 Q (Suc c) d' u' \<le> todo m0 Q c d u" "later 0 s s'"
          "TIE u' = (Suc c < length Q)"
          using tx_notify [OF ok \<open>TIE u\<close> True rx] by blast
        have "ISR_transmit uart_callback (TIE u) n s = Some s'"
          using None \<open>TIE u\<close> True get wired_put(3) [OF p(1)] wired_get(4,5) [OF w1] cb n(1)
          by (simp add: ISR_transmit_def uart_callback_def Serial_UartTxCb_def)
        moreover have "after_irq n m0 B K R cl D Q c (todo m0 Q c d u) (TIE u) ((TIE u \<longrightarrow> tx_data u \<noteq> None) \<and> line_busy u) s s'"
          using n cl \<open>TIE u\<close> None c by (intro after_irqI [of n m0 B K R H' cl D Q "Suc c" x' d' u' s']) auto
        ultimately show ?thesis by blast
      next
        case False
        let ?r = "Q ! c" and ?b = "msg_bytes m0 (Q ! c) ! sent_of (Q ! c) d"
        have r: "msg_ok B ?r" using p(7) c by (simp add: log_ok_def)
        have lt: "unat (txSize d) < unat (dataSize ?r)" and pt: "pTxData d = pData ?r + of_nat (sent_of ?r d)"
          using p(9) \<open>TIE u\<close> by (simp_all add: sender_ok_def)
        have "0 < unat (txSize d)" using False by (rule unat_pos)
        then have ld: "load8 (pTxData d) (mem s) = Some ?b"
          unfolding pt using lt by (intro load_msg [OF r p(5)]) linarith
        let ?e = "d\<lparr>txSize := txSize d - 1, pTxData := pTxData d + 1\<rparr>" and ?v = "u\<lparr>tx_data := Some ?b, TIE := True\<rparr>"
        let ?s1 = "s\<lparr>mDrvData := [?e]\<rparr>"
        let ?s2 = "?s1\<lparr>lpuarts := (lpuarts s)[unat n := ?v]\<rparr>"
        have w1: "wired n x ?e u ?s1" by (rule wired_upd(2) [OF p(1)]) simp_all
        have w2: "wired n x ?e ?v ?s2" using wired_upd(3) [OF w1, of ?v] by simp
        have run: "ISR_transmit uart_callback (TIE u) n s = Some ?s2"
          using None \<open>TIE u\<close> False get ld wired_put(2) [OF p(1)] wired_put(3) [OF w1] by (simp add: ISR_transmit_def)
        have lb: "line_bytes ?v = line_bytes u @ [?b]" using None by (simp add: line_bytes_def)
        have tx: "tx_ok m0 False x ?e ?v Q c (concat (map (msg_bytes m0) (D @ Q)))"
          "Suc (length (rest_bytes m0 Q c ?e ?v)) = length (rest_bytes m0 Q c d u)"
          by (rule tx_next [OF p(3) \<open>TIE u\<close> False], simp_all add: lb)+
        have "rx_ok K R x ?e H (mem s)" by (rule rx_ok_frame [OF p(4)]) simp_all
        then have "port_ok n m0 B K R H cl D Q c x ?e ?v ?s2" using p w2 tx(1) cl by (simp add: port_ok_def)
        then have "after_irq n m0 B K R cl D Q c (todo m0 Q c d u) (TIE u) ((TIE u \<longrightarrow> tx_data u \<noteq> None) \<and> line_busy u) s ?s2"
          by (rule after_irqI) (use rx \<open>TIE u\<close> tx(2) None in \<open>simp_all add: settled_def later_def todo_def\<close>)
        then show ?thesis using run by blast
      qed
    qed
  qed
qed


lemma isr:
  assumes ok: "port_ok n m0 B K R H cl D Q c x d u s" and rx: "line_in u = H @ opt_list (rx_data u)" and cl: "cl \<longrightarrow> \<not> TIE u"
  shows "\<exists>s'. LPUART_Common_ISR uart_callback n s = Some s' \<and> after_irq n m0 B K R cl D Q c (todo m0 Q c d u) (TIE u) ((TIE u \<longrightarrow> tx_data u \<noteq> None) \<and> line_busy u) s s'"
proof -
  note p = port_okD [OF ok]
  obtain H1 x1 d1 u1 s1 where 1: "ISR_receive uart_callback n s = Some s1" "port_ok n m0 B K R H1 cl D Q c x1 d1 u1 s1"
    "u1 = u\<lparr>rx_data := None\<rparr>" "line_in u1 = H1" "txMntOngoing s1 = txMntOngoing s" "later 0 s s1" "todo m0 Q c d1 u1 = todo m0 Q c d u"
  proof (cases "rx_data u")
    case None
    then have "u\<lparr>rx_data := None\<rparr> = u" by simp
    then show thesis using that [of s H x d u] None ok rx wired_get(3) [OF p(1)] by (simp add: ISR_receive_def later_def)
  next
    case (Some b)
    obtain x' d' s' where r: "ISR_receive uart_callback n s = Some s'"
      "port_ok n m0 B K R (H @ [b]) cl D Q c x' d' (u\<lparr>rx_data := None\<rparr>) s'" "same_prog s s'" "txSize d' = txSize d"
      using isr_receive [OF ok Some] by blast
    then have "todo m0 Q c d' (u\<lparr>rx_data := None\<rparr>) = todo m0 Q c d u" by (simp add: todo_def rest_bytes_def)
    then show thesis using that [of s' "H @ [b]" x' d' "u\<lparr>rx_data := None\<rparr>"] r rx Some by (simp add: same_prog_def later_def)
  qed
  have t1: "TIE u1 = TIE u" "rx_data u1 = None" "tx_data u1 = tx_data u" "line_busy u1 = line_busy u"
    by (simp_all add: 1(3) line_busy_def)
  obtain s2 where 2: "ISR_transmit uart_callback (TIE u) n s1 = Some s2"
    "after_irq n m0 B K R cl D Q c (todo m0 Q c d u) (TIE u) ((TIE u \<longrightarrow> tx_data u \<noteq> None) \<and> line_busy u) s1 s2"
    using isr_transmit [OF 1(2) t1(2) 1(4)] cl 1(7) t1 by auto
  obtain H3 c3 x3 d3 u3 where 3: "port_ok n m0 B K R H3 cl D Q c3 x3 d3 u3 s2" "settled u3" "line_in u3 = H3"
    "\<not> TIE u \<longrightarrow> \<not> TIE u3 \<and> c3 = c" "TIE u \<longrightarrow> TIE u3 \<or> c3 = length Q" "(TIE u \<longrightarrow> tx_data u \<noteq> None) \<and> line_busy u \<longrightarrow> line_busy u3" "todo m0 Q c3 d3 u3 \<le> todo m0 Q c d u" "txMntOngoing s2 = txMntOngoing s1" "later 0 s1 s2"
    using 2(2) unfolding after_irq_def by blast
  note q = port_okD [OF 3(1)]
  let ?u = "if overrun u3 then u3\<lparr>overrun := False\<rparr> else u3"
  let ?s = "s2\<lparr>lpuarts := (lpuarts s2)[unat n := ?u]\<rparr>"
  have ou: "TIE ?u = TIE u3" "line_busy ?u = line_busy u3" "settled ?u = settled u3" "line_in ?u = line_in u3"
    "todo m0 Q c3 d3 ?u = todo m0 Q c3 d3 u3"
    by (simp_all add: line_busy_def settled_def todo_def rest_bytes_def)
  have "LPUART_Common_ISR uart_callback n s = Some ?s"
    using wired_get(3) [OF p(1)] 1(1) 2(1) wired_get(3) [OF q(1)] wired_put(3) [OF q(1)] by (simp add: LPUART_Common_ISR_def)
  moreover have "port_ok n m0 B K R H3 cl D Q c3 x3 d3 ?u ?s" by (rule port_lpuart [OF 3(1)]) (simp_all add: line_bytes_def)
  then have "after_irq n m0 B K R cl D Q c (todo m0 Q c d u) (TIE u) ((TIE u \<longrightarrow> tx_data u \<noteq> None) \<and> line_busy u) s ?s"
    by (rule after_irqI) (use 1(5,6) 3 ou in \<open>simp_all add: later_def\<close>)
  ultimately show ?thesis by blast
qed


definition ticked :: "u32 \<Rightarrow> irq \<Rightarrow> lpuart \<Rightarrow> nat" where
  "ticked n e u = (if e = Tick n \<and> line_busy u then 1 else 0)"

lemma other_instance:
  assumes ok: "port_ok n m0 B K R H cl D Q c x d u s" and k: "k \<noteq> unat n"
    and v: "TIE v = TIE (lpuarts s ! k)" "RIE v = RIE (lpuarts s ! k)"
  shows "port_ok n m0 B K R H cl D Q c x d u (s\<lparr>lpuarts := (lpuarts s)[k := v]\<rparr>)"
proof -
  note p = port_okD [OF ok]
  have "\<forall>j < length (lpuarts s). j \<noteq> unat n \<longrightarrow> \<not> TIE (lpuarts s ! j) \<and> \<not> RIE (lpuarts s ! j)"
    using p(1) unfolding wired_def by blast
  then have "\<forall>j < length (lpuarts s). j \<noteq> unat n \<longrightarrow>
      \<not> TIE ((lpuarts s)[k := v] ! j) \<and> \<not> RIE ((lpuarts s)[k := v] ! j)"
    using v by (metis nth_list_update_eq nth_list_update_neq)
  then have "wired n x d u (s\<lparr>lpuarts := (lpuarts s)[k := v]\<rparr>)"
    using p(1) k unfolding wired_def by (elim conjE) simp
  then show ?thesis using p by (simp add: port_ok_def)
qed

lemma interrupt_ok:
  assumes ok: "port_ok n m0 B K R H cl D Q c x d u s" and st: "settled u" "line_in u = H" and cl: "cl \<longrightarrow> \<not> TIE u"
  shows "\<exists>s'. interrupt e s = Some s' \<and> after_irq n m0 B K R cl D Q c (todo m0 Q c d u - ticked n e u) (TIE u) (e \<noteq> Tick n \<and> line_busy u) s s'"
proof -
  note p = port_okD [OF ok]
  define k f where "k = (case e of Tick k \<Rightarrow> k | RxByte k b \<Rightarrow> k)"
    and "f = (case e of Tick k \<Rightarrow> lpuart_tick | RxByte k b \<Rightarrow> lpuart_receive b)"
  have run: "interrupt e s = hardware k f s" by (cases e) (simp_all add: k_def f_def)
  have fr: "TIE (f w) = TIE w" "RIE (f w) = RIE w" for w
    by (cases e; simp add: f_def lpuart_tick_def lpuart_receive_def split: option.split)+
  show ?thesis
  proof (cases "k = n")
    case False
    then have tick: "ticked n e u = 0" by (auto simp: ticked_def k_def)
    show ?thesis
    proof (cases "unat k < length (lpuarts s)")
      case True
      let ?s = "s\<lparr>lpuarts := (lpuarts s)[unat k := f (lpuarts s ! unat k)]\<rparr>"
      have kn: "unat k \<noteq> unat n" using False by (simp add: word_unat_eq_iff)
      then have "\<not> TIE (lpuarts s ! unat k) \<and> \<not> RIE (lpuarts s ! unat k)" using p(1) True unfolding wired_def by blast
      then have "interrupt e s = Some ?s"
        using True by (simp add: run hardware_def get_lpuart_def put_lpuart_def lpuart_pending_def fr)
      moreover have "after_irq n m0 B K R cl D Q c (todo m0 Q c d u - ticked n e u) (TIE u) (e \<noteq> Tick n \<and> line_busy u) s ?s"
        by (rule after_irqI [OF other_instance [OF ok kn]]) (simp_all add: st fr tick later_def)
      ultimately show ?thesis by blast
    next
      case out: False
      have "after_irq n m0 B K R cl D Q c (todo m0 Q c d u - ticked n e u) (TIE u) (e \<noteq> Tick n \<and> line_busy u) s s"
        by (rule after_irqI [OF ok]) (simp_all add: st tick later_def)
      then show ?thesis using out by (simp add: run hardware_def)
    qed
  next
    case True
    let ?u = "f u" and ?s = "s\<lparr>lpuarts := (lpuarts s)[unat n := f u]\<rparr>"
    have lb: "line_bytes ?u = line_bytes u" by (cases e) (simp add: f_def, simp add: f_def lpuart_receive_def line_bytes_def split: option.split)
    have ok1: "port_ok n m0 B K R H cl D Q c x d ?u ?s" by (rule port_lpuart [OF ok]) (simp_all add: fr lb)
    have li: "line_in ?u = H @ opt_list (rx_data ?u)"
      using st by (cases e) (simp_all add: f_def lpuart_receive_def lpuart_tick_def settled_def)
    have todo: "todo m0 Q c d ?u \<le> todo m0 Q c d u - ticked n e u"
      using True by (cases e) (auto simp: f_def k_def todo_def rest_bytes_def ticked_def line_busy_def lpuart_tick_def
        lpuart_receive_def opt_list_def split: option.split)
    have keep: "e \<noteq> Tick n \<and> line_busy u \<longrightarrow> (TIE ?u \<longrightarrow> tx_data ?u \<noteq> None) \<and> line_busy ?u"
      using True st by (cases e) (auto simp: f_def k_def lpuart_receive_def settled_def line_busy_def split: option.split)
    have run': "interrupt e s = (if lpuart_pending ?u then LPUART_Common_ISR uart_callback n ?s else Some ?s)"
      using wired_get(3,6) [OF p(1)] wired_put(3) [OF p(1)] True by (simp add: run hardware_def)
    show ?thesis
    proof (cases "lpuart_pending ?u")
      case True
      obtain s' where s': "LPUART_Common_ISR uart_callback n ?s = Some s'"
        "after_irq n m0 B K R cl D Q c (todo m0 Q c d ?u) (TIE ?u) ((TIE ?u \<longrightarrow> tx_data ?u \<noteq> None) \<and> line_busy ?u) ?s s'" using isr [OF ok1 li] cl fr by auto
      from s'(2) have "after_irq n m0 B K R cl D Q c (todo m0 Q c d u - ticked n e u) (TIE u) (e \<noteq> Tick n \<and> line_busy u) s s'"
        by (rule after_irq_weaken) (use todo fr keep in simp_all)
      then show ?thesis using s'(1) run' True by auto
    next
      case False
      then have "settled ?u" using port_okD(2) [OF ok1] by (auto simp: lpuart_pending_def settled_def)
      moreover from this have "line_in ?u = H" using li by (simp add: settled_def)
      ultimately have "after_irq n m0 B K R cl D Q c (todo m0 Q c d u - ticked n e u) (TIE u) (e \<noteq> Tick n \<and> line_busy u) s ?s"
        using todo keep by (intro after_irqI [OF ok1]) (simp_all add: fr later_def)
      then show ?thesis using run' False by auto
    qed
  qed
qed


text \<open>A list of interrupts, and what arrives at the next point of interruption.\<close>

abbreviation (input) tick_in :: "u32 \<Rightarrow> irq list \<Rightarrow> lpuart \<Rightarrow> nat" where
  "tick_in n es u \<equiv> (if Tick n \<in> set es \<and> line_busy u then 1 else 0)"

lemma interrupts_ok:
  assumes "port_ok n m0 B K R H cl D Q c x d u s" "settled u" "line_in u = H" "cl \<longrightarrow> \<not> TIE u"
  shows "\<exists>s'. interrupts es s = Some s' \<and>
    after_irq n m0 B K R cl D Q c (todo m0 Q c d u - tick_in n es u) (TIE u) False s s'"
  using assms
proof (induction es arbitrary: H c x d u s)
  case Nil
  then show ?case by (auto intro!: after_irqI simp: later_def)
next
  case (Cons e es)
  obtain s1 where 1: "interrupt e s = Some s1"
    "after_irq n m0 B K R cl D Q c (todo m0 Q c d u - ticked n e u) (TIE u) (e \<noteq> Tick n \<and> line_busy u) s s1"
    using interrupt_ok [OF Cons.prems] by blast
  obtain H1 c1 x1 d1 u1 where 2: "port_ok n m0 B K R H1 cl D Q c1 x1 d1 u1 s1" "settled u1" "line_in u1 = H1"
    "\<not> TIE u \<longrightarrow> \<not> TIE u1 \<and> c1 = c" "TIE u \<longrightarrow> TIE u1 \<or> c1 = length Q" "e \<noteq> Tick n \<and> line_busy u \<longrightarrow> line_busy u1"
    "todo m0 Q c1 d1 u1 \<le> todo m0 Q c d u - ticked n e u"
    "txMntOngoing s1 = txMntOngoing s" "later 0 s s1" using 1(2) unfolding after_irq_def by blast
  obtain s2 where 3: "interrupts es s1 = Some s2"
    "after_irq n m0 B K R cl D Q c1 (todo m0 Q c1 d1 u1 - tick_in n es u1) (TIE u1) False s1 s2"
    using Cons.IH [OF 2(1-3)] Cons.prems(4) 2(4) by blast
  obtain H2 c2 x2 d2 u2 where 4: "port_ok n m0 B K R H2 cl D Q c2 x2 d2 u2 s2" "settled u2" "line_in u2 = H2"
    "\<not> TIE u1 \<longrightarrow> \<not> TIE u2 \<and> c2 = c1" "TIE u1 \<longrightarrow> TIE u2 \<or> c2 = length Q" "todo m0 Q c2 d2 u2 \<le> todo m0 Q c1 d1 u1 - tick_in n es u1"
    "txMntOngoing s2 = txMntOngoing s1" "later 0 s1 s2" using 3(2) unfolding after_irq_def by blast
  have "todo m0 Q c1 d1 u1 - tick_in n es u1 \<le> todo m0 Q c d u - tick_in n (e # es) u"
    using 2(6,7) by (auto simp: ticked_def)
  then have "after_irq n m0 B K R cl D Q c (todo m0 Q c d u - tick_in n (e # es) u) (TIE u) False s s2"
    using 2(4,5,8,9) 4 by (intro after_irqI [OF 4(1)]) (auto simp: later_def)
  then show ?case using 1(1) 3(1) by auto
qed

text \<open>The next list of interrupts is taken from the schedule.\<close>

definition next_irqs :: "sm \<Rightarrow> irq list" where
  "next_irqs s = (case irqs s of [] \<Rightarrow> [] | es # ess \<Rightarrow> es)"

definition after_window :: "u32 \<Rightarrow> bytes \<Rightarrow> ptr set \<Rightarrow> rx_par \<Rightarrow> u8 list \<Rightarrow> bool \<Rightarrow> SerialMsg list \<Rightarrow> SerialMsg list \<Rightarrow> nat \<Rightarrow> nat \<Rightarrow>
    bool \<Rightarrow> sm \<Rightarrow> sm \<Rightarrow> bool" where
  "after_window n m0 B K R cl D Q c bound busy s s' \<longleftrightarrow> (\<exists>H c' x d u. port_ok n m0 B K R H cl D Q c' x d u s' \<and> settled u \<and> line_in u = H \<and>
     (\<not> busy \<longrightarrow> \<not> TIE u \<and> c' = c) \<and> (busy \<longrightarrow> TIE u \<or> c' = length Q) \<and> todo m0 Q c' d u \<le> bound \<and> txMntOngoing s' = txMntOngoing s \<and> irqs s' = drop 1 (irqs s))"

lemma window_ok:
  assumes ok: "port_ok n m0 B K R H cl D Q c x d u s" "settled u" "line_in u = H" "cl \<longrightarrow> \<not> TIE u"
  shows "\<exists>s'. window s = Some s' \<and> after_window n m0 B K R cl D Q c (todo m0 Q c d u - tick_in n (next_irqs s) u) (TIE u) s s'"
proof (cases "irqs s")
  case Nil
  then have "after_window n m0 B K R cl D Q c (todo m0 Q c d u - tick_in n (next_irqs s) u) (TIE u) s s"
    using ok unfolding after_window_def next_irqs_def by auto
  then show ?thesis using Nil by (simp add: window_def)
next
  case (Cons es ess)
  note p = port_okD [OF ok(1)]
  have "port_ok n m0 B K R H cl D Q c x d u (s\<lparr>irqs := ess\<rparr>)" using p wired_upd(6) [OF p(1)] by (simp add: port_ok_def)
  then obtain s' where s': "interrupts es (s\<lparr>irqs := ess\<rparr>) = Some s'"
    "after_irq n m0 B K R cl D Q c (todo m0 Q c d u - tick_in n es u) (TIE u) False (s\<lparr>irqs := ess\<rparr>) s'"
    using interrupts_ok ok(2-4) by blast
  obtain H' c' x' d' u' where a: "port_ok n m0 B K R H' cl D Q c' x' d' u' s'" "settled u'" "line_in u' = H'"
    "\<not> TIE u \<longrightarrow> \<not> TIE u' \<and> c' = c" "TIE u \<longrightarrow> TIE u' \<or> c' = length Q" "todo m0 Q c' d' u' \<le> todo m0 Q c d u - tick_in n es u"
    "txMntOngoing s' = txMntOngoing (s\<lparr>irqs := ess\<rparr>)" "later 0 (s\<lparr>irqs := ess\<rparr>) s'" using s'(2) unfolding after_irq_def by blast
  have "next_irqs s = es" "irqs s' = drop 1 (irqs s)" using a(8) Cons by (simp_all add: later_def next_irqs_def)
  then have "after_window n m0 B K R cl D Q c (todo m0 Q c d u - tick_in n (next_irqs s) u) (TIE u) s s'"
    unfolding after_window_def using a by (intro exI [of _ H'] exI [of _ c'] exI [of _ x'] exI [of _ d'] exI [of _ u']) simp
  then show ?thesis using s'(1) Cons by (simp add: window_def)
qed

lemma holds_claim_window: "holds_claim window 1 n m0 B K R D Q c"
  unfolding holds_claim_def
proof (intro allI impI, elim conjE)
  fix H x d u s
  assume ok: "port_ok n m0 B K R H True D Q c x d u s" "\<not> TIE u" "rx_data u = None" "line_in u = H"
  have st: "settled u" using ok by (simp add: settled_def)
  obtain s' where s': "window s = Some s'"
    "after_window n m0 B K R True D Q c (todo m0 Q c d u - tick_in n (next_irqs s) u) (TIE u) s s'"
    using window_ok [OF ok(1) st ok(4)] ok(2) by blast
  obtain H' x' d' u' where "port_ok n m0 B K R H' True D Q c x' d' u' s'" "settled u'" "line_in u' = H'" "\<not> TIE u'"
    "todo m0 Q c d' u' \<le> todo m0 Q c d u - tick_in n (next_irqs s) u" "txMntOngoing s' = txMntOngoing s" "irqs s' = drop 1 (irqs s)"
    using s'(2) ok(2) unfolding after_window_def by blast
  moreover from this have "later 1 s s'" "rx_data u' = None" "todo m0 Q c d' u' \<le> todo m0 Q c d u"
    by (auto simp: later_def settled_def)
  ultimately show "\<exists>H' x' d' u' s'. window s = Some s' \<and> port_ok n m0 B K R H' True D Q c x' d' u' s' \<and> \<not> TIE u' \<and>
      rx_data u' = None \<and> line_in u' = H' \<and> txMntOngoing s' = txMntOngoing s \<and> todo m0 Q c d' u' \<le> todo m0 Q c d u \<and> later 1 s s'"
    using s'(1) by blast
qed


section \<open>Writing\<close>

text \<open>Between two operations: requests that wait are being sent. \<open>b\<close> bounds the ticks that are
  still needed.\<close>

definition up :: "u32 \<Rightarrow> bytes \<Rightarrow> ptr set \<Rightarrow> rx_par \<Rightarrow> u8 list \<Rightarrow> SerialMsg list \<Rightarrow> SerialMsg list \<Rightarrow> nat \<Rightarrow> nat \<Rightarrow> sm \<Rightarrow> bool" where
  "up n m0 B K R D Q c b s \<longleftrightarrow> (\<exists>H x d u. port_ok n m0 B K R H False D Q c x d u s \<and> settled u \<and> line_in u = H \<and>
     (TIE u \<or> c = length Q) \<and> todo m0 Q c d u \<le> b)"

lemma upI:
  "port_ok n m0 B K R H False D Q c x d u s \<Longrightarrow> settled u \<Longrightarrow> line_in u = H \<Longrightarrow> TIE u \<or> c = length Q \<Longrightarrow> todo m0 Q c d u \<le> b \<Longrightarrow>
   up n m0 B K R D Q c b s"
  unfolding up_def by blast

lemma upE:
  assumes "up n m0 B K R D Q c b s"
  obtains H x d u where "port_ok n m0 B K R H False D Q c x d u s" "settled u" "line_in u = H" "TIE u \<or> c = length Q" "todo m0 Q c d u \<le> b"
  using assms unfolding up_def by blast

lemma up_bounds:
  assumes "up n m0 B K R D Q c b s"
  shows "c \<le> length Q" "length Q \<le> 5" "taken s = map (Pair 0) (D @ Q)" "calls s = calls_of D"
  using assms by (auto elim!: upE dest: port_okD(7,8) ring_ok_length simp: ring_ok_def log_ok_def)

lemma up_mono: "up n m0 B K R D Q c b s \<Longrightarrow> b \<le> b' \<Longrightarrow> up n m0 B K R D Q c b' s"
  unfolding up_def by (meson order_trans)

text \<open>A tick brings an interface with requests that wait nearer to its end; one without stays as it is.\<close>

abbreviation (input) progress :: "u32 \<Rightarrow> SerialMsg list \<Rightarrow> nat \<Rightarrow> sm \<Rightarrow> nat" where
  "progress n Q c s \<equiv> (if Tick n \<in> set (next_irqs s) \<and> c < length Q then 1 else 0)"

lemma up_window:
  assumes "up n m0 B K R D Q c b s"
  shows "\<exists>s' c'. window s = Some s' \<and> up n m0 B K R D Q c' (b - progress n Q c s) s' \<and> (c = length Q \<longrightarrow> c' = c) \<and>
    txMntOngoing s' = txMntOngoing s \<and> irqs s' = drop 1 (irqs s)"
  using assms
proof (rule upE)
  fix H x d u
  assume u: "port_ok n m0 B K R H False D Q c x d u s" "settled u" "line_in u = H" "TIE u \<or> c = length Q" "todo m0 Q c d u \<le> b"
  obtain s' where s': "window s = Some s'"
    "after_window n m0 B K R False D Q c (todo m0 Q c d u - tick_in n (next_irqs s) u) (TIE u) s s'"
    using window_ok [OF u(1-3)] by blast
  obtain H' c' x' d' u' where a: "port_ok n m0 B K R H' False D Q c' x' d' u' s'" "settled u'" "line_in u' = H'"
    "\<not> TIE u \<longrightarrow> \<not> TIE u' \<and> c' = c" "TIE u \<longrightarrow> TIE u' \<or> c' = length Q" "todo m0 Q c' d' u' \<le> todo m0 Q c d u - tick_in n (next_irqs s) u"
    "txMntOngoing s' = txMntOngoing s" "irqs s' = drop 1 (irqs s)" using s'(2) unfolding after_window_def by blast
  have t: "TIE u' \<or> c' = length Q" using u(4) a(4,5) by blast
  have tie: "TIE u \<longleftrightarrow> c < length Q" using port_okD(9) [OF u(1)] u(4) by (auto simp: sender_ok_def)
  then have "progress n Q c s \<le> tick_in n (next_irqs s) u" using u(2) by (auto simp: settled_def line_busy_def)
  then have "up n m0 B K R D Q c' (b - progress n Q c s) s'" using a(6) u(5) t by (intro upI [OF a(1-3)]) simp_all
  moreover have "c = length Q \<longrightarrow> c' = c" using tie a(4) by auto
  ultimately show ?thesis using s'(1) a(7,8) by blast
qed

text \<open>A request is put into the ring, and the interface is started unless it is sending already.\<close>

lemma put_request:
  assumes ok: "port_ok n m0 B K R H False D Q c x d u s" and q: "length Q < 5" and r: "msg_ok B r"
  defines "y \<equiv> x\<lparr>txQueue := (txQueue x)[unat (txIn x) := r], txIn := inc_idx (txIn x) gSerialMgrTxQueueSize_c, txNo := txNo x + 1\<rparr>"
  shows "port_ok n m0 B K R H False D (Q @ [r]) c y d u (s\<lparr>taken := taken s @ [(0, r)], mSerials := [y]\<rparr>)"
    "todo m0 (Q @ [r]) c d u = todo m0 Q c d u + 3 * unat (dataSize r)"
proof -
  note p = port_okD [OF ok]
  have nz: "dataSize r \<noteq> 0" using r by (simp add: msg_ok_def)
  have ring: "ring_ok y (Q @ [r]) c" unfolding y_def by (rule ring_put [OF p(8) q nz])
  have cl: "c \<le> length Q" using p(8) by (simp add: ring_ok_def)
  have snd: "sender_ok False y d u (Q @ [r]) c" using p(9) by (auto simp: sender_ok_def y_def nth_append)
  have rest: "rest_bytes m0 (Q @ [r]) c d u = rest_bytes m0 Q c d u @ msg_bytes m0 r"
    using p(9) cl by (auto simp: rest_bytes_def sender_ok_def nth_append)
  then show "todo m0 (Q @ [r]) c d u = todo m0 Q c d u + 3 * unat (dataSize r)" by (simp add: todo_def)
  have "tx_ok m0 False y d u (Q @ [r]) c (concat (map (msg_bytes m0) (D @ Q @ [r])))"
    using ring snd rest p(3) by (simp add: tx_ok_def)
  moreover have "rx_ok K R y d H (mem s)" by (rule rx_ok_frame [OF p(4)]) (simp_all add: y_def)
  moreover have "mem_ok m0 B y (mem s)" using mem_ok_cong [of y x] p(5) by (simp add: y_def)
  moreover have "wired n y d u (s\<lparr>taken := taken s @ [(0, r)], mSerials := [y]\<rparr>)"
    by (rule wired_upd(1) [OF wired_upd(8) [OF p(1)]]) (simp_all add: y_def)
  moreover have "log_ok B D (Q @ [r]) (s\<lparr>taken := taken s @ [(0, r)], mSerials := [y]\<rparr>)" using p(7) r by (simp add: log_ok_def)
  ultimately show "port_ok n m0 B K R H False D (Q @ [r]) c y d u (s\<lparr>taken := taken s @ [(0, r)], mSerials := [y]\<rparr>)"
    using p(2,6) by (simp add: port_ok_def)
qed

lemma start_write:
  assumes ok: "port_ok n m0 B K R H False D Q c x d u s" "settled u" "line_in u = H"
  shows "\<exists>s'. Serial_WriteInternal window 0 s = Some (gSerial_Success_c, s') \<and> up n m0 B K R D Q c (todo m0 Q c d u) s' \<and>
    txMntOngoing s' = txMntOngoing s \<and> later 1 s s'"
proof (cases "TIE u")
  case True
  have "up n m0 B K R D Q c (todo m0 Q c d u) s" by (rule upI [OF ok]) (simp_all add: True)
  then show ?thesis using write_busy [OF ok(1) True] by (auto simp: later_def)
next
  case False
  obtain H' x' d' u' s' where w: "Serial_WriteInternal window 0 s = Some (gSerial_Success_c, s')"
    "port_ok n m0 B K R H' False D Q c x' d' u' s'" "rx_data u' = None" "line_in u' = H'" "TIE u' = (c < length Q)"
    "TIE u' \<longrightarrow> tx_data u' \<noteq> None" "txMntOngoing s' = txMntOngoing s" "todo m0 Q c d' u' \<le> todo m0 Q c d u" "later 1 s s'"
    using write_idle [OF ok(1) False _ ok(3) holds_claim_window] ok(2) by (auto simp: settled_def)
  have "c \<le> length Q" using port_okD(8) [OF w(2)] by (simp add: ring_ok_def)
  then have "up n m0 B K R D Q c (todo m0 Q c d u) s'" using w(3-6,8) by (intro upI [OF w(2)]) (auto simp: settled_def)
  then show ?thesis using w(1,7,9) by blast
qed

lemma later_trans:
  assumes "later j s t" "later k t w"
  shows "later (j + k) s w"
proof -
  obtain a b where "a \<le> j" "irqs t = drop a (irqs s)" "b \<le> k" "irqs w = drop b (irqs t)" using assms by (auto simp: later_def)
  then have "a + b \<le> j + k" "irqs w = drop (a + b) (irqs s)" by (simp_all add: add.commute)
  then show ?thesis unfolding later_def by blast
qed

lemma later_mono: "later j s t \<Longrightarrow> j \<le> k \<Longrightarrow> later k s t"
  unfolding later_def by (meson order_trans)

lemma write_room:
  assumes up: "up n m0 B K R D Q c b s" and q: "length Q < 5" and r: "msg_ok B r"
  shows "\<exists>s' c'. write_loop user fuel 0 r (Suc k) s = Some (Some gSerial_Success_c, s') \<and>
    up n m0 B K R D (Q @ [r]) c' (b + 3 * unat (dataSize r)) s' \<and> txMntOngoing s' = txMntOngoing s \<and> later 3 s s'"
proof -
  obtain s1 c1 where 1: "window s = Some s1" "up n m0 B K R D Q c1 (b - progress n Q c s) s1" "txMntOngoing s1 = txMntOngoing s"
    "irqs s1 = drop 1 (irqs s)" using up_window [OF up] by blast
  have "up n m0 B K R D Q c1 b s1" using 1(2) by (rule up_mono) simp
  then obtain H x d u where u: "port_ok n m0 B K R H False D Q c1 x d u s1" "settled u" "line_in u = H" "TIE u \<or> c1 = length Q" "todo m0 Q c1 d u \<le> b"
    by (rule upE)
  note p = port_okD [OF u(1)]
  let ?y = "x\<lparr>txQueue := (txQueue x)[unat (txIn x) := r], txIn := inc_idx (txIn x) gSerialMgrTxQueueSize_c, txNo := txNo x + 1\<rparr>"
  let ?s2 = "s1\<lparr>taken := taken s1 @ [(0, r)], mSerials := [?y]\<rparr>"
  note put = put_request [OF u(1) q r]
  obtain s3 where 3: "window ?s2 = Some s3" "after_window n m0 B K R False D (Q @ [r]) c1
      (todo m0 (Q @ [r]) c1 d u - tick_in n (next_irqs ?s2) u) (TIE u) ?s2 s3"
    using window_ok [OF put(1) u(2,3)] by blast
  obtain H3 c3 x3 d3 u3 where a: "port_ok n m0 B K R H3 False D (Q @ [r]) c3 x3 d3 u3 s3" "settled u3" "line_in u3 = H3"
    "todo m0 (Q @ [r]) c3 d3 u3 \<le> todo m0 (Q @ [r]) c1 d u" "txMntOngoing s3 = txMntOngoing s1" "irqs s3 = drop 1 (irqs s1)"
    using 3(2) unfolding after_window_def by fastforce
  obtain s4 where 4: "Serial_WriteInternal window 0 s3 = Some (gSerial_Success_c, s4)"
    "up n m0 B K R D (Q @ [r]) c3 (todo m0 (Q @ [r]) c3 d3 u3) s4" "txMntOngoing s4 = txMntOngoing s3" "later 1 s3 s4"
    using start_write [OF a(1-3)] by blast
  have slot: "nth_opt (txQueue x) (unat (txIn x)) = Some (txQueue x ! unat (txIn x))"
    "dataSize (txQueue x ! unat (txIn x)) = 0 \<and> txCallback (txQueue x ! unat (txIn x)) = NULL \<and> txNo x < 5"
    using ring_in_slot [OF p(8)] q by blast+
  have w1: "wired n x d u (s1\<lparr>taken := taken s1 @ [(0, r)]\<rparr>)" using wired_upd(8) [OF p(1)] .
  have "write_loop user fuel 0 r (Suc k) s = Some (Some gSerial_Success_c, s4)"
    using 1(1) wired_get(1) [OF p(1)] slot wired_put(1) [OF w1] 3(1) 4(1) by simp
  moreover have "todo m0 (Q @ [r]) c3 d3 u3 \<le> b + 3 * unat (dataSize r)" using a(4) put(2) u(5) by simp
  then have "up n m0 B K R D (Q @ [r]) c3 (b + 3 * unat (dataSize r)) s4" using 4(2) unfolding up_def by (meson order_trans)
  moreover have "later 2 s s3" using 1(4) a(6) unfolding later_def by (intro exI [of _ 2]) (simp add: numeral_2_eq_2)
  then have "later 3 s s4" using later_trans [of 2 s s3 1 s4] 4(4) by simp
  ultimately show ?thesis using 1(3) a(5) 4(3) by auto
qed


text \<open>A request that was sent is taken out of the ring. The callbacks of the application return and
  leave the serial manager alone.\<close>

definition quiet_user :: "user \<Rightarrow> bool" where
  "quiet_user user \<longleftrightarrow> (\<forall>cb prm s. user cb prm s = Some (True, s))"

definition taken_out :: "serial \<Rightarrow> serial" where
  "taken_out x = x\<lparr>txNo := txNo x - 1, txOut := inc_idx (txOut x) gSerialMgrTxQueueSize_c,
     txQueue := (txQueue x)[unat (txOut x) := (txQueue x ! unat (txOut x))\<lparr>txCallback := NULL\<rparr>]\<rparr>"

lemma take_request:
  assumes ok: "port_ok n m0 B K R H False D Q c x d u s" and c: "0 < c"
  shows "port_ok n m0 B K R H False (D @ [hd Q]) (tl Q) (c - 1) (taken_out x) d u
      (s\<lparr>calls := calls_of (D @ [hd Q]), mSerials := [taken_out x]\<rparr>)"
    "todo m0 (tl Q) (c - 1) d u = todo m0 Q c d u"
proof -
  note p = port_okD [OF ok]
  have cl: "c \<le> length Q" using p(8) by (simp add: ring_ok_def)
  then obtain r Q' where Q: "Q = r # Q'" using c by (cases Q) auto
  obtain k where k: "c = Suc k" using c by (cases c) auto
  have ring: "ring_ok (taken_out x) Q' k" using ring_take [OF p(8) c] Q k by (simp add: taken_out_def)
  have snd: "sender_ok False (taken_out x) d u Q' k" using p(9) Q k by (cases "TIE u") (simp_all add: sender_ok_def taken_out_def)
  have rest: "rest_bytes m0 Q' k d u = rest_bytes m0 Q c d u" using Q k by (simp add: rest_bytes_def)
  then show "todo m0 (tl Q) (c - 1) d u = todo m0 Q c d u" using Q k by (simp add: todo_def)
  have "tx_ok m0 False (taken_out x) d u Q' k (concat (map (msg_bytes m0) ((D @ [r]) @ Q')))"
    using ring snd rest p(3) Q by (simp add: tx_ok_def)
  moreover have "rx_ok K R (taken_out x) d H (mem s)" by (rule rx_ok_frame [OF p(4)]) (simp_all add: taken_out_def)
  moreover have "mem_ok m0 B (taken_out x) (mem s)" using mem_ok_cong [of "taken_out x" x] p(5) by (simp add: taken_out_def)
  moreover have "wired n (taken_out x) d u (s\<lparr>calls := calls_of (D @ [r]), mSerials := [taken_out x]\<rparr>)"
    by (rule wired_upd(1) [OF wired_upd(7) [OF p(1)]]) (simp_all add: taken_out_def)
  moreover have "log_ok B (D @ [r]) Q' (s\<lparr>calls := calls_of (D @ [r]), mSerials := [taken_out x]\<rparr>)"
    using p(7) Q by (simp add: log_ok_def)
  ultimately show "port_ok n m0 B K R H False (D @ [hd Q]) (tl Q) (c - 1) (taken_out x) d u
      (s\<lparr>calls := calls_of (D @ [hd Q]), mSerials := [taken_out x]\<rparr>)"
    using p(2,6) Q k by (simp add: port_ok_def)
qed

lemma maintenance_step:
  assumes up: "up n m0 B K R D Q c b s" and quiet: "quiet_user user"
  shows "\<exists>s' c'. up n m0 B K R D Q c' b s' \<and> txMntOngoing s' = txMntOngoing s \<and> irqs s' = drop 1 (irqs s) \<and>
    (c = length Q \<longrightarrow> c' = c) \<and>
    (if c' = 0 then maintenance_loop user 0 (Suc k) s = Some (True, s')
     else \<exists>s''. up n m0 B K R (D @ [hd Q]) (tl Q) (c' - 1) b s'' \<and> txMntOngoing s'' = txMntOngoing s \<and> irqs s'' = irqs s' \<and>
       maintenance_loop user 0 (Suc k) s = (if tl Q = [] then Some (True, s'') else maintenance_loop user 0 k s''))"
proof -
  obtain s1 c1 where 1: "window s = Some s1" "up n m0 B K R D Q c1 b s1" "txMntOngoing s1 = txMntOngoing s" "irqs s1 = drop 1 (irqs s)"
    "c = length Q \<longrightarrow> c1 = c" using up_window [OF up] up_mono [of n m0 B K R D Q _ "b - progress n Q c s" _ b] by fastforce
  obtain H x d u where u: "port_ok n m0 B K R H False D Q c1 x d u s1" "settled u" "line_in u = H" "TIE u \<or> c1 = length Q" "todo m0 Q c1 d u \<le> b"
    using 1(2) by (rule upE)
  note p = port_okD [OF u(1)]
  note out = ring_out_slot [OF p(8)]
  have cl: "c1 \<le> length Q" using p(8) by (simp add: ring_ok_def)
  show ?thesis
  proof (cases "c1 = 0")
    case True
    have "maintenance_loop user 0 (Suc k) s = Some (True, s1)"
      using 1(1) wired_get(1) [OF p(1)] out(1,2,3) True by (cases "Q = []") simp_all
    then show ?thesis using 1 True by (intro exI [of _ s1] exI [of _ c1]) simp
  next
    case False
    then have c: "0 < c1" by simp
    then obtain r Q' where Q: "Q = r # Q'" using cl by (cases Q) auto
    let ?m = "txQueue x ! unat (txOut x)" and ?s2 = "s1\<lparr>calls := calls_of (D @ [r]), mSerials := [taken_out x]\<rparr>"
    note tk = take_request [OF u(1) c, unfolded Q list.sel]
    have m: "?m = sent_mark r" using out(4) [OF c] Q by simp
    have no: "txNo x \<noteq> 0" and ds: "dataSize ?m = 0" using out(2,3) Q c by auto
    have cd: "calls s1 = calls_of D" using p(7) by (simp add: log_ok_def)
    have up2: "up n m0 B K R (D @ [hd Q]) (tl Q) (c1 - 1) b ?s2" 
      unfolding Q list.sel by (rule upI [OF tk(1) u(2,3)]) (use u(4,5) Q c tk(2) in auto)
    note p2 = port_okD [OF tk(1)]
    have in_out: "txOut (taken_out x) = txIn (taken_out x) \<longleftrightarrow> Q' = []"
    proof -
      have "unat (txIn (taken_out x)) = (unat (txOut (taken_out x)) + length Q') mod 5" "unat (txOut (taken_out x)) < 5"
        using p2(8) by (simp_all add: ring_ok_def)
      moreover have "length Q' < 5" using ring_ok_length [OF p(8)] Q by simp
      ultimately show ?thesis using mod_shift_eq [of "length Q'" 5 0 "unat (txOut (taken_out x))"]
        by (auto simp: word_unat_eq_iff)
    qed
    have "maintenance_loop user 0 (Suc k) s = (if Q' = [] then Some (True, ?s2) else maintenance_loop user 0 k ?s2)"
    proof (cases "txCallback r = NULL")
      case True
      then have "?m\<lparr>txCallback := NULL\<rparr> = ?m" by (simp add: m sent_mark_def)
      then have "taken_out x = x\<lparr>txNo := txNo x - 1, txOut := inc_idx (txOut x) 5\<rparr>" by (simp add: taken_out_def)
      moreover from this have "?s2 = s1\<lparr>mSerials := [x\<lparr>txNo := txNo x - 1, txOut := inc_idx (txOut x) 5\<rparr>]\<rparr>"
        using cd True by (simp add: calls_of_def)
      ultimately show ?thesis
        using 1(1) wired_get(1) [OF p(1)] wired_put(1) [OF p(1)] wired_get(1) [OF p2(1)] out(1) no ds m True in_out
        by (simp add: sent_mark_def)
    next
      case False
      let ?y = "x\<lparr>txNo := txNo x - 1, txOut := inc_idx (txOut x) 5\<rparr>"
      let ?s = "s1\<lparr>mSerials := [?y], calls := calls s1 @ [(txCallback r, pTxParam r)]\<rparr>"
      have "?s\<lparr>mSerials := [taken_out x]\<rparr> = ?s2" using cd False by (simp add: calls_of_def)
      moreover have "mod_ser 0 f ?s = Some (?s\<lparr>mSerials := [f ?y]\<rparr>)" for f by (simp add: mod_ser_def get_ser_def put_ser_def)
      ultimately show ?thesis
        using 1(1) wired_get(1) [OF p(1)] wired_put(1) [OF p(1)] wired_get(1) [OF p2(1)] out(1) no ds m False in_out quiet
        by (simp add: sent_mark_def call_user_def quiet_user_def taken_out_def)
    qed
    then show ?thesis using 1 up2 c Q by (intro exI [of _ s1] exI [of _ c1]) auto
  qed
qed


lemma up_ongoing [simp]: "up n m0 B K R D Q c b (s\<lparr>txMntOngoing := v\<rparr>) = up n m0 B K R D Q c b s"
proof -
  have "up n m0 B K R D Q c b (t\<lparr>txMntOngoing := v\<rparr>)" if "up n m0 B K R D Q c b t" for t v
    using that
  proof (rule upE)
    fix H x d u
    assume u: "port_ok n m0 B K R H False D Q c x d u t" "settled u" "line_in u = H" "TIE u \<or> c = length Q" "todo m0 Q c d u \<le> b"
    note p = port_okD [OF u(1)]
    have "port_ok n m0 B K R H False D Q c x d u (t\<lparr>txMntOngoing := v\<rparr>)" using p wired_upd(9) [OF p(1)] by (simp add: port_ok_def)
    then show ?thesis using u(2-5) by (intro upI) simp_all
  qed
  from this [of s v] this [of "s\<lparr>txMntOngoing := v\<rparr>" "txMntOngoing s"] show ?thesis by auto
qed

lemma maintenance_loop_ok:
  assumes "up n m0 B K R D Q c b s" "quiet_user user"
  shows "\<exists>done s' j c'. maintenance_loop user 0 k s = Some (done, s') \<and> j \<le> length Q \<and>
    up n m0 B K R (D @ take j Q) (drop j Q) c' b s' \<and> txMntOngoing s' = txMntOngoing s \<and> later k s s' \<and>
    (length Q < k \<longrightarrow> done) \<and> (done \<longrightarrow> c' = 0) \<and> (done \<and> c = length Q \<longrightarrow> j = length Q)"
  using assms(1)
proof (induction k arbitrary: D Q c s)
  case 0
  then show ?case by (intro exI [of _ False] exI [of _ s] exI [of _ 0] exI [of _ c]) (simp add: later_def)
next
  case (Suc k)
  obtain s1 c1 where 1: "up n m0 B K R D Q c1 b s1" "txMntOngoing s1 = txMntOngoing s" "irqs s1 = drop 1 (irqs s)"
    "c = length Q \<longrightarrow> c1 = c"
    and step: "if c1 = 0 then maintenance_loop user 0 (Suc k) s = Some (True, s1)
     else \<exists>s2. up n m0 B K R (D @ [hd Q]) (tl Q) (c1 - 1) b s2 \<and> txMntOngoing s2 = txMntOngoing s \<and> irqs s2 = irqs s1 \<and>
       maintenance_loop user 0 (Suc k) s = (if tl Q = [] then Some (True, s2) else maintenance_loop user 0 k s2)"
    using maintenance_step [OF Suc.prems assms(2), of k] by blast
  show ?case
  proof (cases "c1 = 0")
    case True
    have "later (Suc k) s s1" using 1(3) unfolding later_def by (intro exI [of _ 1]) simp
    then show ?thesis using True step 1 by (intro exI [of _ True] exI [of _ s1] exI [of _ 0] exI [of _ 0]) auto
  next
    case False
    then obtain s2 where 2: "up n m0 B K R (D @ [hd Q]) (tl Q) (c1 - 1) b s2" "txMntOngoing s2 = txMntOngoing s" "irqs s2 = irqs s1"
      "maintenance_loop user 0 (Suc k) s = (if tl Q = [] then Some (True, s2) else maintenance_loop user 0 k s2)" using step by auto
    obtain r Q' where Q: "Q = r # Q'" using up_bounds(1) [OF 1(1)] False by (cases Q) auto
    have l1: "later 1 s s2" using 1(3) 2(3) unfolding later_def by (intro exI [of _ 1]) simp
    show ?thesis
    proof (cases "Q' = []")
      case True
      have "c1 - 1 = 0" using up_bounds(1) [OF 2(1)] Q True by simp
      moreover have "later (Suc k) s s2" using l1 by (rule later_mono) simp
      ultimately show ?thesis using 2 Q True by (intro exI [of _ True] exI [of _ s2] exI [of _ 1] exI [of _ "c1 - 1"]) simp
    next
      case False
      obtain dn s3 j c3 where 3: "maintenance_loop user 0 k s2 = Some (dn, s3)" "j \<le> length Q'"
        "up n m0 B K R ((D @ [r]) @ take j Q') (drop j Q') c3 b s3" "txMntOngoing s3 = txMntOngoing s2" "later k s2 s3"
        "length Q' < k \<longrightarrow> dn" "dn \<longrightarrow> c3 = 0" "dn \<and> c1 - 1 = length Q' \<longrightarrow> j = length Q'"
        using Suc.IH [OF 2(1)] Q by auto
      have "later (Suc k) s s3" using later_trans [OF l1 3(5)] by simp
      then show ?thesis using 2 3 1(4) Q False
        by (intro exI [of _ dn] exI [of _ s3] exI [of _ "Suc j"] exI [of _ c3]) auto
    qed
  qed
qed

lemma maintenance_ok:
  assumes up: "up n m0 B K R D Q c b s" and "quiet_user user" and free: "\<not> txMntOngoing s"
  shows "\<exists>done s' j c'. Serial_TxQueueMaintenance user k 0 s = Some (done, s') \<and> j \<le> length Q \<and>
    up n m0 B K R (D @ take j Q) (drop j Q) c' b s' \<and> later (Suc k) s s' \<and>
    (length Q < k \<longrightarrow> done) \<and> (done \<longrightarrow> c' = 0 \<and> \<not> txMntOngoing s') \<and> (done \<and> c = length Q \<longrightarrow> j = length Q)"
proof -
  obtain s1 c1 where 1: "window s = Some s1" "up n m0 B K R D Q c1 (b - progress n Q c s) s1" "c = length Q \<longrightarrow> c1 = c"
    "txMntOngoing s1 = txMntOngoing s" "irqs s1 = drop 1 (irqs s)" using up_window [OF up] by blast
  have "up n m0 B K R D Q c1 b (s1\<lparr>txMntOngoing := True\<rparr>)" using up_mono [OF 1(2)] by simp
  from maintenance_loop_ok [OF this assms(2), of k] obtain dn s2 j c2 where
    2: "maintenance_loop user 0 k (s1\<lparr>txMntOngoing := True\<rparr>) = Some (dn, s2)" "j \<le> length Q"
    "up n m0 B K R (D @ take j Q) (drop j Q) c2 b s2" "later k (s1\<lparr>txMntOngoing := True\<rparr>) s2"
    "length Q < k \<longrightarrow> dn" "dn \<longrightarrow> c2 = 0" "dn \<and> c1 = length Q \<longrightarrow> j = length Q" by blast
  let ?s = "if dn then s2\<lparr>txMntOngoing := False\<rparr> else s2"
  have "later 1 s s1" using 1(5) unfolding later_def by (intro exI [of _ 1]) simp
  moreover have "later k s1 ?s" using 2(4) by (simp add: later_def)
  ultimately have "later (Suc k) s ?s" using later_trans [of 1 s s1 k ?s] by simp
  moreover have "Serial_TxQueueMaintenance user k 0 s = Some (dn, ?s)"
    using 1(1,4) free 2(1) by (simp add: Serial_TxQueueMaintenance_def)
  ultimately show ?thesis using 2 1(3) by (intro exI [of _ dn] exI [of _ ?s] exI [of _ j] exI [of _ c2]) auto
qed

end
