(* ===== verification/Serial_Session.thy ===== *)
theory Serial_Session
  imports Serial_Stream
begin

text \<open>
  The operations of a client of one interface of the serial manager, over the invariant \<open>up\<close> of
  \<open>Serial_Stream\<close>: writing with and without waiting, reading, and a run of the task. Each one keeps
  the invariant whatever interrupts arrive, and comes to an end when the transmitter moves on.
\<close>

section \<open>Writing\<close>

lemma later_refl [simp]: "later k s s"
  unfolding later_def by (rule exI [of _ 0]) simp

lemma opt_list_Nil [simp]: "opt_list o' = [] \<longleftrightarrow> o' = None"
  by (simp add: opt_list_def split: option.split)

text \<open>The transmitter moves on at each of the next \<open>k\<close> points of interruption.\<close>

definition ticks_for :: "u32 \<Rightarrow> nat \<Rightarrow> sm \<Rightarrow> bool" where
  "ticks_for n k s \<longleftrightarrow> (\<forall>j < k. j < length (irqs s) \<and> Tick n \<in> set (irqs s ! j))"

lemma ticks_later:
  assumes "ticks_for n (j + k) s" "later j s t"
  shows "ticks_for n k t"
proof -
  obtain i where i: "i \<le> j" "irqs t = drop i (irqs s)" using assms(2) by (auto simp: later_def)
  have "l < length (irqs t) \<and> Tick n \<in> set (irqs t ! l)" if "l < k" for l
  proof -
    have "i + l < j + k" using i that by linarith
    then have "i + l < length (irqs s)" "Tick n \<in> set (irqs s ! (i + l))" using assms(1) unfolding ticks_for_def by blast+
    then show ?thesis using i(2) by simp
  qed
  then show ?thesis by (simp add: ticks_for_def)
qed

lemma ticks_next: "ticks_for n (Suc k) s \<Longrightarrow> Tick n \<in> set (next_irqs s)"
  by (cases "irqs s") (auto simp: ticks_for_def next_irqs_def)

lemma ticks_mono: "ticks_for n k s \<Longrightarrow> j \<le> k \<Longrightarrow> ticks_for n j s"
  by (simp add: ticks_for_def)

lemma up_pos:
  assumes "up n m0 B K R D Q c b s" "c < length Q"
  shows "0 < b"
  using assms by (auto elim!: upE simp: settled_def todo_def)

lemma full_slot:
  assumes "up n m0 B K R D Q c b s" "length Q = 5"
  shows "\<exists>x m. get_ser 0 s = Some x \<and> nth_opt (txQueue x) (unat (txIn x)) = Some m \<and>
    \<not> (dataSize m = 0 \<and> txCallback m = NULL \<and> txNo x < 5)"
  using assms(1)
proof (rule upE)
  fix H x d u assume "port_ok n m0 B K R H False D Q c x d u s"
  note p = port_okD [OF this]
  show ?thesis using wired_get(1) [OF p(1)] ring_in_slot [OF p(8)] assms(2) by simp
qed

text \<open>A request is put into the ring, or the caller still waits. It does not wait for ever.\<close>

definition rounds_left :: "SerialMsg list \<Rightarrow> nat \<Rightarrow> nat \<Rightarrow> nat" where
  "rounds_left Q c b = (if length Q < 5 then 1 else if c = length Q then 2 else b + 2)"

definition wrote :: "u32 \<Rightarrow> bytes \<Rightarrow> ptr set \<Rightarrow> rx_par \<Rightarrow> u8 list \<Rightarrow> SerialMsg list \<Rightarrow> SerialMsg \<Rightarrow> nat \<Rightarrow> nat \<Rightarrow>
    serialStatus option \<Rightarrow> sm \<Rightarrow> sm \<Rightarrow> bool" where
  "wrote n m0 B K R E r b k st s s' \<longleftrightarrow> (\<exists>D Q c. up n m0 B K R D Q c b s' \<and> D @ Q = E @ (if st = None then [] else [r]) \<and>
     (st \<noteq> None \<longrightarrow> st = Some gSerial_Success_c \<and> \<not> txMntOngoing s') \<and> later k s s')"

lemma wroteI:
  "up n m0 B K R D Q c b s' \<Longrightarrow> D @ Q = E @ (if st = None then [] else [r]) \<Longrightarrow>
   (st \<noteq> None \<Longrightarrow> st = Some gSerial_Success_c \<and> \<not> txMntOngoing s') \<Longrightarrow> later k s s' \<Longrightarrow> wrote n m0 B K R E r b k st s s'"
  unfolding wrote_def by blast

lemma wrote_mono:
  assumes "wrote n m0 B K R E r b k st t s'" "b \<le> b'" "later j s t" "j + k \<le> k'"
  shows "wrote n m0 B K R E r b' k' st s s'"
  using assms later_mono [OF later_trans] up_mono unfolding wrote_def by meson

lemma write_loop_ok:
  assumes "up n m0 B K R D Q c b s" "quiet_user user" "\<not> txMntOngoing s" "msg_ok B r"
  shows "\<exists>st s'. write_loop user fuel 0 r k s = Some (st, s') \<and>
    wrote n m0 B K R (D @ Q) r (b + 3 * unat (dataSize r)) (k * (fuel + 2) + 3) st s s' \<and>
    (5 < fuel \<and> rounds_left Q c b \<le> k \<and> ticks_for n (k * (fuel + 2)) s \<longrightarrow> st \<noteq> None)"
  using assms(1,3)
proof (induction k arbitrary: D Q c b s)
  case 0
  have "0 < rounds_left Q c b" by (simp add: rounds_left_def)
  moreover have "wrote n m0 B K R (D @ Q) r (b + 3 * unat (dataSize r)) (0 * (fuel + 2) + 3) None s s"
    by (rule wroteI [OF up_mono [OF 0(1)]]) simp_all
  ultimately show ?case by simp
next
  case (Suc k)
  show ?case
  proof (cases "length Q < 5")
    case True
    obtain s' c' where w: "write_loop user fuel 0 r (Suc k) s = Some (Some gSerial_Success_c, s')"
      "up n m0 B K R D (Q @ [r]) c' (b + 3 * unat (dataSize r)) s'" "txMntOngoing s' = txMntOngoing s" "later 3 s s'"
      using write_room [OF Suc.prems(1) True assms(4)] by blast
    have "wrote n m0 B K R (D @ Q) r (b + 3 * unat (dataSize r)) (Suc k * (fuel + 2) + 3) (Some gSerial_Success_c) s s'"
      by (rule wroteI [OF w(2)]) (use w(3) Suc.prems(2) later_mono [OF w(4)] in simp_all)
    then show ?thesis using w(1) by blast
  next
    case False
    then have five: "length Q = 5" using up_bounds(2) [OF Suc.prems(1)] by simp
    obtain s1 c1 where 1: "window s = Some s1" "up n m0 B K R D Q c1 (b - progress n Q c s) s1" "c = length Q \<longrightarrow> c1 = c"
      "txMntOngoing s1 = txMntOngoing s" "irqs s1 = drop 1 (irqs s)" using up_window [OF Suc.prems(1)] by blast
    let ?b = "b - progress n Q c s"
    obtain x m where x: "get_ser 0 s1 = Some x" "nth_opt (txQueue x) (unat (txIn x)) = Some m"
      "\<not> (dataSize m = 0 \<and> txCallback m = NULL \<and> txNo x < 5)" using full_slot [OF 1(2) five] by blast
    have free: "\<not> txMntOngoing s1" using 1(4) Suc.prems(2) by simp
    obtain dn s2 j c2 where 2: "Serial_TxQueueMaintenance user fuel 0 s1 = Some (dn, s2)" "j \<le> length Q"
      "up n m0 B K R (D @ take j Q) (drop j Q) c2 ?b s2" "later (Suc fuel) s1 s2" "length Q < fuel \<longrightarrow> dn"
      "dn \<longrightarrow> c2 = 0 \<and> \<not> txMntOngoing s2" "dn \<and> c1 = length Q \<longrightarrow> j = length Q"
      using maintenance_ok [OF 1(2) assms(2) free, of fuel] by blast
    have run: "write_loop user fuel 0 r (Suc k) s = (if dn then write_loop user fuel 0 r k s2 else Some (None, s2))"
      using 1(1) x 2(1) by (auto simp: Let_def)
    have "later 1 s s1" using 1(5) unfolding later_def by (intro exI [of _ 1]) simp
    then have l: "later (fuel + 2) s s2" using later_trans [OF _ 2(4)] by fastforce
    show ?thesis
    proof (cases dn)
      case False
      have "wrote n m0 B K R (D @ Q) r (b + 3 * unat (dataSize r)) (Suc k * (fuel + 2) + 3) None s s2"
        by (rule wroteI [OF up_mono [OF 2(3)]]) (use later_mono [OF l] in simp_all)
      then show ?thesis using run False five 2(5) by (simp del: write_loop.simps)
    next
      case True
      obtain st s3 where 3: "write_loop user fuel 0 r k s2 = Some (st, s3)"
        "wrote n m0 B K R (D @ Q) r (?b + 3 * unat (dataSize r)) (k * (fuel + 2) + 3) st s2 s3"
        "5 < fuel \<and> rounds_left (drop j Q) c2 ?b \<le> k \<and> ticks_for n (k * (fuel + 2)) s2 \<longrightarrow> st \<noteq> None"
        using Suc.IH [OF 2(3)] 2(6) True by fastforce
      have w3: "wrote n m0 B K R (D @ Q) r (b + 3 * unat (dataSize r)) (Suc k * (fuel + 2) + 3) st s s3"
        by (rule wrote_mono [OF 3(2) _ l]) simp_all
      have "st \<noteq> None" if h: "5 < fuel" "rounds_left Q c b \<le> Suc k" "ticks_for n (Suc k * (fuel + 2)) s"
      proof -
        have "ticks_for n ((fuel + 2) + k * (fuel + 2)) s" using h(3) unfolding mult_Suc .
        then have t2: "ticks_for n (k * (fuel + 2)) s2" using l by (rule ticks_later)
        have "ticks_for n (Suc 0) s" using h(3) by (rule ticks_mono) simp
        then have tick: "Tick n \<in> set (next_irqs s)" by (rule ticks_next)
        have "rounds_left (drop j Q) c2 ?b \<le> k"
        proof (cases "c = length Q")
          case c: True
          then have "j = length Q" using 1(3) 2(7) True by blast
          then show ?thesis using h(2) c five by (simp add: rounds_left_def)
        next
          case c: False
          then have "c < length Q" using up_bounds(1) [OF Suc.prems(1)] by simp
          moreover from this have "0 < b" using up_pos [OF Suc.prems(1)] by blast
          ultimately show ?thesis using h(2) c five tick 2(6) True by (auto simp: rounds_left_def)
        qed
        then show ?thesis using 3(3) t2 h(1) by blast
      qed
      then show ?thesis using run True 3(1) w3 by (auto simp del: write_loop.simps)
    qed
  qed
qed


lemma up_interface:
  assumes "up n m0 B K R D Q c b s"
  shows "length (mSerials s) = 1" "serialType (mSerials s ! 0) = gSerialMgrLpuart_c"
  using assms by (auto elim!: upE dest!: port_okD(1) simp: wired_def)

lemma async_write_ok:
  assumes up: "up n m0 B K R D Q c b s" and user: "quiet_user user" and free: "\<not> txMntOngoing s"
    and r: "msg_ok B \<lparr>txCallback = cb, pTxParam = prm, pData = p, dataSize = l\<rparr>"
  shows "\<exists>st s'. Serial_AsyncWrite user fuel 0 p l cb prm s = Some (st, s') \<and>
    wrote n m0 B K R (D @ Q) \<lparr>txCallback = cb, pTxParam = prm, pData = p, dataSize = l\<rparr> (b + 3 * unat l) (fuel * (fuel + 2) + 3) st s s' \<and>
    (5 < fuel \<and> b + 2 \<le> fuel \<and> ticks_for n (fuel * (fuel + 2)) s \<longrightarrow> st \<noteq> None)"
proof -
  have "p \<noteq> NULL" "l \<noteq> 0" using r by (simp_all add: msg_ok_def)
  moreover have "rounds_left Q c b \<le> b + 2" by (simp add: rounds_left_def)
  ultimately show ?thesis using write_loop_ok [OF up user free r, of fuel fuel] up_interface [OF up]
    by (auto simp: Serial_AsyncWrite_def simp del: write_loop.simps)
qed

section \<open>Waiting for the transmitter\<close>

lemma wait_idle_ok:
  assumes "up n m0 B K R D Q c b s"
  shows "\<exists>i s' c'. wait_idle 0 k s = Some (i, s') \<and> up n m0 B K R D Q c' b s' \<and> txMntOngoing s' = txMntOngoing s \<and>
    later k s s' \<and> (i \<longrightarrow> c' = length Q) \<and> (b < k \<and> ticks_for n k s \<longrightarrow> i)"
  using assms
proof (induction k arbitrary: c b s)
  case 0
  then show ?case by auto
next
  case (Suc k)
  obtain s1 c1 where 1: "window s = Some s1" "up n m0 B K R D Q c1 (b - progress n Q c s) s1" "c = length Q \<longrightarrow> c1 = c"
    "txMntOngoing s1 = txMntOngoing s" "irqs s1 = drop 1 (irqs s)" using up_window [OF Suc.prems] by blast
  have u1: "up n m0 B K R D Q c1 b s1" using 1(2) by (rule up_mono) simp
  have l1: "later 1 s s1" using 1(5) unfolding later_def by (intro exI [of _ 1]) simp
  obtain x where x: "get_ser 0 s1 = Some x" "state x = 0 \<longleftrightarrow> c1 = length Q"
    using u1
  proof (rule upE)
    fix H x d u assume u: "port_ok n m0 B K R H False D Q c1 x d u s1" "TIE u \<or> c1 = length Q"
    note p = port_okD [OF u(1)]
    have "state x = 0 \<longleftrightarrow> c1 = length Q" using p(9) u(2) by (auto simp: sender_ok_def split: if_splits)
    then show thesis using that wired_get(1) [OF p(1)] by blast
  qed
  show ?case
  proof (cases "c1 = length Q")
    case True
    have "later (Suc k) s s1" using l1 by (rule later_mono) simp
    then show ?thesis using 1 x True u1 by auto
  next
    case False
    obtain i s2 c2 where 2: "wait_idle 0 k s1 = Some (i, s2)" "up n m0 B K R D Q c2 (b - progress n Q c s) s2"
      "txMntOngoing s2 = txMntOngoing s1" "later k s1 s2" "i \<longrightarrow> c2 = length Q"
      "b - progress n Q c s < k \<and> ticks_for n k s1 \<longrightarrow> i"
      using Suc.IH [OF 1(2)] by blast
    have u2: "up n m0 B K R D Q c2 b s2" using 2(2) by (rule up_mono) simp
    have l2: "later (Suc k) s s2" using later_trans [OF l1 2(4)] by simp
    have "i" if h: "b < Suc k" "ticks_for n (Suc k) s"
    proof -
      have "c < length Q" using False 1(3) up_bounds(1) [OF Suc.prems] by fastforce
      then have "b - progress n Q c s < k" using h(1) ticks_next [OF h(2)] up_pos [OF Suc.prems] by simp
      moreover have "ticks_for n k s1" using h(2) l1 by (metis plus_1_eq_Suc ticks_later)
      ultimately show i using 2(6) by blast
    qed
    then show ?thesis using 1(1,4) x False 2(1,3,5) u2 l2 by auto
  qed
qed

text \<open>With all requests handed over, a tick brings the last bytes out.\<close>

lemma up_window_idle:
  assumes "up n m0 B K R D Q (length Q) b s"
  shows "\<exists>s'. window s = Some s' \<and> up n m0 B K R D Q (length Q) (b - (if Tick n \<in> set (next_irqs s) then 1 else 0)) s' \<and>
    txMntOngoing s' = txMntOngoing s \<and> irqs s' = drop 1 (irqs s)"
  using assms
proof (rule upE)
  fix H x d u
  assume u: "port_ok n m0 B K R H False D Q (length Q) x d u s" "settled u" "line_in u = H" "todo m0 Q (length Q) d u \<le> b"
  have t: "\<not> TIE u" using port_okD(9) [OF u(1)] by (auto simp: sender_ok_def)
  obtain s' where s': "window s = Some s'"
    "after_window n m0 B K R False D Q (length Q) (todo m0 Q (length Q) d u - tick_in n (next_irqs s) u) (TIE u) s s'"
    using window_ok [OF u(1-3)] by blast
  obtain H' x' d' u' where a: "port_ok n m0 B K R H' False D Q (length Q) x' d' u' s'" "settled u'" "line_in u' = H'"
    "todo m0 Q (length Q) d' u' \<le> todo m0 Q (length Q) d u - tick_in n (next_irqs s) u"
    "txMntOngoing s' = txMntOngoing s" "irqs s' = drop 1 (irqs s)" using s'(2) t unfolding after_window_def by blast
  have "todo m0 Q (length Q) d u = 0" if "\<not> line_busy u" using that t by (simp add: todo_def line_busy_def rest_bytes_def)
  then have "todo m0 Q (length Q) d' u' \<le> b - (if Tick n \<in> set (next_irqs s) then 1 else 0)" using a(4) u(4) by (auto split: if_splits)
  then have "up n m0 B K R D Q (length Q) (b - (if Tick n \<in> set (next_irqs s) then 1 else 0)) s'" by (intro upI [OF a(1-3)]) simp_all
  then show ?thesis using s'(1) a(5,6) by blast
qed

definition sent_all :: "u32 \<Rightarrow> bytes \<Rightarrow> SerialMsg list \<Rightarrow> sm \<Rightarrow> bool" where
  "sent_all n m0 E s \<longleftrightarrow> line_out (lpuarts s ! unat n) = concat (map (msg_bytes m0) E)"

lemma wait_sent_ok:
  assumes "up n m0 B K R D Q (length Q) b s"
  shows "\<exists>i s'. wait_sent n k s = Some (i, s') \<and> up n m0 B K R D Q (length Q) b s' \<and> txMntOngoing s' = txMntOngoing s \<and>
    later k s s' \<and> (i \<longrightarrow> sent_all n m0 (D @ Q) s') \<and> (b < k \<and> ticks_for n k s \<longrightarrow> i)"
  using assms
proof (induction k arbitrary: b s)
  case 0
  then show ?case by auto
next
  case (Suc k)
  let ?b = "b - (if Tick n \<in> set (next_irqs s) then 1 else 0)"
  obtain s1 where 1: "window s = Some s1" "up n m0 B K R D Q (length Q) ?b s1"
    "txMntOngoing s1 = txMntOngoing s" "irqs s1 = drop 1 (irqs s)" using up_window_idle [OF Suc.prems] by blast
  have u1: "up n m0 B K R D Q (length Q) b s1" using 1(2) by (rule up_mono) simp
  have l1: "later 1 s s1" using 1(4) unfolding later_def by (intro exI [of _ 1]) simp
  obtain a where a: "LPUART_IsTxActive n s1 = Some a" "\<not> a \<Longrightarrow> sent_all n m0 (D @ Q) s1" "?b = 0 \<Longrightarrow> \<not> a"
    using 1(2)
  proof (rule upE)
    fix H x d u assume u: "port_ok n m0 B K R H False D Q (length Q) x d u s1" "todo m0 Q (length Q) d u \<le> ?b"
    note p = port_okD [OF u(1)]
    have n: "n < 4" "lpuarts s1 ! unat n = u" using p(1) by (auto simp: wired_def)
    have t: "\<not> TIE u" "txSize d = 0" using p(9) by (auto simp: sender_ok_def split: if_splits)
    have "LPUART_IsTxActive n s1 = Some (line_busy u)"
      using wired_get(2,3) [OF p(1)] n t by (simp add: LPUART_IsTxActive_def line_busy_def)
    moreover have "sent_all n m0 (D @ Q) s1" if "\<not> line_busy u"
      using p(3) n(2) that t by (simp add: sent_all_def tx_ok_def line_bytes_def line_busy_def rest_bytes_def)
    moreover have "\<not> line_busy u" if "?b = 0"
      using u(2) that by (auto simp: line_busy_def todo_def)
    ultimately show thesis by (rule that)
  qed
  show ?case
  proof (cases a)
    case False
    have "later (Suc k) s s1" using l1 by (rule later_mono) simp
    then show ?thesis using 1(1,3) a(1) a(2) [OF False] False u1 by (intro exI [of _ True] exI [of _ s1]) simp
  next
    case True
    obtain i s2 where 2: "wait_sent n k s1 = Some (i, s2)" "up n m0 B K R D Q (length Q) ?b s2"
      "txMntOngoing s2 = txMntOngoing s1" "later k s1 s2" "i \<longrightarrow> sent_all n m0 (D @ Q) s2"
      "?b < k \<and> ticks_for n k s1 \<longrightarrow> i"
      using Suc.IH [OF 1(2)] by blast
    have u2: "up n m0 B K R D Q (length Q) b s2" using 2(2) by (rule up_mono) simp
    have l2: "later (Suc k) s s2" using later_trans [OF l1 2(4)] by simp
    have "i" if h: "b < Suc k" "ticks_for n (Suc k) s"
    proof -
      have "?b < k" using h(1) ticks_next [OF h(2)] a(3) True by (cases b) auto
      moreover have "ticks_for n k s1" using h(2) l1 by (metis plus_1_eq_Suc ticks_later)
      ultimately show i using 2(6) by blast
    qed
    then show ?thesis using 1(1,3) a(1) True 2(1,3,5) u2 l2 by simp
  qed
qed


text \<open>A request that is waited for is on the line afterwards, with all that were made before it.\<close>

lemma sync_write_ok:
  fixes s :: sm
  defines "prm \<equiv> self (mSerials s ! 0)"
  assumes up: "up n m0 B K R D Q c b s" and user: "quiet_user user" and free: "\<not> txMntOngoing s"
    and r: "msg_ok B \<lparr>txCallback = NULL, pTxParam = prm, pData = p, dataSize = l\<rparr>" (is "msg_ok B ?r")
  shows "\<exists>st s' D' Q' c'. Serial_SyncWrite user fuel 0 p l s = Some (st, s') \<and> up n m0 B K R D' Q' c' (b + 3 * unat l) s' \<and>
    (D' @ Q' = D @ Q \<or> D' @ Q' = D @ Q @ [?r]) \<and>
    (st \<noteq> None \<longrightarrow> st = Some gSerial_Success_c \<and> \<not> txMntOngoing s' \<and> D' @ Q' = D @ Q @ [?r] \<and> sent_all n m0 (D @ Q @ [?r]) s') \<and>
    (5 < fuel \<and> b + 3 * unat l + 2 \<le> fuel \<and> ticks_for n (fuel * (fuel + 4) + 3) s \<longrightarrow> st \<noteq> None)"
proof -
  obtain st s1 where 1: "Serial_AsyncWrite user fuel 0 p l NULL prm s = Some (st, s1)"
    "wrote n m0 B K R (D @ Q) ?r (b + 3 * unat l) (fuel * (fuel + 2) + 3) st s s1"
    "5 < fuel \<and> b + 2 \<le> fuel \<and> ticks_for n (fuel * (fuel + 2)) s \<longrightarrow> st \<noteq> None"
    using async_write_ok [OF up user free r, of fuel] by blast
  obtain D1 Q1 c1 where u1: "up n m0 B K R D1 Q1 c1 (b + 3 * unat l) s1" "D1 @ Q1 = (D @ Q) @ (if st = None then [] else [?r])"
    "st \<noteq> None \<longrightarrow> st = Some gSerial_Success_c \<and> \<not> txMntOngoing s1" "later (fuel * (fuel + 2) + 3) s s1"
    using 1(2) unfolding wrote_def by blast
  have run: "Serial_SyncWrite user fuel 0 p l s = (if st = None then Some (st, s1) else do {
      (idle, s) \<leftarrow> wait_idle 0 fuel s1;
      x \<leftarrow> get_ser 0 s;
      (sent, s) \<leftarrow> (if idle \<and> serialType x = gSerialMgrLpuart_c then wait_sent (ucast (serialChannel x)) fuel s else Some (idle, s));
      Some (if sent then st else None, s) })"
    using 1(1) u1(3) up_interface [OF up] by (auto simp: Serial_SyncWrite_def prm_def simp del: wait_idle.simps wait_sent.simps)
  show ?thesis
  proof (cases "st = None")
    case True
    have "ticks_for n (fuel * (fuel + 2)) s" if "ticks_for n (fuel * (fuel + 4) + 3) s"
      using that by (rule ticks_mono) (simp add: algebra_simps)
    then have "\<not> (5 < fuel \<and> b + 3 * unat l + 2 \<le> fuel \<and> ticks_for n (fuel * (fuel + 4) + 3) s)" using True 1(3) by auto
    moreover have "Serial_SyncWrite user fuel 0 p l s = Some (None, s1)" using run True by simp
    moreover have "D1 @ Q1 = D @ Q" using u1(2) True by simp
    ultimately show ?thesis using u1(1) by blast
  next
    case False
    obtain i s2 c2 where 2: "wait_idle 0 fuel s1 = Some (i, s2)" "up n m0 B K R D1 Q1 c2 (b + 3 * unat l) s2" "txMntOngoing s2 = txMntOngoing s1"
      "later fuel s1 s2" "i \<longrightarrow> c2 = length Q1" "b + 3 * unat l < fuel \<and> ticks_for n fuel s1 \<longrightarrow> i"
      using wait_idle_ok [OF u1(1), of fuel] by blast
    obtain x where x: "get_ser 0 s2 = Some x" "serialType x = gSerialMgrLpuart_c" "ucast (serialChannel x) = n"
      using 2(2) by (rule upE) (auto dest!: port_okD(1) simp: wired_def get_ser_def)
    have t: "ticks_for n fuel s1 \<and> ticks_for n fuel s2" if "ticks_for n (fuel * (fuel + 4) + 3) s"
    proof -
      have "ticks_for n ((fuel * (fuel + 2) + 3) + (fuel + fuel)) s" using that by (rule ticks_mono) (simp add: algebra_simps)
      then have "ticks_for n (fuel + fuel) s1" using u1(4) by (rule ticks_later)
      then show ?thesis using ticks_later [OF _ 2(4)] ticks_mono by fastforce
    qed
    show ?thesis
    proof (cases i)
      case False
      then have "Serial_SyncWrite user fuel 0 p l s = Some (None, s2)" using run \<open>st \<noteq> None\<close> 2(1) x by simp
      moreover have "\<not> (5 < fuel \<and> b + 3 * unat l + 2 \<le> fuel \<and> ticks_for n (fuel * (fuel + 4) + 3) s)" using False 2(6) t by auto
      moreover have "D1 @ Q1 = D @ Q @ [?r]" using u1(2) \<open>st \<noteq> None\<close> by simp
      ultimately show ?thesis using 2(2) by blast
    next
      case True
      then have u2: "up n m0 B K R D1 Q1 (length Q1) (b + 3 * unat l) s2" using 2(2,5) by simp
      obtain j s3 where 3: "wait_sent n fuel s2 = Some (j, s3)" "up n m0 B K R D1 Q1 (length Q1) (b + 3 * unat l) s3"
        "txMntOngoing s3 = txMntOngoing s2" "later fuel s2 s3" "j \<longrightarrow> sent_all n m0 (D1 @ Q1) s3"
        "b + 3 * unat l < fuel \<and> ticks_for n fuel s2 \<longrightarrow> j"
        using wait_sent_ok [OF u2, of fuel] by blast
      have "Serial_SyncWrite user fuel 0 p l s = Some (if j then st else None, s3)" using run \<open>st \<noteq> None\<close> True 2(1) x 3(1) by simp
      moreover have "j" if "b + 3 * unat l + 2 \<le> fuel" "ticks_for n (fuel * (fuel + 4) + 3) s" using 3(6) t that by auto
      moreover have "sent_all n m0 (D @ Q @ [?r]) s3" if j using that 3(5) u1(2) \<open>st \<noteq> None\<close> by simp
      ultimately show ?thesis
        by - (rule exI [of _ "if j then st else None"], rule exI [of _ s3], rule exI [of _ D1], rule exI [of _ Q1],
          rule exI [of _ "length Q1"], use 3(2,3) 2(3) u1(2,3) \<open>st \<noteq> None\<close> in auto)
    qed
  qed
qed


section \<open>Reading\<close>

text \<open>Memory of the client that no request is made of is written.\<close>

lemma rest_bytes_cong:
  assumes "\<forall>r \<in> set Q. msg_bytes m1 r = msg_bytes m0 r" "TIE u \<longrightarrow> c < length Q"
  shows "rest_bytes m1 Q c d u = rest_bytes m0 Q c d u"
proof -
  have "map (msg_bytes m1) (drop k Q) = map (msg_bytes m0) (drop k Q)" for k
    using assms(1) in_set_dropD [of _ k Q] by (intro map_cong) auto
  then show ?thesis using assms by (simp add: rest_bytes_def del: map_eq_conv)
qed

lemma up_mem:
  assumes up: "up n m0 B K R D Q c b s" and W: "W \<subseteq> B" "\<forall>a \<in> W. m a \<noteq> None" "\<forall>a. a \<notin> W \<longrightarrow> m a = mem s a"
    and r: "\<forall>r \<in> set (D @ Q). \<forall>k < unat (dataSize r). pData r + of_nat k \<notin> W"
  shows "up n (\<lambda>a. if a \<in> W then m a else m0 a) B K R D Q c b (s\<lparr>mem := m\<rparr>)"
proof -
  obtain H x d u where u: "port_ok n m0 B K R H False D Q c x d u s" "settled u" "line_in u = H" "TIE u \<or> c = length Q" "todo m0 Q c d u \<le> b"
    using up by (rule upE)
  note w = port_okD [OF u(1)]
  let ?start = "\<lambda>a. if a \<in> W then m a else m0 a"
  have B: "\<forall>a \<in> B. mem s a = m0 a \<and> mem s a \<noteq> None" and rx: "\<forall>k < 33. rxBuffer x + of_nat k \<notin> B \<and> rxBuffer x + of_nat k \<in> dom (mem s) \<and> rxBuffer x + of_nat k \<noteq> NULL"
    using w(5) unfolding mem_ok_def by blast+
  have rx': "m (rxBuffer x + of_nat k) = mem s (rxBuffer x + of_nat k)" if "k < 33" for k
    using W(1,3) rx that by blast
  have bytes: "\<forall>q \<in> set (D @ Q). msg_bytes ?start q = msg_bytes m0 q"
  proof
    fix q assume "q \<in> set (D @ Q)"
    then have "\<forall>k < unat (dataSize q). pData q + of_nat k \<notin> W" using r by blast
    then show "msg_bytes ?start q = msg_bytes m0 q" unfolding msg_bytes_def by (intro map_cong) auto
  qed
  have c: "TIE u \<longrightarrow> c < length Q" using w(9) by (simp add: sender_ok_def)
  have rest: "rest_bytes ?start Q c d u = rest_bytes m0 Q c d u" by (rule rest_bytes_cong [OF _ c]) (use bytes in simp)
  have "map (msg_bytes ?start) (D @ Q) = map (msg_bytes m0) (D @ Q)" by (rule map_cong) (use bytes in auto)
  then have "tx_ok ?start False x d u Q c (concat (map (msg_bytes ?start) (D @ Q)))" using w(3) rest
    by (simp only: tx_ok_def)
  moreover have "rx_ok K R x d H m" by (rule rx_ok_frame [OF w(4)]) (use rx' in simp_all)
  moreover have "mem_ok ?start B x m"
  proof -
    have "m a = ?start a \<and> m a \<noteq> None" if "a \<in> B" for a
      using bspec [OF B that] W(2,3) by (cases "a \<in> W") (metis, metis)
    moreover have "\<forall>k < 33. rxBuffer x + of_nat k \<notin> B \<and> rxBuffer x + of_nat k \<in> dom m \<and> rxBuffer x + of_nat k \<noteq> NULL"
      using rx rx' by (simp add: domIff)
    ultimately show ?thesis unfolding mem_ok_def by blast
  qed
  ultimately have "port_ok n ?start B K R H False D Q c x d u (s\<lparr>mem := m\<rparr>)"
    using w wired_upd(5) [OF w(1), of m] by (simp add: port_ok_def)
  then show "up n ?start B K R D Q c b (s\<lparr>mem := m\<rparr>)"
    by (rule upI) (use u rest in \<open>simp_all add: todo_def\<close>)
qed

lemma up_dom: "up n m0 B K R D Q c b s \<Longrightarrow> p \<in> B \<Longrightarrow> p \<in> dom (mem s) \<and> mem s p = m0 p"
  by (erule upE, drule port_okD(5)) (metis mem_ok_def domIff)

lemma up_store:
  assumes up: "up n m0 B K R D Q c b s" and p: "p \<in> B" and r: "\<forall>r \<in> set (D @ Q). \<forall>k < unat (dataSize r). pData r + of_nat k \<noteq> p"
  shows "store8 p v (mem s) = Some ((mem s)(p \<mapsto> v))" "up n (m0(p \<mapsto> v)) B K R D Q c b (s\<lparr>mem := (mem s)(p \<mapsto> v)\<rparr>)"
proof -
  show "store8 p v (mem s) = Some ((mem s)(p \<mapsto> v))" using up_dom [OF up p] by (simp add: store8_def)
  have "(\<lambda>a. if a \<in> {p} then ((mem s)(p \<mapsto> v)) a else m0 a) = m0(p \<mapsto> v)" by auto
  then show "up n (m0(p \<mapsto> v)) B K R D Q c b (s\<lparr>mem := (mem s)(p \<mapsto> v)\<rparr>)"
    using up_mem [OF up, of "{p}" "(mem s)(p \<mapsto> v)"] p r by simp
qed

text \<open>The oldest byte is taken out of the ring.\<close>

lemma up_pop:
  assumes up: "up n m0 B K R D Q c b s" and l: "length R < snd K"
  shows "\<exists>x v. get_ser 0 s = Some x \<and> load8 (rxBuffer x + ucast (rxOut x)) (mem s) = Some v \<and>
    put_ser 0 (x\<lparr>rxOut := inc_idx (rxOut x) gSMRxBufSize_c\<rparr>) s = Some (s\<lparr>mSerials := [x\<lparr>rxOut := inc_idx (rxOut x) gSMRxBufSize_c\<rparr>]\<rparr>) \<and>
    up n m0 B K (R @ [v]) D Q c b (s\<lparr>mSerials := [x\<lparr>rxOut := inc_idx (rxOut x) gSMRxBufSize_c\<rparr>]\<rparr>)"
proof -
  obtain H x d u where u: "port_ok n m0 B K R H False D Q c x d u s" "settled u" "line_in u = H" "TIE u \<or> c = length Q" "todo m0 Q c d u \<le> b"
    using up by (rule upE)
  note w = port_okD [OF u(1)]
  let ?x = "x\<lparr>rxOut := inc_idx (rxOut x) gSMRxBufSize_c\<rparr>"
  have o: "unat (rxOut x) < 33" and f: "rx_fill x \<noteq> 0" using w(4) l by (auto simp: rx_ok_def)
  have "rxBuffer x + of_nat (unat (rxOut x)) \<in> dom (mem s)" using w(5) o unfolding mem_ok_def by blast
  then obtain v where v: "mem s (rxBuffer x + of_nat (unat (rxOut x))) = Some v" by blast
  have "tx_ok m0 False ?x d u Q c (concat (map (msg_bytes m0) (D @ Q)))" by (rule tx_ok_frame [OF w(3)]) simp_all
  moreover have "rx_ok K (R @ [v]) ?x d H (mem s)" using rx_ok_pop(2) [OF w(4) f] v by simp
  moreover have "mem_ok m0 B ?x (mem s)" using mem_ok_cong [of ?x x] w(5) by simp
  ultimately have "port_ok n m0 B K (R @ [v]) H False D Q c ?x d u (s\<lparr>mSerials := [?x]\<rparr>)"
    using w wired_upd(1) [OF w(1), of ?x] by (simp add: port_ok_def)
  then have "up n m0 B K (R @ [v]) D Q c b (s\<lparr>mSerials := [?x]\<rparr>)" by (rule upI) (use u in simp_all)
  moreover have "load8 (rxBuffer x + ucast (rxOut x)) (mem s) = Some v" using v by (simp add: load8_def)
  ultimately show ?thesis using wired_get(1) [OF w(1)] wired_put(1) [OF w(1)] by blast
qed


text \<open>The loop of \<open>Serial_Read\<close>; \<open>B0\<close> is where the requests lie.\<close>

definition msgs_in :: "ptr set \<Rightarrow> SerialMsg list \<Rightarrow> bool" where
  "msgs_in B E \<longleftrightarrow> (\<forall>r \<in> set E. msg_ok B r)"

lemma read_loop_ok:
  assumes "up n m0 B K R D Q c b s" "length R + l \<le> snd K" "\<forall>k < l. pDst + of_nat k \<in> B - B0" "msgs_in B0 (D @ Q)" "l < 2 ^ 32"
  shows "\<exists>s' m1 c' bs. read_loop 0 pDst l s = Some s' \<and> up n m1 B K (R @ bs) D Q c' b s' \<and> length bs = l \<and>
    (\<forall>a. (\<forall>k < l. a \<noteq> pDst + of_nat k) \<longrightarrow> m1 a = m0 a) \<and> (\<forall>k < l. m1 (pDst + of_nat k) = Some (bs ! k)) \<and>
    txMntOngoing s' = txMntOngoing s \<and> later l s s'"
  using assms
proof (induction l arbitrary: pDst m0 R c s)
  case 0
  then show ?case by auto
next
  case (Suc l)
  obtain s1 c1 where 1: "window s = Some s1" "up n m0 B K R D Q c1 (b - progress n Q c s) s1"
    "txMntOngoing s1 = txMntOngoing s" "irqs s1 = drop 1 (irqs s)" using up_window [OF Suc.prems(1)] by blast
  have u1: "up n m0 B K R D Q c1 b s1" using 1(2) by (rule up_mono) simp
  have l1: "later 1 s s1" using 1(4) unfolding later_def by (intro exI [of _ 1]) simp
  have "length R < snd K" using Suc.prems(2) by simp
  then obtain x v where x: "get_ser 0 s1 = Some x" "load8 (rxBuffer x + ucast (rxOut x)) (mem s1) = Some v"
    and u2: "up n m0 B K (R @ [v]) D Q c1 b (s1\<lparr>mSerials := [x\<lparr>rxOut := inc_idx (rxOut x) 33\<rparr>]\<rparr>)" (is "up _ _ _ _ _ _ _ _ _ ?s2")
    using up_pop [OF u1] by blast
  have p: "pDst \<in> B" "pDst \<notin> B0" using Suc.prems(3) by force+
  have "\<forall>r \<in> set (D @ Q). \<forall>k < unat (dataSize r). pData r + of_nat k \<noteq> pDst"
    using Suc.prems(4) p(2) unfolding msgs_in_def msg_ok_def by blast
  note st = up_store [OF u2 p(1) this, of v]
  let ?s3 = "?s2\<lparr>mem := (mem ?s2)(pDst \<mapsto> v)\<rparr>"
  have "put_ser 0 (x\<lparr>rxOut := inc_idx (rxOut x) 33\<rparr>) (s1\<lparr>mem := (mem ?s2)(pDst \<mapsto> v)\<rparr>) = Some ?s3"
    using up_interface(1) [OF u1] by (cases "mSerials s1") (simp_all add: put_ser_def)
  then have run: "read_loop 0 pDst (Suc l) s = read_loop 0 (pDst + 1) l ?s3" using 1(1) x st(1) by simp
  have "\<forall>k < l. (pDst + 1) + of_nat k \<in> B - B0"
  proof (intro allI impI)
    fix k assume "k < l"
    then have "pDst + of_nat (Suc k) \<in> B - B0" using Suc.prems(3) by blast
    then show "(pDst + 1) + of_nat k \<in> B - B0" by (simp add: ac_simps)
  qed
  moreover have "length (R @ [v]) + l \<le> snd K" "l < 2 ^ 32" using Suc.prems(2,5) by simp_all
  ultimately obtain s' m1 c' bs where IH: "read_loop 0 (pDst + 1) l ?s3 = Some s'" "up n m1 B K ((R @ [v]) @ bs) D Q c' b s'" "length bs = l"
    "\<forall>a. (\<forall>k < l. a \<noteq> (pDst + 1) + of_nat k) \<longrightarrow> m1 a = (m0(pDst \<mapsto> v)) a" "\<forall>k < l. m1 ((pDst + 1) + of_nat k) = Some (bs ! k)"
    "txMntOngoing s' = txMntOngoing ?s3" "later l ?s3 s'"
    using Suc.IH [OF st(2)] Suc.prems(4) by blast
  have ne: "(pDst + 1) + of_nat k \<noteq> pDst" if "k < l" for k
  proof -
    have "(of_nat (Suc k) :: ptr) \<noteq> of_nat 0" using that Suc.prems(5) by (subst of_nat_eq_iff_small) simp_all
    then show ?thesis by (simp add: ac_simps)
  qed
  have "m1 (pDst + of_nat k) = Some ((v # bs) ! k)" if "k < Suc l" for k
  proof (cases k)
    case 0
    have "m1 pDst = (m0(pDst \<mapsto> v)) pDst" using IH(4) ne by metis
    then show ?thesis using 0 by simp
  next
    case (Suc j)
    then have "m1 ((pDst + 1) + of_nat j) = Some (bs ! j)" using IH(5) that by simp
    then show ?thesis using Suc by (simp add: ac_simps)
  qed
  moreover have "m1 a = m0 a" if "\<forall>k < Suc l. a \<noteq> pDst + of_nat k" for a
  proof -
    have "a \<noteq> pDst" using that by force
    moreover have "\<forall>k < l. a \<noteq> (pDst + 1) + of_nat k"
    proof (intro allI impI)
      fix k assume "k < l"
      then have "a \<noteq> pDst + of_nat (Suc k)" using that by blast
      then show "a \<noteq> (pDst + 1) + of_nat k" by (simp add: ac_simps)
    qed
    ultimately show ?thesis using IH(4) by simp
  qed
  moreover have "later (Suc l) s s'"
  proof -
    have "later l s1 s'" using IH(7) by (simp add: later_def)
    then show ?thesis using later_trans [OF l1] by fastforce
  qed
  ultimately show ?case using run IH(1-3,6) 1(3)
    by - (rule exI [of _ s'], rule exI [of _ m1], rule exI [of _ c'], rule exI [of _ "v # bs"], simp)
qed


text \<open>How many bytes wait to be read.\<close>

definition waiting_bytes :: "sm \<Rightarrow> nat" where
  "waiting_bytes s = (case get_ser 0 s of None \<Rightarrow> 0 | Some x \<Rightarrow> unat (rx_count x))"

lemma up_waiting:
  assumes "up n m0 B K R D Q c b s"
  shows "\<exists>x. get_ser 0 s = Some x \<and> unat (rx_count x) < 33 \<and> snd K \<le> length R + unat (rx_count x) \<and>
    (j \<le> length R + unat (rx_count x) \<longrightarrow> up n m0 B (fst K, j) R D Q c b s)"
proof -
  obtain H x d u where u: "port_ok n m0 B K R H False D Q c x d u s" "settled u" "line_in u = H" "TIE u \<or> c = length Q" "todo m0 Q c d u \<le> b"
    using assms by (rule upE)
  note w = port_okD [OF u(1)]
  have f: "unat (rx_count x) = rx_fill x" using w(4) by (intro rx_count_fill) (simp_all add: rx_ok_def)
  have "up n m0 B (fst K, j) R D Q c b s" if "j \<le> length R + unat (rx_count x)"
  proof (rule upI)
    show "port_ok n m0 B (fst K, j) R H False D Q c x d u s" using w that f by (simp add: port_ok_def rx_ok_def)
  qed (use u in auto)
  then show ?thesis using wired_get(1) [OF w(1)] w(4) f by (simp add: rx_ok_def)
qed

lemma up_low: "up n m0 B K R D Q c b s \<Longrightarrow> j \<le> snd K \<Longrightarrow> up n m0 B (fst K, j) R D Q c b s"
  using up_waiting [of n m0 B K R D Q c b s j] by auto

lemma up_low_waiting: "up n m0 B K R D Q c b s \<Longrightarrow> up n m0 B (fst K, length R + waiting_bytes s) R D Q c b s"
  using up_waiting [of n m0 B K R D Q c b s "length R + waiting_bytes s"] by (auto simp: waiting_bytes_def)

text \<open>A read delivers at least what waited when it was called, up to the size of the buffer.\<close>

lemma read_ok:
  assumes up: "up n m0 B K R D Q c b s" and pDst: "pDst \<noteq> NULL" "sz \<noteq> 0" "\<forall>k < unat sz. pDst + of_nat k \<in> B - B0"
    and msgs: "msgs_in B0 (D @ Q)"
  shows "\<exists>count s' m1 c' bs. Serial_Read 0 pDst sz s = Some (gSerial_Success_c, Some count, s') \<and>
    up n m1 B (fst K, 0) (R @ bs) D Q c' b s' \<and> length bs = unat count \<and> count \<le> sz \<and>
    (\<forall>a \<in> B0. m1 a = m0 a) \<and> (\<forall>k < unat count. mem s' (pDst + of_nat k) = Some (bs ! k)) \<and>
    min (waiting_bytes s) (unat sz) \<le> unat count \<and> txMntOngoing s' = txMntOngoing s"
proof -
  obtain s1 c1 where 1: "window s = Some s1" "up n m0 B (fst K, length R + waiting_bytes s) R D Q c1 (b - progress n Q c s) s1"
    "txMntOngoing s1 = txMntOngoing s" using up_window [OF up_low_waiting [OF up]] by blast
  obtain x where x: "get_ser 0 s1 = Some x" "unat (rx_count x) < 33" "waiting_bytes s \<le> unat (rx_count x)"
    "up n m0 B (fst K, length R + unat (rx_count x)) R D Q c1 (b - progress n Q c s) s1"
    using up_waiting [OF 1(2), of "length R + unat (rx_count (the (get_ser 0 s1)))"] by auto
  let ?l = "min (rx_count x) sz"
  have l: "unat ?l = min (unat (rx_count x)) (unat sz)" by (simp add: min_def word_le_nat_alt)
  have u: "up n m0 B (fst K, length R + unat (rx_count x)) R D Q c1 b s1" using x(4) by (rule up_mono) simp
  have dst: "\<forall>k < unat ?l. pDst + of_nat k \<in> B - B0" using pDst(3) unfolding l by simp
  have room: "length R + unat ?l \<le> snd (fst K, length R + unat (rx_count x))" and small: "unat ?l < 2 ^ 32" using x(2) unfolding l by auto
  obtain s' m1 c' bs where 2: "read_loop 0 pDst (unat ?l) s1 = Some s'"
    "up n m1 B (fst K, length R + unat (rx_count x)) (R @ bs) D Q c' b s'" "length bs = unat ?l"
    "\<forall>a. (\<forall>k < unat ?l. a \<noteq> pDst + of_nat k) \<longrightarrow> m1 a = m0 a" "\<forall>k < unat ?l. m1 (pDst + of_nat k) = Some (bs ! k)"
    "txMntOngoing s' = txMntOngoing s1"
    using read_loop_ok [OF u room dst msgs small] by blast
  have "Serial_Read 0 pDst sz s = Some (gSerial_Success_c, Some ?l, s')"
    using 1(1) x(1) 2(1) pDst(1,2) up_interface(1) [OF up] by (simp add: Serial_Read_def Let_def)
  moreover have "up n m1 B (fst K, 0) (R @ bs) D Q c' b s'" using up_low [OF 2(2), of 0] by simp
  moreover have "m1 a = m0 a" if "a \<in> B0" for a
  proof -
    have "\<forall>k < unat ?l. a \<noteq> pDst + of_nat k" using dst that by blast
    then show ?thesis using 2(4) by blast
  qed
  moreover have "mem s' (pDst + of_nat k) = Some (bs ! k)" if "k < unat ?l" for k
  proof -
    have "pDst + of_nat k \<in> B" using dst that by blast
    then have "mem s' (pDst + of_nat k) = m1 (pDst + of_nat k)"
      using 2(2) by (auto elim!: upE dest!: port_okD(5) simp: mem_ok_def)
    then show ?thesis using 2(5) that by simp
  qed
  moreover have "min (waiting_bytes s) (unat sz) \<le> unat ?l" unfolding l using x(3) by (rule min.mono) simp
  moreover have "?l \<le> sz" by simp
  ultimately show ?thesis using 2(3,6) 1(3) by metis
qed


section \<open>The task\<close>

lemma event_wait_ok:
  assumes "ev_ok s" "out \<noteq> NULL"
  shows "\<exists>st fl o'. OSA_EventWait timer (mSMTaskEventId s) want False osaWaitForever_c out (os s) = Some (st, fl, o') \<and> ev_ok (s\<lparr>os := o'\<rparr>)"
proof -
  let ?id = "mSMTaskEventId s" and ?h = "osEvents (os s)" and ?cur = "OSA_TaskGetId (tasks (os s))"
  obtain e where ok: "objs_ok ?h" "cur_ok (os s)" and e: "live ?id ?h = Some e" using assms(1) by (auto simp: ev_ok_def)
  have cur: "?cur \<in> dom (tcbs (tasks (os s)))" using ok(2) by (simp add: cur_ok_def OSA_TaskGetId_def)
  have put: "\<exists>h. obj_put ?id e' ?h = Some h \<and> ev_ok (s\<lparr>os := (os s)\<lparr>osEvents := h, tasks := t\<rparr>\<rparr>)"
    if "ev_waitingTask e' = ?cur" "dom (tcbs t) = dom (tcbs (tasks (os s)))" "g_curTask t = g_curTask (tasks (os s))" for e' t
    using live_put [OF ok(1) e, of e'] ok(2) cur that by (auto simp: ev_ok_def cur_ok_def)
  obtain t where t: "mod_tcb ?cur (haveToRun_update (\<lambda>_. False)) (tasks (os s)) = Some t"
    "dom (tcbs t) = dom (tcbs (tasks (os s)))" "g_curTask t = g_curTask (tasks (os s))"
    using cur insert_absorb [OF cur] by (auto simp: mod_tcb_def get_tcb_def)
  let ?e = "e\<lparr>ev_waitingTask := ?cur\<rparr>"
  note g = live_get [OF ok(1) e] assms(2)
  show ?thesis
    using g t(1) put [OF _ refl refl, of ?e] put [OF _ t(2,3), of ?e] put [OF _ refl refl, of "?e\<lparr>ev_isWaiting := False\<rparr>"]
      put [OF _ refl refl, of "?e\<lparr>ev_isWaiting := False, flags := flags e AND NOT want\<rparr>"]
    by (auto simp: OSA_EventWait_def Let_def)
qed


lemma up_os:
  assumes "up n m0 B K R D Q c b s" "ev_ok (s\<lparr>os := o'\<rparr>)"
  shows "up n m0 B K R D Q c b (s\<lparr>os := o'\<rparr>)"
  using assms(1)
proof (rule upE)
  fix H x d u assume u: "port_ok n m0 B K R H False D Q c x d u s" "settled u" "line_in u = H" "TIE u \<or> c = length Q" "todo m0 Q c d u \<le> b"
  note p = port_okD [OF u(1)]
  have "port_ok n m0 B K R H False D Q c x d u (s\<lparr>os := o'\<rparr>)" using p assms(2) wired_upd(4) [OF p(1)] by (simp add: port_ok_def)
  then show ?thesis by (rule upI) (use u in simp_all)
qed

lemma up_ev_ok: "up n m0 B K R D Q c b s \<Longrightarrow> ev_ok s"
  by (auto elim!: upE dest: port_okD(6))

lemma up_window_weak:
  assumes "up n m0 B K R D Q c b s"
  shows "\<exists>s' c'. window s = Some s' \<and> up n m0 B K R D Q c' b s' \<and> txMntOngoing s' = txMntOngoing s"
  using up_window [OF assms] up_mono [of n m0 B K R D Q _ "b - progress n Q c s" _ b] by fastforce

lemma up_events:
  assumes "up n m0 B K R D Q c b s"
  shows "\<exists>x. get_ser 0 s = Some x \<and> put_ser 0 (x\<lparr>events := ev\<rparr>) s = Some (s\<lparr>mSerials := [x\<lparr>events := ev\<rparr>]\<rparr>) \<and>
    up n m0 B K R D Q c b (s\<lparr>mSerials := [x\<lparr>events := ev\<rparr>]\<rparr>)"
  using assms
proof (rule upE)
  fix H x d u assume u: "port_ok n m0 B K R H False D Q c x d u s" "settled u" "line_in u = H" "TIE u \<or> c = length Q" "todo m0 Q c d u \<le> b"
  note p = port_okD [OF u(1)]
  have "up n m0 B K R D Q c b (s\<lparr>mSerials := [x\<lparr>events := ev\<rparr>]\<rparr>)" by (rule upI [OF port_events [OF u(1)]]) (use u in simp_all)
  then show ?thesis using wired_get(1) [OF p(1)] wired_put(1) [OF p(1)] by blast
qed

text \<open>An interface of which the transmitter is idle has no request to start.\<close>

lemma up_current:
  assumes "up n m0 B K R D Q c b s"
  shows "\<exists>x m. get_ser 0 s = Some x \<and> rxCallback x = NULL \<and> nth_opt (txQueue x) (unat (txCurrent x)) = Some m \<and>
    \<not> (state x = 0 \<and> 0 < dataSize m)"
  using assms
proof (rule upE)
  fix H x d u assume u: "port_ok n m0 B K R H False D Q c x d u s" "TIE u \<or> c = length Q"
  note p = port_okD [OF u(1)]
  have "dataSize (txQueue x ! unat (txCurrent x)) = 0" if "state x = 0"
    using that u(2) p(9) ring_current(4) [OF p(8)] by (auto simp: sender_ok_def split: if_splits)
  then have "\<not> (state x = 0 \<and> 0 < dataSize (txQueue x ! unat (txCurrent x)))" by auto
  moreover have "rxCallback x = NULL" using p(1) by (simp add: wired_def)
  ultimately show ?thesis using wired_get(1) [OF p(1)] ring_current(1) [OF p(8)] by blast
qed

lemma task_interface_ok:
  assumes up: "up n m0 B K R D Q c b s" and user: "quiet_user user" and free: "\<not> txMntOngoing s"
  shows "\<exists>dn s' D' Q' c'. task_interface user fuel 0 s = Some (dn, s') \<and> up n m0 B K R D' Q' c' b s' \<and> D' @ Q' = D @ Q \<and>
    (dn \<longrightarrow> \<not> txMntOngoing s') \<and> (5 < fuel \<longrightarrow> dn)"
proof -
  obtain s1 c1 where 1: "window s = Some s1" "up n m0 B K R D Q c1 b s1" "txMntOngoing s1 = txMntOngoing s"
    using up_window_weak [OF up] by blast
  obtain x1 where x1: "get_ser 0 s1 = Some x1" "put_ser 0 (x1\<lparr>events := 0\<rparr>) s1 = Some (s1\<lparr>mSerials := [x1\<lparr>events := 0\<rparr>]\<rparr>)"
    "up n m0 B K R D Q c1 b (s1\<lparr>mSerials := [x1\<lparr>events := 0\<rparr>]\<rparr>)" using up_events [OF 1(2)] by blast
  obtain s2 c2 where 2: "window (s1\<lparr>mSerials := [x1\<lparr>events := 0\<rparr>]\<rparr>) = Some s2" "up n m0 B K R D Q c2 b s2" "\<not> txMntOngoing s2"
    using up_window_weak [OF x1(3)] 1(3) free by auto
  obtain x2 where x2: "get_ser 0 s2 = Some x2" "rxCallback x2 = NULL" using up_current [OF 2(2)] by blast
  let ?M = "if events x1 AND gSMGR_TxDone_c \<noteq> 0 then Serial_TxQueueMaintenance user fuel 0 s2 else Some (True, s2)"
  obtain dn s3 D' Q' c3 where 3: "?M = Some (dn, s3)" "up n m0 B K R D' Q' c3 b s3" "D' @ Q' = D @ Q"
    "dn \<longrightarrow> \<not> txMntOngoing s3" "5 < fuel \<longrightarrow> dn"
  proof (cases "events x1 AND gSMGR_TxDone_c \<noteq> 0")
    case True
    obtain dn s' j c' where "Serial_TxQueueMaintenance user fuel 0 s2 = Some (dn, s')" "up n m0 B K R (D @ take j Q) (drop j Q) c' b s'"
      "length Q < fuel \<longrightarrow> dn" "dn \<longrightarrow> c' = 0 \<and> \<not> txMntOngoing s'" using maintenance_ok [OF 2(2) user 2(3), of fuel] by blast
    then show thesis using that [of dn s' "D @ take j Q" "drop j Q" c'] True up_bounds(2) [OF up] by simp
  next
    case False
    then show thesis using that [of True s2 D Q c2] 2(2,3) by simp
  qed
  have run: "task_interface user fuel 0 s = (if \<not> dn then Some (False, s3) else do {
      s \<leftarrow> window s3; x \<leftarrow> get_ser 0 s; m \<leftarrow> nth_opt (txQueue x) (unat (txCurrent x));
      s \<leftarrow> (if state x = 0 \<and> 0 < dataSize m then do { (st, s) \<leftarrow> Serial_WriteInternal window 0 s; Some s } else Some s);
      Some (True, s) })"
    using 1(1) x1(1,2) 2(1) x2 3(1) by (simp add: task_interface_def Let_def)
  show ?thesis
  proof (cases dn)
    case False
    then have "task_interface user fuel 0 s = Some (dn, s3)" using run by simp
    then show ?thesis using 3(2-5) by blast
  next
    case True
    obtain s4 c4 where 4: "window s3 = Some s4" "up n m0 B K R D' Q' c4 b s4" "txMntOngoing s4 = txMntOngoing s3"
      using up_window_weak [OF 3(2)] by blast
    obtain x4 m4 where "get_ser 0 s4 = Some x4" "nth_opt (txQueue x4) (unat (txCurrent x4)) = Some m4" "\<not> (state x4 = 0 \<and> 0 < dataSize m4)"
      using up_current [OF 4(2)] by blast
    then have "task_interface user fuel 0 s = Some (True, s4)" using run True 4(1) by auto
    then show ?thesis using 4(2,3) 3(3,4) True by blast
  qed
qed

lemma task_ok:
  assumes up: "up n m0 B K R D Q c b s" and user: "quiet_user user" and free: "\<not> txMntOngoing s"
  shows "\<exists>dn s' D' Q' c'. SerialManagerTask timer user fuel s = Some (dn, s') \<and> up n m0 B K R D' Q' c' b s' \<and> D' @ Q' = D @ Q \<and>
    (dn \<longrightarrow> \<not> txMntOngoing s') \<and> (5 < fuel \<longrightarrow> dn)"
proof -
  obtain s1 c1 where 1: "window s = Some s1" "up n m0 B K R D Q c1 b s1" "txMntOngoing s1 = txMntOngoing s"
    using up_window_weak [OF up] by blast
  obtain st fl o' where w: "OSA_EventWait timer (mSMTaskEventId s1) 0xFFFFFF False osaWaitForever_c 4 (os s1) = Some (st, fl, o')"
    "ev_ok (s1\<lparr>os := o'\<rparr>)" using event_wait_ok [OF up_ev_ok [OF 1(2)], of 4 timer "0xFFFFFF"] by auto
  have u: "up n m0 B K R D Q c1 b (s1\<lparr>os := o'\<rparr>)" by (rule up_os [OF 1(2) w(2)])
  obtain dn s' D' Q' c' where "task_interface user fuel 0 (s1\<lparr>os := o'\<rparr>) = Some (dn, s')" "up n m0 B K R D' Q' c' b s'"
    "D' @ Q' = D @ Q" "dn \<longrightarrow> \<not> txMntOngoing s'" "5 < fuel \<longrightarrow> dn"
    using task_interface_ok [OF u user, of fuel] 1(3) free by auto
  then show ?thesis using 1(1) w(1) up_interface(1) [OF 1(2)] by (auto simp: SerialManagerTask_def)
qed

end
