(* ===== verification/Serial_Client.thy ===== *)
theory Serial_Client
  imports Serial_Session
begin

text \<open>
  An interface from power-on: the serial manager is initialised and an interface is opened; a client
  runs any sequence of operations on it. \<open>serving\<close> is the invariant of such a run; what is printed in
  decimal is related to the digits of the number.
\<close>

section \<open>Start\<close>

text \<open>The state before \<open>SerialManager_Init\<close>: peripherals that were not used, an event and a task
  control block that are free, and memory for the client, at the addresses \<open>B\<close>, and for the
  receive buffer.\<close>

definition buffers_ok :: "ptr set \<Rightarrow> bytes \<Rightarrow> serial \<Rightarrow> bool" where
  "buffers_ok B m x \<longleftrightarrow> B \<subseteq> dom m \<and> mapped m (rxBuffer x) 33 \<and>
     (\<forall>k < 33. rxBuffer x + of_nat k \<notin> B \<and> rxBuffer x + of_nat k \<noteq> NULL)"

definition os_ready :: "os_state \<Rightarrow> bool" where
  "os_ready o' \<longleftrightarrow> objs_ok (osEvents o') \<and> (\<exists>i < length (objects (osEvents o')). fst (objects (osEvents o') ! i) = 0) \<and>
     (\<exists>xs f fs. sched (tasks o') xs (f # fs) \<and> g_curTask (tasks o') \<in> set xs)"

definition off :: "lpuart \<Rightarrow> bool" where
  "off u \<longleftrightarrow> \<not> TIE u \<and> \<not> RIE u \<and> line_out u = [] \<and> line_in u = []"

definition power_on :: "ptr set \<Rightarrow> sm \<Rightarrow> bool" where
  "power_on B s \<longleftrightarrow> length (mSerials s) = 1 \<and> length (mDrvData s) = 1 \<and> \<not> initialized s \<and> \<not> txMntOngoing s \<and>
     calls s = [] \<and> taken s = [] \<and> length (pLpuartStates s) = 4 \<and> length (lpuarts s) = 4 \<and>
     list_all off (lpuarts s) \<and> os_ready (os s) \<and> buffers_ok B (mem s) (mSerials s ! 0)"

lemma create_event_ok:
  assumes "objs_ok (osEvents o')" "i < length (objects (osEvents o'))" "fst (objects (osEvents o') ! i) = 0"
  shows "\<exists>p e h. OSA_EventCreate auto o' = Some (p, o'\<lparr>osEvents := h\<rparr>) \<and> p \<noteq> NULL \<and> objs_ok h \<and> live p h = Some e \<and> ev_waitingTask e = NULL"
proof -
  obtain p h1 where a: "osObjectAlloc (osEvents o') = (p, h1)" by (rule prod.exhaust)
  have l: "objs_ok h1" "p \<noteq> NULL" "\<exists>x. live p h1 = Some x" using live_alloc [OF assms(1) a] assms(2,3) by (auto split: if_splits)
  then obtain x where x: "live p h1 = Some x" by blast
  let ?e = "\<lparr>ev_isWaiting = False, ev_time_start = 0, ev_timeout = 0, flags = 0, autoClear = auto, ev_waitingTask = NULL\<rparr>"
  obtain h where "obj_put p ?e h1 = Some h" "objs_ok h" "live p h = Some ?e" using live_put [OF l(1) x, of ?e] by blast
  then show ?thesis using a l(2)
    by (intro exI [of _ p] exI [of _ ?e] exI [of _ h]) (simp add: OSA_EventCreate_def)
qed

lemma create_task_ok:
  assumes "sched t xs (f # fs)" "g_curTask t \<in> set xs"
  shows "\<exists>t'. OSA_TaskCreate def prm t = Some (f, t') \<and> f \<noteq> NULL \<and> g_curTask t' \<in> dom (tcbs t')"
proof -
  obtain t' where t: "OSA_TaskCreate def prm t = Some (f, t')" "sched t' (place (prio (tcbs t')) f xs) fs" "g_curTask t' = g_curTask t"
    using OSA_TaskCreate_ok [OF assms(1)] by blast
  have "g_curTask t' \<in> set (place (prio (tcbs t')) f xs)" using t(3) assms(2) by (simp add: place_set)
  from sched_mark [OF t(2) this, of True] have "g_curTask t' \<in> dom (tcbs t')" by (auto simp: mod_tcb_def get_tcb_def split: bind_splits)
  moreover have "f \<noteq> NULL" using assms(1) by (auto simp: sched_def)
  ultimately show ?thesis using t(1) by blast
qed

lemma clear_buffer:
  assumes "buffers_ok B m x"
  shows "\<exists>m'. clear_buffers [x] m = Some m' \<and> (\<forall>a \<in> B. m' a = m a) \<and> mem_ok m B (clear_serial x) m'"
proof -
  let ?p = "rxBuffer x" and ?m = "filled m (rxBuffer x) (\<lambda>_. 0) 33"
  have map: "mapped m ?p 33" and B: "B \<subseteq> dom m" and rx: "\<forall>k < 33. ?p + of_nat k \<notin> B \<and> ?p + of_nat k \<noteq> NULL"
    using assms by (simp_all add: buffers_ok_def)
  have "clear_buffers [x] m = Some ?m"
    using FLib_MemSet_loop_ok [OF _ map, of 0] by (simp add: FLib_MemSet_def)
  moreover have eq: "?m a = m a" if "a \<in> B" for a
  proof -
    have "a \<noteq> ?p + of_nat k" if "k < 33" for k using rx that \<open>a \<in> B\<close> by blast
    from this [of "unat (a - ?p)"] have "\<not> unat (a - ?p) < 33" by fastforce
    then show ?thesis by (simp add: filled_def)
  qed
  moreover have "?p + of_nat k \<in> dom ?m" if "k < 33" for k
    using that unat_of_nat_small [of k, where 'a = 32] by (simp add: filled_def domIff)
  ultimately show ?thesis using B rx by (intro exI [of _ ?m]) (auto simp: mem_ok_def clear_serial_def)
qed


lemma serial_init_ok:
  assumes "power_on B s"
  shows "\<exists>s'. SerialManager_Init s = Some s' \<and> initialized s' \<and> mSerials s' = map clear_serial (mSerials s) \<and>
    mDrvData s' = mDrvData s \<and> pLpuartStates s' = pLpuartStates s \<and> lpuarts s' = lpuarts s \<and> txMntOngoing s' = txMntOngoing s \<and>
    calls s' = calls s \<and> taken s' = taken s \<and> irqs s' = irqs s \<and> ev_ok s' \<and> mem_ok (mem s) B (mSerials s' ! 0) (mem s')"
proof -
  obtain x where x: "mSerials s = [x]" using assms by (cases "mSerials s") (auto simp: power_on_def)
  have b: "buffers_ok B (mem s) x" "\<not> initialized s" "os_ready (os s)" using assms x by (simp_all add: power_on_def)
  obtain m where m: "clear_buffers [x] (mem s) = Some m" "mem_ok (mem s) B (clear_serial x) m" using clear_buffer [OF b(1)] by blast
  obtain i xs f fs where o': "objs_ok (osEvents (os s))" "i < length (objects (osEvents (os s)))" "fst (objects (osEvents (os s)) ! i) = 0"
    "sched (tasks (os s)) xs (f # fs)" "g_curTask (tasks (os s)) \<in> set xs" using b(3) by (auto simp: os_ready_def)
  obtain p e h where e: "OSA_EventCreate True (os s) = Some (p, (os s)\<lparr>osEvents := h\<rparr>)" "p \<noteq> NULL" "objs_ok h" "live p h = Some e" "ev_waitingTask e = NULL"
    using create_event_ok [OF o'(1-3), of True] by blast
  obtain t where t: "OSA_TaskCreate \<lparr>pthread = 3, tpriority = 3\<rparr> NULL (tasks (os s)) = Some (f, t)" "f \<noteq> NULL" "g_curTask t \<in> dom (tcbs t)"
    using create_task_ok [OF o'(4,5)] by blast
  let ?s = "s\<lparr>initialized := True, mem := m, mSerials := map clear_serial (mSerials s), mSMTaskEventId := p,
    gSerialManagerTaskId := f, os := (os s)\<lparr>osEvents := h, tasks := t\<rparr>\<rparr>"
  have "SerialManager_Init s = Some ?s"
    using b(2) x m(1) e(1,2) t(1,2) by (simp add: SerialManager_Init_def Let_def)
  moreover have "ev_ok ?s" using e(3-5) t(3) by (simp add: ev_ok_def cur_ok_def)
  moreover have "mem_ok (mem s) B (mSerials ?s ! 0) (mem ?s)" using m(2) x by simp
  ultimately show ?thesis by (intro exI [of _ ?s]) simp
qed

text \<open>The interface is opened.\<close>

lemma serial_open_ok:
  assumes "power_on B s0" "SerialManager_Init s0 = Some s" "instance < 4"
  shows "\<exists>s'. Serial_InitInterface gSerialMgrLpuart_c instance s = Some (gSerial_Success_c, 0, s') \<and>
    up (ucast instance) (mem s0) B (32, 0) [] [] [] 0 0 s' \<and> \<not> txMntOngoing s' \<and> irqs s' = irqs s0"
proof -
  let ?n = "ucast instance :: u32"
  obtain x d where xd: "mSerials s0 = [x]" "mDrvData s0 = [d]"
    using assms(1) by (cases "mSerials s0"; cases "mDrvData s0") (auto simp: power_on_def)
  have s: "mSerials s = [clear_serial x]" "mDrvData s = [d]" "length (pLpuartStates s) = 4" "length (lpuarts s) = 4" "list_all off (lpuarts s)"
    "\<not> txMntOngoing s" "calls s = []" "taken s = []" "irqs s = irqs s0" "ev_ok s" "mem_ok (mem s0) B (clear_serial x) (mem s)"
    using serial_init_ok [OF assms(1)] assms(1,2) xd by (auto simp: power_on_def)
  have i: "unat ?n = unat instance" by (rule unat_ucast_up) simp
  have n4: "unat instance < 4" using assms(3) by (simp add: word_less_nat_alt)
  then have n: "?n < 4" "\<not> 4 \<le> ?n" using i by (simp_all add: word_less_nat_alt word_le_nat_alt)
  let ?u0 = "lpuarts s ! unat ?n"
  let ?u = "?u0\<lparr>tx_data := None, tx_shift := None, rx_data := None, overrun := False, rx_edge := False, TIE := False, RIE := True, RXEDGIE := False\<rparr>"
  let ?x = "(clear_serial x)\<lparr>serialChannel := instance, serialType := gSerialMgrLpuart_c\<rparr>"
  let ?d = "d\<lparr>rxCb := 1, txCb := 2, rxCbParam := 0, txCbParam := 0, pRxData := rxBuffer x, pTxData := NULL, rxSize := 0, txSize := 0\<rparr>"
  let ?s = "s\<lparr>mSerials := [?x], mDrvData := [?d], pLpuartStates := (pLpuartStates s)[unat ?n := Some 0], lpuarts := (lpuarts s)[unat ?n := ?u]\<rparr>"
  have len: "unat ?n < length (pLpuartStates s)" "unat ?n < length (lpuarts s)" using s(3,4) n4 i by simp_all
  have run: "Serial_InitInterface gSerialMgrLpuart_c instance s = Some (gSerial_Success_c, 0, ?s)"
    using s(1,2) n len
    by (simp add: Serial_InitInterface_def get_ser_def put_ser_def mod_ser_def clear_serial_def open_lpuart_def LPUART_Initialize_def
        LPUART_InstallRxCalback_def LPUART_InstallTxCalback_def get_uart_def put_uart_def uart_index_def get_lpuart_def put_lpuart_def)
  have offs: "off (lpuarts s ! k)" if "k < length (lpuarts s)" for k using s(5) that by (simp add: list_all_length)
  have w: "wired ?n ?x ?d ?u ?s" using n len offs s(3,4) by (auto simp: wired_def off_def clear_serial_def nth_list_update)
  have ring: "ring_ok ?x [] 0" by (simp add: ring_ok_def clear_serial_def free_slots_def)
  have "line_bytes ?u = []" using offs [OF len(2)] by (simp add: line_bytes_def off_def)
  then have tx: "tx_ok (mem s0) False ?x ?d ?u [] 0 (concat (map (msg_bytes (mem s0)) ([] @ [])))"
    using ring by (simp add: tx_ok_def sender_ok_def rest_bytes_def clear_serial_def)
  have f: "rx_fill ?x = 0" by (simp add: rx_fill_def clear_serial_def)
  then have items: "rx_items ?x m = []" for m by (simp add: rx_items_def ring_read_def)
  have rx: "rx_ok (32, 0) [] ?x ?d (line_in ?u) (mem ?s)"
    using offs [OF len(2)] items by (simp add: rx_ok_def off_def) (simp add: clear_serial_def)
  have "mem_ok (mem s0) B ?x (mem ?s)" using s(11) mem_ok_cong [of ?x "clear_serial x"] by simp
  moreover have "ev_ok ?s" using s(10) by (simp add: ev_ok_def)
  moreover have "log_ok B [] [] ?s" using s(7,8) by (simp add: log_ok_def calls_of_def)
  ultimately have "port_ok ?n (mem s0) B (32, 0) [] (line_in ?u) False [] [] 0 ?x ?d ?u ?s" using w tx rx by (simp add: port_ok_def)
  then have "up ?n (mem s0) B (32, 0) [] [] [] 0 0 ?s" by (rule upI) (simp_all add: settled_def todo_def rest_bytes_def)
  then show ?thesis using run s(6,9) by (intro exI [of _ ?s]) simp
qed


section \<open>A client\<close>

text \<open>What the client of interface 0 does: it writes, with or without waiting for the end, reads into a
  buffer, or runs the task once. The flag says whether the operation came to its end; the bytes are
  those that were read. A run stops at an operation that still waits.\<close>

datatype client_op = Write ptr u16 ptr ptr | WriteSync ptr u16 | Read ptr u16 | Task bool

fun client :: "user \<Rightarrow> nat \<Rightarrow> client_op \<Rightarrow> sm \<Rightarrow> (bool \<times> u8 list \<times> sm) option" where
  "client user fuel (Write p l cb prm) s = do {
     (st, s) \<leftarrow> Serial_AsyncWrite user fuel 0 p l cb prm s; Some (st \<noteq> None, [], s) }"
| "client user fuel (WriteSync p l) s = do { (st, s) \<leftarrow> Serial_SyncWrite user fuel 0 p l s; Some (st \<noteq> None, [], s) }"
| "client user fuel (Read p sz) s = do {
     (st, count, s) \<leftarrow> Serial_Read 0 p sz s;
     Some (True, map (\<lambda>k. the (mem s (p + of_nat k))) [0..<unat (case count of None \<Rightarrow> 0 | Some k \<Rightarrow> k)], s) }"
| "client user fuel (Task timer) s = do { (dn, s) \<leftarrow> SerialManagerTask timer user fuel s; Some (dn, [], s) }"

fun session :: "user \<Rightarrow> nat \<Rightarrow> client_op list \<Rightarrow> sm \<Rightarrow> (bool \<times> u8 list \<times> sm) option" where
  "session user fuel [] s = Some (True, [], s)"
| "session user fuel (op # ops) s = do {
     (go, bs, s) \<leftarrow> client user fuel op s;
     if go then do { (go, rs, s) \<leftarrow> session user fuel ops s; Some (go, bs @ rs, s) } else Some (False, bs, s) }"

text \<open>Requests are made of memory in \<open>B\<close>, buffers to read into lie in \<open>P\<close>.\<close>

definition block_in :: "ptr set \<Rightarrow> ptr \<Rightarrow> nat \<Rightarrow> bool" where
  "block_in B p l \<longleftrightarrow> p \<noteq> NULL \<and> 0 < l \<and> (\<forall>k < l. p + of_nat k \<in> B)"

fun serial_op_ok :: "ptr set \<Rightarrow> ptr set \<Rightarrow> client_op \<Rightarrow> bool" where
  "serial_op_ok B P (Write p l cb prm) \<longleftrightarrow> block_in B p (unat l)"
| "serial_op_ok B P (WriteSync p l) \<longleftrightarrow> block_in B p (unat l)"
| "serial_op_ok B P (Read p sz) \<longleftrightarrow> block_in P p (unat sz)"
| "serial_op_ok B P (Task timer) \<longleftrightarrow> True"

fun asked :: "client_op \<Rightarrow> (ptr \<times> u16 \<times> ptr) list" where
  "asked (Write p l cb prm) = [(p, l, cb)]"
| "asked (WriteSync p l) = [(p, l, NULL)]"
| "asked (Read p sz) = []"
| "asked (Task timer) = []"

definition request_view :: "SerialMsg \<Rightarrow> ptr \<times> u16 \<times> ptr" where
  "request_view r = (pData r, dataSize r, txCallback r)"

text \<open>The invariant of a run: \<open>E\<close> are the requests that were accepted so far.\<close>

definition serving :: "u32 \<Rightarrow> bytes \<Rightarrow> ptr set \<Rightarrow> ptr set \<Rightarrow> nat \<Rightarrow> u8 list \<Rightarrow> SerialMsg list \<Rightarrow> sm \<Rightarrow> bool" where
  "serving n m0 B P K R E s \<longleftrightarrow> (\<exists>m1 D Q c b. up n m1 (B \<union> P) (K, 0) R D Q c b s \<and> D @ Q = E \<and> msgs_in B E \<and>
     (\<forall>a \<in> B. m1 a = m0 a))"

lemma servingI:
  "up n m1 (B \<union> P) (K, 0) R D Q c b s \<Longrightarrow> D @ Q = E \<Longrightarrow> msgs_in B E \<Longrightarrow> \<forall>a \<in> B. m1 a = m0 a \<Longrightarrow> serving n m0 B P K R E s"
  unfolding serving_def by blast

lemma servingE:
  assumes "serving n m0 B P K R E s"
  obtains m1 D Q c b where "up n m1 (B \<union> P) (K, 0) R D Q c b s" "D @ Q = E" "msgs_in B E" "\<forall>a \<in> B. m1 a = m0 a"
  using assms unfolding serving_def by blast

lemma msg_ok_block:
  "msg_ok B \<lparr>txCallback = cb, pTxParam = prm, pData = p, dataSize = l\<rparr> \<longleftrightarrow> block_in B p (unat l)"
  by (auto simp: msg_ok_def block_in_def unat_gt_0)

lemma block_in_mono: "block_in B p l \<Longrightarrow> B \<subseteq> B' \<Longrightarrow> block_in B' p l"
  by (auto simp: block_in_def)

lemma client_step:
  assumes run: "serving n m0 B P K R E s" and free: "\<not> txMntOngoing s" and user: "quiet_user user"
    and ok: "serial_op_ok B P op" and dis: "B \<inter> P = {}"
  shows "\<exists>go bs s' E'. client user fuel op s = Some (go, bs, s') \<and> serving n m0 B P K (R @ bs) (E @ E') s' \<and>
    (go \<longrightarrow> \<not> txMntOngoing s' \<and> map request_view E' = asked op)"
proof -
  obtain m1 D Q c b where u: "up n m1 (B \<union> P) (K, 0) R D Q c b s" "D @ Q = E" "msgs_in B E" "\<forall>a \<in> B. m1 a = m0 a"
    using run by (rule servingE)
  show ?thesis
  proof (cases op)
    case (Write p l cb prm)
    let ?r = "\<lparr>txCallback = cb, pTxParam = prm, pData = p, dataSize = l\<rparr>"
    have r: "msg_ok B ?r" "msg_ok (B \<union> P) ?r" using ok block_in_mono [of B p "unat l" "B \<union> P"] by (simp_all add: Write msg_ok_block)
    obtain st s' where w: "Serial_AsyncWrite user fuel 0 p l cb prm s = Some (st, s')"
      "wrote n m1 (B \<union> P) (K, 0) R (D @ Q) ?r (b + 3 * unat l) (fuel * (fuel + 2) + 3) st s s'"
      using async_write_ok [OF u(1) user free r(2), of fuel] by blast
    let ?E = "if st = None then [] else [?r]"
    obtain D' Q' c' where w': "up n m1 (B \<union> P) (K, 0) R D' Q' c' (b + 3 * unat l) s'" "D' @ Q' = E @ ?E"
      "st \<noteq> None \<longrightarrow> \<not> txMntOngoing s'" using w(2) u(2) unfolding wrote_def by auto
    have msgs: "msgs_in B (E @ ?E)" using u(3) r(1) by (simp add: msgs_in_def)
    have "serving n m0 B P K (R @ []) (E @ ?E) s'" by (rule servingI) (use w'(1) in simp, (use w'(2) msgs u(4) in simp_all))
    then show ?thesis using w(1) w'(3)
      by (intro exI [of _ "st \<noteq> None"] exI [of _ "[]"] exI [of _ s'] exI [of _ ?E]) (simp add: Write request_view_def)
  next
    case (WriteSync p l)
    let ?r = "\<lparr>txCallback = NULL, pTxParam = self (mSerials s ! 0), pData = p, dataSize = l\<rparr>"
    have r: "msg_ok B ?r" "msg_ok (B \<union> P) ?r" using ok block_in_mono [of B p "unat l" "B \<union> P"] by (simp_all add: WriteSync msg_ok_block)
    obtain st s' D' Q' c' where w: "Serial_SyncWrite user fuel 0 p l s = Some (st, s')"
      "up n m1 (B \<union> P) (K, 0) R D' Q' c' (b + 3 * unat l) s'" "D' @ Q' = D @ Q \<or> D' @ Q' = D @ Q @ [?r]"
      "st \<noteq> None \<longrightarrow> \<not> txMntOngoing s' \<and> D' @ Q' = D @ Q @ [?r]"
      using sync_write_ok [OF u(1) user free r(2), of fuel] by blast
    obtain E' where E': "D' @ Q' = E @ E'" "E' = [] \<or> E' = [?r]" "st \<noteq> None \<longrightarrow> E' = [?r]"
      using w(3,4) u(2) that [of "[]"] that [of "[?r]"] by (cases "st = None") auto
    have msgs: "msgs_in B (E @ E')" using u(3) r(1) E'(2) by (auto simp: msgs_in_def)
    have "serving n m0 B P K (R @ []) (E @ E') s'" by (rule servingI) (use w(2) in simp, (use E'(1) msgs u(4) in simp_all))
    then show ?thesis using w(1,4) E'(3)
      by (intro exI [of _ "st \<noteq> None"] exI [of _ "[]"] exI [of _ s'] exI [of _ E']) (simp add: WriteSync request_view_def)
  next
    case (Read p sz)
    have nz: "p \<noteq> NULL" "sz \<noteq> 0" using ok by (auto simp: Read block_in_def)
    have dst: "\<forall>k < unat sz. p + of_nat k \<in> (B \<union> P) - B" using ok dis by (auto simp: Read block_in_def)
    have msgs: "msgs_in B (D @ Q)" using u(2,3) by simp
    obtain count s' m2 c' bs where w: "Serial_Read 0 p sz s = Some (gSerial_Success_c, Some count, s')"
      "up n m2 (B \<union> P) (K, 0) (R @ bs) D Q c' b s'" "length bs = unat count" "\<forall>a \<in> B. m2 a = m1 a"
      "\<forall>k < unat count. mem s' (p + of_nat k) = Some (bs ! k)" "txMntOngoing s' = txMntOngoing s"
      using read_ok [OF u(1) nz dst msgs] unfolding fst_conv by blast
    have "map (\<lambda>k. the (mem s' (p + of_nat k))) [0..<unat count] = bs"
      using w(3,5) by (intro nth_equalityI) simp_all
    then have "client user fuel op s = Some (True, bs, s')" using w(1) by (simp add: Read)
    moreover have "serving n m0 B P K (R @ bs) (E @ []) s'" by (rule servingI [OF w(2)]) (simp_all add: w(4) u(2-4))
    ultimately show ?thesis using w(6) free
      by (intro exI [of _ True] exI [of _ bs] exI [of _ s'] exI [of _ "[]"]) (simp add: Read)
  next
    case (Task timer)
    obtain dn s' D' Q' c' where w: "SerialManagerTask timer user fuel s = Some (dn, s')" "up n m1 (B \<union> P) (K, 0) R D' Q' c' b s'"
      "D' @ Q' = D @ Q" "dn \<longrightarrow> \<not> txMntOngoing s'" using task_ok [OF u(1) user free, of timer fuel] by blast
    have "serving n m0 B P K (R @ []) (E @ []) s'" by (rule servingI) (use w(2) in simp, (use w(3) u(2-4) in simp_all))
    then show ?thesis using w(1,4)
      by (intro exI [of _ dn] exI [of _ "[]"] exI [of _ s'] exI [of _ "[]"]) (simp add: Task)
  qed
qed


lemma session_ok:
  assumes "serving n m0 B P K R E s" "\<not> txMntOngoing s" "quiet_user user" "list_all (serial_op_ok B P) ops" "B \<inter> P = {}"
  shows "\<exists>go rs s' E'. session user fuel ops s = Some (go, rs, s') \<and> serving n m0 B P K (R @ rs) (E @ E') s' \<and>
    (go \<longrightarrow> \<not> txMntOngoing s' \<and> map request_view E' = concat (map asked ops))"
  using assms(1,2,4)
proof (induction ops arbitrary: R E s)
  case Nil
  then show ?case by (intro exI [of _ True] exI [of _ "[]"] exI [of _ s] exI [of _ "[]"]) simp
next
  case (Cons op ops)
  obtain go bs s1 E1 where 1: "client user fuel op s = Some (go, bs, s1)" "serving n m0 B P K (R @ bs) (E @ E1) s1"
    "go \<longrightarrow> \<not> txMntOngoing s1 \<and> map request_view E1 = asked op"
    using client_step [OF Cons.prems(1,2) assms(3) _ assms(5), of op fuel] Cons.prems(3) by auto
  show ?case
  proof (cases go)
    case False
    then have "session user fuel (op # ops) s = Some (False, bs, s1)" using 1(1) by simp
    then show ?thesis using 1(2) by blast
  next
    case True
    obtain go' rs s2 E2 where 2: "session user fuel ops s1 = Some (go', rs, s2)" "serving n m0 B P K ((R @ bs) @ rs) ((E @ E1) @ E2) s2"
      "go' \<longrightarrow> \<not> txMntOngoing s2 \<and> map request_view E2 = concat (map asked ops)"
      using Cons.IH [OF 1(2)] 1(3) True Cons.prems(3) by auto
    have "session user fuel (op # ops) s = Some (go', bs @ rs, s2)" using 1(1) 2(1) True by simp
    moreover have "serving n m0 B P K (R @ bs @ rs) (E @ E1 @ E2) s2" using 2(2) by simp
    moreover have "map request_view (E1 @ E2) = concat (map asked (op # ops))" if go' using 1(3) 2(3) True that by simp
    ultimately show ?thesis using 2(3) by blast
  qed
qed

text \<open>From power-on: the serial manager is initialised, an interface is opened, the client runs.\<close>

definition whole_run :: "u8 \<Rightarrow> user \<Rightarrow> nat \<Rightarrow> client_op list \<Rightarrow> sm \<Rightarrow> (bool \<times> u8 list \<times> sm) option" where
  "whole_run instance user fuel ops s = do {
     s \<leftarrow> SerialManager_Init s;
     (st, i, s) \<leftarrow> Serial_InitInterface gSerialMgrLpuart_c instance s;
     if st = gSerial_Success_c \<and> i = 0 then session user fuel ops s else None }"

definition accepted :: "sm \<Rightarrow> SerialMsg list" where
  "accepted s = map snd (taken s)"

definition bytes_of :: "bytes \<Rightarrow> SerialMsg list \<Rightarrow> u8 list" where
  "bytes_of m E = concat (map (msg_bytes m) E)"

abbreviation (input) lpuart_of :: "u8 \<Rightarrow> sm \<Rightarrow> lpuart" where
  "lpuart_of instance s \<equiv> lpuarts s ! unat instance"

abbreviation (input) waiting :: "sm \<Rightarrow> u8 list" where
  "waiting s \<equiv> rx_items (mSerials s ! 0) (mem s)"

lemma whole_run_ok:
  assumes "power_on (B \<union> P) s0" "B \<inter> P = {}" "instance < 4" "quiet_user user" "list_all (serial_op_ok B P) ops"
  shows "\<exists>go rs s. whole_run instance user fuel ops s0 = Some (go, rs, s) \<and>
    serving (ucast instance) (mem s0) B P 32 rs (accepted s) s \<and>
    (go \<longrightarrow> \<not> txMntOngoing s \<and> map request_view (accepted s) = concat (map asked ops))"
proof -
  obtain s1 where 1: "SerialManager_Init s0 = Some s1" using serial_init_ok [OF assms(1)] by blast
  obtain s2 where 2: "Serial_InitInterface gSerialMgrLpuart_c instance s1 = Some (gSerial_Success_c, 0, s2)"
    "up (ucast instance) (mem s0) (B \<union> P) (32, 0) [] [] [] 0 0 s2" "\<not> txMntOngoing s2"
    using serial_open_ok [OF assms(1) 1 assms(3)] by blast
  have "serving (ucast instance) (mem s0) B P 32 [] [] s2" by (rule servingI [OF 2(2)]) (simp_all add: msgs_in_def)
  then obtain go rs s E where 3: "session user fuel ops s2 = Some (go, rs, s)" "serving (ucast instance) (mem s0) B P 32 ([] @ rs) ([] @ E) s"
    "go \<longrightarrow> \<not> txMntOngoing s \<and> map request_view E = concat (map asked ops)"
    using session_ok [OF _ 2(3) assms(4,5,2)] by blast
  have "accepted s = E" using 3(2) by (auto elim!: servingE dest!: up_bounds(3) simp: accepted_def comp_def)
  then show ?thesis using 1 2(1) 3 by (intro exI [of _ go] exI [of _ rs] exI [of _ s]) (simp add: whole_run_def)
qed

lemma msg_bytes_cong: "msg_ok B r \<Longrightarrow> \<forall>a \<in> B. m1 a = m0 a \<Longrightarrow> msg_bytes m1 r = msg_bytes m0 r"
  unfolding msg_bytes_def by (intro map_cong) (auto simp: msg_ok_def)

lemma bytes_of_cong: "msgs_in B E \<Longrightarrow> \<forall>a \<in> B. m1 a = m0 a \<Longrightarrow> bytes_of m1 E = bytes_of m0 E"
  unfolding bytes_of_def msgs_in_def by (intro arg_cong [of _ _ concat] map_cong) (auto intro: msg_bytes_cong)

text \<open>What the invariant says of the line and of the callbacks.\<close>

lemma up_line:
  assumes "up n m1 B K R D Q c b s"
  shows "prefix (bytes_of m1 D) (line_bytes (lpuarts s ! unat n))" "prefix (line_bytes (lpuarts s ! unat n)) (bytes_of m1 (D @ Q))"
proof -
  obtain H x d u where u: "port_ok n m1 B K R H False D Q c x d u s" using assms by (rule upE)
  note w = port_okD [OF u]
  have l: "lpuarts s ! unat n = u" using w(1) by (simp add: wired_def)
  have e: "line_bytes u @ rest_bytes m1 Q c d u = bytes_of m1 D @ bytes_of m1 Q" using w(3) by (simp add: tx_ok_def bytes_of_def)
  then show "prefix (line_bytes (lpuarts s ! unat n)) (bytes_of m1 (D @ Q))" unfolding l by (metis bytes_of_def concat_append map_append prefixI)
  have c: "c \<le> length Q" "TIE u \<longrightarrow> c < length Q" using w(8,9) by (simp_all add: ring_ok_def sender_ok_def)
  have "suffix (rest_bytes m1 Q c d u) (bytes_of m1 Q)"
  proof (cases "TIE u")
    case False
    have "bytes_of m1 Q = bytes_of m1 (take c Q) @ bytes_of m1 (drop c Q)" by (simp add: bytes_of_def flip: concat_append map_append)
    then show ?thesis using False by (simp add: rest_bytes_def bytes_of_def suffix_def)
  next
    case True
    have "Q = take c Q @ Q ! c # drop (Suc c) Q" using c True by (simp add: id_take_nth_drop)
    then have "bytes_of m1 Q = bytes_of m1 (take c Q) @ msg_bytes m1 (Q ! c) @ bytes_of m1 (drop (Suc c) Q)"
      by (metis append.assoc bytes_of_def concat.simps(2) concat_append list.simps(9) map_append)
    also have "\<dots> = (bytes_of m1 (take c Q) @ take (sent_of (Q ! c) d) (msg_bytes m1 (Q ! c))) @ rest_bytes m1 Q c d u"
      using True by (simp add: rest_bytes_def bytes_of_def)
    finally show ?thesis by (auto simp: suffix_def)
  qed
  then obtain zs where "bytes_of m1 Q = zs @ rest_bytes m1 Q c d u" by (auto simp: suffix_def)
  then have "line_bytes u = bytes_of m1 D @ zs" using e by simp
  then show "prefix (bytes_of m1 D) (line_bytes (lpuarts s ! unat n))" unfolding l by simp
qed

lemma serving_line:
  assumes "serving n m0 B P K R E s"
  shows "accepted s = E" "\<exists>D Q. E = D @ Q \<and> length Q \<le> 5 \<and> calls s = calls_of D \<and>
    prefix (bytes_of m0 D) (line_bytes (lpuarts s ! unat n)) \<and> prefix (line_bytes (lpuarts s ! unat n)) (bytes_of m0 E)"
proof -
  obtain m1 D Q c b where r: "up n m1 (B \<union> P) (K, 0) R D Q c b s" "D @ Q = E" "msgs_in B E" "\<forall>a \<in> B. m1 a = m0 a"
    using assms by (rule servingE)
  note b = up_bounds [OF r(1)]
  show "accepted s = E" using b(3) r(2) by (simp add: accepted_def comp_def)
  have "msgs_in B D" using r(2,3) by (auto simp: msgs_in_def)
  then have "bytes_of m1 D = bytes_of m0 D" "bytes_of m1 (D @ Q) = bytes_of m0 E" using bytes_of_cong r(2-4) by blast+
  then show "\<exists>D Q. E = D @ Q \<and> length Q \<le> 5 \<and> calls s = calls_of D \<and>
    prefix (bytes_of m0 D) (line_bytes (lpuarts s ! unat n)) \<and> prefix (line_bytes (lpuarts s ! unat n)) (bytes_of m0 E)"
    using up_line [OF r(1)] b(2,4) r(2) by metis
qed

lemma serving_rx:
  assumes "serving n m0 B P K R E s"
  shows "subseq (R @ waiting s) (line_in (lpuarts s ! unat n))" "suffix (waiting s) (line_in (lpuarts s ! unat n))"
    "length (line_in (lpuarts s ! unat n)) \<le> K \<Longrightarrow> R @ waiting s = line_in (lpuarts s ! unat n)"
    "R @ waiting s = line_in (lpuarts s ! unat n) \<Longrightarrow> serving n m0 B P (length R + 32) R E s"
proof -
  obtain m1 D Q c b where r: "up n m1 (B \<union> P) (K, 0) R D Q c b s" "D @ Q = E" "msgs_in B E" "\<forall>a \<in> B. m1 a = m0 a"
    using assms by (rule servingE)
  obtain H x d u where u: "port_ok n m1 (B \<union> P) (K, 0) R H False D Q c x d u s" "settled u" "line_in u = H" "TIE u \<or> c = length Q" "todo m1 Q c d u \<le> b"
    using r(1) by (rule upE)
  note w = port_okD [OF u(1)]
  have l: "lpuarts s ! unat n = u" "mSerials s ! 0 = x" using w(1) by (simp_all add: wired_def)
  show "subseq (R @ waiting s) (line_in (lpuarts s ! unat n))" "suffix (waiting s) (line_in (lpuarts s ! unat n))"
    using w(4) u(3) by (auto simp: l rx_ok_def suffix_def)
  show "R @ waiting s = line_in (lpuarts s ! unat n)" if "length (line_in (lpuarts s ! unat n)) \<le> K"
    using w(4) u(3) that by (simp add: l rx_ok_def)
  show "serving n m0 B P (length R + 32) R E s" if "R @ waiting s = line_in (lpuarts s ! unat n)"
  proof (rule servingI)
    have "rx_ok (length R + 32, 0) R x d H (mem s)" using w(4) that u(3) by (simp add: l rx_ok_def)
    then have "port_ok n m1 (B \<union> P) (length R + 32, 0) R H False D Q c x d u s" using w by (simp add: port_ok_def)
    then show "up n m1 (B \<union> P) (length R + 32, 0) R D Q c b s" by (rule upI) fact+
  qed fact+
qed


section \<open>Writing comes to an end\<close>

lemma up_total:
  assumes "up n m1 B K R D Q c b s"
  shows "up n m1 B K R D Q c (3 * length (bytes_of m1 (D @ Q)) + 3) s"
proof -
  obtain H x d u where u: "port_ok n m1 B K R H False D Q c x d u s" "settled u" "line_in u = H" "TIE u \<or> c = length Q"
    using assms by (rule upE)
  have "line_bytes u @ rest_bytes m1 Q c d u = bytes_of m1 (D @ Q)" using port_okD(3) [OF u(1)] by (simp add: tx_ok_def bytes_of_def)
  then have "length (line_bytes u) + length (rest_bytes m1 Q c d u) = length (bytes_of m1 (D @ Q))" by (metis length_append)
  moreover have "length (opt_list x) \<le> 1" for x :: "u8 option" by (cases x) simp_all
  then have "length (opt_list (tx_shift u)) \<le> 1" "length (opt_list (tx_data u)) \<le> 1" by blast+
  ultimately have "todo m1 Q c d u \<le> 3 * length (bytes_of m1 (D @ Q)) + 3" by (simp add: todo_def line_bytes_def)
  then show ?thesis using u by (intro upI)
qed

text \<open>Enough rounds, and a transmitter that moves on, for a request of \<open>l\<close> bytes more.\<close>

definition enough :: "u8 \<Rightarrow> nat \<Rightarrow> nat \<Rightarrow> sm \<Rightarrow> bool" where
  "enough instance l k s \<longleftrightarrow> 3 * (sum_list (map (unat \<circ> dataSize) (accepted s)) + l) + 6 \<le> k \<and>
     ticks_for (ucast instance) (k * (k + 4) + 3) s"

lemma length_bytes_of: "length (bytes_of m E) = sum_list (map (unat \<circ> dataSize) E)"
  by (induction E) (simp_all add: bytes_of_def)

lemma serving_sync_write:
  assumes run: "serving n m0 B P K R E s" and free: "\<not> txMntOngoing s" and user: "quiet_user user"
    and blk: "block_in (B \<union> P) p (unat l)" and k: "3 * (sum_list (map (unat \<circ> dataSize) E) + unat l) + 6 \<le> k"
    and t: "ticks_for n (k * (k + 4) + 3) s"
  shows "\<exists>s'. Serial_SyncWrite user k 0 p l s = Some (Some gSerial_Success_c, s') \<and>
    line_out (lpuarts s' ! unat n) = bytes_of m0 E @ map (\<lambda>k. the (mem s (p + of_nat k))) [0..<unat l]"
proof -
  obtain m1 D Q c b where r: "up n m1 (B \<union> P) (K, 0) R D Q c b s" "D @ Q = E" "msgs_in B E" "\<forall>a \<in> B. m1 a = m0 a"
    using run by (rule servingE)
  let ?r = "\<lparr>txCallback = NULL, pTxParam = self (mSerials s ! 0), pData = p, dataSize = l\<rparr>"
  have m: "msg_ok (B \<union> P) ?r" using blk by (simp add: msg_ok_block)
  have len: "length (bytes_of m1 E) = sum_list (map (unat \<circ> dataSize) E)" by (rule length_bytes_of)
  have "5 < k \<and> 3 * length (bytes_of m1 (D @ Q)) + 3 + 3 * unat l + 2 \<le> k" using k unfolding r(2) len distrib_left by (intro conjI) linarith+
  then obtain s' where s': "Serial_SyncWrite user k 0 p l s = Some (Some gSerial_Success_c, s')" "sent_all n m1 (D @ Q @ [?r]) s'"
    using sync_write_ok [OF up_total [OF r(1)] user free m, of k] t by blast
  have "msg_bytes m1 ?r = map (\<lambda>k. the (mem s (p + of_nat k))) [0..<unat l]"
    unfolding msg_bytes_def using up_dom [OF r(1)] blk by (auto simp: block_in_def)
  moreover have "bytes_of m1 E = bytes_of m0 E" by (rule bytes_of_cong [OF r(3,4)])
  moreover have all: "D @ Q @ [?r] = E @ [?r]" using r(2) by simp
  ultimately have "line_out (lpuarts s' ! unat n) = bytes_of m0 E @ map (\<lambda>k. the (mem s (p + of_nat k))) [0..<unat l]"
    using s'(2) unfolding sent_all_def all by (simp add: bytes_of_def)
  then show ?thesis using s'(1) by blast
qed

lemma serving_async_write:
  assumes run: "serving n m0 B P K R E s" and free: "\<not> txMntOngoing s" and user: "quiet_user user"
    and blk: "block_in B p (unat l)" and k: "3 * (sum_list (map (unat \<circ> dataSize) E) + unat l) + 6 \<le> k"
    and t: "ticks_for n (k * (k + 4) + 3) s"
  shows "\<exists>s'. Serial_AsyncWrite user k 0 p l cb prm s = Some (Some gSerial_Success_c, s') \<and>
    accepted s' = E @ [\<lparr>txCallback = cb, pTxParam = prm, pData = p, dataSize = l\<rparr>]"
proof -
  obtain m1 D Q c b where r: "up n m1 (B \<union> P) (K, 0) R D Q c b s" "D @ Q = E" using run by (rule servingE)
  let ?r = "\<lparr>txCallback = cb, pTxParam = prm, pData = p, dataSize = l\<rparr>"
  have m: "msg_ok (B \<union> P) ?r" using block_in_mono [OF blk, of "B \<union> P"] by (simp add: msg_ok_block)
  have len: "length (bytes_of m1 E) = sum_list (map (unat \<circ> dataSize) E)" by (rule length_bytes_of)
  have "5 < k \<and> 3 * length (bytes_of m1 (D @ Q)) + 3 + 2 \<le> k" using k unfolding r(2) len distrib_left by (intro conjI) linarith+
  moreover have "ticks_for n (k * (k + 2)) s" using t by (rule ticks_mono) (simp add: algebra_simps)
  ultimately obtain st s' where s': "Serial_AsyncWrite user k 0 p l cb prm s = Some (st, s')" "st \<noteq> None"
    "wrote n m1 (B \<union> P) (K, 0) R (D @ Q) ?r (3 * length (bytes_of m1 (D @ Q)) + 3 + 3 * unat l) (k * (k + 2) + 3) st s s'"
    using async_write_ok [OF up_total [OF r(1)] user free m, of k] by blast
  then obtain D' Q' c' b' where "up n m1 (B \<union> P) (K, 0) R D' Q' c' b' s'" "D' @ Q' = E @ [?r]" "st = Some gSerial_Success_c"
    using r(2) unfolding wrote_def by auto
  then show ?thesis using s'(1) up_bounds(3) by (fastforce simp: accepted_def comp_def)
qed

section \<open>Decimal numbers\<close>

text \<open>The decimal digits of a number, the most significant one first.\<close>

fun decimal :: "nat \<Rightarrow> nat list" where
  "decimal n = (if n < 10 then [n] else decimal (n div 10) @ [n mod 10])"

declare decimal.simps [simp del]

lemma decimal_value: "foldl (\<lambda>a d. 10 * a + d) 0 (decimal n) = n"
proof (induction n rule: decimal.induct)
  case (1 n)
  then show ?case by (subst decimal.simps) simp
qed

lemma decimal_length: "n < 10 ^ k \<Longrightarrow> 0 < k \<Longrightarrow> length (decimal n) \<le> k"
proof (induction n arbitrary: k rule: decimal.induct)
  case (1 n)
  show ?case
  proof (cases "n < 10")
    case True
    then show ?thesis using 1(3) by (subst decimal.simps) simp
  next
    case False
    then obtain j where k: "k = Suc j" "0 < j" using 1(2,3) by (cases k; cases "k - 1") auto
    then have "n div 10 < 10 ^ j" using 1(2) by (simp add: div_less_iff_less_mult mult.commute)
    then have "length (decimal (n div 10)) \<le> j" using 1(1) False k(2) by blast
    then show ?thesis using False k(1) by (subst decimal.simps) simp
  qed
qed

lemma decimal_pos [simp]: "0 < length (decimal n)" "decimal n \<noteq> []"
  by (subst decimal.simps, simp)+

text \<open>The digits are written from the right to the left, up to position \<open>i\<close>.\<close>

lemma dec_loop_ok:
  assumes "nr \<noteq> 0" "length (decimal (unat nr)) \<le> unat i" "unat i < 12" "\<forall>k \<le> unat i. sp + of_nat k \<in> dom m"
  shows "\<exists>m'. dec_loop sp i nr m = Some (i - of_nat (length (decimal (unat nr))), m') \<and>
    (\<forall>a. (\<forall>k \<le> unat i. a \<noteq> sp + of_nat k) \<longrightarrow> m' a = m a) \<and> (\<forall>k \<le> unat i. sp + of_nat k \<in> dom m') \<and>
    (\<forall>k < length (decimal (unat nr)). m' (sp + of_nat (Suc (unat i) - length (decimal (unat nr)) + k)) =
      Some (0x30 + of_nat (decimal (unat nr) ! k)))"
  using assms
proof (induction sp i nr m rule: dec_loop.induct)
  case (1 sp i nr m)
  let ?d = "0x30 + ucast (nr mod 10) :: u8" and ?p = "sp + of_nat (unat i)"
  let ?m = "m(?p \<mapsto> ?d)"
  have dom: "?p \<in> dom m" using 1(5) by blast
  then have st: "store8 (sp + ucast i) ?d m = Some ?m" by (simp add: store8_def)
  have step: "dec_loop sp i nr m = dec_loop sp (i - 1) (nr div 10) ?m" using 1(2) st by (subst dec_loop.simps) simp
  have "unat (nr mod 10) = unat nr mod 10" by (simp add: unat_mod)
  moreover have "(ucast (nr mod 10) :: u8) = of_nat (unat (nr mod 10))" by (simp only: of_nat_unat)
  ultimately have d: "?d = 0x30 + of_nat (unat nr mod 10)" by (simp only:)
  have q: "unat (nr div 10) = unat nr div 10" by (simp add: unat_div)
  show ?case
  proof (cases "unat nr < 10")
    case True
    then have z: "nr div 10 = 0" using q by (simp flip: unat_eq_0)
    have ds: "decimal (unat nr) = [unat nr]" using True by (subst decimal.simps) simp
    have "dec_loop sp i nr m = Some (i - 1, ?m)" unfolding step z by (subst dec_loop.simps) simp
    then show ?thesis using 1(5) True d by (intro exI [of _ ?m]) (auto simp: ds)
  next
    case False
    let ?ds = "decimal (unat nr div 10)"
    have ds: "decimal (unat nr) = ?ds @ [unat nr mod 10]" using False by (subst decimal.simps) simp
    have nz: "nr div 10 \<noteq> 0" using False q by (auto simp: word_unat_eq_iff)
    have i0: "0 < unat i" using 1(3) by (simp add: ds)
    then have i1: "unat (i - 1) = unat i - 1" by (simp add: unat_sub_if_size)
    have "length ?ds \<le> unat (i - 1)" "unat (i - 1) < 12" using 1(3,4) i1 by (simp_all add: ds)
    moreover have "\<forall>k \<le> unat (i - 1). sp + of_nat k \<in> dom ?m" using 1(5) i1 by simp
    ultimately obtain m' where IH: "dec_loop sp (i - 1) (nr div 10) ?m = Some (i - 1 - of_nat (length ?ds), m')"
      "\<forall>a. (\<forall>k \<le> unat (i - 1). a \<noteq> sp + of_nat k) \<longrightarrow> m' a = ?m a" "\<forall>k \<le> unat (i - 1). sp + of_nat k \<in> dom m'"
      "\<forall>k < length ?ds. m' (sp + of_nat (Suc (unat (i - 1)) - length ?ds + k)) = Some (0x30 + of_nat (?ds ! k))"
      using 1(1) [OF 1(2) st nz, unfolded q] by blast
    have pos: "?p \<noteq> sp + of_nat k" if "k \<le> unat (i - 1)" for k
      using that i0 1(4) i1 of_nat_eq_iff_small [of "unat i" k, where 'a = 32] by simp
    then have last: "m' ?p = Some ?d" using IH(2) by simp
    have "m' a = m a" if "\<forall>k \<le> unat i. a \<noteq> sp + of_nat k" for a
    proof -
      have "a \<noteq> ?p" "\<forall>k \<le> unat (i - 1). a \<noteq> sp + of_nat k" using that i1 by (blast, auto)
      then show ?thesis using IH(2) by simp
    qed
    moreover have "sp + of_nat k \<in> dom m'" if "k \<le> unat i" for k
    proof (cases "k = unat i")
      case True
      then show ?thesis using last by (simp add: domIff)
    next
      case False
      then have "k \<le> unat (i - 1)" using that i1 by linarith
      then show ?thesis using IH(3) by blast
    qed
    moreover have "m' (sp + of_nat (Suc (unat i) - length (decimal (unat nr)) + k)) = Some (0x30 + of_nat (decimal (unat nr) ! k))"
      if "k < length (decimal (unat nr))" for k
    proof (cases "k < length ?ds")
      case True
      have "Suc (unat (i - 1)) - length ?ds = Suc (unat i) - length (decimal (unat nr))" using i0 i1 by (simp add: ds)
      then show ?thesis using IH(4) True by (simp add: ds nth_append)
    next
      case False
      then have k: "k = length ?ds" using that by (simp add: ds)
      have "Suc (unat i) - length (decimal (unat nr)) + k = unat i" using 1(3) k by (simp add: ds)
      then show ?thesis using last d by (simp add: ds k nth_append)
    qed
    moreover have "dec_loop sp i nr m = Some (i - of_nat (length (decimal (unat nr))), m')" using step IH(1) by (simp add: ds)
    ultimately show ?thesis by blast
  qed
qed


lemma serving_mem:
  assumes run: "serving n m0 B P K R E s" and dis: "B \<inter> P = {}" and W: "W \<subseteq> P" "\<forall>a \<in> W. m a \<noteq> None" "\<forall>a. a \<notin> W \<longrightarrow> m a = mem s a"
  shows "serving n m0 B P K R E (s\<lparr>mem := m\<rparr>)"
proof -
  obtain m1 D Q c b where r: "up n m1 (B \<union> P) (K, 0) R D Q c b s" "D @ Q = E" "msgs_in B E" "\<forall>a \<in> B. m1 a = m0 a"
    using run by (rule servingE)
  have "\<forall>r \<in> set (D @ Q). \<forall>k < unat (dataSize r). pData r + of_nat k \<notin> W"
    using r(2,3) W(1) dis unfolding msgs_in_def msg_ok_def by blast
  then have "up n (\<lambda>a. if a \<in> W then m a else m1 a) (B \<union> P) (K, 0) R D Q c b (s\<lparr>mem := m\<rparr>)"
    using up_mem [OF r(1) _ W(2,3)] W(1) by blast
  then show ?thesis by (rule servingI) (use r W(1) dis in auto)
qed

lemma serving_dom: "serving n m0 B P K R E s \<Longrightarrow> a \<in> B \<union> P \<Longrightarrow> a \<in> dom (mem s)"
  by (erule servingE) (blast dest: up_dom)

text \<open>What \<open>Serial_PrintDec\<close> prepares in its buffer.\<close>

lemma print_dec_buffer:
  assumes "\<forall>k < 12. sp + of_nat k \<in> dom m"
  shows "\<exists>i m'. (if nr = 0 then do { m \<leftarrow> store8 (sp + 11) 0x30 m; Some (11, m) }
      else do { (i, m) \<leftarrow> dec_loop sp 11 nr m; Some (i + 1, m) }) = Some (i, m') \<and>
    unat i = 12 - length (decimal (unat nr)) \<and> (\<forall>a. (\<forall>k < 12. a \<noteq> sp + of_nat k) \<longrightarrow> m' a = m a) \<and> (\<forall>k < 12. sp + of_nat k \<in> dom m') \<and>
    (\<forall>k < length (decimal (unat nr)). m' (sp + ucast i + of_nat k) = Some (0x30 + of_nat (decimal (unat nr) ! k)))"
proof (cases "nr = 0")
  case True
  have d: "decimal (unat nr) = [0]" using True by (subst decimal.simps) simp
  have "sp + 11 \<in> dom m" using assms [rule_format, of 11] by simp
  then have "store8 (sp + 11) 0x30 m = Some (m(sp + 11 \<mapsto> 0x30))" by (simp add: store8_def)
  moreover have "a \<noteq> sp + 11" if "\<forall>k < 12. a \<noteq> sp + of_nat k" for a
    using that [rule_format, of 11] by simp
  ultimately show ?thesis using True assms d by (intro exI [of _ 11] exI [of _ "m(sp + 11 \<mapsto> 0x30)"]) auto
next
  case False
  let ?l = "length (decimal (unat nr))"
  have "unat nr < 2 ^ 32" using word_nat_less_len [of nr] by simp
  then have l: "?l \<le> 10" by (intro decimal_length) simp_all
  have dom: "\<forall>k \<le> unat (11 :: u8). sp + of_nat k \<in> dom m" using assms by simp
  obtain m' where d: "dec_loop sp 11 nr m = Some (11 - of_nat ?l, m')"
    "\<forall>a. (\<forall>k \<le> unat (11 :: u8). a \<noteq> sp + of_nat k) \<longrightarrow> m' a = m a" "\<forall>k \<le> unat (11 :: u8). sp + of_nat k \<in> dom m'"
    "\<forall>k < ?l. m' (sp + of_nat (Suc (unat (11 :: u8)) - ?l + k)) = Some (0x30 + of_nat (decimal (unat nr) ! k))"
    using dec_loop_ok [OF False _ _ dom] l by auto
  let ?i = "11 - of_nat ?l + 1 :: u8"
  have "unat (of_nat ?l :: u8) = ?l" using l by (intro unat_of_nat_small) simp
  then have i: "unat ?i = 12 - ?l" using l by (simp add: unat_sub_if_size)
  have at: "sp + ucast ?i + of_nat k = sp + of_nat (Suc (unat (11 :: u8)) - ?l + k)" for k
  proof -
    have "(ucast ?i :: ptr) = of_nat (unat ?i)" by (simp only: of_nat_unat)
    then show ?thesis unfolding i by simp
  qed
  have "\<forall>k < ?l. m' (sp + ucast ?i + of_nat k) = Some (0x30 + of_nat (decimal (unat nr) ! k))" unfolding at by (rule d(4))
  moreover have "\<forall>a. (\<forall>k < 12. a \<noteq> sp + of_nat k) \<longrightarrow> m' a = m a"
  proof (intro allI impI)
    fix a assume "\<forall>k < 12. a \<noteq> sp + of_nat k"
    then have "\<forall>k \<le> unat (11 :: u8). a \<noteq> sp + of_nat k" by simp
    then show "m' a = m a" using d(2) by blast
  qed
  moreover have "\<forall>k < 12. sp + of_nat k \<in> dom m'"
  proof (intro allI impI)
    fix k :: nat assume "k < 12"
    then have "k \<le> unat (11 :: u8)" by simp
    then show "sp + of_nat k \<in> dom m'" using d(3) by blast
  qed
  moreover have "(if nr = 0 then do { m \<leftarrow> store8 (sp + 11) 0x30 m; Some (11, m) }
      else do { (i, m) \<leftarrow> dec_loop sp 11 nr m; Some (i + 1, m) }) = Some (?i, m')" using False d(1) by simp
  ultimately show ?thesis using i by blast
qed

lemma serving_print_dec:
  assumes run: "serving n m0 B P K R E s" and free: "\<not> txMntOngoing s" and user: "quiet_user user" and dis: "B \<inter> P = {}"
    and sp: "\<forall>k < 12. sp + of_nat k \<in> P - {NULL}" and k: "3 * (sum_list (map (unat \<circ> dataSize) E) + 12) + 6 \<le> k"
    and t: "ticks_for n (k * (k + 4) + 3) s"
  shows "\<exists>s'. Serial_PrintDec user k sp 0 nr s = Some (Some gSerial_Success_c, s') \<and>
    line_out (lpuarts s' ! unat n) = bytes_of m0 E @ map (\<lambda>d. 0x30 + of_nat d) (decimal (unat nr))"
proof -
  let ?l = "length (decimal (unat nr))"
  have "unat nr < 2 ^ 32" using word_nat_less_len [of nr] by simp
  then have l: "?l \<le> 10" by (intro decimal_length) simp_all
  have "\<forall>k < 12. sp + of_nat k \<in> dom (mem s)" using serving_dom [OF run] sp by blast
  from print_dec_buffer [OF this, of nr] obtain i m where d: "(if nr = 0 then do { m \<leftarrow> store8 (sp + 11) 0x30 (mem s); Some (11, m) }
      else do { (i, m) \<leftarrow> dec_loop sp 11 nr (mem s); Some (i + 1, m) }) = Some (i, m)" "unat i = 12 - ?l"
    "\<forall>a. (\<forall>k < 12. a \<noteq> sp + of_nat k) \<longrightarrow> m a = mem s a" "\<forall>k < 12. sp + of_nat k \<in> dom m"
    "\<forall>k < ?l. m (sp + ucast i + of_nat k) = Some (0x30 + of_nat (decimal (unat nr) ! k))" by blast
  let ?W = "{sp + of_nat k | k. k < 12}" and ?s = "s\<lparr>mem := m\<rparr>"
  have run': "serving n m0 B P K R E ?s"
  proof (rule serving_mem [OF run dis])
    show "?W \<subseteq> P" using sp by blast
    show "\<forall>a \<in> ?W. m a \<noteq> None" using d(4) by blast
    show "\<forall>a. a \<notin> ?W \<longrightarrow> m a = mem s a" using d(3) by blast
  qed
  have sz: "unat (12 - ucast i :: u16) = ?l"
  proof -
    have "unat (ucast i :: u16) = unat i" by (rule unat_ucast_up) simp
    then show ?thesis using d(2) l by (simp add: unat_sub_if_size)
  qed
  have at: "sp + ucast i + of_nat k = sp + of_nat (12 - ?l + k)" for k
  proof -
    have "(ucast i :: ptr) = of_nat (unat i)" by (simp only: of_nat_unat)
    then show ?thesis unfolding d(2) by simp
  qed
  have blk: "block_in (B \<union> P) (sp + ucast i) (unat (12 - ucast i :: u16))"
  proof -
    have pos: "0 < ?l" by simp
    have "sp + ucast i + of_nat k \<in> P - {NULL}" if "k < ?l" for k
    proof -
      have "12 - ?l + k < 12" using that l by linarith
      then show ?thesis using sp unfolding at by blast
    qed
    moreover from this [OF pos] have "sp + ucast i \<noteq> NULL" by simp
    ultimately show ?thesis unfolding block_in_def sz using pos by blast
  qed
  have t': "ticks_for n (k * (k + 4) + 3) ?s" using t by (simp add: ticks_for_def)
  have k': "3 * (sum_list (map (unat \<circ> dataSize) E) + unat (12 - ucast i :: u16)) + 6 \<le> k" using k l unfolding sz distrib_left by linarith
  obtain s' where s': "Serial_SyncWrite user k 0 (sp + ucast i) (12 - ucast i) ?s = Some (Some gSerial_Success_c, s')"
    "line_out (lpuarts s' ! unat n) = bytes_of m0 E @ map (\<lambda>k. the (mem ?s (sp + ucast i + of_nat k))) [0..<unat (12 - ucast i :: u16)]"
    using serving_sync_write [OF run' _ user blk k' t'] free by auto
  have "map (\<lambda>k. the (mem ?s (sp + ucast i + of_nat k))) [0..<unat (12 - ucast i :: u16)] = map (\<lambda>d. 0x30 + of_nat d) (decimal (unat nr))"
    unfolding sz using d(5) by (intro nth_equalityI) simp_all
  moreover have "Serial_PrintDec user k sp 0 nr s = Some (Some gSerial_Success_c, s')"
    unfolding Serial_PrintDec_def d(1) using s'(1) by simp
  ultimately show ?thesis using s'(2) by simp
qed

end
