(* ===== verification/Serial_Props.thy ===== *)
theory Serial_Props
  imports Serial_Client
begin

text \<open>
  The properties of an interface of the serial manager, from power-on, for every client, memory and
  schedule of interrupts; and a board on which they are witnessed.
\<close>

section \<open>The properties\<close>

text \<open>C8: the bytes that a UART interface of the serial manager has put on the line are, at every
  moment and whatever interrupts arrived in between, a prefix of the bytes of the requests that it
  accepted, in the order of the calls; the callbacks of the requests are called in that order, each
  at most once and only after the bytes of its request were handed to the peripheral; no more than
  five requests are in the queue. No run of a client faults, and if every operation came to its
  end the accepted requests are those that the client made.\<close>

theorem serial_tx_stream:
  assumes "power_on (B \<union> P) s0" "B \<inter> P = {}" "instance < 4" "quiet_user user" "list_all (serial_op_ok B P) ops"
  shows "\<exists>go rs s. whole_run instance user fuel ops s0 = Some (go, rs, s) \<and>
    (\<exists>D Q. accepted s = D @ Q \<and> length Q \<le> 5 \<and> calls s = calls_of D \<and>
      prefix (bytes_of (mem s0) D) (line_bytes (lpuart_of instance s)) \<and>
      prefix (line_bytes (lpuart_of instance s)) (bytes_of (mem s0) (D @ Q))) \<and>
    (go \<longrightarrow> map request_view (accepted s) = concat (map asked ops))"
proof -
  obtain go rs s where r: "whole_run instance user fuel ops s0 = Some (go, rs, s)"
    "serving (ucast instance) (mem s0) B P 32 rs (accepted s) s"
    "go \<longrightarrow> map request_view (accepted s) = concat (map asked ops)" using whole_run_ok [OF assms] by blast
  have "unat (ucast instance :: u32) = unat instance" by (rule unat_ucast_up) simp
  then show ?thesis using r(1,3) serving_line(2) [OF r(2)] by fastforce
qed

text \<open>C9: what a client reads from an interface, followed by what waits to be read, is a
  subsequence of the bytes that arrived, in their order, and what waits are the newest of them. As
  long as no more than 32 bytes arrive beyond those that were read at a moment when nothing was
  lost, nothing is lost.\<close>

theorem serial_rx_stream:
  assumes "power_on (B \<union> P) s0" "B \<inter> P = {}" "instance < 4" "quiet_user user" "list_all (serial_op_ok B P) (ops @ ops')"
    and "whole_run instance user fuel ops s0 = Some (True, rs, s1)"
  shows "\<exists>go rs' s. session user fuel ops' s1 = Some (go, rs', s) \<and>
    subseq (rs @ rs' @ waiting s) (line_in (lpuart_of instance s)) \<and> suffix (waiting s) (line_in (lpuart_of instance s)) \<and>
    (length (line_in (lpuart_of instance s1)) \<le> 32 \<longrightarrow> rs @ waiting s1 = line_in (lpuart_of instance s1)) \<and>
    (rs @ waiting s1 = line_in (lpuart_of instance s1) \<and> length (line_in (lpuart_of instance s)) \<le> length rs + 32 \<longrightarrow>
      rs @ rs' @ waiting s = line_in (lpuart_of instance s))"
proof -
  let ?n = "ucast instance :: u32"
  have i: "unat ?n = unat instance" by (rule unat_ucast_up) simp
  have ok: "list_all (serial_op_ok B P) ops" "list_all (serial_op_ok B P) ops'" using assms(5) by simp_all
  have r: "serving ?n (mem s0) B P 32 rs (accepted s1) s1" "\<not> txMntOngoing s1"
    using whole_run_ok [OF assms(1-4) ok(1), of fuel] assms(6) by auto
  obtain go rs' s E where s: "session user fuel ops' s1 = Some (go, rs', s)" "serving ?n (mem s0) B P 32 (rs @ rs') (accepted s1 @ E) s"
    using session_ok [OF r assms(4) ok(2) assms(2)] by blast
  note rx = serving_rx(1,2) [OF s(2), unfolded i] serving_rx(3,4) [OF r(1), unfolded i]
  have "rs @ rs' @ waiting s = line_in (lpuart_of instance s)"
    if "rs @ waiting s1 = line_in (lpuart_of instance s1)" "length (line_in (lpuart_of instance s)) \<le> length rs + 32"
  proof -
    have "serving ?n (mem s0) B P (length rs + 32) rs (accepted s1) s1" using rx(4) that(1) by blast
    then obtain E' where "serving ?n (mem s0) B P (length rs + 32) (rs @ rs') (accepted s1 @ E') s"
      using session_ok [OF _ r(2) assms(4) ok(2) assms(2), of ?n _ _ _ _ fuel] s(1) by fastforce
    from serving_rx(3) [OF this, unfolded i, OF that(2)] show ?thesis by simp
  qed
  then show ?thesis using s(1) rx(1-3) by auto
qed

text \<open>C10: after a run of a client in which every operation came to its end, and if the
  transmitter moves on often enough, \<open>Serial_AsyncWrite\<close> returns success with its request accepted,
  also when the queue is full, and \<open>Serial_SyncWrite\<close> returns success when all requests, its own
  included, have left the shift register.\<close>

theorem serial_write_returns:
  assumes "power_on (B \<union> P) s0" "B \<inter> P = {}" "instance < 4" "quiet_user user" "list_all (serial_op_ok B P) ops"
    and "whole_run instance user fuel ops s0 = Some (True, rs, s)" "block_in B p (unat l)" "enough instance (unat l) k s"
  shows "(\<exists>s'. Serial_AsyncWrite user k 0 p l cb prm s = Some (Some gSerial_Success_c, s') \<and>
      accepted s' = accepted s @ [\<lparr>txCallback = cb, pTxParam = prm, pData = p, dataSize = l\<rparr>]) \<and>
    (\<exists>s'. Serial_SyncWrite user k 0 p l s = Some (Some gSerial_Success_c, s') \<and>
      line_out (lpuart_of instance s') = bytes_of (mem s0) (accepted s) @ map (\<lambda>j. the (mem s (p + of_nat j))) [0..<unat l])"
proof -
  have i: "unat (ucast instance :: u32) = unat instance" by (rule unat_ucast_up) simp
  have r: "serving (ucast instance) (mem s0) B P 32 rs (accepted s) s" "\<not> txMntOngoing s"
    using whole_run_ok [OF assms(1-5), of fuel] assms(6) by auto
  have e: "3 * (sum_list (map (unat \<circ> dataSize) (accepted s)) + unat l) + 6 \<le> k" "ticks_for (ucast instance) (k * (k + 4) + 3) s"
    using assms(8) by (simp_all only: enough_def)
  show ?thesis
    using serving_async_write [OF r assms(4,7) e] serving_sync_write [OF r assms(4) block_in_mono [OF assms(7)] e, unfolded i] by blast
qed

text \<open>C11: in the same circumstances \<open>Serial_PrintDec\<close> prints the decimal digits of its number, the
  most significant one first and without leading zeros, after all that was accepted before.\<close>

theorem serial_print_dec:
  assumes "power_on (B \<union> P) s0" "B \<inter> P = {}" "instance < 4" "quiet_user user" "list_all (serial_op_ok B P) ops"
    and "whole_run instance user fuel ops s0 = Some (True, rs, s)" "\<forall>j < 12. sp + of_nat j \<in> P - {NULL}" "enough instance 12 k s"
  shows "\<exists>s'. Serial_PrintDec user k sp 0 nr s = Some (Some gSerial_Success_c, s') \<and>
    (\<exists>ds. line_out (lpuart_of instance s') = bytes_of (mem s0) (accepted s) @ map (\<lambda>d. 0x30 + of_nat d) ds \<and>
      ds = decimal (unat nr) \<and> foldl (\<lambda>a d. 10 * a + d) 0 ds = unat nr)"
proof -
  have i: "unat (ucast instance :: u32) = unat instance" by (rule unat_ucast_up) simp
  have r: "serving (ucast instance) (mem s0) B P 32 rs (accepted s) s" "\<not> txMntOngoing s"
    using whole_run_ok [OF assms(1-5), of fuel] assms(6) by auto
  have e: "3 * (sum_list (map (unat \<circ> dataSize) (accepted s)) + 12) + 6 \<le> k" "ticks_for (ucast instance) (k * (k + 4) + 3) s"
    using assms(8) by (simp_all only: enough_def)
  show ?thesis using serving_print_dec [OF r assms(4,2,7) e, unfolded i, of nr] decimal_value by blast
qed

section \<open>A board\<close>

definition zero_uart :: uart_state where
  "zero_uart = \<lparr>txCb = NULL, rxCb = NULL, txCbParam = 0, rxCbParam = 0, pTxData = NULL, pRxData = NULL, txSize = 0, rxSize = 0\<rparr>"

definition zero_lpuart :: lpuart where
  "zero_lpuart = \<lparr>tx_data = None, tx_shift = None, rx_data = None, overrun = False, rx_edge = False, TIE = False, RIE = False,
     RXEDGIE = False, baud = 0, line_out = [], line_in = []\<rparr>"

definition zero_serial :: "ptr \<Rightarrow> serial" where
  "zero_serial p = \<lparr>self = p, rxBuffer = p + 16, serialType = gSerialMgrNone_c, serialChannel = 0, rxIn = 0, rxOut = 0,
     rxCallback = NULL, pRxParam = NULL, txQueue = [], txIn = 0, txOut = 0, txCurrent = 0, txNo = 0, events = 0, state = 0\<rparr>"

definition board_tasks :: os_tasks where
  "board_tasks = \<lparr>tcbs = [0x1000 \<mapsto> \<lparr>p_func = 5, haveToRun = True, priority = 8, task_param = NULL, tcb_next = 0x1000, tcb_prev = 0x1000\<rparr>,
       0x1018 \<mapsto> \<lparr>p_func = NULL, haveToRun = False, priority = 0, task_param = NULL, tcb_next = NULL, tcb_prev = NULL\<rparr>],
     p_taskListHead = 0x1000, g_curTask = 0x1000, g_freeTaskControlBlock = 0x1018\<rparr>"

definition board_os :: os_state where
  "board_os = \<lparr>osSemaphores = \<lparr>pHeap = 0x2000, objectStructSize = 16, objects = []\<rparr>,
     osMutexes = \<lparr>pHeap = 0x2000, objectStructSize = 16, objects = []\<rparr>,
     osEvents = \<lparr>pHeap = 0x3000, objectStructSize = 32, objects = [(0, \<lparr>ev_isWaiting = False, ev_time_start = 0,
       ev_timeout = 0, flags = 0, autoClear = False, ev_waitingTask = NULL\<rparr>)]\<rparr>,
     osMsgQs = \<lparr>pHeap = 0x2000, objectStructSize = 64, objects = []\<rparr>, tasks = board_tasks, gTickCounter = 0\<rparr>"

definition board :: "irq list list \<Rightarrow> sm" where
  "board plan = \<lparr>mem = (\<lambda>a. if a < 0x1000 then Some (ucast a) else None), mDrvData = [zero_uart], pLpuartStates = replicate 4 None,
     lpuarts = replicate 4 zero_lpuart, mSerials = [zero_serial 0x100], initialized = False, mSMTaskEventId = NULL,
     gSerialManagerTaskId = NULL, txMntOngoing = False, os = board_os, irqs = plan, calls = [], taken = []\<rparr>"

definition board_tx :: "ptr set" where "board_tx = {a. 0x200 \<le> unat a \<and> unat a < 0x300}"
definition board_rx :: "ptr set" where "board_rx = {a. 0x300 \<le> unat a \<and> unat a < 0x400}"

definition silent :: user where "silent cb prm s = Some (True, s)"

lemma silent_ok: "quiet_user silent"
  by (simp add: quiet_user_def silent_def)

lemma board_regions: "board_tx \<inter> board_rx = {}"
  by (auto simp: board_tx_def board_rx_def)

lemma board_os_ready: "os_ready board_os"
proof -
  have "sched (tasks board_os) [0x1000] [0x1018]" by (simp add: sched_def board_os_def board_tasks_def ring_def)
  moreover have "g_curTask (tasks board_os) \<in> set [0x1000]" by (simp add: board_os_def board_tasks_def)
  ultimately have "\<exists>xs f fs. sched (tasks board_os) xs (f # fs) \<and> g_curTask (tasks board_os) \<in> set xs" by blast
  moreover have "objs_ok (osEvents board_os)" "fst (objects (osEvents board_os) ! 0) = 0" "0 < length (objects (osEvents board_os))"
    by (simp_all add: objs_ok_def board_os_def)
  ultimately show ?thesis unfolding os_ready_def by blast
qed

lemma unat_offset: "unat p + j < 2 ^ 32 \<Longrightarrow> unat (p + of_nat j :: ptr) = unat p + j"
  by (simp add: unat_word_ariths unat_of_nat_small)

lemma board_power_on: "power_on (board_tx \<union> board_rx) (board plan)"
proof -
  have lt: "a < 0x1000" if "unat a < 0x1000" for a :: ptr using that by (simp add: word_less_nat_alt)
  have "board_tx \<union> board_rx \<subseteq> dom (mem (board plan))"
    by (auto simp: board_tx_def board_rx_def board_def word_le_nat_alt word_less_nat_alt split: if_splits)
  moreover have "mapped (mem (board plan)) 0x110 33"
    unfolding mapped_def
  proof (intro allI impI)
    fix a :: ptr assume "unat (a - 0x110) < 33"
    moreover have "a = 0x110 + of_nat (unat (a - 0x110))" by simp
    ultimately have "unat a < 0x1000" using unat_offset [of "0x110" "unat (a - 0x110)"] by simp
    then show "a \<in> dom (mem (board plan))" using lt by (simp add: board_def domIff)
  qed
  moreover have "\<forall>j < 33. (0x110 + of_nat j :: ptr) \<notin> board_tx \<union> board_rx \<and> 0x110 + of_nat j \<noteq> NULL"
  proof (intro allI impI)
    fix j :: nat assume "j < 33"
    then have "unat (0x110 + of_nat j :: ptr) = 0x110 + j" using unat_offset [of "0x110" j] by simp
    then show "(0x110 + of_nat j :: ptr) \<notin> board_tx \<union> board_rx \<and> 0x110 + of_nat j \<noteq> NULL"
      using \<open>j < 33\<close> by (auto simp: board_tx_def board_rx_def word_le_nat_alt word_unat_eq_iff)
  qed
  ultimately have "buffers_ok (board_tx \<union> board_rx) (mem (board plan)) (mSerials (board plan) ! 0)"
    by (simp add: buffers_ok_def board_def zero_serial_def)
  then show ?thesis using board_os_ready
    by (simp add: power_on_def) (simp add: board_def off_def zero_lpuart_def list_all_iff)
qed

lemma board_block:
  "0x200 \<le> unat p \<Longrightarrow> unat p + k \<le> 0x300 \<Longrightarrow> 0 < k \<Longrightarrow> block_in board_tx p k"
  "0x300 \<le> unat p \<Longrightarrow> unat p + k \<le> 0x400 \<Longrightarrow> 0 < k \<Longrightarrow> block_in board_rx p k"
  using unat_offset [of p] by (auto simp: block_in_def board_tx_def board_rx_def)

text \<open>Two requests, a read and a run of the task, with interrupts in between.\<close>

definition demo_ops :: "client_op list" where
  "demo_ops = [Write 0x200 3 77 1, WriteSync 0x210 2, Read 0x300 8, Task False]"

definition demo_plan :: "irq list list" where
  "demo_plan = [[], [Tick 2], [RxByte 2 65, Tick 2]] @ replicate 12 [Tick 2] @ [[RxByte 2 66]]"

lemma demo_ok: "list_all (serial_op_ok board_tx board_rx) demo_ops"
  by (simp add: demo_ops_def board_block)

declare insert_loop.simps [code]

lemma demo_run: "map_option (\<lambda>(go, rs, s). (go, rs, line_out (lpuarts s ! 2), calls s)) (whole_run 2 silent 9 demo_ops (board demo_plan)) =
    Some (True, [65], [0, 1, 2, 16, 17], [(77, 1)])"
  by code_simp


lemma demo_state: "\<exists>s. whole_run 2 silent 9 demo_ops (board demo_plan) = Some (True, [65], s) \<and>
    line_out (lpuarts s ! 2) = [0, 1, 2, 16, 17] \<and> calls s = [(77, 1)]"
  using demo_run by (cases "whole_run 2 silent 9 demo_ops (board demo_plan)") auto

lemma serial_tx_stream_witness:
  "\<exists>s. whole_run 2 silent 9 demo_ops (board demo_plan) = Some (True, [65], s) \<and> line_out (lpuarts s ! 2) = [0, 1, 2, 16, 17] \<and>
    map request_view (accepted s) = [(0x200, 3, 77), (0x210, 2, NULL)] \<and>
    prefix (line_bytes (lpuart_of 2 s)) (bytes_of (mem (board demo_plan)) (accepted s))"
proof -
  have "(2 :: u8) < 4" by simp
  from serial_tx_stream [OF board_power_on board_regions this silent_ok demo_ok, of 9 demo_plan]
  show ?thesis using demo_state by (auto simp: demo_ops_def)
qed

lemma serial_rx_stream_witness:
  "\<exists>s1 go rs s. whole_run 2 silent 9 demo_ops (board demo_plan) = Some (True, [65], s1) \<and>
    session silent 9 [Read 0x300 4] s1 = Some (go, rs, s) \<and> subseq ([65] @ rs @ waiting s) (line_in (lpuart_of 2 s))"
proof -
  obtain s1 where s1: "whole_run 2 silent 9 demo_ops (board demo_plan) = Some (True, [65], s1)" using demo_state by blast
  have "(2 :: u8) < 4" "list_all (serial_op_ok board_tx board_rx) (demo_ops @ [Read 0x300 4])" using demo_ok by (simp_all add: board_block)
  from serial_rx_stream [OF board_power_on board_regions this(1) silent_ok this(2) s1] show ?thesis using s1 by blast
qed

lemma idle_run:
  "\<exists>s. whole_run 2 silent 9 [] (board plan) = Some (True, [], s) \<and> accepted s = [] \<and> irqs s = plan"
proof -
  obtain s1 where 1: "SerialManager_Init (board plan) = Some s1" using serial_init_ok [OF board_power_on] by blast
  obtain s2 where 2: "Serial_InitInterface gSerialMgrLpuart_c 2 s1 = Some (gSerial_Success_c, 0, s2)" "irqs s2 = irqs (board plan)"
    "up (ucast (2 :: u8)) (mem (board plan)) (board_tx \<union> board_rx) (32, 0) [] [] [] 0 0 s2"
    using serial_open_ok [OF board_power_on 1, of 2] by auto
  have "accepted s2 = []" using up_bounds(3) [OF 2(3)] by (simp add: accepted_def)
  then show ?thesis using 1 2 by (simp add: whole_run_def board_def)
qed

lemma serial_write_returns_witness:
  "\<exists>s s'. whole_run 2 silent 9 [] (board (replicate 300 [Tick 2])) = Some (True, [], s) \<and>
    Serial_SyncWrite silent 15 0 0x200 3 s = Some (Some gSerial_Success_c, s') \<and>
    line_out (lpuart_of 2 s') = map (\<lambda>j. the (mem s (0x200 + of_nat j))) [0..<unat (3 :: u16)]"
proof -
  obtain s where s: "whole_run 2 silent 9 [] (board (replicate 300 [Tick 2])) = Some (True, [], s)" "accepted s = []"
    "irqs s = replicate 300 [Tick 2]" using idle_run by blast
  have e: "enough 2 (unat (3 :: u16)) 15 s" using s(2,3) by (simp add: enough_def ticks_for_def)
  have "(2 :: u8) < 4" "list_all (serial_op_ok board_tx board_rx) []" "block_in board_tx 0x200 (unat (3 :: u16))" by (simp_all add: board_block)
  from serial_write_returns [OF board_power_on board_regions this(1) silent_ok this(2) s(1) this(3) e] s(1,2)
  show ?thesis by (auto simp: bytes_of_def)
qed

lemma serial_print_dec_witness:
  "\<exists>s s'. whole_run 2 silent 9 [] (board (replicate 2000 [Tick 2])) = Some (True, [], s) \<and>
    Serial_PrintDec silent 42 0x380 0 4070 s = Some (Some gSerial_Success_c, s') \<and> line_out (lpuart_of 2 s') = [0x34, 0x30, 0x37, 0x30]"
proof -
  obtain s where s: "whole_run 2 silent 9 [] (board (replicate 2000 [Tick 2])) = Some (True, [], s)" "accepted s = []"
    "irqs s = replicate 2000 [Tick 2]" using idle_run by blast
  have e: "enough 2 12 42 s" using s(2,3) by (simp add: enough_def ticks_for_def)
  have sp: "\<forall>j < 12. (0x380 :: ptr) + of_nat j \<in> board_rx - {NULL}"
  proof (intro allI impI)
    fix j :: nat assume "j < 12"
    then have "unat ((0x380 :: ptr) + of_nat j) = 0x380 + j" using unat_offset [of "0x380" j] by simp
    then show "(0x380 :: ptr) + of_nat j \<in> board_rx - {NULL}" using \<open>j < 12\<close> by (auto simp: board_rx_def)
  qed
  have d: "decimal (unat (4070 :: u32)) = [4, 0, 7, 0]" by (simp add: decimal.simps)
  have "(2 :: u8) < 4" "list_all (serial_op_ok board_tx board_rx) []" by simp_all
  from serial_print_dec [OF board_power_on board_regions this(1) silent_ok this(2) s(1) sp e, of 4070] s(1,2) d
  show ?thesis by (auto simp: bytes_of_def)
qed

end
