(* ===== verification/Serial_Blocking.thy ===== *)
theory Serial_Blocking
  imports Serial_Props
begin

text \<open>
  A deadlock of the queue of requests of the serial manager: the callback of a request that makes a
  request itself while the queue is full.
\<close>

section \<open>What interrupts leave alone\<close>

text \<open>The interrupts change neither the callbacks in the queue nor where the queue ends.\<close>

definition queue_view :: "sm \<Rightarrow> bool \<times> (u8 \<times> ptr list) list" where
  "queue_view s = (txMntOngoing s, map (\<lambda>x. (txIn x, map txCallback (txQueue x))) (mSerials s))"

lemma queue_view_upd [simp]:
  "queue_view (s\<lparr>mem := m\<rparr>) = queue_view s" "queue_view (s\<lparr>mDrvData := ds\<rparr>) = queue_view s"
  "queue_view (s\<lparr>lpuarts := us\<rparr>) = queue_view s" "queue_view (s\<lparr>os := o'\<rparr>) = queue_view s" "queue_view (s\<lparr>irqs := q\<rparr>) = queue_view s"
  by (simp_all add: queue_view_def)

lemma put_ser_view:
  assumes "put_ser i y s = Some s'" "get_ser i s = Some x" "txIn y = txIn x" "map txCallback (txQueue y) = map txCallback (txQueue x)"
  shows "queue_view s' = queue_view s"
proof -
  have i: "i < length (mSerials s)" "x = mSerials s ! i" "s' = s\<lparr>mSerials := (mSerials s)[i := y]\<rparr>"
    using assms(1,2) by (auto simp: put_ser_def get_ser_def nth_opt_def upd_opt_def split: if_splits)
  have "(map (\<lambda>x. (txIn x, map txCallback (txQueue x))) (mSerials s))[i := (txIn y, map txCallback (txQueue y))] =
      map (\<lambda>x. (txIn x, map txCallback (txQueue x))) (mSerials s)"
    using assms(3,4) i(1,2) by (intro list_update_same_conv [THEN iffD2]) simp_all
  then show ?thesis using i(3) by (simp add: queue_view_def map_update)
qed

lemma set_event_view: "set_event f s = Some s' \<Longrightarrow> queue_view s' = queue_view s"
  by (auto simp: set_event_def split: bind_splits)

lemma put_lpuart_view: "put_lpuart n u s = Some s' \<Longrightarrow> queue_view s' = queue_view s"
  by (auto simp: put_lpuart_def split: bind_splits)

lemma put_uart_view: "put_uart n u s = Some s' \<Longrightarrow> queue_view s' = queue_view s"
  by (auto simp: put_uart_def split: bind_splits)

lemma send_view: "LPUART_SendData n p sz s = Some (r, s') \<Longrightarrow> queue_view s' = queue_view s"
  by (auto simp: LPUART_SendData_def split: if_splits bind_splits dest!: put_lpuart_view put_uart_view)

lemma mod_state_view: "mod_ser i (state_update f) s = Some s' \<Longrightarrow> queue_view s' = queue_view s"
  by (auto simp: mod_ser_def split: bind_splits dest: put_ser_view)

lemma write_internal_view:
  assumes "Serial_WriteInternal Some i s = Some (st, s')"
  shows "queue_view s' = queue_view s"
  using assms unfolding Serial_WriteInternal_def
  by (auto split: if_splits bind_splits serialInterfaceType.splits dest!: put_ser_view send_view mod_state_view set_event_view)

lemma rx_notify_view: "SerialManager_RxNotify i s = Some s' \<Longrightarrow> queue_view s' = queue_view s"
  by (auto simp: SerialManager_RxNotify_def Let_def split: if_splits bind_splits dest!: put_ser_view set_event_view)

lemma map_cb_update: "nth_opt q k = Some m \<Longrightarrow> txCallback m' = txCallback m \<Longrightarrow> map txCallback (q[k := m']) = map txCallback q"
  by (auto simp: nth_opt_def map_update split: if_splits intro!: list_update_same_conv [THEN iffD2])

lemma tx_notify_view: "SerialManager_TxNotify i s = Some s' \<Longrightarrow> queue_view s' = queue_view s"
  by (auto simp: SerialManager_TxNotify_def Let_def map_cb_update split: if_splits bind_splits
      dest!: put_ser_view set_event_view write_internal_view)

lemma uart_callback_view: "uart_callback cb d s = Some s' \<Longrightarrow> queue_view s' = queue_view s"
  by (auto simp: uart_callback_def Serial_UartRxCb_def Serial_UartTxCb_def Let_def split: if_splits bind_splits
      dest!: rx_notify_view tx_notify_view)

lemma isr_receive_view: "ISR_receive uart_callback n s = Some s' \<Longrightarrow> queue_view s' = queue_view s"
  by (auto simp: ISR_receive_def Let_def split: if_splits bind_splits option.splits
      dest!: put_lpuart_view put_uart_view uart_callback_view)

lemma isr_transmit_view: "ISR_transmit uart_callback e n s = Some s' \<Longrightarrow> queue_view s' = queue_view s"
  by (auto simp: ISR_transmit_def split: if_splits bind_splits dest!: put_lpuart_view put_uart_view uart_callback_view)

lemma isr_view: "LPUART_Common_ISR uart_callback n s = Some s' \<Longrightarrow> queue_view s' = queue_view s"
  by (auto simp: LPUART_Common_ISR_def Let_def split: bind_splits dest!: isr_receive_view isr_transmit_view put_lpuart_view)

lemma interrupt_view: "interrupt e s = Some s' \<Longrightarrow> queue_view s' = queue_view s"
  by (cases e) (auto simp: hardware_def split: if_splits bind_splits dest!: put_lpuart_view isr_view)

lemma interrupts_view: "interrupts es s = Some s' \<Longrightarrow> queue_view s' = queue_view s"
  by (induction es arbitrary: s) (auto split: bind_splits dest!: interrupt_view)

lemma window_view: "window s = Some s' \<Longrightarrow> queue_view s' = queue_view s"
  by (auto simp: window_def split: list.splits dest!: interrupts_view)

section \<open>A request that is never accepted\<close>

text \<open>The task is inside a callback of a request, and the slot where the queue ends has a callback.\<close>

definition in_callback :: "nat \<Rightarrow> sm \<Rightarrow> bool" where
  "in_callback i s \<longleftrightarrow> txMntOngoing s \<and>
     (case get_ser i s of None \<Rightarrow> False | Some x \<Rightarrow> (case nth_opt (txQueue x) (unat (txIn x)) of None \<Rightarrow> False | Some m \<Rightarrow> txCallback m \<noteq> NULL))"

lemma in_callback_view:
  "in_callback i s \<longleftrightarrow> fst (queue_view s) \<and> (case nth_opt (snd (queue_view s)) i of None \<Rightarrow> False
     | Some (k, cbs) \<Rightarrow> (case nth_opt cbs (unat k) of None \<Rightarrow> False | Some cb \<Rightarrow> cb \<noteq> NULL))"
  by (auto simp: in_callback_def queue_view_def get_ser_def nth_opt_def)

lemma write_loop_held:
  assumes "in_callback i s" "write_loop user fuel i msg k s = Some (st, s')"
  shows "st = None"
  using assms
proof (induction k arbitrary: s)
  case 0
  then show ?case by simp
next
  case (Suc k)
  obtain s1 where 1: "window s = Some s1" using Suc.prems(2) by (auto split: bind_splits)
  then have c1: "in_callback i s1" using Suc.prems(1) window_view in_callback_view by metis
  then obtain x m where x: "get_ser i s1 = Some x" "nth_opt (txQueue x) (unat (txIn x)) = Some m" "txCallback m \<noteq> NULL" "txMntOngoing s1"
    by (auto simp: in_callback_def split: option.splits)
  then have run: "write_loop user fuel i msg (Suc k) s = do {
      (done, s) \<leftarrow> Serial_TxQueueMaintenance user fuel i s1;
      if done then write_loop user fuel i msg k s else Some (None, s) }" using 1 by simp
  then obtain s2 where 2: "window s1 = Some s2" using Suc.prems(2) by (auto simp: Serial_TxQueueMaintenance_def split: bind_splits)
  then have c2: "in_callback i s2" using c1 window_view in_callback_view by metis
  then have "Serial_TxQueueMaintenance user fuel i s1 = Some (True, s2)" using 2 by (simp add: Serial_TxQueueMaintenance_def in_callback_def)
  then show ?case using run Suc.prems(2) Suc.IH [OF c2] by simp
qed


text \<open>C13: inside a callback of a request of an interface whose queue was full, a call of
  \<open>Serial_AsyncWrite\<close> for the interface does not return, whatever interrupts arrive and however long
  it waits: the slot it waits for is freed only when the callback has returned.\<close>

theorem serial_callback_write_hangs:
  assumes "in_callback (unat InterfaceId) s" "unat InterfaceId < length (mSerials s)" "serialType (mSerials s ! unat InterfaceId) \<noteq> gSerialMgrNone_c"
    "pBuf \<noteq> NULL" "bufLen \<noteq> 0" "Serial_AsyncWrite user fuel InterfaceId pBuf bufLen cb prm s = Some (st, s')"
  shows "st = None"
proof -
  have "write_loop user fuel (unat InterfaceId) \<lparr>txCallback = cb, pTxParam = prm, pData = pBuf, dataSize = bufLen\<rparr> fuel s = Some (st, s')"
    using assms(2-6) by (simp add: Serial_AsyncWrite_def del: write_loop.simps)
  then show ?thesis by (rule write_loop_held [OF assms(1)])
qed

text \<open>Five requests with callbacks; the first callback does not return, so that the state is the one
  inside it.\<close>

definition stop :: user where "stop cb prm s = Some (False, s)"

definition full_ops :: "client_op list" where
  "full_ops = map (Write 0x200 1 77) [1, 2, 3, 4, 5] @ [Task False]"

definition full_plan :: "irq list list" where
  "full_plan = replicate 11 [] @ replicate 20 [Tick 2]"

lemma full_run: "map_option (\<lambda>(go, rs, s). (go, in_callback 0 s, length (mSerials s), map serialType (mSerials s),
      Option.is_none (Serial_AsyncWrite silent 20 0 0x220 1 NULL NULL s))) (whole_run 2 stop 9 full_ops (board full_plan)) =
    Some (False, True, 1, [gSerialMgrLpuart_c], False)"
  by code_simp

lemma serial_callback_write_hangs_witness:
  "\<exists>rs s s'. whole_run 2 stop 9 full_ops (board full_plan) = Some (False, rs, s) \<and>
    Serial_AsyncWrite silent 20 0 0x220 1 NULL NULL s = Some (None, s')"
proof -
  obtain rs s where s: "whole_run 2 stop 9 full_ops (board full_plan) = Some (False, rs, s)" "in_callback 0 s" "length (mSerials s) = 1"
    "map serialType (mSerials s) = [gSerialMgrLpuart_c]" "\<not> Option.is_none (Serial_AsyncWrite silent 20 0 0x220 1 NULL NULL s)"
    using full_run by (cases "whole_run 2 stop 9 full_ops (board full_plan)") auto
  have ty: "serialType (mSerials s ! 0) = gSerialMgrLpuart_c" using s(3,4) by (cases "mSerials s") auto
  obtain st s' where w: "Serial_AsyncWrite silent 20 0 0x220 1 NULL NULL s = Some (st, s')"
    using s(5) by (cases "Serial_AsyncWrite silent 20 0 0x220 1 NULL NULL s") auto
  have "in_callback (unat (0 :: u8)) s" "unat (0 :: u8) < length (mSerials s)" "serialType (mSerials s ! unat (0 :: u8)) \<noteq> gSerialMgrNone_c"
    "(0x220 :: ptr) \<noteq> NULL" "(1 :: u16) \<noteq> 0" using s(2,3) ty by simp_all
  from serial_callback_write_hangs [OF this w] show ?thesis using s(1) w by blast
qed

end
