(* ===== verification/Spec2Isabelle.thy ===== *)
theory Spec2Isabelle
  imports Messaging Function_Lib Rpmsg_Link Timers_Manager OSA_Handles Mcmgr Serial_Interfaces Serial_Blocking
begin

text \<open>
  A verification library for the portable core of the RV32M1 SDK: the connectivity
  framework (\<open>middleware/wireless/framework_5.5.1\<close>) and RPMsg-Lite, through which the
  two cores of the chip talk (\<open>middleware/multicore_2.3.1/rpmsg_lite\<close>).

  \<^bold>\<open>The parts and how they interact.\<close> The framework is a stack of small services. Critical
  sections mask the interrupts and nest. Tasks run to completion, the most urgent one that has to
  run first, and wait for semaphores, mutexes, events and message queues by polling them. Lists
  are intrusive and doubly linked; the memory manager keeps the free blocks of each pool in such
  a list, and a message is a block of the memory manager whose header links it into a queue, which is again such a list. Timers
  are entries of a table driven by one hardware counter, an interrupt and a task. RPMsg-Lite
  stands apart: it moves messages between the cores through two virtqueues in shared memory,
  one per direction, each written by both cores at once, and hands what arrives to the
  callbacks of a table of endpoints. The serial manager queues what is to go over a serial line and
  buffers what comes in; the UART adapter moves the bytes in its interrupt handler, and a task of the
  OS abstraction, which is woken by an event, completes the requests. The multicore manager starts the second core and hands it a
  word of startup data by a protocol of events over the messaging unit of the chip.

  \<^bold>\<open>Theories.\<close>
  \<^item> \<open>Prelude\<close>: integer types of the target, checked array access, and the facts on lists, maps
    and words that the others share.
  \<^item> \<open>OSA_Irq\<close> (\<open>OSAbstraction/Source/fsl_os_abstraction_bm.c\<close>, critical sections): the
    nesting counter and the interrupt mask; balanced sections restore both.
  \<^item> \<open>OSA_Sched\<close> (the same file, tasks): control blocks in one memory, linked into a ring in the order
    of their priorities or into the free list; what every operation does to the ring, and the
    rounds of \<open>OSA_Start\<close>.
  \<^item> \<open>OSA_Objects\<close> (the same file, semaphores, mutexes, events and message queues): arrays of
    objects behind handles and the operations of each kind. \<open>OSA_Waits\<close>: the locale \<open>timed_wait\<close>
    states what polling an object with a timeout promises, in the build with the tick timer and in
    the default one without, where there are no timeouts, and is interpreted for the four kinds;
    message queues refine bounded sequences. \<open>OSA_Handles\<close>: the locale \<open>object_kind\<close> is the
    interface of creating and destroying, interpreted for the four kinds.
  \<^item> \<open>Generic_List\<close> (\<open>Lists/GenericList.c\<close>): descriptors and elements in two object stores, one
    definition per function; \<open>heap_refines\<close> relates the stores to sequences and each operation
    refines its counterpart. The locale \<open>fifo_queues\<close> is the interface of queues and is
    interpreted here and, for messages, in \<open>Messaging\<close>.
  \<^item> \<open>Mem_Manager\<close> (\<open>MemManager/Source/MemManager.c\<close>): pools, headers and the heap with their
    addresses; an invariant of the allocator, first fit, and a client that shows that no run of
    allocations and releases faults or hands out overlapping blocks. What a release of an address that
    is no block does is said as far as the word in the place of its header decides it.
  \<^item> \<open>Messaging\<close> (\<open>Messaging/Source/Messaging.c\<close>): queues of messages and their draining.
  \<^item> \<open>Function_Lib\<close> (\<open>FunctionLib/FunctionLib.c\<close>): the memory functions over a byte memory.
    Whether the core faults at unaligned 16- and 32-bit accesses is an argument of the aligned copy.
  \<^item> \<open>Virtqueue\<close> (\<open>lib/virtio/virtqueue.c\<close>, \<open>lib/include/virtio_ring.h\<close>): the ring and its two
    users. A ring update is a list of stores with the barriers between them. In the step relation
    the two cores interleave store by store, the stores of a call in any order that the barriers allow,
    and the look at the index of the other core is apart from the taking of the entry.
  \<^item> \<open>Rpmsg_Lite\<close> (\<open>rpmsg_lite.c\<close>, \<open>llist.c\<close>): endpoints, sending, receiving. The locales
    \<open>queue_port\<close> and \<open>rl_side\<close> state what a side needs of its virtqueues; both are interpreted
    for the master and for the remote.
  \<^item> \<open>Rpmsg_Link\<close> (\<open>rpmsg_lite.c\<close>, initialisation and shutdown): a link from the memory up, and the
    properties of RPMsg-Lite on it. The notifications that a core sends are recorded, and
    \<open>env_isr\<close> is what the other core does with one; the link comes up by the first of them.
  \<^item> \<open>Mcmgr\<close> (\<open>mcmgr/src/mcmgr.c\<close>, \<open>mcmgr_internal_core_api_rv32m1.c\<close>, \<open>mcmgr_mu_internal.c\<close>):
    starting the second core. Programs are resumptions with their waiting and interruption points;
    both cores and their interrupt handlers interleave over the messaging unit. The exchange of the
    startup data is shown to be the run of a small machine, whose invariant and measure give
    correctness and, when the second core asks for its data, completion.
  \<^item> \<open>Timers_Manager\<close> (\<open>TimersManager/Source/TimersManager.c\<close>, software timers): the tables, the
    interface, one run of the task as a function of each timer, runs of the whole interface.

  \<^item> \<open>Uart_Adapter\<close> (\<open>SerialManager/Source/UART_Adapter.c\<close>, LPUART): the peripheral with its data
    registers and shift register, and the functions and the interrupt handler that drive it.
  \<^item> \<open>Serial_Manager\<close> (\<open>SerialManager/Source/SerialManager.c\<close>): the interfaces with their rings, the
    operations, the task and printing, in the order of the file. \<open>Serial_Stream\<close>: the invariant of an
    interface, kept by every interrupt: rings as sequences, what is on the line and what is still to
    go. \<open>Serial_Session\<close>: each operation keeps it and comes to an end. \<open>Serial_Client\<close>: runs of a client
    from power-on. \<open>Serial_Props\<close>: their properties. \<open>Serial_Interfaces\<close>: the table of interfaces.
    \<open>Serial_Blocking\<close>: a request that is made in the callback of another one.

  \<^bold>\<open>State and errors.\<close> Each component has a record of its variables. An operation returns \<open>option\<close>:
  \<open>None\<close> is an access through a null or dangling pointer or outside an array, a failed
  \<open>RL_ASSERT\<close>, or a division by zero. So a theorem that an operation returns \<open>Some\<close> is also the
  theorem that it makes no such access. Error codes are values, as in the code. Integers are
  words of their width in C, and pointers are 32-bit words. Interrupt handlers, the other core
  and application callbacks are arguments or steps of a relation.

  \<^bold>\<open>Loops and bounds.\<close> Loops over a table count down the entries left, loops over bytes the bytes
  left. The walks over linked structures and the receive loop are \<open>partial_function (option)\<close>, so
  that not returning is \<open>None\<close>, and the theorems say that they return \<open>Some\<close>. Only the loops of
  the serial manager that wait for the hardware have a number of rounds: with too few, the answer is
  that the call still waits. They see one list of interrupts per point where the program can be
  interrupted; safety holds for all lists and rounds, and \<open>serial_write_returns\<close> says how many rounds are
  enough when the transmitter moves on: three for each byte and six. There are nine timers, as configured; RPMsg-Lite has its default of two buffers per
  direction where memory is laid out, and any power of two of them in \<open>Virtqueue\<close>.

  \<^bold>\<open>Not modelled.\<close> The drivers of the peripherals, startup code, the radio and its calibration, and
  the adapters for pins, flash, LEDs and keys are register access and have no state of their own
  to verify. The FreeRTOS ports, mbedTLS, wolfSSL, FatFs, the USB and SD stacks, CMSIS, the
  Qualcomm host driver and the Bluetooth interfaces are third-party code or wrap it. Of the
  modelled files, the timestamp services of the timers (RTC and PIT registers), the
  busy wait \<open>OSA_TimeDelay\<close>, the debug and
  tracking builds of the memory manager, \<open>virtqueue_free\<close> and \<open>virtqueue_dump\<close> are left out.
  Of the serial manager the LPUART interfaces of the bare-metal build are modelled; SPI, I2C, USB,
  FSCI and custom interfaces, the RTOS branches and the other kinds of UART, which the chip does not
  have, are left out, the receive FIFO of the peripheral is one byte long, and the application's callbacks leave the serial manager alone except where
  \<open>Serial_Blocking\<close> says otherwise. A byte is taken to be handled before the next one arrives.
  The calls of RPMsg-Lite are given an instance, an endpoint and a buffer; their answers to \<open>NULL\<close> ones are
  left out, and so is the messaging unit between a notification and \<open>env_isr\<close>. In the virtqueues loads happen in
  program order. In the multicore manager the interruption points are the accesses to the messaging unit.
  RPMsg-Lite queues, the name service, the shell and the non-volatile memory are not modelled: the
  first two are thin layers over the modelled calls, the shell is interactive text, and the
  non-volatile memory needs a model of the flash driver.
\<close>

end
